(* ===== verification/Prelude.thy ===== *)
theory Prelude
  imports Main "HOL-Library.Word"
begin

text \<open>
  Shared vocabulary of the development: the machine types of the Rust sources, results as sums,
  the few arithmetic operations of the Rust standard library the runtime uses, and generic lemmas
  about words, bits and lists that several components need.

  Conventions. A \<open>u8\<close>, \<open>u16\<close>, \<open>u32\<close>, \<open>u64\<close>, \<open>u128\<close> value is a word of that width; an
  \<open>i64\<close> is a 64-bit word read with \<open>sint\<close>. A \<open>usize\<close> and a count of bits or bytes is a \<open>nat\<close>
  (the target has 64-bit addresses, and every slice is shorter than \<open>2 ^ 61\<close> bytes; where a
  saturating or checking operation of the source can be observed it is written out). A
  \<open>Result<T, E>\<close> is \<open>E + T\<close>.
\<close>

unbundle bit_operations_syntax

type_synonym u8 = "8 word"
type_synonym u16 = "16 word"
type_synonym u32 = "32 word"
type_synonym u64 = "64 word"
type_synonym u128 = "128 word"
type_synonym i64 = "64 word"
type_synonym usize = nat

named_theorems bits_at "which bit of a result is which bit of an argument"
named_theorems len_simps "lengths of encoded byte and bit lists"

section \<open>Results\<close>

text \<open>The \<open>?\<close> operator: an error returns at once, a value goes on.\<close>

fun bind_res :: "'e + 'a \<Rightarrow> ('a \<Rightarrow> 'e + 'b) \<Rightarrow> 'e + 'b" where
  "bind_res (Inl e) f = Inl e"
| "bind_res (Inr x) f = f x"

lemma bind_res_cong [fundef_cong]:
  "m = m' \<Longrightarrow> (\<And>x. m' = Inr x \<Longrightarrow> f x = f' x) \<Longrightarrow> bind_res m f = bind_res m' f'"
  by (cases m') auto

lemma bind_res_Inr_iff:
  "bind_res m f = Inr y \<longleftrightarrow> (\<exists>x. m = Inr x \<and> f x = Inr y)"
  by (cases m) auto

lemma bind_res_Inl_iff:
  "bind_res m f = Inl e \<longleftrightarrow> m = Inl e \<or> (\<exists>x. m = Inr x \<and> f x = Inl e)"
  by (cases m) auto

fun map_res :: "('a \<Rightarrow> 'b) \<Rightarrow> 'e + 'a \<Rightarrow> 'e + 'b" where
  "map_res f (Inl e) = Inl e"
| "map_res f (Inr x) = Inr (f x)"

fun is_ok :: "'e + 'a \<Rightarrow> bool" where
  "is_ok (Inl _) = False"
| "is_ok (Inr _) = True"

section \<open>Arithmetic of the Rust standard library\<close>

definition div_ceil :: "nat \<Rightarrow> nat \<Rightarrow> nat" where
  "div_ceil n d = (n + d - 1) div d"

lemma div_ceil_8_le_iff: "div_ceil n 8 \<le> m \<longleftrightarrow> n \<le> 8 * m"
  unfolding div_ceil_def by linarith

lemma div_ceil_8_mult [simp]: "div_ceil (8 * n) 8 = n" "div_ceil (n * 8) 8 = n"
  by (simp_all add: div_ceil_def)

lemma div_8_eqI: "8 * q \<le> i \<Longrightarrow> i < 8 * (q + 1) \<Longrightarrow> i div 8 = q" for i :: nat
  by (rule div_nat_eqI) auto

definition u64_max :: nat where
  "u64_max = 2 ^ 64 - 1"

definition saturating_add_u64 :: "nat \<Rightarrow> nat \<Rightarrow> nat" where
  "saturating_add_u64 a b = min (a + b) u64_max"

section \<open>Iterators of the Rust standard library\<close>

text \<open>\<open>position\<close>, \<open>find_map\<close>, \<open>Option::is_none_or\<close> and \<open>join\<close>; a name as messages quote it.\<close>

fun index_where :: "('a \<Rightarrow> bool) \<Rightarrow> 'a list \<Rightarrow> nat option" where
  "index_where p [] = None"
| "index_where p (x # xs) = (if p x then Some 0 else map_option Suc (index_where p xs))"

lemma index_where_Some: "index_where p xs = Some i \<Longrightarrow> i < length xs \<and> p (xs ! i)"
  by (induction xs arbitrary: i) (auto split: if_splits)

fun find_map :: "('a \<Rightarrow> 'b option) \<Rightarrow> 'a list \<Rightarrow> 'b option" where
  "find_map f [] = None"
| "find_map f (x # xs) = (case f x of Some y \<Rightarrow> Some y | None \<Rightarrow> find_map f xs)"

fun none_or :: "('a \<Rightarrow> bool) \<Rightarrow> 'a option \<Rightarrow> bool" where
  "none_or p None = True"
| "none_or p (Some x) = p x"

definition quoted :: "string \<Rightarrow> string" where
  "quoted s = ''`'' @ s @ ''`''"

fun joined :: "string \<Rightarrow> string list \<Rightarrow> string" where
  "joined sep [] = []"
| "joined sep [x] = x"
| "joined sep (x # y # zs) = x @ sep @ joined sep (y # zs)"

lemma find_upt_None: "find p [0..<n] = None \<longleftrightarrow> (\<forall>i < n. \<not> p i)"
  by (auto simp: find_None_iff)

lemma find_upt_Some: "find p [0..<n] = Some i \<Longrightarrow> i < n \<and> p i"
  by (auto simp: find_Some_iff)

section \<open>Tables of flags\<close>

definition missing :: "bool list \<Rightarrow> nat" where
  "missing found = length (filter Not found)"

lemma missing_update: "i < length found \<Longrightarrow> \<not> found ! i \<Longrightarrow> Suc (missing (found[i := True])) = missing found"
proof (induction found arbitrary: i)
  case (Cons b bs)
  then show ?case by (cases i) (auto simp: missing_def)
qed simp

lemma missing_zero: "missing found = 0 \<longleftrightarrow> (\<forall>i < length found. found ! i)"
  by (simp add: missing_def filter_empty_conv all_set_conv_all_nth)

lemma missing_replicate [simp]: "missing (replicate n False) = n"
  by (simp add: missing_def)

end
