(* ===== verification/Masks.thy ===== *)
theory Masks
  imports Prelude
begin

text \<open>
  Low-bit masks (\<open>layline-core/src/mask.rs\<close>). Both functions saturate at the width of their
  word. The lemmas identify them with the library's \<open>mask\<close>, so that every later component
  works with \<open>take_bit\<close>.
\<close>

definition mask64 :: "nat \<Rightarrow> u64" where
  "mask64 bits = (if 64 \<le> bits then - 1 else push_bit bits 1 - 1)"

definition mask128 :: "nat \<Rightarrow> u128" where
  "mask128 bits = (if 128 \<le> bits then - 1 else push_bit bits 1 - 1)"

lemma mask64_eq: "mask64 n = mask n"
  by (rule bit_word_eqI) (auto simp: mask64_def bit_simps simp flip: mask_eq_exp_minus_1)

lemma mask128_eq: "mask128 n = mask n"
  by (rule bit_word_eqI) (auto simp: mask128_def bit_simps simp flip: mask_eq_exp_minus_1)

end
