(* ===== verification/Errors.thy ===== *)
theory Errors
  imports Prelude
begin

text \<open>
  The decode error type (\<open>layline-core/src/message.rs\<close>) and \<open>ParseError::rebased\<close>, by which a
  parent turns the byte positions a nested decode reports into positions in its own bytes. A
  position is a \<open>usize\<close>; \<open>&'static str\<close> fields are strings and \<open>&'static [u8]\<close> is a byte list.
\<close>

definition MAX_NESTING_DEPTH :: nat where
  "MAX_NESTING_DEPTH = 128"

datatype parse_error =
    Short usize usize usize \<comment> \<open>\<open>need_bytes\<close>, \<open>got_bytes\<close>, \<open>at\<close>\<close>
  | Malformed string usize \<comment> \<open>\<open>field\<close>, \<open>at\<close>\<close>
  | Checksum string i64 i64 \<comment> \<open>\<open>field\<close>, \<open>expected\<close>, \<open>actual\<close>\<close>
  | Prefix u64 u64 \<comment> \<open>\<open>expected\<close>, \<open>got\<close>\<close>
  | OutOfRange string i64 i64 i64 \<comment> \<open>\<open>field\<close>, \<open>value\<close>, \<open>lo\<close>, \<open>hi\<close>\<close>
  | Magic string "u8 list" usize \<comment> \<open>\<open>field\<close>, \<open>expected\<close>, \<open>at\<close>\<close>
  | TooDeep nat \<comment> \<open>\<open>limit\<close>\<close>

fun rebased :: "parse_error \<Rightarrow> usize \<Rightarrow> parse_error" where
  "rebased (Short need_bytes got_bytes at) base = Short need_bytes got_bytes (at + base)"
| "rebased (Malformed field at) base = Malformed field (at + base)"
| "rebased (Magic field expected at) base = Magic field expected (at + base)"
| "rebased other base = other"

text \<open>The position an error carries, if it carries one.\<close>

fun position_of :: "parse_error \<Rightarrow> usize option" where
  "position_of (Short _ _ at) = Some at"
| "position_of (Malformed _ at) = Some at"
| "position_of (Magic _ _ at) = Some at"
| "position_of _ = None"

lemma position_of_rebased: "position_of (rebased e base) = map_option (\<lambda>at. at + base) (position_of e)"
  by (cases e) auto

lemma rebased_0: "rebased e 0 = e"
  by (cases e) auto

lemma rebased_rebased: "rebased (rebased e a) b = rebased e (a + b)"
  by (cases e) auto

lemma rebased_inj: "rebased e base = rebased e' base \<Longrightarrow> e = e'"
  by (cases e; cases e') auto

text \<open>A position a nested decode reports becomes the position in the outermost bytes however
  many parents rebase it, and the rest of the error is unchanged.\<close>

lemma rebased_composes:
  "rebased (rebased e a) b = rebased e (a + b)
    \<and> position_of (rebased e a) = map_option (\<lambda>at. at + a) (position_of e)"
  using rebased_rebased position_of_rebased by simp

end
