(* ===== verification/Extents.thy ===== *)
theory Extents
  imports Masks
begin

text \<open>
  Field positions within a container (\<open>layline-core/src/extent.rs\<close>): a bit offset and a width, and
  the accessors that read and write the field in a 128-bit container. \<open>None\<close> is a panic: the
  \<open>assert!\<close> of \<open>new\<close>, the \<open>debug_assert!\<close> of \<open>extract_wide\<close> and the shift overflow of
  \<open>insert_wide\<close>.
\<close>

record extent =
  ext_start :: nat
  ext_width :: nat

definition extent_new :: "nat \<Rightarrow> nat \<Rightarrow> extent option" where
  "extent_new start width =
     (if 1 \<le> width then Some \<lparr>ext_start = start, ext_width = width\<rparr> else None)"

definition extent_end :: "extent \<Rightarrow> nat" where
  "extent_end e = ext_start e + ext_width e"

definition mask_wide :: "extent \<Rightarrow> u128" where
  "mask_wide e = mask128 (ext_width e)"

definition extract_wide :: "extent \<Rightarrow> u128 \<Rightarrow> u128 option" where
  "extract_wide e word =
     (if extent_end e \<le> 128 then Some (drop_bit (ext_start e) word AND mask_wide e) else None)"

definition insert_wide :: "extent \<Rightarrow> u128 \<Rightarrow> u128 \<Rightarrow> u128 option" where
  "insert_wide e word v =
     (if ext_start e < 128
      then Some ((word AND NOT (push_bit (ext_start e) (mask_wide e)))
                 OR push_bit (ext_start e) (v AND mask_wide e))
      else None)"

definition extract_u64 :: "extent \<Rightarrow> u128 \<Rightarrow> u64 option" where
  "extract_u64 e word = map_option (\<lambda>w. ucast w) (extract_wide e word)"

definition insert_u64 :: "extent \<Rightarrow> u128 \<Rightarrow> u64 \<Rightarrow> u128 option" where
  "insert_u64 e word v = insert_wide e word (ucast v)"

section \<open>Bit-level meaning\<close>

lemma bit_extract_wide:
  assumes "extract_wide e w = Some v"
  shows "bit v n \<longleftrightarrow> n < ext_width e \<and> bit w (ext_start e + n)"
  using assms
  by (auto simp: extract_wide_def mask_wide_def mask128_eq bit_simps ac_simps extent_end_def
      dest: bit_imp_le_length split: if_splits)

lemma bit_insert_wide:
  assumes "insert_wide e w v = Some w'" and "n < 128"
  shows "bit w' n \<longleftrightarrow>
    (if ext_start e \<le> n \<and> n < extent_end e then bit v (n - ext_start e) else bit w n)"
  using assms
  by (auto simp: insert_wide_def mask_wide_def mask128_eq bit_simps extent_end_def not_less
      less_diff_conv2 split: if_splits)

lemma extract_wide_Some: "extent_end e \<le> 128 \<Longrightarrow> \<exists>v. extract_wide e w = Some v"
  by (simp add: extract_wide_def)

lemma insert_wide_Some: "extent_end e \<le> 128 \<Longrightarrow> 1 \<le> ext_width e \<Longrightarrow> \<exists>w'. insert_wide e w v = Some w'"
  by (simp add: insert_wide_def extent_end_def)

lemma extract_insert_same:
  assumes "insert_wide e w v = Some w'" and "extent_end e \<le> 128"
  shows "extract_wide e w' = Some (v AND mask128 (ext_width e))"
proof -
  obtain x where x: "extract_wide e w' = Some x"
    using extract_wide_Some [OF assms(2)] by blast
  have "x = v AND mask128 (ext_width e)"
  proof (rule bit_word_eqI)
    fix n assume "n < LENGTH(128)"
    then show "bit x n \<longleftrightarrow> bit (v AND mask128 (ext_width e)) n"
      using assms(2) bit_insert_wide [OF assms(1), of "ext_start e + n"]
      by (auto simp: bit_extract_wide [OF x] mask128_eq bit_simps extent_end_def)
  qed
  with x show ?thesis by simp
qed

lemma extract_insert_disjoint:
  assumes "insert_wide e w v = Some w'" and "extent_end f \<le> 128"
    and "extent_end e \<le> ext_start f \<or> extent_end f \<le> ext_start e"
  shows "extract_wide f w' = extract_wide f w"
proof -
  obtain x y where xy: "extract_wide f w' = Some x" "extract_wide f w = Some y"
    using extract_wide_Some [OF assms(2)] by blast
  have "x = y"
  proof (rule bit_word_eqI)
    fix n assume "n < LENGTH(128)"
    show "bit x n \<longleftrightarrow> bit y n"
      using assms(2,3) bit_insert_wide [OF assms(1), of "ext_start f + n"]
      by (auto simp: bit_extract_wide [OF xy(1)] bit_extract_wide [OF xy(2)] extent_end_def)
  qed
  with xy show ?thesis by simp
qed

lemma insert_extract_id:
  assumes "extract_wide e w = Some v" and "ext_start e < 128"
  shows "insert_wide e w v = Some w"
proof -
  from assms(2) obtain w' where w': "insert_wide e w v = Some w'"
    by (auto simp: insert_wide_def)
  have "w' = w"
    by (rule bit_word_eqI)
      (auto simp: bit_insert_wide [OF w'] bit_extract_wide [OF assms(1)] extent_end_def)
  with w' show ?thesis by simp
qed

section \<open>Properties\<close>

text \<open>C23: a field written into a container reads back cut to its width, and no other field that
  does not overlap it changes.\<close>

theorem extent_insert_extract:
  assumes "insert_wide e w v = Some w'" "extent_end e \<le> 128"
  shows "extract_wide e w' = Some (v AND mask128 (ext_width e))
    \<and> (\<forall>f. extent_end f \<le> 128 \<and> (extent_end e \<le> ext_start f \<or> extent_end f \<le> ext_start e)
          \<longrightarrow> extract_wide f w' = extract_wide f w)"
  using extract_insert_same [OF assms] extract_insert_disjoint [OF assms(1)] by blast

theorem extent_insert_extract_witness:
  "extract_wide \<lparr>ext_start = 4, ext_width = 8\<rparr> 0x5AB5 = Some 0xAB
    \<and> extract_wide \<lparr>ext_start = 12, ext_width = 4\<rparr> 0x5AB5 = extract_wide \<lparr>ext_start = 12, ext_width = 4\<rparr> 0x5FF5"
  using extent_insert_extract [of "\<lparr>ext_start = 4, ext_width = 8\<rparr>" "0x5FF5" "0xAB" "0x5AB5"]
  by (simp add: insert_wide_def mask_wide_def mask128_eq mask_eq_exp_minus_1 extent_end_def)

end
