(* ===== verification/BitWords.thy ===== *)
theory BitWords
  imports Extents
begin

text \<open>
  A bit container loaded from wire bytes (\<open>layline-core/src/word.rs\<close>). The const parameters
  \<open>DATA_BITS\<close> and \<open>WIRE_BYTES\<close> are arguments, a \<open>[u8; WIRE_BYTES]\<close> is a byte list of that
  length, and the container is its \<open>bits\<close>. \<open>bw_mask\<close> is the associated constant \<open>MASK\<close>, whose
  assertions stop the build: \<open>None\<close>.
\<close>

definition bw_mask :: "nat \<Rightarrow> nat \<Rightarrow> u128 option" where
  "bw_mask data_bits wire_bytes =
     (if 1 \<le> data_bits \<and> data_bits \<le> 128 \<and> data_bits = wire_bytes * 8
      then Some (mask128 data_bits) else None)"

definition bw_zeroed :: u128 where
  "bw_zeroed = 0"

definition from_wire :: "nat \<Rightarrow> nat \<Rightarrow> u8 list \<Rightarrow> u128 option" where
  "from_wire data_bits wire_bytes bytes =
     map_option (\<lambda>m.
         foldl (\<lambda>bits i. bits OR push_bit (i * 8) (ucast (bytes ! i))) 0 [0..<wire_bytes] AND m)
       (bw_mask data_bits wire_bytes)"

definition to_wire :: "nat \<Rightarrow> u128 \<Rightarrow> u8 list" where
  "to_wire wire_bytes bits = map (\<lambda>i. ucast (drop_bit (i * 8) bits)) [0..<wire_bytes]"

definition from_wire_be :: "nat \<Rightarrow> nat \<Rightarrow> u8 list \<Rightarrow> u128 option" where
  "from_wire_be data_bits wire_bytes bytes =
     map_option (\<lambda>m.
         foldl (\<lambda>bits i. bits OR push_bit ((wire_bytes - 1 - i) * 8) (ucast (bytes ! i)))
           0 [0..<wire_bytes] AND m)
       (bw_mask data_bits wire_bytes)"

definition to_wire_be :: "nat \<Rightarrow> u128 \<Rightarrow> u8 list" where
  "to_wire_be wire_bytes bits =
     map (\<lambda>i. ucast (drop_bit ((wire_bytes - 1 - i) * 8) bits)) [0..<wire_bytes]"

definition set_raw :: "nat \<Rightarrow> nat \<Rightarrow> u128 \<Rightarrow> u128 option" where
  "set_raw data_bits wire_bytes bits =
     map_option (\<lambda>m. bits AND m) (bw_mask data_bits wire_bytes)"

section \<open>Bit-level meaning\<close>

lemma bit_foldl_or:
  "bit (foldl (\<lambda>bits i. bits OR f i) z xs) n \<longleftrightarrow> bit z n \<or> (\<exists>i\<in>set xs. bit (f i) n)"
  for z :: "'a::len word"
  by (induction xs arbitrary: z) (auto simp: bit_simps)

lemma bit_push_byte:
  "bit (push_bit (i * 8) (ucast b) :: u128) n \<longleftrightarrow> n < 128 \<and> n div 8 = i \<and> bit b (n mod 8)"
  for b :: u8
proof -
  have small: "bit b k \<Longrightarrow> k < 8" for k
    using bit_imp_le_length [of b k] by simp
  have div: "i * 8 \<le> n \<and> n - i * 8 < 8 \<longleftrightarrow> n div 8 = i"
    by auto
  have "n div 8 = i \<Longrightarrow> n mod 8 = n - i * 8"
    by (simp add: modulo_nat_def)
  with div have "i * 8 \<le> n \<and> bit b (n - i * 8) \<longleftrightarrow> n div 8 = i \<and> bit b (n mod 8)"
    by (metis small)
  moreover have "n < 128 \<Longrightarrow> n - i * 8 < 128" by (rule less_imp_diff_less)
  ultimately show ?thesis
    by (simp add: bit_simps) blast
qed

lemma bit_from_wire:
  assumes "from_wire d w bytes = Some x" and "n < 8 * w"
  shows "bit x n \<longleftrightarrow> bit (bytes ! (n div 8)) (n mod 8)"
  using assms
  by (auto simp: from_wire_def bw_mask_def bit_foldl_or bit_push_byte bit_and_iff mask128_eq
      bit_mask_iff split: if_splits)

lemma from_wire_Some:
  "1 \<le> w \<Longrightarrow> w \<le> 16 \<Longrightarrow> \<exists>x. from_wire (8 * w) w bytes = Some x"
  by (simp add: from_wire_def bw_mask_def)

lemma from_wire_upper:
  assumes "from_wire d w bytes = Some x" and "8 * w \<le> n"
  shows "\<not> bit x n"
  using assms
  by (auto simp: from_wire_def bw_mask_def bit_and_iff mask128_eq bit_mask_iff split: if_splits)

lemma length_to_wire [len_simps]: "length (to_wire w x) = w" "length (to_wire_be w x) = w"
  by (simp_all add: to_wire_def to_wire_be_def)

lemma bit_to_wire:
  "i < w \<Longrightarrow> bit (to_wire w x ! i) k \<longleftrightarrow> k < 8 \<and> bit x (8 * i + k)"
  by (simp add: to_wire_def bit_simps mult.commute)

lemma to_wire_be_rev: "to_wire_be w x = rev (to_wire w x)"
  by (rule nth_equalityI) (auto simp: to_wire_def to_wire_be_def rev_nth)

lemma from_wire_be_rev:
  assumes "length bytes = w"
  shows "from_wire_be d w bytes = from_wire d w (rev bytes)"
proof -
  have "foldl (\<lambda>bits i. bits OR push_bit ((w - 1 - i) * 8) (ucast (bytes ! i))) 0 [0..<w]
      = (foldl (\<lambda>bits i. bits OR push_bit (i * 8) (ucast (rev bytes ! i))) 0 [0..<w] :: u128)"
    (is "?l = ?r")
  proof (rule bit_word_eqI)
    fix n assume n: "n < LENGTH(128)"
    have "(\<exists>i\<in>{0..<w}. n div 8 = w - 1 - i \<and> bit (bytes ! i) (n mod 8)) \<longleftrightarrow>
          (\<exists>i\<in>{0..<w}. n div 8 = i \<and> bit (bytes ! (w - 1 - i)) (n mod 8))"
      (is "?a \<longleftrightarrow> ?b")
    proof
      assume ?a
      then obtain i where "i < w" "n div 8 = w - 1 - i" "bit (bytes ! i) (n mod 8)" by auto
      moreover from this have "w - 1 - (n div 8) = i" by simp
      ultimately show ?b by (intro bexI [of _ "n div 8"]) auto
    next
      assume ?b
      then obtain i where "i < w" "n div 8 = i" "bit (bytes ! (w - 1 - i)) (n mod 8)" by auto
      then show ?a by (intro bexI [of _ "w - 1 - i"]) auto
    qed
    then show "bit ?l n \<longleftrightarrow> bit ?r n"
      using n assms by (auto simp: bit_foldl_or bit_push_byte rev_nth)
  qed
  then show ?thesis by (simp add: from_wire_be_def from_wire_def)
qed

section \<open>Round trips\<close>

lemma to_wire_from_wire:
  assumes "from_wire d w bytes = Some x" and "length bytes = w"
  shows "to_wire w x = bytes"
proof (rule nth_equalityI)
  show "length (to_wire w x) = length bytes"
    using assms by (simp add: len_simps)
  fix i assume i: "i < length (to_wire w x)"
  show "to_wire w x ! i = bytes ! i"
  proof (rule bit_word_eqI)
    fix k assume "k < LENGTH(8)"
    with i show "bit (to_wire w x ! i) k \<longleftrightarrow> bit (bytes ! i) k"
      using bit_from_wire [OF assms(1), of "8 * i + k"] by (auto simp: bit_to_wire len_simps)
  qed
qed

lemma from_wire_to_wire:
  assumes "1 \<le> w" "w \<le> 16" and "x AND mask128 (8 * w) = x"
  shows "from_wire (8 * w) w (to_wire w x) = Some x"
proof -
  obtain y where y: "from_wire (8 * w) w (to_wire w x) = Some y"
    using from_wire_Some [OF assms(1,2)] by blast
  have upper: "bit x n \<Longrightarrow> n < 8 * w" for n
  proof -
    assume "bit x n"
    then have "bit (x AND mask128 (8 * w)) n" by (simp only: assms(3))
    then show ?thesis by (simp add: mask128_eq bit_simps)
  qed
  have "y = x"
  proof (rule bit_word_eqI)
    fix n assume "n < LENGTH(128)"
    show "bit y n \<longleftrightarrow> bit x n"
    proof (cases "n < 8 * w")
      case True
      then have "n div 8 < w" by linarith
      with True show ?thesis
        by (simp add: bit_from_wire [OF y] bit_to_wire)
    next
      case False
      then show ?thesis using upper from_wire_upper [OF y, of n] by auto
    qed
  qed
  with y show ?thesis by simp
qed

lemma to_wire_be_from_wire_be:
  assumes "from_wire_be d w bytes = Some x" and "length bytes = w"
  shows "to_wire_be w x = bytes"
  using to_wire_from_wire [of d w "rev bytes" x] assms
  by (simp add: from_wire_be_rev to_wire_be_rev)

lemma from_wire_be_to_wire_be:
  assumes "1 \<le> w" "w \<le> 16" and "x AND mask128 (8 * w) = x"
  shows "from_wire_be (8 * w) w (to_wire_be w x) = Some x"
  using from_wire_to_wire [OF assms]
  by (simp add: from_wire_be_rev to_wire_be_rev len_simps)

section \<open>Properties\<close>

text \<open>A container of 1 to 16 bytes survives the wire in both byte orders, in both directions,
  and the two orders are each other's reversal.\<close>

lemma wire_word_round_trips:
  assumes "1 \<le> w" "w \<le> 16"
  shows "(x AND mask128 (8 * w) = x \<longrightarrow>
       from_wire (8 * w) w (to_wire w x) = Some x \<and> from_wire_be (8 * w) w (to_wire_be w x) = Some x)
    \<and> (length bytes = w \<longrightarrow> (\<exists>y. from_wire (8 * w) w bytes = Some y \<and> to_wire w y = bytes
         \<and> from_wire_be (8 * w) w (rev bytes) = Some y \<and> to_wire_be w y = rev bytes))"
proof -
  have "\<exists>y. from_wire (8 * w) w bytes = Some y"
    using assms by (auto simp: from_wire_def bw_mask_def)
  then show ?thesis
    using from_wire_to_wire [OF assms] from_wire_be_to_wire_be [OF assms] to_wire_from_wire [of _ w bytes]
      from_wire_be_rev [of "rev bytes" w] by (auto simp: to_wire_be_rev)
qed

lemma wire_word_round_trips_witness:
  "from_wire 16 2 (to_wire 2 0x1234) = Some 0x1234 \<and> (\<exists>y. from_wire 16 2 [0x34, 0x12] = Some y \<and> to_wire 2 y = [0x34, 0x12])"
  using wire_word_round_trips [of 2 "0x1234" "[0x34, 0x12]"] by (auto simp: mask128_eq mask_eq_exp_minus_1)

end
