(* ===== verification/Codecs.thy ===== *)
theory Codecs
  imports Masks
begin

text \<open>
  Fixed-width field types (\<open>layline-core/src/codec.rs\<close>, \<open>int.rs\<close>, \<open>num.rs\<close>). The trait
  \<open>FieldCodec\<close> is the record \<open>field_codec\<close> of its items; a generic type such as \<open>U<N>\<close> is a function from
  its const parameters to such a record. An associated constant whose evaluation can stop the
  build is an option, \<open>None\<close> when it does. A float is its bit pattern, which is what
  \<open>from_bits\<close> and \<open>to_bits\<close> convert from and to.

  Two contracts. Every codec reads back what it wrote (\<open>codec_laws\<close>); all but \<open>Nonzero\<close> also keep every bit
  pattern of their width (\<open>exact_codec\<close>), as the trait's documentation asks.
\<close>

record 'c field_codec =
  BITS :: "nat option"
  from_raw :: "u64 \<Rightarrow> 'c"
  to_raw :: "'c \<Rightarrow> u64"

locale codec_laws =
  fixes C :: "'c field_codec" and valid :: "'c \<Rightarrow> bool"
  assumes bits_range: "BITS C = Some n \<Longrightarrow> 1 \<le> n \<and> n \<le> 64"
    and to_raw_fits: "BITS C = Some n \<Longrightarrow> valid v \<Longrightarrow> take_bit n (to_raw C v) = to_raw C v"
    and valid_from_raw: "BITS C = Some n \<Longrightarrow> valid (from_raw C raw)"
    and from_to_raw: "BITS C = Some n \<Longrightarrow> valid v \<Longrightarrow> from_raw C (to_raw C v) = v"
begin

lemma to_raw_inj:
  "BITS C = Some n \<Longrightarrow> valid v \<Longrightarrow> valid w \<Longrightarrow> to_raw C v = to_raw C w \<Longrightarrow> v = w"
  by (metis from_to_raw)

text \<open>Re-encoding is idempotent: a decoded value is a fixed point of encode and decode.\<close>

lemma normalise: "BITS C = Some n \<Longrightarrow> from_raw C (to_raw C (from_raw C raw)) = from_raw C raw"
  by (blast intro: from_to_raw valid_from_raw)

end

locale exact_codec = codec_laws +
  assumes to_from_raw:
    "BITS C = Some n \<Longrightarrow> take_bit n raw = raw \<Longrightarrow> to_raw C (from_raw C raw) = raw"
begin

lemma from_raw_inj:
  "BITS C = Some n \<Longrightarrow> take_bit n r = r \<Longrightarrow> take_bit n s = s \<Longrightarrow> from_raw C r = from_raw C s \<Longrightarrow> r = s"
  by (metis to_from_raw)

end

section \<open>\<open>bool\<close>, floats and \<open>Nonzero\<close>\<close>

definition bool_codec :: "bool field_codec" where
  "bool_codec = \<lparr>BITS = Some 1, from_raw = (\<lambda>raw. raw AND 1 \<noteq> 0),
     to_raw = (\<lambda>b. if b then 1 else 0)\<rparr>"

definition f32_codec :: "u32 field_codec" where
  "f32_codec = \<lparr>BITS = Some 32, from_raw = (\<lambda>raw. ucast raw), to_raw = (\<lambda>bits. ucast bits)\<rparr>"

definition f64_codec :: "u64 field_codec" where
  "f64_codec = \<lparr>BITS = Some 64, from_raw = (\<lambda>raw. raw), to_raw = (\<lambda>bits. bits)\<rparr>"

definition nonzero_codec :: "nat \<Rightarrow> bool field_codec" where
  "nonzero_codec N = \<lparr>BITS = (if 1 \<le> N \<and> N \<le> 64 then Some N else None),
     from_raw = (\<lambda>raw. raw \<noteq> 0), to_raw = (\<lambda>set. if set then 1 else 0)\<rparr>"

section \<open>\<open>U<N>\<close> and \<open>I<N>\<close>\<close>

definition checked_width :: "nat \<Rightarrow> nat option" where
  "checked_width n = (if 1 \<le> n \<and> n \<le> 64 then Some n else None)"

definition u_max :: "nat \<Rightarrow> u64" where
  "u_max N = mask64 N"

definition u_new :: "nat \<Rightarrow> u64 \<Rightarrow> u64 option" where
  "u_new N v = (if v \<le> mask64 N then Some v else None)"

definition u_codec :: "nat \<Rightarrow> u64 field_codec" where
  "u_codec N = \<lparr>BITS = checked_width N, from_raw = (\<lambda>raw. raw AND mask64 N), to_raw = (\<lambda>v. v)\<rparr>"

definition sign_extend :: "u64 \<Rightarrow> nat \<Rightarrow> i64" where
  "sign_extend raw bits = (let shift = 64 - bits in signed_drop_bit shift (push_bit shift raw))"

definition i_max :: "nat \<Rightarrow> i64" where
  "i_max N = signed_drop_bit (64 - N) (mask 63)"

definition i_min :: "nat \<Rightarrow> i64" where
  "i_min N = signed_drop_bit (64 - N) (push_bit 63 1)"

definition i_new :: "nat \<Rightarrow> i64 \<Rightarrow> i64 option" where
  "i_new N v = (if i_min N <=s v \<and> v <=s i_max N then Some v else None)"

definition i_codec :: "nat \<Rightarrow> i64 field_codec" where
  "i_codec N = \<lparr>BITS = checked_width N, from_raw = (\<lambda>raw. sign_extend raw N),
     to_raw = (\<lambda>v. v AND mask64 N)\<rparr>"

section \<open>\<open>Reserved<C, RAW>\<close>\<close>

text \<open>A \<open>Reserved\<close> is its raw bits. \<open>reserved_const\<close> is the associated constant \<open>RESERVED\<close>.\<close>

definition reserved_const :: "'c field_codec \<Rightarrow> u64 \<Rightarrow> u64 option" where
  "reserved_const C RAW =
     (case BITS C of None \<Rightarrow> None
      | Some n \<Rightarrow> if RAW AND NOT (mask64 n) = 0 then Some RAW else None)"

definition reserved_none :: "'c field_codec \<Rightarrow> u64 \<Rightarrow> u64 option" where
  "reserved_none C RAW = reserved_const C RAW"

definition reserved_new :: "'c field_codec \<Rightarrow> 'c \<Rightarrow> u64" where
  "reserved_new C v = to_raw C v"

definition reserved_get :: "'c field_codec \<Rightarrow> u64 \<Rightarrow> u64 \<Rightarrow> 'c option" where
  "reserved_get C RAW self = (if self = RAW then None else Some (from_raw C self))"

definition reserved_codec :: "'c field_codec \<Rightarrow> u64 \<Rightarrow> u64 field_codec" where
  "reserved_codec C RAW =
     \<lparr>BITS = (case reserved_const C RAW of None \<Rightarrow> None | Some _ \<Rightarrow> BITS C),
      from_raw = (\<lambda>raw. raw AND mask64 (the (BITS C))), to_raw = (\<lambda>self. self)\<rparr>"

section \<open>Lemmas\<close>

lemma bit_sign_extend:
  assumes "1 \<le> n" "n \<le> 64" "k < 64"
  shows "bit (sign_extend raw n) k \<longleftrightarrow> bit raw (if k < n then k else n - 1)"
  using assms
  by (auto simp: sign_extend_def Let_def bit_signed_drop_bit_iff bit_push_bit_iff)

lemma bit_sint_64: "bit (sint v) k \<longleftrightarrow> bit v (min k 63)" for v :: i64
proof (cases "k < 64")
  case True
  then show ?thesis by (simp add: bit_sint_iff min_def)
next
  case False
  then have "\<not> bit v k" using bit_imp_le_length [of v k] by auto
  with False show ?thesis by (simp add: bit_sint_iff min_def)
qed

lemma sint_sign_extend:
  assumes "1 \<le> n" "n \<le> 64"
  shows "sint (sign_extend raw n) = signed_take_bit (n - 1) (uint raw)"
proof (rule bit_eqI)
  fix k
  have "bit (sint (sign_extend raw n)) k \<longleftrightarrow> bit raw (if min k 63 < n then min k 63 else n - 1)"
    using bit_sign_extend [OF assms, of "min k 63" raw] by (simp add: bit_sint_64)
  also have "(if min k 63 < n then min k 63 else n - 1) = min k (n - 1)"
    using assms by (auto simp: min_def)
  also have "bit raw (min k (n - 1)) \<longleftrightarrow> bit (signed_take_bit (n - 1) (uint raw)) k"
    using assms bit_imp_le_length [of raw "min k (n - 1)"]
    by (auto simp: bit_signed_take_bit_iff bit_uint_iff min.commute)
  finally show "bit (sint (sign_extend raw n)) k \<longleftrightarrow> bit (signed_take_bit (n - 1) (uint raw)) k" .
qed

definition i_valid :: "nat \<Rightarrow> i64 \<Rightarrow> bool" where
  "i_valid N v \<longleftrightarrow> signed_take_bit (N - 1) (sint v) = sint v"

definition u_valid :: "nat \<Rightarrow> u64 \<Rightarrow> bool" where
  "u_valid N v \<longleftrightarrow> take_bit N v = v"

lemma i_valid_range:
  assumes "1 \<le> N"
  shows "i_valid N v \<longleftrightarrow> - (2 ^ (N - 1)) \<le> sint v \<and> sint v < 2 ^ (N - 1)"
  unfolding i_valid_def by (simp add: signed_take_bit_int_eq_self_iff)

lemma u_valid_range:
  assumes "N \<le> 64"
  shows "u_valid N v \<longleftrightarrow> uint v < 2 ^ N"
proof -
  have "u_valid N v \<longleftrightarrow> take_bit N (uint v) = uint v"
    unfolding u_valid_def using assms
    by (metis unsigned_take_bit_eq unsigned_word_eqI)
  then show ?thesis
    by (simp add: take_bit_int_eq_self_iff)
qed

lemma sint_i_min:
  assumes "1 \<le> N" "N \<le> 64"
  shows "sint (i_min N) = - (2 ^ (N - 1))"
proof -
  have "sint (i_min N) = drop_bit (64 - N) (sint (push_bit 63 1 :: i64))"
    by (simp add: i_min_def sint_signed_drop_bit_eq)
  also have "sint (push_bit 63 1 :: i64) = - (2 ^ 63)"
    by (simp add: push_bit_eq_mult)
  also have "drop_bit (64 - N) (- (2 ^ 63)) = (- (2 ^ (N - 1)) :: int)"
  proof -
    have "(2::int) ^ 63 = 2 ^ (N - 1) * 2 ^ (64 - N)"
      using assms by (simp flip: power_add)
    then have "- ((2::int) ^ 63) = - (2 ^ (N - 1)) * 2 ^ (64 - N)" by simp
    then show ?thesis by (simp only: drop_bit_eq_div nonzero_mult_div_cancel_right
        power_not_zero zero_neq_numeral [symmetric] not_False_eq_True)
  qed
  finally show ?thesis .
qed

lemma sint_i_max:
  assumes "1 \<le> N" "N \<le> 64"
  shows "sint (i_max N) = 2 ^ (N - 1) - 1"
proof -
  have "sint (i_max N) = drop_bit (64 - N) (sint (mask 63 :: i64))"
    by (simp add: i_max_def sint_signed_drop_bit_eq)
  also have "sint (mask 63 :: i64) = mask 63"
    by (simp add: mask_eq_exp_minus_1)
  also have "drop_bit (64 - N) (mask 63 :: int) = mask (N - 1)"
    using assms by (simp add: drop_bit_mask_eq)
  finally show ?thesis by (simp add: mask_eq_exp_minus_1)
qed

lemma i_new_Some_iff:
  assumes "1 \<le> N" "N \<le> 64"
  shows "i_new N v = Some w \<longleftrightarrow> w = v \<and> i_valid N v"
  unfolding i_new_def word_sle_eq sint_i_min [OF assms] sint_i_max [OF assms] i_valid_range [OF assms(1)]
  by auto

lemma u_new_Some_iff:
  assumes "N \<le> 64"
  shows "u_new N v = Some w \<longleftrightarrow> w = v \<and> u_valid N v"
proof -
  have "uint (mask64 N) = 2 ^ N - 1"
    unfolding mask64_eq uint_mask_eq using assms by (simp add: min_def mask_eq_exp_minus_1)
  then have "v \<le> mask64 N \<longleftrightarrow> uint v < 2 ^ N"
    by (auto simp: word_le_def)
  then show ?thesis
    by (auto simp: u_new_def u_valid_range [OF assms])
qed

lemma take_bit_sign_extend:
  assumes "1 \<le> n" "n \<le> 64"
  shows "take_bit n (sign_extend raw n) = take_bit n raw"
  by (rule bit_word_eqI) (use assms in \<open>auto simp: bit_take_bit_iff bit_sign_extend\<close>)

lemma sign_extend_take_bit:
  assumes "1 \<le> n" "n \<le> 64"
  shows "sign_extend (take_bit n raw) n = sign_extend raw n"
  by (rule bit_word_eqI) (use assms in \<open>auto simp: bit_take_bit_iff bit_sign_extend\<close>)

lemma i_valid_iff:
  assumes "1 \<le> n" "n \<le> 64"
  shows "i_valid n v \<longleftrightarrow> sign_extend v n = v"
proof -
  have "signed_take_bit (n - 1) (uint v) = signed_take_bit (n - 1) (sint v)"
    by (rule bit_eqI)
      (use assms in \<open>auto simp: bit_signed_take_bit_iff bit_sint_64 bit_uint_iff min_def
          dest: bit_imp_le_length\<close>)
  then have "sint (sign_extend v n) = signed_take_bit (n - 1) (sint v)"
    by (simp only: sint_sign_extend [OF assms])
  then show ?thesis
    unfolding i_valid_def by (metis signed_word_eqI)
qed

lemma sign_extend_idem:
  assumes "1 \<le> n" "n \<le> 64"
  shows "sign_extend (sign_extend raw n) n = sign_extend raw n"
  by (rule bit_word_eqI) (use assms in \<open>auto simp: bit_sign_extend\<close>)

lemma checked_width_Some: "checked_width N = Some n \<longleftrightarrow> n = N \<and> 1 \<le> n \<and> n \<le> 64"
  by (auto simp: checked_width_def)

lemma and_mask64: "v AND mask64 n = take_bit n v"
  by (simp add: mask64_eq take_bit_eq_mask)

section \<open>\<open>Reserved\<close> over any codec\<close>

context codec_laws
begin

lemma reserved_get_none: "reserved_none C RAW = Some r \<Longrightarrow> reserved_get C RAW r = None"
  by (auto simp: reserved_none_def reserved_const_def reserved_get_def split: option.splits if_splits)

lemma reserved_get_new:
  "BITS C = Some n \<Longrightarrow> valid v \<Longrightarrow>
    reserved_get C RAW (reserved_new C v) = (if to_raw C v = RAW then None else Some v)"
  by (simp add: reserved_get_def reserved_new_def from_to_raw)

lemma reserved_exact:
  "exact_codec (reserved_codec C RAW) (\<lambda>r. \<forall>n. BITS C = Some n \<longrightarrow> take_bit n r = r)"
proof
  fix n raw
  assume *: "BITS (reserved_codec C RAW) = Some n" "take_bit n raw = (raw :: u64)"
  then show "to_raw (reserved_codec C RAW) (from_raw (reserved_codec C RAW) raw) = raw"
    by (auto simp: reserved_codec_def reserved_const_def and_mask64 split: option.splits if_splits)
qed (auto simp: reserved_codec_def reserved_const_def and_mask64 dest: bits_range
      split: option.splits if_splits)

end

section \<open>The contracts, discharged\<close>

interpretation bool_c: exact_codec bool_codec "\<lambda>_. True"
proof
  fix n raw
  assume "BITS bool_codec = Some n" "take_bit n raw = (raw :: u64)"
  then show "to_raw bool_codec (from_raw bool_codec raw) = raw"
    by (auto simp: bool_codec_def and_one_eq take_bit_eq_mod even_iff_mod_2_eq_zero)
qed (auto simp: bool_codec_def)

interpretation f32_c: exact_codec f32_codec "\<lambda>_. True"
proof
  fix n raw
  assume "BITS f32_codec = Some n" and r: "take_bit n raw = (raw :: u64)"
  then have "n = 32" by (simp add: f32_codec_def)
  have "ucast (ucast raw :: u32) = take_bit 32 raw"
    by (intro bit_word_eqI) (auto simp: bit_simps)
  with r \<open>n = 32\<close> show "to_raw f32_codec (from_raw f32_codec raw) = raw"
    by (simp add: f32_codec_def)
next
  fix n :: nat and v :: u32
  assume "BITS f32_codec = Some n"
  then show "take_bit n (to_raw f32_codec v) = to_raw f32_codec v"
    using bit_imp_le_length [of v]
    by (auto simp: f32_codec_def intro!: bit_word_eqI simp: bit_simps)
next
  fix n :: nat and v :: u32
  show "from_raw f32_codec (to_raw f32_codec v) = v"
    by (auto simp: f32_codec_def intro!: bit_word_eqI simp: bit_simps)
qed (auto simp: f32_codec_def)

interpretation f64_c: exact_codec f64_codec "\<lambda>_. True"
  by unfold_locales (auto simp: f64_codec_def take_bit_word_eq_self)

interpretation nonzero_c: codec_laws "nonzero_codec N" "\<lambda>_. True" for N
  by unfold_locales (auto simp: nonzero_codec_def split: if_splits)

interpretation u_c: exact_codec "u_codec N" "u_valid N" for N
  by unfold_locales (auto simp: u_codec_def u_valid_def checked_width_Some and_mask64)

interpretation i_c: exact_codec "i_codec N" "i_valid N" for N
  by unfold_locales
    (auto simp: i_codec_def checked_width_Some and_mask64 i_valid_iff take_bit_sign_extend
      sign_extend_take_bit sign_extend_idem simp flip: One_nat_def)

interpretation reserved_u:
  exact_codec "reserved_codec (u_codec N) RAW" "\<lambda>r. \<forall>n. BITS (u_codec N) = Some n \<longrightarrow> take_bit n r = r"
  for N RAW
  by (rule u_c.reserved_exact)

interpretation reserved_i:
  exact_codec "reserved_codec (i_codec N) RAW" "\<lambda>r. \<forall>n. BITS (i_codec N) = Some n \<longrightarrow> take_bit n r = r"
  for N RAW
  by (rule i_c.reserved_exact)

section \<open>Properties\<close>

text \<open>C22: \<open>U<N>\<close> and \<open>I<N>\<close> accept exactly the numbers of their width, decode any raw bits to such
  a number, and give back the low \<open>N\<close> bits they were decoded from.\<close>

theorem int_types_exact:
  assumes "1 \<le> N" "N \<le> 64"
  shows "(u_new N v = Some v \<longleftrightarrow> uint v < 2 ^ N)
    \<and> (i_new N v = Some v \<longleftrightarrow> - (2 ^ (N - 1)) \<le> sint v \<and> sint v < 2 ^ (N - 1))
    \<and> to_raw (u_codec N) (from_raw (u_codec N) v) = take_bit N v
    \<and> to_raw (i_codec N) (from_raw (i_codec N) v) = take_bit N v
    \<and> u_new N (from_raw (u_codec N) v) = Some (from_raw (u_codec N) v)
    \<and> i_new N (from_raw (i_codec N) v) = Some (from_raw (i_codec N) v)"
  using u_new_Some_iff [OF assms(2)] i_new_Some_iff [OF assms] u_valid_range [OF assms(2)] i_valid_range [OF assms(1)]
    u_c.valid_from_raw [of N N v] i_c.valid_from_raw [of N N v] assms
  by (auto simp: u_codec_def i_codec_def checked_width_def and_mask64 take_bit_sign_extend)

theorem int_types_exact_witness:
  "to_raw (i_codec 5) (from_raw (i_codec 5) 0xFB) = (0x1B :: u64)"
  using int_types_exact [of 5 "0xFB"] by (simp add: take_bit_eq_mod)

text \<open>A \<open>Reserved\<close> value reads as absent exactly when its raw bits are the reserved pattern, and
  every bit pattern of its width survives decode and encode.\<close>

lemma reserved_pattern:
  assumes "1 \<le> N" "N \<le> 64" "take_bit N RAW = RAW" "u_new N v = Some v"
  shows "reserved_none (u_codec N) RAW = Some RAW
    \<and> reserved_get (u_codec N) RAW RAW = None
    \<and> reserved_get (u_codec N) RAW (reserved_new (u_codec N) v) = (if v = RAW then None else Some v)
    \<and> to_raw (reserved_codec (u_codec N) RAW) (from_raw (reserved_codec (u_codec N) RAW) raw) = take_bit N raw"
proof -
  have v: "u_valid N v" using assms u_new_Some_iff [of N v v] by simp
  have "RAW AND NOT (mask64 N) = 0"
  proof -
    have "RAW = RAW AND mask64 N" using assms(3) by (simp add: and_mask64)
    then have "RAW AND NOT (mask64 N) = (RAW AND mask64 N) AND NOT (mask64 N)" by (rule arg_cong)
    then show ?thesis by (simp add: and.assoc)
  qed
  then show ?thesis
    using assms u_c.reserved_get_new [of N N v RAW] v
    by (auto simp: reserved_none_def reserved_const_def reserved_get_def reserved_codec_def u_codec_def
        checked_width_def and_mask64)
qed

lemma reserved_pattern_witness:
  "reserved_get (u_codec 8) 0xFF (reserved_new (u_codec 8) 40) = Some 40 \<and> reserved_get (u_codec 8) 0xFF 0xFF = None"
  using reserved_pattern [of 8 "0xFF" 40 0] by (simp add: take_bit_eq_mod u_new_def mask64_eq mask_eq_exp_minus_1)

end
