(* ===== verification/WireInts.thy ===== *)
theory WireInts
  imports Codecs
begin

text \<open>
  Integers read from the wire and the flag trait (\<open>layline-core/src/bound.rs\<close>). \<open>WireInt\<close> is the
  record of its two methods; the macro-generated implementations are the casts \<open>wi_unsigned\<close> (for
  \<open>u8\<close>, \<open>u16\<close>, \<open>u32\<close>) and \<open>wi_signed\<close> (for \<open>i8\<close> to \<open>i64\<close>), and \<open>u64\<close> saturates. \<open>fits_in_field\<close> is the check
  encode makes before it stores a computed count, length or offset in a field of \<open>width\<close> bits.
\<close>

record 'a wire_int =
  to_i64 :: "'a \<Rightarrow> i64"
  from_i64 :: "i64 \<Rightarrow> 'a"

definition wi_unsigned :: "('n::len word) wire_int" where
  "wi_unsigned = \<lparr>to_i64 = ucast, from_i64 = ucast\<rparr>"

definition wi_signed :: "('n::len word) wire_int" where
  "wi_signed = \<lparr>to_i64 = scast, from_i64 = ucast\<rparr>"

definition wi_u64 :: "u64 wire_int" where
  "wi_u64 = \<lparr>to_i64 = (\<lambda>v. min v (mask 63)), from_i64 = (\<lambda>n. n)\<rparr>"

definition to_flag :: "bool \<Rightarrow> bool" where
  "to_flag self = self"

definition from_flag :: "bool \<Rightarrow> bool" where
  "from_flag present = present"

definition fits_in_field :: "'a wire_int \<Rightarrow> i64 \<Rightarrow> nat \<Rightarrow> bool" where
  "fits_in_field T v width =
     (if to_i64 T (from_i64 T v) \<noteq> v then False
      else if width = 0 \<or> 64 \<le> width then True
      else
        let m = mask64 width;
            raw = v AND m;
            signed = to_i64 T (from_i64 T (- 1)) <s 0;
            back = (if signed \<and> drop_bit (width - 1) raw AND 1 = 1 then raw OR NOT m else raw)
        in back = v)"

section \<open>What the check decides\<close>

text \<open>Re-reading the low \<open>width\<close> bits as a signed number is sign extension.\<close>

lemma signed_back:
  assumes "1 \<le> width" "width < 64"
  shows "(if drop_bit (width - 1) (v AND mask64 width) AND 1 = 1
          then v AND mask64 width OR NOT (mask64 width) else v AND mask64 width)
       = sign_extend v width"
proof -
  have top: "drop_bit (width - 1) (v AND mask64 width) AND 1 = 1 \<longleftrightarrow> bit v (width - 1)"
    using assms by (simp add: and_mask64 bit_take_bit_iff flip: bit_iff_and_drop_bit_eq_1)
  show ?thesis
    unfolding top
    by (rule bit_word_eqI) (use assms in \<open>auto simp: bit_sign_extend mask64_eq bit_simps not_less\<close>)
qed

lemma fits_in_field_signed_back:
  assumes "to_i64 T (from_i64 T (- 1)) <s 0" "1 \<le> width" "width < 64"
  shows "fits_in_field T v width \<longleftrightarrow> to_i64 T (from_i64 T v) = v \<and> i_valid width v"
  using assms signed_back [of width v]
  by (auto simp: fits_in_field_def Let_def i_valid_iff)

lemma fits_in_field_unsigned_back:
  assumes "\<not> to_i64 T (from_i64 T (- 1)) <s 0" "1 \<le> width" "width < 64"
  shows "fits_in_field T v width \<longleftrightarrow> to_i64 T (from_i64 T v) = v \<and> u_valid width v"
  using assms by (simp add: fits_in_field_def Let_def and_mask64 u_valid_def)

lemma sint_64_bounds: "- (2 ^ 63) \<le> sint v" "sint v < 2 ^ 63" for v :: i64
  using sint_range_size [of v] by (simp_all add: word_size)

lemma uint_sint_64: "uint v = (if 0 \<le> sint v then sint v else sint v + 2 ^ 64)" for v :: i64
proof -
  have u: "uint v = sint v mod 2 ^ 64"
    using uint_sint [of v] by (simp add: take_bit_eq_mod)
  show ?thesis
  proof (cases "0 \<le> sint v")
    case True
    with u sint_64_bounds [of v] show ?thesis by simp
  next
    case False
    have "sint v mod 2 ^ 64 = (sint v + 2 ^ 64) mod 2 ^ 64" by simp
    also have "\<dots> = sint v + 2 ^ 64"
      by (rule mod_pos_pos_trivial) (use False sint_64_bounds [of v] in auto)
    finally show ?thesis using False u by simp
  qed
qed

lemma uint_less_iff_sint:
  fixes v :: i64
  assumes "n < 64"
  shows "uint v < 2 ^ n \<longleftrightarrow> 0 \<le> sint v \<and> sint v < 2 ^ n"
proof -
  have "(2::int) ^ n \<le> 2 ^ 63" using assms by (intro power_increasing) auto
  then show ?thesis
    using sint_64_bounds [of v] by (auto simp: uint_sint_64)
qed

text \<open>The carrier's own range: what a cast to the carrier and back keeps.\<close>

lemma unsigned_carrier:
  fixes v :: i64
  assumes "LENGTH('n::len) < 64"
  shows "to_i64 (wi_unsigned :: 'n word wire_int) (from_i64 wi_unsigned v) = v
     \<longleftrightarrow> 0 \<le> sint v \<and> sint v < 2 ^ LENGTH('n)"
proof -
  have "ucast (ucast v :: 'n word) = take_bit LENGTH('n) v"
    using assms by (intro bit_word_eqI) (auto simp: bit_simps)
  then have "to_i64 (wi_unsigned :: 'n word wire_int) (from_i64 wi_unsigned v) = v
      \<longleftrightarrow> u_valid LENGTH('n) v"
    by (simp add: wi_unsigned_def u_valid_def)
  also have "\<dots> \<longleftrightarrow> uint v < 2 ^ LENGTH('n)"
    using assms by (simp add: u_valid_range)
  also have "\<dots> \<longleftrightarrow> 0 \<le> sint v \<and> sint v < 2 ^ LENGTH('n)"
    using assms by (rule uint_less_iff_sint)
  finally show ?thesis .
qed

lemma signed_carrier:
  fixes v :: i64
  assumes "LENGTH('n::len) \<le> 64"
  shows "to_i64 (wi_signed :: 'n word wire_int) (from_i64 wi_signed v) = v
     \<longleftrightarrow> - (2 ^ (LENGTH('n) - 1)) \<le> sint v \<and> sint v < 2 ^ (LENGTH('n) - 1)"
proof -
  have "scast (ucast v :: 'n word) = sign_extend v LENGTH('n)"
  proof (rule bit_word_eqI)
    fix k assume "k < LENGTH(64)"
    then show "bit (scast (ucast v :: 'n word) :: i64) k \<longleftrightarrow> bit (sign_extend v LENGTH('n)) k"
      using assms bit_sign_extend [of "LENGTH('n)" k v]
      by (cases "k < LENGTH('n)")
        (auto simp: bit_signed_iff bit_unsigned_iff min_def Suc_le_eq le_less_Suc_eq not_less
          dest: le_antisym [of "LENGTH('n) - Suc 0"])
  qed
  then show ?thesis
    using assms i_valid_iff [of "LENGTH('n)" v] i_valid_range [of "LENGTH('n)" v]
    by (simp add: wi_signed_def Suc_le_eq)
qed

lemma u64_carrier: "to_i64 wi_u64 (from_i64 wi_u64 v) = v \<longleftrightarrow> 0 \<le> sint v"
proof -
  have "min v (mask 63) = v \<longleftrightarrow> uint v < 2 ^ 63"
    by (auto simp: min_def word_le_def uint_mask_eq mask_eq_exp_minus_1)
  then show ?thesis
    using uint_less_iff_sint [of 63 v] sint_64_bounds [of v] by (simp add: wi_u64_def)
qed

lemma unsigned_not_signed:
  assumes "LENGTH('n::len) < 64"
  shows "\<not> to_i64 (wi_unsigned :: 'n word wire_int) (from_i64 wi_unsigned (- 1)) <s 0"
proof -
  define x where "x = to_i64 (wi_unsigned :: 'n word wire_int) (from_i64 wi_unsigned (- 1))"
  have "to_i64 (wi_unsigned :: 'n word wire_int) (from_i64 wi_unsigned x) = x"
    unfolding x_def wi_unsigned_def using assms
    by (intro bit_word_eqI) (auto simp: bit_unsigned_iff)
  then have "0 \<le> sint x"
    using unsigned_carrier [OF assms, of x] by simp
  then show ?thesis
    by (simp add: x_def word_sless_alt)
qed

lemma u64_not_signed: "\<not> to_i64 wi_u64 (from_i64 wi_u64 (- 1)) <s 0"
  by (simp add: wi_u64_def mask_eq_exp_minus_1 word_sless_alt)

lemma signed_is_signed:
  assumes "LENGTH('n::len) \<le> 64"
  shows "to_i64 (wi_signed :: 'n word wire_int) (from_i64 wi_signed (- 1)) <s 0"
proof -
  have "(- 1 :: int) < 2 ^ (LENGTH('n) - 1)"
    by (rule less_le_trans [of _ 0]) simp_all
  then have "to_i64 (wi_signed :: 'n word wire_int) (from_i64 wi_signed (- 1)) = - 1"
    using signed_carrier [OF assms, of "- 1"] by simp
  then show ?thesis by (simp add: word_sless_alt)
qed

text \<open>The check, as the validity predicate of a width.\<close>

lemma fits_unsigned_valid:
  fixes v :: i64
  assumes "LENGTH('n::len) < 64" "1 \<le> w" "w \<le> LENGTH('n)"
  shows "fits_in_field (wi_unsigned :: 'n word wire_int) v w \<longleftrightarrow> u_valid w v"
proof -
  have w: "w < 64" using assms by simp
  have "(2 :: int) ^ w \<le> 2 ^ LENGTH('n)" using assms by (intro power_increasing) auto
  moreover have "u_valid w v \<longleftrightarrow> 0 \<le> sint v \<and> sint v < 2 ^ w"
    using w uint_less_iff_sint [OF w, of v] by (simp add: u_valid_range)
  ultimately show ?thesis
    unfolding fits_in_field_unsigned_back [OF unsigned_not_signed [OF assms(1)] assms(2) w] unsigned_carrier [OF assms(1)]
    by linarith
qed

lemma fits_signed_valid:
  fixes v :: i64
  assumes "LENGTH('n::len) \<le> 64" "1 \<le> w" "w \<le> LENGTH('n)" "w < 64"
  shows "fits_in_field (wi_signed :: 'n word wire_int) v w \<longleftrightarrow> i_valid w v"
proof -
  have "(2 :: int) ^ (w - 1) \<le> 2 ^ (LENGTH('n) - 1)" using assms by (intro power_increasing) auto
  moreover have "i_valid w v \<longleftrightarrow> - (2 ^ (w - 1)) \<le> sint v \<and> sint v < 2 ^ (w - 1)" using assms(2) by (rule i_valid_range)
  ultimately show ?thesis
    unfolding fits_in_field_signed_back [OF signed_is_signed [OF assms(1)] assms(2,4)] signed_carrier [OF assms(1)]
    by linarith
qed

lemma fits_u64_valid: "1 \<le> w \<Longrightarrow> w < 64 \<Longrightarrow> fits_in_field wi_u64 v w \<longleftrightarrow> u_valid w v"
  unfolding fits_in_field_unsigned_back [OF u64_not_signed] u64_carrier
  using uint_less_iff_sint [of w v] by (auto simp: u_valid_range)

section \<open>Properties\<close>

text \<open>Before a computed count, length or offset is stored, \<open>fits_in_field\<close> accepts exactly the
  numbers the field can hold: those of an unsigned field of \<open>w\<close> bits in a \<open>u8\<close>, \<open>u16\<close> or
  \<open>u32\<close> carrier are \<open>0\<close> to \<open>2 ^ w - 1\<close>, those of a signed field are the two's complement range.\<close>

lemma fits_in_field_ranges:
  fixes v :: i64
  assumes "LENGTH('n::len) < 64" "1 \<le> w" "w \<le> LENGTH('n)"
  shows "(fits_in_field (wi_unsigned :: 'n word wire_int) v w \<longleftrightarrow> 0 \<le> sint v \<and> sint v < 2 ^ w)
    \<and> (fits_in_field (wi_signed :: 'n word wire_int) v w
         \<longleftrightarrow> - (2 ^ (w - 1)) \<le> sint v \<and> sint v < 2 ^ (w - 1))
    \<and> (fits_in_field wi_u64 v w \<longleftrightarrow> 0 \<le> sint v \<and> sint v < 2 ^ w)"
proof -
  have w: "w < 64" using assms by simp
  have u: "u_valid w v \<longleftrightarrow> 0 \<le> sint v \<and> sint v < 2 ^ w"
    using w uint_less_iff_sint [OF w, of v] by (simp add: u_valid_range)
  show ?thesis
    using fits_unsigned_valid [OF assms] fits_signed_valid [OF _ assms(2,3) w] fits_u64_valid [OF assms(2) w]
      i_valid_range [OF assms(2)] u assms(1)
    by simp
qed

lemma fits_in_field_ranges_witness:
  "fits_in_field (wi_unsigned :: u8 wire_int) 7 3 \<and> \<not> fits_in_field (wi_unsigned :: u8 wire_int) 8 3
    \<and> fits_in_field (wi_signed :: u8 wire_int) (- 4) 3 \<and> \<not> fits_in_field (wi_signed :: u8 wire_int) 4 3"
  using fits_in_field_ranges [where 'n = 8, of 3 7] fits_in_field_ranges [where 'n = 8, of 3 8]
    fits_in_field_ranges [where 'n = 8, of 3 "- 4"] fits_in_field_ranges [where 'n = 8, of 3 4]
  by simp

end
