(* ===== verification/Buffers.thy ===== *)
theory Buffers
  imports Prelude "HOL-Library.Extended_Nat"
begin

text \<open>
  Output buffers (\<open>layline-core/src/buffer.rs\<close>). The trait \<open>Buffer\<close> is the record of its methods;
  a \<open>&mut self\<close> method returns the new buffer, beside its result where it has one. The slice
  \<open>written_mut\<close> lends out is written back whole by \<open>set_written\<close>. \<open>Vec<u8>\<close> and \<open>Fixed\<close> are the two implementations;
  the blanket implementation for \<open>&mut T\<close> forwards every method and is the same record.

  The contract \<open>buffer\<close> says what an encoder may rely on: an append succeeds exactly when the
  bytes fit the capacity, and a refused one changes nothing.
\<close>

datatype overflow = Overflow

record 'b buffer_ops =
  push :: "'b \<Rightarrow> u8 list \<Rightarrow> (overflow + unit) \<times> 'b"
  written :: "'b \<Rightarrow> u8 list"
  set_written :: "'b \<Rightarrow> u8 list \<Rightarrow> 'b"
  rewind :: "'b \<Rightarrow> usize \<Rightarrow> 'b"
  buf_len :: "'b \<Rightarrow> usize"

definition is_empty :: "'b buffer_ops \<Rightarrow> 'b \<Rightarrow> bool" where
  "is_empty B b = (buf_len B b = 0)"

text \<open>\<open>pad\<close> appends zeros in runs of at most 64; a refused run leaves the runs before it.\<close>

function pad :: "'b buffer_ops \<Rightarrow> 'b \<Rightarrow> usize \<Rightarrow> (overflow + unit) \<times> 'b" where
  "pad B b left =
     (if 0 < left
      then let run = (if left < 64 then left else 64)
           in case push B b (replicate run 0) of
                (Inl e, b') \<Rightarrow> (Inl e, b')
              | (Inr _, b') \<Rightarrow> pad B b' (left - run)
      else (Inr (), b))"
  by pat_completeness auto
termination
  by (relation "measure (\<lambda>(B, b, left). left)") (auto split: if_splits)

declare pad.simps [simp del]

section \<open>\<open>Vec<u8>\<close> and \<open>Fixed\<close>\<close>

definition vec_ops :: "u8 list buffer_ops" where
  "vec_ops = \<lparr>push = (\<lambda>v bytes. (Inr (), v @ bytes)), written = (\<lambda>v. v),
     set_written = (\<lambda>v bytes. bytes), rewind = (\<lambda>v to. take to v), buf_len = length\<rparr>"

text \<open>\<open>to_vec\<close> runs one encode into a new vector; \<open>None\<close> is its \<open>expect\<close>.\<close>

definition to_vec :: "(u8 list \<Rightarrow> (overflow + unit) \<times> u8 list) \<Rightarrow> u8 list option" where
  "to_vec encode = (case encode [] of (Inl _, _) \<Rightarrow> None | (Inr _, out) \<Rightarrow> Some out)"

definition usize_max :: nat where
  "usize_max = 2 ^ 64 - 1"

record fixed =
  room :: "u8 list"
  fixed_at :: usize

definition fixed_new :: "u8 list \<Rightarrow> fixed" where
  "fixed_new r = \<lparr>room = r, fixed_at = 0\<rparr>"

definition into_written :: "fixed \<Rightarrow> u8 list" where
  "into_written f = take (fixed_at f) (room f)"

definition fixed_push :: "fixed \<Rightarrow> u8 list \<Rightarrow> (overflow + unit) \<times> fixed" where
  "fixed_push f bytes =
     (if usize_max < fixed_at f + length bytes then (Inl Overflow, f)
      else let upto = fixed_at f + length bytes
           in if length (room f) < upto then (Inl Overflow, f)
              else (Inr (), f\<lparr>room := take (fixed_at f) (room f) @ bytes @ drop upto (room f),
                              fixed_at := upto\<rparr>))"

definition fixed_ops :: "fixed buffer_ops" where
  "fixed_ops = \<lparr>push = fixed_push,
     written = (\<lambda>f. take (fixed_at f) (room f)),
     set_written = (\<lambda>f bytes. f\<lparr>room := bytes @ drop (fixed_at f) (room f)\<rparr>),
     rewind = (\<lambda>f to. f\<lparr>fixed_at := min (fixed_at f) to\<rparr>),
     buf_len = fixed_at\<rparr>"

section \<open>The contract\<close>

locale buffer =
  fixes B :: "'b buffer_ops" and ok :: "'b \<Rightarrow> bool" and capacity :: "'b \<Rightarrow> enat"
  assumes push_fits: "ok b \<Longrightarrow> enat (length (written B b) + length bytes) \<le> capacity b \<Longrightarrow>
      \<exists>b'. push B b bytes = (Inr (), b') \<and> ok b' \<and> capacity b' = capacity b
        \<and> written B b' = written B b @ bytes"
    and push_refused: "ok b \<Longrightarrow> \<not> enat (length (written B b) + length bytes) \<le> capacity b \<Longrightarrow>
      push B b bytes = (Inl Overflow, b)"
    and set_written: "ok b \<Longrightarrow> length bytes = length (written B b) \<Longrightarrow>
      ok (set_written B b bytes) \<and> capacity (set_written B b bytes) = capacity b
        \<and> written B (set_written B b bytes) = bytes"
    and rewind: "ok b \<Longrightarrow> ok (rewind B b to) \<and> capacity (rewind B b to) = capacity b
        \<and> written B (rewind B b to) = take to (written B b)"
    and buf_len: "ok b \<Longrightarrow> buf_len B b = length (written B b)"
    and written_fits: "ok b \<Longrightarrow> enat (length (written B b)) \<le> capacity b"
begin

lemma push_cases:
  assumes "ok b"
  obtains (fits) b' where "push B b bytes = (Inr (), b')" "ok b'" "capacity b' = capacity b"
      "written B b' = written B b @ bytes" "enat (length (written B b) + length bytes) \<le> capacity b"
  | (refused) "push B b bytes = (Inl Overflow, b)"
      "\<not> enat (length (written B b) + length bytes) \<le> capacity b"
  using push_fits [OF assms] push_refused [OF assms] by blast

text \<open>
  Padding by \<open>n\<close> succeeds exactly when \<open>n\<close> bytes fit; a refused padding has appended some
  zeros (whole runs) and no more.
\<close>

lemma pad_spec:
  assumes "ok b"
  shows "\<exists>r b' k. pad B b n = (r, b') \<and> ok b' \<and> capacity b' = capacity b \<and> k \<le> n
    \<and> written B b' = written B b @ replicate k 0
    \<and> (if enat (length (written B b) + n) \<le> capacity b then r = Inr () \<and> k = n else r = Inl Overflow)"
  using assms
proof (induction n arbitrary: b rule: less_induct)
  case (less n)
  show ?case
  proof (cases "n = 0")
    case True
    with less.prems written_fits [OF less.prems] show ?thesis
      by (intro exI [of _ "Inr ()"] exI [of _ b] exI [of _ 0]) (simp add: pad.simps [of B b 0])
  next
    case False
    define run where "run = (if n < 64 then n else 64)"
    have run: "run \<le> n" "0 < run" using False by (auto simp: run_def)
    from less.prems show ?thesis
    proof (cases rule: push_cases [of b "replicate run 0"])
      case refused
      then have "\<not> enat (length (written B b) + n) \<le> capacity b"
        using run order_trans [of "enat (length (written B b) + run)" "enat (length (written B b) + n)"]
        by auto
      with refused less.prems False show ?thesis
        by (intro exI [of _ "Inl Overflow"] exI [of _ b] exI [of _ 0])
          (simp add: pad.simps [of B b n] run_def)
    next
      case (fits b')
      have step: "pad B b n = pad B b' (n - run)"
        using False fits(1) by (simp add: pad.simps [of B b n] Let_def flip: run_def)
      from less.IH [of "n - run" b'] run fits(2) obtain r b'' k where
        "pad B b' (n - run) = (r, b'')" "ok b''" "capacity b'' = capacity b'" "k \<le> n - run"
        "written B b'' = written B b' @ replicate k 0"
        "if enat (length (written B b') + (n - run)) \<le> capacity b' then r = Inr () \<and> k = n - run
         else r = Inl Overflow"
        by auto
      with fits run step show ?thesis
        by (intro exI [of _ r] exI [of _ b''] exI [of _ "run + k"])
          (auto simp: replicate_add split: if_splits)
    qed
  qed
qed

lemma pad_fits:
  assumes "ok b" "enat (length (written B b) + n) \<le> capacity b"
  shows "\<exists>b'. pad B b n = (Inr (), b') \<and> ok b' \<and> capacity b' = capacity b
    \<and> written B b' = written B b @ replicate n 0"
  using pad_spec [OF assms(1), of n] assms(2) by auto

end

section \<open>The contract holds of both implementations\<close>

definition fixed_ok :: "fixed \<Rightarrow> bool" where
  "fixed_ok f \<longleftrightarrow> fixed_at f \<le> length (room f) \<and> length (room f) \<le> usize_max"

interpretation vec: buffer vec_ops "\<lambda>_. True" "\<lambda>_. \<infinity>"
  by unfold_locales (auto simp: vec_ops_def)

interpretation fixed: buffer fixed_ops fixed_ok "\<lambda>f. enat (length (room f))"
  by unfold_locales
    (auto simp: fixed_ops_def fixed_ok_def fixed_push_def Let_def min_absorb2 min.commute)

lemma fixed_ok_new: "length r \<le> usize_max \<Longrightarrow> fixed_ok (fixed_new r)"
  by (simp add: fixed_ok_def fixed_new_def)

section \<open>Properties\<close>

text \<open>Padding a fixed buffer by \<open>n\<close> zeros succeeds exactly when they fit; a refused padding
  leaves what was written, followed by zeros only.\<close>

lemma fixed_pad:
  assumes "fixed_ok f"
  shows "\<exists>r f' k. pad fixed_ops f n = (r, f') \<and> length (room f') = length (room f) \<and> k \<le> n
    \<and> into_written f' = into_written f @ replicate k 0
    \<and> (if fixed_at f + n \<le> length (room f) then r = Inr () \<and> k = n else r = Inl Overflow)"
proof -
  from fixed.pad_spec [OF assms, of n] obtain r f' k where
    "pad fixed_ops f n = (r, f')" "enat (length (room f')) = enat (length (room f))" "k \<le> n"
    "written fixed_ops f' = written fixed_ops f @ replicate k 0"
    "if enat (length (written fixed_ops f) + n) \<le> enat (length (room f)) then r = Inr () \<and> k = n
     else r = Inl Overflow"
    by blast
  then show ?thesis
    using assms by (intro exI [of _ r] exI [of _ f'] exI [of _ k])
      (simp add: fixed_ops_def into_written_def fixed_ok_def min_absorb2)
qed

lemma fixed_pad_witness:
  "\<exists>r f' k. pad fixed_ops \<lparr>room = [7, 1, 2], fixed_at = 1\<rparr> 2 = (r, f') \<and> r = Inr () \<and> into_written f' = [7, 0, 0]"
proof -
  have "fixed_ok \<lparr>room = [7, 1, 2], fixed_at = 1\<rparr>" by (simp add: fixed_ok_def usize_max_def)
  moreover have "replicate 2 (0 :: u8) = [0, 0]" by (simp add: numeral_2_eq_2)
  ultimately show ?thesis
    using fixed_pad [of "\<lparr>room = [7, 1, 2], fixed_at = 1\<rparr>" 2] by (auto simp: into_written_def)
qed

end
