(* ===== verification/BitCursor.thy ===== *)
theory BitCursor
  imports Masks Errors Buffers
begin

text \<open>
  The bit cursors (\<open>layline-core/src/bits.rs\<close>). The const parameter \<open>MSB\<close> is the first argument.
  Every loop is the source's loop, one recursive call per byte chunk. A cursor's position is a
  \<open>u64\<close> in the source: the one addition that can overflow saturates, and is written out. The
  \<open>debug_assert!\<close>s (a field of at most 64 bits, a patch inside the written bits) are hypotheses
  of the lemmas.

  The abstraction is the bit stream: \<open>stream msb bytes\<close> lists the bits of the bytes in the order the
  cursors visit them, and \<open>field_bits msb n v\<close> lists the low \<open>n\<close> bits of a value in the order
  they go on the wire. Reading takes bits off the stream, writing appends them, patching
  replaces them.
\<close>

definition chunk_mask :: "nat \<Rightarrow> u64" where
  "chunk_mask n = push_bit n 1 - 1"

section \<open>The reader\<close>

record bit_reader =
  rd_bytes :: "u8 list"
  rd_at :: nat

definition reader_new :: "u8 list \<Rightarrow> bit_reader" where
  "reader_new bytes = \<lparr>rd_bytes = bytes, rd_at = 0\<rparr>"

definition reader_at :: "u8 list \<Rightarrow> nat \<Rightarrow> bit_reader" where
  "reader_at bytes at_bit = \<lparr>rd_bytes = bytes, rd_at = at_bit\<rparr>"

function read_loop :: "bool \<Rightarrow> u8 list \<Rightarrow> nat \<Rightarrow> nat \<Rightarrow> nat \<Rightarrow> u64 \<Rightarrow> u64 \<times> nat" where
  "read_loop msb bytes width left pos v =
     (if 0 < left
      then let byte = ucast (bytes ! (pos div 8)) :: u64;
               used = pos mod 8;
               free = 8 - used;
               n = (if left < free then left else free);
               v' = (if msb then push_bit n v OR (drop_bit (free - n) byte AND chunk_mask n)
                     else v OR push_bit (width - left) (drop_bit used byte AND chunk_mask n))
           in read_loop msb bytes width (left - n) (pos + n) v'
      else (v, pos))"
  by pat_completeness auto
termination
  by (relation "measure (\<lambda>(msb, bytes, width, left, pos, v). left)") (auto split: if_splits)

declare read_loop.simps [simp del]

definition read :: "bool \<Rightarrow> bit_reader \<Rightarrow> nat \<Rightarrow> (parse_error + u64) \<times> bit_reader" where
  "read msb r bits =
     (let upto = saturating_add_u64 (rd_at r) bits;
          need = div_ceil upto 8
      in if length (rd_bytes r) < need
         then (Inl (Short need (length (rd_bytes r)) (rd_at r div 8)), r)
         else let (v, pos) = read_loop msb (rd_bytes r) bits bits (rd_at r) 0
              in (Inr v, r\<lparr>rd_at := pos\<rparr>))"

definition read_bit :: "bool \<Rightarrow> bit_reader \<Rightarrow> (parse_error + bool) \<times> bit_reader" where
  "read_bit msb r = (case read msb r 1 of (Inl e, r') \<Rightarrow> (Inl e, r') | (Inr v, r') \<Rightarrow> (Inr (v \<noteq> 0), r'))"

definition skip :: "bit_reader \<Rightarrow> nat \<Rightarrow> (parse_error + unit) \<times> bit_reader" where
  "skip r bits =
     (let upto = saturating_add_u64 (rd_at r) bits;
          need = div_ceil upto 8
      in if length (rd_bytes r) < need
         then (Inl (Short need (length (rd_bytes r)) (rd_at r div 8)), r)
         else (Inr (), r\<lparr>rd_at := upto\<rparr>))"

definition reader_position :: "bit_reader \<Rightarrow> nat" where
  "reader_position r = rd_at r"

definition bytes_consumed :: "bit_reader \<Rightarrow> nat" where
  "bytes_consumed r = div_ceil (rd_at r) 8"

section \<open>The writer\<close>

record 'b bit_writer =
  out_buf :: 'b
  base_len :: usize
  used_bits :: nat

definition writer_new :: "'b buffer_ops \<Rightarrow> 'b \<Rightarrow> 'b bit_writer" where
  "writer_new B b = \<lparr>out_buf = b, base_len = buf_len B b, used_bits = 0\<rparr>"

text \<open>The bits of one chunk, in place in a byte of which \<open>used\<close> bits are taken.\<close>

definition chunk_of :: "bool \<Rightarrow> u64 \<Rightarrow> nat \<Rightarrow> nat \<Rightarrow> nat \<Rightarrow> nat \<Rightarrow> u8" where
  "chunk_of msb v width left used n =
     (if msb then push_bit (8 - used - n) (ucast (drop_bit (left - n) v AND chunk_mask n))
      else push_bit used (ucast (drop_bit (width - left) v AND chunk_mask n)))"

definition or_last :: "u8 list \<Rightarrow> u8 \<Rightarrow> u8 list" where
  "or_last bytes c = bytes[length bytes - 1 := last bytes OR c]"

text \<open>
  \<open>used\<close> is below 8 in every cursor (\<open>writer_ok\<close> below); the second guard only makes the
  recursion total on values that are no cursor.
\<close>

function append_loop ::
    "'b buffer_ops \<Rightarrow> bool \<Rightarrow> u64 \<Rightarrow> nat \<Rightarrow> nat \<Rightarrow> 'b bit_writer \<Rightarrow> (overflow + unit) \<times> 'b bit_writer" where
  "append_loop B msb v width left w =
     (if 0 < left \<and> used_bits w < 8
      then case (if used_bits w = 0 then push B (out_buf w) [0] else (Inr (), out_buf w)) of
             (Inl e, o') \<Rightarrow> (Inl e, w\<lparr>out_buf := o'\<rparr>)
           | (Inr _, o') \<Rightarrow>
               let free = 8 - used_bits w;
                   n = (if left < free then left else free);
                   c = chunk_of msb v width left (used_bits w) n;
                   o'' = set_written B o' (or_last (written B o') c)
               in append_loop B msb v width (left - n)
                    (w\<lparr>out_buf := o'', used_bits := (used_bits w + n) mod 8\<rparr>)
      else (Inr (), w))"
  by pat_completeness auto
termination
  by (relation "measure (\<lambda>(B, msb, v, width, left, w). left)")
    (auto split: if_splits)

declare append_loop.simps [simp del]

definition append_bits ::
    "'b buffer_ops \<Rightarrow> bool \<Rightarrow> 'b bit_writer \<Rightarrow> u64 \<Rightarrow> nat \<Rightarrow> (overflow + unit) \<times> 'b bit_writer" where
  "append_bits B msb w v bits = append_loop B msb v bits bits w"

definition and_last :: "u8 list \<Rightarrow> u8 \<Rightarrow> u8 list" where
  "and_last bytes m = (if bytes = [] then [] else bytes[length bytes - 1 := last bytes AND m])"

definition keep_mask :: "bool \<Rightarrow> nat \<Rightarrow> u8" where
  "keep_mask msb n = (if msb then push_bit (8 - n) 0xFF else push_bit n 1 - 1)"

definition write_bits ::
    "'b buffer_ops \<Rightarrow> bool \<Rightarrow> 'b bit_writer \<Rightarrow> u64 \<Rightarrow> nat \<Rightarrow> (overflow + unit) \<times> 'b bit_writer" where
  "write_bits B msb w v bits =
     (case append_bits B msb w v bits of
        (Inr u, w') \<Rightarrow> (Inr u, w')
      | (Inl e, w') \<Rightarrow>
          let o' = rewind B (out_buf w') (buf_len B (out_buf w));
              o'' = (if 1 \<le> used_bits w then set_written B o' (and_last (written B o') (keep_mask msb (used_bits w)))
                     else o')
          in (Inl e, w'\<lparr>out_buf := o'', used_bits := used_bits w\<rparr>))"

definition write_bit ::
    "'b buffer_ops \<Rightarrow> bool \<Rightarrow> 'b bit_writer \<Rightarrow> bool \<Rightarrow> (overflow + unit) \<times> 'b bit_writer" where
  "write_bit B msb w is_set = write_bits B msb w (if is_set then 1 else 0) 1"

definition hole_of :: "bool \<Rightarrow> nat \<Rightarrow> nat \<Rightarrow> u8" where
  "hole_of msb used n =
     (if msb then push_bit (8 - used - n) (ucast (chunk_mask n)) else push_bit used (ucast (chunk_mask n)))"

function patch_loop :: "bool \<Rightarrow> nat \<Rightarrow> u64 \<Rightarrow> nat \<Rightarrow> nat \<Rightarrow> nat \<Rightarrow> u8 list \<Rightarrow> u8 list" where
  "patch_loop msb base v width left pos bytes =
     (if 0 < left
      then let used = pos mod 8;
               free = 8 - used;
               n = (if left < free then left else free);
               i = base + pos div 8;
               byte = bytes ! i
           in patch_loop msb base v width (left - n) (pos + n)
                (bytes[i := (byte AND NOT (hole_of msb used n)) OR chunk_of msb v width left used n])
      else bytes)"
  by pat_completeness auto
termination
  by (relation "measure (\<lambda>(msb, base, v, width, left, pos, bytes). left)") (auto split: if_splits)

declare patch_loop.simps [simp del]

definition patch :: "'b buffer_ops \<Rightarrow> bool \<Rightarrow> 'b bit_writer \<Rightarrow> nat \<Rightarrow> nat \<Rightarrow> u64 \<Rightarrow> 'b bit_writer" where
  "patch B msb w at_bit bits v =
     w\<lparr>out_buf := set_written B (out_buf w) (patch_loop msb (base_len w) v bits bits at_bit (written B (out_buf w)))\<rparr>"

definition writer_position :: "'b buffer_ops \<Rightarrow> 'b bit_writer \<Rightarrow> nat" where
  "writer_position B w =
     (buf_len B (out_buf w) - base_len w) * 8 - (if used_bits w = 0 then 0 else 8 - used_bits w)"

section \<open>The bit stream\<close>

definition stream_bit :: "bool \<Rightarrow> u8 list \<Rightarrow> nat \<Rightarrow> bool" where
  "stream_bit msb bytes i = bit (bytes ! (i div 8)) (if msb then 7 - i mod 8 else i mod 8)"

definition stream :: "bool \<Rightarrow> u8 list \<Rightarrow> bool list" where
  "stream msb bytes = map (stream_bit msb bytes) [0..<8 * length bytes]"

definition field_bit :: "bool \<Rightarrow> nat \<Rightarrow> u64 \<Rightarrow> nat \<Rightarrow> bool" where
  "field_bit msb n v k = bit v (if msb then n - 1 - k else k)"

definition field_bits :: "bool \<Rightarrow> nat \<Rightarrow> u64 \<Rightarrow> bool list" where
  "field_bits msb n v = map (field_bit msb n v) [0..<n]"

lemma length_stream [len_simps, simp]: "length (stream msb bytes) = 8 * length bytes"
  by (simp add: stream_def)

lemma length_field_bits [len_simps, simp]: "length (field_bits msb n v) = n"
  by (simp add: field_bits_def)

lemma nth_stream [simp]: "i < 8 * length bytes \<Longrightarrow> stream msb bytes ! i = stream_bit msb bytes i"
  by (simp add: stream_def)

lemma nth_field_bits [simp]: "k < n \<Longrightarrow> field_bits msb n v ! k = field_bit msb n v k"
  by (simp add: field_bits_def)

lemma stream_byte:
  "stream True [b] = [bit b 7, bit b 6, bit b 5, bit b 4, bit b 3, bit b 2, bit b 1, bit b 0]"
  "stream False [b] = [bit b 0, bit b 1, bit b 2, bit b 3, bit b 4, bit b 5, bit b 6, bit b 7]"
proof -
  have "[0..<8] = [0, 1, 2, 3, 4, 5, 6, 7]" by code_simp
  then show "stream True [b] = [bit b 7, bit b 6, bit b 5, bit b 4, bit b 3, bit b 2, bit b 1, bit b 0]"
    "stream False [b] = [bit b 0, bit b 1, bit b 2, bit b 3, bit b 4, bit b 5, bit b 6, bit b 7]"
    by (simp_all add: stream_def stream_bit_def)
qed

lemma chunk_mask_eq: "chunk_mask n = mask n"
  by (simp add: chunk_mask_def mask_eq_exp_minus_1 push_bit_eq_mult)

lemma and_chunk_mask: "x AND chunk_mask n = take_bit n x"
  by (simp add: chunk_mask_eq take_bit_eq_mask)

text \<open>Positions inside the byte the cursor stands in.\<close>

lemma same_byte:
  fixes pos :: nat
  assumes "j < 8 - pos mod 8"
  shows "(pos + j) div 8 = pos div 8" "(pos + j) mod 8 = pos mod 8 + j"
proof -
  have small: "pos mod 8 + j < 8" using assms by simp
  have split: "pos + j = pos mod 8 + j + pos div 8 * 8"
    using div_mult_mod_eq [of pos 8] by linarith
  show "(pos + j) div 8 = pos div 8"
    unfolding split using small by (simp only: div_mult_self1 div_less zero_neq_numeral
        [symmetric] not_False_eq_True add_0_right)
  show "(pos + j) mod 8 = pos mod 8 + j"
    unfolding split using small by (simp only: mod_mult_self1 mod_less)
qed

lemma read_loop_0 [simp]: "read_loop msb bytes width 0 pos v = (v, pos)"
  by (simp add: read_loop.simps)

lemma field_bits_inj:
  assumes "field_bits msb n v = field_bits msb n w" "take_bit n v = v" "take_bit n w = w"
  shows "v = w"
proof (rule bit_word_eqI)
  fix k
  show "bit v k \<longleftrightarrow> bit w k"
  proof (cases "k < n")
    case True
    have eq: "field_bit msb n v j = field_bit msb n w j" if "j < n" for j
      using assms(1) that by (metis nth_field_bits)
    from True eq [of "n - 1 - k"] eq [of k] show ?thesis
      by (cases msb) (simp_all add: field_bit_def)
  next
    case False
    then show ?thesis using assms(2,3) by (metis bit_take_bit_iff)
  qed
qed

section \<open>Reading takes bits off the stream\<close>

lemma read_loop_lsb:
  assumes "left \<le> width" "width \<le> 64"
  shows "\<exists>r. read_loop False bytes width left pos v = (r, pos + left)
    \<and> (\<forall>k. bit r k \<longleftrightarrow> bit v k \<or> (width - left \<le> k \<and> k < width
         \<and> stream_bit False bytes (pos + (k - (width - left)))))"
  using assms(1)
proof (induction left arbitrary: pos v rule: less_induct)
  case (less left)
  show ?case
  proof (cases "0 < left")
    case False
    then show ?thesis by auto
  next
    case True
    define n where "n = (if left < 8 - pos mod 8 then left else 8 - pos mod 8)"
    define W where "W = width - left"
    define v' where
      "v' = v OR push_bit W (drop_bit (pos mod 8) (ucast (bytes ! (pos div 8)) :: u64) AND chunk_mask n)"
    have n: "0 < n" "n \<le> left" "n \<le> 8 - pos mod 8" using True by (auto simp: n_def)
    have step: "read_loop False bytes width left pos v = read_loop False bytes width (left - n) (pos + n) v'"
      using True by (simp add: read_loop.simps [of False bytes width left pos v] Let_def n_def v'_def W_def)
    have v': "bit v' k \<longleftrightarrow> bit v k \<or> (W \<le> k \<and> k < W + n \<and> stream_bit False bytes (pos + (k - W)))" for k
    proof -
      have "k - W < 8 - pos mod 8 \<Longrightarrow>
        stream_bit False bytes (pos + (k - W)) \<longleftrightarrow> bit (bytes ! (pos div 8)) (pos mod 8 + (k - W))"
        by (simp add: stream_bit_def same_byte)
      moreover have "W + n \<le> 64" using n assms less.prems by (simp add: W_def)
      ultimately show ?thesis
        using n(3) by (auto simp: v'_def bit_or_iff bit_push_bit_iff and_chunk_mask
          bit_take_bit_iff bit_drop_bit_eq bit_unsigned_iff)
    qed
    have smaller: "left - n < left" "left - n \<le> width" "pos + n + (left - n) = pos + left"
      using n less.prems by auto
    from less.IH [OF smaller(1,2), of "pos + n" v'] obtain r where
      r: "read_loop False bytes width (left - n) (pos + n) v' = (r, pos + left)"
      "\<And>k. bit r k \<longleftrightarrow> bit v' k \<or> (width - (left - n) \<le> k \<and> k < width
         \<and> stream_bit False bytes (pos + n + (k - (width - (left - n)))))"
      unfolding smaller(3) by blast
    have W: "width - (left - n) = W + n" "W + n \<le> width" using n less.prems by (auto simp: W_def)
    have "bit r k \<longleftrightarrow> bit v k \<or> (W \<le> k \<and> k < width \<and> stream_bit False bytes (pos + (k - W)))" for k
    proof (cases "W + n \<le> k")
      case True
      then have "pos + n + (k - (W + n)) = pos + (k - W)" by simp
      with True show ?thesis by (simp add: r(2) v' W)
    next
      case False
      with W(2) show ?thesis by (auto simp: r(2) v' W(1))
    qed
    with r(1) step show ?thesis by (auto simp: W_def)
  qed
qed

lemma read_loop_msb:
  assumes "left \<le> 64"
  shows "\<exists>r. read_loop True bytes width left pos v = (r, pos + left)
    \<and> (\<forall>k. bit r k \<longleftrightarrow> k < 64 \<and>
         (if k < left then stream_bit True bytes (pos + (left - 1 - k)) else bit v (k - left)))"
  using assms
proof (induction left arbitrary: pos v rule: less_induct)
  case (less left)
  show ?case
  proof (cases "0 < left")
    case False
    then show ?thesis by (auto dest: bit_imp_le_length)
  next
    case True
    define n where "n = (if left < 8 - pos mod 8 then left else 8 - pos mod 8)"
    define v' where
      "v' = push_bit n v OR (drop_bit (8 - pos mod 8 - n) (ucast (bytes ! (pos div 8)) :: u64) AND chunk_mask n)"
    have n: "0 < n" "n \<le> left" "n \<le> 8 - pos mod 8" using True by (auto simp: n_def)
    have step: "read_loop True bytes width left pos v = read_loop True bytes width (left - n) (pos + n) v'"
      using True by (simp add: read_loop.simps [of True bytes width left pos v] Let_def n_def v'_def)
    have v': "bit v' k \<longleftrightarrow> k < 64 \<and>
        (if k < n then stream_bit True bytes (pos + (n - 1 - k)) else bit v (k - n))" for k
    proof -
      have "k < n \<Longrightarrow> stream_bit True bytes (pos + (n - 1 - k))
          \<longleftrightarrow> bit (bytes ! (pos div 8)) (8 - pos mod 8 - n + k)"
        using n(3) same_byte [of "n - 1 - k" pos] by (simp add: stream_bit_def)
      moreover have "k < n \<Longrightarrow> 8 - pos mod 8 - n + k < 64" using n(3) by linarith
      moreover have "n \<le> 8" using n(3) by simp
      ultimately show ?thesis
        by (auto simp: v'_def bit_or_iff bit_push_bit_iff and_chunk_mask bit_take_bit_iff
            bit_drop_bit_eq bit_unsigned_iff)
    qed
    have smaller: "left - n < left" "left - n \<le> 64" "pos + n + (left - n) = pos + left"
      using n less.prems by auto
    from less.IH [OF smaller(1,2), of "pos + n" v'] obtain r where
      r: "read_loop True bytes width (left - n) (pos + n) v' = (r, pos + left)"
      "\<And>k. bit r k \<longleftrightarrow> k < 64 \<and>
         (if k < left - n then stream_bit True bytes (pos + n + (left - n - 1 - k))
          else bit v' (k - (left - n)))"
      unfolding smaller(3) by blast
    have "bit r k \<longleftrightarrow> k < 64 \<and>
         (if k < left then stream_bit True bytes (pos + (left - 1 - k)) else bit v (k - left))" for k
      using n less.prems by (auto simp: r(2) v')
    with r(1) step show ?thesis by auto
  qed
qed

text \<open>
  A cursor over a slice: no slice is long enough for a bit position to leave the \<open>u64\<close> range.
\<close>

definition in_memory :: "u8 list \<Rightarrow> bool" where
  "in_memory bytes \<longleftrightarrow> 8 * length bytes < u64_max"

lemma enough_bytes_iff:
  assumes "in_memory bytes"
  shows "length bytes < div_ceil (saturating_add_u64 at_bit bits) 8 \<longleftrightarrow> 8 * length bytes < at_bit + bits"
proof -
  have "div_ceil (saturating_add_u64 at_bit bits) 8 \<le> length bytes
      \<longleftrightarrow> saturating_add_u64 at_bit bits \<le> 8 * length bytes"
    by (rule div_ceil_8_le_iff)
  also have "\<dots> \<longleftrightarrow> at_bit + bits \<le> 8 * length bytes"
    using assms by (auto simp: saturating_add_u64_def in_memory_def u64_max_def)
  finally show ?thesis by linarith
qed

lemma read_ok:
  assumes "in_memory (rd_bytes r)" "bits \<le> 64" "rd_at r + bits \<le> 8 * length (rd_bytes r)"
  shows "\<exists>v. read msb r bits = (Inr v, r\<lparr>rd_at := rd_at r + bits\<rparr>) \<and> take_bit bits v = v
    \<and> field_bits msb bits v = take bits (drop (rd_at r) (stream msb (rd_bytes r)))"
proof -
  obtain v where loop: "read_loop msb (rd_bytes r) bits bits (rd_at r) 0 = (v, rd_at r + bits)"
    and v: "bit v k \<longleftrightarrow> k < bits
      \<and> stream_bit msb (rd_bytes r) (rd_at r + (if msb then bits - 1 - k else k))" for k
  proof (cases msb)
    case True
    from read_loop_msb [OF assms(2), of "rd_bytes r" bits "rd_at r" 0] obtain v where
      v: "read_loop True (rd_bytes r) bits bits (rd_at r) 0 = (v, rd_at r + bits)"
      "\<And>k. bit v k \<longleftrightarrow> k < 64 \<and>
         (if k < bits then stream_bit True (rd_bytes r) (rd_at r + (bits - 1 - k)) else bit (0 :: u64) (k - bits))"
      by blast
    show ?thesis
    proof (rule that)
      show "read_loop msb (rd_bytes r) bits bits (rd_at r) 0 = (v, rd_at r + bits)"
        using True v(1) by simp
      show "bit v k \<longleftrightarrow> k < bits
        \<and> stream_bit msb (rd_bytes r) (rd_at r + (if msb then bits - 1 - k else k))" for k
        using True assms(2) by (cases "k < bits") (simp_all add: v(2))
    qed
  next
    case False
    with read_loop_lsb [of bits bits "rd_bytes r" "rd_at r" 0] assms(2) that show ?thesis
      by auto
  qed
  have "field_bits msb bits v = take bits (drop (rd_at r) (stream msb (rd_bytes r)))"
    by (rule nth_equalityI) (use assms(3) in \<open>auto simp: field_bit_def v\<close>)
  moreover have "take_bit bits v = v"
    by (rule bit_word_eqI) (auto simp: bit_take_bit_iff v)
  moreover have "read msb r bits = (Inr v, r\<lparr>rd_at := rd_at r + bits\<rparr>)"
    using assms(3) by (simp add: read_def Let_def enough_bytes_iff [OF assms(1)] loop)
  ultimately show ?thesis by blast
qed

lemma read_short:
  assumes "in_memory (rd_bytes r)" "8 * length (rd_bytes r) < rd_at r + bits"
  shows "read msb r bits =
    (Inl (Short (div_ceil (saturating_add_u64 (rd_at r) bits) 8) (length (rd_bytes r)) (rd_at r div 8)), r)"
  using assms by (simp add: read_def Let_def enough_bytes_iff)

lemma read_unique:
  assumes "in_memory (rd_bytes r)" "bits \<le> 64" "rd_at r + bits \<le> 8 * length (rd_bytes r)"
    and "take_bit bits v = v"
    and "field_bits msb bits v = take bits (drop (rd_at r) (stream msb (rd_bytes r)))"
  shows "read msb r bits = (Inr v, r\<lparr>rd_at := rd_at r + bits\<rparr>)"
  using read_ok [OF assms(1-3), of msb] assms(4,5) field_bits_inj by metis

section \<open>Properties\<close>

text \<open>C12: a read of up to 64 bits returns the number whose bits are the next ones of the stream and
  moves past them, or, when the bytes end inside it, the error that names how many bytes it
  needs, how many there are and the byte it started in, without moving.\<close>

theorem read_next_bits:
  assumes "in_memory (rd_bytes r)" "bits \<le> 64"
  shows "if rd_at r + bits \<le> 8 * length (rd_bytes r)
    then \<exists>v. read msb r bits = (Inr v, r\<lparr>rd_at := rd_at r + bits\<rparr>) \<and> take_bit bits v = v
           \<and> field_bits msb bits v = take bits (drop (rd_at r) (stream msb (rd_bytes r)))
    else read msb r bits =
      (Inl (Short (div_ceil (saturating_add_u64 (rd_at r) bits) 8) (length (rd_bytes r)) (rd_at r div 8)), r)"
  using read_ok [OF assms] read_short [OF assms(1)] by auto

theorem read_next_bits_witness:
  "read True \<lparr>rd_bytes = [0xA5], rd_at = 4\<rparr> 5 = (Inl (Short 2 1 0), \<lparr>rd_bytes = [0xA5], rd_at = 4\<rparr>)
    \<and> (\<exists>v. read True \<lparr>rd_bytes = [0xA5], rd_at = 2\<rparr> 3 = (Inr v, \<lparr>rd_bytes = [0xA5], rd_at = 5\<rparr>)
          \<and> field_bits True 3 v = take 3 (drop 2 (stream True [0xA5])))"
proof -
  have "in_memory [0xA5]" by (simp add: in_memory_def u64_max_def)
  then show ?thesis
    using read_next_bits [of "\<lparr>rd_bytes = [0xA5], rd_at = 4\<rparr>" 5 True]
      read_next_bits [of "\<lparr>rd_bytes = [0xA5], rd_at = 2\<rparr>" 3 True]
    by (auto simp: u64_max_def saturating_add_u64_def div_ceil_def)
qed

end
