(* ===== verification/BitWriting.thy ===== *)
theory BitWriting
  imports BitCursor
begin

text \<open>
  What the bit writer does to the stream. \<open>writer_at B ok msb w P\<close> says that the cursor \<open>w\<close> stands at
  bit \<open>P\<close> of its buffer: the last byte is used up to \<open>P\<close> and its unused bits are zero. Writing
  appends the field's bits and moves \<open>P\<close>, a refused write changes nothing, and a patch replaces
  bits in place. All of it holds over any buffer that keeps the \<open>buffer\<close> contract.
\<close>

section \<open>Bytes and bits\<close>

lemma stream_bit_inj:
  assumes "length a = length b" "\<And>i. i < 8 * length a \<Longrightarrow> stream_bit msb a i = stream_bit msb b i"
  shows "a = b"
proof (rule nth_equalityI)
  fix j assume j: "j < length a"
  show "a ! j = b ! j"
  proof (rule bit_word_eqI)
    fix k assume k: "k < LENGTH(8)"
    define m where "m = (if msb then 7 - k else k)"
    have m: "m < 8" "(if msb then 7 - m else m) = k" using k by (auto simp: m_def)
    then have "8 * j + m < 8 * length a" using j by linarith
    moreover have "(8 * j + m) div 8 = j" "(8 * j + m) mod 8 = m" using m(1) by simp_all
    ultimately show "bit (a ! j) k = bit (b ! j) k"
      using assms(2) [of "8 * j + m"] m(2) by (simp only: stream_bit_def)
  qed
qed (rule assms(1))

lemma stream_inj: "stream msb a = stream msb b \<Longrightarrow> a = b"
proof (rule stream_bit_inj)
  assume *: "stream msb a = stream msb b"
  then show "length a = length b" by (metis length_stream mult_left_cancel zero_neq_numeral)
  fix i assume "i < 8 * length a"
  with * \<open>length a = length b\<close> show "stream_bit msb a i = stream_bit msb b i"
    by (metis nth_stream)
qed

lemma bit_chunk_of:
  assumes "j < 8" "u + n \<le> 8" "n \<le> left" "left \<le> width" "width \<le> 64"
  shows "bit (chunk_of msb v width left u n) (if msb then 7 - j else j)
    \<longleftrightarrow> u \<le> j \<and> j < u + n \<and> field_bit msb width v (width - left + (j - u))"
proof (cases msb)
  case True
  have "left - n + (7 - j - (8 - u - n)) = width - 1 - (width - left + (j - u))" if "u \<le> j" "j < u + n"
    using assms that by linarith
  moreover have "8 - u - n \<le> 7 - j \<longleftrightarrow> j < u + n" "j < u + n \<Longrightarrow> 7 - j - (8 - u - n) < n \<longleftrightarrow> u \<le> j"
    using assms by linarith+
  ultimately show ?thesis
    using assms True
    by (auto simp: chunk_of_def field_bit_def and_chunk_mask bit_push_bit_iff bit_unsigned_iff
        bit_take_bit_iff bit_drop_bit_eq)
next
  case False
  with assms show ?thesis
    by (auto simp: chunk_of_def field_bit_def and_chunk_mask bit_push_bit_iff bit_unsigned_iff
        bit_take_bit_iff bit_drop_bit_eq)
qed

lemma stream_bit_or_last:
  assumes "bytes \<noteq> []" "i < 8 * length bytes"
  shows "stream_bit msb (or_last bytes c) i \<longleftrightarrow> stream_bit msb bytes i
    \<or> (8 * (length bytes - 1) \<le> i \<and> bit c (if msb then 7 - i mod 8 else i mod 8))"
proof -
  have "i div 8 = length bytes - 1 \<longleftrightarrow> 8 * (length bytes - 1) \<le> i"
    using assms by auto
  moreover have "i div 8 < length bytes" using assms by auto
  ultimately show ?thesis
    using assms(1)
    by (auto simp: stream_bit_def or_last_def last_conv_nth nth_list_update bit_or_iff)
qed

section \<open>A cursor at a bit position\<close>

definition writer_at :: "'b buffer_ops \<Rightarrow> ('b \<Rightarrow> bool) \<Rightarrow> bool \<Rightarrow> 'b bit_writer \<Rightarrow> nat \<Rightarrow> bool" where
  "writer_at B ok msb w P \<longleftrightarrow> ok (out_buf w) \<and> used_bits w = P mod 8
     \<and> length (written B (out_buf w)) = div_ceil P 8 \<and> 8 * base_len w \<le> P
     \<and> (\<forall>i. P \<le> i \<and> i < 8 * length (written B (out_buf w)) \<longrightarrow>
          \<not> stream_bit msb (written B (out_buf w)) i)"

lemma bytes_and_rest:
  obtains q r :: nat where "P = 8 * q + r" "r < 8" "P div 8 = q" "P mod 8 = r"
  using that [of "P div 8" "P mod 8"] by simp

lemma div_ceil_8_add:
  assumes "0 < n" "n \<le> 8 - P mod 8"
  shows "div_ceil (P + n) 8 = P div 8 + 1"
proof -
  obtain q r where P: "P = 8 * q + r" "r < 8" "P div 8 = q" "P mod 8 = r"
    by (rule bytes_and_rest)
  have "(P + n + 8 - 1) div 8 = q + 1"
    by (rule div_8_eqI) (use assms P in auto)
  then show ?thesis by (simp add: div_ceil_def P(3))
qed

lemma div_ceil_8: "div_ceil P 8 = P div 8 + (if P mod 8 = 0 then 0 else 1)"
  unfolding div_ceil_def by auto presburger

lemma stream_bit_append: "i < 8 * length xs \<Longrightarrow> stream_bit msb (xs @ ys) i = stream_bit msb xs i"
proof -
  assume "i < 8 * length xs"
  then have "i div 8 < length xs" by auto
  then show ?thesis by (simp add: stream_bit_def nth_append)
qed

context buffer
begin

text \<open>The byte the next chunk goes into: the last one, or a fresh zero byte.\<close>

lemma next_byte:
  assumes "writer_at B ok msb w P" "enat (P div 8 + 1) \<le> capacity (out_buf w)"
  shows "\<exists>b. (if used_bits w = 0 then push B (out_buf w) [0] else (Inr (), out_buf w)) = (Inr (), b)
    \<and> ok b \<and> capacity b = capacity (out_buf w) \<and> length (written B b) = P div 8 + 1
    \<and> (\<forall>i < 8 * (P div 8 + 1). stream_bit msb (written B b) i \<longleftrightarrow>
         i < P \<and> stream_bit msb (written B (out_buf w)) i)"
proof (cases "P mod 8 = 0")
  case True
  let ?bs = "written B (out_buf w)"
  have len: "length ?bs = P div 8" and P: "8 * (P div 8) = P" and used: "used_bits w = 0"
    using assms(1) True by (auto simp: writer_at_def div_ceil_8)
  obtain b where b: "push B (out_buf w) [0] = (Inr (), b)" "ok b" "capacity b = capacity (out_buf w)"
    "written B b = ?bs @ [0]"
    using push_fits [of "out_buf w" "[0]"] assms len by (auto simp: writer_at_def)
  have "stream_bit msb (?bs @ [0]) i \<longleftrightarrow> i < P \<and> stream_bit msb ?bs i"
    if "i < 8 * (P div 8 + 1)" for i
  proof (cases "i < P")
    case True
    then show ?thesis using stream_bit_append len P by metis
  next
    case False
    then have "i div 8 = length ?bs" using that len P by (intro div_8_eqI) auto
    with False show ?thesis by (simp add: stream_bit_def nth_append)
  qed
  with b used len show ?thesis by (intro exI [of _ b]) simp
next
  case False
  have "i < 8 * (P div 8 + 1) \<Longrightarrow> stream_bit msb (written B (out_buf w)) i \<Longrightarrow> i < P" for i
    by (rule ccontr) (use False assms(1) in \<open>auto simp: writer_at_def div_ceil_8\<close>)
  with False assms(1) show ?thesis
    by (intro exI [of _ "out_buf w"]) (auto simp: writer_at_def div_ceil_8)
qed

lemma append_loop_step:
  assumes "writer_at B ok msb w P" "0 < left" "left \<le> width" "width \<le> 64"
    and "enat (P div 8 + 1) \<le> capacity (out_buf w)"
    and n: "n = (if left < 8 - P mod 8 then left else 8 - P mod 8)"
  shows "\<exists>w'. append_loop B msb v width left w = append_loop B msb v width (left - n) w'
    \<and> writer_at B ok msb w' (P + n) \<and> base_len w' = base_len w
    \<and> capacity (out_buf w') = capacity (out_buf w)
    \<and> (\<forall>i < P + n. stream_bit msb (written B (out_buf w')) i \<longleftrightarrow>
         (if i < P then stream_bit msb (written B (out_buf w)) i
          else field_bit msb width v (width - left + (i - P))))"
proof -
  obtain b where push: "(if used_bits w = 0 then push B (out_buf w) [0] else (Inr (), out_buf w)) = (Inr (), b)"
    and b: "ok b" "capacity b = capacity (out_buf w)" and len: "length (written B b) = P div 8 + 1"
    and bits: "\<And>i. i < 8 * (P div 8 + 1) \<Longrightarrow> stream_bit msb (written B b) i \<longleftrightarrow>
         i < P \<and> stream_bit msb (written B (out_buf w)) i"
    using next_byte [OF assms(1,5)] by blast
  have ne: "written B b \<noteq> []" using len by auto
  have used: "used_bits w = P mod 8" using assms(1) by (simp add: writer_at_def)
  define c where "c = chunk_of msb v width left (P mod 8) n"
  define o' where "o' = set_written B b (or_last (written B b) c)"
  define w' where "w' = w\<lparr>out_buf := o', used_bits := (P mod 8 + n) mod 8\<rparr>"
  have n8: "0 < n" "n \<le> 8 - P mod 8" "n \<le> left" using n assms(2) by (auto simp: n)
  have "length (or_last (written B b) c) = length (written B b)" by (simp add: or_last_def)
  with b have o': "ok o'" "capacity o' = capacity (out_buf w)" "written B o' = or_last (written B b) c"
    using set_written [OF b(1)] by (simp_all add: o'_def)
  have eq: "append_loop B msb v width left w = append_loop B msb v width (left - n) w'"
    using assms(2) push
    by (simp add: append_loop.simps [of B msb v width left w] Let_def used w'_def o'_def c_def n)
  have bits': "stream_bit msb (written B o') i \<longleftrightarrow>
      i < P \<and> stream_bit msb (written B (out_buf w)) i
      \<or> P \<le> i \<and> i < P + n \<and> field_bit msb width v (width - left + (i - P))"
    if i: "i < 8 * (P div 8 + 1)" for i
  proof -
    have "stream_bit msb (written B o') i \<longleftrightarrow> stream_bit msb (written B b) i
      \<or> (8 * (P div 8) \<le> i \<and> bit c (if msb then 7 - i mod 8 else i mod 8))"
      unfolding o'(3) using stream_bit_or_last [of "written B b" i msb c] ne len i by simp
    also have "8 * (P div 8) \<le> i \<and> bit c (if msb then 7 - i mod 8 else i mod 8) \<longleftrightarrow>
      P \<le> i \<and> i < P + n \<and> field_bit msb width v (width - left + (i - P))"
    proof (cases "8 * (P div 8) \<le> i")
      case True
      then have "i div 8 = P div 8" using i by (intro div_8_eqI) auto
      then have cmp: "P mod 8 \<le> i mod 8 \<longleftrightarrow> P \<le> i" "i mod 8 < P mod 8 + n \<longleftrightarrow> i < P + n"
        "i mod 8 - P mod 8 = i - P"
        using div_mult_mod_eq [of P 8] div_mult_mod_eq [of i 8] by linarith+
      have "bit c (if msb then 7 - i mod 8 else i mod 8) \<longleftrightarrow> P mod 8 \<le> i mod 8
          \<and> i mod 8 < P mod 8 + n \<and> field_bit msb width v (width - left + (i mod 8 - P mod 8))"
        unfolding c_def by (rule bit_chunk_of) (use n8 assms(3,4) in auto)
      with True show ?thesis by (simp only: cmp simp_thms)
    next
      case False
      then have "i < P" using div_mult_mod_eq [of P 8] by linarith
      with False show ?thesis by simp
    qed
    finally show ?thesis using bits [OF i] by simp
  qed
  have at: "writer_at B ok msb w' (P + n)"
    using assms(1) o' bits' n8 len
    by (auto simp: writer_at_def w'_def mod_add_left_eq div_ceil_8_add or_last_def)
  obtain q r where "P = 8 * q + r" "r < 8" "P div 8 = q" "P mod 8 = r"
    by (rule bytes_and_rest)
  with n8(2) have "P + n \<le> 8 * (P div 8 + 1)" by auto
  then have "i < P + n \<Longrightarrow> stream_bit msb (written B o') i \<longleftrightarrow>
      (if i < P then stream_bit msb (written B (out_buf w)) i
       else field_bit msb width v (width - left + (i - P)))" for i
    using bits' [of i] by auto
  with eq at o' show ?thesis
    by (intro exI [of _ w']) (simp add: w'_def)
qed

lemma append_loop_fits:
  assumes "writer_at B ok msb w P" "left \<le> width" "width \<le> 64"
    and "enat (div_ceil (P + left) 8) \<le> capacity (out_buf w)"
  shows "\<exists>w'. append_loop B msb v width left w = (Inr (), w')
    \<and> writer_at B ok msb w' (P + left) \<and> base_len w' = base_len w
    \<and> capacity (out_buf w') = capacity (out_buf w)
    \<and> (\<forall>i < P + left. stream_bit msb (written B (out_buf w')) i \<longleftrightarrow>
         (if i < P then stream_bit msb (written B (out_buf w)) i
          else field_bit msb width v (width - left + (i - P))))"
  using assms(1,2,4)
proof (induction left arbitrary: w P rule: less_induct)
  case (less left)
  show ?case
  proof (cases "0 < left")
    case False
    with less.prems show ?thesis by (simp add: append_loop.simps [of B msb v width 0 w])
  next
    case True
    define n where "n = (if left < 8 - P mod 8 then left else 8 - P mod 8)"
    have n: "0 < n" "n \<le> left" using True by (auto simp: n_def)
    have "P div 8 + 1 = div_ceil (P + 1) 8" by (rule div_ceil_8_add [symmetric]) (simp_all add: Suc_leI)
    also have "\<dots> \<le> div_ceil (P + left) 8" using True by (auto simp: div_ceil_def intro!: div_le_mono)
    finally have room: "enat (P div 8 + 1) \<le> capacity (out_buf w)"
      using less.prems(3) order_trans enat_ord_simps(1) by blast
    from append_loop_step [OF less.prems(1) True less.prems(2) assms(3) room n_def, of v]
    obtain w1 where w1: "append_loop B msb v width left w = append_loop B msb v width (left - n) w1"
      "writer_at B ok msb w1 (P + n)" "base_len w1 = base_len w" "capacity (out_buf w1) = capacity (out_buf w)"
      and bits1: "\<And>i. i < P + n \<Longrightarrow> stream_bit msb (written B (out_buf w1)) i \<longleftrightarrow>
         (if i < P then stream_bit msb (written B (out_buf w)) i
          else field_bit msb width v (width - left + (i - P)))"
      by blast
    have smaller: "left - n < left" "left - n \<le> width" and sum: "P + n + (left - n) = P + left"
      using n less.prems(2) by auto
    from less.IH [OF smaller(1) w1(2) smaller(2), unfolded sum w1(4), OF less.prems(3)]
    obtain w2 where w2: "append_loop B msb v width (left - n) w1 = (Inr (), w2)"
      "writer_at B ok msb w2 (P + left)" "base_len w2 = base_len w1" "capacity (out_buf w2) = capacity (out_buf w)"
      and bits2: "\<And>i. i < P + left \<Longrightarrow> stream_bit msb (written B (out_buf w2)) i \<longleftrightarrow>
         (if i < P + n then stream_bit msb (written B (out_buf w1)) i
          else field_bit msb width v (width - (left - n) + (i - (P + n))))"
      by blast
    have "stream_bit msb (written B (out_buf w2)) i \<longleftrightarrow>
         (if i < P then stream_bit msb (written B (out_buf w)) i
          else field_bit msb width v (width - left + (i - P)))" if "i < P + left" for i
    proof (cases "i < P + n")
      case True
      with bits1 [OF True] bits2 [OF that] show ?thesis by simp
    next
      case False
      then have e: "width - (left - n) + (i - (P + n)) = width - left + (i - P)"
        using n less.prems(2) by simp
      from False bits2 [OF that, unfolded e] show ?thesis by simp
    qed
    with w1 w2 show ?thesis by (intro exI [of _ w2]) simp
  qed
qed

lemma append_loop_refused:
  assumes "writer_at B ok msb w P" "left \<le> width" "width \<le> 64"
    and "\<not> enat (div_ceil (P + left) 8) \<le> capacity (out_buf w)"
  shows "\<exists>w'. append_loop B msb v width left w = (Inl Overflow, w')
    \<and> ok (out_buf w') \<and> base_len w' = base_len w
    \<and> capacity (out_buf w') = capacity (out_buf w)
    \<and> div_ceil P 8 \<le> length (written B (out_buf w'))
    \<and> (\<forall>i < P. stream_bit msb (written B (out_buf w')) i = stream_bit msb (written B (out_buf w)) i)"
  using assms(1,2,4)
proof (induction left arbitrary: w P rule: less_induct)
  case (less left)
  have okw: "ok (out_buf w)" and len: "length (written B (out_buf w)) = div_ceil P 8"
    and used: "used_bits w = P mod 8"
    using less.prems(1) by (auto simp: writer_at_def)
  have pos: "0 < left"
    using written_fits [OF okw] len less.prems(3) by (cases left) auto
  define n where "n = (if left < 8 - P mod 8 then left else 8 - P mod 8)"
  have n: "0 < n" "n \<le> left" using pos by (auto simp: n_def)
  show ?case
  proof (cases "enat (P div 8 + 1) \<le> capacity (out_buf w)")
    case False
    then have "P mod 8 = 0"
      using written_fits [OF okw] len by (auto simp: div_ceil_8 split: if_splits)
    with False len have "push B (out_buf w) [0] = (Inl Overflow, out_buf w)"
      by (intro push_refused okw) (simp add: div_ceil_8)
    with pos \<open>P mod 8 = 0\<close> used have "append_loop B msb v width left w = (Inl Overflow, w)"
      by (simp add: append_loop.simps [of B msb v width left w])
    with okw len show ?thesis by simp
  next
    case True
    from append_loop_step [OF less.prems(1) pos less.prems(2) assms(3) True n_def, of v]
    obtain w1 where w1: "append_loop B msb v width left w = append_loop B msb v width (left - n) w1"
      "writer_at B ok msb w1 (P + n)" "base_len w1 = base_len w" "capacity (out_buf w1) = capacity (out_buf w)"
      and bits1: "\<And>i. i < P + n \<Longrightarrow> stream_bit msb (written B (out_buf w1)) i \<longleftrightarrow>
         (if i < P then stream_bit msb (written B (out_buf w)) i
          else field_bit msb width v (width - left + (i - P)))"
      by blast
    have smaller: "left - n < left" "left - n \<le> width" and sum: "P + n + (left - n) = P + left"
      using n less.prems(2) by auto
    have "div_ceil P 8 \<le> div_ceil (P + n) 8" by (auto simp: div_ceil_def intro!: div_le_mono)
    with less.IH [OF smaller(1) w1(2) smaller(2), unfolded sum w1(4), OF less.prems(3)] bits1 w1
    show ?thesis by fastforce
  qed
qed

lemma write_fits:
  assumes "writer_at B ok msb w P" "bits \<le> 64"
    and "enat (div_ceil (P + bits) 8) \<le> capacity (out_buf w)"
  shows "\<exists>w'. write_bits B msb w v bits = (Inr (), w')
    \<and> writer_at B ok msb w' (P + bits) \<and> base_len w' = base_len w
    \<and> capacity (out_buf w') = capacity (out_buf w)
    \<and> take (P + bits) (stream msb (written B (out_buf w')))
        = take P (stream msb (written B (out_buf w))) @ field_bits msb bits v"
proof -
  from append_loop_fits [OF assms(1) order_refl assms(2,3), of v] obtain w' where
    w': "append_loop B msb v bits bits w = (Inr (), w')" "writer_at B ok msb w' (P + bits)"
      "base_len w' = base_len w" "capacity (out_buf w') = capacity (out_buf w)"
    and bits: "\<And>i. i < P + bits \<Longrightarrow> stream_bit msb (written B (out_buf w')) i \<longleftrightarrow>
         (if i < P then stream_bit msb (written B (out_buf w)) i else field_bit msb bits v (i - P))"
    by auto
  have len: "P \<le> 8 * length (written B (out_buf w))" "P + bits \<le> 8 * length (written B (out_buf w'))"
    using assms(1) w'(2) by (simp_all add: writer_at_def flip: div_ceil_8_le_iff)
  have "take (P + bits) (stream msb (written B (out_buf w')))
      = take P (stream msb (written B (out_buf w))) @ field_bits msb bits v"
    by (rule nth_equalityI) (use len bits in \<open>auto simp: nth_append\<close>)
  with w' show ?thesis
    by (intro exI [of _ w']) (simp add: write_bits_def append_bits_def)
qed

end

lemma bit_keep_mask:
  assumes "u < 8" "j < 8"
  shows "bit (keep_mask msb u) (if msb then 7 - j else j) \<longleftrightarrow> j < u"
proof (cases msb)
  case True
  have "bit (push_bit (8 - u) (mask 8 :: u8)) (7 - j) \<longleftrightarrow> j < u"
    using assms by (auto simp: bit_simps)
  with True show ?thesis by (simp add: keep_mask_def mask_eq_exp_minus_1)
next
  case False
  then have "keep_mask msb u = mask u" by (simp add: keep_mask_def mask_eq_exp_minus_1 push_bit_eq_mult)
  with False assms show ?thesis by (simp add: bit_simps)
qed

lemma stream_bit_and_last:
  assumes "bytes \<noteq> []" "i < 8 * length bytes"
  shows "stream_bit msb (and_last bytes c) i \<longleftrightarrow> stream_bit msb bytes i
    \<and> (8 * (length bytes - 1) \<le> i \<longrightarrow> bit c (if msb then 7 - i mod 8 else i mod 8))"
proof -
  have "i div 8 = length bytes - 1 \<longleftrightarrow> 8 * (length bytes - 1) \<le> i"
    using assms by auto
  moreover have "i div 8 < length bytes" using assms by auto
  ultimately show ?thesis
    using assms(1)
    by (auto simp: stream_bit_def and_last_def last_conv_nth nth_list_update bit_and_iff)
qed

lemma and_last_restores:
  assumes "length bytes = div_ceil P 8" "P mod 8 \<noteq> 0" "length old = length bytes"
    and "\<And>i. i < P \<Longrightarrow> stream_bit msb bytes i = stream_bit msb old i"
    and "\<And>i. P \<le> i \<Longrightarrow> i < 8 * length old \<Longrightarrow> \<not> stream_bit msb old i"
  shows "and_last bytes (keep_mask msb (P mod 8)) = old"
proof (rule stream_bit_inj)
  have len: "length bytes = P div 8 + 1" using assms(1,2) by (simp add: div_ceil_8)
  then have ne: "bytes \<noteq> []" by auto
  show "length (and_last bytes (keep_mask msb (P mod 8))) = length old"
    using assms(3) by (simp add: and_last_def)
  fix i assume "i < 8 * length (and_last bytes (keep_mask msb (P mod 8)))"
  then have i: "i < 8 * (P div 8 + 1)" using len by (simp add: and_last_def split: if_splits)
  have split: "stream_bit msb (and_last bytes (keep_mask msb (P mod 8))) i \<longleftrightarrow> stream_bit msb bytes i
    \<and> (8 * (P div 8) \<le> i \<longrightarrow> i mod 8 < P mod 8)"
    using stream_bit_and_last [OF ne, of i msb "keep_mask msb (P mod 8)"] i len
      bit_keep_mask [of "P mod 8" "i mod 8" msb] by simp
  have cmp: "(8 * (P div 8) \<le> i \<longrightarrow> i mod 8 < P mod 8) \<longleftrightarrow> i < P"
  proof (cases "8 * (P div 8) \<le> i")
    case True
    then have "i div 8 = P div 8" using i by (intro div_8_eqI) auto
    then show ?thesis using True div_mult_mod_eq [of P 8] div_mult_mod_eq [of i 8] by linarith
  next
    case False
    then show ?thesis using div_mult_mod_eq [of P 8] by linarith
  qed
  show "stream_bit msb (and_last bytes (keep_mask msb (P mod 8))) i = stream_bit msb old i"
    unfolding split cmp using assms(3-5) i len by (cases "i < P") auto
qed

context buffer
begin

lemma write_refused:
  assumes "writer_at B ok msb w P" "bits \<le> 64"
    and "\<not> enat (div_ceil (P + bits) 8) \<le> capacity (out_buf w)"
  shows "\<exists>w'. write_bits B msb w v bits = (Inl Overflow, w')
    \<and> written B (out_buf w') = written B (out_buf w) \<and> used_bits w' = used_bits w
    \<and> base_len w' = base_len w \<and> capacity (out_buf w') = capacity (out_buf w)
    \<and> writer_at B ok msb w' P"
proof -
  let ?old = "written B (out_buf w)"
  have at: "ok (out_buf w)" "used_bits w = P mod 8" "length ?old = div_ceil P 8" "8 * base_len w \<le> P"
    "\<And>i. P \<le> i \<Longrightarrow> i < 8 * length ?old \<Longrightarrow> \<not> stream_bit msb ?old i"
    using assms(1) by (auto simp: writer_at_def)
  from append_loop_refused [OF assms(1) order_refl assms(2,3), of v] obtain w1 where
    w1: "append_loop B msb v bits bits w = (Inl Overflow, w1)" "ok (out_buf w1)" "base_len w1 = base_len w"
      "capacity (out_buf w1) = capacity (out_buf w)" "div_ceil P 8 \<le> length (written B (out_buf w1))"
    and same: "\<And>i. i < P \<Longrightarrow> stream_bit msb (written B (out_buf w1)) i = stream_bit msb ?old i"
    by blast
  define o' where "o' = rewind B (out_buf w1) (buf_len B (out_buf w))"
  define bytes where "bytes = take (div_ceil P 8) (written B (out_buf w1))"
  have o': "ok o'" "capacity o' = capacity (out_buf w)" "written B o' = bytes"
    using rewind [OF w1(2)] w1(4) at by (simp_all add: o'_def bytes_def buf_len)
  have len: "length bytes = div_ceil P 8" using w1(5) by (simp add: bytes_def)
  have eq: "i < P \<Longrightarrow> stream_bit msb bytes i = stream_bit msb ?old i" for i
  proof -
    assume "i < P"
    moreover from this have "i < 8 * length bytes"
      using len div_ceil_8_le_iff [of P "div_ceil P 8"] by simp
    ultimately show ?thesis
      using same [of i] stream_bit_append [of i bytes msb "drop (div_ceil P 8) (written B (out_buf w1))"]
      by (simp add: bytes_def)
  qed
  define o'' where
    "o'' = (if 1 \<le> used_bits w then set_written B o' (and_last bytes (keep_mask msb (used_bits w))) else o')"
  have o'': "ok o'' \<and> capacity o'' = capacity (out_buf w) \<and> written B o'' = ?old"
  proof (cases "P mod 8 = 0")
    case True
    then have "8 * div_ceil P 8 = P" using div_mult_mod_eq [of P 8] by (simp add: div_ceil_8)
    then have "bytes = ?old" using eq len at(3) by (intro stream_bit_inj [of _ _ msb]) auto
    with True o' at(2) show ?thesis by (simp add: o''_def)
  next
    case False
    then have "and_last bytes (keep_mask msb (P mod 8)) = ?old"
      by (intro and_last_restores) (use len at eq in auto)
    with False o' at(2,3) len set_written [OF o'(1), of ?old] show ?thesis
      by (simp add: o''_def Suc_le_eq)
  qed
  have "write_bits B msb w v bits = (Inl Overflow, w1\<lparr>out_buf := o'', used_bits := used_bits w\<rparr>)"
    by (simp add: write_bits_def append_bits_def w1(1) Let_def o''_def flip: o'_def o'(3))
  with o'' w1(3) at show ?thesis by (simp add: writer_at_def)
qed

end

section \<open>Patching\<close>

lemma bit_hole_of:
  assumes "j < 8" "u + n \<le> 8"
  shows "bit (hole_of msb u n) (if msb then 7 - j else j) \<longleftrightarrow> u \<le> j \<and> j < u + n"
proof (cases msb)
  case True
  have "8 - u - n \<le> 7 - j \<longleftrightarrow> j < u + n" "j < u + n \<Longrightarrow> 7 - j - (8 - u - n) < n \<longleftrightarrow> u \<le> j"
    using assms by linarith+
  with assms True show ?thesis
    by (auto simp: hole_of_def chunk_mask_eq bit_push_bit_iff bit_unsigned_iff bit_mask_iff)
next
  case False
  with assms show ?thesis
    by (auto simp: hole_of_def chunk_mask_eq bit_push_bit_iff bit_unsigned_iff bit_mask_iff)
qed

lemma patch_loop_spec:
  assumes "left \<le> width" "width \<le> 64" "8 * base + pos + left \<le> 8 * length bytes"
  shows "length (patch_loop msb base v width left pos bytes) = length bytes
    \<and> (\<forall>i < 8 * length bytes. stream_bit msb (patch_loop msb base v width left pos bytes) i \<longleftrightarrow>
         (if 8 * base + pos \<le> i \<and> i < 8 * base + pos + left
          then field_bit msb width v (width - left + (i - (8 * base + pos)))
          else stream_bit msb bytes i))"
  using assms(1,3)
proof (induction left arbitrary: pos bytes rule: less_induct)
  case (less left)
  show ?case
  proof (cases "0 < left")
    case False
    then show ?thesis by (auto simp: patch_loop.simps [of msb base v width 0])
  next
    case True
    define n where "n = (if left < 8 - pos mod 8 then left else 8 - pos mod 8)"
    define k where "k = base + pos div 8"
    define bytes' where "bytes' = bytes[k := (bytes ! k AND NOT (hole_of msb (pos mod 8) n))
        OR chunk_of msb v width left (pos mod 8) n]"
    have n: "0 < n" "n \<le> left" "n \<le> 8 - pos mod 8" using True by (auto simp: n_def)
    obtain q r where P: "pos = 8 * q + r" "r < 8" "pos div 8 = q" "pos mod 8 = r"
      by (rule bytes_and_rest)
    have k: "k < length bytes" using less.prems(2) True P by (auto simp: k_def)
    have step: "patch_loop msb base v width left pos bytes
        = patch_loop msb base v width (left - n) (pos + n) bytes'"
      using True by (simp add: patch_loop.simps [of msb base v width left pos bytes] Let_def n_def
          bytes'_def k_def)
    have bits': "stream_bit msb bytes' i \<longleftrightarrow> (if 8 * base + pos \<le> i \<and> i < 8 * base + pos + n
          then field_bit msb width v (width - left + (i - (8 * base + pos))) else stream_bit msb bytes i)"
      if i: "i < 8 * length bytes" for i
    proof (cases "i div 8 = k")
      case True
      obtain q' r' where Q: "i = 8 * q' + r'" "r' < 8" "i div 8 = q'" "i mod 8 = r'"
        by (rule bytes_and_rest)
      have cmp: "r \<le> r' \<longleftrightarrow> 8 * base + pos \<le> i" "r' < r + n \<longleftrightarrow> i < 8 * base + pos + n"
        "r' - r = i - (8 * base + pos)"
        using True P Q by (auto simp: k_def)
      have "r + n \<le> 8" using n(3) P by simp
      define m where "m = (if msb then 7 - r' else r')"
      have "bit (hole_of msb r n) m \<longleftrightarrow> r \<le> r' \<and> r' < r + n"
        "bit (chunk_of msb v width left r n) m \<longleftrightarrow>
          r \<le> r' \<and> r' < r + n \<and> field_bit msb width v (width - left + (r' - r))"
        unfolding m_def using Q(2) n(2) less.prems(1) assms(2) \<open>r + n \<le> 8\<close>
        by (intro bit_hole_of bit_chunk_of; simp)+
      moreover have "m < 8" using Q(2) by (auto simp: m_def)
      moreover have "stream_bit msb bytes i = bit (bytes ! k) m" "stream_bit msb bytes' i = bit (bytes' ! k) m"
        using True Q(4) by (simp_all add: stream_bit_def m_def)
      ultimately show ?thesis
        unfolding cmp(1,2) [symmetric] cmp(3) [symmetric] using k P(4)
        by (auto simp: bytes'_def bit_or_iff bit_and_iff bit_not_iff)
    next
      case False
      have "\<not> (8 * base + pos \<le> i \<and> i < 8 * base + pos + n)"
      proof
        assume *: "8 * base + pos \<le> i \<and> i < 8 * base + pos + n"
        then have "i div 8 = k" using P n(3) by (intro div_8_eqI) (auto simp: k_def)
        with False show False ..
      qed
      moreover have "stream_bit msb bytes' i = stream_bit msb bytes i"
        using False by (simp add: stream_bit_def bytes'_def)
      ultimately show ?thesis by auto
    qed
    have smaller: "left - n < left" "left - n \<le> width" "8 * base + (pos + n) + (left - n) \<le> 8 * length bytes'"
      using n less.prems by (auto simp: bytes'_def)
    note IH = less.IH [OF smaller]
    have len: "length bytes' = length bytes" by (simp add: bytes'_def)
    have "stream_bit msb (patch_loop msb base v width (left - n) (pos + n) bytes') i \<longleftrightarrow>
         (if 8 * base + pos \<le> i \<and> i < 8 * base + pos + left
          then field_bit msb width v (width - left + (i - (8 * base + pos))) else stream_bit msb bytes i)"
      if i: "i < 8 * length bytes" for i
    proof (cases "8 * base + (pos + n) \<le> i")
      case True
      then have e: "width - (left - n) + (i - (8 * base + (pos + n))) = width - left + (i - (8 * base + pos))"
        using n less.prems(1) by simp
      have "stream_bit msb (patch_loop msb base v width (left - n) (pos + n) bytes') i \<longleftrightarrow>
          (if i < 8 * base + (pos + n) + (left - n)
           then field_bit msb width v (width - (left - n) + (i - (8 * base + (pos + n)))) else stream_bit msb bytes' i)"
        using IH i len True by auto
      then show ?thesis unfolding e using True n i by (simp add: bits')
    next
      case False
      with IH i len n show ?thesis by (auto simp: bits')
    qed
    with IH len step show ?thesis by simp
  qed
qed

section \<open>Whole fields\<close>

lemma stream_drop: "stream msb (drop k bytes) = drop (8 * k) (stream msb bytes)"
proof (rule nth_equalityI)
  fix i assume "i < length (stream msb (drop k bytes))"
  then have i: "i < 8 * length (drop k bytes)" by simp
  then have "i div 8 < length (drop k bytes)" by auto
  moreover have "(8 * k + i) div 8 = k + i div 8" "(8 * k + i) mod 8 = i mod 8" by simp_all
  ultimately have "stream_bit msb (drop k bytes) i = stream_bit msb bytes (8 * k + i)"
    by (simp add: stream_bit_def)
  with i show "stream msb (drop k bytes) ! i = drop (8 * k) (stream msb bytes) ! i"
    by simp
qed simp

lemma field_bits_take_bit: "n \<le> 64 \<Longrightarrow> field_bits msb n (take_bit n v) = field_bits msb n v"
  by (rule nth_equalityI) (auto simp: field_bit_def bit_take_bit_iff)

text \<open>A run of fields written one after another, and read one after another.\<close>

fun write_fields ::
    "'b buffer_ops \<Rightarrow> bool \<Rightarrow> 'b bit_writer \<Rightarrow> (u64 \<times> nat) list \<Rightarrow> (overflow + unit) \<times> 'b bit_writer" where
  "write_fields B msb w [] = (Inr (), w)"
| "write_fields B msb w ((v, n) # fs) =
     (case write_bits B msb w v n of
        (Inl e, w') \<Rightarrow> (Inl e, w')
      | (Inr _, w') \<Rightarrow> write_fields B msb w' fs)"

fun read_fields :: "bool \<Rightarrow> bit_reader \<Rightarrow> nat list \<Rightarrow> parse_error + u64 list" where
  "read_fields msb r [] = Inr []"
| "read_fields msb r (n # ns) =
     (case read msb r n of
        (Inl e, r') \<Rightarrow> Inl e
      | (Inr v, r') \<Rightarrow> map_res (\<lambda>vs. v # vs) (read_fields msb r' ns))"

definition fields_width :: "(u64 \<times> nat) list \<Rightarrow> nat" where
  "fields_width fs = sum_list (map snd fs)"

definition fields_stream :: "bool \<Rightarrow> (u64 \<times> nat) list \<Rightarrow> bool list" where
  "fields_stream msb fs = concat (map (\<lambda>(v, n). field_bits msb n v) fs)"

lemma fields_width_simps [simp]:
  "fields_width [] = 0" "fields_width ((v, n) # fs) = n + fields_width fs"
  by (simp_all add: fields_width_def)

lemma fields_stream_simps [simp]:
  "fields_stream msb [] = []" "fields_stream msb ((v, n) # fs) = field_bits msb n v @ fields_stream msb fs"
  by (simp_all add: fields_stream_def)

lemma length_fields_stream [simp]: "length (fields_stream msb fs) = fields_width fs"
  by (induction fs) (auto simp: fields_width_def)

lemma read_fields_stream:
  assumes "in_memory bytes" "list_all (\<lambda>(v, n). n \<le> 64) fs"
    and "P + fields_width fs \<le> 8 * length bytes"
    and "take (fields_width fs) (drop P (stream msb bytes)) = fields_stream msb fs"
  shows "read_fields msb \<lparr>rd_bytes = bytes, rd_at = P\<rparr> (map snd fs) = Inr (map (\<lambda>(v, n). take_bit n v) fs)"
  using assms(2-4)
proof (induction fs arbitrary: P)
  case Nil
  then show ?case by simp
next
  case (Cons f fs)
  obtain v n where f: "f = (v, n)" by (cases f)
  have n: "n \<le> 64" using Cons.prems(1) f by auto
  have split: "take n (drop P (stream msb bytes)) = field_bits msb n v"
    "take (fields_width fs) (drop (P + n) (stream msb bytes)) = fields_stream msb fs"
    using arg_cong [OF Cons.prems(3), of "take n"] arg_cong [OF Cons.prems(3), of "drop n"]
    by (simp_all add: f take_drop ac_simps)
  have "read msb \<lparr>rd_bytes = bytes, rd_at = P\<rparr> n
      = (Inr (take_bit n v), \<lparr>rd_bytes = bytes, rd_at = P + n\<rparr>)"
    using read_unique [of "\<lparr>rd_bytes = bytes, rd_at = P\<rparr>" n "take_bit n v" msb] assms(1) n
      Cons.prems(2) split(1)
    by (simp add: f field_bits_take_bit)
  moreover have "read_fields msb \<lparr>rd_bytes = bytes, rd_at = P + n\<rparr> (map snd fs)
      = Inr (map (\<lambda>(v, n). take_bit n v) fs)"
    by (rule Cons.IH) (use Cons.prems(1,2) f split(2) in auto)
  ultimately show ?case by (simp add: f)
qed

context buffer
begin

lemma writer_new_at:
  assumes "ok b"
  shows "writer_at B ok msb (writer_new B b) (8 * length (written B b))"
  using assms by (auto simp: writer_at_def writer_new_def buf_len)

lemma writer_position_at:
  assumes "writer_at B ok msb w P"
  shows "writer_position B w = P - 8 * base_len w"
proof -
  obtain q r where P: "P = 8 * q + r" "r < 8" "P div 8 = q" "P mod 8 = r"
    by (rule bytes_and_rest)
  then show ?thesis
    using assms by (auto simp: writer_position_def writer_at_def buf_len div_ceil_8 diff_mult_distrib)
qed

lemma write_fields_fit:
  assumes "writer_at B ok msb w P" "list_all (\<lambda>(v, n). n \<le> 64) fs"
    and "enat (div_ceil (P + fields_width fs) 8) \<le> capacity (out_buf w)"
  shows "\<exists>w'. write_fields B msb w fs = (Inr (), w')
    \<and> writer_at B ok msb w' (P + fields_width fs) \<and> base_len w' = base_len w
    \<and> capacity (out_buf w') = capacity (out_buf w)
    \<and> take (P + fields_width fs) (stream msb (written B (out_buf w')))
        = take P (stream msb (written B (out_buf w))) @ fields_stream msb fs"
  using assms
proof (induction fs arbitrary: w P)
  case Nil
  then show ?case by simp
next
  case (Cons f fs)
  obtain v n where f: "f = (v, n)" by (cases f)
  have "div_ceil (P + n) 8 \<le> div_ceil (P + fields_width (f # fs)) 8"
    by (auto simp: f div_ceil_def intro!: div_le_mono)
  then have "enat (div_ceil (P + n) 8) \<le> capacity (out_buf w)"
    using Cons.prems(3) order_trans enat_ord_simps(1) by blast
  moreover have "n \<le> 64" using Cons.prems(2) f by auto
  ultimately obtain w1 where w1: "write_bits B msb w v n = (Inr (), w1)" "writer_at B ok msb w1 (P + n)"
    "base_len w1 = base_len w" "capacity (out_buf w1) = capacity (out_buf w)"
    "take (P + n) (stream msb (written B (out_buf w1)))
        = take P (stream msb (written B (out_buf w))) @ field_bits msb n v"
    using write_fits [OF Cons.prems(1)] by blast
  from Cons.IH [OF w1(2)] Cons.prems(2,3) w1(4) obtain w2 where
    "write_fields B msb w1 fs = (Inr (), w2)" "writer_at B ok msb w2 (P + n + fields_width fs)"
    "base_len w2 = base_len w1" "capacity (out_buf w2) = capacity (out_buf w1)"
    "take (P + n + fields_width fs) (stream msb (written B (out_buf w2)))
        = take (P + n) (stream msb (written B (out_buf w1))) @ fields_stream msb fs"
    by (auto simp: f add.assoc)
  with w1 show ?case by (auto simp: f add.assoc)
qed

text \<open>
  Write fields with a fresh cursor, read them back with a cursor over the bytes it wrote: every
  field is its value cut to its width.
\<close>

lemma fields_round_trip:
  assumes "ok b" "list_all (\<lambda>(v, n). n \<le> 64) fs"
    and "enat (length (written B b) + div_ceil (fields_width fs) 8) \<le> capacity b"
    and "length (written B b) + div_ceil (fields_width fs) 8 < 2 ^ 61"
  shows "\<exists>w. write_fields B msb (writer_new B b) fs = (Inr (), w)
    \<and> take (length (written B b)) (written B (out_buf w)) = written B b
    \<and> length (written B (out_buf w)) = length (written B b) + div_ceil (fields_width fs) 8
    \<and> writer_position B w = fields_width fs
    \<and> read_fields msb (reader_new (drop (length (written B b)) (written B (out_buf w)))) (map snd fs)
        = Inr (map (\<lambda>(v, n). take_bit n v) fs)"
proof -
  let ?L = "length (written B b)" and ?n = "fields_width fs"
  have ceil: "div_ceil (8 * ?L + ?n) 8 = ?L + div_ceil ?n 8"
    unfolding div_ceil_def by simp
  from write_fields_fit [OF writer_new_at [OF assms(1)] assms(2), of msb] assms(3)
  obtain w where w: "write_fields B msb (writer_new B b) fs = (Inr (), w)"
    "writer_at B ok msb w (8 * ?L + ?n)" "base_len w = ?L"
    "take (8 * ?L + ?n) (stream msb (written B (out_buf w))) = stream msb (written B b) @ fields_stream msb fs"
    using assms(1) by (auto simp: ceil writer_new_def buf_len)
  let ?new = "written B (out_buf w)"
  have len: "length ?new = ?L + div_ceil ?n 8" using w(2) by (simp add: writer_at_def ceil)
  have n: "?n \<le> 8 * div_ceil ?n 8" using div_ceil_8_le_iff [of ?n "div_ceil ?n 8"] by simp
  have "take ?n (drop (8 * ?L) (stream msb ?new)) = fields_stream msb fs"
    using arg_cong [OF w(4), of "drop (8 * ?L)"] by (simp add: take_drop add.commute)
  moreover have "in_memory (drop ?L ?new)"
    using assms(4) len by (simp add: in_memory_def u64_max_def)
  ultimately have "read_fields msb (reader_new (drop ?L ?new)) (map snd fs) = Inr (map (\<lambda>(v, n). take_bit n v) fs)"
    unfolding reader_new_def using assms(2) len n
    by (intro read_fields_stream) (auto simp: stream_drop)
  moreover have "take ?L ?new = written B b"
  proof (rule stream_inj)
    have "length (take ?L ?new) = ?L" using len by simp
    have "stream msb (take ?L ?new) = take (8 * ?L) (stream msb ?new)"
      by (rule nth_equalityI) (use len stream_bit_append [of _ "take ?L ?new" msb "drop ?L ?new"] in auto)
    also have "\<dots> = stream msb (written B b)"
      using arg_cong [OF w(4), of "take (8 * ?L)"] by (simp add: min_def)
    finally show "stream msb (take ?L ?new) = stream msb (written B b)" .
  qed
  moreover have "writer_position B w = ?n"
    using writer_position_at [OF w(2)] w(3) by simp
  ultimately show ?thesis using w(1) len by blast
qed

text \<open>A patch replaces the bits it names and keeps every other one.\<close>

lemma patch_spec:
  assumes "writer_at B ok msb w P" "bits \<le> 64" "8 * base_len w + at_bit + bits \<le> P"
  shows "writer_at B ok msb (patch B msb w at_bit bits v) P
    \<and> base_len (patch B msb w at_bit bits v) = base_len w
    \<and> capacity (out_buf (patch B msb w at_bit bits v)) = capacity (out_buf w)
    \<and> stream msb (written B (out_buf (patch B msb w at_bit bits v)))
      = (let s = stream msb (written B (out_buf w)); k = 8 * base_len w + at_bit
         in take k s @ field_bits msb bits v @ drop (k + bits) s)"
proof -
  let ?old = "written B (out_buf w)"
  define new where "new = patch_loop msb (base_len w) v bits bits at_bit ?old"
  have P: "P \<le> 8 * length ?old" and okw: "ok (out_buf w)"
    using assms(1) by (simp_all add: writer_at_def flip: div_ceil_8_le_iff)
  have fits: "8 * base_len w + at_bit + bits \<le> 8 * length ?old" using P assms(3) by simp
  have new: "length new = length ?old" "i < 8 * length ?old \<Longrightarrow> stream_bit msb new i \<longleftrightarrow>
      (if 8 * base_len w + at_bit \<le> i \<and> i < 8 * base_len w + at_bit + bits
       then field_bit msb bits v (i - (8 * base_len w + at_bit)) else stream_bit msb ?old i)" for i
    using patch_loop_spec [OF order_refl assms(2) fits, of msb v] by (simp_all add: new_def)
  have out: "ok (set_written B (out_buf w) new)" "written B (set_written B (out_buf w) new) = new"
    "capacity (set_written B (out_buf w) new) = capacity (out_buf w)"
    using set_written [OF okw new(1)] by simp_all
  have "writer_at B ok msb (patch B msb w at_bit bits v) P"
    using assms(1,3) out new by (auto simp: writer_at_def patch_def simp flip: new_def)
  moreover have "stream msb new
      = (let s = stream msb ?old; k = 8 * base_len w + at_bit
         in take k s @ field_bits msb bits v @ drop (k + bits) s)"
    unfolding Let_def by (rule nth_equalityI) (use new fits in \<open>auto simp: nth_append\<close>)
  ultimately show ?thesis
    using out by (simp add: patch_def flip: new_def)
qed

end

section \<open>Properties\<close>

text \<open>C8: fields written one after another through a fresh cursor over a fixed buffer with room
  for them read back, each cut to its width; what the buffer held before is untouched and the
  position counts exactly the bits written.\<close>

theorem fields_written_read_back:
  assumes "fixed_ok b" "list_all (\<lambda>(v, n). n \<le> 64) fs"
    and "fixed_at b + div_ceil (fields_width fs) 8 \<le> length (room b)" "length (room b) < 2 ^ 61"
  shows "\<exists>w. write_fields fixed_ops msb (writer_new fixed_ops b) fs = (Inr (), w)
    \<and> take (fixed_at b) (into_written (out_buf w)) = into_written b
    \<and> writer_position fixed_ops w = fields_width fs
    \<and> read_fields msb (reader_new (drop (fixed_at b) (into_written (out_buf w)))) (map snd fs)
        = Inr (map (\<lambda>(v, n). take_bit n v) fs)"
proof -
  have w: "written fixed_ops = into_written" by (rule ext) (simp add: fixed_ops_def into_written_def)
  have len: "length (into_written b) = fixed_at b" using assms(1) by (simp add: into_written_def fixed_ok_def)
  show ?thesis
    using fixed.fields_round_trip [OF assms(1,2), of msb] assms(3,4) unfolding w len by auto
qed

theorem fields_written_read_back_witness:
  "\<exists>w. write_fields fixed_ops True (writer_new fixed_ops (fixed_new [0, 0])) [(5, 3), (0x7F, 6)] = (Inr (), w)
    \<and> read_fields True (reader_new (into_written (out_buf w))) [3, 6] = Inr [5, 0x3F]"
  using fields_written_read_back [of "fixed_new [0, 0]" "[(5, 3), (0x7F, 6)]" True]
  by (auto simp: fixed_ok_def fixed_new_def usize_max_def fields_width_def div_ceil_def take_bit_eq_mod)

text \<open>C11: a bit write the fixed buffer has no room for reports the overflow and leaves the cursor
  and every byte written before as they were, in either bit order and at any bit position.\<close>

theorem refused_write_changes_nothing:
  assumes "writer_at fixed_ops fixed_ok msb w P" "bits \<le> 64"
    and "length (room (out_buf w)) < div_ceil (P + bits) 8"
  shows "\<exists>w'. write_bits fixed_ops msb w v bits = (Inl Overflow, w')
    \<and> into_written (out_buf w') = into_written (out_buf w) \<and> used_bits w' = used_bits w
    \<and> length (room (out_buf w')) = length (room (out_buf w))
    \<and> writer_position fixed_ops w' = writer_position fixed_ops w"
proof -
  have w: "written fixed_ops = into_written" by (rule ext) (simp add: fixed_ops_def into_written_def)
  from fixed.write_refused [OF assms(1,2), of v] assms(3) obtain w' where w':
    "write_bits fixed_ops msb w v bits = (Inl Overflow, w')" "into_written (out_buf w') = into_written (out_buf w)"
    "used_bits w' = used_bits w" "base_len w' = base_len w" "length (room (out_buf w')) = length (room (out_buf w))"
    "writer_at fixed_ops fixed_ok msb w' P"
    unfolding w by auto
  then have "writer_position fixed_ops w' = writer_position fixed_ops w"
    using fixed.writer_position_at assms(1) by metis
  with w' show ?thesis by blast
qed

theorem refused_write_changes_nothing_witness:
  "\<exists>w'. write_bits fixed_ops True \<lparr>out_buf = \<lparr>room = [0xA0], fixed_at = 1\<rparr>, base_len = 0, used_bits = 3\<rparr> 0x3F 6
      = (Inl Overflow, w') \<and> into_written (out_buf w') = [0xA0]"
proof -
  have "writer_at fixed_ops fixed_ok True \<lparr>out_buf = \<lparr>room = [0xA0], fixed_at = 1\<rparr>, base_len = 0, used_bits = 3\<rparr> 3"
  proof -
    have "\<not> stream_bit True [0xA0] i" if "3 \<le> i" "i < 8" for i
    proof -
      from that consider "i = 3" | "i = 4" | "i = 5" | "i = 6" | "i = 7" by linarith
      then show ?thesis by cases (simp_all add: stream_bit_def)
    qed
    then show ?thesis
      by (auto simp: writer_at_def fixed_ok_def usize_max_def fixed_ops_def div_ceil_def)
  qed
  from refused_write_changes_nothing [OF this, of 6 "0x3F"] show ?thesis
    by (auto simp: div_ceil_def into_written_def)
qed

text \<open>Patching a field already written replaces exactly the bits it names, in a vector.\<close>

lemma patch_replaces_bits:
  assumes "writer_at vec_ops (\<lambda>_. True) msb w P" "bits \<le> 64" "8 * base_len w + at_bit + bits \<le> P"
  shows "stream msb (out_buf (patch vec_ops msb w at_bit bits v))
      = take (8 * base_len w + at_bit) (stream msb (out_buf w)) @ field_bits msb bits v
        @ drop (8 * base_len w + at_bit + bits) (stream msb (out_buf w))
    \<and> writer_position vec_ops (patch vec_ops msb w at_bit bits v) = writer_position vec_ops w"
proof -
  have "written vec_ops = (\<lambda>v. v)" by (simp add: vec_ops_def)
  then show ?thesis
    using vec.patch_spec [OF assms, of v] vec.writer_position_at [of msb _ P] assms(1)
    by (simp add: Let_def)
qed

lemma patch_replaces_bits_witness:
  "stream True (out_buf (patch vec_ops True \<lparr>out_buf = [0xFF], base_len = 0, used_bits = 0\<rparr> 2 3 0))
    = [True, True, False, False, False, True, True, True]"
proof -
  have "writer_at vec_ops (\<lambda>_. True) True \<lparr>out_buf = [0xFF], base_len = 0, used_bits = 0\<rparr> 8"
    by (auto simp: writer_at_def vec_ops_def div_ceil_def)
  from patch_replaces_bits [OF this, of 3 2 0] show ?thesis
    by (simp add: stream_byte field_bits_def upt_rec field_bit_def)
qed

end
