(* ===== verification/Varints.thy ===== *)
theory Varints
  imports Errors Buffers WireInts
begin

text \<open>
  LEB128 and zigzag (\<open>layline-core/src/num/varint.rs\<close>), over the trait \<open>VarCodec\<close>
  (\<open>layline-core/src/var.rs\<close>), which is the record \<open>var_codec\<close>. The decode loops are the source's
  loops over the bytes, with the loop variables as arguments; the encode loops push one byte at
  a time, so an encode the buffer refuses leaves the bytes before the refused one behind.

  The reference is positional notation: \<open>leb_value\<close> is the sum of the seven-bit groups, least
  first, \<open>leb_len\<close> the number of bytes up to the first without a continuation bit. The decoders
  are proved equal to a closed form over them, on every input and every error. The signed one
  reads the same digits in two's complement.
\<close>

record ('a, 'b) var_codec =
  vc_decode :: "u8 list \<Rightarrow> parse_error + ('a \<times> usize)"
  vc_encode :: "'b buffer_ops \<Rightarrow> 'a \<Rightarrow> 'b \<Rightarrow> (overflow + unit) \<times> 'b"

section \<open>Unsigned LEB128\<close>

fun uleb_loop :: "usize \<Rightarrow> u8 list \<Rightarrow> usize \<Rightarrow> u64 \<Rightarrow> nat \<Rightarrow> parse_error + (u64 \<times> usize)" where
  "uleb_loop len [] i v shift = Inl (Short (len + 1) len 0)"
| "uleb_loop len (b # bs) i v shift =
     (if 64 \<le> shift then Inl (Malformed ''Uleb128'' 0)
      else
        let payload = (ucast (b AND 0x7F) :: u64)
        in if drop_bit shift (push_bit shift payload) \<noteq> payload then Inl (Malformed ''Uleb128'' 0)
           else
             let v' = v OR push_bit shift payload
             in if b AND 0x80 = 0 then Inr (v', i + 1) else uleb_loop len bs (i + 1) v' (shift + 7))"

definition uleb_decode :: "u8 list \<Rightarrow> parse_error + (u64 \<times> usize)" where
  "uleb_decode bytes = uleb_loop (length bytes) bytes 0 0 0"

lemma unat_drop_7: "unat (drop_bit 7 v) = unat v div 128" for v :: u64
  using unat_drop_bit_eq [of 7 v] drop_bit_eq_div [of 7 "unat v"] by simp

lemma drop_7_less: "drop_bit 7 v \<noteq> 0 \<Longrightarrow> unat (drop_bit 7 v) < unat v" for v :: u64
proof -
  assume "drop_bit 7 v \<noteq> 0"
  then have "unat v div 128 \<noteq> 0" by (simp only: unat_eq_zero flip: unat_drop_7) simp
  then have "0 < unat v" by (cases "unat v") auto
  then show ?thesis unfolding unat_drop_7 by simp
qed

function uleb_encode :: "'b buffer_ops \<Rightarrow> u64 \<Rightarrow> 'b \<Rightarrow> (overflow + unit) \<times> 'b" where
  "uleb_encode B rest out =
     (let byte = (ucast (rest AND 0x7F) :: u8);
          rest' = drop_bit 7 rest;
          byte' = (if rest' \<noteq> 0 then byte OR 0x80 else byte)
      in case push B out [byte'] of
           (Inl e, out') \<Rightarrow> (Inl e, out')
         | (Inr _, out') \<Rightarrow> if rest' = 0 then (Inr (), out') else uleb_encode B rest' out')"
  by pat_completeness auto
termination
  by (relation "measure (\<lambda>(B, rest, out). unat rest)") (auto intro: drop_7_less)

declare uleb_encode.simps [simp del]

definition uleb128 :: "(u64, 'b) var_codec" where
  "uleb128 = \<lparr>vc_decode = uleb_decode, vc_encode = uleb_encode\<rparr>"

definition wi_uleb128 :: "u64 wire_int" where
  "wi_uleb128 = \<lparr>to_i64 = to_i64 wi_u64, from_i64 = (\<lambda>n. n)\<rparr>"

section \<open>Signed LEB128\<close>

fun sleb_loop :: "usize \<Rightarrow> u8 list \<Rightarrow> usize \<Rightarrow> u64 \<Rightarrow> nat \<Rightarrow> parse_error + (i64 \<times> usize)" where
  "sleb_loop len [] i v shift = Inl (Short (len + 1) len 0)"
| "sleb_loop len (b # bs) i v shift =
     (if 64 \<le> shift then Inl (Malformed ''Sleb128'' 0)
      else
        let payload = (ucast (b AND 0x7F) :: u64);
            fill = (if payload AND 1 = 0 then 0x00 else 0x7F)
        in if shift = 63 \<and> payload \<noteq> fill then Inl (Malformed ''Sleb128'' 0)
           else
             let v' = v OR push_bit shift payload;
                 shift' = shift + 7
             in if b AND 0x80 = 0
                then let signed = (if shift' < 64 \<and> b AND 0x40 \<noteq> 0 then v' OR push_bit shift' (- 1) else v')
                     in Inr (signed, i + 1)
                else sleb_loop len bs (i + 1) v' shift')"

definition sleb_decode :: "u8 list \<Rightarrow> parse_error + (i64 \<times> usize)" where
  "sleb_decode bytes = sleb_loop (length bytes) bytes 0 0 0"

definition sleb_done :: "u8 \<Rightarrow> i64 \<Rightarrow> bool" where
  "sleb_done byte rest \<longleftrightarrow> (let sign_set = byte AND 0x40 \<noteq> 0
     in (rest = 0 \<and> \<not> sign_set) \<or> (rest = - 1 \<and> sign_set))"

text \<open>The magnitude the encoder works off, which ends at the values 0 and \<open>- 1\<close>.\<close>

definition sleb_size :: "i64 \<Rightarrow> nat" where
  "sleb_size v = nat (if sint v < 0 then - sint v - 1 else sint v)"

lemma sint_signed_drop: "sint (signed_drop_bit 7 v) = sint v div 128" for v :: i64
  by (simp add: sint_signed_drop_bit_eq drop_bit_eq_div)

lemma sleb_size_less:
  assumes "\<not> sleb_done (ucast (v AND 0x7F)) (signed_drop_bit 7 v)"
  shows "sleb_size (signed_drop_bit 7 v) < sleb_size v"
proof -
  have "v \<noteq> 0" "v \<noteq> - 1" using assms by (auto simp: sleb_done_def)
  then have "sint v \<noteq> 0" "sint v \<noteq> - 1"
    by (metis signed_0 signed_word_eqI, metis sint_n1 signed_word_eqI)
  then show ?thesis unfolding sleb_size_def sint_signed_drop by (auto split: if_splits)
qed

function sleb_encode :: "'b buffer_ops \<Rightarrow> i64 \<Rightarrow> 'b \<Rightarrow> (overflow + unit) \<times> 'b" where
  "sleb_encode B rest out =
     (let byte = (ucast (rest AND 0x7F) :: u8);
          rest' = signed_drop_bit 7 rest;
          is_done = sleb_done byte rest';
          byte' = (if \<not> is_done then byte OR 0x80 else byte)
      in case push B out [byte'] of
           (Inl e, out') \<Rightarrow> (Inl e, out')
         | (Inr _, out') \<Rightarrow> if is_done then (Inr (), out') else sleb_encode B rest' out')"
  by pat_completeness auto
termination
  by (relation "measure (\<lambda>(B, rest, out). sleb_size rest)") (auto intro: sleb_size_less)

declare sleb_encode.simps [simp del]

definition sleb128 :: "(i64, 'b) var_codec" where
  "sleb128 = \<lparr>vc_decode = sleb_decode, vc_encode = sleb_encode\<rparr>"

definition wi_sleb128 :: "i64 wire_int" where
  "wi_sleb128 = \<lparr>to_i64 = (\<lambda>v. v), from_i64 = (\<lambda>n. n)\<rparr>"

section \<open>Zigzag\<close>

definition zigzag :: "i64 \<Rightarrow> u64" where
  "zigzag v = push_bit 1 v XOR signed_drop_bit 63 v"

definition unzigzag :: "u64 \<Rightarrow> i64" where
  "unzigzag raw = drop_bit 1 raw XOR (- (raw AND 1))"

section \<open>Positional notation\<close>

fun leb_value :: "u8 list \<Rightarrow> nat" where
  "leb_value [] = 0"
| "leb_value (b # bs) = unat (b AND 0x7F) + 128 * leb_value bs"

fun leb_len :: "u8 list \<Rightarrow> nat" where
  "leb_len [] = 0"
| "leb_len (b # bs) = (if b AND 0x80 = 0 then 1 else Suc (leb_len bs))"

fun leb_ends :: "u8 list \<Rightarrow> bool" where
  "leb_ends [] = False"
| "leb_ends (b # bs) \<longleftrightarrow> b AND 0x80 = 0 \<or> leb_ends bs"

lemma payload_take_bit: "b AND 0x7F = take_bit 7 b" for b :: "'a::len word"
  by (simp add: take_bit_eq_mask mask_eq_exp_minus_1)

lemma unat_payload: "unat (b AND 0x7F) = unat b mod 128" for b :: "'a::len word"
  unfolding payload_take_bit using unsigned_take_bit_eq [of 7 b, where 'a = nat]
  by (simp add: take_bit_eq_mod)

lemma leb_len_le: "leb_len bs \<le> length bs"
  by (induction bs) auto

lemma leb_value_less: "leb_value bs < 128 ^ length bs"
proof (induction bs)
  case (Cons b bs)
  moreover have "unat (b AND 0x7F) < 128" by (simp add: unat_payload)
  ultimately show ?case by simp
qed simp

lemma leb_len_append: "leb_ends bs \<Longrightarrow> leb_len (bs @ cs) = leb_len bs"
  "leb_ends bs \<Longrightarrow> leb_ends (bs @ cs)"
  by (induction bs) auto

text \<open>The overflow test of the decoders: a payload survives the shift iff its place value fits.\<close>

lemma payload_fits:
  assumes "shift < 64"
  shows "drop_bit shift (push_bit shift (p :: u64)) = p \<longleftrightarrow> unat p * 2 ^ shift < 2 ^ 64"
proof -
  have "drop_bit shift (push_bit shift p) = take_bit (64 - shift) p"
    by (rule bit_word_eqI) (use assms in \<open>auto simp: bit_simps\<close>)
  then have "drop_bit shift (push_bit shift p) = p \<longleftrightarrow> u_valid (64 - shift) p"
    by (auto simp: u_valid_def)
  also have "\<dots> \<longleftrightarrow> unat p < 2 ^ (64 - shift)"
    using u_valid_range [of "64 - shift" p]
    by (metis diff_le_self of_nat_less_iff of_nat_numeral of_nat_power uint_nat)
  also have "\<dots> \<longleftrightarrow> unat p * 2 ^ shift < 2 ^ (64 - shift) * 2 ^ shift"
    by simp
  also have "(2::nat) ^ (64 - shift) * 2 ^ shift = 2 ^ 64"
    using assms by (simp flip: power_add)
  finally show ?thesis .
qed

lemma or_shifted:
  fixes v p :: u64
  assumes "unat v < 2 ^ shift" "unat p * 2 ^ shift < 2 ^ 64"
  shows "unat (v OR push_bit shift p) = unat v + 2 ^ shift * unat p"
proof -
  have "\<not> bit v k" if "shift \<le> k" for k
    using assms(1) that by (metis bit_take_bit_iff not_less take_bit_nat_eq_self_iff unsigned_take_bit_eq word_unat_eq_iff)
  then have "v AND push_bit shift p = 0"
    by (intro bit_word_eqI) (auto simp: bit_simps)
  then have "v OR push_bit shift p = v + push_bit shift p"
    by (simp add: disjunctive_add_eq_or)
  also have "\<dots> = of_nat (unat v + 2 ^ shift * unat p)"
    by (simp add: push_bit_eq_mult ac_simps)
  finally have e: "v OR push_bit shift p = of_nat (unat v + 2 ^ shift * unat p)" .
  have "unat v + 2 ^ shift * unat p < 2 ^ 64"
  proof (cases "shift < 64")
    case True
    have split: "(2::nat) ^ 64 = 2 ^ shift * 2 ^ (64 - shift)"
      using True by (simp flip: power_add)
    then have "Suc (unat p) \<le> 2 ^ (64 - shift)"
      using assms(2) unfolding split mult.commute [of "2 ^ shift"]
      by (simp only: mult_less_cancel2 Suc_le_eq)
    then have "2 ^ shift * Suc (unat p) \<le> 2 ^ 64"
      unfolding split by (rule mult_le_mono2)
    with assms(1) show ?thesis by simp
  next
    case False
    then have "(2::nat) ^ 64 \<le> 2 ^ shift" by (intro power_increasing) auto
    then have "unat p = 0"
      using assms(2) by (metis leD le_trans mult_le_mono1 mult_1 not_less_eq_eq One_nat_def le_zero_eq not_less)
    then show ?thesis using unsigned_less [of v, where 'a = nat] by simp
  qed
  then show ?thesis unfolding e by (simp only: unat_of_nat len_num0 len_num1 len_bit0 len_bit1) simp
qed

section \<open>What the unsigned decoder computes\<close>

lemma uleb_loop_spec:
  assumes "unat v < 2 ^ shift"
  shows "uleb_loop len bs i v shift =
     (let n = leb_len bs; total = unat v + 2 ^ shift * leb_value (take n bs)
      in if (n \<noteq> 0 \<longrightarrow> shift + 7 * (n - 1) < 64) \<and> total < 2 ^ 64
         then if leb_ends bs then Inr (of_nat total, i + n) else Inl (Short (len + 1) len 0)
         else Inl (Malformed ''Uleb128'' 0))"
  using assms
proof (induction bs arbitrary: i v shift)
  case Nil
  then show ?case using unsigned_less [of v, where 'a = nat] by simp
next
  case (Cons b bs)
  define p where "p = (ucast (b AND 0x7F) :: u64)"
  define d where "d = unat (b AND 0x7F)"
  have p: "unat p = d" "d < 128"
    by (simp_all add: p_def d_def unat_payload unsigned_ucast_eq take_bit_nat_eq_self_iff)
  show ?case
  proof (cases "64 \<le> shift \<or> \<not> d * 2 ^ shift < 2 ^ 64")
    case True
    have refused: "uleb_loop len (b # bs) i v shift = Inl (Malformed ''Uleb128'' 0)"
      using True by (auto simp: payload_fits p Let_def simp flip: p_def)
    obtain x where x: "leb_len (b # bs) = Suc x"
      by (cases "b AND 0x80 = 0") auto
    have "2 ^ shift * d \<le> unat v + 2 ^ shift * leb_value (take (Suc x) (b # bs))"
      by (simp add: d_def algebra_simps)
    then show ?thesis
      unfolding refused Let_def x using True by (auto simp: mult.commute [of d])
  next
    case False
    define v' where "v' = v OR push_bit shift p"
    have v': "unat v' = unat v + 2 ^ shift * d"
      unfolding v'_def using or_shifted [of v shift p] Cons.prems False p by simp
    have "2 ^ shift * Suc d \<le> 2 ^ shift * (128 :: nat)"
      using p(2) by (intro mult_le_mono2) simp
    then have "unat v + 2 ^ shift * d < 2 ^ shift * 128"
      using Cons.prems unfolding mult_Suc_right by linarith
    then have "unat v' < 2 ^ (shift + 7)"
      by (simp add: v' power_add)
    note IH = Cons.IH [OF this, of "i + 1", unfolded Let_def]
    have step: "uleb_loop len (b # bs) i v shift
        = (if b AND 0x80 = 0 then Inr (v', i + 1) else uleb_loop len bs (i + 1) v' (shift + 7))"
      using False by (simp add: payload_fits p Let_def flip: p_def v'_def)
    show ?thesis
    proof (cases "b AND 0x80 = 0")
      case True
      then show ?thesis
        unfolding step using False unsigned_less [of v', where 'a = nat]
        by (simp flip: d_def v')
    next
      case more: False
      have total: "unat v + 2 ^ shift * leb_value (take (leb_len (b # bs)) (b # bs))
          = unat v' + 2 ^ (shift + 7) * leb_value (take (leb_len bs) bs)"
        using more by (simp add: v' power_add algebra_simps flip: d_def)
      have cond: "(leb_len (b # bs) \<noteq> 0 \<longrightarrow> shift + 7 * (leb_len (b # bs) - 1) < 64)
          \<longleftrightarrow> (leb_len bs \<noteq> 0 \<longrightarrow> shift + 7 + 7 * (leb_len bs - 1) < 64)"
        using more False by (cases "leb_len bs") auto
      have "leb_ends (b # bs) = leb_ends bs" "i + leb_len (b # bs) = i + 1 + leb_len bs"
        using more by simp_all
      then show ?thesis
        unfolding step Let_def total cond using more by (simp only: IH if_False)
    qed
  qed
qed

lemma uleb_decode_eq:
  "uleb_decode bytes =
     (let n = leb_len bytes
      in if n \<le> 10 \<and> leb_value (take n bytes) < 2 ^ 64
         then if leb_ends bytes then Inr (of_nat (leb_value (take n bytes)), n)
              else Inl (Short (length bytes + 1) (length bytes) 0)
         else Inl (Malformed ''Uleb128'' 0))"
proof -
  have "(leb_len bytes \<noteq> 0 \<longrightarrow> 7 * (leb_len bytes - 1) < 64) \<longleftrightarrow> leb_len bytes \<le> 10" by auto
  then show ?thesis
    using uleb_loop_spec [of 0 0 "length bytes" bytes 0] by (simp add: uleb_decode_def Let_def)
qed

section \<open>What the unsigned encoder writes\<close>

function uleb_bytes :: "u64 \<Rightarrow> u8 list" where
  "uleb_bytes v =
     (if drop_bit 7 v = 0 then [ucast (v AND 0x7F)]
      else (ucast (v AND 0x7F) OR 0x80) # uleb_bytes (drop_bit 7 v))"
  by pat_completeness auto
termination
  by (relation "measure unat") (auto intro: drop_7_less)

declare uleb_bytes.simps [simp del]

text \<open>A single byte pushed at a time, which is how both encoders append.\<close>

fun push_each :: "'b buffer_ops \<Rightarrow> u8 list \<Rightarrow> 'b \<Rightarrow> (overflow + unit) \<times> 'b" where
  "push_each B [] out = (Inr (), out)"
| "push_each B (b # bs) out =
     (case push B out [b] of (Inl e, out') \<Rightarrow> (Inl e, out') | (Inr _, out') \<Rightarrow> push_each B bs out')"

lemma uleb_encode_pushes: "uleb_encode B v out = push_each B (uleb_bytes v) out"
proof (induction B v out rule: uleb_encode.induct)
  case (1 B v out)
  show ?case
    unfolding uleb_encode.simps [of B v out] uleb_bytes.simps [of v] using 1
    by (auto simp: Let_def split: prod.splits sum.splits)
qed

lemma continuation_bit: "b AND 0x80 = 0 \<longleftrightarrow> \<not> bit b 7" for b :: u8
  using bit_iff_and_push_bit_not_eq_0 [of b 7] by simp

lemma sign_bit: "b AND 0x40 = 0 \<longleftrightarrow> \<not> bit b 6" for b :: u8
  using bit_iff_and_push_bit_not_eq_0 [of b 6] by simp

lemma group_byte:
  fixes v :: u64
  shows "(ucast (v AND 0x7F) :: u8) AND 0x80 = 0"
    and "((ucast (v AND 0x7F) :: u8) OR 0x80) AND 0x80 \<noteq> 0"
    and "unat ((ucast (v AND 0x7F) :: u8) AND 0x7F) = unat v mod 128"
    and "unat (((ucast (v AND 0x7F) :: u8) OR 0x80) AND 0x7F) = unat v mod 128"
proof -
  have high: "bit (0x80 :: u8) k \<longleftrightarrow> k = 7" for k
    using bit_push_bit_iff [of 7 "1 :: u8" k] by (auto simp: bit_1_iff)
  have e: "(ucast (v AND 0x7F) :: u8) AND 0x7F = ucast (v AND 0x7F)"
    "((ucast (v AND 0x7F) :: u8) OR 0x80) AND 0x7F = ucast (v AND 0x7F)"
    unfolding payload_take_bit by (rule bit_word_eqI; auto simp: bit_simps high)+
  show "unat ((ucast (v AND 0x7F) :: u8) AND 0x7F) = unat v mod 128"
    "unat (((ucast (v AND 0x7F) :: u8) OR 0x80) AND 0x7F) = unat v mod 128"
    unfolding e by (simp_all add: unsigned_ucast_eq unat_payload take_bit_nat_eq_self_iff)
  show "(ucast (v AND 0x7F) :: u8) AND 0x80 = 0"
    unfolding continuation_bit payload_take_bit by (simp add: bit_simps)
  show "((ucast (v AND 0x7F) :: u8) OR 0x80) AND 0x80 \<noteq> 0"
    unfolding continuation_bit by (simp add: bit_simps high)
qed

lemma uleb_bytes_leb:
  "leb_value (uleb_bytes v) = unat v" "leb_ends (uleb_bytes v)" "leb_len (uleb_bytes v) = length (uleb_bytes v)"
proof (induction v rule: uleb_bytes.induct)
  case (1 v)
  case 1
  show ?case
    using "1.IH"(1) unat_drop_7 [of v] 
    by (auto simp: uleb_bytes.simps [of v] group_byte unat_eq_zero)
next
  case (1 v)
  case 2
  show ?case using "1.IH"(2) by (auto simp: uleb_bytes.simps [of v] group_byte)
next
  case (1 v)
  case 3
  show ?case using "1.IH"(3) by (auto simp: uleb_bytes.simps [of v] group_byte)
qed

lemma uleb_bytes_least: "unat v < 128 ^ Suc n \<Longrightarrow> length (uleb_bytes v) \<le> Suc n"
proof (induction n arbitrary: v)
  case 0
  then have "drop_bit 7 v = 0" using unat_drop_7 [of v] by (simp add: unat_eq_zero)
  then show ?case by (simp add: uleb_bytes.simps [of v])
next
  case (Suc n)
  have "unat (drop_bit 7 v) < 128 ^ Suc n"
    using Suc.prems unfolding unat_drop_7 by (simp add: less_mult_imp_div_less mult.commute)
  then show ?case using Suc.IH [of "drop_bit 7 v"] by (simp add: uleb_bytes.simps [of v])
qed

lemma uleb_bytes_length: "length (uleb_bytes v) \<le> 10" "0 < length (uleb_bytes v)"
proof -
  have "unat v < 128 ^ Suc 9"
    using unsigned_less [of v, where 'a = nat] by simp
  then show "length (uleb_bytes v) \<le> 10" using uleb_bytes_least [of v 9] by simp
  show "0 < length (uleb_bytes v)" by (simp add: uleb_bytes.simps [of v])
qed

lemma uleb_decode_bytes: "uleb_decode (uleb_bytes v @ bs) = Inr (v, length (uleb_bytes v))"
  using uleb_bytes_length [of v] unsigned_less [of v, where 'a = nat]
  by (simp add: uleb_decode_eq uleb_bytes_leb leb_len_append Let_def)

text \<open>No spelling the decoder takes is shorter than the encoder's.\<close>

lemma uleb_decode_shortest:
  assumes "uleb_decode bytes = Inr (v, n)"
  shows "length (uleb_bytes v) \<le> n"
proof -
  have n: "n = leb_len bytes" "leb_value (take n bytes) < 2 ^ 64" "v = of_nat (leb_value (take n bytes))" "leb_ends bytes"
    using assms by (auto simp: uleb_decode_eq Let_def split: if_splits)
  have "unat v = leb_value (take n bytes)"
    using n(2,3) by (simp add: unat_of_nat)
  also have "\<dots> < 128 ^ length (take n bytes)" by (rule leb_value_less)
  also have "length (take n bytes) = n" using leb_len_le [of bytes] n(1) by simp
  finally have "unat v < 128 ^ n" .
  moreover have "n \<noteq> 0" using n(1,4) by (cases bytes) auto
  ultimately show ?thesis using uleb_bytes_least [of v "n - 1"] by simp
qed

context buffer
begin

text \<open>Pushing bytes singly succeeds exactly when all fit, and else fills the room there is.\<close>

lemma push_each_spec:
  assumes "ok out"
  shows "\<exists>r out' k. push_each B bs out = (r, out') \<and> ok out' \<and> capacity out' = capacity out
    \<and> k \<le> length bs \<and> written B out' = written B out @ take k bs
    \<and> (if enat (length (written B out) + length bs) \<le> capacity out then r = Inr () \<and> k = length bs
       else r = Inl Overflow \<and> enat (length (written B out) + k) = capacity out)"
  using assms
proof (induction bs arbitrary: out)
  case Nil
  with written_fits [OF Nil] show ?case by simp
next
  case (Cons b bs)
  from Cons.prems show ?case
  proof (cases rule: push_cases [of out "[b]"])
    case (fits out1)
    from Cons.IH [OF fits(2)] obtain r out' k where IH:
      "push_each B bs out1 = (r, out')" "ok out'" "capacity out' = capacity out1" "k \<le> length bs"
      "written B out' = written B out1 @ take k bs"
      "if enat (length (written B out1) + length bs) \<le> capacity out1 then r = Inr () \<and> k = length bs
       else r = Inl Overflow \<and> enat (length (written B out1) + k) = capacity out1"
      by blast
    show ?thesis
      by (rule exI [of _ r], rule exI [of _ out'], rule exI [of _ "Suc k"])
        (use IH fits in \<open>auto split: if_splits\<close>)
  next
    case refused
    have "enat (length (written B out)) \<le> capacity out" using Cons.prems by (rule written_fits)
    with refused have full: "capacity out = enat (length (written B out))"
      by (cases "capacity out") auto
    show ?thesis
      by (rule exI [of _ "Inl Overflow"], rule exI [of _ out], rule exI [of _ 0])
        (use full refused Cons.prems in auto)
  qed
qed

end

section \<open>The signed decoder and encoder\<close>

text \<open>The digits read in two's complement: bit 6 of the last byte is the sign.\<close>

fun sleb_value :: "u8 list \<Rightarrow> int" where
  "sleb_value [] = 0"
| "sleb_value (b # bs) =
     (if bs = [] then if bit b 6 then uint (b AND 0x7F) - 128 else uint (b AND 0x7F)
      else uint (b AND 0x7F) + 128 * sleb_value bs)"

lemma uint_payload: "uint (b AND 0x7F) = uint b mod 128" for b :: "'a::len word"
  using arg_cong [OF unat_payload [of b], of int] by (simp add: zmod_int)

lemma bit_6_iff: "bit b 6 \<longleftrightarrow> 64 \<le> uint (b AND 0x7F)" for b :: u8
proof -
  have "bit b 6 \<longleftrightarrow> bit (unat b) 6" by (simp add: bit_unsigned_iff)
  also have "\<dots> \<longleftrightarrow> odd (unat b div 64)" by (simp add: bit_iff_odd)
  also have "\<dots> \<longleftrightarrow> 64 \<le> unat b mod 128"
  proof -
    have "unat b mod 128 = 64 * (unat b div 64 mod 2) + unat b mod 64"
      using mod_mult2_eq [of "unat b" 64 2] by simp
    moreover have "unat b mod 64 < 64" by simp
    ultimately show ?thesis by (cases "odd (unat b div 64)") (simp_all add: odd_iff_mod_2_eq_one)
  qed
  also have "\<dots> \<longleftrightarrow> 64 \<le> uint (b AND 0x7F)" unfolding uint_nat unat_payload by linarith
  finally show ?thesis .
qed

lemma sleb_value_bounds:
  "bs \<noteq> [] \<Longrightarrow> - 64 * 128 ^ (length bs - 1) \<le> sleb_value bs \<and> sleb_value bs < 64 * 128 ^ (length bs - 1)"
proof (induction bs)
  case (Cons b bs)
  have d: "0 \<le> uint (b AND 0x7F)" "uint (b AND 0x7F) < 128" by (simp_all add: uint_payload)
  show ?case
  proof (cases bs)
    case Nil
    define x where "x = uint (b AND 0x7F)"
    from Nil show ?thesis using d by (simp only: sleb_value.simps bit_6_iff flip: x_def) auto
  next
    case (Cons c cs)
    then have "- 64 * 128 ^ length cs \<le> sleb_value bs" "sleb_value bs + 1 \<le> 64 * 128 ^ length cs"
      using Cons.IH by (auto simp del: sleb_value.simps)
    moreover have "sleb_value (b # bs) = uint (b AND 0x7F) + 128 * sleb_value bs" using Cons by simp
    moreover have "(64 :: int) * 128 ^ (length (b # bs) - 1) = 128 * (64 * 128 ^ length cs)" using Cons by simp
    ultimately show ?thesis using d by linarith
  qed
qed simp

text \<open>One byte of the signed loop: the payload, and what the tenth byte may hold.\<close>

lemma sleb_payload:
  fixes b :: u8
  defines "p \<equiv> (ucast (b AND 0x7F) :: u64)"
  shows "int (unat p) = uint (b AND 0x7F)" "unat p < 128"
    and "p \<noteq> (if p AND 1 = 0 then 0x00 else 0x7F) \<longleftrightarrow> unat p \<noteq> 0 \<and> unat p \<noteq> 127"
proof -
  have u: "unat p = unat (b AND 0x7F)"
    by (simp add: p_def unsigned_ucast_eq unat_payload take_bit_nat_eq_self_iff)
  show "int (unat p) = uint (b AND 0x7F)" unfolding u uint_nat ..
  show "unat p < 128" unfolding u by (simp add: unat_payload)
  have "p AND 1 = 0 \<longleftrightarrow> even p" by (simp add: and_one_eq even_iff_mod_2_eq_zero)
  then have "p AND 1 = 0 \<longleftrightarrow> even (unat p)"
    using bit_unsigned_iff [of p 0, where 'a = nat] by (simp add: bit_0)
  moreover have "p = 0 \<longleftrightarrow> unat p = 0" "p = 0x7F \<longleftrightarrow> unat p = 127"
    by (simp_all add: word_unat_eq_iff)
  ultimately show "p \<noteq> (if p AND 1 = 0 then 0x00 else 0x7F) \<longleftrightarrow> unat p \<noteq> 0 \<and> unat p \<noteq> 127"
    by auto
qed

lemma of_int_unat: "of_int (int (unat w)) = w" for w :: "'a::len word"
  by simp

lemma sign_fill:
  fixes w :: u64
  assumes "unat w < 2 ^ s"
  shows "w OR push_bit s (- 1) = of_int (int (unat w) - 2 ^ s)"
proof -
  have "k < s" if "bit w k" for k
    using assms that by (metis bit_take_bit_iff take_bit_nat_eq_self_iff unsigned_take_bit_eq word_unat_eq_iff)
  then have "w AND push_bit s (- 1) = 0"
    by (intro bit_word_eqI) (auto simp: bit_simps dest: leD)
  then have "w OR push_bit s (- 1) = w + push_bit s (- 1)"
    by (simp add: disjunctive_add_eq_or)
  then show ?thesis by (simp add: push_bit_eq_mult)
qed

lemma sleb_loop_spec:
  assumes "unat v < 2 ^ (7 * i)" "bs \<noteq> []"
  shows "sleb_loop len bs i v (7 * i) =
     (let n = leb_len bs; total = int (unat v) + 2 ^ (7 * i) * sleb_value (take n bs)
      in if i + n \<le> 10 \<and> - (2 ^ 63) \<le> total \<and> total < 2 ^ 63
         then if leb_ends bs then Inr (of_int total, i + n) else Inl (Short (len + 1) len 0)
         else Inl (Malformed ''Sleb128'' 0))"
  using assms
proof (induction bs arbitrary: i v)
  case (Cons b bs)
  define p where "p = (ucast (b AND 0x7F) :: u64)"
  define d where "d = unat p"
  note p = sleb_payload [of b, folded p_def, folded d_def]
  define v' where "v' = v OR push_bit (7 * i) p"
  have n: "1 \<le> leb_len (b # bs)" by simp
  have step: "sleb_loop len (b # bs) i v (7 * i) =
     (if 10 \<le> i then Inl (Malformed ''Sleb128'' 0)
      else if i = 9 \<and> d \<noteq> 0 \<and> d \<noteq> 127 then Inl (Malformed ''Sleb128'' 0)
      else if b AND 0x80 = 0
      then Inr (if i < 9 \<and> bit b 6 then v' OR push_bit (7 * (i + 1)) (- 1) else v', i + 1)
      else sleb_loop len bs (i + 1) v' (7 * (i + 1)))"
    using p(3) by (auto simp: Let_def v'_def sign_bit algebra_simps simp flip: p_def)
  have single: "sleb_value [b] = (if 64 \<le> d then int d - 128 else int d)"
    using p(1) by (simp add: bit_6_iff del: uint_and)
  consider "10 \<le> i" | "i = 9" | "i < 9" by linarith
  then show ?case
  proof cases
    case 1
    then show ?thesis unfolding step Let_def using n by simp
  next
    case 2
    have v: "unat v < 2 ^ 63" using Cons.prems(1) 2 by simp
    show ?thesis
    proof (cases "leb_len (b # bs) = 1")
      case more: False
      then have "bs \<noteq> []" "b AND 0x80 \<noteq> 0" "1 \<le> leb_len bs"
        by (cases "bs = []"; cases bs; auto split: if_splits)+
      moreover have "sleb_loop len bs (i + 1) w (7 * (i + 1)) = Inl (Malformed ''Sleb128'' 0)" for w
        using \<open>bs \<noteq> []\<close> 2 by (cases bs) auto
      ultimately show ?thesis unfolding step Let_def using 2 by simp
    next
      case one: True
      have total: "int (unat v) + 2 ^ (7 * i) * sleb_value (take (leb_len (b # bs)) (b # bs))
          = int (unat v) + 2 ^ 63 * (if 64 \<le> d then int d - 128 else int d)"
        using one 2 single by simp
      define total where "total = int (unat v) + 2 ^ 63 * (if 64 \<le> d then int d - 128 else int d)"
      have range: "- (2 ^ 63) \<le> total \<and> total < 2 ^ 63 \<longleftrightarrow> d = 0 \<or> d = 127"
      proof -
        define x where "x = int (unat v)"
        have "0 \<le> x" "x < 2 ^ 63"
          using v unfolding x_def by (simp, metis of_nat_less_iff of_nat_numeral of_nat_power)
        then show ?thesis using p(2) unfolding total_def x_def [symmetric] by auto
      qed
      have "v' = of_int total" if "d = 0 \<or> d = 127"
        using that
      proof
        assume "d = 0"
        then show ?thesis by (simp add: v'_def total_def d_def unat_eq_zero)
      next
        assume d: "d = 127"
        then have "p = 0x7F" by (simp add: d_def word_unat_eq_iff)
        moreover have "push_bit 63 (0x7F :: u64) = push_bit 63 (- 1)"
        proof (rule bit_word_eqI)
          fix k assume "k < LENGTH(64)"
          then show "bit (push_bit 63 (0x7F :: u64)) k \<longleftrightarrow> bit (push_bit 63 (- 1 :: u64)) k"
            unfolding bit_push_bit_iff by (cases "k = 63") auto
        qed
        ultimately have "v' = v OR push_bit 63 (- 1)" unfolding v'_def 2 by simp
        also have "\<dots> = of_int (int (unat v) - 2 ^ 63)" using v by (rule sign_fill)
        finally show ?thesis using d by (simp add: total_def)
      qed
      moreover have "leb_ends (b # bs) \<longleftrightarrow> b AND 0x80 = 0" "b AND 0x80 \<noteq> 0 \<Longrightarrow> bs = []"
        using one by (cases bs; auto split: if_splits)+
      ultimately show ?thesis
        unfolding step Let_def total unfolding one total_def [symmetric] range
        using 2 by (cases "b AND 0x80 = 0") auto
    qed
  next
    case 3
    define T where "T = (2 :: nat) ^ (7 * i)"
    have T: "2 ^ (7 * (i + 1)) = T * 128" "T * 128 \<le> 2 ^ 63"
      unfolding T_def using 3 power_increasing [of "7 * (i + 1)" 63 "2 :: nat"] by (simp_all add: power_add)
    have "T * Suc d \<le> T * 128" using p(2) by (intro mult_le_mono2) simp
    then have d: "T + T * d \<le> T * 128" by simp
    have v': "unat v' = unat v + T * d"
      unfolding v'_def T_def d_def
    proof (rule or_shifted)
      have "T * d \<le> 2 ^ 63" using d T(2) by linarith
      then have "d * T < 2 ^ 64" unfolding mult.commute [of d] by (rule le_less_trans) simp
      then show "unat p * 2 ^ (7 * i) < 2 ^ 64" by (simp add: T_def d_def)
    qed (rule Cons.prems(1))
    have small: "unat v' < 2 ^ (7 * (i + 1))"
      unfolding v' T(1) using d Cons.prems(1) [folded T_def] by linarith
    show ?thesis
    proof (cases "b AND 0x80 = 0 \<or> bs = []")
      case True
      then have one: "leb_len (b # bs) = 1" by auto
      define total where "total = int (unat v') - (if 64 \<le> d then 2 ^ (7 * (i + 1)) else 0)"
      have total: "int (unat v) + 2 ^ (7 * i) * sleb_value (take (leb_len (b # bs)) (b # bs)) = total"
        unfolding one total_def v' using single by (simp add: T_def power_add algebra_simps)
      define x y where "x = int (unat v')" and "y = int (T * 128)"
      have "0 \<le> x" by (simp add: x_def)
      moreover have "x < y" unfolding x_def y_def of_nat_less_iff using small T(1) by (simp only:)
      moreover have "int (T * 128) \<le> int (2 ^ 63)" using T(2) by (simp only: of_nat_le_iff)
      then have "y \<le> 2 ^ 63" by (simp only: y_def of_nat_power of_nat_numeral)
      moreover have "int (2 ^ (7 * (i + 1))) = y" by (simp only: y_def T(1))
      then have "2 ^ (7 * (i + 1)) = y" by (simp only: of_nat_power of_nat_numeral)
      ultimately have range: "- (2 ^ 63) \<le> total \<and> total < 2 ^ 63"
        unfolding total_def x_def [symmetric] by auto
      have "(if i < 9 \<and> bit b 6 then v' OR push_bit (7 * (i + 1)) (- 1) else v') = of_int total"
        unfolding sign_fill [OF small] using 3 p(1) by (simp add: total_def bit_6_iff flip: d_def)
      with True range show ?thesis
        unfolding step Let_def total unfolding one using 3 by auto
    next
      case False
      then obtain c cs where bs: "bs = c # cs" by (cases bs) auto
      have len: "leb_len (b # bs) = Suc (leb_len bs)" "take (leb_len bs) bs \<noteq> []" "leb_ends (b # bs) = leb_ends bs"
        using False bs by auto
      have total: "int (unat v) + 2 ^ (7 * i) * sleb_value (take (leb_len (b # bs)) (b # bs))
          = int (unat v') + 2 ^ (7 * (i + 1)) * sleb_value (take (leb_len bs) bs)"
        unfolding len using len(2) p(1) by (simp add: v' T_def power_add algebra_simps flip: d_def)
      show ?thesis
        unfolding step Let_def total using 3 False len Cons.IH [OF small, unfolded Let_def]
        by (simp only:) auto
    qed
  qed
qed simp

lemma sleb_decode_eq:
  "sleb_decode bytes =
     (let n = leb_len bytes; total = sleb_value (take n bytes)
      in if n \<le> 10 \<and> - (2 ^ 63) \<le> total \<and> total < 2 ^ 63
         then if leb_ends bytes then Inr (of_int total, n)
              else Inl (Short (length bytes + 1) (length bytes) 0)
         else Inl (Malformed ''Sleb128'' 0))"
proof (cases "bytes = []")
  case False
  then show ?thesis
    using sleb_loop_spec [of 0 0 bytes "length bytes"] by (simp add: sleb_decode_def Let_def)
qed (simp add: sleb_decode_def)

function sleb_bytes :: "i64 \<Rightarrow> u8 list" where
  "sleb_bytes v =
     (let byte = ucast (v AND 0x7F); rest = signed_drop_bit 7 v
      in if sleb_done byte rest then [byte] else (byte OR 0x80) # sleb_bytes rest)"
  by pat_completeness auto
termination
  by (relation "measure sleb_size") (auto intro: sleb_size_less)

declare sleb_bytes.simps [simp del]

lemma sleb_encode_pushes: "sleb_encode B v out = push_each B (sleb_bytes v) out"
proof (induction B v out rule: sleb_encode.induct)
  case (1 B v out)
  show ?case
    unfolding sleb_encode.simps [of B v out] sleb_bytes.simps [of v] using 1
    by (auto simp: Let_def split: prod.splits sum.splits)
qed

lemma sint_mod_128: "int (unat v mod 128) = sint v mod 128" for v :: i64
proof -
  have "take_bit 7 (uint v) = take_bit 7 (sint v)"
    by (rule bit_eqI) (auto simp: bit_take_bit_iff bit_unsigned_iff bit_signed_iff)
  then have "uint v mod 128 = sint v mod 128" by (simp add: take_bit_eq_mod)
  then show ?thesis by (simp only: uint_nat zmod_int of_nat_numeral)
qed

lemma sleb_group:
  fixes v :: i64
  defines "byte \<equiv> (ucast (v AND 0x7F) :: u8)"
  shows "uint (byte AND 0x7F) = sint v mod 128" "uint ((byte OR 0x80) AND 0x7F) = sint v mod 128"
    "byte AND 0x80 = 0" "(byte OR 0x80) AND 0x80 \<noteq> 0"
    "bit byte 6 \<longleftrightarrow> 64 \<le> sint v mod 128"
    "sleb_done byte (signed_drop_bit 7 v) \<longleftrightarrow> - 64 \<le> sint v \<and> sint v < 64"
proof -
  show u: "uint (byte AND 0x7F) = sint v mod 128" "uint ((byte OR 0x80) AND 0x7F) = sint v mod 128"
    unfolding uint_nat byte_def group_byte sint_mod_128 by (rule refl)+
  show "byte AND 0x80 = 0" "(byte OR 0x80) AND 0x80 \<noteq> 0"
    unfolding byte_def by (rule group_byte)+
  show six: "bit byte 6 \<longleftrightarrow> 64 \<le> sint v mod 128"
    unfolding bit_6_iff u ..
  have "signed_drop_bit 7 v = 0 \<longleftrightarrow> sint v div 128 = 0" "signed_drop_bit 7 v = - 1 \<longleftrightarrow> sint v div 128 = - 1"
    unfolding sint_signed_drop [symmetric] by (metis signed_0 signed_word_eqI, metis sint_n1 signed_word_eqI)
  then show "sleb_done byte (signed_drop_bit 7 v) \<longleftrightarrow> - 64 \<le> sint v \<and> sint v < 64"
    unfolding sleb_done_def Let_def sign_bit six by (simp only:) presburger
qed

lemma sleb_bytes_leb:
  "sleb_value (sleb_bytes v) = sint v \<and> leb_ends (sleb_bytes v) \<and> leb_len (sleb_bytes v) = length (sleb_bytes v)
    \<and> sleb_bytes v \<noteq> []"
proof (induction v rule: sleb_bytes.induct)
  case (1 v)
  show ?case
  proof (cases "sleb_done (ucast (v AND 0x7F)) (signed_drop_bit 7 v)")
    case True
    then have "sleb_bytes v = [ucast (v AND 0x7F)]" by (simp add: sleb_bytes.simps [of v] Let_def)
    moreover have "(if 64 \<le> sint v mod 128 then sint v mod 128 - 128 else sint v mod 128) = sint v"
      using True unfolding sleb_group by presburger
    ultimately show ?thesis by (cases "64 \<le> sint v mod 128") (simp_all add: sleb_group del: uint_and)
  next
    case False
    then have e: "sleb_bytes v = (ucast (v AND 0x7F) OR 0x80) # sleb_bytes (signed_drop_bit 7 v)"
      by (simp add: sleb_bytes.simps [of v] Let_def)
    have "sint v mod 128 + 128 * (sint v div 128) = sint v" by simp
    with 1 [OF refl refl False] show ?thesis
      unfolding e by (simp add: sleb_group sint_signed_drop del: uint_and)
  qed
qed

lemma sleb_bytes_least:
  "- (64 * 128 ^ n) \<le> sint v \<Longrightarrow> sint v < 64 * 128 ^ n \<Longrightarrow> length (sleb_bytes v) \<le> Suc n"
proof (induction n arbitrary: v)
  case 0
  then have "sleb_done (ucast (v AND 0x7F)) (signed_drop_bit 7 v)"
    unfolding sleb_group by simp
  then show ?case by (simp add: sleb_bytes.simps [of v] Let_def)
next
  case (Suc n)
  have "- (64 * 128 ^ n) \<le> sint v div 128" "sint v div 128 < 64 * 128 ^ n"
    using Suc.prems by simp_all
  then have "length (sleb_bytes (signed_drop_bit 7 v)) \<le> Suc n"
    by (intro Suc.IH) (simp_all only: sint_signed_drop)
  then show ?case by (simp add: sleb_bytes.simps [of v] Let_def)
qed

lemma sleb_bytes_length: "length (sleb_bytes v) \<le> 10"
  using sleb_bytes_least [of 9 v] sint_64_bounds [of v] by simp

lemma of_int_sint: "of_int (sint v) = v" for v :: "'a::len word"
  by simp

lemma sleb_decode_bytes: "sleb_decode (sleb_bytes v @ bs) = Inr (v, length (sleb_bytes v))"
  using sleb_bytes_length [of v] sint_64_bounds [of v] sleb_bytes_leb [of v]
  by (simp add: sleb_decode_eq leb_len_append Let_def)

lemma sleb_decode_shortest:
  assumes "sleb_decode bytes = Inr (v, n)"
  shows "length (sleb_bytes v) \<le> n"
proof -
  define t where "t = sleb_value (take n bytes)"
  have n: "n = leb_len bytes" "- (2 ^ 63) \<le> t" "t < 2 ^ 63" "v = of_int t" "leb_ends bytes"
    using assms by (auto simp: sleb_decode_eq Let_def t_def split: if_splits)
  have t: "sint v = t"
    using n(2,3) unfolding n(4) by (simp add: signed_of_int signed_take_bit_int_eq_self)
  have "n \<noteq> 0" using n(1,5) by (cases bytes) auto
  moreover from this have "take n bytes \<noteq> []" "length (take n bytes) = n"
    using leb_len_le [of bytes] n(1) by auto
  ultimately show ?thesis
    using sleb_value_bounds [of "take n bytes"] sleb_bytes_least [of "n - 1" v] t by (simp add: t_def)
qed

section \<open>Zigzag is a bijection\<close>

lemma bit_zigzag: "bit (zigzag v) k \<longleftrightarrow> k < 64 \<and> (if k = 0 then bit v 63 else bit v (k - 1) \<noteq> bit v 63)"
  unfolding zigzag_def bit_xor_iff bit_push_bit_iff bit_signed_drop_bit_iff
  by (cases k) (auto dest: bit_imp_le_length)

lemma bit_minus_parity: "bit (- (raw AND 1)) k \<longleftrightarrow> k < 64 \<and> bit raw 0" for raw :: u64
  by (cases "even raw") (auto simp: and_one_eq bit_0 mod_2_eq_odd)

lemma bit_unzigzag: "bit (unzigzag raw) k \<longleftrightarrow> k < 64 \<and> (bit raw (Suc k) \<noteq> bit raw 0)"
  by (auto simp: unzigzag_def bit_xor_iff bit_drop_bit_eq bit_minus_parity dest: bit_imp_le_length)

lemma unzigzag_zigzag: "unzigzag (zigzag v) = v"
proof (rule bit_word_eqI)
  fix k assume "k < LENGTH(64)"
  then show "bit (unzigzag (zigzag v)) k \<longleftrightarrow> bit v k"
    by (cases "k = 63") (auto simp: bit_unzigzag bit_zigzag)
qed

lemma zigzag_unzigzag: "zigzag (unzigzag raw) = raw"
proof (rule bit_word_eqI)
  fix k assume "k < LENGTH(64)"
  moreover have "\<not> bit raw 64" by (simp add: impossible_bit)
  ultimately show "bit (zigzag (unzigzag raw)) k \<longleftrightarrow> bit raw k"
    by (cases k) (auto simp: bit_unzigzag bit_zigzag)
qed

text \<open>The order of the numbers: 0, -1, 1, -2, 2 become 0, 1, 2, 3, 4.\<close>

lemma zigzag_number: "uint (zigzag v) = (if 0 \<le> sint v then 2 * sint v else - 2 * sint v - 1)"
proof -
  define z where "z = (if 0 \<le> sint v then 2 * sint v else - 2 * sint v - 1)"
  have "sint v div 2 ^ 63 = (if 0 \<le> sint v then 0 else - 1)"
    using sint_64_bounds [of v]
    by (auto intro!: int_div_pos_eq [of _ _ _ "sint v"] int_div_pos_eq [of _ _ _ "sint v + 2 ^ 63"])
  then have "sint (signed_drop_bit 63 v) = (if 0 \<le> sint v then 0 else - 1)"
    by (simp add: sint_signed_drop_bit_eq drop_bit_eq_div)
  then have s: "signed_drop_bit 63 v = (if 0 \<le> sint v then 0 else - 1)"
    by (auto intro: signed_word_eqI)
  have "push_bit 1 v = of_int (2 * sint v)"
    by (simp add: push_bit_eq_mult)
  then have "zigzag v = of_int z"
    unfolding zigzag_def s z_def by (auto simp: not_eq_complement)
  moreover have "0 \<le> z" "z < 2 ^ 64"
    using sint_64_bounds [of v] by (auto simp: z_def)
  ultimately show ?thesis
    unfolding z_def [symmetric] by (simp add: unsigned_of_int take_bit_int_eq_self)
qed

section \<open>The contract of a self-delimiting codec\<close>

text \<open>
  What \<open>VarCodec\<close> asks of an implementation: a value has one spelling, encode pushes it byte by
  byte, and decode takes exactly the spelling off the front of any bytes that start with it.
\<close>

locale self_delimiting =
  fixes C :: "('a, 'b) var_codec" and spell :: "'a \<Rightarrow> u8 list"
  assumes encode_pushes: "vc_encode C B v out = push_each B (spell v) out"
    and decode_spell: "vc_decode C (spell v @ bs) = Inr (v, length (spell v))"
    and spell_nonempty: "spell v \<noteq> []"
begin

lemma spell_inj: "spell v = spell w \<Longrightarrow> v = w"
  using decode_spell [of v "[]"] decode_spell [of w "[]"] by simp

text \<open>No spelling is a proper prefix of another.\<close>

lemma prefix_free: "spell v @ bs = spell w @ cs \<Longrightarrow> v = w \<and> bs = cs"
  using decode_spell [of v bs] decode_spell [of w cs] by auto

end

fun encode_values :: "('a, 'b) var_codec \<Rightarrow> 'b buffer_ops \<Rightarrow> 'a list \<Rightarrow> 'b \<Rightarrow> (overflow + unit) \<times> 'b" where
  "encode_values C B [] out = (Inr (), out)"
| "encode_values C B (v # vs) out =
     (case vc_encode C B v out of (Inl e, out') \<Rightarrow> (Inl e, out') | (Inr _, out') \<Rightarrow> encode_values C B vs out')"

fun decode_values :: "('a, 'b) var_codec \<Rightarrow> nat \<Rightarrow> u8 list \<Rightarrow> parse_error + ('a list \<times> u8 list)" where
  "decode_values C 0 bytes = Inr ([], bytes)"
| "decode_values C (Suc n) bytes =
     bind_res (vc_decode C bytes) (\<lambda>(v, consumed).
       map_res (\<lambda>(vs, left). (v # vs, left)) (decode_values C n (drop consumed bytes)))"

locale codec_into = self_delimiting C spell + buffer B ok capacity
  for C :: "('a, 'b) var_codec" and spell :: "'a \<Rightarrow> u8 list"
    and B :: "'b buffer_ops" and ok :: "'b \<Rightarrow> bool" and capacity :: "'b \<Rightarrow> enat"
begin

text \<open>One encode: all of the spelling, or what there is room for and an overflow.\<close>

lemma encode_spec:
  assumes "ok out"
  shows "\<exists>r out' k. vc_encode C B v out = (r, out') \<and> ok out' \<and> capacity out' = capacity out
    \<and> k \<le> length (spell v) \<and> written B out' = written B out @ take k (spell v)
    \<and> (if enat (length (written B out) + length (spell v)) \<le> capacity out then r = Inr () \<and> k = length (spell v)
       else r = Inl Overflow \<and> enat (length (written B out) + k) = capacity out)"
  unfolding encode_pushes using assms by (rule push_each_spec)

lemma decode_values_spell:
  "decode_values C (length vs) (concat (map spell vs) @ bs) = Inr (vs, bs)"
  by (induction vs) (auto simp: decode_spell)

lemma encode_values_fit:
  assumes "ok out" "enat (length (written B out) + length (concat (map spell vs))) \<le> capacity out"
  shows "\<exists>out'. encode_values C B vs out = (Inr (), out') \<and> ok out' \<and> capacity out' = capacity out
    \<and> written B out' = written B out @ concat (map spell vs)"
  using assms
proof (induction vs arbitrary: out)
  case (Cons v vs)
  have "enat (length (written B out) + length (spell v)) \<le> capacity out"
    using Cons.prems(2) by (rule order_trans [rotated]) simp
  with encode_spec [OF Cons.prems(1), of v] obtain out1 where out1: "vc_encode C B v out = (Inr (), out1)"
    "ok out1" "capacity out1 = capacity out" "written B out1 = written B out @ spell v"
    by auto
  from Cons.IH [OF out1(2)] Cons.prems(2) out1 show ?case by (auto simp: add.assoc)
qed simp

text \<open>Values written one after another come back in order, with the bytes after them left over.\<close>

lemma values_round_trip:
  assumes "ok out" "enat (length (written B out) + length (concat (map spell vs))) \<le> capacity out"
  shows "\<exists>out'. encode_values C B vs out = (Inr (), out')
    \<and> decode_values C (length vs) (drop (length (written B out)) (written B out') @ bs) = Inr (vs, bs)"
  using encode_values_fit [OF assms] by (auto simp: decode_values_spell)

end

interpretation uleb_vec: codec_into uleb128 uleb_bytes vec_ops "\<lambda>_. True" "\<lambda>_. \<infinity>"
  using uleb_bytes_length
  by unfold_locales (auto simp: uleb128_def uleb_encode_pushes uleb_decode_bytes)

interpretation uleb_fixed: codec_into uleb128 uleb_bytes fixed_ops fixed_ok "\<lambda>f. enat (length (room f))"
  using uleb_bytes_length
  by unfold_locales (auto simp: uleb128_def uleb_encode_pushes uleb_decode_bytes)

interpretation sleb_vec: codec_into sleb128 sleb_bytes vec_ops "\<lambda>_. True" "\<lambda>_. \<infinity>"
  using sleb_bytes_leb
  by unfold_locales (auto simp: sleb128_def sleb_encode_pushes sleb_decode_bytes)

interpretation sleb_fixed: codec_into sleb128 sleb_bytes fixed_ops fixed_ok "\<lambda>f. enat (length (room f))"
  using sleb_bytes_leb
  by unfold_locales (auto simp: sleb128_def sleb_encode_pushes sleb_decode_bytes)

section \<open>Properties\<close>

text \<open>C13: decoding unsigned LEB128, on every input. With \<open>n\<close> the bytes up to the first without a
  continuation bit, or all of them: more than ten bytes or a value past 64 bits is malformed,
  bytes that end inside the value are short, and otherwise the value is the sum of its groups.\<close>

theorem uleb_decode_result:
  "uleb_decode bytes =
     (let n = leb_len bytes
      in if n \<le> 10 \<and> leb_value (take n bytes) < 2 ^ 64
         then if leb_ends bytes then Inr (of_nat (leb_value (take n bytes)), n)
              else Inl (Short (length bytes + 1) (length bytes) 0)
         else Inl (Malformed ''Uleb128'' 0))"
  by (rule uleb_decode_eq)

text \<open>C14: decoding signed LEB128, on every input: the same groups in two's complement, malformed
  exactly when the number leaves the \<open>i64\<close> range or takes more than ten bytes.\<close>

theorem sleb_decode_result:
  "sleb_decode bytes =
     (let n = leb_len bytes; total = sleb_value (take n bytes)
      in if n \<le> 10 \<and> - (2 ^ 63) \<le> total \<and> total < 2 ^ 63
         then if leb_ends bytes then Inr (of_int total, n)
              else Inl (Short (length bytes + 1) (length bytes) 0)
         else Inl (Malformed ''Sleb128'' 0))"
  by (rule sleb_decode_eq)

text \<open>C15: LEB128 values, unsigned or signed, encoded one after another into a fixed buffer with
  room for them decode to the same values with the bytes that follow left over.\<close>

theorem leb_values_round_trip:
  assumes "fixed_ok f" "fixed_at f + length (concat (map uleb_bytes us)) \<le> length (room f)"
    and "fixed_ok g" "fixed_at g + length (concat (map sleb_bytes ss)) \<le> length (room g)"
  shows "(\<exists>f'. encode_values uleb128 fixed_ops us f = (Inr (), f')
      \<and> decode_values (uleb128 :: (u64, fixed) var_codec) (length us) (drop (fixed_at f) (into_written f') @ bs) = Inr (us, bs))
    \<and> (\<exists>g'. encode_values sleb128 fixed_ops ss g = (Inr (), g')
      \<and> decode_values (sleb128 :: (i64, fixed) var_codec) (length ss) (drop (fixed_at g) (into_written g') @ bs) = Inr (ss, bs))"
proof -
  have w: "written fixed_ops = into_written" by (rule ext) (simp add: fixed_ops_def into_written_def)
  have len: "length (into_written f) = fixed_at f" "length (into_written g) = fixed_at g"
    using assms(1,3) by (simp_all add: into_written_def fixed_ok_def)
  show ?thesis
    using uleb_fixed.values_round_trip [OF assms(1), of us bs] sleb_fixed.values_round_trip [OF assms(3), of ss bs]
      assms(2,4) unfolding w len by simp
qed

theorem leb_values_round_trip_witness:
  "\<exists>f'. encode_values uleb128 fixed_ops [300, 5] (fixed_new [0, 0, 0]) = (Inr (), f')
    \<and> decode_values (uleb128 :: (u64, fixed) var_codec) 2 (into_written f' @ [9]) = Inr ([300, 5], [9])"
proof -
  have "fixed_ok (fixed_new [0, 0, 0])" "fixed_ok (fixed_new [])"
    by (simp_all add: fixed_ok_def fixed_new_def usize_max_def)
  then show ?thesis
    using leb_values_round_trip [of "fixed_new [0, 0, 0]" "[300, 5]" "fixed_new []" "[]" "[9]"]
    by (simp add: fixed_new_def uleb_bytes.simps
        del: encode_values.simps decode_values.simps flip: numeral_2_eq_2)
qed

text \<open>C16: the LEB128 encoders write the shortest spelling any decode accepts, at most ten bytes.\<close>

theorem leb_encodings_shortest:
  assumes "uleb_decode xs = Inr (u, m)" "sleb_decode ys = Inr (s, n)"
  shows "uleb_encode vec_ops u [] = (Inr (), uleb_bytes u) \<and> length (uleb_bytes u) \<le> m \<and> m \<le> 10
    \<and> sleb_encode vec_ops s [] = (Inr (), sleb_bytes s) \<and> length (sleb_bytes s) \<le> n \<and> n \<le> 10"
proof -
  have "push_each vec_ops bs v = (Inr (), v @ bs)" for bs v
    by (induction bs arbitrary: v) (auto simp: vec_ops_def)
  moreover have "m \<le> 10" "n \<le> 10"
    using assms by (auto simp: uleb_decode_eq sleb_decode_eq Let_def split: if_splits)
  ultimately show ?thesis
    using uleb_decode_shortest [OF assms(1)] sleb_decode_shortest [OF assms(2)]
    by (simp add: uleb_encode_pushes sleb_encode_pushes)
qed

theorem leb_encodings_shortest_witness:
  "length (uleb_bytes 1) \<le> 2 \<and> length (sleb_bytes 1) \<le> 2"
  using leb_encodings_shortest [of "[0x81, 0x00]" 1 2 "[0x81, 0x00]" 1 2]
  by (simp add: uleb_decode_def sleb_decode_def)

text \<open>Zigzag is a bijection between the signed and the unsigned 64-bit numbers that interleaves
  them by magnitude, the smallest \<open>i64\<close> included.\<close>

lemma zigzag_bijection:
  "unzigzag (zigzag v) = v \<and> zigzag (unzigzag raw) = raw
    \<and> uint (zigzag v) = (if 0 \<le> sint v then 2 * sint v else - 2 * sint v - 1)"
  using unzigzag_zigzag zigzag_unzigzag zigzag_number by blast

end
