(* ===== verification/ExpGolomb.thy ===== *)
theory ExpGolomb
  imports BitWriting WireInts
begin

text \<open>
  Exp-Golomb coding (\<open>layline-core/src/num/expgolomb.rs\<close>) over the bit cursors, and the trait
  \<open>BitCodec\<close> (\<open>layline-core/src/bits.rs\<close>) it implements, as the record \<open>bit_codec\<close>. The loop that
  counts leading zeros stops at the 65th, which is its termination measure.

  \<open>code_word v\<close> is the code word as a list of bits. The decoder is proved equal to a closed form
  over the bit stream, with every error, and the encoder to append the code word.
\<close>

record ('a, 'b) bit_codec =
  bc_decode :: "u8 list \<Rightarrow> usize \<Rightarrow> parse_error + ('a \<times> usize)"
  bc_encode :: "'b buffer_ops \<Rightarrow> 'a \<Rightarrow> 'b bit_writer \<Rightarrow> (overflow + unit) \<times> 'b bit_writer"

text \<open>\<open>ilog2\<close> of the standard library on a nonzero value: the index of the top set bit.\<close>

fun ilog2 :: "nat \<Rightarrow> nat" where
  "ilog2 n = (if n < 2 then 0 else Suc (ilog2 (n div 2)))"

declare ilog2.simps [simp del]

definition split_code :: "u64 \<Rightarrow> nat \<times> u64" where
  "split_code v =
     (if v = - 1 then (64, 0)
      else let zeros = ilog2 (unat (v + 1)) in (zeros, v + 1 - push_bit zeros 1))"

function zeros_loop :: "bit_reader \<Rightarrow> nat \<Rightarrow> usize \<Rightarrow> parse_error + (nat \<times> bit_reader)" where
  "zeros_loop r zeros at_bit =
     (case read_bit True r of
        (Inl e, r') \<Rightarrow> Inl e
      | (Inr is_set, r') \<Rightarrow>
          if is_set then Inr (zeros, r')
          else if 64 < zeros + 1 then Inl (Malformed ''ExpGolomb'' (at_bit div 8))
          else zeros_loop r' (zeros + 1) at_bit)"
  by pat_completeness auto
termination
  by (relation "measure (\<lambda>(r, zeros, at_bit). 65 - zeros)") auto

declare zeros_loop.simps [simp del]

definition expg_decode :: "u8 list \<Rightarrow> usize \<Rightarrow> parse_error + (u64 \<times> usize)" where
  "expg_decode bytes at_bit =
     bind_res (zeros_loop (reader_at bytes at_bit) 0 at_bit) (\<lambda>(zeros, r).
       case (if zeros = 0 then (Inr 0, r) else read True r zeros) of
         (Inl e, _) \<Rightarrow> Inl e
       | (Inr suffix, r') \<Rightarrow>
           let base = mask64 zeros
           in if 2 ^ 64 \<le> unat base + unat suffix then Inl (Malformed ''ExpGolomb'' (at_bit div 8))
              else Inr (base + suffix, reader_position r' - at_bit))"

definition expg_encode ::
    "'b buffer_ops \<Rightarrow> u64 \<Rightarrow> 'b bit_writer \<Rightarrow> (overflow + unit) \<times> 'b bit_writer" where
  "expg_encode B v out =
     (let (zeros, suffix) = split_code v
      in case write_bits B True out 0 zeros of
           (Inl e, out1) \<Rightarrow> (Inl e, out1)
         | (Inr _, out1) \<Rightarrow>
             (case write_bit B True out1 True of
                (Inl e, out2) \<Rightarrow> (Inl e, out2)
              | (Inr _, out2) \<Rightarrow> write_bits B True out2 suffix zeros))"

definition exp_golomb :: "(u64, 'b) bit_codec" where
  "exp_golomb = \<lparr>bc_decode = expg_decode, bc_encode = expg_encode\<rparr>"

definition wi_exp_golomb :: "u64 wire_int" where
  "wi_exp_golomb = \<lparr>to_i64 = to_i64 wi_u64, from_i64 = (\<lambda>n. n)\<rparr>"

section \<open>The code word\<close>

definition code_word :: "u64 \<Rightarrow> bool list" where
  "code_word v = (case split_code v of (z, s) \<Rightarrow> replicate z False @ [True] @ field_bits True z s)"

lemma ilog2_bounds: "0 < n \<Longrightarrow> 2 ^ ilog2 n \<le> n \<and> n < 2 * 2 ^ ilog2 n"
proof (induction n rule: ilog2.induct)
  case (1 n)
  show ?case
  proof (cases "n < 2")
    case True
    then show ?thesis using 1 by (simp add: ilog2.simps [of n])
  next
    case False
    with 1 have "2 ^ ilog2 (n div 2) \<le> n div 2" "n div 2 < 2 * 2 ^ ilog2 (n div 2)" by simp_all
    then have "2 * 2 ^ ilog2 (n div 2) \<le> n" "n < 2 * (2 * 2 ^ ilog2 (n div 2))" by linarith+
    then show ?thesis using False by (simp add: ilog2.simps [of n])
  qed
qed

lemma ilog2_unique: "2 ^ z \<le> n \<Longrightarrow> n < 2 * 2 ^ z \<Longrightarrow> ilog2 n = z"
proof -
  assume z: "2 ^ z \<le> n" "n < 2 * 2 ^ z"
  have "0 < n" using z(1) by (rule less_le_trans [rotated]) simp
  then have i: "2 ^ ilog2 n \<le> n" "n < 2 * 2 ^ ilog2 n" using ilog2_bounds by auto
  have "(2::nat) ^ z < 2 ^ Suc (ilog2 n)" "(2::nat) ^ ilog2 n < 2 ^ Suc z" using z i by auto
  then have "z < Suc (ilog2 n)" "ilog2 n < Suc z"
    by (meson one_less_numeral_iff power_less_imp_less_exp semiring_norm(76))+
  then show ?thesis by simp
qed

lemma unat_Suc: "v \<noteq> - 1 \<Longrightarrow> unat (v + 1) = Suc (unat v)" for v :: u64
  using unatSuc [of v] by (simp add: add.commute add_eq_0_iff)

text \<open>What \<open>split\<close> returns: a value is \<open>2 ^ zeros - 1\<close> plus a suffix of that many bits.\<close>

lemma split_code_spec:
  assumes "split_code v = (z, s)"
  shows "z \<le> 64 \<and> Suc (unat v) = 2 ^ z + unat s \<and> unat s < 2 ^ z \<and> (z = 64 \<longrightarrow> s = 0)"
proof (cases "v = - 1")
  case True
  with assms have "z = 64" "s = 0" by (simp_all add: split_code_def)
  moreover have "unat (- 1 :: u64) = 2 ^ 64 - 1" by (simp add: unsigned_minus_1_eq_mask mask_eq_exp_minus_1)
  ultimately show ?thesis using True by simp
next
  case False
  have n: "unat (v + 1) = Suc (unat v)" using False by (rule unat_Suc)
  have z: "z = ilog2 (Suc (unat v))" "s = v + 1 - push_bit z 1"
    using assms False n by (auto simp: split_code_def Let_def)
  have b: "2 ^ z \<le> Suc (unat v)" "Suc (unat v) < 2 * 2 ^ z"
    unfolding z(1) using ilog2_bounds [of "Suc (unat v)"] by simp_all
  have "(2::nat) ^ z < 2 ^ 64"
    using b(1) unsigned_less [of "v + 1", where 'a = nat] n by simp
  then have z64: "z < 64" by (rule power_less_imp_less_exp [rotated]) simp
  have p: "unat (push_bit z 1 :: u64) = 2 ^ z"
    using z64 unsigned_push_bit_eq [of z "1 :: u64", where 'a = nat] power_strict_increasing [OF z64, of "2 :: nat"]
    by (simp add: take_bit_nat_eq_self_iff)
  have "unat s = Suc (unat v) - 2 ^ z"
    unfolding z(2) using b(1) by (subst unat_sub) (simp_all only: n p word_le_nat_alt)
  with b z64 show ?thesis by simp
qed

lemma split_code_unique:
  assumes "Suc (unat v) = 2 ^ z + unat s" "unat s < 2 ^ z"
  shows "split_code v = (z, s)"
proof -
  obtain z' s' where e: "split_code v = (z', s')" by (cases "split_code v")
  with split_code_spec [OF e] assms have "ilog2 (Suc (unat v)) = z" "ilog2 (Suc (unat v)) = z'"
    by (intro ilog2_unique; simp)+
  then have "z' = z" by simp
  moreover have "s' = s"
    using split_code_spec [OF e] assms \<open>z' = z\<close> by (simp add: word_unat_eq_iff)
  ultimately show ?thesis using e by simp
qed

lemma split_code_exists: "\<exists>v. split_code v = (z, s)" if "z \<le> 64" "unat s < 2 ^ z" "z = 64 \<longrightarrow> s = 0"
proof -
  have bound: "2 ^ z + unat s - 1 < 2 ^ 64"
  proof (cases "z = 64")
    case True
    then show ?thesis using that by simp
  next
    case False
    then have "2 * (2::nat) ^ z \<le> 2 ^ 64" using that power_increasing [of "Suc z" 64 "2 :: nat"] by simp
    then show ?thesis using that(2) by linarith
  qed
  define v where "v = (of_nat (2 ^ z + unat s - 1) :: u64)"
  have "unat v = 2 ^ z + unat s - 1"
    unfolding v_def using bound by (simp only: unat_of_nat len_num0 len_num1 len_bit0 len_bit1) simp
  then have "split_code v = (z, s)" using that by (intro split_code_unique) simp_all
  then show ?thesis ..
qed

section \<open>What the decoder accepts, and its errors\<close>

text \<open>The error of a read of \<open>n\<close> bits at bit \<open>p\<close> that the bytes end inside.\<close>

definition short_at :: "u8 list \<Rightarrow> nat \<Rightarrow> nat \<Rightarrow> parse_error" where
  "short_at bytes p n = Short (div_ceil (saturating_add_u64 p n) 8) (length bytes) (p div 8)"

lemma read_bit_at:
  assumes "in_memory bytes"
  shows "read_bit True \<lparr>rd_bytes = bytes, rd_at = P\<rparr> =
     (if P < 8 * length bytes then (Inr (stream_bit True bytes P), \<lparr>rd_bytes = bytes, rd_at = P + 1\<rparr>)
      else (Inl (short_at bytes P 1), \<lparr>rd_bytes = bytes, rd_at = P\<rparr>))"
proof (cases "P < 8 * length bytes")
  case True
  obtain v where v: "read True \<lparr>rd_bytes = bytes, rd_at = P\<rparr> 1 = (Inr v, \<lparr>rd_bytes = bytes, rd_at = P + 1\<rparr>)"
    "take_bit 1 v = v" "field_bits True 1 v = take 1 (drop P (stream True bytes))"
    using read_ok [of "\<lparr>rd_bytes = bytes, rd_at = P\<rparr>" 1 True] assms True by auto
  have "field_bits True 1 v ! 0 = take 1 (drop P (stream True bytes)) ! 0"
    using v(3) by simp
  then have "bit v 0 \<longleftrightarrow> stream_bit True bytes P"
    using True by (simp add: field_bit_def)
  moreover have "v \<noteq> 0 \<longleftrightarrow> bit v 0"
  proof -
    have "k = 0" if "bit v k" for k using v(2) that by (metis bit_take_bit_iff less_one)
    then have "v = 0" if "\<not> bit v 0" using that by (intro bit_word_eqI) auto
    then show ?thesis by auto
  qed
  ultimately show ?thesis
    using v(1) True by (simp add: read_bit_def)
next
  case False
  then show ?thesis
    using read_short [of "\<lparr>rd_bytes = bytes, rd_at = P\<rparr>" 1 True] assms
    by (simp add: read_bit_def short_at_def)
qed

definition leading_zeros :: "bool list \<Rightarrow> nat" where
  "leading_zeros bs = length (takeWhile Not bs)"

lemma leading_zeros_drop:
  "leading_zeros (drop P (stream msb bytes)) =
     (if P < 8 * length bytes \<and> \<not> stream_bit msb bytes P
      then Suc (leading_zeros (drop (P + 1) (stream msb bytes))) else 0)"
  by (cases "P < 8 * length bytes") (simp_all add: leading_zeros_def flip: Cons_nth_drop_Suc)

lemma zeros_loop_spec:
  assumes "in_memory bytes" "z \<le> 64"
  shows "zeros_loop \<lparr>rd_bytes = bytes, rd_at = P\<rparr> z at_bit =
     (let k = leading_zeros (drop P (stream True bytes))
      in if 64 < z + k then Inl (Malformed ''ExpGolomb'' (at_bit div 8))
         else if P + k < 8 * length bytes then Inr (z + k, \<lparr>rd_bytes = bytes, rd_at = P + k + 1\<rparr>)
         else Inl (short_at bytes (P + k) 1))"
  using assms(2)
proof (induction "65 - z" arbitrary: z P)
  case 0
  then show ?case by simp
next
  case (Suc m)
  show ?case
  proof (cases "P < 8 * length bytes \<and> \<not> stream_bit True bytes P")
    case False
    then show ?thesis
      using Suc.prems leading_zeros_drop [of P True bytes]
      by (auto simp: zeros_loop.simps [of "\<lparr>rd_bytes = bytes, rd_at = P\<rparr>"] read_bit_at [OF assms(1)])
  next
    case True
    show ?thesis
    proof (cases "z = 64")
      case full: True
      then show ?thesis
        using True leading_zeros_drop [of P True bytes]
        by (simp add: zeros_loop.simps [of "\<lparr>rd_bytes = bytes, rd_at = P\<rparr>"] read_bit_at [OF assms(1)])
    next
      case False
      then have "zeros_loop \<lparr>rd_bytes = bytes, rd_at = P\<rparr> z at_bit
          = zeros_loop \<lparr>rd_bytes = bytes, rd_at = P + 1\<rparr> (z + 1) at_bit"
        using True Suc.prems
        by (simp add: zeros_loop.simps [of "\<lparr>rd_bytes = bytes, rd_at = P\<rparr>"] read_bit_at [OF assms(1)])
      moreover have "m = 65 - (z + 1)" "z + 1 \<le> 64" using Suc.hyps(2) Suc.prems False by simp_all
      ultimately show ?thesis
        using Suc.hyps(1) [of "z + 1" "P + 1"] True leading_zeros_drop [of P True bytes]
        by (simp add: Let_def)
    qed
  qed
qed

lemma code_word_length: "length (code_word v) = 2 * fst (split_code v) + 1"
  by (cases "split_code v") (simp add: code_word_def)

lemma leading_zeros_replicate: "leading_zeros (replicate z False @ True # bs) = z"
  by (induction z) (simp_all add: leading_zeros_def)

lemma leading_zeros_code_word: "leading_zeros (code_word v @ bs) = fst (split_code v)"
  by (cases "split_code v") (simp add: code_word_def leading_zeros_replicate)

lemma leading_zeros_split: "leading_zeros bs < length bs \<Longrightarrow>
    bs = replicate (leading_zeros bs) False @ True # drop (Suc (leading_zeros bs)) bs"
  by (induction bs) (auto simp: leading_zeros_def)

text \<open>The value a code word of \<open>z\<close> zeros stands for, when it is in range.\<close>

lemma expg_value:
  assumes "z \<le> 64" "take_bit z s = s"
  shows "2 ^ 64 \<le> unat (mask64 z) + unat s \<longleftrightarrow> z = 64 \<and> s \<noteq> 0"
    and "\<not> (z = 64 \<and> s \<noteq> 0) \<Longrightarrow> split_code (mask64 z + s) = (z, s)"
proof -
  have m: "Suc (unat (mask64 z)) = 2 ^ z"
  proof -
    have "unat (mask z :: u64) = mask z"
      by (rule bit_eqI) (use assms(1) in \<open>auto simp: bit_unsigned_iff bit_mask_iff\<close>)
    then show ?thesis by (simp add: mask64_eq mask_eq_exp_minus_1)
  qed
  have s: "unat s < 2 ^ z"
    using assms(2) by (metis take_bit_nat_less_exp unsigned_take_bit_eq)
  have small: "2 * (2::nat) ^ z \<le> 2 ^ 64" if "z \<noteq> 64"
    using that assms(1) power_increasing [of "Suc z" 64 "2 :: nat"] by simp
  show over: "2 ^ 64 \<le> unat (mask64 z) + unat s \<longleftrightarrow> z = 64 \<and> s \<noteq> 0"
  proof (cases "z = 64")
    case True
    then have "Suc (unat (mask64 z)) = 2 ^ 64" using m by simp
    then show ?thesis using True unat_eq_zero [of s] by auto
  next
    case False
    then show ?thesis using small m s by linarith
  qed
  assume "\<not> (z = 64 \<and> s \<noteq> 0)"
  then have "unat (mask64 z) + unat s < 2 ^ 64" using over by (simp only: not_le [symmetric]) simp
  then have "unat (mask64 z + s) = unat (mask64 z) + unat s"
    by (simp add: unat_word_ariths)
  then show "split_code (mask64 z + s) = (z, s)"
    using m s by (intro split_code_unique) simp_all
qed

text \<open>The decoder's result as a function of the bits from the cursor on.\<close>

lemma expg_decode_cases:
  fixes bytes :: "u8 list" and at_bit :: nat
  assumes "in_memory bytes"
  defines "bs \<equiv> \<lambda>p. drop p (stream True bytes)"
  defines "z \<equiv> leading_zeros (bs at_bit)"
  shows "64 < z \<Longrightarrow> expg_decode bytes at_bit = Inl (Malformed ''ExpGolomb'' (at_bit div 8))"
    and "z \<le> 64 \<Longrightarrow> 8 * length bytes \<le> at_bit + z \<Longrightarrow> expg_decode bytes at_bit = Inl (short_at bytes (at_bit + z) 1)"
    and "z \<le> 64 \<Longrightarrow> at_bit + z < 8 * length bytes \<Longrightarrow> 8 * length bytes < at_bit + 2 * z + 1 \<Longrightarrow>
      expg_decode bytes at_bit = Inl (short_at bytes (at_bit + z + 1) z)"
    and "z \<le> 64 \<Longrightarrow> at_bit + 2 * z + 1 \<le> 8 * length bytes \<Longrightarrow>
      \<exists>s. take_bit z s = s \<and> field_bits True z s = take z (bs (at_bit + z + 1)) \<and>
        expg_decode bytes at_bit =
          (if z = 64 \<and> s \<noteq> 0 then Inl (Malformed ''ExpGolomb'' (at_bit div 8)) else Inr (mask64 z + s, 2 * z + 1))"
proof -
  note zl = zeros_loop_spec [OF assms(1), of 0 at_bit at_bit, folded bs_def, folded z_def]
  show "64 < z \<Longrightarrow> expg_decode bytes at_bit = Inl (Malformed ''ExpGolomb'' (at_bit div 8))"
    using zl by (simp add: expg_decode_def reader_at_def bs_def z_def)
  show "z \<le> 64 \<Longrightarrow> 8 * length bytes \<le> at_bit + z \<Longrightarrow> expg_decode bytes at_bit = Inl (short_at bytes (at_bit + z) 1)"
    using zl by (simp add: expg_decode_def reader_at_def bs_def z_def)
  let ?r = "\<lparr>rd_bytes = bytes, rd_at = at_bit + z + 1\<rparr>"
  have found: "zeros_loop (reader_at bytes at_bit) 0 at_bit = Inr (z, ?r)"
    if "z \<le> 64" "at_bit + z < 8 * length bytes"
    using zl that by (simp add: reader_at_def bs_def z_def Let_def)
  show "expg_decode bytes at_bit = Inl (short_at bytes (at_bit + z + 1) z)"
    if a: "z \<le> 64" "at_bit + z < 8 * length bytes" "8 * length bytes < at_bit + 2 * z + 1"
  proof -
    have "read True ?r z = (Inl (short_at bytes (at_bit + z + 1) z), ?r)"
      using read_short [of ?r z True] assms(1) a(3) by (simp add: short_at_def)
    moreover have "z \<noteq> 0" using a by auto
    ultimately show ?thesis by (simp add: expg_decode_def found [OF a(1,2)])
  qed
  assume a: "z \<le> 64" "at_bit + 2 * z + 1 \<le> 8 * length bytes"
  then obtain s where s: "read True ?r z = (Inr s, \<lparr>rd_bytes = bytes, rd_at = at_bit + z + 1 + z\<rparr>)"
    "take_bit z s = s" "field_bits True z s = take z (bs (at_bit + z + 1))"
    using read_ok [of ?r z True] assms(1) by (auto simp: bs_def)
  have suffix: "(if z = 0 then (Inr 0, ?r) else read True ?r z) = (Inr s, \<lparr>rd_bytes = bytes, rd_at = at_bit + z + 1 + z\<rparr>)"
    using s by auto
  have found': "zeros_loop (reader_at bytes at_bit) 0 at_bit = Inr (z, ?r)"
    by (rule found) (use a in simp_all)
  have "expg_decode bytes at_bit =
      (if 2 ^ 64 \<le> unat (mask64 z) + unat s then Inl (Malformed ''ExpGolomb'' (at_bit div 8))
       else Inr (mask64 z + s, at_bit + z + 1 + z - at_bit))"
    unfolding expg_decode_def found' bind_res.simps prod.case suffix
    by (simp only: sum.case Let_def reader_position_def bit_reader.simps)
  then have "expg_decode bytes at_bit =
      (if z = 64 \<and> s \<noteq> 0 then Inl (Malformed ''ExpGolomb'' (at_bit div 8)) else Inr (mask64 z + s, 2 * z + 1))"
    unfolding expg_value(1) [OF a(1) s(2)] by simp
  with s(2,3) show "\<exists>s. take_bit z s = s \<and> field_bits True z s = take z (bs (at_bit + z + 1)) \<and>
        expg_decode bytes at_bit =
          (if z = 64 \<and> s \<noteq> 0 then Inl (Malformed ''ExpGolomb'' (at_bit div 8)) else Inr (mask64 z + s, 2 * z + 1))"
    by blast
qed

lemma split_code_inj: "split_code v = split_code w \<Longrightarrow> v = w"
proof -
  assume e: "split_code v = split_code w"
  obtain z s where "split_code v = (z, s)" by (cases "split_code v")
  with e split_code_spec [of v z s] split_code_spec [of w z s] show ?thesis
    by (simp add: word_unat_eq_iff)
qed

lemma expg_decode_sound:
  assumes "in_memory bytes" and ok: "expg_decode bytes at_bit = Inr (v, n)"
  shows "n = length (code_word v) \<and> take n (drop at_bit (stream True bytes)) = code_word v"
proof -
  let ?bs = "drop at_bit (stream True bytes)"
  define z where "z = leading_zeros ?bs"
  note c = expg_decode_cases [OF assms(1), of at_bit, folded z_def]
  have z: "z \<le> 64" using c(1) ok by (cases "64 < z") auto
  moreover have "at_bit + z < 8 * length bytes" using c(2) ok z by (cases "8 * length bytes \<le> at_bit + z") auto
  ultimately have fits: "at_bit + 2 * z + 1 \<le> 8 * length bytes"
    using c(3) ok by (cases "8 * length bytes < at_bit + 2 * z + 1") auto
  from c(4) [OF z fits] ok obtain s where s: "take_bit z s = s"
    "field_bits True z s = take z (drop (at_bit + z + 1) (stream True bytes))"
    "v = mask64 z + s" "n = z + Suc z" "\<not> (z = 64 \<and> s \<noteq> 0)"
    by (auto split: if_splits)
  have sc: "split_code v = (z, s)"
    unfolding s(3) using z s(1,5) by (rule expg_value(2))
  have "?bs = replicate z False @ True # drop (Suc z) ?bs"
    unfolding z_def by (rule leading_zeros_split) (use fits in \<open>simp add: flip: z_def\<close>)
  then have "take n ?bs = take (z + Suc z) (replicate z False @ True # drop (Suc z) ?bs)"
    using s(4) by simp
  also have "\<dots> = replicate z False @ True # field_bits True z s"
    unfolding s(2) by (simp add: take_append ac_simps)
  finally show ?thesis
    using s(4) sc by (simp add: code_word_def)
qed

lemma expg_decode_complete:
  assumes "in_memory bytes" and word: "take (length (code_word v)) (drop at_bit (stream True bytes)) = code_word v"
  shows "expg_decode bytes at_bit = Inr (v, length (code_word v))"
proof -
  let ?bs = "drop at_bit (stream True bytes)"
  obtain z s where sc: "split_code v = (z, s)" by (cases "split_code v")
  note c = expg_decode_cases [OF assms(1), of at_bit]
  have n: "length (code_word v) = z + Suc z" using code_word_length [of v] sc by simp
  have bs: "?bs = code_word v @ drop (z + Suc z) ?bs"
    using word unfolding n by (metis append_take_drop_id)
  then have lz: "leading_zeros ?bs = z"
    using leading_zeros_code_word [of v] sc by (metis fst_conv)
  have "length (code_word v) \<le> length ?bs" using bs by (metis length_append le_add1)
  then have fits: "at_bit + 2 * z + 1 \<le> 8 * length bytes" unfolding n by simp
  have z: "z \<le> 64" "unat s < 2 ^ z" "z = 64 \<longrightarrow> s = 0" using split_code_spec [OF sc] by auto
  from c(4) fits z(1) lz obtain s' where s': "take_bit z s' = s'"
    "field_bits True z s' = take z (drop (at_bit + z + 1) (stream True bytes))"
    "expg_decode bytes at_bit =
       (if z = 64 \<and> s' \<noteq> 0 then Inl (Malformed ''ExpGolomb'' (at_bit div 8)) else Inr (mask64 z + s', 2 * z + 1))"
    by auto
  have "drop (at_bit + z + 1) (stream True bytes) = drop (Suc z) ?bs" by (simp add: ac_simps)
  also have "\<dots> = field_bits True z s @ drop (z + Suc z) ?bs"
    using arg_cong [OF bs, of "drop (Suc z)"] sc by (simp add: code_word_def)
  finally have "field_bits True z s' = field_bits True z s" using s'(2) by simp
  moreover have "take_bit z s = s"
    using z(2) by (metis take_bit_nat_eq_self_iff unsigned_take_bit_eq word_unat_eq_iff)
  ultimately have "s' = s" using s'(1) field_bits_inj by blast
  then have dec: "expg_decode bytes at_bit = Inr (mask64 z + s, z + Suc z)" using s'(3) z(3) by simp
  have "split_code (mask64 z + s) = split_code v"
    unfolding sc using z(1) \<open>take_bit z s = s\<close> z(3) by (intro expg_value(2)) auto
  then show ?thesis using dec n split_code_inj by metis
qed

section \<open>The contract of a bit codec\<close>

lemma expg_encode_fields:
  "split_code v = (z, s) \<Longrightarrow> expg_encode B v w = write_fields B True w [(0, z), (1, 1), (s, z)]"
  by (auto simp: expg_encode_def write_bit_def split: prod.splits sum.splits)

lemma code_word_fields: "split_code v = (z, s) \<Longrightarrow> code_word v = fields_stream True [(0, z), (1, 1), (s, z)]"
proof -
  have "field_bits True z 0 = replicate z False"
    by (rule nth_equalityI) (auto simp: field_bit_def)
  moreover have "field_bits True 1 1 = [True]"
    by (rule nth_equalityI) (auto simp: field_bit_def)
  moreover assume "split_code v = (z, s)"
  ultimately show ?thesis by (simp add: code_word_def)
qed

locale bit_codec_into = buffer B ok capacity
  for B :: "'b buffer_ops" and ok :: "'b \<Rightarrow> bool" and capacity :: "'b \<Rightarrow> enat" +
  fixes C :: "('a, 'b) bit_codec" and word :: "'a \<Rightarrow> bool list" and msb :: bool
  assumes encode_word: "writer_at B ok msb w P \<Longrightarrow> enat (div_ceil (P + length (word v)) 8) \<le> capacity (out_buf w) \<Longrightarrow>
      \<exists>w'. bc_encode C B v w = (Inr (), w') \<and> writer_at B ok msb w' (P + length (word v))
        \<and> base_len w' = base_len w \<and> capacity (out_buf w') = capacity (out_buf w)
        \<and> take (P + length (word v)) (stream msb (written B (out_buf w')))
            = take P (stream msb (written B (out_buf w))) @ word v"
    and decode_word: "in_memory bytes \<Longrightarrow> take (length (word v)) (drop at_bit (stream msb bytes)) = word v \<Longrightarrow>
      bc_decode C bytes at_bit = Inr (v, length (word v))"
begin

text \<open>A value written anywhere reads back from where it was written.\<close>

lemma word_round_trip:
  assumes "writer_at B ok msb w P" "enat (div_ceil (P + length (word v)) 8) \<le> capacity (out_buf w)"
    and "P + length (word v) < 2 ^ 63"
  shows "\<exists>w'. bc_encode C B v w = (Inr (), w') \<and> writer_at B ok msb w' (P + length (word v))
    \<and> take P (stream msb (written B (out_buf w'))) = take P (stream msb (written B (out_buf w)))
    \<and> bc_decode C (written B (out_buf w')) P = Inr (v, length (word v))"
proof -
  from encode_word [OF assms(1,2)] obtain w' where w':
    "bc_encode C B v w = (Inr (), w')" "writer_at B ok msb w' (P + length (word v))"
    "take (P + length (word v)) (stream msb (written B (out_buf w')))
        = take P (stream msb (written B (out_buf w))) @ word v"
    by blast
  have P: "P \<le> 8 * length (written B (out_buf w))"
    using assms(1) by (simp add: writer_at_def flip: div_ceil_8_le_iff)
  have len: "length (written B (out_buf w')) = div_ceil (P + length (word v)) 8"
    using w'(2) by (simp add: writer_at_def)
  have "div_ceil (P + length (word v)) 8 \<le> 2 ^ 60"
    unfolding div_ceil_8_le_iff using assms(3) by simp
  then have mem: "in_memory (written B (out_buf w'))"
    by (simp add: in_memory_def u64_max_def len)
  have "take (length (word v)) (drop P (stream msb (written B (out_buf w')))) = word v"
    using arg_cong [OF w'(3), of "drop P"] P by (simp add: take_drop add.commute min_def)
  moreover have "take P (stream msb (written B (out_buf w'))) = take P (stream msb (written B (out_buf w)))"
    using arg_cong [OF w'(3), of "take P"] P by (simp add: min_def)
  ultimately show ?thesis using w'(1,2) decode_word [OF mem] by blast
qed

end

context buffer
begin

lemma expg_encode_word:
  assumes "writer_at B ok True w P" "enat (div_ceil (P + length (code_word v)) 8) \<le> capacity (out_buf w)"
  shows "\<exists>w'. expg_encode B v w = (Inr (), w') \<and> writer_at B ok True w' (P + length (code_word v))
    \<and> base_len w' = base_len w \<and> capacity (out_buf w') = capacity (out_buf w)
    \<and> take (P + length (code_word v)) (stream True (written B (out_buf w')))
        = take P (stream True (written B (out_buf w))) @ code_word v"
proof -
  obtain z s where sc: "split_code v = (z, s)" by (cases "split_code v")
  then have "z \<le> 64" using split_code_spec by blast
  then show ?thesis
    using write_fields_fit [OF assms(1), of "[(0, z), (1, 1), (s, z)]"] assms(2)
    by (simp only: expg_encode_fields [OF sc] code_word_fields [OF sc] length_fields_stream) simp
qed

end

interpretation expg_vec: bit_codec_into vec_ops "\<lambda>_. True" "\<lambda>_. \<infinity>" exp_golomb code_word True
  by unfold_locales (use vec.expg_encode_word expg_decode_complete in \<open>simp_all add: exp_golomb_def\<close>)

interpretation expg_fixed: bit_codec_into fixed_ops fixed_ok "\<lambda>f. enat (length (room f))" exp_golomb code_word True
  by unfold_locales (use fixed.expg_encode_word expg_decode_complete in \<open>simp_all add: exp_golomb_def\<close>)

section \<open>Properties\<close>

text \<open>C17: decoding an Exp-Golomb value at a bit position returns a value exactly when the bits there
  start with its code word, and the bits consumed are the length of that word.\<close>

theorem expg_decode_accepts:
  assumes "in_memory bytes"
  shows "expg_decode bytes at_bit = Inr (v, n)
     \<longleftrightarrow> n = length (code_word v) \<and> take n (drop at_bit (stream True bytes)) = code_word v"
  using expg_decode_sound [OF assms] expg_decode_complete [OF assms] by blast

theorem expg_decode_accepts_witness:
  "expg_decode [0x40] 0 = Inr (1, 3)"
proof -
  have "code_word 1 = [False, True, False]"
    by (simp add: code_word_def split_code_def ilog2.simps field_bits_def field_bit_def)
  then show ?thesis
    using expg_decode_accepts [of "[0x40]" 0 1 3]
    by (simp add: in_memory_def u64_max_def stream_byte)
qed

text \<open>The other inputs: 65 zero bits, or 64 with a nonzero suffix, are malformed at the byte the
  decode started in; bytes that end before the one bit or inside the suffix are short.\<close>

lemma expg_decode_errors:
  assumes "in_memory bytes"
  shows "let z = leading_zeros (drop at_bit (stream True bytes))
    in (64 < z \<longrightarrow> expg_decode bytes at_bit = Inl (Malformed ''ExpGolomb'' (at_bit div 8)))
     \<and> (z \<le> 64 \<and> 8 * length bytes \<le> at_bit + z \<longrightarrow> expg_decode bytes at_bit = Inl (short_at bytes (at_bit + z) 1))
     \<and> (z \<le> 64 \<and> at_bit + z < 8 * length bytes \<and> 8 * length bytes < at_bit + 2 * z + 1 \<longrightarrow>
          expg_decode bytes at_bit = Inl (short_at bytes (at_bit + z + 1) z))
     \<and> (z \<le> 64 \<and> at_bit + 2 * z + 1 \<le> 8 * length bytes \<and> \<not> is_ok (expg_decode bytes at_bit) \<longrightarrow>
          z = 64 \<and> expg_decode bytes at_bit = Inl (Malformed ''ExpGolomb'' (at_bit div 8)))"
  unfolding Let_def
  by (intro conjI impI; (elim conjE)?)
    (use expg_decode_cases [OF assms, of at_bit] in \<open>auto split: if_splits\<close>)

lemma expg_decode_errors_witness:
  "expg_decode [0] 0 = Inl (Short 2 1 1)"
  using expg_decode_errors [of "[0]" 0]
  by (simp add: in_memory_def u64_max_def leading_zeros_def stream_byte short_at_def
      saturating_add_u64_def div_ceil_def)

text \<open>C18: an Exp-Golomb value written anywhere in a bit stream over a fixed buffer, with room for
  its code word, reads back from there with every bit before it as it was.\<close>

theorem expg_round_trip:
  assumes "writer_at fixed_ops fixed_ok True w P" "P + length (code_word v) \<le> 8 * length (room (out_buf w))"
    and "length (room (out_buf w)) < 2 ^ 60"
  shows "\<exists>w'. expg_encode fixed_ops v w = (Inr (), w')
    \<and> take P (stream True (into_written (out_buf w'))) = take P (stream True (into_written (out_buf w)))
    \<and> expg_decode (into_written (out_buf w')) P = Inr (v, length (code_word v))"
proof -
  have w: "written fixed_ops = into_written" by (rule ext) (simp add: fixed_ops_def into_written_def)
  show ?thesis
    using expg_fixed.word_round_trip [OF assms(1), of v] assms(2,3) unfolding w
    by (auto simp: exp_golomb_def div_ceil_8_le_iff)
qed

theorem expg_round_trip_witness:
  "\<exists>w'. expg_encode fixed_ops 3 (writer_new fixed_ops (fixed_new [0])) = (Inr (), w')
    \<and> expg_decode (into_written (out_buf w')) 0 = Inr (3, 5)"
proof -
  have "writer_at fixed_ops fixed_ok True (writer_new fixed_ops (fixed_new [0])) 0"
    by (auto simp: writer_at_def writer_new_def fixed_new_def fixed_ok_def usize_max_def fixed_ops_def div_ceil_def)
  from expg_round_trip [OF this, of 3] show ?thesis
    by (auto simp: code_word_length split_code_def ilog2.simps writer_new_def fixed_new_def)
qed

end
