(* ===== verification/Checksums.thy ===== *)
theory Checksums
  imports WireInts
begin

text \<open>
  Checksums (\<open>layline-core/src/checksum.rs\<close>). The trait \<open>Checksum\<close> is the record \<open>checksum\<close> of its
  functions; \<open>init\<close> is \<open>None\<close> when the constant assertions of a CRC's parameters stop the build.
  \<open>CrcWord\<close> is sealed and implemented for \<open>u8\<close>, \<open>u16\<close>, \<open>u32\<close> and \<open>u64\<close>, so the CRC definitions are
  polymorphic in the word. \<open>Sum16Neg<BE>\<close> is the function \<open>sum16_neg\<close> of its const parameter.

  The contract of the trait is \<open>checksum_runs\<close>: the state after some runs depends only on the
  bytes of the runs put together. Both implementations are shown to keep it. Beyond it, CRCs
  detect every burst no longer than the register, and a block and its \<open>Sum16Neg\<close> sum to zero.
\<close>

record ('o, 's) checksum =
  ck_init :: "'s option"
  ck_update :: "'s \<Rightarrow> u8 list \<Rightarrow> 's"
  ck_finish :: "'s \<Rightarrow> 'o"
  ck_output :: "'o wire_int"

definition compute :: "('o, 's) checksum \<Rightarrow> u8 list \<Rightarrow> 'o option" where
  "compute C bytes = map_option (\<lambda>s. ck_finish C (ck_update C s bytes)) (ck_init C)"

section \<open>CRCs\<close>

definition from_register :: "u64 \<Rightarrow> 'w::len word" where
  "from_register register = ucast register"

definition register_of :: "'w::len word \<Rightarrow> u64" where
  "register_of self = ucast self"

definition reflect_step :: "u64 \<Rightarrow> 'w::len word \<Rightarrow> 'w word" where
  "reflect_step POLY crc = (if crc AND 1 \<noteq> 0 then drop_bit 1 crc XOR ucast POLY else drop_bit 1 crc)"

definition plain_step :: "u64 \<Rightarrow> 'w::len word \<Rightarrow> 'w word" where
  "plain_step POLY crc =
     (let top = push_bit (LENGTH('w) - 1) 1
      in if crc AND top \<noteq> 0 then push_bit 1 crc XOR ucast POLY else push_bit 1 crc)"

definition crc_byte :: "u64 \<Rightarrow> bool \<Rightarrow> 'w::len word \<Rightarrow> u8 \<Rightarrow> 'w word" where
  "crc_byte POLY REFLECT crc byte =
     (if REFLECT then (reflect_step POLY ^^ 8) (crc XOR ucast byte)
      else (plain_step POLY ^^ 8) (crc XOR push_bit (LENGTH('w) - 8) (ucast byte)))"

definition crc_fold :: "u64 \<Rightarrow> bool \<Rightarrow> 'w::len word \<Rightarrow> u8 list \<Rightarrow> 'w word" where
  "crc_fold POLY REFLECT self bytes = foldl (crc_byte POLY REFLECT) self bytes"

definition crc_update :: "u64 \<Rightarrow> bool \<Rightarrow> 'w::len word \<Rightarrow> u8 list \<Rightarrow> 'w word" where
  "crc_update POLY REFLECT state bytes = crc_fold POLY REFLECT state bytes"

definition crc_init :: "u64 \<Rightarrow> u64 \<Rightarrow> u64 \<Rightarrow> 'w::len word option" where
  "crc_init POLY INIT XOROUT =
     (let m = mask64 LENGTH('w)
      in if POLY AND NOT m = 0 \<and> INIT AND NOT m = 0 \<and> XOROUT AND NOT m = 0
         then Some (from_register INIT) else None)"

definition crc_finish :: "u64 \<Rightarrow> 'w::len word \<Rightarrow> 'w word" where
  "crc_finish XOROUT state = from_register (register_of state XOR XOROUT)"

definition crc ::
    "'w word wire_int \<Rightarrow> u64 \<Rightarrow> u64 \<Rightarrow> u64 \<Rightarrow> bool \<Rightarrow> ('w::len word, 'w word) checksum" where
  "crc W POLY INIT XOROUT REFLECT =
     \<lparr>ck_init = crc_init POLY INIT XOROUT, ck_update = crc_update POLY REFLECT,
      ck_finish = crc_finish XOROUT, ck_output = W\<rparr>"

section \<open>The negated 16-bit sum\<close>

record sum16_state =
  s16_sum :: u16
  s16_half :: "u8 option"

text \<open>\<open>as_chunks::<2>\<close> of the standard library: the whole pairs, and the byte left over.\<close>

fun as_chunks2 :: "u8 list \<Rightarrow> (u8 \<times> u8) list \<times> u8 list" where
  "as_chunks2 (lo # hi # rest) = (let (words, tail) = as_chunks2 rest in ((lo, hi) # words, tail))"
| "as_chunks2 tail = ([], tail)"

definition sum16_words :: "sum16_state \<Rightarrow> u8 list \<Rightarrow> (u8 \<Rightarrow> u8 \<Rightarrow> u16) \<Rightarrow> sum16_state" where
  "sum16_words state rest pair =
     (let (words, tail) = as_chunks2 rest;
          state' = foldl (\<lambda>st (lo, hi). st\<lparr>s16_sum := s16_sum st + pair lo hi\<rparr>) state words
      in case tail of [l] \<Rightarrow> state'\<lparr>s16_half := Some l\<rparr> | _ \<Rightarrow> state')"

definition sum16_feed :: "sum16_state \<Rightarrow> u8 list \<Rightarrow> (u8 \<Rightarrow> u8 \<Rightarrow> u16) \<Rightarrow> sum16_state" where
  "sum16_feed state bytes pair =
     (let taken = state\<lparr>s16_half := None\<rparr>
      in case s16_half state of
           Some held \<Rightarrow>
             (case bytes of
                [] \<Rightarrow> taken\<lparr>s16_half := Some held\<rparr>
              | b # rest \<Rightarrow> sum16_words (taken\<lparr>s16_sum := s16_sum state + pair held b\<rparr>) rest pair)
         | None \<Rightarrow> sum16_words taken bytes pair)"

definition sum16_close :: "sum16_state \<Rightarrow> (u8 \<Rightarrow> u8 \<Rightarrow> u16) \<Rightarrow> u16" where
  "sum16_close state pair =
     - (case s16_half state of None \<Rightarrow> s16_sum state | Some l \<Rightarrow> s16_sum state + pair l 0)"

definition pair_le :: "u8 \<Rightarrow> u8 \<Rightarrow> u16" where
  "pair_le first second = ucast first OR push_bit 8 (ucast second)"

definition pair_be :: "u8 \<Rightarrow> u8 \<Rightarrow> u16" where
  "pair_be first second = push_bit 8 (ucast first) OR ucast second"

definition sum16_pair :: "bool \<Rightarrow> u8 \<Rightarrow> u8 \<Rightarrow> u16" where
  "sum16_pair BE = (if BE then pair_be else pair_le)"

definition sum16_neg :: "bool \<Rightarrow> (u16, sum16_state) checksum" where
  "sum16_neg BE =
     \<lparr>ck_init = Some \<lparr>s16_sum = 0, s16_half = None\<rparr>,
      ck_update = (\<lambda>state bytes. sum16_feed state bytes (sum16_pair BE)),
      ck_finish = (\<lambda>state. sum16_close state (sum16_pair BE)),
      ck_output = wi_unsigned\<rparr>"

section \<open>The contract: only the bytes matter\<close>

text \<open>Feeding runs one after another, as a message with a checksum field in its middle does.\<close>

definition update_runs :: "('o, 's) checksum \<Rightarrow> 's \<Rightarrow> u8 list list \<Rightarrow> 's" where
  "update_runs C s runs = foldl (ck_update C) s runs"

locale checksum_runs =
  fixes C :: "('o, 's) checksum"
  assumes update_nil: "ck_update C s [] = s"
    and update_append: "ck_update C (ck_update C s xs) ys = ck_update C s (xs @ ys)"
begin

lemma update_runs_concat: "update_runs C s runs = ck_update C s (concat runs)"
  by (induction runs arbitrary: s) (simp_all add: update_runs_def update_nil update_append)

lemma compute_runs:
  "ck_init C = Some s \<Longrightarrow> Some (ck_finish C (update_runs C s runs)) = compute C (concat runs)"
  by (simp add: compute_def update_runs_concat)

text \<open>Two ways to cut the same bytes into runs give the same check value.\<close>

lemma cuts_agree: "concat runs = concat runs' \<Longrightarrow> update_runs C s runs = update_runs C s runs'"
  by (simp add: update_runs_concat)

end

interpretation crc_runs: checksum_runs "crc W POLY INIT XOROUT REFLECT" for W POLY INIT XOROUT REFLECT
  by unfold_locales (simp_all add: crc_def crc_update_def crc_fold_def)

lemma as_chunks2_append:
  "as_chunks2 (xs @ ys) = (case as_chunks2 xs of (ws, t) \<Rightarrow> (case as_chunks2 (t @ ys) of (vs, u) \<Rightarrow> (ws @ vs, u)))"
  by (induction xs rule: as_chunks2.induct) (auto split: prod.splits)

lemma as_chunks2_tail: "as_chunks2 xs = (ws, t) \<Longrightarrow> t = [] \<or> (\<exists>l. t = [l])"
  by (induction xs arbitrary: ws rule: as_chunks2.induct) (auto split: prod.splits)

text \<open>The sum of the words a byte list pairs into, an odd last byte padded with zero.\<close>

fun words_sum :: "(u8 \<Rightarrow> u8 \<Rightarrow> u16) \<Rightarrow> u8 list \<Rightarrow> u16" where
  "words_sum pair [] = 0"
| "words_sum pair [l] = pair l 0"
| "words_sum pair (lo # hi # rest) = pair lo hi + words_sum pair rest"

definition pairs_sum :: "(u8 \<Rightarrow> u8 \<Rightarrow> u16) \<Rightarrow> (u8 \<times> u8) list \<Rightarrow> u16" where
  "pairs_sum pair ws = sum_list (map (\<lambda>(lo, hi). pair lo hi) ws)"

definition held :: "sum16_state \<Rightarrow> u8 list" where
  "held st = (case s16_half st of None \<Rightarrow> [] | Some b \<Rightarrow> [b])"

lemma foldl_pairs:
  "foldl (\<lambda>st (lo, hi). st\<lparr>s16_sum := s16_sum st + pair lo hi\<rparr>) st ws
    = st\<lparr>s16_sum := s16_sum st + pairs_sum pair ws\<rparr>"
  by (induction ws arbitrary: st) (auto simp: pairs_sum_def add.assoc)

text \<open>The state after a run: the whole pairs summed, the byte left over held.\<close>

lemma sum16_feed_eq:
  assumes "as_chunks2 (held st @ bytes) = (ws, t)"
  shows "s16_sum (sum16_feed st bytes pair) = s16_sum st + pairs_sum pair ws"
    and "held (sum16_feed st bytes pair) = t"
  using assms as_chunks2_tail [OF assms]
  by (auto simp: sum16_feed_def sum16_words_def foldl_pairs held_def pairs_sum_def add.assoc Let_def
      split: option.splits list.splits prod.splits)

lemma sum16_state_eqI: "s16_sum a = s16_sum b \<Longrightarrow> held a = held b \<Longrightarrow> a = b" for a b :: sum16_state
  by (cases a; cases b) (auto simp: held_def split: option.splits)

lemma sum16_feed_append:
  "sum16_feed (sum16_feed st xs pair) ys pair = sum16_feed st (xs @ ys) pair"
proof -
  obtain ws t where w: "as_chunks2 (held st @ xs) = (ws, t)" by fastforce
  obtain vs u where v: "as_chunks2 (t @ ys) = (vs, u)" by fastforce
  have "as_chunks2 (held st @ xs @ ys) = (ws @ vs, u)"
    using as_chunks2_append [of "held st @ xs" ys] w v by simp
  then show ?thesis
    using sum16_feed_eq [OF w] sum16_feed_eq [of "sum16_feed st xs pair" ys vs u pair] v
      sum16_feed_eq [of st "xs @ ys" "ws @ vs" u pair]
    by (intro sum16_state_eqI) (simp_all add: pairs_sum_def add.assoc)
qed

lemma sum16_feed_nil: "sum16_feed st [] pair = st"
  by (cases st) (auto simp: sum16_feed_def sum16_words_def Let_def split: option.splits)

interpretation sum16_runs: checksum_runs "sum16_neg BE" for BE
  by unfold_locales (simp_all add: sum16_neg_def sum16_feed_append sum16_feed_nil)

text \<open>A block and its check word sum to zero.\<close>

lemma words_sum_chunks:
  "as_chunks2 bytes = (ws, t) \<Longrightarrow> words_sum pair bytes = pairs_sum pair ws + words_sum pair t"
  by (induction pair bytes arbitrary: ws rule: words_sum.induct)
    (auto simp: pairs_sum_def split: prod.splits)

lemma sum16_compute: "compute (sum16_neg BE) bytes = Some (- words_sum (sum16_pair BE) bytes)"
proof -
  let ?s = "\<lparr>s16_sum = 0, s16_half = None\<rparr>"
  obtain ws t where w: "as_chunks2 bytes = (ws, t)" by fastforce
  have e: "held ?s = []" by (simp add: held_def)
  note f = sum16_feed_eq [of ?s bytes ws t, unfolded e, simplified, OF w]
  have "sum16_close (sum16_feed ?s bytes pair) pair = - words_sum pair bytes" for pair
    using f [of pair] as_chunks2_tail [OF w] words_sum_chunks [OF w, of pair]
    by (auto simp: sum16_close_def held_def split: option.splits)
  then show ?thesis by (simp add: compute_def sum16_neg_def)
qed

lemma words_sum_append:
  "even (length xs) \<Longrightarrow> words_sum pair (xs @ ys) = words_sum pair xs + words_sum pair ys"
  by (induction pair xs rule: words_sum.induct) (auto simp: add.assoc)

definition word_bytes :: "bool \<Rightarrow> u16 \<Rightarrow> u8 list" where
  "word_bytes BE w = (if BE then [ucast (drop_bit 8 w), ucast w] else [ucast w, ucast (drop_bit 8 w)])"

lemma pair_word_bytes: "words_sum (sum16_pair BE) (word_bytes BE w) = w"
proof -
  have "push_bit 8 (ucast (ucast (drop_bit 8 w) :: u8)) OR ucast (ucast w :: u8) = w"
    by (rule bit_word_eqI) (auto simp: bit_simps)
  then show ?thesis by (simp add: word_bytes_def sum16_pair_def pair_be_def pair_le_def or.commute)
qed

section \<open>The model on the published test vector\<close>

text \<open>
  The nine bytes \<open>123456789\<close> with the parameters the documentation lists for CRC-8/SMBUS and
  CRC-16/MODBUS, evaluated on the definitions.
\<close>

definition check_input :: "u8 list" where
  "check_input = [0x31, 0x32, 0x33, 0x34, 0x35, 0x36, 0x37, 0x38, 0x39]"

lemma crc_byte_steps:
  "crc_byte P False x b = (let s = plain_step P in s (s (s (s (s (s (s (s (x XOR push_bit (LENGTH('w) - 8) (ucast b))))))))))"
  "crc_byte P True x b = (let s = reflect_step P in s (s (s (s (s (s (s (s (x XOR ucast b)))))))))"
  for x :: "'w::len word"
  unfolding crc_byte_def Let_def by (simp_all add: eval_nat_numeral)

lemma crc_smbus_check: "compute (crc wi_unsigned 0x07 0x00 0x00 False) check_input = Some (0xF4 :: u8)"
proof -
  have "foldl (crc_byte 0x07 False) (0 :: u8) check_input = 0xF4"
    by (simp add: check_input_def crc_byte_steps plain_step_def)
  then show ?thesis
    by (simp add: compute_def crc_def crc_init_def crc_update_def crc_fold_def crc_finish_def from_register_def
        register_of_def mask64_eq mask_eq_exp_minus_1)
qed

lemma crc_modbus_check: "compute (crc wi_unsigned 0xA001 0xFFFF 0x0000 True) check_input = Some (0x4B37 :: u16)"
proof -
  have "foldl (crc_byte 0xA001 True) (0xFFFF :: u16) check_input = 0x4B37"
    by (simp add: check_input_def crc_byte_steps reflect_step_def)
  then show ?thesis
    by (simp add: compute_def crc_def crc_init_def crc_update_def crc_fold_def crc_finish_def from_register_def
        register_of_def mask64_eq mask_eq_exp_minus_1)
qed

section \<open>CRCs detect short bursts\<close>

text \<open>
  A byte step is \<open>T\<close>, eight register shifts, after the byte is added at the end the register shifts
  from. \<open>slot k\<close> is where the \<open>k\<close>-th byte of a register's width lies before \<open>k\<close> steps shift it
  there. \<open>T\<close> is linear and injective, so the register after a run no wider than itself is an
  injective function of the run.
\<close>

lemma xor_cancel: "q XOR x = q XOR y \<longleftrightarrow> x = y" "x XOR q = y XOR q \<longleftrightarrow> x = y" for x y q :: "'w::len word"
proof -
  have l: "q XOR x = q XOR y \<Longrightarrow> x = y" for x y q :: "'w word"
    by (drule arg_cong [where f = "\<lambda>w. q XOR w"]) (simp flip: xor.assoc)
  then show "q XOR x = q XOR y \<longleftrightarrow> x = y" "x XOR q = y XOR q \<longleftrightarrow> x = y"
    by (auto simp: xor.commute [of _ q])
qed

locale crc_register =
  fixes T :: "'w::len word \<Rightarrow> 'w word" and slot :: "nat \<Rightarrow> u8 \<Rightarrow> 'w word"
    and step :: "'w word \<Rightarrow> u8 \<Rightarrow> 'w word"
  assumes step_eq: "step r b = T (r XOR slot 0 b)"
    and T_xor: "T (x XOR y) = T x XOR T y"
    and T_inj: "T x = T y \<Longrightarrow> x = y"
    and slot_up: "8 * Suc (Suc k) \<le> LENGTH('w) \<Longrightarrow> T (slot (Suc k) b) = slot k b"
    and slot_disjoint: "8 * Suc k \<le> LENGTH('w) \<Longrightarrow> 8 * Suc j \<le> LENGTH('w) \<Longrightarrow> j \<noteq> k \<Longrightarrow> slot j a AND slot k b = 0"
    and slot_inj: "8 * Suc k \<le> LENGTH('w) \<Longrightarrow> slot k a = slot k b \<Longrightarrow> a = b"
begin

fun pack :: "nat \<Rightarrow> u8 list \<Rightarrow> 'w word" where
  "pack k [] = 0"
| "pack k (b # bs) = slot k b XOR pack (Suc k) bs"

lemma T_0: "T 0 = 0"
  using T_xor [of 0 0] by simp

lemma pack_up: "8 * (Suc k + length bs) \<le> LENGTH('w) \<Longrightarrow> T (pack (Suc k) bs) = pack k bs"
  by (induction bs arbitrary: k) (simp_all add: T_0 T_xor slot_up)

lemma run_pack: "8 * length bs \<le> LENGTH('w) \<Longrightarrow> foldl step r bs = (T ^^ length bs) (r XOR pack 0 bs)"
proof (induction bs arbitrary: r)
  case (Cons b bs)
  have "foldl step r (b # bs) = (T ^^ length bs) (T (r XOR slot 0 b) XOR pack 0 bs)"
    using Cons.IH [of "T (r XOR slot 0 b)"] Cons.prems by (simp add: step_eq [of r b])
  also have "pack 0 bs = T (pack (Suc 0) bs)"
    using Cons.prems pack_up [of 0 bs] by simp
  finally show ?case by (simp add: xor.assoc funpow_swap1 flip: T_xor)
qed simp

lemma T_pow_inj: "(T ^^ n) x = (T ^^ n) y \<Longrightarrow> x = y"
  by (induction n) (auto dest: T_inj)

lemma slot_pack_disjoint: "8 * (k + length bs) \<le> LENGTH('w) \<Longrightarrow> j < k \<Longrightarrow> slot j a AND pack k bs = 0"
proof (induction bs arbitrary: k)
  case (Cons b bs)
  have "slot j a AND slot k b = 0" by (rule slot_disjoint) (use Cons.prems in auto)
  moreover have "slot j a AND pack (Suc k) bs = 0" by (rule Cons.IH) (use Cons.prems in auto)
  ultimately show ?case by (simp add: bit.conj_xor_distrib)
qed simp

lemma xor_disjoint:
  assumes "x XOR p = y XOR q" "x AND p = 0" "x AND q = 0" "y AND p = 0" "y AND q = (0 :: 'w word)"
  shows "x = y"
proof (rule bit_word_eqI)
  fix n
  show "bit x n \<longleftrightarrow> bit y n"
    using arg_cong [OF assms(1), of "\<lambda>w. bit w n"] arg_cong [OF assms(2), of "\<lambda>w. bit w n"]
      arg_cong [OF assms(3), of "\<lambda>w. bit w n"] arg_cong [OF assms(4), of "\<lambda>w. bit w n"]
      arg_cong [OF assms(5), of "\<lambda>w. bit w n"]
    by (auto simp: bit_xor_iff bit_and_iff)
qed

lemma pack_inj:
  "length bs = length cs \<Longrightarrow> 8 * (k + length bs) \<le> LENGTH('w) \<Longrightarrow> pack k bs = pack k cs \<Longrightarrow> bs = cs"
proof (induction bs cs arbitrary: k rule: list_induct2)
  case (Cons b bs c cs)
  have d: "slot k a AND pack (Suc k) bs = 0" "slot k a AND pack (Suc k) cs = 0" for a
    by (rule slot_pack_disjoint; use Cons.prems(1) Cons.hyps in simp)+
  have "slot k b = slot k c"
    by (rule xor_disjoint [OF _ d(1) d(2) d(1) d(2)]) (use Cons.prems(2) in simp)
  then have "b = c" by (rule slot_inj [rotated]) (use Cons.prems in simp)
  moreover have "bs = cs"
    using Cons.prems \<open>b = c\<close> by (intro Cons.IH [of "Suc k"]) (simp_all add: xor_cancel)
  ultimately show ?case by simp
qed simp

lemma step_inj: "step r b = step r' b \<Longrightarrow> r = r'"
  by (auto simp: step_eq xor_cancel dest!: T_inj)

lemma fold_inj: "foldl step r bs = foldl step r' bs \<Longrightarrow> r = r'"
  by (induction bs arbitrary: r r') (auto dest: step_inj)

text \<open>Two messages that differ only inside a stretch no wider than the register.\<close>

lemma burst_detected:
  assumes "length bs = length cs" "8 * length bs \<le> LENGTH('w)" "bs \<noteq> cs"
  shows "foldl step r (ps @ bs @ ss) \<noteq> foldl step r (ps @ cs @ ss)"
proof
  define q where "q = foldl step r ps"
  assume "foldl step r (ps @ bs @ ss) = foldl step r (ps @ cs @ ss)"
  then have "foldl step q bs = foldl step q cs"
    by (auto simp: q_def dest: fold_inj)
  then have "(T ^^ length bs) (q XOR pack 0 bs) = (T ^^ length bs) (q XOR pack 0 cs)"
    using run_pack assms(1,2) by simp
  then have "q XOR pack 0 bs = q XOR pack 0 cs" by (rule T_pow_inj)
  then have "pack 0 bs = pack 0 cs" by (simp add: xor_cancel)
  with pack_inj [of bs cs 0] assms show False by simp
qed

end

text \<open>The two shift directions, for a polynomial with its constant term.\<close>

definition reflect_slot :: "nat \<Rightarrow> u8 \<Rightarrow> 'w::len word" where
  "reflect_slot k b = push_bit (8 * k) (ucast b)"

definition plain_slot :: "nat \<Rightarrow> u8 \<Rightarrow> 'w::len word" where
  "plain_slot k b = push_bit (LENGTH('w) - 8 * Suc k) (ucast b)"

lemma xor_funpow:
  fixes f :: "'w::len word \<Rightarrow> 'w word"
  assumes "\<And>x y. f (x XOR y) = f x XOR f y"
  shows "(f ^^ n) (x XOR y) = (f ^^ n) x XOR (f ^^ n) y"
  by (induction n) (simp_all add: assms)

lemma inj_funpow_eq:
  fixes f :: "'a \<Rightarrow> 'a"
  assumes "(f ^^ n) x = (f ^^ n) y" "\<And>x y. f x = f y \<Longrightarrow> x = y"
  shows "x = y"
  using assms(1)
proof (induction n)
  case (Suc n)
  then show ?case using assms(2) [of "(f ^^ n) x" "(f ^^ n) y"] by simp
qed simp

lemma reflect_step_alt: "reflect_step POLY x = drop_bit 1 x XOR (if bit x 0 then ucast POLY else 0)"
  by (simp add: reflect_step_def bit_iff_and_drop_bit_eq_1 and_one_eq mod_2_eq_odd bit_0)

lemma plain_step_alt:
  "plain_step POLY x = push_bit 1 x XOR (if bit x (LENGTH('w) - 1) then ucast POLY else 0)"
  for x :: "'w::len word"
  by (simp add: plain_step_def bit_iff_and_push_bit_not_eq_0)

lemma reflect_step_xor: "reflect_step POLY (x XOR y) = reflect_step POLY x XOR reflect_step POLY y"
  by (rule bit_word_eqI) (auto simp: reflect_step_alt bit_simps)

lemma plain_step_xor: "plain_step POLY (x XOR y) = plain_step POLY x XOR plain_step POLY y"
  for x :: "'w::len word"
proof (rule bit_word_eqI)
  fix n assume "n < LENGTH('w)"
  then show "bit (plain_step POLY (x XOR y)) n = bit (plain_step POLY x XOR plain_step POLY y) n"
    unfolding plain_step_alt by (auto simp only: bit_xor_iff bit_push_bit_iff split: if_splits) auto
qed

lemma reflect_step_inj:
  fixes x y :: "'w::len word"
  assumes "bit (ucast POLY :: 'w word) (LENGTH('w) - 1)" "reflect_step POLY x = reflect_step POLY y"
  shows "x = y"
proof -
  have step: "bit (reflect_step POLY x) n \<longleftrightarrow> bit x (Suc n) \<noteq> (bit x 0 \<and> bit (ucast POLY :: 'w word) n)"
    for n and x :: "'w word"
    by (simp add: reflect_step_alt bit_xor_iff bit_drop_bit_eq)
  have top: "\<not> bit x (Suc (LENGTH('w) - 1))" for x :: "'w word"
    by (metis Suc_diff_1 impossible_bit len_gt_0 less_irrefl not_less possible_bit_word)
  have zero: "bit x 0 = bit y 0"
    using step [of x "LENGTH('w) - 1"] step [of y "LENGTH('w) - 1"] top assms by simp
  show ?thesis
  proof (rule bit_word_eqI)
    fix n
    show "bit x n \<longleftrightarrow> bit y n"
      using zero step [of x "n - 1"] step [of y "n - 1"] assms(2) by (cases n) auto
  qed
qed

lemma plain_step_inj:
  fixes x y :: "'w::len word"
  assumes "bit (ucast POLY :: 'w word) 0" "plain_step POLY x = plain_step POLY y"
  shows "x = y"
proof -
  let ?top = "LENGTH('w) - 1"
  have step: "bit (plain_step POLY x) n \<longleftrightarrow>
      (1 \<le> n \<and> n < LENGTH('w) \<and> bit x (n - 1)) \<noteq> (bit x ?top \<and> bit (ucast POLY :: 'w word) n)"
    for n and x :: "'w word"
    unfolding plain_step_alt bit_xor_iff bit_push_bit_iff by auto
  have top: "bit x ?top = bit y ?top"
    using step [of x 0] step [of y 0] assms by simp
  show ?thesis
  proof (rule bit_word_eqI)
    fix n assume n: "n < LENGTH('w)"
    show "bit x n \<longleftrightarrow> bit y n"
    proof (cases "n = ?top")
      case False
      with n have "Suc n < LENGTH('w)" by simp
      then show ?thesis
        using top step [of x "Suc n"] step [of y "Suc n"] assms(2) by auto
    qed (use top in simp)
  qed
qed

lemma reflect_pow: "(\<And>i. i < n \<Longrightarrow> \<not> bit x i) \<Longrightarrow> (reflect_step POLY ^^ n) x = drop_bit n x"
proof (induction n)
  case (Suc n)
  then have "(reflect_step POLY ^^ n) x = drop_bit n x" by simp
  moreover have "\<not> bit (drop_bit n x) 0" using Suc.prems [of n] by (simp add: bit_drop_bit_eq)
  then have "reflect_step POLY (drop_bit n x) = drop_bit (Suc n) x"
    unfolding reflect_step_alt by (simp add: drop_bit_drop_bit)
  ultimately show ?case by simp
qed simp

lemma plain_pow:
  fixes x :: "'w::len word"
  shows "(\<And>i. LENGTH('w) - n \<le> i \<Longrightarrow> \<not> bit x i) \<Longrightarrow> n \<le> LENGTH('w) \<Longrightarrow> (plain_step POLY ^^ n) x = push_bit n x"
proof (induction n)
  case (Suc n)
  then have "(plain_step POLY ^^ n) x = push_bit n x" by simp
  moreover have "\<not> bit (push_bit n x) (LENGTH('w) - 1)"
    using Suc.prems(1) [of "LENGTH('w) - 1 - n"] by (auto simp: bit_push_bit_iff)
  then have "plain_step POLY (push_bit n x) = push_bit (Suc n) x"
    unfolding plain_step_alt by (simp only: if_False xor.right_neutral push_bit_push_bit) simp
  ultimately show ?case by simp
qed simp

lemma crc_register_reflect:
  assumes "bit (ucast POLY :: 'w::len word) (LENGTH('w) - 1)"
  shows "crc_register (reflect_step POLY ^^ 8 :: 'w word \<Rightarrow> 'w word) reflect_slot (crc_byte POLY True)"
proof
  fix r :: "'w word" and b
  show "crc_byte POLY True r b = (reflect_step POLY ^^ 8) (r XOR reflect_slot 0 b)"
    by (simp add: crc_byte_def reflect_slot_def)
next
  fix x y :: "'w word"
  show "(reflect_step POLY ^^ 8) (x XOR y) = (reflect_step POLY ^^ 8) x XOR (reflect_step POLY ^^ 8) y"
    by (rule xor_funpow) (rule reflect_step_xor)
  assume "(reflect_step POLY ^^ 8) x = (reflect_step POLY ^^ 8) y"
  then show "x = y" by (rule inj_funpow_eq) (rule reflect_step_inj [OF assms])
next
  fix k b assume "8 * Suc (Suc k) \<le> LENGTH('w)"
  then have "drop_bit 8 (reflect_slot (Suc k) b) = (reflect_slot k b :: 'w word)"
    by (intro bit_word_eqI) (auto simp: reflect_slot_def bit_simps dest: bit_imp_le_length)
  moreover have "(reflect_step POLY ^^ 8) (reflect_slot (Suc k) b) = drop_bit 8 (reflect_slot (Suc k) b :: 'w word)"
    by (rule reflect_pow) (auto simp: reflect_slot_def bit_push_bit_iff)
  ultimately show "(reflect_step POLY ^^ 8) (reflect_slot (Suc k) b) = (reflect_slot k b :: 'w word)" by simp
next
  fix j k and a b
  assume "8 * Suc k \<le> LENGTH('w)" "8 * Suc j \<le> LENGTH('w)" "j \<noteq> (k :: nat)"
  then show "reflect_slot j a AND reflect_slot k b = (0 :: 'w word)"
    by (intro bit_word_eqI) (auto simp: reflect_slot_def bit_simps dest!: bit_imp_le_length)
next
  fix k a b
  assume k: "8 * Suc k \<le> LENGTH('w)" "reflect_slot k a = (reflect_slot k b :: 'w word)"
  show "a = b"
  proof (rule bit_word_eqI)
    fix n assume "n < LENGTH(8)"
    then show "bit a n \<longleftrightarrow> bit b n"
      using arg_cong [OF k(2), of "\<lambda>w. bit w (8 * k + n)"] k(1)
      by (simp add: reflect_slot_def bit_push_bit_iff bit_unsigned_iff)
  qed
qed

lemma crc_register_plain:
  assumes "bit (ucast POLY :: 'w::len word) 0"
  shows "crc_register (plain_step POLY ^^ 8 :: 'w word \<Rightarrow> 'w word) plain_slot (crc_byte POLY False)"
proof
  fix r :: "'w word" and b
  show "crc_byte POLY False r b = (plain_step POLY ^^ 8) (r XOR plain_slot 0 b)"
    by (simp add: crc_byte_def plain_slot_def)
next
  fix x y :: "'w word"
  show "(plain_step POLY ^^ 8) (x XOR y) = (plain_step POLY ^^ 8) x XOR (plain_step POLY ^^ 8) y"
    by (rule xor_funpow) (rule plain_step_xor)
  assume "(plain_step POLY ^^ 8) x = (plain_step POLY ^^ 8) y"
  then show "x = y" by (rule inj_funpow_eq) (rule plain_step_inj [OF assms])
next
  fix k b assume k: "8 * Suc (Suc k) \<le> LENGTH('w)"
  have "push_bit 8 (plain_slot (Suc k) b) = (plain_slot k b :: 'w word)"
    by (rule bit_word_eqI) (use k in \<open>auto simp: plain_slot_def bit_simps\<close>)
  moreover have "(plain_step POLY ^^ 8) (plain_slot (Suc k) b) = push_bit 8 (plain_slot (Suc k) b :: 'w word)"
    by (rule plain_pow) (use k in \<open>auto simp: plain_slot_def bit_simps dest!: bit_imp_le_length\<close>)
  ultimately show "(plain_step POLY ^^ 8) (plain_slot (Suc k) b) = (plain_slot k b :: 'w word)" by simp
next
  fix j k and a b
  assume "8 * Suc k \<le> LENGTH('w)" "8 * Suc j \<le> LENGTH('w)" "j \<noteq> (k :: nat)"
  then show "plain_slot j a AND plain_slot k b = (0 :: 'w word)"
    by (intro bit_word_eqI) (auto simp: plain_slot_def bit_simps dest!: bit_imp_le_length)
next
  fix k a b
  assume k: "8 * Suc k \<le> LENGTH('w)" "plain_slot k a = (plain_slot k b :: 'w word)"
  show "a = b"
  proof (rule bit_word_eqI)
    fix n assume "n < LENGTH(8)"
    then show "bit a n \<longleftrightarrow> bit b n"
      using arg_cong [OF k(2), of "\<lambda>w. bit w (LENGTH('w) - 8 * Suc k + n)"] k(1)
      by (simp add: plain_slot_def bit_push_bit_iff bit_unsigned_iff) linarith
  qed
qed

interpretation crc32_register: crc_register
  "reflect_step 0xEDB88320 ^^ 8 :: u32 \<Rightarrow> u32" reflect_slot "crc_byte 0xEDB88320 True"
  by (rule crc_register_reflect) (simp add: bit_unsigned_iff)

interpretation crc16_register: crc_register
  "plain_step 0x1021 ^^ 8 :: u16 \<Rightarrow> u16" plain_slot "crc_byte 0x1021 False"
  by (rule crc_register_plain) (simp add: bit_unsigned_iff)

lemma crc_finish_inj:
  fixes s t :: "'w::len word"
  assumes "LENGTH('w) \<le> 64" "crc_finish XOROUT s = crc_finish XOROUT t"
  shows "s = t"
proof (rule bit_word_eqI)
  fix n assume "n < LENGTH('w)"
  then show "bit s n \<longleftrightarrow> bit t n"
    using arg_cong [OF assms(2), of "\<lambda>w. bit w n"] assms(1)
    by (auto simp: crc_finish_def from_register_def register_of_def bit_unsigned_iff bit_xor_iff)
qed

section \<open>Properties\<close>

text \<open>C20: a CRC whose polynomial has its constant term detects every change confined to a stretch
  of bytes no longer than its register, wherever it lies in the message.\<close>

theorem crc_detects_bursts:
  fixes W :: "'w::len word wire_int"
  assumes "bit (ucast POLY :: 'w word) (if REFLECT then LENGTH('w) - 1 else 0)" "LENGTH('w) \<le> 64"
    and "length bs = length cs" "8 * length bs \<le> LENGTH('w)" "bs \<noteq> cs"
    and "compute (crc W POLY INIT XOROUT REFLECT) (ps @ bs @ ss) = Some v"
  shows "compute (crc W POLY INIT XOROUT REFLECT) (ps @ cs @ ss) \<noteq> Some v"
proof -
  obtain r where r: "crc_init POLY INIT XOROUT = Some (r :: 'w word)"
    using assms(6) by (auto simp: compute_def crc_def)
  have "foldl (crc_byte POLY REFLECT) r (ps @ bs @ ss) \<noteq> foldl (crc_byte POLY REFLECT) r (ps @ cs @ ss)"
    using crc_register.burst_detected [OF crc_register_reflect, of POLY bs cs r ps ss]
      crc_register.burst_detected [OF crc_register_plain, of POLY bs cs r ps ss] assms(1,3-5)
    by (cases REFLECT) simp_all
  then have "crc_finish XOROUT (crc_fold POLY REFLECT r (ps @ bs @ ss))
      \<noteq> crc_finish XOROUT (crc_fold POLY REFLECT r (ps @ cs @ ss))"
    using crc_finish_inj [OF assms(2)] unfolding crc_fold_def by blast
  then show ?thesis
    using r assms(6) by (simp add: compute_def crc_def crc_update_def)
qed

theorem crc_detects_bursts_witness:
  "compute (crc wi_unsigned 0x1021 0xFFFF 0 False) [1, 2, 3 :: u8]
    \<noteq> (compute (crc wi_unsigned 0x1021 0xFFFF 0 False) [1, 4, 5] :: u16 option)"
proof -
  have "\<exists>v. compute (crc wi_unsigned 0x1021 0xFFFF 0 False) [1, 2, 3 :: u8] = Some (v :: u16)"
    by (simp add: compute_def crc_def crc_init_def mask64_eq mask_eq_exp_minus_1)
  then obtain v :: u16 where v: "compute (crc wi_unsigned 0x1021 0xFFFF 0 False) ([1] @ [2, 3] @ []) = Some v"
    by auto
  show ?thesis
    using crc_detects_bursts [OF _ _ _ _ _ v, of "[4, 5]"] v by (simp add: bit_unsigned_iff)
qed

text \<open>C19: the check value of either kind of checksum depends only on the bytes: cutting a message into
  runs in any two ways, as a checksum field in its middle does, gives the same value.\<close>

theorem checksum_run_independent:
  assumes "concat runs = concat runs'"
  shows "update_runs (crc W POLY INIT XOROUT REFLECT) s runs = update_runs (crc W POLY INIT XOROUT REFLECT) s runs'
    \<and> update_runs (sum16_neg BE) t runs = update_runs (sum16_neg BE) t runs'
    \<and> compute (sum16_neg BE) (concat runs)
        = Some (ck_finish (sum16_neg BE) (update_runs (sum16_neg BE) (the (ck_init (sum16_neg BE))) runs'))"
  using crc_runs.cuts_agree [OF assms] sum16_runs.cuts_agree [OF assms]
    sum16_runs.compute_runs [of BE _ runs'] assms
  by (simp add: sum16_neg_def)

theorem checksum_run_independent_witness:
  "update_runs (sum16_neg False) \<lparr>s16_sum = 5, s16_half = Some 9\<rparr> [[1], [2, 3]]
    = update_runs (sum16_neg False) \<lparr>s16_sum = 5, s16_half = Some 9\<rparr> [[1, 2], [], [3]]"
  using checksum_run_independent [of "[[1], [2, 3]]" "[[1, 2], [], [3]]" wi_u64 0 0 0 False 0 False
      "\<lparr>s16_sum = 5, s16_half = Some 9\<rparr>"] by simp

text \<open>A block followed by its \<open>Sum16Neg\<close> check word sums to zero, and the check value is the
  negated sum of the words, an odd last byte padded with zero.\<close>

lemma sum16_sums_to_zero:
  "compute (sum16_neg BE) bytes = Some (- words_sum (sum16_pair BE) bytes)
    \<and> (even (length bytes) \<longrightarrow> compute (sum16_neg BE) bytes = Some w \<longrightarrow>
         words_sum (sum16_pair BE) (bytes @ word_bytes BE w) = 0)"
  using sum16_compute [of BE bytes] words_sum_append [of bytes "sum16_pair BE" "word_bytes BE w"]
    pair_word_bytes [of BE w] by (auto simp: add_eq_0_iff)

lemma sum16_sums_to_zero_witness:
  "words_sum (sum16_pair False) ([1, 2] @ word_bytes False 0xFDFF) = 0"
  using sum16_sums_to_zero [of False "[1, 2]" "0xFDFF"]
  by (simp add: sum16_pair_def pair_le_def)

end
