(* ===== verification/Framing.thy ===== *)
theory Framing
  imports Prelude
begin

text \<open>
  Finding one frame at the start of the received bytes (\<open>layline-core/src/frame.rs\<close>). The trait
  \<open>FrameSpec\<close>, which a user of the library implements, is the record \<open>frame_spec\<close>: every definition
  takes it as an argument. \<open>measure_override\<close> is the implementation of \<open>measure\<close> where the spec gives
  one, and \<open>measure\<close> is the trait's method with its default.

  The reference is \<open>verdict\<close>, which looks at the first byte only: it waits, skips one byte or
  takes a frame. \<open>parse\<close> is proved to be some skips in a row or one verdict.
\<close>

datatype measured = MFrame usize | MMore usize | MReject | MUnmeasurable

datatype corrupt_policy = Resync | Consume

datatype integrity = Verified | Corrupt

datatype desync_cause = NoCandidate | BadHeader | DChecksum | TooLarge | DUnmeasurable | Unbounded

datatype parsed =
    PFrame usize "usize \<times> usize" integrity \<comment> \<open>\<open>consumed\<close>, \<open>body\<close>, \<open>integrity\<close>\<close>
  | PIncomplete usize \<comment> \<open>\<open>need\<close>\<close>
  | PDesync usize desync_cause \<comment> \<open>\<open>discard\<close>, \<open>cause\<close>\<close>

record frame_spec =
  CANDIDATE_LEN :: usize
  HEADER_LEN :: usize
  MAX_FRAME :: usize
  ON_CORRUPT :: corrupt_policy
  SCAN_PAST_INCOMPLETE :: bool
  candidate :: "u8 list \<Rightarrow> bool"
  frame_len :: "u8 list \<Rightarrow> usize option"
  measure_override :: "(u8 list \<Rightarrow> measured) option"
  verify :: "u8 list \<Rightarrow> bool"
  body :: "u8 list \<Rightarrow> usize \<times> usize"

definition measure_default :: "frame_spec \<Rightarrow> u8 list \<Rightarrow> measured" where
  "measure_default S bytes =
     (if length bytes < HEADER_LEN S then MMore (HEADER_LEN S - length bytes)
      else case frame_len S (take (HEADER_LEN S) bytes) of Some tot \<Rightarrow> MFrame tot | None \<Rightarrow> MReject)"

definition measure :: "frame_spec \<Rightarrow> u8 list \<Rightarrow> measured" where
  "measure S bytes = (case measure_override S of Some m \<Rightarrow> m bytes | None \<Rightarrow> measure_default S bytes)"

text \<open>The search for a start: where it stopped, and whether a candidate stands there.\<close>

function find_candidate :: "frame_spec \<Rightarrow> u8 list \<Rightarrow> usize \<Rightarrow> bool \<times> usize" where
  "find_candidate S buf i =
     (if length buf < i + CANDIDATE_LEN S then (False, i)
      else if candidate S (drop i buf) then (True, i)
      else find_candidate S buf (i + 1))"
  by pat_completeness auto
termination
  by (relation "Wellfounded.measure (\<lambda>(S, buf, i). Suc (length buf) - i)") auto

declare find_candidate.simps [simp del]

function beyond_loop :: "frame_spec \<Rightarrow> u8 list \<Rightarrow> usize \<Rightarrow> usize option" where
  "beyond_loop S buf i =
     (if i + CANDIDATE_LEN S \<le> length buf
      then if candidate S (drop i buf)
              \<and> (case measure S (drop i buf) of
                    MFrame tot \<Rightarrow> HEADER_LEN S \<le> tot \<and> tot \<le> MAX_FRAME S
                      \<and> i + tot \<le> length buf \<and> verify S (take tot (drop i buf))
                  | _ \<Rightarrow> False)
           then Some i
           else beyond_loop S buf (i + 1)
      else None)"
  by pat_completeness auto
termination
  by (relation "Wellfounded.measure (\<lambda>(S, buf, i). Suc (length buf) - i)") auto

declare beyond_loop.simps [simp del]

definition complete_frame_beyond :: "frame_spec \<Rightarrow> u8 list \<Rightarrow> usize option" where
  "complete_frame_beyond S buf = beyond_loop S buf 1"

text \<open>\<open>parse\<close> after the search found a candidate at the first byte.\<close>

definition incomplete_or_beyond :: "frame_spec \<Rightarrow> u8 list \<Rightarrow> usize \<Rightarrow> parsed" where
  "incomplete_or_beyond S buf need =
     (case (if SCAN_PAST_INCOMPLETE S then complete_frame_beyond S buf else None) of
        Some pos \<Rightarrow> PDesync pos NoCandidate
      | None \<Rightarrow> PIncomplete need)"

definition parse_candidate :: "frame_spec \<Rightarrow> u8 list \<Rightarrow> parsed" where
  "parse_candidate S buf =
     (case measure S buf of
        MReject \<Rightarrow> PDesync 1 BadHeader
      | MUnmeasurable \<Rightarrow> PDesync 1 DUnmeasurable
      | MMore need \<Rightarrow>
          if MAX_FRAME S \<le> length buf then PDesync 1 Unbounded
          else incomplete_or_beyond S buf (max need 1)
      | MFrame tot \<Rightarrow>
          if MAX_FRAME S < tot then PDesync 1 TooLarge
          else if tot < HEADER_LEN S then PDesync 1 BadHeader
          else if length buf < tot then incomplete_or_beyond S buf (tot - length buf)
          else
            let frame = take tot buf;
                (body_start, body_end) = body S frame
            in if body_end < body_start \<or> tot < body_end then PDesync 1 BadHeader
               else if verify S frame then PFrame tot (body_start, body_end) Verified
               else (case ON_CORRUPT S of
                       Resync \<Rightarrow> PDesync 1 DChecksum
                     | Consume \<Rightarrow> PFrame tot (body_start, body_end) Corrupt))"

definition parse :: "frame_spec \<Rightarrow> u8 list \<Rightarrow> parsed" where
  "parse S buf =
     (case find_candidate S buf 0 of
        (found, i) \<Rightarrow>
          if i \<noteq> 0 then PDesync i NoCandidate
          else if found then parse_candidate S buf
          else PIncomplete (CANDIDATE_LEN S - length buf))"

section \<open>What a spec must satisfy\<close>

text \<open>The constant assertions of \<open>Decoder::new\<close>, which every decoder's spec passes.\<close>

definition spec_ok :: "frame_spec \<Rightarrow> bool" where
  "spec_ok S \<longleftrightarrow> 1 \<le> CANDIDATE_LEN S \<and> CANDIDATE_LEN S \<le> HEADER_LEN S \<and> HEADER_LEN S \<le> MAX_FRAME S"

section \<open>The search\<close>

lemma find_candidate_spec:
  assumes "find_candidate S buf i = (found, n)"
  shows "i \<le> n \<and> (\<forall>j. i \<le> j \<and> j < n \<longrightarrow> \<not> candidate S (drop j buf) \<and> j + CANDIDATE_LEN S \<le> length buf)
    \<and> (if found then n + CANDIDATE_LEN S \<le> length buf \<and> candidate S (drop n buf)
       else length buf < n + CANDIDATE_LEN S)"
  using assms
proof (induction S buf i rule: find_candidate.induct)
  case (1 S buf i)
  show ?case
  proof (cases "length buf < i + CANDIDATE_LEN S \<or> candidate S (drop i buf)")
    case True
    then show ?thesis using 1(2) by (auto simp: find_candidate.simps [of S buf i] split: if_splits)
  next
    case False
    then have "find_candidate S buf (i + 1) = (found, n)"
      using 1(2) by (simp add: find_candidate.simps [of S buf i])
    with 1(1) False have IH: "i + 1 \<le> n"
      "\<forall>j. i + 1 \<le> j \<and> j < n \<longrightarrow> \<not> candidate S (drop j buf) \<and> j + CANDIDATE_LEN S \<le> length buf"
      "if found then n + CANDIDATE_LEN S \<le> length buf \<and> candidate S (drop n buf)
       else length buf < n + CANDIDATE_LEN S"
      by auto
    moreover have "\<not> candidate S (drop j buf) \<and> j + CANDIDATE_LEN S \<le> length buf" if "i \<le> j" "j < n" for j
      using IH(2) False that by (cases "j = i") auto
    ultimately show ?thesis by auto
  qed
qed

lemma beyond_loop_spec:
  assumes "beyond_loop S buf i = Some n"
  shows "i \<le> n \<and> n + CANDIDATE_LEN S \<le> length buf \<and> candidate S (drop n buf)
    \<and> (\<exists>tot. measure S (drop n buf) = MFrame tot \<and> HEADER_LEN S \<le> tot \<and> tot \<le> MAX_FRAME S
         \<and> n + tot \<le> length buf \<and> verify S (take tot (drop n buf)))"
  using assms
proof (induction S buf i rule: beyond_loop.induct)
  case (1 S buf i)
  then show ?case
    by (subst (asm) beyond_loop.simps) (auto split: if_splits measured.splits)
qed

text \<open>Every outcome makes progress, and stays inside the bytes and the spec's limits.\<close>

lemma parse_frame:
  assumes "parse S buf = PFrame c (bs, be) k"
  shows "HEADER_LEN S \<le> c \<and> c \<le> MAX_FRAME S \<and> c \<le> length buf \<and> bs \<le> be \<and> be \<le> c
    \<and> body S (take c buf) = (bs, be)
    \<and> (k = Verified \<longleftrightarrow> verify S (take c buf)) \<and> (k = Corrupt \<longrightarrow> ON_CORRUPT S = Consume)
    \<and> candidate S buf \<and> measure S buf = MFrame c"
  using assms find_candidate_spec [of S buf 0]
  by (auto simp: parse_def parse_candidate_def incomplete_or_beyond_def Let_def
      split: prod.splits if_splits measured.splits option.splits corrupt_policy.splits)

lemma parse_desync:
  assumes "spec_ok S" "parse S buf = PDesync n cause"
  shows "1 \<le> n \<and> n \<le> length buf"
proof -
  obtain found i where f: "find_candidate S buf 0 = (found, i)" by fastforce
  note search = find_candidate_spec [OF f]
  show ?thesis
  proof (cases "i = 0")
    case False
    then have "0 \<le> i - 1" "i - 1 < i" by simp_all
    then have "i - 1 + CANDIDATE_LEN S \<le> length buf" using search by blast
    with False show ?thesis using assms f by (auto simp: parse_def spec_ok_def)
  next
    case True
    then have found: found "parse_candidate S buf = PDesync n cause"
      using assms(2) f by (auto simp: parse_def split: if_splits)
    then have "1 \<le> length buf" using search assms(1) True by (auto simp: spec_ok_def)
    then show ?thesis
      using found(2) beyond_loop_spec [of S buf 1 n] assms(1)
      by (auto simp: parse_candidate_def incomplete_or_beyond_def complete_frame_beyond_def spec_ok_def Let_def
          split: prod.splits if_splits measured.splits option.splits corrupt_policy.splits)
  qed
qed

lemma parse_incomplete:
  assumes "spec_ok S" "parse S buf = PIncomplete n"
  shows "1 \<le> n \<and> length buf < MAX_FRAME S"
  using assms find_candidate_spec [of S buf 0]
  by (auto simp: parse_def parse_candidate_def incomplete_or_beyond_def spec_ok_def Let_def
      split: prod.splits if_splits measured.splits option.splits corrupt_policy.splits)

section \<open>The reference: one byte at a time\<close>

datatype verdict = Wait | Skip desync_cause | Take usize "usize \<times> usize" integrity

definition verdict :: "frame_spec \<Rightarrow> u8 list \<Rightarrow> verdict" where
  "verdict S s =
     (if length s < CANDIDATE_LEN S then Wait
      else if \<not> candidate S s then Skip NoCandidate
      else case measure S s of
        MReject \<Rightarrow> Skip BadHeader
      | MUnmeasurable \<Rightarrow> Skip DUnmeasurable
      | MMore _ \<Rightarrow> if MAX_FRAME S \<le> length s then Skip Unbounded else Wait
      | MFrame tot \<Rightarrow>
          if MAX_FRAME S < tot then Skip TooLarge
          else if tot < HEADER_LEN S then Skip BadHeader
          else if length s < tot then Wait
          else if snd (body S (take tot s)) < fst (body S (take tot s)) \<or> tot < snd (body S (take tot s))
          then Skip BadHeader
          else if verify S (take tot s) then Take tot (body S (take tot s)) Verified
          else (case ON_CORRUPT S of Resync \<Rightarrow> Skip DChecksum
                                   | Consume \<Rightarrow> Take tot (body S (take tot s)) Corrupt))"

text \<open>What \<open>parse\<close> returns is one verdict, or a run of skips with the same cause.\<close>

definition agrees :: "frame_spec \<Rightarrow> u8 list \<Rightarrow> parsed \<Rightarrow> bool" where
  "agrees S s r \<longleftrightarrow>
     (case r of PFrame c b k \<Rightarrow> verdict S s = Take c b k
      | PIncomplete _ \<Rightarrow> verdict S s = Wait
      | PDesync n cause \<Rightarrow> \<forall>j<n. verdict S (drop j s) = Skip cause)"

lemma parse_candidate_verdict:
  assumes "\<not> SCAN_PAST_INCOMPLETE S" "CANDIDATE_LEN S \<le> length s" "candidate S s"
  shows "agrees S s (parse_candidate S s)"
  using assms
  by (auto simp: agrees_def verdict_def parse_candidate_def incomplete_or_beyond_def Let_def
      split: measured.splits prod.splits corrupt_policy.splits)

lemma parse_verdict:
  assumes "spec_ok S" "\<not> SCAN_PAST_INCOMPLETE S"
  shows "agrees S s (parse S s)"
proof -
  obtain found i where f: "find_candidate S s 0 = (found, i)" by fastforce
  note search = find_candidate_spec [OF f]
  show ?thesis
  proof (cases "i = 0")
    case True
    then show ?thesis
      using search f parse_candidate_verdict [OF assms(2), of s]
      by (cases found) (auto simp: parse_def agrees_def verdict_def)
  next
    case False
    have "verdict S (drop j s) = Skip NoCandidate" if "j < i" for j
      using search that by (auto simp: verdict_def)
    then show ?thesis using f False by (simp add: parse_def agrees_def)
  qed
qed

section \<open>Whole streams\<close>

text \<open>
  \<open>drain\<close> frames a byte stream to its end: the frames in order, and the bytes it is still waiting
  on. The two guards only make it total for constants no decoder accepts.
\<close>

record popped =
  pop_frame :: "u8 list"
  pop_body :: "u8 list"
  pop_integrity :: integrity

definition popped_of :: "u8 list \<Rightarrow> usize \<Rightarrow> usize \<times> usize \<Rightarrow> integrity \<Rightarrow> popped" where
  "popped_of s c b k = \<lparr>pop_frame = take c s, pop_body = drop (fst b) (take (snd b) s), pop_integrity = k\<rparr>"

function drain :: "frame_spec \<Rightarrow> u8 list \<Rightarrow> popped list \<times> u8 list" where
  "drain S s =
     (case verdict S s of
        Wait \<Rightarrow> ([], s)
      | Skip _ \<Rightarrow> if s = [] then ([], s) else drain S (drop 1 s)
      | Take c b k \<Rightarrow> if c = 0 \<or> s = [] then ([], s)
                     else case drain S (drop c s) of (fs, l) \<Rightarrow> (popped_of s c b k # fs, l))"
  by pat_completeness auto
termination
  by (relation "Wellfounded.measure (\<lambda>(S, s). length s)") auto

declare drain.simps [simp del]

lemma popped_of_append: "c \<le> length s \<Longrightarrow> snd b \<le> length s \<Longrightarrow> popped_of (s @ t) c b k = popped_of s c b k"
  by (simp add: popped_of_def)

lemma verdict_take:
  assumes "verdict S s = Take c b k"
  shows "HEADER_LEN S \<le> c \<and> c \<le> MAX_FRAME S \<and> c \<le> length s \<and> fst b \<le> snd b \<and> snd b \<le> c"
  using assms
  by (auto simp: verdict_def split: if_splits measured.splits corrupt_policy.splits)

lemma verdict_skip: "spec_ok S \<Longrightarrow> verdict S s = Skip cause \<Longrightarrow> s \<noteq> []"
  by (auto simp: verdict_def spec_ok_def split: if_splits)

lemma drain_wait [simp]: "verdict S s = Wait \<Longrightarrow> drain S s = ([], s)"
  by (simp add: drain.simps [of S s])

lemma drain_skip:
  assumes "spec_ok S" "verdict S s = Skip cause"
  shows "drain S s = drain S (drop 1 s)"
  using verdict_skip [OF assms] assms(2) by (simp add: drain.simps [of S s])

lemma drain_take:
  assumes "spec_ok S" "verdict S s = Take c b k"
  shows "drain S s = (case drain S (drop c s) of (fs, l) \<Rightarrow> (popped_of s c b k # fs, l))"
proof -
  have "c \<noteq> 0" "s \<noteq> []" using verdict_take [OF assms(2)] assms(1) by (auto simp: spec_ok_def)
  then show ?thesis using assms(2) by (simp add: drain.simps [of S s])
qed

lemma drain_skips:
  assumes "spec_ok S" "\<forall>j<n. verdict S (drop j s) = Skip cause"
  shows "drain S s = drain S (drop n s)"
  using assms(2)
proof (induction n arbitrary: s)
  case (Suc n)
  have "verdict S s = Skip cause" using Suc.prems by (metis drop_0 zero_less_Suc)
  then have "drain S s = drain S (drop 1 s)" by (rule drain_skip [OF assms(1)])
  also have "\<dots> = drain S (drop n (drop 1 s))"
    by (rule Suc.IH) (use Suc.prems in auto)
  finally show ?case by simp
qed simp

text \<open>What \<open>drain\<close> is still waiting on is a frame start no longer than a frame.\<close>

lemma drain_left:
  assumes "spec_ok S"
  shows "verdict S (snd (drain S s)) = Wait"
proof (induction "length s" arbitrary: s rule: less_induct)
  case less
  show ?case
  proof (cases "verdict S s")
    case (Skip cause)
    then show ?thesis
      using drain_skip [OF assms Skip] less [of "drop 1 s"] verdict_skip [OF assms Skip] by simp
  next
    case (Take c b k)
    have "c \<noteq> 0" "c \<le> length s" using verdict_take [OF Take] assms by (auto simp: spec_ok_def)
    then show ?thesis
      using drain_take [OF assms Take] less [of "drop c s"] by (simp split: prod.splits)
  qed simp
qed

lemma verdict_wait: "spec_ok S \<Longrightarrow> verdict S s = Wait \<Longrightarrow> length s < MAX_FRAME S"
  by (auto simp: verdict_def spec_ok_def split: if_splits measured.splits corrupt_policy.splits)

lemma drain_left_short: "spec_ok S \<Longrightarrow> length (snd (drain S s)) < MAX_FRAME S"
  using drain_left verdict_wait by blast

section \<open>Specs whose answers more bytes do not change\<close>

text \<open>
  The contract a spec has to keep for framing not to depend on how the stream is cut: a decided
  answer stays when more bytes arrive, and \<open>measure\<close> has decided by \<open>MAX_FRAME\<close> bytes, as its
  documentation asks. A spec that scans past an incomplete frame gives this up by design.
\<close>

locale stable_framing =
  fixes S :: frame_spec
  assumes constants: "spec_ok S"
    and no_scan: "\<not> SCAN_PAST_INCOMPLETE S"
    and candidate_stable: "CANDIDATE_LEN S \<le> length s \<Longrightarrow> candidate S (s @ t) = candidate S s"
    and measure_stable: "CANDIDATE_LEN S \<le> length s \<Longrightarrow> candidate S s \<Longrightarrow>
      (\<And>m. measure S s \<noteq> MMore m) \<Longrightarrow> measure S (s @ t) = measure S s"
    and measure_bounded: "candidate S s \<Longrightarrow> MAX_FRAME S \<le> length s \<Longrightarrow> measure S s \<noteq> MMore n"
begin

lemma verdict_stable:
  assumes "verdict S s \<noteq> Wait"
  shows "verdict S (s @ t) = verdict S s"
proof -
  have len: "CANDIDATE_LEN S \<le> length s" using assms by (auto simp: verdict_def split: if_splits)
  show ?thesis
  proof (cases "candidate S s")
    case True
    have more: "measure S s \<noteq> MMore n" for n
      using assms len True measure_bounded [OF True] by (auto simp: verdict_def split: if_splits)
    then have "measure S (s @ t) = measure S s"
      using measure_stable [OF len True] by blast
    then show ?thesis
      using assms len True more candidate_stable [OF len]
      by (auto simp: verdict_def not_less split: measured.splits if_splits corrupt_policy.splits)
  next
    case False
    then show ?thesis using len candidate_stable [OF len] by (simp add: verdict_def)
  qed
qed

text \<open>Framing a stream in two pieces is framing it whole.\<close>

lemma drain_append:
  "drain S (s @ t) = (case drain S s of (fs, l) \<Rightarrow> (case drain S (l @ t) of (gs, m) \<Rightarrow> (fs @ gs, m)))"
proof (induction "length s" arbitrary: s rule: less_induct)
  case less
  show ?case
  proof (cases "verdict S s")
    case Wait
    then show ?thesis by (auto split: prod.splits)
  next
    case (Skip cause)
    have "verdict S (s @ t) = Skip cause" using Skip verdict_stable [of s t] by simp
    moreover obtain a s' where s: "s = a # s'" using verdict_skip [OF constants Skip] by (cases s) auto
    ultimately show ?thesis
      using drain_skip [OF constants Skip] drain_skip [OF constants, of "s @ t" cause] less [of s']
      by simp
  next
    case (Take c b k)
    have v: "verdict S (s @ t) = Take c b k" using Take verdict_stable [of s t] by simp
    have c: "c \<noteq> 0" "c \<le> length s" "snd b \<le> length s"
      using verdict_take [OF Take] constants by (auto simp: spec_ok_def)
    then have "popped_of (s @ t) c b k = popped_of s c b k" by (intro popped_of_append)
    then show ?thesis
      using drain_take [OF constants Take] drain_take [OF constants v] less [of "drop c s"] c
      by (auto split: prod.splits)
  qed
qed

text \<open>However the stream is cut into pieces, the frames are those of the whole.\<close>

fun drain_pieces :: "u8 list \<Rightarrow> u8 list list \<Rightarrow> popped list \<times> u8 list" where
  "drain_pieces l [] = ([], l)"
| "drain_pieces l (p # ps) =
     (case drain S (l @ p) of (fs, l') \<Rightarrow> (case drain_pieces l' ps of (gs, m) \<Rightarrow> (fs @ gs, m)))"

lemma drain_pieces_eq: "verdict S l = Wait \<Longrightarrow> drain_pieces l ps = drain S (l @ concat ps)"
proof (induction ps arbitrary: l)
  case (Cons p ps)
  obtain fs l' where d: "drain S (l @ p) = (fs, l')" by fastforce
  have "verdict S l' = Wait" using drain_left [OF constants, of "l @ p"] d by simp
  with Cons.IH [OF this] show ?case
    using drain_append [of "l @ p" "concat ps"] d by simp
qed simp

end

text \<open>
  The common case: a length in a fixed-size header. The default \<open>measure\<close> keeps the contract for
  any \<open>frame_len\<close>, because it only looks at the header.
\<close>

locale header_framing =
  fixes S :: frame_spec
  assumes header_constants: "spec_ok S"
    and header_no_scan: "\<not> SCAN_PAST_INCOMPLETE S"
    and default_measure: "measure_override S = None"
    and header_candidate: "CANDIDATE_LEN S \<le> length s \<Longrightarrow> candidate S (s @ t) = candidate S s"

sublocale header_framing \<subseteq> stable_framing S
proof
  fix s t
  assume decided: "\<And>m. measure S s \<noteq> MMore m"
  have "HEADER_LEN S \<le> length s"
    using default_measure decided [of "HEADER_LEN S - length s"]
    by (auto simp: measure_def measure_default_def split: if_splits)
  then show "measure S (s @ t) = measure S s"
    using default_measure by (simp add: measure_def measure_default_def)
next
  fix s :: "u8 list" and n
  assume "MAX_FRAME S \<le> length s"
  then show "measure S s \<noteq> MMore n"
    using default_measure header_constants
    by (auto simp: measure_def measure_default_def spec_ok_def split: option.splits)
qed (fact header_constants header_no_scan header_candidate)+

text \<open>Two specs of the source's own tests: a length byte after a magic byte, with and without a scan.\<close>

definition stated_spec :: frame_spec where
  "stated_spec = \<lparr>CANDIDATE_LEN = 2, HEADER_LEN = 2, MAX_FRAME = 8, ON_CORRUPT = Resync,
     SCAN_PAST_INCOMPLETE = False, candidate = (\<lambda>bytes. bytes ! 0 = 0xAA),
     frame_len = (\<lambda>header. Some (unat (header ! 1))), measure_override = None,
     verify = (\<lambda>_. True), body = (\<lambda>frame. (2, length frame))\<rparr>"

definition headed_spec :: frame_spec where
  "headed_spec = \<lparr>CANDIDATE_LEN = 1, HEADER_LEN = 3, MAX_FRAME = 16, ON_CORRUPT = Resync,
     SCAN_PAST_INCOMPLETE = True, candidate = (\<lambda>bytes. bytes ! 0 = 0xAA),
     frame_len = (\<lambda>header. Some (unat (header ! 1))), measure_override = None,
     verify = (\<lambda>frame. frame ! 2 = 0), body = (\<lambda>frame. (3, length frame))\<rparr>"

interpretation stated: header_framing stated_spec
  by unfold_locales (auto simp: stated_spec_def spec_ok_def nth_append)

lemma headed_examples:
  "parse headed_spec [0xAA, 2, 0, 0] = PDesync 1 BadHeader"
  "parse headed_spec [0xAA, 10, 0, 0xAA, 0, 0] = PIncomplete 4"
  by (simp_all add: parse_def find_candidate.simps parse_candidate_def headed_spec_def measure_def
      measure_default_def incomplete_or_beyond_def complete_frame_beyond_def beyond_loop.simps)

end
