(* ===== verification/Decoding.thy ===== *)
theory Decoding
  imports Framing
begin

text \<open>
  The stream decoder (\<open>layline-core/src/frame.rs\<close>, \<open>Decoder\<close>): an \<open>N\<close>-byte buffer with the length of the
  bytes held, the length of the frame last returned, and saturating statistics. \<open>pop\<close>'s loop ends
  because every parse that is not an answer discards a byte, which depends on the spec's constants:
  it is a partial function, \<open>None\<close> when it does not end, and is proved to end for every spec
  a decoder accepts.

  The abstraction of a decoder is \<open>live\<close>, the bytes held that are not part of a returned frame.
\<close>

record stats =
  frames :: nat
  bytes_discarded :: nat
  checksum_errors :: nat
  bytes_refused :: nat
  unmeasurable :: nat

record decoder =
  dec_buf :: "u8 list"
  dec_len :: usize
  dec_spent :: usize
  dec_stats :: stats

definition no_stats :: stats where
  "no_stats = \<lparr>frames = 0, bytes_discarded = 0, checksum_errors = 0, bytes_refused = 0, unmeasurable = 0\<rparr>"

definition decoder_new :: "frame_spec \<Rightarrow> usize \<Rightarrow> decoder option" where
  "decoder_new S N =
     (if 1 \<le> CANDIDATE_LEN S \<and> CANDIDATE_LEN S \<le> HEADER_LEN S \<and> HEADER_LEN S \<le> MAX_FRAME S \<and> MAX_FRAME S \<le> N
      then Some \<lparr>dec_buf = replicate N 0, dec_len = 0, dec_spent = 0, dec_stats = no_stats\<rparr> else None)"

definition buffered :: "decoder \<Rightarrow> usize" where
  "buffered d = dec_len d - dec_spent d"

definition dec_consume :: "usize \<Rightarrow> decoder \<Rightarrow> decoder" where
  "dec_consume n d =
     d\<lparr>dec_buf := drop n (take (dec_len d) (dec_buf d)) @ drop (dec_len d - n) (dec_buf d),
       dec_len := dec_len d - n\<rparr>"

definition release :: "decoder \<Rightarrow> decoder" where
  "release d = (if 0 < dec_spent d then (dec_consume (dec_spent d) d)\<lparr>dec_spent := 0\<rparr> else d)"

definition dec_push :: "usize \<Rightarrow> decoder \<Rightarrow> u8 list \<Rightarrow> usize \<times> decoder" where
  "dec_push N d bytes =
     (let d1 = release d;
          taken = min (N - dec_len d1) (length bytes);
          d2 = d1\<lparr>dec_buf := take (dec_len d1) (dec_buf d1) @ take taken bytes @ drop (dec_len d1 + taken) (dec_buf d1),
                  dec_len := dec_len d1 + taken,
                  dec_stats := (dec_stats d1)\<lparr>bytes_refused :=
                    saturating_add_u64 (bytes_refused (dec_stats d1)) (length bytes - taken)\<rparr>\<rparr>
      in (taken, d2))"

text \<open>The statistics one discard counts.\<close>

definition count_desync :: "usize \<Rightarrow> desync_cause \<Rightarrow> stats \<Rightarrow> stats" where
  "count_desync n cause st =
     (let st1 = st\<lparr>bytes_discarded := saturating_add_u64 (bytes_discarded st) n\<rparr>
      in case cause of
           DChecksum \<Rightarrow> st1\<lparr>checksum_errors := saturating_add_u64 (checksum_errors st1) 1\<rparr>
         | DUnmeasurable \<Rightarrow> st1\<lparr>unmeasurable := saturating_add_u64 (unmeasurable st1) 1\<rparr>
         | _ \<Rightarrow> st1)"

definition count_frame :: "integrity \<Rightarrow> stats \<Rightarrow> stats" where
  "count_frame k st =
     (let st1 = st\<lparr>frames := saturating_add_u64 (frames st) 1\<rparr>
      in if k = Corrupt then st1\<lparr>checksum_errors := saturating_add_u64 (checksum_errors st1) 1\<rparr> else st1)"

partial_function (option) pop_loop :: "frame_spec \<Rightarrow> decoder \<Rightarrow> (popped option \<times> decoder) option" where
  "pop_loop S d =
     (case parse S (take (dec_len d) (dec_buf d)) of
        PDesync discard cause \<Rightarrow>
          (let n = min (max discard 1) (dec_len d)
           in pop_loop S (dec_consume n (d\<lparr>dec_stats := count_desync n cause (dec_stats d)\<rparr>)))
      | PIncomplete _ \<Rightarrow> Some (None, d)
      | PFrame consumed b k \<Rightarrow>
          Some (Some \<lparr>pop_frame = take consumed (dec_buf d),
                      pop_body = drop (fst b) (take (snd b) (dec_buf d)), pop_integrity = k\<rparr>,
                d\<lparr>dec_spent := consumed, dec_stats := count_frame k (dec_stats d)\<rparr>))"

definition pop :: "frame_spec \<Rightarrow> decoder \<Rightarrow> (popped option \<times> decoder) option" where
  "pop S d = pop_loop S (release d)"

section \<open>The bytes held\<close>

definition dec_ok :: "usize \<Rightarrow> decoder \<Rightarrow> bool" where
  "dec_ok N d \<longleftrightarrow> length (dec_buf d) = N \<and> dec_len d \<le> N \<and> dec_spent d \<le> dec_len d"

definition live :: "decoder \<Rightarrow> u8 list" where
  "live d = drop (dec_spent d) (take (dec_len d) (dec_buf d))"

lemma length_live: "dec_ok N d \<Longrightarrow> length (live d) = buffered d"
  by (auto simp: live_def buffered_def dec_ok_def)

lemma dec_consume_props:
  assumes "dec_ok N d" "dec_spent d = 0" "n \<le> dec_len d"
  shows "dec_ok N (dec_consume n d)" "live (dec_consume n d) = drop n (live d)"
    "dec_spent (dec_consume n d) = 0" "dec_stats (dec_consume n d) = dec_stats d"
  using assms by (auto simp: dec_ok_def dec_consume_def live_def)

lemma release_props:
  assumes "dec_ok N d"
  shows "dec_ok N (release d)" "live (release d) = live d" "dec_spent (release d) = 0"
    "dec_stats (release d) = dec_stats d"
  using assms by (auto simp: dec_ok_def release_def dec_consume_def live_def)

lemma dec_push_props:
  assumes "dec_ok N d" "dec_push N d bytes = (n, d')"
  shows "dec_ok N d'" "live d' = live d @ take n bytes" "n = min (N - buffered d) (length bytes)"
    "dec_spent d' = 0"
    "dec_stats d' = (dec_stats d)\<lparr>bytes_refused := saturating_add_u64 (bytes_refused (dec_stats d)) (length bytes - n)\<rparr>"
proof -
  note r = release_props [OF assms(1)]
  have len: "dec_len (release d) = buffered d"
    using length_live [OF r(1)] length_live [OF assms(1)] r(2,3) by (simp add: buffered_def)
  have n: "n = min (N - dec_len (release d)) (length bytes)"
    and d': "d' = (release d)\<lparr>dec_buf := take (dec_len (release d)) (dec_buf (release d)) @ take n bytes
          @ drop (dec_len (release d) + n) (dec_buf (release d)),
        dec_len := dec_len (release d) + n,
        dec_stats := (dec_stats (release d))\<lparr>bytes_refused :=
          saturating_add_u64 (bytes_refused (dec_stats (release d))) (length bytes - n)\<rparr>\<rparr>"
    using assms(2) by (auto simp: dec_push_def Let_def)
  show "n = min (N - buffered d) (length bytes)" using n len by simp
  show "dec_spent d' = 0" "dec_stats d' = (dec_stats d)\<lparr>bytes_refused :=
      saturating_add_u64 (bytes_refused (dec_stats d)) (length bytes - n)\<rparr>"
    using r by (simp_all add: d')
  show "dec_ok N d'" using r n by (auto simp: dec_ok_def d')
  show "live d' = live d @ take n bytes"
    unfolding r(2) [symmetric] using r(1,3) n by (auto simp: live_def d' dec_ok_def)
qed

section \<open>What \<open>pop\<close> does to the bytes held\<close>

text \<open>
  The discards of one \<open>pop\<close> on the bytes alone: how many go, by what causes, and the answer that
  ends it.
\<close>

function scan_pop :: "frame_spec \<Rightarrow> u8 list \<Rightarrow> (usize \<times> desync_cause) list \<times> parsed" where
  "scan_pop S s =
     (case parse S s of
        PDesync n cause \<Rightarrow>
          if n = 0 \<or> s = [] then ([], PIncomplete 0)
          else case scan_pop S (drop n s) of (ds, r) \<Rightarrow> ((n, cause) # ds, r)
      | r \<Rightarrow> ([], r))"
  by pat_completeness auto
termination
  by (relation "Wellfounded.measure (\<lambda>(S, s). length s)") auto

declare scan_pop.simps [simp del]

definition discards :: "(usize \<times> desync_cause) list \<Rightarrow> usize" where
  "discards ds = sum_list (map fst ds)"

definition count_desyncs :: "(usize \<times> desync_cause) list \<Rightarrow> stats \<Rightarrow> stats" where
  "count_desyncs ds st = foldl (\<lambda>st (n, cause). count_desync n cause st) st ds"

lemma discards_simps [simp]: "discards [] = 0" "discards ((n, c) # ds) = n + discards ds"
  by (simp_all add: discards_def)

lemma count_desyncs_simps [simp]:
  "count_desyncs [] st = st" "count_desyncs ((n, c) # ds) st = count_desyncs ds (count_desync n c st)"
  by (simp_all add: count_desyncs_def)

lemma scan_pop_spec:
  assumes "spec_ok S" "scan_pop S s = (ds, r)"
  shows "discards ds \<le> length s \<and> parse S (drop (discards ds) s) = r \<and> (\<forall>n cause. r \<noteq> PDesync n cause)"
  using assms(2)
proof (induction "length s" arbitrary: s ds rule: less_induct)
  case less
  show ?case
  proof (cases "parse S s")
    case (PDesync n cause)
    have n: "1 \<le> n" "n \<le> length s" using parse_desync [OF assms(1) PDesync] by auto
    obtain ds' where ds': "scan_pop S (drop n s) = (ds', r)" "ds = (n, cause) # ds'"
      using less.prems PDesync n by (auto simp: scan_pop.simps [of S s] split: prod.splits if_splits)
    have "length (drop n s) < length s" using n by simp
    from less.hyps [OF this ds'(1)] n ds'(2) show ?thesis by (auto simp: add.commute)
  qed (use less.prems in \<open>auto simp: scan_pop.simps [of S s]\<close>)
qed

lemma live_unspent: "dec_spent d = 0 \<Longrightarrow> take (dec_len d) (dec_buf d) = live d"
  by (simp add: live_def)

text \<open>The loop ends, discards what \<open>scan_pop\<close> discards, counts it, and answers what it answers.\<close>

lemma pop_loop_scan:
  assumes "spec_ok S" "dec_ok N d" "dec_spent d = 0" "scan_pop S (live d) = (ds, r)"
  shows "\<exists>d'. dec_ok N d' \<and> dec_spent d' = 0 \<and> live d' = drop (discards ds) (live d)
    \<and> dec_stats d' = count_desyncs ds (dec_stats d)
    \<and> pop_loop S d = (case r of
        PFrame c b k \<Rightarrow> Some (Some \<lparr>pop_frame = take c (dec_buf d'),
              pop_body = drop (fst b) (take (snd b) (dec_buf d')), pop_integrity = k\<rparr>,
            d'\<lparr>dec_spent := c, dec_stats := count_frame k (dec_stats d')\<rparr>)
      | _ \<Rightarrow> Some (None, d'))"
  using assms(2-4)
proof (induction "length (live d)" arbitrary: d ds rule: less_induct)
  case less
  note step = pop_loop.simps [of S d, unfolded live_unspent [OF less.prems(2)]]
  show ?case
  proof (cases "parse S (live d)")
    case (PDesync n cause)
    define e where "e = d\<lparr>dec_stats := count_desync n cause (dec_stats d)\<rparr>"
    have n: "1 \<le> n" "n \<le> length (live d)" using parse_desync [OF assms(1) PDesync] by auto
    then have len: "n \<le> dec_len d" using length_live [OF less.prems(1)] less.prems(2) by (simp add: buffered_def)
    have e: "dec_ok N e" "dec_spent e = 0" "live e = live d" "n \<le> dec_len e"
      using less.prems(1,2) len by (simp_all add: e_def dec_ok_def live_def)
    obtain ds' where ds': "scan_pop S (drop n (live d)) = (ds', r)" "ds = (n, cause) # ds'"
      using less.prems(3) PDesync n by (auto simp: scan_pop.simps [of S "live d"] split: prod.splits if_splits)
    note c = dec_consume_props [OF e(1,2,4)]
    have "length (live (dec_consume n e)) < length (live d)" using c(2) e(3) n by simp
    from less.hyps [OF this c(1,3), of ds'] ds' c(2) e(3)
    obtain d' where d': "dec_ok N d'" "dec_spent d' = 0" "live d' = drop (discards ds') (drop n (live d))"
      "dec_stats d' = count_desyncs ds' (dec_stats (dec_consume n e))"
      "pop_loop S (dec_consume n e) = (case r of
        PFrame c b k \<Rightarrow> Some (Some \<lparr>pop_frame = take c (dec_buf d'),
              pop_body = drop (fst b) (take (snd b) (dec_buf d')), pop_integrity = k\<rparr>,
            d'\<lparr>dec_spent := c, dec_stats := count_frame k (dec_stats d')\<rparr>)
      | _ \<Rightarrow> Some (None, d'))"
      by auto
    have "min (max n 1) (dec_len d) = n" using n len by simp
    then have "pop_loop S d = pop_loop S (dec_consume n e)"
      by (simp add: step PDesync e_def)
    moreover have "dec_stats (dec_consume n e) = count_desync n cause (dec_stats d)"
      using c(4) by (simp add: e_def)
    ultimately show ?thesis
      using d' ds'(2) by (intro exI [of _ d']) (simp add: add.commute)
  next
    case (PIncomplete n)
    then have "ds = []" "r = PIncomplete n" using less.prems(3) by (simp_all add: scan_pop.simps [of S "live d"])
    then show ?thesis using less.prems PIncomplete by (intro exI [of _ d]) (simp add: step)
  next
    case (PFrame c b k)
    then have "ds = []" "r = PFrame c b k" using less.prems(3) by (simp_all add: scan_pop.simps [of S "live d"])
    then show ?thesis using less.prems PFrame by (intro exI [of _ d]) (simp add: step)
  qed
qed

lemma pop_scan:
  assumes "spec_ok S" "dec_ok N d" "scan_pop S (live d) = (ds, r)"
  shows "\<exists>d'. dec_ok N d'
    \<and> (case r of
         PFrame c b k \<Rightarrow> pop S d = Some (Some (popped_of (drop (discards ds) (live d)) c b k), d')
           \<and> live d' = drop (discards ds + c) (live d) \<and> dec_spent d' = c
           \<and> dec_stats d' = count_frame k (count_desyncs ds (dec_stats d))
       | _ \<Rightarrow> pop S d = Some (None, d') \<and> live d' = drop (discards ds) (live d)
           \<and> dec_spent d' = 0 \<and> dec_stats d' = count_desyncs ds (dec_stats d))"
proof -
  note rel = release_props [OF assms(2)]
  have scan: "scan_pop S (live (release d)) = (ds, r)" using assms(3) rel(2) by simp
  from pop_loop_scan [OF assms(1) rel(1,3) scan] obtain d1 where
    d1: "dec_ok N d1" "dec_spent d1 = 0" "live d1 = drop (discards ds) (live d)"
      "dec_stats d1 = count_desyncs ds (dec_stats d)"
      "pop S d = (case r of
        PFrame c b k \<Rightarrow> Some (Some \<lparr>pop_frame = take c (dec_buf d1),
              pop_body = drop (fst b) (take (snd b) (dec_buf d1)), pop_integrity = k\<rparr>,
            d1\<lparr>dec_spent := c, dec_stats := count_frame k (dec_stats d1)\<rparr>)
      | _ \<Rightarrow> Some (None, d1))"
    unfolding rel pop_def by blast
  show ?thesis
  proof (cases r)
    case (PFrame c b k)
    have p: "parse S (live d1) = PFrame c b k"
      using scan_pop_spec [OF assms(1,3)] PFrame d1(3) by simp
    obtain bs be where b: "b = (bs, be)" by (cases b)
    have c: "c \<le> length (live d1)" "be \<le> c" using parse_frame [OF p [unfolded b]] by auto
    then have "c \<le> dec_len d1" "be \<le> dec_len d1"
      using length_live [OF d1(1)] d1(2) by (simp_all add: buffered_def)
    moreover have "live d1 = take (dec_len d1) (dec_buf d1)" using d1(2) by (simp add: live_def)
    ultimately have "\<lparr>pop_frame = take c (dec_buf d1), pop_body = drop (fst b) (take (snd b) (dec_buf d1)),
        pop_integrity = k\<rparr> = popped_of (live d1) c b k"
      by (simp add: popped_of_def b min_def)
    with PFrame d1 \<open>c \<le> dec_len d1\<close> show ?thesis
      by (intro exI [of _ "d1\<lparr>dec_spent := c, dec_stats := count_frame k (dec_stats d1)\<rparr>"])
        (auto simp: dec_ok_def live_def ac_simps)
  next
    case (PIncomplete n)
    with d1 show ?thesis by (intro exI [of _ d1]) simp
  next
    case (PDesync n cause)
    with scan_pop_spec [OF assms(1,3)] show ?thesis by blast
  qed
qed

end
