(* ===== verification/Sessions.thy ===== *)
theory Sessions
  imports Decoding
begin

text \<open>
  Decoders in use (\<open>layline-core/src/frame.rs\<close>): the states a decoder can reach by pushes and pops
  in any order, the accounting that holds in each of them, and what a reader gets that pops until
  nothing is left after every push.
\<close>

section \<open>Sessions\<close>

text \<open>
  \<open>session S N d accepted returned\<close>: after some pushes that accepted \<open>accepted\<close> bytes in total, and
  pops that returned \<open>returned\<close>, the decoder is \<open>d\<close>.
\<close>

inductive session :: "frame_spec \<Rightarrow> usize \<Rightarrow> decoder \<Rightarrow> nat \<Rightarrow> popped list \<Rightarrow> bool" for S N where
  start: "decoder_new S N = Some d \<Longrightarrow> session S N d 0 []"
| push: "session S N d t fs \<Longrightarrow> dec_push N d bytes = (n, d') \<Longrightarrow> session S N d' (t + n) fs"
| pop: "session S N d t fs \<Longrightarrow> pop S d = Some (r, d') \<Longrightarrow>
    session S N d' t (fs @ (case r of None \<Rightarrow> [] | Some p \<Rightarrow> [p]))"

inductive_cases session_startE: "session S N d 0 []"

definition frame_bytes :: "popped list \<Rightarrow> nat" where
  "frame_bytes fs = sum_list (map (length \<circ> pop_frame) fs)"

text \<open>What is true of every frame a decoder returns.\<close>

definition good_frame :: "frame_spec \<Rightarrow> popped \<Rightarrow> bool" where
  "good_frame S p \<longleftrightarrow>
     HEADER_LEN S \<le> length (pop_frame p) \<and> length (pop_frame p) \<le> MAX_FRAME S
     \<and> (case body S (pop_frame p) of (bs, be) \<Rightarrow> bs \<le> be \<and> be \<le> length (pop_frame p)
          \<and> pop_body p = drop bs (take be (pop_frame p)))
     \<and> (if verify S (pop_frame p) then pop_integrity p = Verified
        else pop_integrity p = Corrupt \<and> ON_CORRUPT S = Consume)"

lemma good_frame_parse:
  assumes "parse S s = PFrame c b k"
  shows "good_frame S (popped_of s c b k)"
proof -
  obtain bs be where b: "b = (bs, be)" by (cases b)
  from parse_frame [OF assms [unfolded b]] show ?thesis
    by (cases k) (auto simp: good_frame_def popped_of_def b min_def)
qed

lemma decoder_new_props:
  assumes "decoder_new S N = Some d"
  shows "spec_ok S" "dec_ok N d" "live d = []" "dec_stats d = no_stats" "MAX_FRAME S \<le> N"
  using assms by (auto simp: decoder_new_def spec_ok_def dec_ok_def live_def split: if_splits)

lemma count_desync_fields:
  "bytes_discarded (count_desync n c st) = saturating_add_u64 (bytes_discarded st) n"
  "frames (count_desync n c st) = frames st" "bytes_refused (count_desync n c st) = bytes_refused st"
  by (auto simp: count_desync_def Let_def split: desync_cause.splits)

lemma count_frame_fields:
  "bytes_discarded (count_frame k st) = bytes_discarded st"
  "frames (count_frame k st) = saturating_add_u64 (frames st) 1" "bytes_refused (count_frame k st) = bytes_refused st"
  by (auto simp: count_frame_def Let_def)

lemma count_desyncs_fields:
  "bytes_discarded st + discards ds \<le> u64_max \<Longrightarrow>
     bytes_discarded (count_desyncs ds st) = bytes_discarded st + discards ds"
  "frames (count_desyncs ds st) = frames st" "bytes_refused (count_desyncs ds st) = bytes_refused st"
  by (induction ds arbitrary: st) (auto simp: count_desync_fields saturating_add_u64_def)

text \<open>
  The accounting: every accepted byte is in a returned frame, discarded and counted, or still held;
  the counters are exact until they would pass 64 bits.
\<close>

definition accounted :: "usize \<Rightarrow> decoder \<Rightarrow> nat \<Rightarrow> popped list \<Rightarrow> bool" where
  "accounted N d t fs \<longleftrightarrow>
     dec_ok N d \<and> (t \<le> u64_max \<longrightarrow>
       t = frame_bytes fs + bytes_discarded (dec_stats d) + buffered d \<and> frames (dec_stats d) = length fs)"

lemma session_spec_ok: "session S N d t fs \<Longrightarrow> spec_ok S"
  by (induction rule: session.induct) (auto dest: decoder_new_props)

lemma frames_bounded: "\<forall>p \<in> set fs. 1 \<le> length (pop_frame p) \<Longrightarrow> length fs \<le> frame_bytes fs"
  by (induction fs) (auto simp: frame_bytes_def)

lemma accounted_push:
  assumes "accounted N d t fs" "dec_push N d bytes = (n, d')"
  shows "accounted N d' (t + n) fs"
proof -
  have ok: "dec_ok N d" using assms(1) by (simp add: accounted_def)
  note p = dec_push_props [OF ok assms(2)]
  have "buffered d' = buffered d + n"
    using length_live [OF p(1)] length_live [OF ok] p(2,3) by simp
  then show ?thesis using assms(1) p(1,5) by (auto simp: accounted_def)
qed

lemma accounted_pop:
  assumes "accounted N d t fs" "spec_ok S" "\<forall>p \<in> set fs. good_frame S p" "pop S d = Some (r, d')"
  shows "accounted N d' t (fs @ (case r of None \<Rightarrow> [] | Some p \<Rightarrow> [p]))
    \<and> (\<forall>p. r = Some p \<longrightarrow> good_frame S p)"
proof -
  have ok: "dec_ok N d" using assms(1) by (simp add: accounted_def)
  obtain ds a where scan: "scan_pop S (live d) = (ds, a)" by fastforce
  note end_parse = scan_pop_spec [OF assms(2) scan]
  from pop_scan [OF assms(2) ok scan] assms(4) have d': "dec_ok N d'"
    by (cases a) auto
  have held: "discards ds \<le> buffered d" using end_parse length_live [OF ok] by simp
  have fs: "length fs \<le> frame_bytes fs"
    using assms(2,3) by (intro frames_bounded) (auto simp: good_frame_def spec_ok_def)
  show ?thesis
  proof (cases a)
    case (PFrame c b k)
    define p where "p = popped_of (drop (discards ds) (live d)) c b k"
    have r: "r = Some p" "live d' = drop (discards ds + c) (live d)"
      "dec_stats d' = count_frame k (count_desyncs ds (dec_stats d))"
      using pop_scan [OF assms(2) ok scan] assms(4) PFrame by (auto simp: p_def)
    have good: "good_frame S p"
      unfolding p_def using end_parse PFrame by (intro good_frame_parse) simp
    have c: "c \<le> length (live d) - discards ds" and "1 \<le> c"
      using parse_frame [of S "drop (discards ds) (live d)" c "fst b" "snd b" k] end_parse PFrame assms(2)
      by (auto simp: spec_ok_def)
    then have "frame_bytes (fs @ [p]) = frame_bytes fs + c" by (simp add: frame_bytes_def p_def popped_of_def)
    moreover have "buffered d' = buffered d - (discards ds + c)"
      using length_live [OF d'] length_live [OF ok] r(2) by simp
    moreover have "bytes_discarded (dec_stats d') = bytes_discarded (dec_stats d) + discards ds"
      if "t \<le> u64_max"
      using assms(1) that held unfolding r(3) count_frame_fields
      by (subst count_desyncs_fields) (auto simp: accounted_def)
    moreover have "frames (dec_stats d') = Suc (length fs)" if "t \<le> u64_max"
      using assms(1) that fs c \<open>1 \<le> c\<close> held length_live [OF ok]
      unfolding r(3) count_frame_fields count_desyncs_fields
      by (auto simp: accounted_def saturating_add_u64_def)
    ultimately show ?thesis
      using assms(1) d' r(1) good c held length_live [OF ok] by (auto simp: accounted_def)
  next
    case (PIncomplete n)
    have r: "r = None" "live d' = drop (discards ds) (live d)" "dec_stats d' = count_desyncs ds (dec_stats d)"
      using pop_scan [OF assms(2) ok scan] assms(4) PIncomplete by auto
    have "buffered d' = buffered d - discards ds"
      using length_live [OF d'] length_live [OF ok] r(2) by simp
    moreover have "bytes_discarded (dec_stats d') = bytes_discarded (dec_stats d) + discards ds"
      if "t \<le> u64_max"
      using assms(1) that held unfolding r(3) by (subst count_desyncs_fields) (auto simp: accounted_def)
    ultimately show ?thesis
      using assms(1) d' r(1) held by (auto simp: accounted_def r(3) count_desyncs_fields(2))
  next
    case (PDesync n cause)
    with end_parse show ?thesis by blast
  qed
qed

lemma session_accounted: "session S N d t fs \<Longrightarrow> accounted N d t fs \<and> (\<forall>p \<in> set fs. good_frame S p)"
proof (induction rule: session.induct)
  case (start d)
  then show ?case
    using decoder_new_props [OF start] length_live [of N d]
    by (auto simp: accounted_def frame_bytes_def no_stats_def buffered_def)
next
  case (push d t fs bytes n d')
  then show ?case using accounted_push by blast
next
  case (pop d t fs r d')
  have "accounted N d' t (fs @ (case r of None \<Rightarrow> [] | Some p \<Rightarrow> [p]))
      \<and> (\<forall>p. r = Some p \<longrightarrow> good_frame S p)"
    by (rule accounted_pop) (use pop session_spec_ok in auto)
  with pop.IH show ?case by (auto split: option.splits)
qed

section \<open>Reading everything after every push\<close>

partial_function (option) pop_all :: "frame_spec \<Rightarrow> decoder \<Rightarrow> (popped list \<times> decoder) option" where
  "pop_all S d =
     (case pop S d of
        None \<Rightarrow> None
      | Some (r, d') \<Rightarrow>
          (case r of
             None \<Rightarrow> Some ([], d')
           | Some p \<Rightarrow> Option.bind (pop_all S d') (\<lambda>(ps, e). Some (p # ps, e))))"

fun read_stream :: "frame_spec \<Rightarrow> usize \<Rightarrow> decoder \<Rightarrow> u8 list list \<Rightarrow> (popped list \<times> decoder) option" where
  "read_stream S N d [] = Some ([], d)"
| "read_stream S N d (chunk # chunks) =
     (case pop_all S (snd (dec_push N d chunk)) of
        None \<Rightarrow> None
      | Some (ps, d') \<Rightarrow> map_option (\<lambda>(qs, e). (ps @ qs, e)) (read_stream S N d' chunks))"

text \<open>One \<open>pop\<close> is the first frame of the reference, for a spec that does not scan ahead.\<close>

lemma scan_pop_drain:
  assumes "spec_ok S" "\<not> SCAN_PAST_INCOMPLETE S" "scan_pop S s = (ds, r)"
  shows "case r of PFrame c b k \<Rightarrow>
        drain S s = (case drain S (drop (discards ds + c) s) of (fs, l) \<Rightarrow> (popped_of (drop (discards ds) s) c b k # fs, l))
      | _ \<Rightarrow> drain S s = ([], drop (discards ds) s)"
  using assms(3)
proof (induction "length s" arbitrary: s ds rule: less_induct)
  case less
  have agree: "agrees S s (parse S s)" by (rule parse_verdict [OF assms(1,2)])
  show ?case
  proof (cases "parse S s")
    case (PDesync n cause)
    have n: "1 \<le> n" "n \<le> length s" using parse_desync [OF assms(1) PDesync] by auto
    obtain ds' where ds': "scan_pop S (drop n s) = (ds', r)" "ds = (n, cause) # ds'"
      using less.prems PDesync n by (auto simp: scan_pop.simps [of S s] split: prod.splits if_splits)
    have "drain S s = drain S (drop n s)"
      using agree PDesync by (intro drain_skips [OF assms(1), of n s cause]) (simp add: agrees_def)
    moreover have "length (drop n s) < length s" using n by simp
    ultimately show ?thesis
      using less.hyps [of "drop n s" ds'] ds' by (cases r) (simp_all add: ac_simps)
  next
    case (PIncomplete n)
    then have "ds = []" "r = PIncomplete n" using less.prems by (simp_all add: scan_pop.simps [of S s])
    then show ?thesis using agree PIncomplete by (simp add: agrees_def)
  next
    case (PFrame c b k)
    then have "ds = []" "r = PFrame c b k" using less.prems by (simp_all add: scan_pop.simps [of S s])
    then show ?thesis using agree PFrame drain_take [OF assms(1), of s c b k] by (simp add: agrees_def)
  qed
qed

lemma count_desyncs_refused: "bytes_refused (count_desyncs ds st) = bytes_refused st"
  by (induction ds arbitrary: st) (auto simp: count_desync_fields)

lemma pop_all_drain:
  assumes "spec_ok S" "\<not> SCAN_PAST_INCOMPLETE S" "dec_ok N d"
  shows "\<exists>d'. pop_all S d = Some (fst (drain S (live d)), d') \<and> dec_ok N d' \<and> live d' = snd (drain S (live d))
    \<and> bytes_refused (dec_stats d') = bytes_refused (dec_stats d)"
  using assms(3)
proof (induction "length (live d)" arbitrary: d rule: less_induct)
  case less
  obtain ds r where scan: "scan_pop S (live d) = (ds, r)" by fastforce
  note drains = scan_pop_drain [OF assms(1,2) scan] and end_parse = scan_pop_spec [OF assms(1) scan]
  show ?case
  proof (cases r)
    case (PFrame c b k)
    define p where "p = popped_of (drop (discards ds) (live d)) c b k"
    from pop_scan [OF assms(1) less.prems scan] PFrame obtain d1 where d1: "dec_ok N d1"
      "pop S d = Some (Some p, d1)" "live d1 = drop (discards ds + c) (live d)"
      "dec_stats d1 = count_frame k (count_desyncs ds (dec_stats d))"
      by (auto simp: p_def)
    have "1 \<le> c" "c \<le> length (live d) - discards ds"
      using parse_frame [of S "drop (discards ds) (live d)" c "fst b" "snd b" k] end_parse PFrame assms(1)
      by (auto simp: spec_ok_def)
    then have "length (live d1) < length (live d)" using d1(3) by simp
    from less.hyps [OF this d1(1)] obtain d2 where d2:
      "pop_all S d1 = Some (fst (drain S (live d1)), d2)" "dec_ok N d2" "live d2 = snd (drain S (live d1))"
      "bytes_refused (dec_stats d2) = bytes_refused (dec_stats d1)"
      by blast
    have "drain S (live d) = (p # fst (drain S (live d1)), snd (drain S (live d1)))"
      using drains PFrame d1(3) by (simp add: p_def split: prod.splits)
    moreover have "bytes_refused (dec_stats d1) = bytes_refused (dec_stats d)"
      unfolding d1(4) count_frame_fields by (rule count_desyncs_refused)
    ultimately show ?thesis
      using d1(2) d2 by (intro exI [of _ d2]) (simp add: pop_all.simps [of S d])
  next
    case (PIncomplete n)
    from pop_scan [OF assms(1) less.prems scan] PIncomplete obtain d1 where "dec_ok N d1"
      "pop S d = Some (None, d1)" "live d1 = drop (discards ds) (live d)"
      "dec_stats d1 = count_desyncs ds (dec_stats d)"
      by auto
    with drains PIncomplete show ?thesis
      by (intro exI [of _ d1]) (simp add: pop_all.simps [of S d] count_desyncs_refused)
  next
    case (PDesync n cause)
    with end_parse show ?thesis by blast
  qed
qed

text \<open>
  After a full read less than one frame is held, so a chunk of up to \<open>N - MAX_FRAME + 1\<close> bytes always
  fits.
\<close>

context stable_framing
begin

lemma read_stream_drain:
  assumes "dec_ok N d" "MAX_FRAME S \<le> N" "verdict S (live d) = Wait"
    and "list_all (\<lambda>c. length c \<le> N - MAX_FRAME S + 1) chunks" "bytes_refused (dec_stats d) \<le> u64_max"
  shows "\<exists>d'. read_stream S N d chunks = Some (fst (drain S (live d @ concat chunks)), d')
    \<and> live d' = snd (drain S (live d @ concat chunks))
    \<and> bytes_refused (dec_stats d') = bytes_refused (dec_stats d)"
  using assms(1,3,4,5)
proof (induction chunks arbitrary: d)
  case (Cons c cs)
  obtain n d1 where push: "dec_push N d c = (n, d1)" by fastforce
  note p = dec_push_props [OF Cons.prems(1) push]
  have "buffered d < MAX_FRAME S"
    using verdict_wait [OF constants Cons.prems(2)] length_live [OF Cons.prems(1)] by simp
  moreover have "length c \<le> N - MAX_FRAME S + 1" using Cons.prems(3) by simp
  ultimately have "length c \<le> N - buffered d" using assms(2) by linarith
  then have n: "n = length c" using p(3) by simp
  then have held: "live d1 = live d @ c" using p(2) by simp
  have refused: "bytes_refused (dec_stats d1) = bytes_refused (dec_stats d)"
    using p(5) n Cons.prems(4) by (simp add: saturating_add_u64_def)
  from pop_all_drain [OF constants no_scan p(1)] obtain d2 where d2:
    "pop_all S d1 = Some (fst (drain S (live d @ c)), d2)" "dec_ok N d2" "live d2 = snd (drain S (live d @ c))"
    "bytes_refused (dec_stats d2) = bytes_refused (dec_stats d1)"
    unfolding held by blast
  have "verdict S (live d2) = Wait" unfolding d2(3) by (rule drain_left [OF constants])
  from Cons.IH [OF d2(2) this] Cons.prems(3,4) d2(4) refused obtain d3 where d3:
    "read_stream S N d2 cs = Some (fst (drain S (live d2 @ concat cs)), d3)"
    "live d3 = snd (drain S (live d2 @ concat cs))" "bytes_refused (dec_stats d3) = bytes_refused (dec_stats d2)"
    by auto
  show ?case
    using d2 d3 push drain_append [of "live d @ c" "concat cs"] refused
    by (auto split: prod.splits)
qed auto

end

section \<open>The bytes an incomplete parse asks for\<close>

lemma parse_cases:
  "parse S buf =
     (if length buf < CANDIDATE_LEN S then PIncomplete (CANDIDATE_LEN S - length buf)
      else if candidate S buf then parse_candidate S buf
      else PDesync (snd (find_candidate S buf 1)) NoCandidate)"
proof (cases "length buf < CANDIDATE_LEN S \<or> candidate S buf")
  case True
  then show ?thesis by (auto simp: parse_def find_candidate.simps [of S buf 0])
next
  case False
  obtain found i where f: "find_candidate S buf 1 = (found, i)" by fastforce
  then have "1 \<le> i" using find_candidate_spec by blast
  with False f show ?thesis by (simp add: parse_def find_candidate.simps [of S buf 0])
qed

context header_framing
begin

lemma header_stable: "stable_framing S"
  by unfold_locales

lemma need_is_lower_bound:
  assumes "parse S buf = PIncomplete need" "length more_bytes < need"
  shows "\<exists>n. parse S (buf @ more_bytes) = PIncomplete n"
proof (cases "length buf < CANDIDATE_LEN S")
  case True
  then have "length (buf @ more_bytes) < CANDIDATE_LEN S" using assms by (simp add: parse_cases [of S buf])
  then show ?thesis by (simp add: parse_cases)
next
  case False
  then have cand: "candidate S buf" "candidate S (buf @ more_bytes)"
    using assms(1) header_candidate [of buf more_bytes] by (auto simp: parse_cases [of S buf] split: if_splits)
  have pc: "parse_candidate S buf = PIncomplete need"
    "parse S (buf @ more_bytes) = parse_candidate S (buf @ more_bytes)"
    using assms(1) False cand by (simp_all add: parse_cases)
  show ?thesis
  proof (cases "length buf < HEADER_LEN S")
    case True
    then have "need = HEADER_LEN S - length buf"
      using pc(1) default_measure header_no_scan header_constants
      by (auto simp: parse_candidate_def measure_def measure_default_def incomplete_or_beyond_def spec_ok_def
          split: if_splits)
    then have "length (buf @ more_bytes) < HEADER_LEN S" using assms(2) by simp
    then show ?thesis
      unfolding pc(2) using default_measure header_no_scan header_constants
      by (auto simp: parse_candidate_def measure_def measure_default_def incomplete_or_beyond_def spec_ok_def)
  next
    case False
    then show ?thesis
      using pc(1) assms(2) default_measure header_no_scan unfolding pc(2)
      by (auto simp: parse_candidate_def measure_def measure_default_def incomplete_or_beyond_def Let_def
          split: if_splits option.splits prod.splits corrupt_policy.splits)
  qed
qed

end

section \<open>Properties\<close>

text \<open>C4: \<open>pop\<close> ends in every state a decoder can reach. It drops some bytes from the front of those
  held and then either returns the frame that starts there, taking it off, or nothing because
  \<open>parse\<close> asks for more bytes.\<close>

theorem pop_ends:
  assumes "session S N d t fs"
  shows "\<exists>k d'. k \<le> buffered d \<and> dec_ok N d'
    \<and> ((pop S d = Some (None, d') \<and> live d' = drop k (live d) \<and> (\<exists>need. parse S (live d') = PIncomplete need))
      \<or> (\<exists>p c b i. pop S d = Some (Some p, d') \<and> pop_frame p @ live d' = drop k (live d)
           \<and> parse S (drop k (live d)) = PFrame c b i \<and> length (pop_frame p) = c))"
proof -
  have ok: "spec_ok S" "dec_ok N d" using session_spec_ok [OF assms] session_accounted [OF assms]
    by (simp_all add: accounted_def)
  obtain ds r where scan: "scan_pop S (live d) = (ds, r)" by fastforce
  note end_parse = scan_pop_spec [OF ok(1) scan]
  have k: "discards ds \<le> buffered d" using end_parse length_live [OF ok(2)] by simp
  from pop_scan [OF ok scan] obtain d' where d': "dec_ok N d'" "case r of
         PFrame c b k \<Rightarrow> pop S d = Some (Some (popped_of (drop (discards ds) (live d)) c b k), d')
           \<and> live d' = drop (discards ds + c) (live d) \<and> dec_spent d' = c
           \<and> dec_stats d' = count_frame k (count_desyncs ds (dec_stats d))
       | _ \<Rightarrow> pop S d = Some (None, d') \<and> live d' = drop (discards ds) (live d)
           \<and> dec_spent d' = 0 \<and> dec_stats d' = count_desyncs ds (dec_stats d)"
    by blast
  show ?thesis
  proof (cases r)
    case (PFrame c b i)
    have "c \<le> length (drop (discards ds) (live d))"
      using parse_frame [of S "drop (discards ds) (live d)" c "fst b" "snd b" i] end_parse PFrame by simp
    then have "length (take c (drop (discards ds) (live d))) = c" by simp
    moreover have "take c (drop (discards ds) (live d)) @ drop (discards ds + c) (live d) = drop (discards ds) (live d)"
      by (metis add.commute append_take_drop_id drop_drop)
    ultimately show ?thesis
      using PFrame d' k end_parse
      by (intro exI [of _ "discards ds"] exI [of _ d']) (auto simp: popped_of_def)
  next
    case (PIncomplete n)
    then show ?thesis
      using d' k end_parse by (intro exI [of _ "discards ds"] exI [of _ d']) auto
  next
    case (PDesync n cause)
    with end_parse show ?thesis by blast
  qed
qed

lemma stated_holding:
  assumes "length bytes \<le> 8"
  shows "\<exists>d. session stated_spec 8 d (length bytes) [] \<and> live d = bytes"
proof -
  obtain d where d: "decoder_new stated_spec 8 = Some d"
    by (simp add: decoder_new_def stated_spec_def)
  note new = decoder_new_props [OF d]
  obtain n e where push: "dec_push 8 d bytes = (n, e)" by fastforce
  note p = dec_push_props [OF new(2) push]
  have "n = length bytes" using p(3) assms length_live [OF new(2)] new(3) by simp
  then have "session stated_spec 8 e (length bytes) []"
    using session.push [OF session.start [OF d] push] by simp
  then show ?thesis using p(2) new(3) \<open>n = length bytes\<close> by auto
qed

lemma stated_holding_3: "\<exists>d. session stated_spec 8 d 3 [] \<and> live d = [a, b, c]"
  using stated_holding [of "[a, b, c]"] by (simp add: numeral_3_eq_3)

theorem pop_ends_witness:
  "\<exists>d r d'. session stated_spec 8 d 3 [] \<and> pop stated_spec d = Some (r, d')"
proof -
  from stated_holding_3 [of "0xAA" 3 7] obtain d where "session stated_spec 8 d 3 []" by blast
  with pop_ends [OF this] show ?thesis by blast
qed

text \<open>C2: the accounting of a decoder over any pushes and pops: every accepted byte is in a returned
  frame, discarded and counted, or still held, and the frame counter is the number of frames
  returned, as long as the totals fit 64 bits.\<close>

theorem no_byte_lost:
  assumes "session S N d t fs" "t \<le> u64_max"
  shows "t = frame_bytes fs + bytes_discarded (dec_stats d) + buffered d
    \<and> frames (dec_stats d) = length fs \<and> buffered d \<le> N"
proof -
  have "accounted N d t fs" using session_accounted [OF assms(1)] by simp
  then show ?thesis using assms(2) by (auto simp: accounted_def dec_ok_def buffered_def)
qed

theorem no_byte_lost_witness:
  "\<exists>d. session stated_spec 8 d 3 [] \<and> 3 = frame_bytes [] + bytes_discarded (dec_stats d) + buffered d"
proof -
  from stated_holding_3 [of 1 "0xAA" 3] obtain d where "session stated_spec 8 d 3 []" by blast
  with no_byte_lost [OF this] show ?thesis by (auto simp: u64_max_def)
qed

text \<open>C3: every frame any decoder ever returns is within the spec's size limits, its body is the
  range the spec names, inside the frame, and it is marked verified exactly when it passes the
  spec's check; one that does not is returned only under \<open>Consume\<close>.\<close>

theorem returned_frames_good:
  assumes "session S N d t fs" "p \<in> set fs"
  shows "HEADER_LEN S \<le> length (pop_frame p) \<and> length (pop_frame p) \<le> MAX_FRAME S
    \<and> (\<exists>bs be. body S (pop_frame p) = (bs, be) \<and> bs \<le> be \<and> be \<le> length (pop_frame p)
         \<and> pop_body p = drop bs (take be (pop_frame p)))
    \<and> (pop_integrity p = Verified \<longleftrightarrow> verify S (pop_frame p))
    \<and> (pop_integrity p = Corrupt \<longrightarrow> ON_CORRUPT S = Consume)"
proof -
  have "good_frame S p" using session_accounted [OF assms(1)] assms(2) by blast
  then show ?thesis
    by (auto simp: good_frame_def split: prod.splits if_splits)
qed

lemma stated_frame:
  "scan_pop stated_spec [0xAA, 3, 7] = ([], PFrame 3 (2, 3) Verified)"
  by (simp add: scan_pop.simps parse_cases parse_candidate_def stated_spec_def measure_def measure_default_def)

theorem returned_frames_good_witness:
  "\<exists>d. session stated_spec 8 d 3 [\<lparr>pop_frame = [0xAA, 3, 7], pop_body = [7], pop_integrity = Verified\<rparr>]
    \<and> body stated_spec [0xAA, 3, 7] = (2, 3)"
proof -
  let ?p = "\<lparr>pop_frame = [0xAA, 3, 7], pop_body = [7], pop_integrity = Verified\<rparr>"
  from stated_holding_3 [of "0xAA" 3 7] obtain d where d: "session stated_spec 8 d 3 []" "live d = [0xAA, 3, 7]"
    by blast
  have "dec_ok 8 d" "spec_ok stated_spec"
    using session_accounted [OF d(1)] session_spec_ok [OF d(1)] by (simp_all add: accounted_def)
  from pop_scan [OF this(2,1), of "[]" "PFrame 3 (2, 3) Verified"] obtain d' where
    "pop stated_spec d = Some (Some ?p, d')"
    by (auto simp: d(2) stated_frame popped_of_def)
  from session.pop [OF d(1) this] have s: "session stated_spec 8 d' 3 [?p]" by simp
  then show ?thesis using returned_frames_good [OF s, of ?p] by (auto simp: stated_spec_def)
qed

text \<open>C1: for a spec with a length in its header (no \<open>measure\<close> of its own, and a candidate stays one when bytes
  are added) that does not \<open>SCAN_PAST_INCOMPLETE\<close>, the frames a decoder returns do not depend on how the
  stream is cut: with chunks of up to \<open>N - MAX_FRAME + 1\<close> bytes, each read out before the next, every
  chunking returns the frames of the whole stream, holds the same bytes at the end and refuses none.
  A spec that scans gives this up by design (\<open>scan_depends_on_cut\<close>).\<close>

theorem chunking_irrelevant:
  assumes "decoder_new S N = Some d" "\<not> SCAN_PAST_INCOMPLETE S" "measure_override S = None"
    and "\<And>s t. CANDIDATE_LEN S \<le> length s \<Longrightarrow> candidate S (s @ t) = candidate S s"
    and "list_all (\<lambda>c. length c \<le> N - MAX_FRAME S + 1) cs" "list_all (\<lambda>c. length c \<le> N - MAX_FRAME S + 1) cs'"
    and "concat cs = concat cs'"
  shows "\<exists>fs e e'. read_stream S N d cs = Some (fs, e) \<and> read_stream S N d cs' = Some (fs, e')
    \<and> fs = fst (drain S (concat cs)) \<and> live e = live e'
    \<and> bytes_refused (dec_stats e) = 0 \<and> bytes_refused (dec_stats e') = 0"
proof -
  note new = decoder_new_props [OF assms(1)]
  have S: "header_framing S" using new(1) assms(2-4) by unfold_locales
  have w: "verdict S (live d) = Wait" using new(1,3) by (simp add: verdict_def spec_ok_def)
  have z: "bytes_refused (dec_stats d) = 0" using new(4) by (simp add: no_stats_def)
  note reads = stable_framing.read_stream_drain [OF header_framing.header_stable [OF S] new(2,5) w]
  from reads [OF assms(5)] reads [OF assms(6)] show ?thesis using assms(7) new(3) z by auto
qed

theorem chunking_irrelevant_witness:
  "\<exists>d fs e e'. decoder_new stated_spec 16 = Some d
    \<and> read_stream stated_spec 16 d [[0xAA], [3, 7, 0xAA], [4]] = Some (fs, e)
    \<and> read_stream stated_spec 16 d [[0xAA, 3, 7, 0xAA, 4]] = Some (fs, e') \<and> live e = live e'"
proof -
  obtain d where d: "decoder_new stated_spec 16 = Some d" by (simp add: decoder_new_def stated_spec_def)
  show ?thesis
    using chunking_irrelevant [OF d stated.header_no_scan stated.default_measure stated.header_candidate,
        of "[[0xAA], [3, 7, 0xAA], [4]]" "[[0xAA, 3, 7, 0xAA, 4]]"] d
    by (auto simp: stated_spec_def)
qed

text \<open>Why the two properties are of specs that do not scan: a complete frame inside an incomplete one is
  taken when the stream is cut there, and is the body of the outer frame when it is not; and it ends an
  incomplete parse with fewer bytes than the parse asked for.\<close>

lemma scan_depends_on_cut:
  "parse headed_spec [0xAA, 7, 0, 0xAA, 3, 0, 9] = PFrame 7 (3, 7) Verified"
  "parse headed_spec [0xAA, 7, 0, 0xAA, 3] = PIncomplete 2"
  "parse headed_spec ([0xAA, 7, 0, 0xAA, 3] @ [0]) = PDesync 3 NoCandidate"
  by (simp_all add: parse_def find_candidate.simps parse_candidate_def headed_spec_def measure_def
      measure_default_def incomplete_or_beyond_def complete_frame_beyond_def beyond_loop.simps)

text \<open>C21: a parse that asks for more bytes asks for no more than it needs to: with fewer than that
  many more, any bytes, it is still incomplete. This is of a spec with a length in its header (no
  \<open>measure\<close> of its own, and a candidate stays one when bytes are added) that does not
  \<open>SCAN_PAST_INCOMPLETE\<close>.\<close>

theorem incomplete_need_is_lower_bound:
  assumes "spec_ok S" "\<not> SCAN_PAST_INCOMPLETE S" "measure_override S = None"
    and "\<And>s t. CANDIDATE_LEN S \<le> length s \<Longrightarrow> candidate S (s @ t) = candidate S s"
    and "parse S buf = PIncomplete need" "length more_bytes < need"
  shows "\<exists>n. parse S (buf @ more_bytes) = PIncomplete n"
proof -
  have "header_framing S" using assms(1-4) by unfold_locales
  from header_framing.need_is_lower_bound [OF this assms(5,6)] show ?thesis .
qed

theorem incomplete_need_is_lower_bound_witness:
  "parse stated_spec [0xAA, 4] = PIncomplete 2 \<and> (\<exists>n. parse stated_spec ([0xAA, 4] @ [9]) = PIncomplete n)"
proof -
  have p: "parse stated_spec [0xAA, 4] = PIncomplete 2"
    by (simp add: parse_cases parse_candidate_def stated_spec_def measure_def measure_default_def incomplete_or_beyond_def)
  show ?thesis
    using incomplete_need_is_lower_bound [OF stated.header_constants stated.header_no_scan stated.default_measure
        stated.header_candidate p, of "[9]"] p by simp
qed

text \<open>Every parse that is not an answer discards at least one byte and never more than there are,
  an incomplete one asks for at least one byte and only while fewer than \<open>MAX_FRAME\<close> are held.\<close>

lemma parse_makes_progress:
  assumes "spec_ok S"
  shows "case parse S buf of
      PDesync n _ \<Rightarrow> 1 \<le> n \<and> n \<le> length buf
    | PIncomplete n \<Rightarrow> 1 \<le> n \<and> length buf < MAX_FRAME S
    | PFrame c b _ \<Rightarrow> 1 \<le> c \<and> c \<le> length buf"
  using parse_desync [OF assms, of buf] parse_incomplete [OF assms, of buf] parse_frame [of S buf] assms
  by (cases "parse S buf") (force simp: spec_ok_def)+

lemma parse_makes_progress_witness:
  "case parse headed_spec [0xAA, 2, 0, 0] of PDesync n _ \<Rightarrow> 1 \<le> n \<and> n \<le> 4 | _ \<Rightarrow> False"
proof -
  have "spec_ok headed_spec" by (simp add: spec_ok_def headed_spec_def)
  from parse_makes_progress [OF this, of "[0xAA, 2, 0, 0]"] show ?thesis by (simp add: headed_examples)
qed

end
