(* ===== verification/FieldTables.thy ===== *)
theory FieldTables
  imports Extents Errors
begin

text \<open>
  Field tables (\<open>layline-core/src/field.rs\<close>): the rows a layout's derive generates, the check that a
  table covers its container exactly, and the lookups generated constants use. A \<open>&str\<close> is the
  list of its UTF-8 bytes, which is what \<open>char list\<close> is. Bit positions (\<open>u64\<close>) and widths (\<open>u32\<close>) are
  natural numbers: the source computes them from the widths of fields in memory, far below the
  \<open>2 ^ 64\<close> where its sums would panic.

  The contract of \<open>check_layout\<close> is \<open>partitions\<close>: the fields ascend, and every bit of the container
  is in a field.
\<close>

section \<open>Rows\<close>

record field_def =
  fd_name :: string
  fd_extent :: extent

record type_def =
  td_field :: string
  td_ty :: string

record param_def =
  pd_name :: string
  pd_ty :: string

datatype stated_unit = UnitBit | UnitByte

fun unit_bits :: "stated_unit \<Rightarrow> nat" where
  "unit_bits UnitBit = 1"
| "unit_bits UnitByte = 8"

fun unit_name :: "stated_unit \<Rightarrow> string" where
  "unit_name UnitBit = ''bit''"
| "unit_name UnitByte = ''byte''"

record stated_def =
  sd_field :: string
  sd_unit :: stated_unit
  sd_pos :: nat

definition stated_bits :: "stated_def \<Rightarrow> nat" where
  "stated_bits s = sd_pos s * unit_bits (sd_unit s)"

record const_def =
  cd_field :: string
  cd_bytes :: "u8 list"

record range_def =
  rd_field :: string
  rd_lo :: i64
  rd_hi :: i64

datatype layout_error =
    Gap usize nat nat \<comment> \<open>\<open>field\<close>, \<open>expected_start\<close>, \<open>actual_start\<close>\<close>
  | ShortTable nat nat \<comment> \<open>\<open>end\<close>, \<open>total_bits\<close>\<close>

section \<open>Operations\<close>

text \<open>The loop of \<open>check_layout\<close>: \<open>i\<close> counts the fields passed, \<open>pos\<close> is where the last one ended.\<close>

fun check_loop :: "field_def list \<Rightarrow> nat \<Rightarrow> usize \<Rightarrow> nat \<Rightarrow> layout_error + unit" where
  "check_loop [] pos i tot = (if pos \<noteq> tot then Inl (ShortTable pos tot) else Inr ())"
| "check_loop (f # fs) pos i tot =
     (if ext_start (fd_extent f) \<noteq> pos then Inl (Gap i pos (ext_start (fd_extent f)))
      else check_loop fs (extent_end (fd_extent f)) (i + 1) tot)"

definition check_layout :: "field_def list \<Rightarrow> nat \<Rightarrow> layout_error + unit" where
  "check_layout fs tot = check_loop fs 0 0 tot"

text \<open>The byte loop of \<open>str_eq\<close>, and the two lookups over it.\<close>

fun str_eq_loop :: "string \<Rightarrow> string \<Rightarrow> bool" where
  "str_eq_loop (x # xs) (y # ys) = (if x \<noteq> y then False else str_eq_loop xs ys)"
| "str_eq_loop _ _ = True"

definition str_eq :: "string \<Rightarrow> string \<Rightarrow> bool" where
  "str_eq a b = (if length a \<noteq> length b then False else str_eq_loop a b)"

fun field_width :: "field_def list \<Rightarrow> string \<Rightarrow> nat" where
  "field_width [] name = 0"
| "field_width (f # fs) name =
     (if str_eq (fd_name f) name then ext_width (fd_extent f) else field_width fs name)"

fun type_is :: "type_def list \<Rightarrow> string \<Rightarrow> string \<Rightarrow> bool" where
  "type_is [] name ty = False"
| "type_is (t # ts) name ty =
     (if str_eq (td_field t) name then str_eq (td_ty t) ty else type_is ts name ty)"

text \<open>\<open>None\<close> is the panic of \<open>assert_layout\<close>.\<close>

definition assert_layout :: "field_def list \<Rightarrow> nat \<Rightarrow> unit option" where
  "assert_layout fs tot = (if is_ok (check_layout fs tot) then Some () else None)"

section \<open>Lookups\<close>

lemma str_eq_loop_eq: "length a = length b \<Longrightarrow> str_eq_loop a b \<longleftrightarrow> a = b"
  by (induction a b rule: str_eq_loop.induct) auto

lemma str_eq_iff [simp]: "str_eq a b \<longleftrightarrow> a = b"
  using str_eq_loop_eq by (auto simp: str_eq_def)

lemma field_width_find:
  "field_width fs name = (case find (\<lambda>f. fd_name f = name) fs of Some f \<Rightarrow> ext_width (fd_extent f) | None \<Rightarrow> 0)"
  by (induction fs) auto

lemma type_is_find:
  "type_is ts name ty \<longleftrightarrow> (\<exists>t. find (\<lambda>t. td_field t = name) ts = Some t \<and> td_ty t = ty)"
  by (induction ts) auto

section \<open>The layout check\<close>

text \<open>The bits a field holds, and what it means for fields to cover \<open>from..tot\<close> in order.\<close>

definition field_bits :: "field_def \<Rightarrow> nat set" where
  "field_bits f = {ext_start (fd_extent f)..<extent_end (fd_extent f)}"

definition before :: "field_def \<Rightarrow> field_def \<Rightarrow> bool" where
  "before f g \<longleftrightarrow> extent_end (fd_extent f) \<le> ext_start (fd_extent g)"

definition partitions :: "field_def list \<Rightarrow> nat \<Rightarrow> nat \<Rightarrow> bool" where
  "partitions fs lo tot \<longleftrightarrow> sorted_wrt before fs \<and> lo \<le> tot \<and> (\<Union>f \<in> set fs. field_bits f) = {lo..<tot}"

definition widths_ok :: "field_def list \<Rightarrow> bool" where
  "widths_ok fs \<longleftrightarrow> (\<forall>f \<in> set fs. 1 \<le> ext_width (fd_extent f))"

lemma widths_ok_simps [simp]:
  "widths_ok []" "widths_ok (f # fs) \<longleftrightarrow> 1 \<le> ext_width (fd_extent f) \<and> widths_ok fs"
  by (simp_all add: widths_ok_def)

lemma partitions_Nil [simp]: "partitions [] lo tot \<longleftrightarrow> lo = tot"
  by (auto simp: partitions_def)

lemma partitions_Cons:
  assumes "1 \<le> ext_width (fd_extent f)" "widths_ok fs"
  shows "partitions (f # fs) lo tot
    \<longleftrightarrow> ext_start (fd_extent f) = lo \<and> partitions fs (extent_end (fd_extent f)) tot"
    (is "?L \<longleftrightarrow> ?R")
proof -
  let ?s = "ext_start (fd_extent f)" and ?e = "extent_end (fd_extent f)"
  have se: "?s < ?e" using assms(1) by (simp add: extent_end_def)
  have bits_f: "field_bits f = {?s..<?e}" by (simp add: field_bits_def)
  show ?thesis
  proof
    assume L: ?L
    then have sorted: "\<forall>g \<in> set fs. ?e \<le> ext_start (fd_extent g)" "sorted_wrt before fs"
      and cover: "{?s..<?e} \<union> (\<Union>g \<in> set fs. field_bits g) = {lo..<tot}"
      by (auto simp: partitions_def before_def bits_f)
    have later: "(\<Union>g \<in> set fs. field_bits g) \<subseteq> {?e..}"
      using sorted(1) by (force simp: field_bits_def)
    have "?s \<in> {lo..<tot}" "?e - 1 \<in> {lo..<tot}" using cover se by auto
    then have bounds: "lo \<le> ?s" "?e \<le> tot" "lo < tot" using se by auto
    then have "lo \<in> {?s..<?e} \<union> (\<Union>g \<in> set fs. field_bits g)" using cover by simp
    then have "?s \<le> lo" using later se by fastforce
    with bounds have "?s = lo" by simp
    moreover have "(\<Union>g \<in> set fs. field_bits g) = {?e..<tot}"
    proof -
      have "(\<Union>g \<in> set fs. field_bits g) = {lo..<tot} - {?s..<?e}"
        using cover later by fastforce
      also have "\<dots> = {?e..<tot}" using \<open>?s = lo\<close> se by auto
      finally show ?thesis .
    qed
    ultimately show ?R using sorted(2) bounds by (simp add: partitions_def)
  next
    assume R: ?R
    then have cover: "(\<Union>g \<in> set fs. field_bits g) = {?e..<tot}" and le: "?e \<le> tot"
      by (auto simp: partitions_def)
    have "before f g" if g: "g \<in> set fs" for g
    proof -
      from g assms(2) have "ext_start (fd_extent g) \<in> field_bits g"
        by (auto simp: field_bits_def extent_end_def widths_ok_def)
      with g cover have "ext_start (fd_extent g) \<in> {?e..<tot}" by blast
      then show ?thesis by (simp add: before_def)
    qed
    moreover have "{?s..<?e} \<union> {?e..<tot} = {?s..<tot}"
      using se le by (intro ivl_disj_un) auto
    ultimately show ?L
      using R cover le se by (auto simp: partitions_def bits_f)
  qed
qed

lemma check_loop_partitions:
  "widths_ok fs \<Longrightarrow> check_loop fs pos i tot = Inr () \<longleftrightarrow> partitions fs pos tot"
  by (induction fs pos i tot rule: check_loop.induct) (auto simp: partitions_Cons)

lemma check_loop_gap:
  "check_loop fs pos i tot = Inl (Gap j e a) \<longleftrightarrow>
     (\<exists>k < length fs. j = i + k \<and> check_loop (take k fs) pos i e = Inr ()
        \<and> a = ext_start (fd_extent (fs ! k)) \<and> a \<noteq> e)"
proof (induction fs pos i tot rule: check_loop.induct)
  case (2 f fs pos i tot)
  show ?case
  proof (cases "ext_start (fd_extent f) = pos")
    case True
    have shift: "check_loop (take k (f # fs)) pos i e = Inr () \<and> a = ext_start (fd_extent ((f # fs) ! k)) \<and> a \<noteq> e
        \<longleftrightarrow> (\<exists>m. k = Suc m \<and> check_loop (take m fs) (extent_end (fd_extent f)) (i + 1) e = Inr ()
              \<and> a = ext_start (fd_extent (fs ! m)) \<and> a \<noteq> e)" for k
      using True by (cases k) (auto split: if_splits)
    from 2 True show ?thesis
      unfolding check_loop.simps by (auto simp: shift Suc_le_eq)
  next
    case False
    have "check_loop (take k (f # fs)) pos i e = Inr () \<longleftrightarrow> k = 0 \<and> pos = e" for k
      using False by (cases k) auto
    then show ?thesis using False by auto
  qed
qed auto

lemma check_loop_short:
  "check_loop fs pos i tot = Inl (ShortTable e t) \<longleftrightarrow> t = tot \<and> e \<noteq> tot \<and> check_loop fs pos i e = Inr ()"
  by (induction fs pos i tot rule: check_loop.induct) auto

lemma partitions_unique:
  assumes "partitions fs lo tot" "widths_ok fs" "i < length fs" "j < length fs"
    "b \<in> field_bits (fs ! i)" "b \<in> field_bits (fs ! j)"
  shows "i = j"
proof -
  have order: "extent_end (fd_extent (fs ! i)) \<le> ext_start (fd_extent (fs ! j))"
    if "i < j" "j < length fs" for i j
    using assms(1) that by (auto simp: partitions_def before_def sorted_wrt_iff_nth_less)
  show ?thesis
    using order [of i j] order [of j i] assms(3-6) by (cases i j rule: linorder_cases) (auto simp: field_bits_def)
qed

lemma check_layout_partitions: "widths_ok fs \<Longrightarrow> check_layout fs tot = Inr () \<longleftrightarrow> partitions fs 0 tot"
  by (simp add: check_layout_def check_loop_partitions)

lemma checked_ends:
  assumes "widths_ok fs" "check_layout fs tot = Inr ()" "f \<in> set fs"
  shows "extent_end (fd_extent f) \<le> tot"
proof -
  have "extent_end (fd_extent f) - 1 \<in> field_bits f"
    using assms(1,3) by (auto simp: field_bits_def extent_end_def widths_ok_def)
  moreover have "field_bits f \<subseteq> {0..<tot}"
    using assms check_layout_partitions by (auto simp: partitions_def)
  ultimately show ?thesis by auto
qed

section \<open>Properties\<close>

text \<open>C24: \<open>check_layout\<close> accepts a table exactly when its fields ascend and hold every bit of the
  container, each in one field; otherwise it names the first field that does not start where the
  fields before it end, or else where the fields end.\<close>

theorem layout_check_exact:
  assumes "widths_ok fs"
  shows "(check_layout fs tot = Inr () \<longleftrightarrow> partitions fs 0 tot)
    \<and> (check_layout fs tot = Inr () \<longrightarrow> (\<forall>b < tot. \<exists>!i. i < length fs \<and> b \<in> field_bits (fs ! i)))
    \<and> (\<forall>j e a. check_layout fs tot = Inl (Gap j e a) \<longleftrightarrow>
          j < length fs \<and> check_layout (take j fs) e = Inr () \<and> a = ext_start (fd_extent (fs ! j)) \<and> a \<noteq> e)
    \<and> (\<forall>e t. check_layout fs tot = Inl (ShortTable e t) \<longleftrightarrow> t = tot \<and> e \<noteq> tot \<and> check_layout fs e = Inr ())"
proof -
  have one: "\<exists>!i. i < length fs \<and> b \<in> field_bits (fs ! i)" if "partitions fs 0 tot" "b < tot" for b
  proof -
    from that obtain f where "f \<in> set fs" "b \<in> field_bits f"
      by (auto simp: partitions_def set_eq_iff)
    then obtain i where "i < length fs" "b \<in> field_bits (fs ! i)" by (auto simp: in_set_conv_nth)
    with partitions_unique [OF that(1) assms] show ?thesis by blast
  qed
  show ?thesis
    using one check_layout_partitions [OF assms] check_loop_short [of fs 0 0 tot]
    by (auto simp: check_layout_def check_loop_gap)
qed

theorem layout_check_exact_witness:
  "check_layout [\<lparr>fd_name = ''a'', fd_extent = \<lparr>ext_start = 0, ext_width = 3\<rparr>\<rparr>,
      \<lparr>fd_name = ''b'', fd_extent = \<lparr>ext_start = 4, ext_width = 4\<rparr>\<rparr>] 8 = Inl (Gap 1 3 4)"
  using layout_check_exact [of "[\<lparr>fd_name = ''a'', fd_extent = \<lparr>ext_start = 0, ext_width = 3\<rparr>\<rparr>,
      \<lparr>fd_name = ''b'', fd_extent = \<lparr>ext_start = 4, ext_width = 4\<rparr>\<rparr>]" 8]
  by (simp add: check_layout_def extent_end_def)

text \<open>C25: in a checked table of at most 128 bits the fields are independent and complete: writing
  one changes what no other reads, and two containers that agree on every field agree on every
  bit.\<close>

theorem checked_fields_independent:
  assumes "widths_ok fs" "check_layout fs tot = Inr ()" "tot \<le> 128"
  shows "(\<forall>i < length fs. \<forall>j < length fs. i \<noteq> j \<longrightarrow>
        insert_wide (fd_extent (fs ! i)) w v = Some w' \<longrightarrow>
        extract_wide (fd_extent (fs ! j)) w' = extract_wide (fd_extent (fs ! j)) w)
    \<and> ((\<forall>f \<in> set fs. extract_wide (fd_extent f) x = extract_wide (fd_extent f) y) \<longrightarrow>
        take_bit tot x = take_bit tot y)"
proof (intro conjI allI impI)
  have part: "partitions fs 0 tot" using assms check_layout_partitions by blast
  have fits: "extent_end (fd_extent f) \<le> 128" if "f \<in> set fs" for f
    using checked_ends [OF assms(1,2) that] assms(3) by simp
  fix i j assume ij: "i < length fs" "j < length fs" "i \<noteq> j"
    and ins: "insert_wide (fd_extent (fs ! i)) w v = Some w'"
  have "sorted_wrt before fs" using part by (simp add: partitions_def)
  then have "before (fs ! i) (fs ! j) \<or> before (fs ! j) (fs ! i)"
    using ij by (auto simp: sorted_wrt_iff_nth_less linorder_neq_iff)
  then show "extract_wide (fd_extent (fs ! j)) w' = extract_wide (fd_extent (fs ! j)) w"
    using extract_insert_disjoint [OF ins fits] ij by (auto simp: before_def)
next
  assume same: "\<forall>f \<in> set fs. extract_wide (fd_extent f) x = extract_wide (fd_extent f) y"
  have part: "partitions fs 0 tot" using assms check_layout_partitions by blast
  show "take_bit tot x = take_bit tot y"
  proof (rule bit_word_eqI)
    fix n assume "n < LENGTH(128)"
    show "bit (take_bit tot x) n \<longleftrightarrow> bit (take_bit tot y) n"
    proof (cases "n < tot")
      case True
      with part obtain f where f: "f \<in> set fs" "n \<in> field_bits f" by (auto simp: partitions_def set_eq_iff)
      let ?e = "fd_extent f"
      have le: "extent_end ?e \<le> 128" using checked_ends [OF assms(1,2) f(1)] assms(3) by simp
      obtain u where u: "extract_wide ?e x = Some u" "extract_wide ?e y = Some u"
        using extract_wide_Some [OF le, of x] same f(1) by force
      show ?thesis
        using f(2) bit_extract_wide [OF u(1), of "n - ext_start ?e"] bit_extract_wide [OF u(2), of "n - ext_start ?e"]
        by (auto simp: field_bits_def extent_end_def bit_simps)
    qed (simp add: bit_simps)
  qed
qed

theorem checked_fields_independent_witness:
  "extract_wide \<lparr>ext_start = 3, ext_width = 5\<rparr> 0xA9 = extract_wide \<lparr>ext_start = 3, ext_width = 5\<rparr> 0xAF"
  using checked_fields_independent [of "[\<lparr>fd_name = ''a'', fd_extent = \<lparr>ext_start = 0, ext_width = 3\<rparr>\<rparr>,
      \<lparr>fd_name = ''b'', fd_extent = \<lparr>ext_start = 3, ext_width = 5\<rparr>\<rparr>]" 8 "0xAF" 1 "0xA9"]
  by (simp add: check_layout_def extent_end_def numeral_2_eq_2 insert_wide_def mask_wide_def mask128_eq
      mask_eq_exp_minus_1 All_less_Suc)

end
