(* ===== verification/Segments.thy ===== *)
theory Segments
  imports FieldTables
begin

text \<open>
  Segment tables (\<open>layline-core/src/segment.rs\<close>): the rows that say where each part of a message
  starts, how wide it is and when it is present, and the constants computed from them:
  \<open>fixed_bits\<close>, the bit up to which positions are known before decoding, and \<open>arms_fit\<close>, the check
  that every arm of a union is as wide as the union.

  The meaning of a table is \<open>laid_out\<close>: the widths the rows have in one wire agree with the rows.
  Both constants are proved right for every wire.
\<close>

section \<open>Rows\<close>

datatype seg_start =
    StartAt nat
  | StartAfter string nat \<comment> \<open>\<open>segment\<close>, \<open>bits\<close>\<close>
  | StartSeek string \<comment> \<open>\<open>by\<close>\<close>

fun start_bit :: "seg_start \<Rightarrow> nat option" where
  "start_bit (StartAt b) = Some b"
| "start_bit _ = None"

record by_def =
  by_field :: string
  by_scale :: nat
  by_offset :: int

definition by_of_field :: "string \<Rightarrow> by_def" where
  "by_of_field f = \<lparr>by_field = f, by_scale = 1, by_offset = 0\<rparr>"

datatype discriminant = OnField string | BodyLength

datatype span =
    Terminated u8
  | FixedBits nat
  | Counted by_def "nat option"
  | Squared by_def "nat option"
  | Strided by_def by_def
  | Window by_def
  | SelfDelimiting
  | Until u8
  | Fill "nat option"
  | Chosen discriminant
  | ChosenIn discriminant nat
  | Pad nat
  | ChosenWithin discriminant by_def

fun span_bits :: "span \<Rightarrow> nat option" where
  "span_bits (FixedBits bits) = Some bits"
| "span_bits (ChosenIn _ bits) = Some bits"
| "span_bits _ = None"

datatype presence =
    WhenFlag string u64
  | WhenClear string u64
  | WhenOffset
  | WhenBit
  | WhenRemaining
  | WhenLength string

record segment_def =
  sg_name :: string
  sg_start :: seg_start
  sg_span :: span
  sg_when :: "presence option"
  sg_decoded_by :: "string option"
  sg_fields :: "field_def list"

definition seg_extent :: "segment_def \<Rightarrow> nat option" where
  "seg_extent s = (if sg_when s \<noteq> None then None else span_bits (sg_span s))"

definition is_fixed :: "segment_def \<Rightarrow> bool" where
  "is_fixed s \<longleftrightarrow> (case sg_start s of StartAt _ \<Rightarrow> True | _ \<Rightarrow> False) \<and> seg_extent s \<noteq> None"

datatype cover_edge = EdgeStart | EdgeBefore string | EdgeAfter string

record cover_def =
  cv_field :: string
  cv_from :: cover_edge
  cv_to :: cover_edge
  cv_excludes_self :: bool

record arm_def =
  ar_name :: string
  ar_value :: "i64 option"
  ar_segments :: "segment_def list"

record arm_cover =
  ac_arm :: string
  ac_covered :: "cover_def list"

section \<open>Constants computed from a table\<close>

fun fixed_bits_loop :: "segment_def list \<Rightarrow> nat \<Rightarrow> nat" where
  "fixed_bits_loop [] pos = pos"
| "fixed_bits_loop (s # ss) pos =
     (case (sg_start s, seg_extent s) of
        (StartAt start, Some bits) \<Rightarrow> fixed_bits_loop ss (start + bits)
      | (StartAt start, None) \<Rightarrow> start
      | _ \<Rightarrow> pos)"

definition fixed_bits :: "segment_def list \<Rightarrow> nat" where
  "fixed_bits segments = fixed_bits_loop segments 0"

fun arm_fits_loop :: "segment_def list \<Rightarrow> nat \<Rightarrow> nat \<Rightarrow> bool" where
  "arm_fits_loop [] bits pos \<longleftrightarrow> pos = bits"
| "arm_fits_loop (r # rs) bits pos =
     (case sg_start r of
        StartAt start \<Rightarrow>
          if sg_when r \<noteq> None then True
          else if (case sg_span r of Fill _ \<Rightarrow> True | _ \<Rightarrow> False) then start \<le> bits
          else (case span_bits (sg_span r) of
                  Some width \<Rightarrow> arm_fits_loop rs bits (start + width)
                | None \<Rightarrow> True)
      | _ \<Rightarrow> True)"

definition arm_fits :: "segment_def list \<Rightarrow> nat \<Rightarrow> bool" where
  "arm_fits rows bits = arm_fits_loop rows bits 0"

fun arms_fit :: "arm_def list \<Rightarrow> nat \<Rightarrow> bool" where
  "arms_fit [] bits \<longleftrightarrow> True"
| "arms_fit (a # arms) bits \<longleftrightarrow> (if \<not> arm_fits (ar_segments a) bits then False else arms_fit arms bits)"

section \<open>What a table says of a wire\<close>

text \<open>
  \<open>laid_out rows ws pos\<close>: \<open>ws\<close> are the widths the rows have in some wire, the first of them at bit
  \<open>pos\<close>. A row at a known bit is there, and a row of known width has it; the other rows have
  the width that wire gives them.
\<close>

fun laid_out :: "segment_def list \<Rightarrow> nat list \<Rightarrow> nat \<Rightarrow> bool" where
  "laid_out [] [] pos \<longleftrightarrow> True"
| "laid_out (r # rs) (w # ws) pos \<longleftrightarrow>
     (case start_bit (sg_start r) of Some b \<Rightarrow> b = pos | None \<Rightarrow> True)
     \<and> (case seg_extent r of Some b \<Rightarrow> w = b | None \<Rightarrow> True)
     \<and> laid_out rs ws (pos + w)"
| "laid_out _ _ pos \<longleftrightarrow> False"

lemma laid_out_length: "laid_out rows ws pos \<Longrightarrow> length ws = length rows"
  by (induction rows ws pos rule: laid_out.induct) auto

lemma fixed_bits_loop_position:
  assumes "laid_out rows ws pos"
  shows "\<exists>k \<le> length rows. fixed_bits_loop rows pos = pos + sum_list (take k ws)
    \<and> (\<forall>j < k. is_fixed (rows ! j)) \<and> (k < length rows \<longrightarrow> \<not> is_fixed (rows ! k))"
  using assms
proof (induction rows ws pos rule: laid_out.induct)
  case (2 r rs w ws pos)
  show ?case
  proof (cases "is_fixed r")
    case True
    then obtain start b where r: "sg_start r = StartAt start" "seg_extent r = Some b"
      by (auto simp: is_fixed_def split: seg_start.splits)
    with "2.prems" have *: "start = pos" "w = b" "laid_out rs ws (pos + w)" by auto
    from "2.IH" [OF *(3)] obtain k where "k \<le> length rs"
      "fixed_bits_loop rs (pos + w) = pos + w + sum_list (take k ws)"
      "\<forall>j < k. is_fixed (rs ! j)" "k < length rs \<longrightarrow> \<not> is_fixed (rs ! k)" by blast
    with r * True show ?thesis
      by (intro exI [of _ "Suc k"]) (auto simp: less_Suc_eq_0_disj)
  next
    case False
    then have "fixed_bits_loop (r # rs) pos = pos"
      using "2.prems" by (auto simp: is_fixed_def split: seg_start.splits option.splits)
    with False show ?thesis by (intro exI [of _ 0]) simp
  qed
qed auto

lemma span_bits_not_fill: "span_bits sp = Some b \<Longrightarrow> \<not> (case sp of Fill _ \<Rightarrow> True | _ \<Rightarrow> False)"
  by (cases sp) auto

lemma arm_fits_loop_needed:
  "laid_out rows ws pos \<Longrightarrow> pos + sum_list ws = bits \<Longrightarrow> arm_fits_loop rows bits pos"
proof (induction rows ws pos rule: laid_out.induct)
  case (2 r rs w ws pos)
  show ?case
  proof (cases "sg_start r")
    case (StartAt start)
    then have start: "start = pos" using "2.prems" by simp
    show ?thesis
    proof (cases "seg_extent r")
      case None
      then have "sg_when r \<noteq> None \<or> span_bits (sg_span r) = None" by (auto simp: seg_extent_def split: if_splits)
      then show ?thesis using StartAt start "2.prems" by (auto simp del: split_paired_All)
    next
      case (Some b)
      then have b: "sg_when r = None" "span_bits (sg_span r) = Some b" by (auto simp: seg_extent_def split: if_splits)
      have "arm_fits_loop rs bits (pos + w)" using 2 by simp
      then show ?thesis
        using StartAt start b Some "2.prems" span_bits_not_fill [OF b(2)] by simp
    qed
  qed simp_all
qed auto

lemma arm_fits_loop_exact:
  "laid_out rows ws pos \<Longrightarrow> list_all is_fixed rows \<Longrightarrow> arm_fits_loop rows bits pos \<Longrightarrow>
    pos + sum_list ws = bits"
proof (induction rows ws pos rule: laid_out.induct)
  case (2 r rs w ws pos)
  then have fixed: "is_fixed r" "list_all is_fixed rs" and laid: "laid_out (r # rs) (w # ws) pos"
    and fits: "arm_fits_loop (r # rs) bits pos" by simp_all
  from fixed(1) obtain start b where r: "sg_start r = StartAt start" "seg_extent r = Some b"
    by (auto simp: is_fixed_def split: seg_start.splits)
  then have b: "sg_when r = None" "span_bits (sg_span r) = Some b" by (auto simp: seg_extent_def split: if_splits)
  have rest: "laid_out rs ws (pos + w)" using laid by simp
  have "start = pos" "w = b" using laid r by simp_all
  then have "arm_fits_loop rs bits (pos + w)"
    using fits r(1) b span_bits_not_fill [OF b(2)] by simp
  with "2.IH" [OF rest fixed(2)] show ?case by simp
qed auto

lemma arms_fit_all: "arms_fit arms bits \<longleftrightarrow> (\<forall>a \<in> set arms. arm_fits (ar_segments a) bits)"
  by (induction arms) auto

section \<open>Properties\<close>

text \<open>C26: in every wire a table describes, \<open>fixed_bits\<close> is where the first row stands that is not at
  a known bit with a known width: the rows before it are, and their widths do not depend on the
  wire. Without such a row it is the whole width.\<close>

theorem fixed_bits_position:
  assumes "laid_out rows ws 0"
  shows "\<exists>k \<le> length rows. fixed_bits rows = sum_list (take k ws)
    \<and> (\<forall>j < k. is_fixed (rows ! j) \<and> seg_extent (rows ! j) = Some (ws ! j))
    \<and> (k < length rows \<longrightarrow> \<not> is_fixed (rows ! k))"
proof -
  have width: "laid_out rows ws pos \<Longrightarrow> j < length rows \<Longrightarrow> is_fixed (rows ! j) \<Longrightarrow>
      seg_extent (rows ! j) = Some (ws ! j)" for pos j
  proof (induction rows ws pos arbitrary: j rule: laid_out.induct)
    case (2 r rs w ws pos)
    then show ?case by (cases j) (auto simp: is_fixed_def)
  qed auto
  obtain k where k: "k \<le> length rows" "fixed_bits_loop rows 0 = 0 + sum_list (take k ws)"
      "\<forall>j < k. is_fixed (rows ! j)" "k < length rows \<longrightarrow> \<not> is_fixed (rows ! k)"
    using fixed_bits_loop_position [OF assms] by blast
  then have "\<forall>j < k. is_fixed (rows ! j) \<and> seg_extent (rows ! j) = Some (ws ! j)"
    using width [OF assms] by simp
  with k show ?thesis by (intro exI [of _ k]) (simp add: fixed_bits_def)
qed

definition packet_rows :: "segment_def list" where
  "packet_rows =
     [\<lparr>sg_name = ''__PacketBlock0'', sg_start = StartAt 0, sg_span = FixedBits 64, sg_when = None,
       sg_decoded_by = None, sg_fields = []\<rparr>,
      \<lparr>sg_name = ''items'', sg_start = StartAt 64, sg_span = Counted (by_of_field ''count'') (Some 32),
       sg_when = None, sg_decoded_by = Some ''Item'', sg_fields = []\<rparr>]"

theorem fixed_bits_position_witness: "fixed_bits packet_rows = 64 \<and> laid_out packet_rows [64, 96] 0"
proof -
  have "laid_out packet_rows [64, 96] 0" by (simp add: packet_rows_def seg_extent_def)
  moreover from fixed_bits_position [OF this] obtain k where k: "k \<le> length packet_rows"
      "fixed_bits packet_rows = sum_list (take k [64, 96])"
      "\<forall>j < k. is_fixed (packet_rows ! j)" "k < length packet_rows \<longrightarrow> \<not> is_fixed (packet_rows ! k)"
    by blast
  moreover have "is_fixed (packet_rows ! 0)" "\<not> is_fixed (packet_rows ! 1)" "length packet_rows = 2"
    by (simp_all add: packet_rows_def is_fixed_def seg_extent_def)
  with k(1,3,4) have "k = 1" by (metis One_nat_def less_2_cases_iff less_one linorder_neqE_nat nat_less_le not_less)
  ultimately show ?thesis by simp
qed

text \<open>An arm that \<open>arms_fit\<close> refuses is not \<open>bits\<close> wide in any wire, and an arm of fixed rows
  that it accepts is \<open>bits\<close> wide in every wire.\<close>

lemma arms_fit_sound:
  assumes "a \<in> set arms" "laid_out (ar_segments a) ws 0"
  shows "(\<not> arm_fits (ar_segments a) bits \<longrightarrow> sum_list ws \<noteq> bits \<and> \<not> arms_fit arms bits)
    \<and> (arms_fit arms bits \<longrightarrow> (\<forall>r \<in> set (ar_segments a). is_fixed r) \<longrightarrow> sum_list ws = bits)"
  using assms(1) arms_fit_all [of arms bits] arm_fits_loop_needed [OF assms(2), of bits]
    arm_fits_loop_exact [OF assms(2), of bits] by (auto simp: arm_fits_def list_all_iff)

lemma arms_fit_sound_witness:
  "\<not> arms_fit [\<lparr>ar_name = ''A'', ar_value = Some 1, ar_segments = take 1 packet_rows\<rparr>] 32"
  using arms_fit_sound [of "\<lparr>ar_name = ''A'', ar_value = Some 1, ar_segments = take 1 packet_rows\<rparr>"
      "[\<lparr>ar_name = ''A'', ar_value = Some 1, ar_segments = take 1 packet_rows\<rparr>]" "[64]" 32]
  by (simp add: packet_rows_def arm_fits_def seg_extent_def)

end
