(* ===== verification/Traits.thy ===== *)
theory Traits
  imports Segments Buffers
begin

text \<open>
  The traits a derive implements (\<open>layline-core/src/field.rs\<close>, \<open>segment.rs\<close>, \<open>view.rs\<close>, \<open>dispatch.rs\<close>,
  \<open>slot.rs\<close>): a trait is the record of its required constants and methods, and a provided method is a
  definition over the record. The bodies of the required methods are generated per type, so they
  are arguments here. A trait whose methods are generic over the buffer \<open>B\<close> has the buffer's type
  as a parameter.
\<close>

section \<open>\<open>Layout\<close>\<close>

record ('t, 'b) layout =
  lay_NAME :: string
  WIRE_BYTES :: usize
  FIELDS :: "field_def list"
  DECODE_FALLIBLE :: bool
  decode_slice :: "u8 list \<Rightarrow> parse_error + 't"
  lay_encode_into :: "'b buffer_ops \<Rightarrow> 't \<Rightarrow> 'b \<Rightarrow> (overflow + unit) \<times> 'b"
  lay_PREFIX_BITS :: nat
  STATED :: "stated_def list"
  TYPES :: "type_def list"
  CONSTANTS :: "const_def list"
  RANGES :: "range_def list"
  lay_COVERED :: "cover_def list"

definition decode_prefix :: "('t, 'b) layout \<Rightarrow> u8 list \<Rightarrow> parse_error + ('t \<times> usize)" where
  "decode_prefix L bytes =
     (if WIRE_BYTES L \<le> length bytes
      then map_res (\<lambda>v. (v, WIRE_BYTES L)) (decode_slice L (take (WIRE_BYTES L) bytes))
      else Inl (Short (WIRE_BYTES L) (length bytes) 0))"

section \<open>\<open>Message\<close>, \<open>MessageRef\<close> and \<open>Choice\<close>\<close>

record ('m, 'c, 'b) message =
  msg_NAME :: string
  msg_SEGMENTS :: "segment_def list"
  PARAMS :: "param_def list"
  msg_COVERED :: "cover_def list"
  msg_OPEN_ENDED :: bool
  decode_with_nested :: "u8 list \<Rightarrow> nat \<Rightarrow> 'c \<Rightarrow> parse_error + ('m \<times> usize)"
  encode_into_with :: "'b buffer_ops \<Rightarrow> 'm \<Rightarrow> 'b \<Rightarrow> 'c \<Rightarrow> (overflow + unit) \<times> 'b"

definition decode_with :: "('m, 'c, 'b) message \<Rightarrow> u8 list \<Rightarrow> 'c \<Rightarrow> parse_error + ('m \<times> usize)" where
  "decode_with M bytes ctx = decode_with_nested M bytes 0 ctx"

definition msg_encode_into ::
    "('m, unit, 'b) message \<Rightarrow> 'b buffer_ops \<Rightarrow> 'm \<Rightarrow> 'b \<Rightarrow> (overflow + unit) \<times> 'b" where
  "msg_encode_into M B self out = encode_into_with M B self out ()"

definition encode_with :: "('m, 'c, u8 list) message \<Rightarrow> 'm \<Rightarrow> 'c \<Rightarrow> u8 list option" where
  "encode_with M self ctx = to_vec (\<lambda>out. encode_into_with M vec_ops self out ctx)"

definition msg_decode :: "('m, unit, 'b) message \<Rightarrow> u8 list \<Rightarrow> parse_error + ('m \<times> usize)" where
  "msg_decode M bytes = decode_with M bytes ()"

definition msg_encode :: "('m, unit, u8 list) message \<Rightarrow> 'm \<Rightarrow> u8 list option" where
  "msg_encode M self = encode_with M self ()"

record ('m, 'b) message_ref =
  ref_NAME :: string
  ref_SEGMENTS :: "segment_def list"
  ref_COVERED :: "cover_def list"
  ref_decode :: "u8 list \<Rightarrow> parse_error + ('m \<times> usize)"
  ref_encode_into :: "'b buffer_ops \<Rightarrow> 'm \<Rightarrow> 'b \<Rightarrow> (overflow + unit) \<times> 'b"

definition ref_encode :: "('m, u8 list) message_ref \<Rightarrow> 'm \<Rightarrow> u8 list option" where
  "ref_encode M self = to_vec (\<lambda>out. ref_encode_into M vec_ops self out)"

record ('m, 'b) choice =
  ch_NAME :: string
  ARMS :: "arm_def list"
  ch_COVERED :: "arm_cover list"
  ch_OPEN_ENDED :: bool
  ch_decode_with_nested :: "i64 \<Rightarrow> u8 list \<Rightarrow> nat \<Rightarrow> parse_error + ('m \<times> usize)"
  discriminant_of :: "'m \<Rightarrow> i64 option"
  ch_encode_into :: "'b buffer_ops \<Rightarrow> 'm \<Rightarrow> 'b \<Rightarrow> (overflow + unit) \<times> 'b"

definition ch_decode_with :: "('m, 'b) choice \<Rightarrow> i64 \<Rightarrow> u8 list \<Rightarrow> parse_error + ('m \<times> usize)" where
  "ch_decode_with C d bytes = ch_decode_with_nested C d bytes 0"

definition ch_defines :: "('m, 'b) choice \<Rightarrow> i64 \<Rightarrow> bool" where
  "ch_defines C d = list_ex (\<lambda>arm. ar_value arm = Some d) (ARMS C)"

definition ch_encode :: "('m, u8 list) choice \<Rightarrow> 'm \<Rightarrow> u8 list option" where
  "ch_encode C self = to_vec (\<lambda>out. ch_encode_into C vec_ops self out)"

section \<open>\<open>Dispatch\<close>, \<open>Slot\<close> and \<open>View\<close>\<close>

record ('m, 'id, 'b) dispatch =
  dsp_PREFIX_BITS :: nat
  dsp_decode :: "'id \<Rightarrow> u8 list \<Rightarrow> 'm"
  dsp_id :: "'m \<Rightarrow> 'id"
  dsp_unlisted :: "'m \<Rightarrow> 'id option"
  dsp_encode_into :: "'b buffer_ops \<Rightarrow> 'm \<Rightarrow> 'b \<Rightarrow> (overflow + unit) \<times> 'b"

record ('m, 't) slot_ops =
  slot :: "'m \<Rightarrow> 't option"

text \<open>
  A view is its bytes: \<open>from_slice\<close> is \<open>None\<close> for a wrong length, and \<open>vw_verify\<close> is the
  implementation of \<open>verify\<close> where the view gives one.
\<close>

record ('v, 't, 'b) view =
  view_owned :: "('t, 'b) layout"
  from_slice :: "u8 list \<Rightarrow> 'v option"
  from_slice_mut :: "u8 list \<Rightarrow> 'v option"
  as_wire :: "'v \<Rightarrow> u8 list"
  vw_decode :: "'v \<Rightarrow> 't"
  vw_verify :: "('v \<Rightarrow> parse_error + unit) option"

definition run_verify :: "('v, 't, 'b) view \<Rightarrow> 'v \<Rightarrow> parse_error + unit" where
  "run_verify V v = (case vw_verify V of Some f \<Rightarrow> f v | None \<Rightarrow> Inr ())"

definition checked_view :: "('v, 't, 'b) view \<Rightarrow> u8 list \<Rightarrow> parse_error + 'v" where
  "checked_view V bytes =
     (let need = WIRE_BYTES (view_owned V)
      in bind_res (case from_slice V bytes of None \<Rightarrow> Inl (Short need (length bytes) 0) | Some v \<Rightarrow> Inr v)
           (\<lambda>v. bind_res (run_verify V v) (\<lambda>_. Inr v)))"

section \<open>What a layout's view and prefix decode agree on\<close>

text \<open>
  What the documentation of the traits says of a layout and its view: a slice decodes only at the
  layout's size, the view exists at the same size, holds the bytes it was given, runs the same
  checks and decodes to the same value. \<open>LayoutViews\<close> proves it of the views the derive generates.
\<close>

definition view_agrees :: "('v, 't, 'b) view \<Rightarrow> bool" where
  "view_agrees V \<longleftrightarrow>
     (\<forall>bytes. (case from_slice V bytes of
          None \<Rightarrow> length bytes \<noteq> WIRE_BYTES (view_owned V)
        | Some v \<Rightarrow> length bytes = WIRE_BYTES (view_owned V) \<and> as_wire V v = bytes
            \<and> decode_slice (view_owned V) bytes = map_res (\<lambda>_. vw_decode V v) (run_verify V v)))"

text \<open>Then decoding a prefix is viewing its first bytes with the checks: the same errors, the same value behind the view.\<close>

lemma agreeing_view_prefix:
  assumes "view_agrees V"
  shows "decode_prefix (view_owned V) bytes =
    (if length bytes < WIRE_BYTES (view_owned V) then Inl (Short (WIRE_BYTES (view_owned V)) (length bytes) 0)
     else map_res (\<lambda>v. (vw_decode V v, WIRE_BYTES (view_owned V)))
            (checked_view V (take (WIRE_BYTES (view_owned V)) bytes)))"
proof (cases "length bytes < WIRE_BYTES (view_owned V)")
  case False
  let ?head = "take (WIRE_BYTES (view_owned V)) bytes"
  from False have "length ?head = WIRE_BYTES (view_owned V)" by simp
  with assms [unfolded view_agrees_def, rule_format, of ?head] obtain v where v: "from_slice V ?head = Some v"
      "decode_slice (view_owned V) ?head = map_res (\<lambda>_. vw_decode V v) (run_verify V v)"
    by (cases "from_slice V ?head") simp_all
  with False show ?thesis
    by (cases "run_verify V v") (simp_all add: decode_prefix_def checked_view_def Let_def not_less)
qed (simp add: decode_prefix_def)

end
