(* ===== verification/Texts.thy ===== *)
theory Texts
  imports Buffers
begin

text \<open>
  Text encodings (\<open>layline-core/src/text.rs\<close>). A \<open>char\<close> of Rust is a Unicode scalar value, here its
  code point, and a text is the list of its characters. \<open>Utf8\<close> rests on two operations of the
  standard library, \<open>from_utf8\<close> and \<open>char::encode_utf8\<close>, written out here: a decoded text is \<open>None\<close>
  for overlong forms, surrogates and code points past \<open>0x10FFFF\<close>.
\<close>

type_synonym usv = nat

definition is_scalar :: "nat \<Rightarrow> bool" where
  "is_scalar c \<longleftrightarrow> c < 0xD800 \<or> 0xDFFF < c \<and> c < 0x110000"

record 'b text_codec =
  text_decode :: "u8 list \<Rightarrow> usv list option"
  encode_char :: "'b buffer_ops \<Rightarrow> usv \<Rightarrow> 'b \<Rightarrow> (overflow + unit) \<times> 'b"
  encoded_len :: "usv list \<Rightarrow> usize"

definition encode_utf8 :: "usv \<Rightarrow> u8 list" where
  "encode_utf8 c =
     (if c < 0x80 then [of_nat c]
      else if c < 0x800 then [of_nat (0xC0 + c div 64), of_nat (0x80 + c mod 64)]
      else if c < 0x10000 then
        [of_nat (0xE0 + c div 4096), of_nat (0x80 + c div 64 mod 64), of_nat (0x80 + c mod 64)]
      else [of_nat (0xF0 + c div 262144), of_nat (0x80 + c div 4096 mod 64),
            of_nat (0x80 + c div 64 mod 64), of_nat (0x80 + c mod 64)])"

text \<open>The low six bits of a continuation byte.\<close>

definition continuation :: "u8 \<Rightarrow> nat option" where
  "continuation b = (if 0x80 \<le> unat b \<and> unat b < 0xC0 then Some (unat b - 0x80) else None)"

fun next_scalar :: "u8 list \<Rightarrow> (usv \<times> u8 list) option" where
  "next_scalar [] = None"
| "next_scalar (b # bs) =
     (let n = unat b
      in if n < 0x80 then Some (n, bs)
         else if n < 0xC2 then None
         else if n < 0xE0 then
           (case bs of b1 # r \<Rightarrow>
              (case continuation b1 of Some x \<Rightarrow> Some ((n - 0xC0) * 64 + x, r) | None \<Rightarrow> None)
            | _ \<Rightarrow> None)
         else if n < 0xF0 then
           (case bs of b1 # b2 # r \<Rightarrow>
              (case (continuation b1, continuation b2) of
                 (Some x, Some y) \<Rightarrow>
                   let c = (n - 0xE0) * 4096 + x * 64 + y
                   in if 0x800 \<le> c \<and> is_scalar c then Some (c, r) else None
               | _ \<Rightarrow> None)
            | _ \<Rightarrow> None)
         else if n < 0xF5 then
           (case bs of b1 # b2 # b3 # r \<Rightarrow>
              (case (continuation b1, continuation b2, continuation b3) of
                 (Some x, Some y, Some z) \<Rightarrow>
                   let c = (n - 0xF0) * 262144 + x * 4096 + y * 64 + z
                   in if 0x10000 \<le> c \<and> is_scalar c then Some (c, r) else None
               | _ \<Rightarrow> None)
            | _ \<Rightarrow> None)
         else None)"

lemma next_scalar_shorter: "next_scalar bs = Some (c, r) \<Longrightarrow> length r < length bs"
  by (cases bs) (auto simp: Let_def split: if_splits list.splits option.splits)

function from_utf8 :: "u8 list \<Rightarrow> usv list option" where
  "from_utf8 bs =
     (if bs = [] then Some []
      else case next_scalar bs of
        None \<Rightarrow> None
      | Some (c, r) \<Rightarrow> map_option ((#) c) (from_utf8 r))"
  by pat_completeness auto
termination
  by (relation "measure length") (auto dest: next_scalar_shorter)

declare from_utf8.simps [simp del]

definition utf8 :: "'b text_codec" where
  "utf8 = \<lparr>text_decode = from_utf8,
     encode_char = (\<lambda>B c out. push B out (encode_utf8 c)),
     encoded_len = (\<lambda>text. length (concat (map encode_utf8 text)))\<rparr>"

text \<open>Encoding a text one character after another, as a field of text does.\<close>

fun encode_text :: "'b text_codec \<Rightarrow> 'b buffer_ops \<Rightarrow> usv list \<Rightarrow> 'b \<Rightarrow> (overflow + unit) \<times> 'b" where
  "encode_text T B [] out = (Inr (), out)"
| "encode_text T B (c # cs) out =
     (case encode_char T B c out of
        (Inl e, out') \<Rightarrow> (Inl e, out')
      | (Inr _, out') \<Rightarrow> encode_text T B cs out')"

section \<open>The two directions\<close>

lemma unat_byte: "n < 256 \<Longrightarrow> unat (of_nat n :: u8) = n"
  by (simp add: unat_of_nat)

lemma continuation_of_nat: "x < 64 \<Longrightarrow> continuation (of_nat (0x80 + x)) = Some x"
  using unat_byte [of "0x80 + x"] unfolding continuation_def by auto

lemma continuation_Some: "continuation b = Some x \<Longrightarrow> x < 64 \<and> b = of_nat (0x80 + x)"
  by (auto simp: continuation_def split: if_splits)

lemma three_parts: "c div 4096 * 4096 + c div 64 mod 64 * 64 + c mod 64 = c" for c :: nat
proof -
  have "c div 64 = c div 64 div 64 * 64 + c div 64 mod 64" "c = c div 64 * 64 + c mod 64" by simp_all
  moreover have "c div 64 div 64 = c div 4096" by (simp flip: div_mult2_eq)
  ultimately show ?thesis by linarith
qed

lemma four_parts:
  "c div 262144 * 262144 + c div 4096 mod 64 * 4096 + c div 64 mod 64 * 64 + c mod 64 = c" for c :: nat
proof -
  have "c div 4096 = c div 4096 div 64 * 64 + c div 4096 mod 64" by simp
  moreover have "c div 4096 div 64 = c div 262144" by (simp flip: div_mult2_eq)
  ultimately show ?thesis using three_parts [of c] by linarith
qed

lemmas lead_byte = unat_byte [of "0xC0 + _"] unat_byte [of "0xE0 + _"] unat_byte [of "0xF0 + _"]

lemma encode_utf8_4: "0x10000 \<le> c \<Longrightarrow> encode_utf8 c =
    [of_nat (0xF0 + c div 262144), of_nat (0x80 + c div 4096 mod 64), of_nat (0x80 + c div 64 mod 64),
     of_nat (0x80 + c mod 64)]"
  by (simp add: encode_utf8_def del: of_nat_add)

lemma next_scalar_4:
  assumes "a < 5" "x < 64" "y < 64" "z < 64"
    and "0x10000 \<le> a * 262144 + x * 4096 + y * 64 + z" "is_scalar (a * 262144 + x * 4096 + y * 64 + z)"
  shows "next_scalar ([of_nat (0xF0 + a), of_nat (0x80 + x), of_nat (0x80 + y), of_nat (0x80 + z)] @ r)
    = Some (a * 262144 + x * 4096 + y * 64 + z, r)"
proof -
  define b :: u8 where "b = of_nat (0xF0 + a)"
  have b: "unat b = 0xF0 + a" using assms(1) lead_byte(3) [of a] by (simp add: b_def del: of_nat_add)
  show ?thesis
    unfolding b_def [symmetric] append_Cons append_Nil next_scalar.simps Let_def b
    using assms continuation_of_nat [OF assms(2)] continuation_of_nat [OF assms(3)] continuation_of_nat [OF assms(4)]
    by (simp del: of_nat_add)
qed

lemma next_scalar_encode: "is_scalar c \<Longrightarrow> next_scalar (encode_utf8 c @ r) = Some (c, r)"
proof -
  assume c: "is_scalar c"
  note cont = continuation_of_nat [of "c mod 64"] continuation_of_nat [of "c div 64 mod 64"]
    continuation_of_nat [of "c div 4096 mod 64"]
  consider "c < 0x80" | "0x80 \<le> c" "c < 0x800" | "0x800 \<le> c" "c < 0x10000" | "0x10000 \<le> c"
    by linarith
  then show ?thesis
  proof cases
    case 1
    then show ?thesis by (simp add: encode_utf8_def unat_byte)
  next
    case 2
    then have "c div 64 < 32" "2 \<le> c div 64" by linarith+
    then show ?thesis
      using 2 cont lead_byte(1) [of "c div 64"] by (simp add: encode_utf8_def Let_def del: of_nat_add)
  next
    case 3
    then have "c div 4096 < 16" by linarith
    then show ?thesis
      using 3 c cont three_parts [of c] lead_byte(2) [of "c div 4096"]
      by (simp add: encode_utf8_def Let_def del: of_nat_add)
  next
    case 4
    then have "c div 262144 < 5" using c unfolding is_scalar_def by linarith
    then show ?thesis
      unfolding encode_utf8_4 [OF 4]
      using next_scalar_4 [of "c div 262144" "c div 4096 mod 64" "c div 64 mod 64" "c mod 64" r] 4 c
      unfolding four_parts by simp
  qed
qed

lemma last_six: "c = k * 64 + y \<Longrightarrow> y < 64 \<Longrightarrow> c div 64 = k \<and> c mod 64 = y" for c :: nat
  by simp

lemma div_4096: "c div 4096 = c div 64 div 64" "c div 262144 = c div 64 div 64 div 64" for c :: nat
  by (simp_all flip: div_mult2_eq)

text \<open>A scalar read from the front is one, and its encoding is the bytes read.\<close>

lemma next_scalar_decode: "next_scalar bs = Some (c, r) \<Longrightarrow> is_scalar c \<and> bs = encode_utf8 c @ r"
proof (cases bs)
  case (Cons b t)
  assume n: "next_scalar bs = Some (c, r)"
  have b: "of_nat (unat b) = b" "unat b < 256" using unsigned_less [of b] by simp_all
  consider "unat b < 0x80" | "0xC2 \<le> unat b" "unat b < 0xE0" | "0xE0 \<le> unat b" "unat b < 0xF0"
    | "0xF0 \<le> unat b" "unat b < 0xF5"
    using n Cons by (auto simp: Let_def split: if_splits)
  then show ?thesis
  proof cases
    case 1
    with n Cons b show ?thesis by (auto simp: encode_utf8_def is_scalar_def)
  next
    case 2
    with n Cons obtain b1 x where x: "t = b1 # r" "continuation b1 = Some x" "c = (unat b - 0xC0) * 64 + x"
      by (auto simp: Let_def split: list.splits option.splits)
    then have "x < 64" "b1 = of_nat (0x80 + x)" using continuation_Some by blast+
    moreover from this(1) x 2 have "c div 64 = unat b - 0xC0" "c mod 64 = x" "0x80 \<le> c" "c < 0x800" by auto
    ultimately show ?thesis
      using Cons x 2 b(1) by (simp add: encode_utf8_def is_scalar_def del: of_nat_add)
  next
    case 3
    with n Cons obtain b1 b2 x y where x: "t = b1 # b2 # r" "continuation b1 = Some x" "continuation b2 = Some y"
      "c = (unat b - 0xE0) * 4096 + x * 64 + y" "0x800 \<le> c" "is_scalar c"
      by (auto simp: Let_def split: list.splits option.splits if_splits)
    then have xy: "x < 64" "b1 = of_nat (0x80 + x)" "y < 64" "b2 = of_nat (0x80 + y)"
      using continuation_Some by blast+
    have "c = ((unat b - 0xE0) * 64 + x) * 64 + y" using x(4) by simp
    from last_six [OF this xy(3)] have "c div 64 = (unat b - 0xE0) * 64 + x" "c mod 64 = y" by simp_all
    moreover from this(1) xy(1) have "c div 4096 = unat b - 0xE0" by (simp add: div_4096)
    moreover have "c < 0x10000" using x(4) xy 3 by linarith
    moreover note xy
    ultimately show ?thesis
      using Cons x 3 b(1) by (simp add: encode_utf8_def del: of_nat_add)
  next
    case 4
    with n Cons obtain b1 b2 b3 x y z where x: "t = b1 # b2 # b3 # r" "continuation b1 = Some x"
      "continuation b2 = Some y" "continuation b3 = Some z"
      "c = (unat b - 0xF0) * 262144 + x * 4096 + y * 64 + z" "0x10000 \<le> c" "is_scalar c"
      by (auto simp: Let_def split: list.splits option.splits if_splits)
    then have xy: "x < 64" "b1 = of_nat (0x80 + x)" "y < 64" "b2 = of_nat (0x80 + y)"
        "z < 64" "b3 = of_nat (0x80 + z)"
      using continuation_Some by blast+
    have "c = (((unat b - 0xF0) * 64 + x) * 64 + y) * 64 + z" using x(5) by simp
    from last_six [OF this xy(5)] have "c div 64 = ((unat b - 0xF0) * 64 + x) * 64 + y" "c mod 64 = z"
      by simp_all
    moreover from last_six [OF this(1) xy(3)] have "c div 64 mod 64 = y" "c div 4096 = (unat b - 0xF0) * 64 + x"
      by (simp_all add: div_4096)
    moreover from last_six [OF this(2) xy(1)] have "c div 4096 mod 64 = x" "c div 262144 = unat b - 0xF0"
      by (simp_all add: div_4096)
    moreover have "of_nat (0xF0 + (unat b - 0xF0)) = b" using 4 b(1) by simp
    ultimately have "encode_utf8 c = [b, b1, b2, b3]"
      unfolding encode_utf8_4 [OF x(6)] xy(2,4,6) by metis
    then show ?thesis using Cons x(1,7) by simp
  qed
qed simp

lemma encode_utf8_nonempty: "encode_utf8 c \<noteq> []"
  by (simp add: encode_utf8_def)

lemma from_utf8_encode: "\<forall>c \<in> set cs. is_scalar c \<Longrightarrow> from_utf8 (concat (map encode_utf8 cs)) = Some cs"
  by (induction cs)
    (simp_all add: from_utf8.simps [of "[]"] from_utf8.simps [of "encode_utf8 _ @ _"] next_scalar_encode
      encode_utf8_nonempty)

lemma from_utf8_decode:
  "from_utf8 bs = Some cs \<Longrightarrow> bs = concat (map encode_utf8 cs) \<and> (\<forall>c \<in> set cs. is_scalar c)"
proof (induction bs arbitrary: cs rule: from_utf8.induct)
  case (1 bs)
  show ?case
  proof (cases "bs = []")
    case True
    with 1 show ?thesis by (simp add: from_utf8.simps [of "[]"])
  next
    case False
    with "1.prems" obtain c r ds where *: "next_scalar bs = Some (c, r)" "from_utf8 r = Some ds" "cs = c # ds"
      by (subst (asm) from_utf8.simps) (auto split: option.splits)
    from "1.IH" [OF False *(1) _ *(2)] next_scalar_decode [OF *(1)] *(3) show ?thesis by simp
  qed
qed

lemma from_utf8_iff: "from_utf8 bs = Some cs \<longleftrightarrow> bs = concat (map encode_utf8 cs) \<and> (\<forall>c \<in> set cs. is_scalar c)"
  using from_utf8_encode from_utf8_decode by blast

context buffer
begin

lemma encode_text_written:
  "ok out \<Longrightarrow> encode_text utf8 B cs out = (Inr (), out') \<Longrightarrow>
    ok out' \<and> written B out' = written B out @ concat (map encode_utf8 cs)"
proof (induction cs arbitrary: out)
  case (Cons c cs)
  then show ?case
    by (cases rule: push_cases [OF Cons.prems(1), of "encode_utf8 c"]) (auto simp: utf8_def)
qed simp

end

section \<open>Properties\<close>

text \<open>C28: UTF-8 text decodes exactly when its bytes are the encodings of scalar values, to those
  values: encoding a text character by character into a buffer appends bytes that decode to the
  text, as many as \<open>encoded_len\<close> says, and no other bytes decode to it.\<close>

theorem utf8_round_trip:
  assumes "encode_text utf8 fixed_ops cs out = (Inr (), out')" "fixed_ok out"
    "\<forall>c \<in> set cs. is_scalar c"
  shows "\<exists>bs. written fixed_ops out' = written fixed_ops out @ bs
    \<and> length bs = encoded_len (utf8 :: fixed text_codec) cs
    \<and> (\<forall>bs'. text_decode (utf8 :: fixed text_codec) bs' = Some cs \<longleftrightarrow> bs' = bs)"
  using fixed.encode_text_written [of out cs out'] assms from_utf8_iff
  by (auto simp: utf8_def)

theorem utf8_round_trip_witness:
  "text_decode (utf8 :: fixed text_codec) [0x63, 0xC3, 0xA9] = Some [0x63, 0xE9]"
proof -
  have out: "encode_text utf8 fixed_ops [0x63, 0xE9] (fixed_new (replicate 3 0))
      = (Inr (), \<lparr>room = [0x63, 0xC3, 0xA9], fixed_at = 3\<rparr>)"
    by (simp add: utf8_def fixed_ops_def fixed_push_def encode_utf8_def fixed_new_def usize_max_def numeral_3_eq_3)
  obtain bs where "written fixed_ops \<lparr>room = [0x63, 0xC3, 0xA9], fixed_at = 3\<rparr>
        = written fixed_ops (fixed_new (replicate 3 0)) @ bs"
      "\<forall>bs'. text_decode (utf8 :: fixed text_codec) bs' = Some [0x63, 0xE9] \<longleftrightarrow> bs' = bs"
    using utf8_round_trip [OF out] by (auto simp: fixed_new_def is_scalar_def fixed_ok_def usize_max_def)
  then show ?thesis by (simp add: fixed_ops_def fixed_new_def)
qed

end
