(* ===== verification/Printing.thy ===== *)
theory Printing
  imports FieldTables
begin

text \<open>
  The text of numbers and errors (\<open>layline-core/src/message.rs\<close>, \<open>field.rs\<close>): the formats of \<open>core::fmt\<close>
  the sources use, and the \<open>Display\<close> implementations of the two error types. A function that writes
  to a formatter is the text it writes: the sources pass a writer's error on at once and do
  nothing else with it.
\<close>

section \<open>Numbers\<close>

definition digit :: "nat \<Rightarrow> char" where
  "digit d = ''0123456789abcdef'' ! d"

fun radix :: "nat \<Rightarrow> nat \<Rightarrow> string" where
  "radix b n = (if b < 2 \<or> n < b then [digit n] else radix b (n div b) @ [digit (n mod b)])"

declare radix.simps [simp del]

definition dec :: "nat \<Rightarrow> string" where
  "dec n = radix 10 n"

definition dec_int :: "int \<Rightarrow> string" where
  "dec_int i = (if i < 0 then ''-'' @ dec (nat (- i)) else dec (nat i))"

text \<open>\<open>{:02x}\<close>, \<open>{:#x}\<close>, \<open>{:#04x}\<close> and \<open>{:#b}\<close>. A signed number prints the bits it is stored as.\<close>

definition hex2 :: "u8 \<Rightarrow> string" where
  "hex2 w = (if unat w < 16 then ''0'' else []) @ radix 16 (unat w)"

definition hex_alt :: "u64 \<Rightarrow> string" where
  "hex_alt w = ''0x'' @ radix 16 (unat w)"

definition hex_alt4 :: "u8 \<Rightarrow> string" where
  "hex_alt4 w = ''0x'' @ hex2 w"

definition bin_alt :: "u64 \<Rightarrow> string" where
  "bin_alt w = ''0b'' @ radix 2 (unat w)"

definition nl :: string where
  "nl = [CHR 0x0A]"

section \<open>Errors\<close>

fun show_parse_error :: "parse_error \<Rightarrow> string" where
  "show_parse_error (Short need_bytes got_bytes pos) =
     ''read at byte '' @ dec pos @ '' needs '' @ dec need_bytes @ '' bytes, but only '' @ dec got_bytes @ '' are available''"
| "show_parse_error (Malformed field pos) = ''`'' @ field @ ''` at byte '' @ dec pos @ '' is malformed''"
| "show_parse_error (Checksum field expected actual) =
     ''checksum `'' @ field @ ''` is '' @ hex_alt actual @ '', expected '' @ hex_alt expected"
| "show_parse_error (Prefix expected got) = ''prefix is '' @ bin_alt got @ '', expected '' @ bin_alt expected"
| "show_parse_error (OutOfRange field v lo hi) =
     ''`'' @ field @ ''` is '' @ dec_int (sint v) @ '', outside '' @ dec_int (sint lo) @ ''..='' @ dec_int (sint hi)"
| "show_parse_error (Magic field expected pos) =
     ''magic `'' @ field @ ''` at byte '' @ dec pos @ '' is not '' @ concat (map hex2 expected)"
| "show_parse_error (TooDeep limit) = ''nested deeper than '' @ dec limit @ '' messages''"

fun show_layout_error :: "layout_error \<Rightarrow> string" where
  "show_layout_error (Gap field expected_start actual_start) =
     ''field '' @ dec field @ '' starts at bit '' @ dec actual_start
       @ '', but the previous field ends at bit '' @ dec expected_start"
| "show_layout_error (ShortTable fin total_bits) =
     ''the fields end at bit '' @ dec fin @ '' of a '' @ dec total_bits @ ''-bit container''"

section \<open>Numbers read back\<close>

definition digit_value :: "char \<Rightarrow> nat" where
  "digit_value c = (let n = of_char c in if n < 58 then n - 48 else n - 87)"

definition hex_char :: "char \<Rightarrow> bool" where
  "hex_char c \<longleftrightarrow> (let n = of_char c :: nat in 48 \<le> n \<and> n \<le> 57 \<or> 97 \<le> n \<and> n \<le> 102)"

lemma digit_value: "d < 16 \<Longrightarrow> digit_value (digit d) = d \<and> hex_char (digit d)"
proof -
  assume "d < 16"
  moreover have "list_all (\<lambda>d. digit_value (digit d) = d \<and> hex_char (digit d)) [0..<16]"
    by code_simp
  ultimately show ?thesis by (simp add: list_all_iff)
qed

definition read_radix :: "nat \<Rightarrow> string \<Rightarrow> nat" where
  "read_radix b s = foldl (\<lambda>n c. n * b + digit_value c) 0 s"

lemma read_radix: "2 \<le> b \<Longrightarrow> b \<le> 16 \<Longrightarrow> read_radix b (radix b n) = n"
proof (induction n rule: less_induct)
  case (less n)
  show ?case
  proof (cases "n < b")
    case True
    with less show ?thesis by (simp add: radix.simps [of b n] read_radix_def digit_value)
  next
    case False
    with less.prems have "n div b < n" "n mod b < b" by simp_all
    with less.prems have "n mod b < 16" by linarith
    with less.IH [of "n div b"] \<open>n div b < n\<close> less.prems False show ?thesis
      by (simp add: radix.simps [of b n] read_radix_def digit_value)
  qed
qed

lemma radix_inj: "2 \<le> b \<Longrightarrow> b \<le> 16 \<Longrightarrow> radix b m = radix b n \<longleftrightarrow> m = n"
  by (metis read_radix)

lemma radix_chars: "2 \<le> b \<Longrightarrow> b \<le> 16 \<Longrightarrow> list_all hex_char (radix b n)"
proof (induction n rule: less_induct)
  case (less n)
  show ?case
  proof (cases "n < b")
    case True
    with less digit_value [of n] show ?thesis by (simp add: radix.simps [of b n])
  next
    case False
    with less.prems have "n div b < n" "n mod b < b" by simp_all
    with less.prems have "n mod b < 16" by linarith
    with less.IH [of "n div b"] \<open>n div b < n\<close> less.prems False digit_value [of "n mod b"] show ?thesis
      by (simp add: radix.simps [of b n])
  qed
qed

lemma radix_nonempty: "radix b n \<noteq> []"
  by (simp add: radix.simps [of b n])

lemma dec_inj [simp]: "dec m = dec n \<longleftrightarrow> m = n"
  by (simp add: dec_def radix_inj)

lemma dec_chars: "list_all hex_char (dec n)"
  by (simp add: dec_def radix_chars)

lemma dec_no_sign: "dec n \<noteq> CHR ''-'' # s"
  using dec_chars [of n] by (auto simp: hex_char_def)

lemma dec_int_inj [simp]: "dec_int i = dec_int j \<longleftrightarrow> i = j"
  using dec_no_sign by (auto simp: dec_int_def) (metis dec_no_sign)+

end
