(* ===== verification/AuditText.thy ===== *)
theory AuditText
  imports Printing Traits
begin

text \<open>
  The audit format (\<open>layline-core/src/audit.rs\<close>): every table of a type, one record per line, each
  record a tag and blank-separated tokens. A function that writes to a formatter is the text it
  writes. The audit of a type is kept beside the code and compared, so it has to say everything:
  for names without blanks and line ends, as identifiers are, the text of a layout's audit
  determines its tables.
\<close>

section \<open>The records\<close>

record layout_records =
  lr_name :: string
  lr_bits :: nat
  lr_fields :: "field_def list"
  lr_types :: "type_def list"
  lr_constants :: "const_def list"
  lr_ranges :: "range_def list"
  lr_covered :: "cover_def list"
  lr_stated :: "stated_def list"

record message_records =
  mr_name :: string
  mr_segments :: "segment_def list"
  mr_covered :: "cover_def list"
  mr_params :: "param_def list"

record choice_records =
  cr_name :: string
  cr_arms :: "arm_def list"
  cr_covered :: "arm_cover list"

definition audit_layout :: "string \<Rightarrow> nat \<Rightarrow> field_def list \<Rightarrow> layout_records" where
  "audit_layout name bits fs =
     \<lparr>lr_name = name, lr_bits = bits, lr_fields = fs, lr_types = [], lr_constants = [], lr_ranges = [],
      lr_covered = [], lr_stated = []\<rparr>"

definition audit_message :: "string \<Rightarrow> segment_def list \<Rightarrow> message_records" where
  "audit_message name segments = \<lparr>mr_name = name, mr_segments = segments, mr_covered = [], mr_params = []\<rparr>"

definition audit_choice :: "string \<Rightarrow> arm_def list \<Rightarrow> choice_records" where
  "audit_choice name arms = \<lparr>cr_name = name, cr_arms = arms, cr_covered = []\<rparr>"

text \<open>The provided \<open>audit\<close> methods of the traits.\<close>

definition lay_audit :: "('t, 'b) layout \<Rightarrow> layout_records" where
  "lay_audit L = (audit_layout (lay_NAME L) (WIRE_BYTES L * 8) (FIELDS L))
     \<lparr>lr_stated := STATED L, lr_types := TYPES L, lr_constants := CONSTANTS L, lr_ranges := RANGES L,
      lr_covered := lay_COVERED L\<rparr>"

definition msg_audit :: "('m, 'c, 'b) message \<Rightarrow> message_records" where
  "msg_audit M = (audit_message (msg_NAME M) (msg_SEGMENTS M))
     \<lparr>mr_covered := msg_COVERED M, mr_params := PARAMS M\<rparr>"

definition ref_audit :: "('m, 'b) message_ref \<Rightarrow> message_records" where
  "ref_audit M = (audit_message (ref_NAME M) (ref_SEGMENTS M))\<lparr>mr_covered := ref_COVERED M\<rparr>"

definition ch_audit :: "('m, 'b) choice \<Rightarrow> choice_records" where
  "ch_audit C = (audit_choice (ch_NAME C) (ARMS C))\<lparr>cr_covered := ch_COVERED C\<rparr>"

section \<open>Tokens\<close>

fun absent :: "nat option \<Rightarrow> string" where
  "absent (Some n) = dec n"
| "absent None = ''-''"

definition scope :: "string \<Rightarrow> string option \<Rightarrow> string" where
  "scope ty arm = ty @ (case arm of Some a \<Rightarrow> ''::'' @ a | None \<Rightarrow> [])"

definition by_token :: "by_def \<Rightarrow> string" where
  "by_token b = by_field b @ '','' @ dec (by_scale b) @ '','' @ dec_int (by_offset b)"

fun start_token :: "seg_start \<Rightarrow> string" where
  "start_token (StartAt b) = ''at,'' @ dec b"
| "start_token (StartAfter segment bits) = ''after,'' @ segment @ '','' @ dec bits"
| "start_token (StartSeek f) = ''seek,'' @ f"

fun when_token :: "presence option \<Rightarrow> string" where
  "when_token None = ''-''"
| "when_token (Some (WhenFlag field m)) = ''flag,'' @ field @ '','' @ hex_alt m"
| "when_token (Some (WhenClear field m)) = ''clear,'' @ field @ '','' @ hex_alt m"
| "when_token (Some WhenOffset) = ''offset''"
| "when_token (Some WhenBit) = ''bit''"
| "when_token (Some WhenRemaining) = ''remaining''"
| "when_token (Some (WhenLength f)) = ''length,'' @ f"

fun span_token :: "span \<Rightarrow> string" where
  "span_token (FixedBits bits) = ''fixed,'' @ dec bits"
| "span_token (Counted b each) = ''counted,'' @ by_token b @ '','' @ absent each"
| "span_token (Squared b each) = ''squared,'' @ by_token b @ '','' @ absent each"
| "span_token (Strided b stride) = ''strided,'' @ by_token b @ '','' @ by_token stride"
| "span_token (Window b) = ''window,'' @ by_token b"
| "span_token SelfDelimiting = ''selfdelimiting''"
| "span_token (Pad al) = ''pad,'' @ dec al"
| "span_token (Until t) = ''until,'' @ hex_alt4 t"
| "span_token (Terminated m) = ''terminated,'' @ hex_alt4 m"
| "span_token (Fill None) = ''fill''"
| "span_token (Fill (Some cap)) = ''fill,'' @ absent (Some cap)"
| "span_token (Chosen (OnField f)) = ''chosen,field,'' @ f"
| "span_token (Chosen BodyLength) = ''chosen,bodylength''"
| "span_token (ChosenIn (OnField f) bits) = ''chosenin,field,'' @ f @ '','' @ dec bits"
| "span_token (ChosenIn BodyLength bits) = ''chosenin,bodylength,'' @ dec bits"
| "span_token (ChosenWithin (OnField f) b) = ''chosenwithin,field,'' @ f @ '','' @ by_token b"
| "span_token (ChosenWithin BodyLength b) = ''chosenwithin,bodylength,'' @ by_token b"

fun edge_token :: "cover_edge \<Rightarrow> string" where
  "edge_token EdgeStart = ''start''"
| "edge_token (EdgeBefore row) = ''before,'' @ row"
| "edge_token (EdgeAfter row) = ''after,'' @ row"

fun verdict_token :: "layout_error + unit \<Rightarrow> string" where
  "verdict_token (Inr _) = ''ok''"
| "verdict_token (Inl (Gap field expected_start actual_start)) =
     ''gap,'' @ dec field @ '','' @ dec expected_start @ '','' @ dec actual_start"
| "verdict_token (Inl (ShortTable fin total_bits)) = ''short,'' @ dec fin @ '','' @ dec total_bits"

section \<open>Lines\<close>

definition field_records :: "string \<Rightarrow> string option \<Rightarrow> field_def list \<Rightarrow> nat option \<Rightarrow> string" where
  "field_records ty arm fs tot =
     concat (map (\<lambda>f. ''F '' @ scope ty arm @ '' '' @ dec (ext_start (fd_extent f)) @ '' ''
       @ dec (ext_width (fd_extent f)) @ '' '' @ fd_name f @ nl) fs)
     @ (case tot of None \<Rightarrow> []
        | Some t \<Rightarrow> ''V '' @ scope ty arm @ '' '' @ verdict_token (check_layout fs t) @ nl)"

definition tagged :: "string \<Rightarrow> string \<Rightarrow> 'r list \<Rightarrow> ('r \<Rightarrow> string) \<Rightarrow> string" where
  "tagged tag ty rows tail = concat (map (\<lambda>row. tag @ '' '' @ ty @ '' '' @ tail row @ nl) rows)"

definition cover_records :: "string \<Rightarrow> string option \<Rightarrow> cover_def list \<Rightarrow> string" where
  "cover_records ty arm covered =
     concat (map (\<lambda>c. ''K '' @ scope ty arm @ '' '' @ cv_field c @ '' '' @ edge_token (cv_from c) @ '' ''
       @ edge_token (cv_to c) @ (if cv_excludes_self c then '' excludes_self'' else '' -'') @ nl) covered)"

definition segment_line :: "string \<Rightarrow> string option \<Rightarrow> segment_def \<Rightarrow> string" where
  "segment_line ty arm d =
     ''G '' @ scope ty arm @ '' '' @ sg_name d @ '' '' @ start_token (sg_start d) @ '' ''
       @ span_token (sg_span d) @ '' '' @ when_token (sg_when d) @ '' ''
       @ (case sg_decoded_by d of Some t \<Rightarrow> t | None \<Rightarrow> ''-'') @ nl
     @ (if sg_fields d \<noteq> [] then field_records (sg_name d) None (sg_fields d) (seg_extent d) else [])"

definition segment_records ::
    "string \<Rightarrow> string option \<Rightarrow> segment_def list \<Rightarrow> cover_def list \<Rightarrow> string" where
  "segment_records ty arm segments covered =
     concat (map (segment_line ty arm) segments) @ cover_records ty arm covered
     @ ''E '' @ scope ty arm @ '' '' @ dec (fixed_bits segments) @ nl"

definition show_layout :: "layout_records \<Rightarrow> string" where
  "show_layout r =
     ''L '' @ lr_name r @ '' '' @ dec (lr_bits r) @ nl
     @ field_records (lr_name r) None (lr_fields r) (Some (lr_bits r))
     @ tagged ''T'' (lr_name r) (lr_types r) (\<lambda>c. td_field c @ '' '' @ td_ty c)
     @ tagged ''X'' (lr_name r) (lr_constants r) (\<lambda>c. cd_field c @ '' '' @ concat (map hex2 (cd_bytes c)))
     @ tagged ''R'' (lr_name r) (lr_ranges r)
         (\<lambda>c. rd_field c @ '' '' @ dec_int (sint (rd_lo c)) @ '' '' @ dec_int (sint (rd_hi c)))
     @ cover_records (lr_name r) None (lr_covered r)
     @ tagged ''S'' (lr_name r) (lr_stated r)
         (\<lambda>c. sd_field c @ '' '' @ unit_name (sd_unit c) @ '' '' @ dec (sd_pos c))"

definition show_message :: "message_records \<Rightarrow> string" where
  "show_message r =
     ''M '' @ mr_name r @ nl
     @ tagged ''P'' (mr_name r) (mr_params r) (\<lambda>p. pd_name p @ '' '' @ pd_ty p)
     @ segment_records (mr_name r) None (mr_segments r) (mr_covered r)"

definition arm_covers :: "choice_records \<Rightarrow> arm_def \<Rightarrow> cover_def list" where
  "arm_covers r a =
     (case find (\<lambda>c. ac_arm c = ar_name a) (cr_covered r) of Some c \<Rightarrow> ac_covered c | None \<Rightarrow> [])"

definition show_choice :: "choice_records \<Rightarrow> string" where
  "show_choice r =
     ''C '' @ cr_name r @ nl
     @ concat (map (\<lambda>a.
         ''A '' @ cr_name r @ '' '' @ ar_name a @ '' ''
           @ (case ar_value a of Some v \<Rightarrow> dec_int (sint v) | None \<Rightarrow> ''-'') @ nl
         @ segment_records (cr_name r) (Some (ar_name a)) (ar_segments a) (arm_covers r a)) (cr_arms r))"

section \<open>Reading a text of records\<close>

fun split_on :: "char \<Rightarrow> string \<Rightarrow> string list" where
  "split_on c [] = [[]]"
| "split_on c (x # xs) =
     (if x = c then [] # split_on c xs
      else case split_on c xs of [] \<Rightarrow> [[x]] | w # ws \<Rightarrow> (x # w) # ws)"

fun join :: "char \<Rightarrow> string list \<Rightarrow> string" where
  "join c [] = []"
| "join c [w] = w"
| "join c (w # ws) = w @ c # join c ws"

lemma split_on_nonempty [simp]: "split_on c s \<noteq> []"
  by (induction s) (auto split: list.splits)

lemma split_on_free: "c \<notin> set w \<Longrightarrow> split_on c w = [w]"
  by (induction w) auto

lemma split_on_append: "c \<notin> set w \<Longrightarrow> split_on c (w @ c # s) = w # split_on c s"
  by (induction w) auto

lemma split_on_join: "ws \<noteq> [] \<Longrightarrow> \<forall>w \<in> set ws. c \<notin> set w \<Longrightarrow> split_on c (join c ws) = ws"
  by (induction c ws rule: join.induct) (auto simp: split_on_free split_on_append)

lemma join_Cons: "ws \<noteq> [] \<Longrightarrow> join c (w # ws) = w @ c # join c ws"
  by (cases ws) auto

lemma join_split_on: "join c (split_on c s) = s"
proof (induction s)
  case (Cons x s)
  then show ?case
    by (cases "split_on c s"; cases "tl (split_on c s)") (auto simp: join_Cons)
qed simp

lemma split_on_inj: "split_on c s = split_on c t \<longleftrightarrow> s = t"
  by (metis join_split_on)

lemma split_on_chars: "w \<in> set (split_on c s) \<Longrightarrow> c \<notin> set w \<and> set w \<subseteq> set s"
  by (induction s arbitrary: w) (auto split: list.splits if_splits, blast+)

definition print_rows :: "string list list \<Rightarrow> string" where
  "print_rows rows = concat (map (\<lambda>ws. join CHR '' '' ws @ nl) rows)"

definition clean :: "string \<Rightarrow> bool" where
  "clean s \<longleftrightarrow> CHR '' '' \<notin> set s \<and> CHR 0x0A \<notin> set s"

lemma set_join: "set (join c ws) \<subseteq> {c} \<union> (\<Union>w \<in> set ws. set w)"
  by (induction c ws rule: join.induct) auto

lemma lines_of_rows:
  "\<forall>ws \<in> set rows. \<forall>w \<in> set ws. clean w \<Longrightarrow>
    split_on CHR 0x0A (print_rows rows) = map (join CHR '' '') rows @ [[]]"
proof (induction rows)
  case (Cons ws rows)
  have "CHR 0x0A \<notin> set (join CHR '' '' ws)"
    using set_join [of "CHR '' ''" ws] Cons.prems by (auto simp: clean_def)
  with Cons show ?case by (simp add: print_rows_def nl_def split_on_append)
qed (simp add: print_rows_def)

lemma read_rows:
  assumes "\<forall>ws \<in> set rows. ws \<noteq> [] \<and> (\<forall>w \<in> set ws. clean w)"
  shows "map (split_on CHR '' '') (butlast (split_on CHR 0x0A (print_rows rows))) = rows"
proof -
  have "split_on CHR 0x0A (print_rows rows) = map (join CHR '' '') rows @ [[]]"
    using assms by (intro lines_of_rows) blast
  moreover have "map (split_on CHR '' '') (map (join CHR '' '') rows) = rows"
    using assms by (induction rows) (auto simp: split_on_join clean_def)
  ultimately show ?thesis by simp
qed

lemma clean_list_all: "list_all hex_char s \<Longrightarrow> clean s"
  by (auto simp: clean_def hex_char_def list_all_iff)

lemma clean_append [simp]: "clean (s @ t) \<longleftrightarrow> clean s \<and> clean t"
  by (auto simp: clean_def)

lemma clean_Cons: "clean (c # s) \<longleftrightarrow> c \<noteq> CHR '' '' \<and> c \<noteq> CHR 0x0A \<and> clean s"
  by (auto simp: clean_def)

lemma clean_Nil [simp]: "clean []"
  by (simp add: clean_def)

lemma clean_dec [simp]: "clean (dec n)" "clean (dec_int i)"
  using dec_chars by (simp_all add: clean_list_all dec_int_def clean_Cons)

lemma hex2_chars: "list_all hex_char (hex2 w)"
  by (simp add: hex2_def radix_chars hex_char_def)

lemma clean_hex2 [simp]: "clean (concat (map hex2 bs))"
  by (induction bs) (simp_all add: clean_list_all hex2_chars)

section \<open>A layout's audit as rows\<close>

definition cover_row :: "string \<Rightarrow> cover_def \<Rightarrow> string list" where
  "cover_row name c = [''K'', name, cv_field c, edge_token (cv_from c), edge_token (cv_to c),
     if cv_excludes_self c then ''excludes_self'' else ''-'']"

definition layout_rows :: "layout_records \<Rightarrow> string list list" where
  "layout_rows r =
     [[''L'', lr_name r, dec (lr_bits r)]]
     @ map (\<lambda>f. [''F'', lr_name r, dec (ext_start (fd_extent f)), dec (ext_width (fd_extent f)), fd_name f]) (lr_fields r)
     @ [[''V'', lr_name r, verdict_token (check_layout (lr_fields r) (lr_bits r))]]
     @ map (\<lambda>c. [''T'', lr_name r, td_field c] @ split_on CHR '' '' (td_ty c)) (lr_types r)
     @ map (\<lambda>c. [''X'', lr_name r, cd_field c, concat (map hex2 (cd_bytes c))]) (lr_constants r)
     @ map (\<lambda>c. [''R'', lr_name r, rd_field c, dec_int (sint (rd_lo c)), dec_int (sint (rd_hi c))]) (lr_ranges r)
     @ map (cover_row (lr_name r)) (lr_covered r)
     @ map (\<lambda>c. [''S'', lr_name r, sd_field c, unit_name (sd_unit c), dec (sd_pos c)]) (lr_stated r)"

lemma print_rows_Cons: "print_rows (ws # rows) = join CHR '' '' ws @ nl @ print_rows rows"
  by (simp add: print_rows_def)

lemma print_rows_append: "print_rows (xs @ ys) = print_rows xs @ print_rows ys"
  by (simp add: print_rows_def)

lemma print_rows_map: "print_rows (map f xs) = concat (map (\<lambda>x. join CHR '' '' (f x) @ nl) xs)"
  by (simp add: print_rows_def comp_def)

lemma join_cover_row: "join CHR '' '' (cover_row name c) =
    ''K '' @ name @ '' '' @ cv_field c @ '' '' @ edge_token (cv_from c) @ '' '' @ edge_token (cv_to c)
      @ (if cv_excludes_self c then '' excludes_self'' else '' -'')"
  by (simp add: cover_row_def)

lemma show_layout_rows: "show_layout r = print_rows (layout_rows r)"
  by (simp add: show_layout_def layout_rows_def print_rows_append print_rows_Cons print_rows_map tagged_def
      field_records_def cover_records_def join_cover_row scope_def join_Cons join_split_on)

fun clean_edge :: "cover_edge \<Rightarrow> bool" where
  "clean_edge EdgeStart = True"
| "clean_edge (EdgeBefore row) = clean row"
| "clean_edge (EdgeAfter row) = clean row"

text \<open>Names are identifiers, and a type is written on one line.\<close>

definition layout_clean :: "layout_records \<Rightarrow> bool" where
  "layout_clean r \<longleftrightarrow> clean (lr_name r)
     \<and> (\<forall>f \<in> set (lr_fields r). clean (fd_name f))
     \<and> (\<forall>c \<in> set (lr_types r). clean (td_field c) \<and> CHR 0x0A \<notin> set (td_ty c))
     \<and> (\<forall>c \<in> set (lr_constants r). clean (cd_field c))
     \<and> (\<forall>c \<in> set (lr_ranges r). clean (rd_field c))
     \<and> (\<forall>c \<in> set (lr_covered r). clean (cv_field c) \<and> clean_edge (cv_from c) \<and> clean_edge (cv_to c))
     \<and> (\<forall>c \<in> set (lr_stated r). clean (sd_field c))"

lemma clean_edge_token [simp]: "clean_edge e \<Longrightarrow> clean (edge_token e)"
  by (cases e) (simp_all add: clean_Cons)

lemma clean_verdict_token [simp]: "clean (verdict_token v)"
  by (cases v rule: verdict_token.cases) (simp_all add: clean_Cons)

lemma clean_unit_name [simp]: "clean (unit_name u)"
  by (cases u) (simp_all add: clean_Cons)

lemma clean_tags [simp]:
  "clean ''F''" "clean ''L''" "clean ''V''" "clean ''T''" "clean ''X''" "clean ''R''" "clean ''K''" "clean ''S''"
  "clean ''excludes_self''" "clean ''-''"
  by (simp_all add: clean_Cons)

lemma rows_clean:
  assumes "layout_clean r" "ws \<in> set (layout_rows r)"
  shows "ws \<noteq> [] \<and> (\<forall>w \<in> set ws. clean w)"
proof -
  have types: "clean w" if "c \<in> set (lr_types r)" "w \<in> set (split_on CHR '' '' (td_ty c))" for c w
    using that assms(1) split_on_chars [OF that(2)] by (auto simp: layout_clean_def clean_def)
  show ?thesis
    using assms types by (auto simp: layout_rows_def layout_clean_def cover_row_def)
qed

lemma show_layout_read: "layout_clean r \<Longrightarrow>
    map (split_on CHR '' '') (butlast (split_on CHR 0x0A (show_layout r))) = layout_rows r"
  unfolding show_layout_rows by (rule read_rows) (simp add: rows_clean)

section \<open>The rows determine the tables\<close>

lemma hex2_digits: "hex2 w = [digit (unat w div 16), digit (unat w mod 16)]"
proof -
  have "unat w < 256" using unsigned_less [of w] by simp
  then have "unat w div 16 < 16" by simp
  moreover have "digit 0 = CHR ''0''" by (simp add: digit_def)
  ultimately show ?thesis
    by (simp add: hex2_def radix.simps [of 16 "unat w"] radix.simps [of 16 "unat w div 16"])
qed

lemma hex2_inj: "hex2 v = hex2 w \<longleftrightarrow> v = w"
proof
  assume eq: "hex2 v = hex2 w"
  have "unat v < 256" "unat w < 256" using unsigned_less [of v] unsigned_less [of w] by simp_all
  then have "unat v div 16 < 16" "unat w div 16 < 16" "unat v mod 16 < 16" "unat w mod 16 < 16" by simp_all
  then have "unat v div 16 = unat w div 16" "unat v mod 16 = unat w mod 16"
    using eq digit_value unfolding hex2_digits by (metis list.inject)+
  then have "unat v = unat w" by (metis div_mult_mod_eq)
  then show "v = w" by (rule unsigned_word_eqI)
qed simp

lemma concat_hex2_inj: "concat (map hex2 xs) = concat (map hex2 ys) \<Longrightarrow> xs = ys"
proof (induction xs arbitrary: ys)
  case Nil
  then show ?case by (cases ys) (simp_all add: hex2_digits)
next
  case (Cons x xs)
  then obtain y zs where ys: "ys = y # zs" by (cases ys) (simp_all add: hex2_digits)
  have "length (hex2 x) = length (hex2 y)" by (simp add: hex2_digits)
  with Cons ys show ?case by (simp add: hex2_inj)
qed

lemma edge_token_inj: "edge_token e = edge_token e' \<Longrightarrow> e = e'"
  by (cases e; cases e') auto

lemma unit_name_inj: "unit_name u = unit_name v \<Longrightarrow> u = v"
  by (cases u; cases v) auto

lemma tag_rows:
  "filter (\<lambda>ws. hd ws = ''L'') (layout_rows r) = [[''L'', lr_name r, dec (lr_bits r)]]"
  "filter (\<lambda>ws. hd ws = ''F'') (layout_rows r) =
     map (\<lambda>f. [''F'', lr_name r, dec (ext_start (fd_extent f)), dec (ext_width (fd_extent f)), fd_name f]) (lr_fields r)"
  "filter (\<lambda>ws. hd ws = ''T'') (layout_rows r) =
     map (\<lambda>c. [''T'', lr_name r, td_field c] @ split_on CHR '' '' (td_ty c)) (lr_types r)"
  "filter (\<lambda>ws. hd ws = ''X'') (layout_rows r) =
     map (\<lambda>c. [''X'', lr_name r, cd_field c, concat (map hex2 (cd_bytes c))]) (lr_constants r)"
  "filter (\<lambda>ws. hd ws = ''R'') (layout_rows r) =
     map (\<lambda>c. [''R'', lr_name r, rd_field c, dec_int (sint (rd_lo c)), dec_int (sint (rd_hi c))]) (lr_ranges r)"
  "filter (\<lambda>ws. hd ws = ''K'') (layout_rows r) = map (cover_row (lr_name r)) (lr_covered r)"
  "filter (\<lambda>ws. hd ws = ''S'') (layout_rows r) =
     map (\<lambda>c. [''S'', lr_name r, sd_field c, unit_name (sd_unit c), dec (sd_pos c)]) (lr_stated r)"
  by (simp_all add: layout_rows_def filter_map comp_def cover_row_def filter_True)

lemma map_inj: "map f xs = map f ys \<Longrightarrow> (\<And>x y. f x = f y \<Longrightarrow> x = y) \<Longrightarrow> xs = ys"
  by (metis inj_map_eq_map injI)

lemma layout_rows_inj:
  assumes "layout_rows r = layout_rows r'"
  shows "r = r'"
proof -
  have same: "filter P (layout_rows r) = filter P (layout_rows r')" for P using assms by simp
  note rows = same [of "\<lambda>ws. hd ws = ''L''"] same [of "\<lambda>ws. hd ws = ''F''"] same [of "\<lambda>ws. hd ws = ''T''"]
    same [of "\<lambda>ws. hd ws = ''X''"] same [of "\<lambda>ws. hd ws = ''R''"] same [of "\<lambda>ws. hd ws = ''K''"]
    same [of "\<lambda>ws. hd ws = ''S''"]
  note rows = rows [unfolded tag_rows]
  have name: "lr_name r = lr_name r'" "lr_bits r = lr_bits r'" using rows(1) by simp_all
  moreover have "lr_fields r = lr_fields r'"
    using rows(2) unfolding name by (rule map_inj) (auto intro!: field_def.equality extent.equality)
  moreover have "lr_types r = lr_types r'"
    using rows(3) unfolding name by (rule map_inj) (auto simp: split_on_inj intro!: type_def.equality)
  moreover have "lr_constants r = lr_constants r'"
    using rows(4) unfolding name by (rule map_inj) (auto dest: concat_hex2_inj intro!: const_def.equality)
  moreover have "lr_ranges r = lr_ranges r'"
    using rows(5) unfolding name by (rule map_inj) (auto intro!: range_def.equality intro: signed_word_eqI)
  moreover have "lr_covered r = lr_covered r'"
    using rows(6) unfolding name
    by (rule map_inj) (auto simp: cover_row_def dest: edge_token_inj split: if_splits intro!: cover_def.equality)
  moreover have "lr_stated r = lr_stated r'"
    using rows(7) unfolding name by (rule map_inj) (auto dest: unit_name_inj intro!: stated_def.equality)
  ultimately show ?thesis by simp
qed

section \<open>Properties\<close>

text \<open>C29: a layout's audit says everything: the text reads back, line by line and token by token, as
  the rows of its tables in their order, and two layouts with the same text have the same name,
  size, fields, types, constants, ranges, coverage and stated positions.\<close>

theorem audit_text_determines_layout:
  assumes "layout_clean r" "layout_clean r'"
  shows "map (split_on CHR '' '') (butlast (split_on CHR 0x0A (show_layout r))) = layout_rows r
    \<and> (show_layout r = show_layout r' \<longrightarrow> r = r')"
  using show_layout_read [OF assms(1)] show_layout_read [OF assms(2)] layout_rows_inj by metis

definition header_records :: layout_records where
  "header_records = (audit_layout ''Header'' 40
     [\<lparr>fd_name = ''magic'', fd_extent = \<lparr>ext_start = 0, ext_width = 32\<rparr>\<rparr>,
      \<lparr>fd_name = ''count'', fd_extent = \<lparr>ext_start = 32, ext_width = 8\<rparr>\<rparr>])
       \<lparr>lr_types := [\<lparr>td_field = ''count'', td_ty = ''u8''\<rparr>]\<rparr>"

theorem audit_text_determines_layout_witness:
  "show_layout header_records \<noteq> show_layout (header_records\<lparr>lr_types := []\<rparr>)"
proof -
  have clean: "layout_clean header_records" "layout_clean (header_records\<lparr>lr_types := []\<rparr>)"
    by (simp_all add: layout_clean_def header_records_def audit_layout_def clean_Cons)
  have "header_records \<noteq> header_records\<lparr>lr_types := []\<rparr>"
    by (simp add: header_records_def audit_layout_def)
  with audit_text_determines_layout [OF clean] show ?thesis by blast
qed

end
