(* ===== verification/LayoutModel.thy ===== *)
theory LayoutModel
  imports FieldTables Printing
begin

text \<open>
  The generator's model of fields and fixed layouts (\<open>layline-codegen/src/model/field.rs\<close>,
  \<open>layout.rs\<close>, \<open>coverage.rs\<close>): plain data, the widths it states, and the position each field takes.
  A name is its UTF-8 bytes; a size (\<open>u64\<close>, \<open>usize\<close>) is a natural number, far below the \<open>2 ^ 64\<close>
  where the sums of the sources would panic, and a bound (\<open>i64\<close>) an integer. Documentation strings
  are kept as data.

  Under \<open>order = msb\<close> a field is mirrored within its word. \<open>mirror\<close> is that on single bits: a
  field's bits at its physical position are the mirrored bits of its declared position.
\<close>

section \<open>Fields and their types\<close>

definition em_dash :: string where
  "em_dash = [CHR 0xE2, CHR 0x80, CHR 0x94]"

record stated =
  st_unit :: stated_unit
  st_pos :: nat

definition stated_bit :: "nat \<Rightarrow> stated" where
  "stated_bit pos = \<lparr>st_unit = UnitBit, st_pos = pos\<rparr>"

definition stated_byte :: "nat \<Rightarrow> stated" where
  "stated_byte pos = \<lparr>st_unit = UnitByte, st_pos = pos\<rparr>"

definition st_bits :: "stated \<Rightarrow> nat" where
  "st_bits s = st_pos s * unit_bits (st_unit s)"

definition published :: "stated \<Rightarrow> nat \<Rightarrow> stated" where
  "published s physical =
     (if unit_bits (st_unit s) dvd physical
      then \<lparr>st_unit = st_unit s, st_pos = physical div unit_bits (st_unit s)\<rparr>
      else stated_bit physical)"

definition stated_check :: "stated \<Rightarrow> string \<Rightarrow> nat \<Rightarrow> string + unit" where
  "stated_check s field pos =
     (if st_bits s = pos then Inr ()
      else let noun = unit_name (st_unit s);
               landed = (if st_unit s = UnitByte \<and> \<not> 8 dvd pos
                         then ''bit '' @ dec pos @ '' '' @ em_dash @ '' not a byte boundary''
                         else noun @ '' '' @ dec (pos div unit_bits (st_unit s)))
           in Inl (''field `'' @ field @ ''`: #[at('' @ noun @ '' = '' @ dec (st_pos s)
                   @ '')] but the solver placed it at '' @ landed))"

datatype scalar = ScU nat | ScI nat | ScF32 | ScF64 | ScBool | ScByteBool

fun scalar_bits :: "scalar \<Rightarrow> nat" where
  "scalar_bits (ScU n) = n"
| "scalar_bits (ScI n) = n"
| "scalar_bits ScF32 = 32"
| "scalar_bits ScF64 = 64"
| "scalar_bits ScBool = 1"
| "scalar_bits ScByteBool = 8"

definition int_primitive :: "string \<Rightarrow> nat \<Rightarrow> string" where
  "int_primitive prefix n =
     prefix @ (if n \<le> 8 then ''8'' else if n \<le> 16 then ''16'' else if n \<le> 32 then ''32''
               else if n \<le> 64 then ''64'' else ''128'')"

fun primitive :: "scalar \<Rightarrow> string" where
  "primitive ScF32 = ''f32''"
| "primitive ScF64 = ''f64''"
| "primitive ScBool = ''bool''"
| "primitive ScByteBool = ''bool''"
| "primitive (ScU n) = int_primitive ''u'' n"
| "primitive (ScI n) = int_primitive ''i'' n"

record num_by =
  nb_field :: string
  nb_scale :: nat
  nb_offset :: int

definition num_by_field :: "string \<Rightarrow> num_by" where
  "num_by_field f = \<lparr>nb_field = f, nb_scale = 1, nb_offset = 0\<rparr>"

datatype len =
    LenBytes nat
  | LenField num_by "nat option" "nat option" \<comment> \<open>\<open>by\<close>, \<open>cap\<close>, \<open>align\<close>\<close>
  | LenUntil u8
  | LenFill

section \<open>Coverage\<close>

datatype cover_from = FromStart | FromField string

datatype cover_to = ToHere | ToBefore string | ToAfter string

record coverage =
  co_from :: cover_from
  co_to :: cover_to

definition coverage_whole :: coverage where
  "coverage_whole = \<lparr>co_from = FromStart, co_to = ToHere\<rparr>"

definition coverage_from_field :: "string \<Rightarrow> coverage" where
  "coverage_from_field f = \<lparr>co_from = FromField f, co_to = ToHere\<rparr>"

record covered =
  cd_from :: nat
  cd_to :: nat
  cd_own :: "nat \<times> nat"

definition resolve_coverage ::
    "coverage \<Rightarrow> nat \<times> nat \<Rightarrow> (string \<Rightarrow> (nat \<times> nat) option) \<Rightarrow> covered option" where
  "resolve_coverage c own place =
     Option.bind (case co_from c of FromStart \<Rightarrow> Some 0 | FromField f \<Rightarrow> map_option fst (place f)) (\<lambda>from.
     Option.bind (case co_to c of
                    ToHere \<Rightarrow> Some (fst own)
                  | ToBefore f \<Rightarrow> map_option fst (place f)
                  | ToAfter f \<Rightarrow> map_option snd (place f)) (\<lambda>to.
     Some \<lparr>cd_from = from, cd_to = to, cd_own = own\<rparr>))"

definition excises :: "covered \<Rightarrow> bool" where
  "excises c \<longleftrightarrow> cd_from c \<le> fst (cd_own c) \<and> fst (cd_own c) < cd_to c"

definition runs :: "covered \<Rightarrow> (nat \<times> nat) list" where
  "runs c = (if excises c then [(cd_from c, fst (cd_own c)), (snd (cd_own c), cd_to c)]
             else [(cd_from c, cd_to c)])"

section \<open>Kinds\<close>

datatype kind =
    KScalar scalar
  | KArray scalar "nat list"
  | KCodec string nat \<comment> \<open>\<open>ty\<close>, \<open>bits\<close>\<close>
  | KNested string nat \<comment> \<open>\<open>ty\<close>, \<open>bytes\<close>\<close>
  | KNestedArray string nat nat \<comment> \<open>\<open>ty\<close>, \<open>bytes\<close>, \<open>len\<close>\<close>
  | KVar string
  | KMsg string bool "string list" \<comment> \<open>\<open>ty\<close>, \<open>boxed\<close>, \<open>with\<close>\<close>
  | KChecksum scalar string coverage \<comment> \<open>\<open>repr\<close>, \<open>algorithm\<close>, \<open>over\<close>\<close>
  | KText len "string option" \<comment> \<open>\<open>len\<close>, \<open>codec\<close>\<close>

fun kind_bits :: "kind \<Rightarrow> nat option" where
  "kind_bits (KScalar s) = Some (scalar_bits s)"
| "kind_bits (KChecksum s _ _) = Some (scalar_bits s)"
| "kind_bits (KArray s dims) = Some (scalar_bits s * prod_list dims)"
| "kind_bits (KCodec _ bits) = Some bits"
| "kind_bits (KNested _ bytes) = Some (bytes * 8)"
| "kind_bits (KNestedArray _ bytes n) = Some (bytes * n * 8)"
| "kind_bits (KText (LenBytes n) _) = Some (n * 8)"
| "kind_bits _ = None"

definition kind_width :: "kind \<Rightarrow> nat" where
  "kind_width k = (case kind_bits k of Some b \<Rightarrow> b | None \<Rightarrow> 0)"

fun is_integer_kind :: "kind \<Rightarrow> bool" where
  "is_integer_kind (KScalar (ScU _)) = True"
| "is_integer_kind (KScalar (ScI _)) = True"
| "is_integer_kind (KVar _) = True"
| "is_integer_kind (KCodec _ _) = True"
| "is_integer_kind _ = False"

fun describe :: "kind \<Rightarrow> string" where
  "describe (KScalar (ScU _)) = ''an integer''"
| "describe (KScalar (ScI _)) = ''an integer''"
| "describe (KScalar ScF32) = ''a float''"
| "describe (KScalar ScF64) = ''a float''"
| "describe (KScalar ScBool) = ''a bool''"
| "describe (KScalar ScByteBool) = ''a bool''"
| "describe (KArray s _) = (if s = ScU 8 then ''a run of raw bytes'' else ''an array'')"
| "describe (KCodec _ _) = ''a `FieldCodec` value''"
| "describe (KNested _ _) = ''a nested layout''"
| "describe (KNestedArray _ _ _) = ''an array of nested layouts''"
| "describe (KVar _) = ''a self-delimiting value''"
| "describe (KMsg _ _ _) = ''a nested message''"
| "describe (KChecksum _ _ _) = ''a check value over the bytes it covers''"
| "describe (KText _ _) = ''text''"

record value_range =
  vr_lo :: "int option"
  vr_hi :: "int option"

record field =
  f_name :: string
  f_kind :: kind
  f_doc :: "string option"
  f_stated :: "stated option"
  f_magic :: "u8 list option"
  f_range :: "value_range option"
  f_spare :: bool
  f_visibility :: "string option"

definition field_new :: "string \<Rightarrow> kind \<Rightarrow> field" where
  "field_new name k =
     \<lparr>f_name = name, f_kind = k, f_doc = None, f_stated = None, f_magic = None, f_range = None,
      f_spare = False, f_visibility = None\<rparr>"

section \<open>Containers\<close>

datatype endian = Le | Be

datatype bit_order = Lsb | Msb

datatype container =
    CWord nat nat "nat option" endian bit_order \<comment> \<open>\<open>bits\<close>, \<open>prefix\<close>, \<open>prefix_value\<close>, \<open>endian\<close>, \<open>order\<close>\<close>
  | CBytes nat endian
  | CWords nat endian bit_order

datatype size_unit = SuBits | SuBytes | SuWords

fun unit_keyword :: "size_unit \<Rightarrow> string" where
  "unit_keyword SuBits = ''bits''"
| "unit_keyword SuBytes = ''bytes''"
| "unit_keyword SuWords = ''words''"

definition container_word :: "nat \<Rightarrow> endian \<Rightarrow> bit_order \<Rightarrow> container" where
  "container_word bits e ord = CWord bits 0 None e ord"

fun container_unit :: "container \<Rightarrow> size_unit" where
  "container_unit (CWord _ _ _ _ _) = SuBits"
| "container_unit (CBytes _ _) = SuBytes"
| "container_unit (CWords _ _ _) = SuWords"

fun container_units :: "container \<Rightarrow> nat" where
  "container_units (CWord bits _ _ _ _) = bits"
| "container_units (CBytes bytes _) = bytes"
| "container_units (CWords words _ _) = words"

fun container_endian :: "container \<Rightarrow> endian" where
  "container_endian (CWord _ _ _ e _) = e"
| "container_endian (CBytes _ e) = e"
| "container_endian (CWords _ e _) = e"

fun container_order :: "container \<Rightarrow> bit_order option" where
  "container_order (CWord _ _ _ _ ord) = Some ord"
| "container_order (CWords _ _ ord) = Some ord"
| "container_order (CBytes _ _) = None"

fun is_bit_addressed :: "container \<Rightarrow> bool" where
  "is_bit_addressed (CBytes _ _) = False"
| "is_bit_addressed _ = True"

fun container_bits :: "container \<Rightarrow> nat" where
  "container_bits (CWord bits _ _ _ _) = bits"
| "container_bits (CBytes bytes _) = bytes * 8"
| "container_bits (CWords words _ _) = words * 16"

fun container_prefix :: "container \<Rightarrow> nat" where
  "container_prefix (CWord _ p _ _ _) = p"
| "container_prefix _ = 0"

fun container_field_bits :: "container \<Rightarrow> nat" where
  "container_field_bits (CWord bits p _ _ _) = bits - p"
| "container_field_bits c = container_bits c"

fun region_bits :: "container \<Rightarrow> nat \<Rightarrow> nat" where
  "region_bits (CWord bits _ _ _ _) width = bits"
| "region_bits (CWords _ _ _) width = 16"
| "region_bits (CBytes _ _) width = width"

fun region_start :: "container \<Rightarrow> nat \<Rightarrow> nat" where
  "region_start (CWord _ _ _ _ _) start = 0"
| "region_start (CWords _ _ _) start = start - start mod 16"
| "region_start (CBytes _ _) start = start"

fun interior_boundary :: "container \<Rightarrow> nat option" where
  "interior_boundary (CWords _ _ _) = Some 16"
| "interior_boundary _ = None"

fun packed_kind :: "kind \<Rightarrow> bool" where
  "packed_kind (KScalar _) = True"
| "packed_kind (KCodec _ _) = True"
| "packed_kind _ = False"

definition physical_in :: "nat \<Rightarrow> bit_order \<Rightarrow> kind \<Rightarrow> nat \<Rightarrow> nat" where
  "physical_in region ord k start =
     (if ord = Lsb \<or> \<not> packed_kind k \<or> region = 0 then start
      else let base = start - start mod region
           in base + (region - (start - base + kind_width k)))"

fun physical :: "container \<Rightarrow> kind \<Rightarrow> nat \<Rightarrow> nat" where
  "physical (CWord bits _ _ _ ord) k start = physical_in bits ord k start"
| "physical (CWords _ _ ord) k start = physical_in 16 ord k start"
| "physical (CBytes _ _) k start = start"

definition place_text :: "stated_unit \<Rightarrow> nat \<Rightarrow> string" where
  "place_text u bits =
     (if unit_bits u dvd bits then unit_name u @ '' '' @ dec (bits div unit_bits u)
      else ''bit '' @ dec bits @ '' (not a byte boundary)'')"

definition check_stated :: "container \<Rightarrow> string \<Rightarrow> kind \<Rightarrow> stated \<Rightarrow> nat \<Rightarrow> string + unit" where
  "check_stated c field k s declared =
     (if container_order c \<noteq> Some Msb then stated_check s field declared
      else let claimed = st_bits s
           in if claimed = declared then Inr ()
              else let width = kind_width k;
                       region = region_bits c width;
                       place = place_text (st_unit s);
                       lands = (if claimed + width \<le> region_start c claimed + region
                                then ''is physical '' @ place (physical c k claimed)
                                else ''does not fit the '' @ dec region @ ''-bit ''
                                     @ (case c of CWords _ _ _ \<Rightarrow> ''word'' | _ \<Rightarrow> ''container''))
                   in Inl (''field `'' @ field @ ''`: #[at('' @ unit_name (st_unit s) @ '' = '' @ dec (st_pos s)
                           @ '')] (declared numbering, msb) '' @ lands
                           @ '', but the solver placed it at physical '' @ place (physical c k declared)
                           @ '' '' @ em_dash @ '' declared '' @ place declared))"

section \<open>Layouts\<close>

record derive_def =
  dv_path :: string
  dv_cfg :: "string option"

record layout_def =
  l_name :: string
  l_container :: container
  l_fields :: "field list"
  l_view :: bool
  l_truncate :: bool
  l_doc :: "string option"
  l_derives :: "derive_def list"

definition layout_def_new :: "string \<Rightarrow> container \<Rightarrow> field list \<Rightarrow> layout_def" where
  "layout_def_new name c fs =
     \<lparr>l_name = name, l_container = c, l_fields = fs, l_view = False, l_truncate = False, l_doc = None,
      l_derives = []\<rparr>"

record positioned =
  p_field :: field
  p_declared :: nat
  p_physical :: nat

fun positioned_from :: "container \<Rightarrow> nat \<Rightarrow> field list \<Rightarrow> positioned list" where
  "positioned_from c pos [] = []"
| "positioned_from c pos (f # fs) =
     \<lparr>p_field = f, p_declared = pos, p_physical = physical c (f_kind f) pos\<rparr>
     # positioned_from c (pos + kind_width (f_kind f)) fs"

definition positioned_fields :: "field list \<Rightarrow> container \<Rightarrow> positioned list" where
  "positioned_fields fs c = positioned_from c (container_prefix c) fs"

section \<open>Mirroring\<close>

definition mirror_bit :: "nat \<Rightarrow> nat \<Rightarrow> nat" where
  "mirror_bit region b = b div region * region + (region - 1 - b mod region)"

lemma mirror_bit_div: "0 < region \<Longrightarrow> mirror_bit region b div region = b div region"
  by (simp add: mirror_bit_def div_mult_self3)

lemma mirror_bit_mod: "0 < region \<Longrightarrow> mirror_bit region b mod region = region - 1 - b mod region"
  by (simp add: mirror_bit_def)

lemma mirror_bit_twice: "0 < region \<Longrightarrow> mirror_bit region (mirror_bit region b) = b"
proof -
  assume r: "0 < region"
  have "region - 1 - (region - 1 - b mod region) = b mod region"
    using mod_less_divisor [OF r, of b] by linarith
  then have "mirror_bit region (mirror_bit region b) = b div region * region + b mod region"
    unfolding mirror_bit_def [of region "mirror_bit region b"] mirror_bit_div [OF r] mirror_bit_mod [OF r]
    by simp
  then show ?thesis by simp
qed

lemma inj_mirror_bit: "0 < region \<Longrightarrow> inj (mirror_bit region)"
  by (metis injI mirror_bit_twice)

text \<open>A field inside one region: its mirrored bits are the bits at its physical position.\<close>

lemma mirror_field:
  assumes "0 < region" "start mod region + w \<le> region"
  shows "mirror_bit region ` {start..<start + w}
    = {(start - start mod region) + (region - (start mod region + w))
       ..<(start - start mod region) + (region - (start mod region + w)) + w}"
    (is "?L = ?R")
proof -
  let ?q = "start div region" and ?m = "start mod region"
  have start: "start = ?q * region + ?m" by simp
  have base: "start - ?m = ?q * region" using start by (metis add_diff_cancel_right')
  have bit: "mirror_bit region (start + i) = ?q * region + (region - 1 - (?m + i))" if "i < w" for i
  proof -
    have "?m + i < region" using that assms(2) by linarith
    moreover have "start + i = (?m + i) + ?q * region" using start by linarith
    ultimately have "(start + i) div region = ?q" "(start + i) mod region = ?m + i"
      using assms(1) by (simp_all only: div_mult_self1 mod_mult_self1) simp_all
    then show ?thesis by (simp add: mirror_bit_def)
  qed
  have "?L = (\<lambda>i. mirror_bit region (start + i)) ` {0..<w}"
    using image_add_atLeastLessThan [of start 0 w] by (simp add: image_image flip: image_image)
      (metis add.commute add.right_neutral image_image)
  also have "\<dots> = (\<lambda>i. ?q * region + (region - 1 - (?m + i))) ` {0..<w}"
    using bit by (intro image_cong) auto
  also have "\<dots> = ?R"
  proof (intro set_eqI iffI)
    fix x assume "x \<in> (\<lambda>i. ?q * region + (region - 1 - (?m + i))) ` {0..<w}"
    then show "x \<in> ?R" using assms(2) by (auto simp: base)
  next
    fix x assume x: "x \<in> ?R"
    define i where "i = ?q * region + (region - 1 - ?m) - x"
    define Q where "Q = ?q * region"
    define m where "m = ?m"
    have "Q + (region - (m + w)) \<le> x" "x < Q + (region - (m + w)) + w" "m + w \<le> region"
      using x assms(2) by (simp_all add: base Q_def m_def)
    then have "i < w" "x = Q + (region - 1 - (m + i))"
      unfolding i_def Q_def [symmetric] m_def [symmetric] by linarith+
    then have "i < w" "x = ?q * region + (region - 1 - (?m + i))" by (simp_all add: Q_def m_def)
    then show "x \<in> (\<lambda>i. ?q * region + (region - 1 - (?m + i))) ` {0..<w}" by auto
  qed
  finally show ?thesis .
qed

lemma physical_in_mirror:
  assumes "packed_kind k" "0 < region" "start mod region + kind_width k \<le> region"
  shows "mirror_bit region ` {start..<start + kind_width k}
    = {physical_in region Msb k start..<physical_in region Msb k start + kind_width k}"
  using mirror_field [OF assms(2,3)] assms(1,2) by (simp add: physical_in_def Let_def)

lemma mirror_bit_range:
  assumes "0 < region" "region dvd tot"
  shows "mirror_bit region ` {0..<tot} = {0..<tot}"
proof -
  have sub: "mirror_bit region b < tot" if "b < tot" for b
  proof -
    obtain q where q: "tot = region * q" using assms(2) by blast
    then have "b div region < q" using that assms(1) by (simp add: div_less_iff_less_mult mult.commute)
    then have "(b div region + 1) * region \<le> q * region" by (intro mult_right_mono) auto
    moreover have "mirror_bit region b < (b div region + 1) * region"
      using assms(1) by (simp add: mirror_bit_def)
    ultimately show ?thesis using q by (simp add: mult.commute)
  qed
  have "x \<in> mirror_bit region ` {0..<tot}" if "x < tot" for x
    using mirror_bit_twice [OF assms(1), of x] sub [OF that] by (metis atLeastLessThan_iff imageI le0)
  with sub show ?thesis by auto
qed

section \<open>The bytes a checksum covers\<close>

text \<open>A boundary that does not cut through the checksum's own bytes, as field boundaries do not.\<close>

lemma runs_cover:
  assumes "\<not> (fst (cd_own c) < cd_from c \<and> cd_from c < snd (cd_own c))"
    and "\<not> (fst (cd_own c) < cd_to c \<and> cd_to c < snd (cd_own c))"
    and "fst (cd_own c) < snd (cd_own c)"
  shows "(\<Union>(a, b) \<in> set (runs c). {a..<b}) = {cd_from c..<cd_to c} - {fst (cd_own c)..<snd (cd_own c)}"
  using assms by (auto simp: runs_def excises_def)

end
