(* ===== verification/Validity.thy ===== *)
theory Validity
  imports LayoutModel
begin

text \<open>
  What every validator of the generator shares (\<open>layline-codegen/src/validate.rs\<close>): the refusal type
  \<open>Invalid\<close>, the lexical rules for names and type paths, and the rules every field passes.

  With the \<open>walk\<close> feature the sources ask the \<open>syn\<close> parser, a third-party crate, whether a path or a
  visibility is well formed; without it they use the approximations written here. Both are the
  record \<open>grammar\<close>, and \<open>lexical\<close> is the second. Names are ASCII: for a name with other letters the
  model answers as for a name that is not an identifier. The sentence that explains a refusal is
  not modelled: where the sources format one, the model keeps a label of the rule that was broken,
  beside the name the refusal carries.
\<close>

datatype invalid =
    Tiling nat nat \<comment> \<open>\<open>covered_bits\<close>, \<open>declared_bits\<close>\<close>
  | CrossesWord string
  | StatedElsewhere string
  | UnknownReference string
  | NonIntegerReference string
  | NotAFlagReference string
  | NotANestedLayout string
  | AfterOpenEnd string
  | DuplicateArm nat
  | InvalidField string string \<comment> \<open>\<open>at\<close>, a label of \<open>why\<close>\<close>
  | InvalidOther string

fun show_invalid :: "invalid \<Rightarrow> string" where
  "show_invalid (Tiling covered_bits declared_bits) =
     ''the fields cover '' @ dec covered_bits @ '' of the container's '' @ dec declared_bits @ '' bits''"
| "show_invalid (CrossesWord m) = m"
| "show_invalid (StatedElsewhere m) = m"
| "show_invalid (UnknownReference m) = m"
| "show_invalid (NonIntegerReference m) = m"
| "show_invalid (NotAFlagReference m) = m"
| "show_invalid (NotANestedLayout m) = m"
| "show_invalid (AfterOpenEnd m) = m"
| "show_invalid (InvalidOther m) = m"
| "show_invalid (InvalidField pos why) = ''field `'' @ pos @ ''`: '' @ why"
| "show_invalid (DuplicateArm v) = ''two arms have the value '' @ dec v"

section \<open>Names and paths\<close>

definition alphabetic :: "char \<Rightarrow> bool" where
  "alphabetic c \<longleftrightarrow> (let n = of_char c :: nat in 65 \<le> n \<and> n \<le> 90 \<or> 97 \<le> n \<and> n \<le> 122)"

definition alphanumeric :: "char \<Rightarrow> bool" where
  "alphanumeric c \<longleftrightarrow> alphabetic c \<or> (let n = of_char c :: nat in 48 \<le> n \<and> n \<le> 57)"

definition is_ident :: "string \<Rightarrow> bool" where
  "is_ident name =
     (case name of
        [] \<Rightarrow> False
      | first # chars \<Rightarrow>
          (alphabetic first \<or> first = CHR ''_'')
          \<and> list_all (\<lambda>c. alphanumeric c \<or> c = CHR ''_'') chars
          \<and> name \<notin> {''_'', ''self'', ''Self'', ''super'', ''crate''})"

definition white_space :: "char \<Rightarrow> bool" where
  "white_space c \<longleftrightarrow> (let n = of_char c :: nat in 9 \<le> n \<and> n \<le> 13 \<or> n = 32)"

definition trim :: "string \<Rightarrow> string" where
  "trim s = rev (dropWhile white_space (rev (dropWhile white_space s)))"

fun path_loop :: "string \<Rightarrow> int \<Rightarrow> bool" where
  "path_loop [] depth = (depth = 0)"
| "path_loop (c # cs) depth =
     (if c = CHR ''<'' then path_loop cs (depth + 1)
      else if c = CHR ''>'' then (if depth - 1 < 0 then False else path_loop cs (depth - 1))
      else if alphanumeric c \<or> c \<in> set ('' _:,'' @ [CHR 0x27] @ ''&[];()-'') then path_loop cs depth
      else False)"

definition lexical_path :: "string \<Rightarrow> bool" where
  "lexical_path ty =
     (case trim ty of
        [] \<Rightarrow> False
      | first # rest \<Rightarrow>
          if \<not> (alphabetic first \<or> first = CHR ''_'' \<or> first = CHR '':'') then False
          else path_loop (first # rest) 0)"

definition starts_with :: "string \<Rightarrow> string \<Rightarrow> bool" where
  "starts_with p s \<longleftrightarrow> take (length p) s = p"

definition lexical_visibility :: "string \<Rightarrow> bool" where
  "lexical_visibility vis \<longleftrightarrow>
     vis \<in> {[], ''pub'', ''pub(crate)'', ''pub(self)'', ''pub(super)''}
     \<or> starts_with ''pub(in '' vis \<and> vis \<noteq> [] \<and> last vis = CHR '')''"

record grammar =
  is_type_path :: "string \<Rightarrow> bool"
  is_visibility :: "string \<Rightarrow> bool"

definition lexical :: grammar where
  "lexical = \<lparr>is_type_path = lexical_path, is_visibility = lexical_visibility\<rparr>"

definition ident :: "string \<Rightarrow> string \<Rightarrow> invalid + unit" where
  "ident what name = (if is_ident name then Inr () else Inl (InvalidOther (what @ '' `'' @ name @ ''` is not a Rust identifier'')))"

definition type_path :: "grammar \<Rightarrow> string \<Rightarrow> string \<Rightarrow> string \<Rightarrow> invalid + unit" where
  "type_path P pos what ty =
     (if is_type_path P ty then Inr () else Inl (InvalidField pos (what @ '' is not a Rust type path'')))"

fun kind_paths :: "grammar \<Rightarrow> string \<Rightarrow> kind \<Rightarrow> invalid + unit" where
  "kind_paths P pos (KCodec ty _) = type_path P pos ''the codec type'' ty"
| "kind_paths P pos (KNested ty _) = type_path P pos ''the nested layout'' ty"
| "kind_paths P pos (KNestedArray ty _ _) = type_path P pos ''the nested layout'' ty"
| "kind_paths P pos (KVar ty) = type_path P pos ''the `VarCodec` type'' ty"
| "kind_paths P pos (KMsg ty _ _) = type_path P pos ''the nested message'' ty"
| "kind_paths P pos (KChecksum _ algorithm _) =
     (if trim algorithm = [] then Inr () else type_path P pos ''the checksum algorithm'' algorithm)"
| "kind_paths P pos (KText _ (Some ty)) = type_path P pos ''the `TextCodec` type'' ty"
| "kind_paths P pos (KScalar _) = Inr ()"
| "kind_paths P pos (KArray _ _) = Inr ()"
| "kind_paths P pos (KText _ None) = Inr ()"

definition WIDEST_FIELD :: nat where
  "WIDEST_FIELD = 128"

definition WIDEST_BOUND :: nat where
  "WIDEST_BOUND = 64"

definition int_scalar :: "kind \<Rightarrow> scalar option" where
  "int_scalar k = (case k of KScalar (ScU n) \<Rightarrow> Some (ScU n) | KScalar (ScI n) \<Rightarrow> Some (ScI n) | _ \<Rightarrow> None)"

definition field_names :: "grammar \<Rightarrow> field \<Rightarrow> invalid + unit" where
  "field_names P f =
     bind_res (ident ''field'' (f_name f)) (\<lambda>_.
       case int_scalar (f_kind f) of
         Some s \<Rightarrow>
           (if \<not> (1 \<le> scalar_bits s \<and> scalar_bits s \<le> WIDEST_FIELD)
            then Inl (InvalidField (f_name f) ''a field reads 1 to 128 bits'')
            else bind_res (Inr ()) (\<lambda>_.
              if (case f_visibility f of Some vis \<Rightarrow> \<not> is_visibility P vis | None \<Rightarrow> False)
              then Inl (InvalidField (f_name f) ''not a Rust visibility'')
              else kind_paths P (f_name f) (f_kind f)))
       | None \<Rightarrow>
           if (case f_visibility f of Some vis \<Rightarrow> \<not> is_visibility P vis | None \<Rightarrow> False)
           then Inl (InvalidField (f_name f) ''not a Rust visibility'')
           else kind_paths P (f_name f) (f_kind f))"

text \<open>\<open>for x in xs { check(x)?; }\<close>\<close>

fun each :: "('a \<Rightarrow> invalid + unit) \<Rightarrow> 'a list \<Rightarrow> invalid + unit" where
  "each check [] = Inr ()"
| "each check (x # xs) = bind_res (check x) (\<lambda>_. each check xs)"

lemma each_Inr_iff: "each check xs = Inr () \<longleftrightarrow> (\<forall>x \<in> set xs. check x = Inr ())"
  by (induction xs) (auto simp: bind_res_Inr_iff)

lemma each_cong [fundef_cong]:
  "xs = ys \<Longrightarrow> (\<And>x. x \<in> set ys \<Longrightarrow> f x = g x) \<Longrightarrow> each f xs = each g ys"
  by (induction ys arbitrary: xs) auto

end
