(* ===== verification/LayoutRules.thy ===== *)
theory LayoutRules
  imports Validity
begin

text \<open>
  The rules of the generator for fixed layouts (\<open>layline-codegen/src/validate/layout.rs\<close> and
  \<open>validate/coverage.rs\<close>, with \<open>Container::admits\<close> of \<open>model/layout.rs\<close>): the container, the sum of
  the widths, word boundaries, stated positions, the types a container carries, and the fields
  whose bytes are asserted or covered by a checksum.
\<close>

section \<open>Containers\<close>

definition admits :: "container \<Rightarrow> string \<Rightarrow> kind \<Rightarrow> invalid + unit" where
  "admits c name k =
     (let no = (\<lambda>what. Inl (InvalidField name what))
      in if (case k of KArray _ dims \<Rightarrow> dims = [] | _ \<Rightarrow> False) then no ''an array with no dimensions''
      else case c of
        CBytes _ _ \<Rightarrow>
          (case k of
             KScalar ScBool \<Rightarrow> no ''byte mode stores a bool in a whole byte''
           | KText _ _ \<Rightarrow> no ''byte mode has no text''
           | _ \<Rightarrow> Inr ())
      | CWords _ _ _ \<Rightarrow>
          if k = KScalar ScByteBool then no ''a whole-byte bool is byte mode's''
          else (case k of
             KArray s _ \<Rightarrow>
               (if s \<noteq> ScU 8 \<and> s \<noteq> ScU 16 then no ''words mode allows only u16 and u8 arrays'' else Inr ())
           | _ \<Rightarrow> Inr ())
      | CWord _ _ _ _ _ \<Rightarrow>
          if k = KScalar ScByteBool then no ''a whole-byte bool is byte mode's''
          else (case k of
             KScalar ScF32 \<Rightarrow> no ''word mode has no floats''
           | KScalar ScF64 \<Rightarrow> no ''word mode has no floats''
           | KNested _ _ \<Rightarrow> no ''word mode has no nested layouts''
           | KNestedArray _ _ _ \<Rightarrow> no ''word mode has no nested layouts''
           | KText _ _ \<Rightarrow> no ''word mode needs a fixed width''
           | KVar _ \<Rightarrow> no ''word mode needs a fixed width''
           | KMsg _ _ _ \<Rightarrow> no ''word mode needs a fixed width''
           | _ \<Rightarrow> Inr ()))"

fun validate_container :: "container \<Rightarrow> invalid + unit" where
  "validate_container (CWord bits prefix prefix_value _ _) =
     (if bits = 0 \<or> \<not> 8 dvd bits then Inl (InvalidOther ''a word container is a positive multiple of 8'')
      else if prefix \<ge> bits then Inl (InvalidOther ''the prefix leaves no bits for fields'')
      else case prefix_value of
        Some v \<Rightarrow>
          if prefix = 0 then Inl (InvalidOther ''prefix_value needs a prefix'')
          else if prefix < 128 \<and> v \<ge> 2 ^ prefix then Inl (InvalidOther ''prefix_value does not fit the prefix'')
          else Inr ()
      | None \<Rightarrow> Inr ())"
| "validate_container (CBytes _ _) = Inr ()"
| "validate_container (CWords _ _ _) = Inr ()"

section \<open>Checksums and the bytes they cover\<close>

definition check_value :: "grammar \<Rightarrow> string \<Rightarrow> scalar \<Rightarrow> string \<Rightarrow> invalid + unit" where
  "check_value P name repr algorithm =
     (if trim algorithm = [] then Inl (InvalidField name ''a checksum requires the algorithm'')
      else bind_res (type_path P name ''the checksum algorithm'' algorithm) (\<lambda>_.
        if \<not> (case repr of
                ScU n \<Rightarrow> n = 8 \<or> n = 16 \<or> n = 32 \<or> n = 64
              | ScI n \<Rightarrow> n = 8 \<or> n = 16 \<or> n = 32 \<or> n = 64
              | _ \<Rightarrow> False)
        then Inl (InvalidField name ''a checksum must be an 8, 16, 32 or 64-bit integer'')
        else Inr ()))"

fun end_of :: "cover_to \<Rightarrow> string \<Rightarrow> string \<times> bool" where
  "end_of ToHere own = (own, False)"
| "end_of (ToBefore f) own = (f, False)"
| "end_of (ToAfter f) own = (f, True)"

text \<open>\<open>iter().position(..)\<close>\<close>

definition place_in :: "string list \<Rightarrow> string \<Rightarrow> nat option" where
  "place_in xs x = index_where (\<lambda>y. y = x) xs"

definition place_of :: "string list \<Rightarrow> string list \<Rightarrow> string \<Rightarrow> invalid + nat" where
  "place_of places optional field =
     (case place_in places field of
        Some i \<Rightarrow> Inr i
      | None \<Rightarrow> if field \<in> set optional then Inl (InvalidOther ''a covered range at a field only sometimes present'')
                else Inl (UnknownReference field))"

definition check_coverage :: "string list \<Rightarrow> string list \<Rightarrow> string \<Rightarrow> coverage \<Rightarrow> invalid + unit" where
  "check_coverage places optional own over =
     bind_res (case co_from over of
                 FromStart \<Rightarrow> Inr None
               | FromField f \<Rightarrow> if f = own then Inl (InvalidField own ''the covered range starts at the checksum itself'')
                                else map_res Some (place_of places optional f)) (\<lambda>from.
     (let (en, through) = end_of (co_to over) own
      in if en = own \<and> through then Inl (InvalidField own ''the covered range runs through the checksum itself'')
         else bind_res (place_of places optional en) (\<lambda>to.
              bind_res (place_of places optional own) (\<lambda>ck.
                if (case co_to over of ToBefore _ \<Rightarrow> to = ck | _ \<Rightarrow> False)
                then Inl (InvalidField own ''the covered range already ends at the checksum'')
                else bind_res (if through then Inr to
                               else if to = 0 then Inl (InvalidField own ''the covered range is empty'')
                               else Inr (to - 1)) (\<lambda>last.
                  if (case from of Some fr \<Rightarrow> last < fr | None \<Rightarrow> False)
                  then Inl (InvalidField own ''the covered range ends before it starts'')
                  else Inr ())))))"

section \<open>Layouts\<close>

definition asserts :: "field \<Rightarrow> bool" where
  "asserts f \<longleftrightarrow> f_magic f \<noteq> None \<or> (case f_kind f of KChecksum _ _ _ \<Rightarrow> True | _ \<Rightarrow> False)"

definition range_rule :: "field \<Rightarrow> invalid + unit" where
  "range_rule f =
     (if f_range f = None then Inr ()
      else case int_scalar (f_kind f) of
        Some s \<Rightarrow> if scalar_bits s > WIDEST_BOUND then Inl (InvalidField (f_name f) ''a range is stated in 64 bits'')
                  else Inr ()
      | None \<Rightarrow> Inl (InvalidField (f_name f) ''a range needs an integer field''))"

text \<open>Where a field lies in whole bytes; a field that asserts bytes must lie in whole ones.\<close>

definition extent_rule :: "positioned \<Rightarrow> invalid + (string \<times> nat \<times> nat)" where
  "extent_rule p =
     (let bits = kind_width (f_kind (p_field p))
      in if asserts (p_field p) \<and> (p_physical p mod 8 \<noteq> 0 \<or> bits mod 8 \<noteq> 0)
         then Inl (InvalidOther (''field `'' @ f_name (p_field p) @ ''` needs whole bytes''))
         else Inr (f_name (p_field p), p_physical p div 8, (p_physical p + bits) div 8))"

text \<open>A loop that pushes what each step gives, or returns its error.\<close>

fun collect :: "('a \<Rightarrow> 'e + 'b) \<Rightarrow> 'a list \<Rightarrow> 'e + 'b list" where
  "collect f [] = Inr []"
| "collect f (x # xs) = bind_res (f x) (\<lambda>y. bind_res (collect f xs) (\<lambda>ys. Inr (y # ys)))"

definition magic_rule :: "field \<Rightarrow> invalid + unit" where
  "magic_rule f =
     (case f_magic f of
        None \<Rightarrow> Inr ()
      | Some bytes \<Rightarrow>
          let ok = (case f_kind f of
                      KScalar (ScU _) \<Rightarrow> True
                    | KScalar (ScI _) \<Rightarrow> True
                    | KArray s _ \<Rightarrow> s = ScU 8
                    | _ \<Rightarrow> False)
          in if \<not> ok then Inl (InvalidField (f_name f) ''a magic constant needs an integer or byte array field'')
             else if bytes = [] \<or> length bytes * 8 \<noteq> kind_width (f_kind f)
             then Inl (InvalidField (f_name f) ''the constant and the field differ in size'')
             else Inr ())"

definition extent_at :: "(string \<times> nat \<times> nat) list \<Rightarrow> string \<Rightarrow> (nat \<times> nat) option" where
  "extent_at extents name = map_option snd (find (\<lambda>(n, _). n = name) extents)"

fun option_less :: "nat option \<Rightarrow> nat option \<Rightarrow> bool" where
  "option_less None (Some _) = True"
| "option_less (Some a) (Some b) = (a < b)"
| "option_less _ None = False"

definition later_checksum ::
    "field list \<Rightarrow> (string \<times> nat \<times> nat) list \<Rightarrow> string \<Rightarrow> coverage \<Rightarrow> invalid + unit" where
  "later_checksum fs extents own over =
     (case extent_at extents own of
        None \<Rightarrow> Inr ()
      | Some own_at \<Rightarrow>
          case resolve_coverage over own_at (extent_at extents) of
            None \<Rightarrow> Inr ()
          | Some c \<Rightarrow>
              each (\<lambda>f.
                if f_name f = own \<or> \<not> (case f_kind f of KChecksum _ _ _ \<Rightarrow> True | _ \<Rightarrow> False) then Inr ()
                else case extent_at extents (f_name f) of
                  None \<Rightarrow> Inr ()
                | Some (other_at, other_end) \<Rightarrow>
                    if list_ex (\<lambda>(a, b). a \<le> other_at \<and> other_end \<le> b) (runs c)
                       \<and> option_less (place_in (map fst extents) own) (place_in (map fst extents) (f_name f))
                    then Inl (InvalidField own ''the covered range includes a checksum declared after it'')
                    else Inr ()) fs)"

definition checksum_rule ::
    "grammar \<Rightarrow> field list \<Rightarrow> (string \<times> nat \<times> nat) list \<Rightarrow> field \<Rightarrow> invalid + unit" where
  "checksum_rule P fs extents f =
     (case f_kind f of
        KChecksum repr algorithm over \<Rightarrow>
          bind_res (check_value P (f_name f) repr algorithm) (\<lambda>_.
          bind_res (check_coverage (map f_name fs) [] (f_name f) over) (\<lambda>_.
          later_checksum fs extents (f_name f) over))
      | _ \<Rightarrow> Inr ())"

definition assertions :: "grammar \<Rightarrow> layout_def \<Rightarrow> invalid + unit" where
  "assertions P l =
     bind_res (each range_rule (l_fields l)) (\<lambda>_.
     bind_res (if is_bit_addressed (l_container l)
               then (case find asserts (l_fields l) of
                       Some f \<Rightarrow> Inl (InvalidField (f_name f) ''a magic or checksum field needs whole bytes'')
                     | None \<Rightarrow> Inr ())
               else Inr ()) (\<lambda>_.
     bind_res (collect extent_rule (positioned_fields (l_fields l) (l_container l))) (\<lambda>extents.
     each (\<lambda>f. bind_res (magic_rule f) (\<lambda>_. checksum_rule P (l_fields l) extents f)) (l_fields l))))"

definition position_rule :: "container \<Rightarrow> positioned \<Rightarrow> invalid + unit" where
  "position_rule c p =
     (let f = p_field p; bits = kind_width (f_kind f)
      in if (case c of CWords _ _ _ \<Rightarrow> True | _ \<Rightarrow> False) \<and> packed_kind (f_kind f)
            \<and> (bits > 16 \<or> p_declared p mod 16 + bits > 16)
         then Inl (CrossesWord (f_name f))
         else case f_stated f of
           None \<Rightarrow> Inr ()
         | Some s \<Rightarrow> (case check_stated c (f_name f) (f_kind f) s (p_declared p) of
                        Inl why \<Rightarrow> Inl (StatedElsewhere why) | Inr _ \<Rightarrow> Inr ()))"

definition covered_bits :: "field list \<Rightarrow> nat" where
  "covered_bits fs = sum_list (map (\<lambda>f. kind_width (f_kind f)) fs)"

definition validate_layout :: "grammar \<Rightarrow> layout_def \<Rightarrow> invalid + unit" where
  "validate_layout P l =
     bind_res (ident ''layout'' (l_name l)) (\<lambda>_.
     bind_res (each (field_names P) (l_fields l)) (\<lambda>_.
     bind_res (validate_container (l_container l)) (\<lambda>_.
     if covered_bits (l_fields l) \<noteq> container_field_bits (l_container l)
     then Inl (Tiling (covered_bits (l_fields l)) (container_field_bits (l_container l)))
     else bind_res (each (position_rule (l_container l)) (positioned_fields (l_fields l) (l_container l))) (\<lambda>_.
     bind_res (each (\<lambda>f. admits (l_container l) (f_name f) (f_kind f)) (l_fields l)) (\<lambda>_.
     assertions P l)))))"

lemmas bind_res_iffs = bind_res_Inr_iff bind_res_Inl_iff

lemma validate_layout_parts:
  assumes "validate_layout P l = Inr ()"
  shows "validate_container (l_container l) = Inr ()"
    and "covered_bits (l_fields l) = container_field_bits (l_container l)"
    and "\<forall>p \<in> set (positioned_fields (l_fields l) (l_container l)). position_rule (l_container l) p = Inr ()"
    and "\<forall>f \<in> set (l_fields l). admits (l_container l) (f_name f) (f_kind f) = Inr ()"
    and "\<forall>f \<in> set (l_fields l). field_names P f = Inr ()"
    and "assertions P l = Inr ()"
  using assms by (auto simp: validate_layout_def bind_res_Inr_iff each_Inr_iff split: if_splits)

end
