(* ===== verification/LayoutRows.thy ===== *)
theory LayoutRows
  imports LayoutRules Segments "HOL-Library.Multiset"
begin

text \<open>
  The rows the generator writes for a layout (\<open>layline-codegen/src/walk/row.rs\<close>, \<open>field_rows\<close>): one
  per field, element or word, sorted by position. \<open>None\<close> is the panic of \<open>Extent::new\<close> on a width of
  zero. A width is cast from \<open>u64\<close> to \<open>u32\<close>.

  The contract between the two halves of the program is here: the table written for a layout that
  passed \<open>validate_layout\<close> is one that \<open>check_layout\<close>, which the compiled program runs, accepts.
  \<open>exact\<close> is what makes that compose: rows that hold each bit of a set once.
\<close>

section \<open>Rows\<close>

definition cover_def_new :: "string \<Rightarrow> coverage \<Rightarrow> bool \<Rightarrow> cover_def" where
  "cover_def_new own over excludes_self =
     \<lparr>cv_field = own,
      cv_from = (case co_from over of FromStart \<Rightarrow> EdgeStart | FromField row \<Rightarrow> EdgeBefore row),
      cv_to = (case co_to over of ToHere \<Rightarrow> EdgeBefore own | ToBefore row \<Rightarrow> EdgeBefore row
                                | ToAfter row \<Rightarrow> EdgeAfter row),
      cv_excludes_self = excludes_self\<rparr>"

definition push_row :: "string \<Rightarrow> nat \<Rightarrow> nat \<Rightarrow> field_def option" where
  "push_row name start width =
     map_option (\<lambda>e. \<lparr>fd_name = name, fd_extent = e\<rparr>) (extent_new start (width mod 2 ^ 32))"

fun stride_loop :: "nat \<Rightarrow> nat list \<Rightarrow> nat list" where
  "stride_loop acc [] = []"
| "stride_loop acc (d # ds) = acc # stride_loop (acc * d) ds"

definition strides :: "nat list \<Rightarrow> nat list" where
  "strides dims = rev (stride_loop 1 (rev dims))"

definition element_path :: "string \<Rightarrow> nat list \<Rightarrow> nat \<Rightarrow> string" where
  "element_path name dims i =
     name @ concat (map (\<lambda>(d, stride). ''['' @ dec (i div stride mod d) @ '']'') (zip dims (strides dims)))"

definition nested_rows :: "string \<Rightarrow> nat \<Rightarrow> nat \<Rightarrow> nat option \<Rightarrow> field_def option list" where
  "nested_rows name bytes pos region =
     (case region of
        Some r \<Rightarrow> map (\<lambda>k. push_row (name @ ''[w'' @ dec k @ '']'') (pos + k * r) r) [0..<bytes * 8 div r]
      | None \<Rightarrow> [push_row name pos (bytes * 8)])"

fun rows_of :: "kind \<Rightarrow> string \<Rightarrow> nat \<Rightarrow> nat option \<Rightarrow> field_def option list" where
  "rows_of (KArray s dims) name pos region =
     map (\<lambda>i. push_row (element_path name dims i) (pos + i * scalar_bits s) (scalar_bits s)) [0..<prod_list dims]"
| "rows_of (KNestedArray _ bytes n) name pos region =
     concat (map (\<lambda>i. nested_rows (name @ ''['' @ dec i @ '']'') bytes (pos + i * (bytes * 8)) region) [0..<n])"
| "rows_of (KNested _ bytes) name pos region = nested_rows name bytes pos region"
| "rows_of other name pos region = [push_row name pos (kind_width other)]"

definition prefix_rows :: "container \<Rightarrow> field_def option list" where
  "prefix_rows c =
     (let prefix = container_prefix c
      in if prefix > 0 then [push_row ''<prefix>'' (physical c (KScalar (ScU prefix)) 0) prefix] else [])"

definition field_rows :: "field list \<Rightarrow> container \<Rightarrow> field_def list option" where
  "field_rows fs c =
     map_option (sort_key (\<lambda>row. ext_start (fd_extent row)))
       (those (prefix_rows c
          @ concat (map (\<lambda>p. rows_of (f_kind (p_field p)) (f_name (p_field p)) (p_physical p) (interior_boundary c))
              (positioned_fields fs c))))"

section \<open>Rows that hold each bit once\<close>

definition row_sum :: "field_def list \<Rightarrow> nat" where
  "row_sum rs = sum_list (map (\<lambda>r. ext_width (fd_extent r)) rs)"

definition exact :: "field_def list \<Rightarrow> nat set \<Rightarrow> bool" where
  "exact rs S \<longleftrightarrow> finite S \<and> widths_ok rs \<and> (\<Union>r \<in> set rs. field_bits r) = S \<and> row_sum rs = card S"

lemma exact_Nil [simp]: "exact [] {}"
  by (simp add: exact_def row_sum_def)

lemma exact_append: "exact rs S \<Longrightarrow> exact rs' S' \<Longrightarrow> S \<inter> S' = {} \<Longrightarrow> exact (rs @ rs') (S \<union> S')"
  by (auto simp: exact_def row_sum_def widths_ok_def card_Un_disjoint)

lemma exact_mset: "exact rs S \<Longrightarrow> mset rs' = mset rs \<Longrightarrow> exact rs' S"
proof -
  assume "mset rs' = mset rs"
  then have "set rs' = set rs" "row_sum rs' = row_sum rs"
    unfolding row_sum_def by (metis mset_eq_setD, metis mset_map sum_mset_sum_list)
  then show "exact rs S \<Longrightarrow> exact rs' S" by (simp add: exact_def widths_ok_def)
qed

lemma exact_one:
  "1 \<le> ext_width (fd_extent r) \<Longrightarrow> exact [r] {ext_start (fd_extent r)..<ext_start (fd_extent r) + ext_width (fd_extent r)}"
  by (simp add: exact_def row_sum_def field_bits_def extent_end_def)

lemma card_rows_le: "card (\<Union>r \<in> set rs. field_bits r) \<le> row_sum rs"
proof (induction rs)
  case (Cons r rs)
  have "card (field_bits r \<union> (\<Union>r \<in> set rs. field_bits r)) \<le> card (field_bits r) + row_sum rs"
    using card_Un_le Cons.IH by (meson add_left_mono le_trans)
  then show ?case by (simp add: row_sum_def field_bits_def extent_end_def)
qed (simp add: row_sum_def)

text \<open>In order of position, such rows follow each other with no gap.\<close>

lemma exact_sorted_check:
  assumes "exact rs {lo..<tot}" "lo \<le> tot" "sorted (map (\<lambda>r. ext_start (fd_extent r)) rs)"
  shows "check_loop rs lo i tot = Inr ()"
  using assms
proof (induction rs arbitrary: lo i)
  case Nil
  then show ?case by (simp add: exact_def)
next
  case (Cons r rs)
  let ?s = "ext_start (fd_extent r)" and ?e = "extent_end (fd_extent r)"
  have w: "1 \<le> ext_width (fd_extent r)" "widths_ok rs" using Cons.prems(1) by (auto simp: exact_def)
  have cover: "field_bits r \<union> (\<Union>q \<in> set rs. field_bits q) = {lo..<tot}"
    using Cons.prems(1) by (simp add: exact_def)
  have sum: "ext_width (fd_extent r) + row_sum rs = tot - lo"
    using Cons.prems(1) by (simp add: exact_def row_sum_def)
  have "?s \<in> field_bits r" "?e - 1 \<in> field_bits r" using w(1) by (auto simp: field_bits_def extent_end_def)
  then have in_range: "?s \<in> {lo..<tot}" "?e - 1 \<in> {lo..<tot}" using cover by blast+
  have least: "?s \<le> b" if "b \<in> {lo..<tot}" for b
  proof -
    from that cover consider "b \<in> field_bits r" | q where "q \<in> set rs" "b \<in> field_bits q" by blast
    then show ?thesis
    proof cases
      case 2
      then have "?s \<le> ext_start (fd_extent q)" using Cons.prems(3) by simp
      with 2(2) show ?thesis by (auto simp: field_bits_def)
    qed (auto simp: field_bits_def)
  qed
  have "lo \<in> {lo..<tot}" using in_range(1) by simp
  then have "?s \<le> lo" by (rule least)
  then have s: "?s = lo" using in_range(1) by simp
  have "?e \<le> tot" using in_range w(1) by (auto simp: extent_end_def)
  moreover have rest: "exact rs {?e..<tot}"
  proof -
    have sub: "{?e..<tot} \<subseteq> (\<Union>q \<in> set rs. field_bits q)"
    proof
      fix b assume b: "b \<in> {?e..<tot}"
      moreover have "lo \<le> ?e" by (simp add: extent_end_def flip: s)
      ultimately have "b \<in> {lo..<tot}" by simp
      with cover have "b \<in> field_bits r \<union> (\<Union>q \<in> set rs. field_bits q)" by simp
      moreover have "b \<notin> field_bits r" using b by (simp add: field_bits_def)
      ultimately show "b \<in> (\<Union>q \<in> set rs. field_bits q)" by blast
    qed
    have "row_sum rs = card {?e..<tot}" using sum s by (simp add: extent_end_def)
    moreover have "finite (\<Union>q \<in> set rs. field_bits q)" by (simp add: field_bits_def)
    ultimately have "(\<Union>q \<in> set rs. field_bits q) = {?e..<tot}"
      using card_rows_le [of rs] sub by (metis card_seteq)
    with \<open>row_sum rs = _\<close> w(2) show ?thesis by (simp add: exact_def)
  qed
  ultimately show ?case using Cons.IH [OF rest] Cons.prems(3) s by simp
qed

section \<open>The rows of one field\<close>

lemma those_append:
  "those (xs @ ys) = Option.bind (those xs) (\<lambda>a. map_option ((@) a) (those ys))"
proof (induction xs)
  case Nil
  then show ?case by (cases "those ys") auto
next
  case (Cons x xs)
  then show ?case by (cases x; cases "those xs"; cases "those ys") auto
qed

lemma those_append_Some:
  "those (xs @ ys) = Some zs \<longleftrightarrow> (\<exists>a b. those xs = Some a \<and> those ys = Some b \<and> zs = a @ b)"
  by (auto simp: those_append bind_eq_Some_conv)

lemma push_row_exact:
  assumes "push_row name start width = Some r" "width < 2 ^ 32"
  shows "exact [r] {start..<start + width}"
  using assms exact_one [of r] by (auto simp: push_row_def extent_new_def split: if_splits)

text \<open>Equal pieces one after another.\<close>

lemma those_concat_exact:
  assumes "those (concat (map g [0..<n])) = Some rs"
    and "\<And>i qs. i < n \<Longrightarrow> those (g i) = Some qs \<Longrightarrow> exact qs {pos + i * w..<pos + i * w + w}"
  shows "exact rs {pos..<pos + n * w}"
  using assms
proof (induction n arbitrary: rs)
  case (Suc n)
  from Suc.prems(1) obtain a b where ab: "those (concat (map g [0..<n])) = Some a" "those (g n) = Some b" "rs = a @ b"
    by (auto simp: those_append_Some)
  have "exact a {pos..<pos + n * w}" using Suc.IH ab(1) Suc.prems(2) by simp
  moreover have "exact b {pos + n * w..<pos + n * w + w}" using Suc.prems(2) ab(2) by simp
  moreover have "{pos..<pos + Suc n * w} = {pos..<pos + n * w} \<union> {pos + n * w..<pos + n * w + w}" by auto
  ultimately show ?case using ab(3) exact_append by fastforce
qed simp

lemma those_map_exact:
  assumes "those (map g [0..<n]) = Some rs"
    and "\<And>i q. i < n \<Longrightarrow> g i = Some q \<Longrightarrow> exact [q] {pos + i * w..<pos + i * w + w}"
  shows "exact rs {pos..<pos + n * w}"
proof (rule those_concat_exact [of "\<lambda>i. [g i]"])
  show "those (concat (map (\<lambda>i. [g i]) [0..<n])) = Some rs"
    using assms(1) by (simp add: concat_map_singleton)
qed (use assms(2) in \<open>auto split: option.splits\<close>)

lemma nested_rows_exact:
  assumes "those (nested_rows name bytes pos region) = Some rs" "bytes * 8 < 2 ^ 32"
    and "region = None \<or> region = Some 16 \<and> 2 dvd bytes"
  shows "exact rs {pos..<pos + bytes * 8}"
proof (cases region)
  case None
  then show ?thesis using assms(1,2) push_row_exact by (auto simp: nested_rows_def split: option.splits)
next
  case (Some r)
  with assms(3) have r: "r = 16" "bytes * 8 div 16 * 16 = bytes * 8" by auto
  have "exact rs {pos..<pos + bytes * 8 div 16 * 16}"
    by (rule those_map_exact [where g = "\<lambda>k. push_row (name @ ''[w'' @ dec k @ '']'') (pos + k * 16) 16"])
      (use assms(1) Some r push_row_exact in \<open>auto simp: nested_rows_def\<close>)
  then show ?thesis by (simp only: r)
qed

definition whole_words :: "container \<Rightarrow> kind \<Rightarrow> bool" where
  "whole_words c k \<longleftrightarrow>
     (case c of CWords _ _ _ \<Rightarrow> (case k of KNested _ bytes \<Rightarrow> 2 dvd bytes | KNestedArray _ bytes _ \<Rightarrow> 2 dvd bytes | _ \<Rightarrow> True)
      | _ \<Rightarrow> True)"

lemma rows_of_exact:
  assumes "those (rows_of k name pos (interior_boundary c)) = Some rs" "kind_width k < 2 ^ 32" "whole_words c k"
  shows "exact rs {pos..<pos + kind_width k}"
proof -
  have one: "exact rs {pos..<pos + kind_width k}"
    if "rows_of k name pos (interior_boundary c) = [push_row name pos (kind_width k)]"
    using that assms push_row_exact by (auto split: option.splits)
  show ?thesis
  proof (cases k)
    case (KArray s dims)
    show ?thesis
    proof (cases "prod_list dims")
      case 0
      then show ?thesis using assms(1) KArray by (simp add: kind_width_def)
    next
      case (Suc m)
      then have "scalar_bits s \<le> kind_width k" by (simp add: KArray kind_width_def)
      then have "scalar_bits s < 2 ^ 32" using assms(2) by linarith
      then have "exact rs {pos..<pos + prod_list dims * scalar_bits s}"
        using assms(1) KArray push_row_exact by (intro those_map_exact) auto
      then show ?thesis by (simp add: KArray kind_width_def mult.commute)
    qed
  next
    case (KNested ty bytes)
    then show ?thesis
      using assms nested_rows_exact [of name bytes pos "interior_boundary c" rs]
      by (cases c) (auto simp: kind_width_def whole_words_def)
  next
    case (KNestedArray ty bytes n)
    have region: "interior_boundary c = None \<or> interior_boundary c = Some 16 \<and> 2 dvd bytes"
      using assms(3) KNestedArray by (cases c) (auto simp: whole_words_def)
    show ?thesis
    proof (cases n)
      case 0
      then show ?thesis using assms(1) KNestedArray by (simp add: kind_width_def)
    next
      case (Suc m)
      then have "bytes * 8 \<le> kind_width k" by (simp add: KNestedArray kind_width_def)
      then have small: "bytes * 8 < 2 ^ 32" using assms(2) by linarith
      have "exact rs {pos..<pos + n * (bytes * 8)}"
        using assms(1) unfolding KNestedArray rows_of.simps
        by (rule those_concat_exact) (use nested_rows_exact [OF _ small region] in blast)
      then show ?thesis by (simp add: KNestedArray kind_width_def algebra_simps)
    qed
  qed (use one in \<open>simp_all\<close>)
qed

section \<open>The rows of a layout\<close>

text \<open>Which bit a declared bit is after mirroring.\<close>

fun region_of :: "container \<Rightarrow> nat" where
  "region_of (CWord bits _ _ _ _) = bits"
| "region_of (CWords _ _ _) = 16"
| "region_of (CBytes _ _) = 8"

definition place_bit :: "container \<Rightarrow> nat \<Rightarrow> nat" where
  "place_bit c = (if container_order c = Some Msb then mirror_bit (region_of c) else id)"

lemma inj_place_bit: "0 < region_of c \<Longrightarrow> inj (place_bit c)"
  by (simp add: place_bit_def inj_mirror_bit)

lemma place_bit_range: "0 < region_of c \<Longrightarrow> place_bit c ` {0..<container_bits c} = {0..<container_bits c}"
  by (cases c) (simp_all add: place_bit_def mirror_bit_range)

text \<open>What the rules leave to the generated program's own check: under \<open>order = msb\<close> every field
  is mirrored, a nested layout is whole words, and no row is empty.\<close>

definition orderly :: "container \<Rightarrow> kind \<Rightarrow> bool" where
  "orderly c k \<longleftrightarrow> (container_order c = Some Msb \<longrightarrow> packed_kind k) \<and> whole_words c k"

definition solid :: "kind \<Rightarrow> bool" where
  "solid k \<longleftrightarrow>
     (case k of KArray s dims \<Rightarrow> 0 < scalar_bits s | KNested _ bytes \<Rightarrow> 0 < bytes | KNestedArray _ bytes n \<Rightarrow> 0 < bytes
      | _ \<Rightarrow> 0 < kind_width k)"

lemma physical_place:
  assumes "orderly c k" "0 < region_of c" "pos + kind_width k \<le> container_bits c"
    and "\<And>w e ord. c = CWords w e ord \<Longrightarrow> packed_kind k \<Longrightarrow> pos mod 16 + kind_width k \<le> 16"
  shows "{physical c k pos..<physical c k pos + kind_width k} = place_bit c ` {pos..<pos + kind_width k}"
proof (cases "container_order c = Some Msb")
  case True
  then have packed: "packed_kind k" using assms(1) by (simp add: orderly_def)
  show ?thesis
  proof (cases c)
    case (CWord bits p pv e ord)
    have "pos mod bits + kind_width k \<le> bits"
      using assms(3) CWord mod_less_eq_dividend [of pos bits]
      by (simp only: container_bits.simps)
    then show ?thesis
      using physical_in_mirror [OF packed, of bits pos] assms(2) True CWord by (simp add: place_bit_def)
  next
    case (CWords w e ord)
    then show ?thesis
      using physical_in_mirror [OF packed, of 16 pos] assms(4) packed True by (simp add: place_bit_def)
  qed (use True in simp)
next
  case False
  then have "physical c k pos = pos" by (cases c) (auto simp: physical_in_def intro: bit_order.exhaust)
  with False show ?thesis by (simp add: place_bit_def)
qed

definition rows_from :: "container \<Rightarrow> nat \<Rightarrow> field list \<Rightarrow> field_def option list" where
  "rows_from c pos fs =
     concat (map (\<lambda>p. rows_of (f_kind (p_field p)) (f_name (p_field p)) (p_physical p) (interior_boundary c))
       (positioned_from c pos fs))"

lemma rows_from_simps [simp]:
  "rows_from c pos [] = []"
  "rows_from c pos (f # fs) =
     rows_of (f_kind f) (f_name f) (physical c (f_kind f) pos) (interior_boundary c)
     @ rows_from c (pos + kind_width (f_kind f)) fs"
  by (simp_all add: rows_from_def)

lemma place_bit_disjoint:
  "0 < region_of c \<Longrightarrow> place_bit c ` {a..<b} \<inter> place_bit c ` {b..<d} = {}"
  using inj_place_bit [of c] by (subst image_Int [symmetric]) auto

lemma rows_from_exact:
  assumes "those (rows_from c pos fs) = Some rs" "\<forall>f \<in> set fs. orderly c (f_kind f)" "0 < region_of c"
    "pos + covered_bits fs \<le> container_bits c" "covered_bits fs < 2 ^ 32"
    "\<forall>p \<in> set (positioned_from c pos fs). position_rule c p = Inr ()"
  shows "exact rs (place_bit c ` {pos..<pos + covered_bits fs})"
  using assms
proof (induction fs arbitrary: pos rs)
  case Nil
  then show ?case by (simp add: covered_bits_def)
next
  case (Cons f fs)
  let ?k = "f_kind f"
  let ?w = "kind_width ?k"
  from Cons.prems(1) obtain a b where ab:
    "those (rows_of ?k (f_name f) (physical c ?k pos) (interior_boundary c)) = Some a"
    "those (rows_from c (pos + ?w) fs) = Some b" "rs = a @ b"
    by (auto simp: those_append_Some)
  have cov: "covered_bits (f # fs) = ?w + covered_bits fs" by (simp add: covered_bits_def)
  have rule: "position_rule c \<lparr>p_field = f, p_declared = pos, p_physical = physical c ?k pos\<rparr> = Inr ()"
    using Cons.prems(6) by simp
  have word: "pos mod 16 + ?w \<le> 16" if "c = CWords w e ord" "packed_kind ?k" for w e ord
    using rule that by (auto simp: position_rule_def Let_def split: if_splits)
  have "whole_words c ?k" using Cons.prems(2) by (simp add: orderly_def)
  then have "exact a {physical c ?k pos..<physical c ?k pos + ?w}"
    using rows_of_exact [OF ab(1)] Cons.prems(5) cov by simp
  then have "exact a (place_bit c ` {pos..<pos + ?w})"
    using physical_place [of c ?k pos] Cons.prems(2-4) cov word by simp
  moreover have "exact b (place_bit c ` {pos + ?w..<pos + ?w + covered_bits fs})"
    using Cons.IH [OF ab(2)] Cons.prems cov by simp
  ultimately have "exact rs (place_bit c ` {pos..<pos + ?w} \<union> place_bit c ` {pos + ?w..<pos + ?w + covered_bits fs})"
    using exact_append place_bit_disjoint [OF Cons.prems(3)] ab(3) by blast
  moreover have "{pos..<pos + ?w} \<union> {pos + ?w..<pos + ?w + covered_bits fs} = {pos..<pos + covered_bits (f # fs)}"
    using cov by auto
  ultimately show ?case by (metis image_Un)
qed

lemma push_row_Some: "0 < width \<Longrightarrow> width < 2 ^ 32 \<Longrightarrow> \<exists>r. push_row name start width = Some r"
  by (simp add: push_row_def extent_new_def)

lemma those_ex: "\<forall>x \<in> set xs. x \<noteq> None \<Longrightarrow> \<exists>ys. those xs = Some ys"
  by (induction xs) auto

lemma nested_rows_solid:
  "0 < bytes \<Longrightarrow> bytes * 8 < 2 ^ 32 \<Longrightarrow> \<forall>x \<in> set (nested_rows name bytes pos (interior_boundary c)). x \<noteq> None"
  by (cases c) (auto simp: nested_rows_def push_row_def extent_new_def)

lemma rows_of_solid:
  assumes "solid k" "kind_width k < 2 ^ 32"
  shows "\<forall>x \<in> set (rows_of k name pos (interior_boundary c)). x \<noteq> None"
proof (cases k)
  case (KArray s dims)
  have "scalar_bits s < 2 ^ 32" if "0 < prod_list dims"
  proof -
    have "scalar_bits s \<le> kind_width k" using that by (simp add: KArray kind_width_def)
    then show ?thesis using assms(2) by linarith
  qed
  then show ?thesis using assms(1) KArray by (auto simp: solid_def push_row_def extent_new_def)
next
  case (KNestedArray ty bytes n)
  have "bytes * 8 < 2 ^ 32" if "0 < n"
  proof -
    have "bytes * 8 \<le> kind_width k" using that by (simp add: KNestedArray kind_width_def)
    then show ?thesis using assms(2) by linarith
  qed
  then show ?thesis using assms(1) KNestedArray nested_rows_solid by (auto simp: solid_def)
next
  case (KNested ty bytes)
  then show ?thesis using assms nested_rows_solid by (auto simp: solid_def kind_width_def)
qed (use assms in \<open>auto simp: solid_def push_row_def extent_new_def\<close>)

lemma rows_from_solid:
  "\<forall>f \<in> set fs. solid (f_kind f) \<Longrightarrow> covered_bits fs < 2 ^ 32 \<Longrightarrow> \<forall>x \<in> set (rows_from c pos fs). x \<noteq> None"
proof (induction fs arbitrary: pos)
  case (Cons f fs)
  then show ?case using rows_of_solid [of "f_kind f"] by (auto simp: covered_bits_def)
qed simp

lemma validated_rows:
  assumes "validate_layout P l = Inr ()" "\<forall>f \<in> set (l_fields l). orderly (l_container l) (f_kind f) \<and> solid (f_kind f)"
    and "container_bits (l_container l) < 2 ^ 32"
  shows "\<exists>rows. field_rows (l_fields l) (l_container l) = Some rows
    \<and> check_layout rows (container_bits (l_container l)) = Inr ()"
proof -
  let ?c = "l_container l" and ?fs = "l_fields l"
  let ?p = "container_prefix ?c"
  note valid = validate_layout_parts [OF assms(1)]
  have region: "0 < region_of ?c" using valid(1) by (cases ?c) (auto split: if_splits)
  have prefix: "?p + container_field_bits ?c = container_bits ?c" "0 < ?p \<Longrightarrow> ?p < container_bits ?c"
    using valid(1) by (cases ?c; auto split: if_splits)+
  have cov: "?p + covered_bits ?fs = container_bits ?c" using valid(2) prefix(1) by simp
  then have small: "covered_bits ?fs < 2 ^ 32" "?p < 2 ^ 32" using assms(3) by linarith+
  have "\<forall>x \<in> set (prefix_rows ?c). x \<noteq> None"
    using small(2) by (auto simp: prefix_rows_def push_row_def extent_new_def Let_def)
  moreover have "\<forall>x \<in> set (rows_from ?c ?p ?fs). x \<noteq> None" using rows_from_solid assms(2) small(1) by blast
  ultimately obtain R where R: "those (prefix_rows ?c @ rows_from ?c ?p ?fs) = Some R"
    using those_ex [of "prefix_rows ?c @ rows_from ?c ?p ?fs"] by auto
  then obtain a b where ab: "those (prefix_rows ?c) = Some a" "those (rows_from ?c ?p ?fs) = Some b" "R = a @ b"
    by (auto simp: those_append_Some)
  have "exact a (place_bit ?c ` {0..<?p})"
  proof (cases "?p = 0")
    case True
    then show ?thesis using ab(1) by (simp add: prefix_rows_def)
  next
    case False
    let ?k = "KScalar (ScU ?p)"
    have k: "orderly ?c ?k" "kind_width ?k = ?p" by (auto simp: orderly_def whole_words_def kind_width_def split: container.splits)
    have word: "\<And>w e ord. ?c = CWords w e ord \<Longrightarrow> packed_kind ?k \<Longrightarrow> 0 mod 16 + kind_width ?k \<le> 16" using False by simp
    have "exact a {physical ?c ?k 0..<physical ?c ?k 0 + ?p}"
      using ab(1) False push_row_exact small(2) by (auto simp: prefix_rows_def Let_def split: option.splits)
    then show ?thesis using physical_place [OF k(1) region _ word] prefix k(2) False by simp
  qed
  moreover have "exact b (place_bit ?c ` {?p..<?p + covered_bits ?fs})"
    using rows_from_exact [OF ab(2) _ region] assms(2) cov small(1) valid(3)
    by (simp add: positioned_fields_def)
  ultimately have "exact R (place_bit ?c ` {0..<?p} \<union> place_bit ?c ` {?p..<?p + covered_bits ?fs})"
    using exact_append place_bit_disjoint [OF region] ab(3) by blast
  moreover have "{0..<?p} \<union> {?p..<?p + covered_bits ?fs} = {0..<container_bits ?c}" using cov by auto
  ultimately have "exact R {0..<container_bits ?c}" by (metis image_Un place_bit_range [OF region])
  then have "exact (sort_key (\<lambda>row. ext_start (fd_extent row)) R) {0..<container_bits ?c}"
    by (rule exact_mset) simp
  then have "check_layout (sort_key (\<lambda>row. ext_start (fd_extent row)) R) (container_bits ?c) = Inr ()"
    unfolding check_layout_def by (rule exact_sorted_check) simp_all
  then show ?thesis using R by (simp add: field_rows_def rows_from_def positioned_fields_def)
qed

section \<open>Properties\<close>

definition beacon :: layout_def where
  "beacon = layout_def_new ''Beacon'' (CWord 16 4 (Some 9) Be Msb)
     [field_new ''kind'' (KScalar (ScU 3)), field_new ''level'' (KScalar (ScI 9))]"

lemmas rule_defs =
  validate_layout_def assertions_def field_names_def ident_def is_ident_def alphabetic_def alphanumeric_def
  int_scalar_def range_rule_def magic_rule_def checksum_rule_def extent_rule_def asserts_def
  position_rule_def positioned_fields_def covered_bits_def kind_width_def admits_def type_path_def
  layout_def_new_def field_new_def WIDEST_FIELD_def WIDEST_BOUND_def

lemmas row_defs =
  field_rows_def prefix_rows_def push_row_def extent_new_def element_path_def strides_def
  physical_in_def check_layout_def extent_end_def

text \<open>C30: for a layout that passes the generator's rules, is of less than 2^32 bits, and whose fields are
  orderly and solid, the generated table is accepted by \<open>check_layout\<close>: its rows, sorted by position,
  hold every bit of the container once, prefix included. Orderly: under \<open>order = msb\<close> every field is one
  that is mirrored (a scalar or a codec), and in a layout of words a nested layout is whole words. Solid:
  every field has a width. The rules do not ask for either, and \<open>msb_array_passes_rules_but_overlaps\<close>
  and \<open>unsized_field_passes_rules_but_panics\<close> show the layouts they let through.\<close>

theorem validated_layout_tables_check:
  assumes "validate_layout P l = Inr ()"
    and "\<forall>f \<in> set (l_fields l). orderly (l_container l) (f_kind f) \<and> solid (f_kind f)"
    and "container_bits (l_container l) < 2 ^ 32"
  shows "\<exists>rows. field_rows (l_fields l) (l_container l) = Some rows
    \<and> check_layout rows (container_bits (l_container l)) = Inr ()"
  using validated_rows [OF assms] .

theorem validated_layout_tables_check_witness:
  "\<exists>rows. field_rows (l_fields beacon) (CWord 16 4 (Some 9) Be Msb) = Some rows \<and> check_layout rows 16 = Inr ()"
proof -
  have "validate_layout lexical beacon = Inr ()" by (simp add: beacon_def rule_defs)
  then show ?thesis using validated_layout_tables_check [of lexical beacon]
    by (simp add: beacon_def layout_def_new_def field_new_def orderly_def whole_words_def solid_def kind_width_def)
qed

text \<open>An array is not mirrored, so beside a mirrored field its rows can fall on taken bits. The rules
  accept the layout below; its table does not pass the check.\<close>

definition shadowed :: layout_def where
  "shadowed = layout_def_new ''Shadowed'' (CWord 16 0 None Be Msb)
     [field_new ''a'' (KScalar (ScU 8)), field_new ''b'' (KArray (ScU 8) [1])]"

lemma msb_array_passes_rules_but_overlaps:
  "validate_layout lexical shadowed = Inr ()
   \<and> map_option (\<lambda>rows. check_layout rows 16) (field_rows (l_fields shadowed) (l_container shadowed))
     = Some (Inl (Gap 0 0 8))"
  by (simp add: shadowed_def rule_defs row_defs)

text \<open>A self-delimiting field in a byte container passes too; writing its row panics.\<close>

definition unsized :: layout_def where
  "unsized = layout_def_new ''Unsized'' (CBytes 1 Le) [field_new ''a'' (KScalar (ScU 8)), field_new ''b'' (KVar ''Uleb128'')]"

lemma unsized_field_passes_rules_but_panics:
  "validate_layout lexical unsized = Inr () \<and> field_rows (l_fields unsized) (l_container unsized) = None"
  by (simp add: unsized_def rule_defs row_defs lexical_def lexical_path_def trim_def white_space_def)

end
