(* ===== verification/MessageModel.thy ===== *)
theory MessageModel
  imports LayoutModel
begin

text \<open>
  The generator's model of messages, choices, enumerations and dispatches
  (\<open>layline-codegen/src/model/message.rs\<close>, \<open>choice.rs\<close>, \<open>enumeration.rs\<close>, \<open>dispatch.rs\<close> and
  \<open>model.rs\<close>), and what a segment answers about itself: the names it writes, its size, and whether
  it reads to the end of the body.
\<close>

section \<open>Segments\<close>

datatype count_kind =
    CountField num_by "nat option" \<comment> \<open>\<open>by\<close>, \<open>cap\<close>\<close>
  | CountSquared num_by "nat option"
  | CountStrided num_by "nat option" num_by \<comment> \<open>\<open>by\<close>, \<open>cap\<close>, \<open>stride\<close>\<close>
  | CountWindow len
  | CountTerminated u8
  | CountFill "nat option"

datatype when_present =
    OnMask string u64
  | OnFlag string
  | OnMaskClear string u64
  | OnFlagClear string
  | OnBit
  | OnRemaining

fun presence_tests :: "when_present \<Rightarrow> (string \<times> u64 \<times> bool) option" where
  "presence_tests (OnMask field m) = Some (field, m, True)"
| "presence_tests (OnMaskClear field m) = Some (field, m, False)"
| "presence_tests (OnFlag field) = Some (field, 1, True)"
| "presence_tests (OnFlagClear field) = Some (field, 1, False)"
| "presence_tests OnBit = None"
| "presence_tests OnRemaining = None"

fun reads_flag :: "when_present \<Rightarrow> bool" where
  "reads_flag (OnFlag _) = True"
| "reads_flag (OnFlagClear _) = True"
| "reads_flag _ = False"

datatype absence = ZeroOffset | ZeroLength string "nat option" \<comment> \<open>\<open>by\<close>, \<open>align\<close>\<close>

datatype collection = ColVec | ColBoxed | ColBorrowed | ColBorrowedArray

fun borrows :: "collection \<Rightarrow> bool" where
  "borrows ColBorrowed = True"
| "borrows ColBorrowedArray = True"
| "borrows _ = False"

datatype switch_on = SwitchField string | SwitchBodyLength

record seg_head =
  sh_name :: string
  sh_doc :: "string option"
  sh_stated :: "stated option"

datatype segment =
    SBlock "field list"
  | SValue seg_head kind
  | SRepeat seg_head kind count_kind "string option" collection \<comment> \<open>\<open>element\<close>, \<open>count\<close>, \<open>at\<close>, \<open>collection\<close>\<close>
  | SPlaced seg_head kind string "absence option" \<comment> \<open>\<open>kind\<close>, \<open>at\<close>, \<open>absent\<close>\<close>
  | SSwitch seg_head switch_on string "len option" \<comment> \<open>\<open>on\<close>, \<open>choice\<close>, \<open>window\<close>\<close>
  | SOpt when_present field
  | SChecksum seg_head scalar string coverage \<comment> \<open>\<open>repr\<close>, \<open>algorithm\<close>, \<open>over\<close>\<close>

definition head_of :: "string \<Rightarrow> seg_head" where
  "head_of name = \<lparr>sh_name = name, sh_doc = None, sh_stated = None\<rparr>"

definition seg_value :: "string \<Rightarrow> kind \<Rightarrow> segment" where
  "seg_value name k = SValue (head_of name) k"

definition seg_repeat :: "string \<Rightarrow> kind \<Rightarrow> count_kind \<Rightarrow> string option \<Rightarrow> collection \<Rightarrow> segment" where
  "seg_repeat name element cnt pos col = SRepeat (head_of name) element cnt pos col"

definition seg_placed :: "string \<Rightarrow> kind \<Rightarrow> string \<Rightarrow> absence option \<Rightarrow> segment" where
  "seg_placed name k pos gone = SPlaced (head_of name) k pos gone"

definition seg_switch :: "string \<Rightarrow> switch_on \<Rightarrow> string \<Rightarrow> len option \<Rightarrow> segment" where
  "seg_switch name on choice window = SSwitch (head_of name) on choice window"

definition seg_checksum :: "string \<Rightarrow> scalar \<Rightarrow> string \<Rightarrow> coverage \<Rightarrow> segment" where
  "seg_checksum name repr algorithm over = SChecksum (head_of name) repr algorithm over"

fun seg_with_doc :: "string \<Rightarrow> segment \<Rightarrow> segment" where
  "seg_with_doc text (SBlock fs) = SBlock fs"
| "seg_with_doc text (SOpt w f) = SOpt w (f\<lparr>f_doc := Some text\<rparr>)"
| "seg_with_doc text (SValue h k) = SValue (h\<lparr>sh_doc := Some text\<rparr>) k"
| "seg_with_doc text (SRepeat h e n p c) = SRepeat (h\<lparr>sh_doc := Some text\<rparr>) e n p c"
| "seg_with_doc text (SPlaced h k p a) = SPlaced (h\<lparr>sh_doc := Some text\<rparr>) k p a"
| "seg_with_doc text (SSwitch h s c w) = SSwitch (h\<lparr>sh_doc := Some text\<rparr>) s c w"
| "seg_with_doc text (SChecksum h r a ov) = SChecksum (h\<lparr>sh_doc := Some text\<rparr>) r a ov"

fun seg_with_stated :: "stated \<Rightarrow> segment \<Rightarrow> segment" where
  "seg_with_stated s (SBlock fs) = SBlock fs"
| "seg_with_stated s (SOpt w f) = SOpt w (f\<lparr>f_stated := Some s\<rparr>)"
| "seg_with_stated s (SValue h k) = SValue (h\<lparr>sh_stated := Some s\<rparr>) k"
| "seg_with_stated s (SRepeat h e n p c) = SRepeat (h\<lparr>sh_stated := Some s\<rparr>) e n p c"
| "seg_with_stated s (SPlaced h k p a) = SPlaced (h\<lparr>sh_stated := Some s\<rparr>) k p a"
| "seg_with_stated s (SSwitch h on c w) = SSwitch (h\<lparr>sh_stated := Some s\<rparr>) on c w"
| "seg_with_stated s (SChecksum h r a ov) = SChecksum (h\<lparr>sh_stated := Some s\<rparr>) r a ov"

fun seg_places :: "segment \<Rightarrow> string list" where
  "seg_places (SBlock fs) = map f_name fs"
| "seg_places (SValue h _) = [sh_name h]"
| "seg_places (SRepeat h _ _ _ _) = [sh_name h]"
| "seg_places (SSwitch h _ _ _) = [sh_name h]"
| "seg_places (SChecksum h _ _ _) = [sh_name h]"
| "seg_places (SPlaced h _ _ None) = [sh_name h]"
| "seg_places (SPlaced _ _ _ (Some _)) = []"
| "seg_places (SOpt _ _) = []"

fun seg_align :: "segment \<Rightarrow> nat option" where
  "seg_align (SRepeat _ _ (CountWindow (LenField _ _ align)) _ _) = align"
| "seg_align (SValue _ (KText (LenField _ _ align) _)) = align"
| "seg_align (SSwitch _ _ _ (Some (LenField _ _ align))) = align"
| "seg_align (SPlaced _ _ _ (Some (ZeroLength _ align))) = align"
| "seg_align _ = None"

fun placed_optionally :: "segment \<Rightarrow> string option" where
  "placed_optionally (SOpt _ f) = Some (f_name f)"
| "placed_optionally (SPlaced h _ _ (Some _)) = Some (sh_name h)"
| "placed_optionally _ = None"

fun seg_name :: "segment \<Rightarrow> string option" where
  "seg_name (SBlock _) = None"
| "seg_name (SOpt _ f) = Some (f_name f)"
| "seg_name (SValue h _) = Some (sh_name h)"
| "seg_name (SRepeat h _ _ _ _) = Some (sh_name h)"
| "seg_name (SPlaced h _ _ _) = Some (sh_name h)"
| "seg_name (SSwitch h _ _ _) = Some (sh_name h)"
| "seg_name (SChecksum h _ _ _) = Some (sh_name h)"

fun seg_stated :: "segment \<Rightarrow> stated option" where
  "seg_stated (SBlock _) = None"
| "seg_stated (SOpt _ f) = f_stated f"
| "seg_stated (SValue h _) = sh_stated h"
| "seg_stated (SRepeat h _ _ _ _) = sh_stated h"
| "seg_stated (SPlaced h _ _ _) = sh_stated h"
| "seg_stated (SSwitch h _ _ _) = sh_stated h"
| "seg_stated (SChecksum h _ _ _) = sh_stated h"

text \<open>\<open>sum\<close> of options: \<open>None\<close> as soon as one is.\<close>

fun sum_options :: "nat option list \<Rightarrow> nat option" where
  "sum_options [] = Some 0"
| "sum_options (None # xs) = None"
| "sum_options (Some x # xs) = map_option ((+) x) (sum_options xs)"

fun seg_fixed_bits :: "segment \<Rightarrow> nat option" where
  "seg_fixed_bits (SBlock fs) = sum_options (map (\<lambda>f. kind_bits (f_kind f)) fs)"
| "seg_fixed_bits (SChecksum _ repr _ _) = Some (scalar_bits repr)"
| "seg_fixed_bits (SValue _ k) = kind_bits k"
| "seg_fixed_bits (SRepeat _ _ (CountWindow (LenBytes n)) None _) = Some (n * 8)"
| "seg_fixed_bits (SRepeat _ _ _ _ _) = None"
| "seg_fixed_bits (SSwitch _ _ _ (Some (LenBytes n))) = Some (n * 8)"
| "seg_fixed_bits (SSwitch _ _ _ _) = None"
| "seg_fixed_bits (SPlaced _ _ _ _) = None"
| "seg_fixed_bits (SOpt _ _) = None"

fun fills :: "kind \<Rightarrow> bool" where
  "fills (KText LenFill _) = True"
| "fills _ = False"

fun seg_open_ended :: "segment \<Rightarrow> bool" where
  "seg_open_ended (SRepeat _ _ (CountFill _) _ _) = True"
| "seg_open_ended (SRepeat _ _ _ _ _) = False"
| "seg_open_ended (SValue _ k) = fills k"
| "seg_open_ended (SOpt _ f) = fills (f_kind f)"
| "seg_open_ended _ = False"

section \<open>Items\<close>

record param =
  pm_name :: string
  pm_repr :: scalar

record message_item =
  mi_name :: string
  mi_endian :: endian
  mi_bits :: "bit_order option"
  mi_needs :: "param list"
  mi_segments :: "segment list"
  mi_doc :: "string option"
  mi_derives :: "derive_def list"
  mi_lifetime :: "string option"

definition message_new :: "string \<Rightarrow> segment list \<Rightarrow> message_item" where
  "message_new name segments =
     \<lparr>mi_name = name, mi_endian = Le, mi_bits = None, mi_needs = [], mi_segments = segments, mi_doc = None,
      mi_derives = [], mi_lifetime = None\<rparr>"

record arm =
  am_value :: nat
  am_body :: "segment list"
  am_name :: string
  am_doc :: "string option"

definition arm_new :: "nat \<Rightarrow> string \<Rightarrow> segment list \<Rightarrow> arm" where
  "arm_new v name body = \<lparr>am_value = v, am_body = body, am_name = name, am_doc = None\<rparr>"

definition arm_open_ended :: "arm \<Rightarrow> bool" where
  "arm_open_ended a = list_ex seg_open_ended (am_body a)"

record choice_item =
  ci_name :: string
  ci_endian :: endian
  ci_arms :: "arm list"
  ci_other :: "string option"
  ci_other_bytes :: "nat option"
  ci_doc :: "string option"
  ci_derives :: "derive_def list"

definition choice_new :: "string \<Rightarrow> arm list \<Rightarrow> choice_item" where
  "choice_new name arms =
     \<lparr>ci_name = name, ci_endian = Le, ci_arms = arms, ci_other = None, ci_other_bytes = None, ci_doc = None,
      ci_derives = []\<rparr>"

definition choice_open_ended :: "choice_item \<Rightarrow> bool" where
  "choice_open_ended c =
     ((ci_other c \<noteq> None \<and> ci_other_bytes c = None) \<or> list_ex arm_open_ended (ci_arms c))"

record variant =
  vn_value :: int
  vn_name :: string
  vn_doc :: "string option"

definition variant_new :: "int \<Rightarrow> string \<Rightarrow> variant" where
  "variant_new v name = \<lparr>vn_value = v, vn_name = name, vn_doc = None\<rparr>"

record enum_item =
  en_name :: string
  en_repr :: scalar
  en_variants :: "variant list"
  en_other :: "string option"
  en_doc :: "string option"
  en_default :: "string option"
  en_derives :: "derive_def list"
  en_other_doc :: "string option"

definition enum_new :: "string \<Rightarrow> scalar \<Rightarrow> variant list \<Rightarrow> enum_item" where
  "enum_new name repr variants =
     \<lparr>en_name = name, en_repr = repr, en_variants = variants, en_other = None, en_doc = None, en_default = None,
      en_derives = [], en_other_doc = None\<rparr>"

record dispatch_arm =
  da_id :: int
  da_name :: string
  da_ty :: string
  da_doc :: "string option"

definition dispatch_arm_new :: "int \<Rightarrow> string \<Rightarrow> string \<Rightarrow> dispatch_arm" where
  "dispatch_arm_new i name ty = \<lparr>da_id = i, da_name = name, da_ty = ty, da_doc = None\<rparr>"

record dispatch_item =
  di_name :: string
  di_id :: scalar
  di_arms :: "dispatch_arm list"
  di_other :: string
  di_doc :: "string option"
  di_derives :: "derive_def list"
  di_prefix :: nat
  di_other_doc :: "string option"
  di_other_body :: "string option"

definition dispatch_new :: "string \<Rightarrow> scalar \<Rightarrow> dispatch_arm list \<Rightarrow> dispatch_item" where
  "dispatch_new name i arms =
     \<lparr>di_name = name, di_id = i, di_arms = arms, di_other = ''Unknown'', di_doc = None, di_derives = [],
      di_prefix = 0, di_other_doc = None, di_other_body = None\<rparr>"

text \<open>The tokens of a verbatim item belong to the \<open>proc_macro2\<close> crate: the type of them is open.\<close>

datatype 'tokens item =
    IEnum enum_item
  | ILayout layout_def
  | IChoice choice_item
  | IDispatch dispatch_item
  | IMessage message_item
  | IVerbatim 'tokens

text \<open>\<open>split_once('.')\<close>\<close>

fun split_ref :: "string \<Rightarrow> string \<times> string option" where
  "split_ref [] = ([], None)"
| "split_ref (c # cs) =
     (if c = CHR ''.'' then ([], Some cs)
      else let (outer, inner) = split_ref cs in (c # outer, inner))"

lemma split_ref_parts:
  "split_ref s = (a, b) \<longleftrightarrow>
     CHR ''.'' \<notin> set a \<and> s = (case b of None \<Rightarrow> a | Some inner \<Rightarrow> a @ CHR ''.'' # inner)"
proof (induction s arbitrary: a b)
  case Nil
  then show ?case by (auto split: option.splits)
next
  case (Cons c cs)
  obtain a' b' where s: "split_ref cs = (a', b')" by fastforce
  show ?case
    using Cons.IH [of a' b'] Cons.IH [of "tl a" b] s
    by (cases a) (auto split: option.splits)
qed

end
