(* ===== verification/Graph.thy ===== *)
theory Graph
  imports MessageModel
begin

text \<open>
  References between the items of a module (\<open>layline-codegen/src/walk/reference.rs\<close>) and the checks
  over all of them (\<open>emit/graph.rs\<close>): no item recurses on every path, no Rust type contains itself
  without a pointer, nothing follows a switch that reads to the end of the body, and items whose open
  ends depend on each other have one answer.

  The specification of the recursion check is by trees. A \<open>wire\<close> is a tree that picks one alternative
  of an item and gives a wire for every reference the alternative cannot skip; an item from which no
  finite tree exists is one whose bytes never end.
\<close>

section \<open>References\<close>

datatype referent = ToMessage string | ToChoice string

fun referent_name :: "referent \<Rightarrow> string" where
  "referent_name (ToMessage n) = n"
| "referent_name (ToChoice n) = n"

record reference =
  rf_to :: referent
  rf_field :: string
  rf_avoidable :: bool
  rf_indirect :: bool

definition edge :: "referent \<Rightarrow> string \<Rightarrow> bool \<Rightarrow> bool \<Rightarrow> reference" where
  "edge to field avoidable indirect =
     \<lparr>rf_to = to, rf_field = field, rf_avoidable = avoidable, rf_indirect = indirect\<rparr>"

fun fixed_window :: "count_kind \<Rightarrow> bool" where
  "fixed_window (CountWindow (LenBytes n)) = (n > 0)"
| "fixed_window _ = False"

fun seg_reference :: "segment \<Rightarrow> reference option" where
  "seg_reference (SValue h (KMsg ty boxed _)) = Some (edge (ToMessage ty) (sh_name h) False boxed)"
| "seg_reference (SOpt _ f) =
     (case f_kind f of KMsg ty boxed _ \<Rightarrow> Some (edge (ToMessage ty) (f_name f) True boxed) | _ \<Rightarrow> None)"
| "seg_reference (SRepeat h (KMsg ty _ _) cnt _ _) =
     Some (edge (ToMessage ty) (sh_name h) (\<not> fixed_window cnt) True)"
| "seg_reference (SPlaced h (KMsg ty boxed _) _ gone) =
     Some (edge (ToMessage ty) (sh_name h) (gone \<noteq> None) boxed)"
| "seg_reference (SSwitch h _ choice _) = Some (edge (ToChoice choice) (sh_name h) False False)"
| "seg_reference _ = None"

definition references :: "segment list \<Rightarrow> reference list" where
  "references segs = List.map_filter seg_reference segs"

fun end_deferring :: "segment \<Rightarrow> bool" where
  "end_deferring (SSwitch _ _ _ (Some _)) = False"
| "end_deferring (SSwitch _ _ _ None) = True"
| "end_deferring (SValue _ (KMsg _ _ _)) = True"
| "end_deferring (SOpt _ f) = (case f_kind f of KMsg _ _ _ \<Rightarrow> True | _ \<Rightarrow> False)"
| "end_deferring _ = False"

definition defers_open_end :: "segment list \<Rightarrow> reference option" where
  "defers_open_end segs =
     (if segs = [] then None else if end_deferring (last segs) then seg_reference (last segs) else None)"

section \<open>The smallest closed set\<close>

text \<open>One pass adds every node that holds, with the ones added before it in the same pass.\<close>

fun fix_pass :: "(nat \<Rightarrow> bool list \<Rightarrow> bool) \<Rightarrow> nat list \<Rightarrow> bool list \<Rightarrow> bool \<Rightarrow> bool list \<times> bool" where
  "fix_pass holds [] found changed = (found, changed)"
| "fix_pass holds (i # is) found changed =
     (if \<not> found ! i \<and> holds i found then fix_pass holds is (found[i := True]) True
      else fix_pass holds is found changed)"

lemma fix_pass_length [simp]: "length (fst (fix_pass holds is found changed)) = length found"
  by (induction "is" arbitrary: found changed) auto

lemma fix_pass_missing:
  "\<forall>i \<in> set is. i < length found \<Longrightarrow>
   missing (fst (fix_pass holds is found changed)) \<le> missing found
   \<and> (snd (fix_pass holds is found changed) \<longrightarrow> changed \<or> missing (fst (fix_pass holds is found changed)) < missing found)"
proof (induction "is" arbitrary: found changed)
  case (Cons i "is")
  show ?case
  proof (cases "\<not> found ! i \<and> holds i found")
    case True
    have "Suc (missing (found[i := True])) = missing found" using Cons.prems True by (intro missing_update) auto
    moreover have "missing (fst (fix_pass holds is (found[i := True]) True)) \<le> missing (found[i := True])"
      using Cons.IH [of "found[i := True]" True] Cons.prems by simp
    ultimately show ?thesis using True by simp
  next
    case False
    then show ?thesis using Cons.IH [of found changed] Cons.prems by auto
  qed
qed simp

function fix_loop :: "(nat \<Rightarrow> bool list \<Rightarrow> bool) \<Rightarrow> bool list \<Rightarrow> bool list" where
  "fix_loop holds found =
     (let (found', changed) = fix_pass holds [0..<length found] found False
      in if changed then fix_loop holds found' else found')"
  by auto
termination
proof (relation "measure (\<lambda>(holds, found). missing found)", simp, goal_cases)
  case (1 holds found x found' changed)
  then have "fix_pass holds [0..<length found] found False = (found', True)" by simp
  then show ?case using fix_pass_missing [of "[0..<length found]" found holds False] by simp
qed

declare fix_loop.simps [simp del]

definition least_fixpoint :: "nat \<Rightarrow> (nat \<Rightarrow> bool list \<Rightarrow> bool) \<Rightarrow> bool list" where
  "least_fixpoint n holds = fix_loop holds (replicate n False)"

text \<open>The loop gives the smallest list closed under a rule that more members never undo.\<close>

definition within :: "bool list \<Rightarrow> bool list \<Rightarrow> bool" where
  "within s t \<longleftrightarrow> length s = length t \<and> (\<forall>i < length s. s ! i \<longrightarrow> t ! i)"

definition monotone_rule :: "nat \<Rightarrow> (nat \<Rightarrow> bool list \<Rightarrow> bool) \<Rightarrow> bool" where
  "monotone_rule n holds \<longleftrightarrow> (\<forall>i s t. length s = n \<longrightarrow> within s t \<longrightarrow> holds i s \<longrightarrow> holds i t)"

definition closed_rule :: "(nat \<Rightarrow> bool list \<Rightarrow> bool) \<Rightarrow> bool list \<Rightarrow> bool" where
  "closed_rule holds t \<longleftrightarrow> (\<forall>i < length t. holds i t \<longrightarrow> t ! i)"

lemma within_update: "within s t \<Longrightarrow> i < length s \<Longrightarrow> t ! i \<Longrightarrow> within (s[i := True]) t"
  by (auto simp: within_def nth_list_update)

lemma fix_pass_within:
  "\<lbrakk>monotone_rule (length found) holds; closed_rule holds t; within found t; \<forall>i \<in> set is. i < length found\<rbrakk>
   \<Longrightarrow> within (fst (fix_pass holds is found changed)) t"
proof (induction "is" arbitrary: found changed)
  case (Cons i "is")
  show ?case
  proof (cases "\<not> found ! i \<and> holds i found")
    case True
    have i: "i < length found" using Cons.prems(4) by simp
    have "holds i t" using Cons.prems(1,3) True unfolding monotone_rule_def by blast
    then have "t ! i" using Cons.prems(2,3) i by (simp add: closed_rule_def within_def)
    then have "within (found[i := True]) t" using within_update Cons.prems(3) i by blast
    then show ?thesis using Cons.IH [of "found[i := True]" True] Cons.prems True by simp
  next
    case False
    then have "fix_pass holds (i # is) found changed = fix_pass holds is found changed"
      by (subst fix_pass.simps) (rule if_not_P)
    then show ?thesis using Cons.IH [of found changed] Cons.prems by simp
  qed
qed simp

lemma fix_pass_changed: "snd (fix_pass holds is s True)"
  by (induction "is" arbitrary: s) auto

lemma fix_pass_unchanged:
  "\<not> snd (fix_pass holds is found changed) \<Longrightarrow>
   fst (fix_pass holds is found changed) = found \<and> (\<forall>i \<in> set is. holds i found \<longrightarrow> found ! i)"
proof (induction "is" arbitrary: changed)
  case (Cons i "is")
  have same: "\<not> (\<not> found ! i \<and> holds i found)" using Cons.prems fix_pass_changed by force
  then show ?case using Cons.IH [of changed] Cons.prems by (simp only: fix_pass.simps if_False) auto
qed simp

lemma fix_loop_least:
  assumes "monotone_rule (length found) holds"
  shows "length (fix_loop holds found) = length found \<and> closed_rule holds (fix_loop holds found)
    \<and> (\<forall>t. closed_rule holds t \<longrightarrow> within found t \<longrightarrow> within (fix_loop holds found) t)"
  using assms
proof (induction "missing found" arbitrary: found rule: less_induct)
  case less
  define r where "r = fix_pass holds [0..<length found] found False"
  have loop: "fix_loop holds found = (if snd r then fix_loop holds (fst r) else fst r)"
    using r_def by (subst fix_loop.simps) (simp add: case_prod_beta)
  have len: "length (fst r) = length found" by (simp add: r_def)
  have sub: "within (fst r) t" if "closed_rule holds t" "within found t" for t
    unfolding r_def using fix_pass_within [OF less.prems that] by simp
  show ?case
  proof (cases "snd r")
    case True
    then have "missing (fst r) < missing found"
      using fix_pass_missing [of "[0..<length found]" found holds False] by (simp add: r_def)
    from less.hyps [OF this] less.prems show ?thesis using loop True len sub by simp
  next
    case False
    then have "fst r = found" "\<forall>i < length found. holds i found \<longrightarrow> found ! i"
      using fix_pass_unchanged [of holds "[0..<length found]" found False] by (auto simp: r_def)
    then show ?thesis using loop False sub by (auto simp: closed_rule_def)
  qed
qed

lemma least_fixpoint_least:
  assumes "monotone_rule n holds"
  shows "length (least_fixpoint n holds) = n" "closed_rule holds (least_fixpoint n holds)"
    "\<And>t. closed_rule holds t \<Longrightarrow> length t = n \<Longrightarrow> within (least_fixpoint n holds) t"
  using fix_loop_least [of "replicate n False" holds] assms
  by (auto simp: least_fixpoint_def within_def)

section \<open>Recursion\<close>

record node =
  nd_name :: string
  nd_choice :: bool
  nd_alternatives :: "reference list list"

fun node_of :: "'t item \<Rightarrow> node option" where
  "node_of (IMessage m) =
     Some \<lparr>nd_name = mi_name m, nd_choice = False, nd_alternatives = [references (mi_segments m)]\<rparr>"
| "node_of (IChoice c) =
     Some \<lparr>nd_name = ci_name c, nd_choice = True,
       nd_alternatives = map (\<lambda>a. references (am_body a)) (ci_arms c)
         @ (if ci_other c \<noteq> None \<or> ci_arms c = [] then [[]] else [])\<rparr>"
| "node_of _ = None"

definition nodes_of :: "'t item list \<Rightarrow> node list" where
  "nodes_of items = List.map_filter node_of items"

fun wants_choice :: "referent \<Rightarrow> bool" where
  "wants_choice (ToChoice _) = True"
| "wants_choice (ToMessage _) = False"

definition find_node :: "node list \<Rightarrow> referent \<Rightarrow> nat option" where
  "find_node nodes to =
     index_where (\<lambda>n. nd_name n = referent_name to \<and> nd_choice n = wants_choice to) nodes"

definition ends_rule :: "node list \<Rightarrow> nat \<Rightarrow> bool list \<Rightarrow> bool" where
  "ends_rule nodes i ends =
     list_ex (\<lambda>edges. list_all (\<lambda>r. none_or (\<lambda>j. ends ! j) (find_node nodes (rf_to r)))
         (filter (\<lambda>r. \<not> rf_avoidable r) edges)) (nd_alternatives (nodes ! i))"

definition sized_rule :: "node list \<Rightarrow> nat \<Rightarrow> bool list \<Rightarrow> bool" where
  "sized_rule nodes i sized =
     list_all (\<lambda>r. rf_indirect r \<or> none_or (\<lambda>j. sized ! j) (find_node nodes (rf_to r)))
       (concat (nd_alternatives (nodes ! i)))"

text \<open>The walk of \<open>cycle_from\<close>, which ends after as many steps as there are
  nodes. A name is quoted as it is printed.\<close>

fun cycle_walk :: "node list \<Rightarrow> (node \<Rightarrow> referent list) \<Rightarrow> nat \<Rightarrow> nat list \<Rightarrow> nat \<Rightarrow> nat list" where
  "cycle_walk nodes out 0 path pos = []"
| "cycle_walk nodes out (Suc n) path pos =
     (case find_map (find_node nodes) (out (nodes ! pos)) of
        None \<Rightarrow> []
      | Some next \<Rightarrow>
          (case index_where (\<lambda>p. p = next) path of
             Some seen \<Rightarrow> drop seen path @ [next]
           | None \<Rightarrow> cycle_walk nodes out n (path @ [next]) next))"

definition cycle_from :: "node list \<Rightarrow> nat \<Rightarrow> (node \<Rightarrow> referent list) \<Rightarrow> string" where
  "cycle_from nodes start out =
     (case cycle_walk nodes out (length nodes + 1) [start] start of
        [] \<Rightarrow> quoted (nd_name (nodes ! start))
      | p # ps \<Rightarrow> joined '' -> '' (map (\<lambda>i. quoted (nd_name (nodes ! i))) (p # ps)))"

text \<open>A refusal over the module: the item it names, and the cycle or the item it depends on.\<close>

datatype refusal =
    Endless string string \<comment> \<open>recurses on every path\<close>
  | InfiniteSize string string \<comment> \<open>contains itself without indirection\<close>
  | UnknownEnd string string \<comment> \<open>its end depends on an item that is not declared\<close>
  | FollowsOpenEnd string string string \<comment> \<open>the message, the field and the choice it switches to\<close>

definition unavoidable :: "node \<Rightarrow> referent list" where
  "unavoidable n = map rf_to (filter (\<lambda>r. \<not> rf_avoidable r) (concat (nd_alternatives n)))"

definition direct :: "node \<Rightarrow> referent list" where
  "direct n = map rf_to (filter (\<lambda>r. \<not> rf_indirect r) (concat (nd_alternatives n)))"

definition recursion :: "'t item list \<Rightarrow> refusal + unit" where
  "recursion items =
     (let nodes = nodes_of items;
          ends = least_fixpoint (length nodes) (ends_rule nodes)
      in case find (\<lambda>i. \<not> ends ! i) [0..<length nodes] of
           Some i \<Rightarrow> Inl (Endless (nd_name (nodes ! i)) (cycle_from nodes i unavoidable))
         | None \<Rightarrow>
             let sized = least_fixpoint (length nodes) (sized_rule nodes)
             in case find (\<lambda>i. \<not> sized ! i) [0..<length nodes] of
                  Some i \<Rightarrow> Inl (InfiniteSize (nd_name (nodes ! i)) (cycle_from nodes i direct))
                | None \<Rightarrow> Inr ())"

section \<open>What the recursion check promises\<close>

text \<open>The declared items an alternative cannot skip, and wires over them.\<close>

definition needed :: "node list \<Rightarrow> reference list \<Rightarrow> nat list" where
  "needed nodes edges = List.map_filter (\<lambda>r. if rf_avoidable r then None else find_node nodes (rf_to r)) edges"

datatype wire = Wire nat "wire list"

fun wire_of :: "node list \<Rightarrow> nat \<Rightarrow> wire \<Rightarrow> bool" where
  "wire_of nodes i (Wire a ws) =
     (a < length (nd_alternatives (nodes ! i))
      \<and> list_all2 (wire_of nodes) (needed nodes (nd_alternatives (nodes ! i) ! a)) ws)"

definition contains :: "node list \<Rightarrow> (nat \<times> nat) set" where
  "contains nodes = {(i, j). i < length nodes \<and>
     (\<exists>r \<in> set (concat (nd_alternatives (nodes ! i))). \<not> rf_indirect r \<and> find_node nodes (rf_to r) = Some j)}"

lemma find_node_length: "find_node nodes to = Some j \<Longrightarrow> j < length nodes"
  unfolding find_node_def using index_where_Some by blast

lemma none_or_find:
  "none_or p (find_node nodes to) \<longleftrightarrow> (\<forall>j. find_node nodes to = Some j \<longrightarrow> p j)"
  by (cases "find_node nodes to") auto

lemma ends_rule_needed:
  "ends_rule nodes i ends \<longleftrightarrow> (\<exists>edges \<in> set (nd_alternatives (nodes ! i)). \<forall>j \<in> set (needed nodes edges). ends ! j)"
  unfolding ends_rule_def list_ex_iff list_all_iff none_or_find needed_def List.map_filter_def
  by (intro bex_cong refl) (auto split: option.splits if_splits)

lemma needed_length: "j \<in> set (needed nodes edges) \<Longrightarrow> j < length nodes"
  by (auto simp: needed_def List.map_filter_def find_node_length split: if_splits)

lemma monotone_ends: "monotone_rule (length nodes) (ends_rule nodes)"
  unfolding monotone_rule_def ends_rule_needed within_def using needed_length by metis

text \<open>The nodes marked as ending are those a finite wire exists for.\<close>

lemma wire_marked:
  assumes "closed_rule (ends_rule nodes) t" "length t = length nodes" "wire_of nodes i w" "i < length nodes"
  shows "t ! i"
  using assms(3,4)
proof (induction w arbitrary: i)
  case (Wire a ws)
  let ?edges = "nd_alternatives (nodes ! i) ! a"
  have a: "a < length (nd_alternatives (nodes ! i))" "list_all2 (wire_of nodes) (needed nodes ?edges) ws"
    using Wire.prems by auto
  have "t ! j" if "j \<in> set (needed nodes ?edges)" for j
  proof -
    from that a(2) obtain w where "w \<in> set ws" "wire_of nodes j w"
      by (metis in_set_conv_nth list_all2_conv_all_nth)
    with Wire.IH that needed_length show ?thesis by blast
  qed
  moreover have "?edges \<in> set (nd_alternatives (nodes ! i))" using a(1) by simp
  ultimately have "ends_rule nodes i t" unfolding ends_rule_needed by blast
  then show ?case using assms(1,2) Wire.prems(2) by (simp add: closed_rule_def)
qed

lemma marked_wire:
  assumes "(least_fixpoint (length nodes) (ends_rule nodes)) ! i" "i < length nodes"
  shows "\<exists>w. wire_of nodes i w"
proof -
  define t where "t = map (\<lambda>i. \<exists>w. wire_of nodes i w) [0..<length nodes]"
  have len: "length t = length nodes" by (simp add: t_def)
  have "closed_rule (ends_rule nodes) t"
    unfolding closed_rule_def
  proof (intro allI impI)
    fix i assume i: "i < length t" and "ends_rule nodes i t"
    then obtain edges where e: "edges \<in> set (nd_alternatives (nodes ! i))" "\<forall>j \<in> set (needed nodes edges). t ! j"
      unfolding ends_rule_needed by blast
    then obtain a where a: "a < length (nd_alternatives (nodes ! i))" "nd_alternatives (nodes ! i) ! a = edges"
      by (auto simp: in_set_conv_nth)
    have "\<forall>j \<in> set (needed nodes edges). \<exists>w. wire_of nodes j w"
      using e(2) needed_length by (fastforce simp: t_def)
    then obtain f where f: "\<forall>j \<in> set (needed nodes edges). wire_of nodes j (f j)" by metis
    have "wire_of nodes i (Wire a (map f (needed nodes edges)))"
      using a f by (auto simp: list_all2_conv_all_nth)
    then have "\<exists>w. wire_of nodes i w" by blast
    then show "t ! i" using i by (simp add: t_def)
  qed
  with least_fixpoint_least(3) [OF monotone_ends] len
  have "within (least_fixpoint (length nodes) (ends_rule nodes)) t" by blast
  then show ?thesis
    using assms least_fixpoint_least(1) [OF monotone_ends, of nodes] by (auto simp: within_def t_def)
qed

lemma marked_iff_wire:
  assumes "i < length nodes"
  shows "least_fixpoint (length nodes) (ends_rule nodes) ! i \<longleftrightarrow> (\<exists>w. wire_of nodes i w)"
  using marked_wire [OF _ assms] wire_marked [OF _ _ _ assms] least_fixpoint_least(1,2) [OF monotone_ends]
  by blast

lemma sized_rule_contains:
  "i < length nodes \<Longrightarrow> sized_rule nodes i sized \<longleftrightarrow> (\<forall>j. (i, j) \<in> contains nodes \<longrightarrow> sized ! j)"
  unfolding sized_rule_def list_all_iff none_or_find contains_def by auto

lemma contains_length: "(i, j) \<in> contains nodes \<Longrightarrow> i < length nodes \<and> j < length nodes"
  by (auto simp: contains_def find_node_length)

lemma monotone_sized: "monotone_rule (length nodes) (sized_rule nodes)"
  unfolding monotone_rule_def sized_rule_def list_all_iff none_or_find within_def
  using find_node_length by metis

text \<open>All nodes have a size exactly when containment has no cycle.\<close>

lemma all_sized_iff_acyclic:
  "(\<forall>i < length nodes. least_fixpoint (length nodes) (sized_rule nodes) ! i) \<longleftrightarrow> acyclic (contains nodes)"
proof -
  let ?s = "least_fixpoint (length nodes) (sized_rule nodes)"
  note least = least_fixpoint_least [OF monotone_sized, of nodes]
  show ?thesis
  proof
    assume all: "\<forall>i < length nodes. ?s ! i"
    define t where "t = map (\<lambda>i. (i, i) \<notin> (contains nodes)\<^sup>+) [0..<length nodes]"
    have "closed_rule (sized_rule nodes) t"
      unfolding closed_rule_def
    proof (intro allI impI)
      fix i assume i: "i < length t" and r: "sized_rule nodes i t"
      then have i': "i < length nodes" by (simp add: t_def)
      have "(i, i) \<notin> (contains nodes)\<^sup>+"
      proof
        assume cyc: "(i, i) \<in> (contains nodes)\<^sup>+"
        then obtain j where j: "(i, j) \<in> contains nodes" "(j, i) \<in> (contains nodes)\<^sup>*" by (metis tranclD)
        then have "(j, j) \<in> (contains nodes)\<^sup>+" by (meson rtrancl_into_trancl1)
        moreover have "t ! j" using r i' j(1) sized_rule_contains by blast
        ultimately show False using contains_length [OF j(1)] by (simp add: t_def)
      qed
      then show "t ! i" using i' by (simp add: t_def)
    qed
    then have "within ?s t" using least(3) [of t] by (simp add: t_def)
    then have "(i, i) \<notin> (contains nodes)\<^sup>+" if "i < length nodes" for i
      using all that least(1) by (auto simp: within_def t_def)
    then show "acyclic (contains nodes)"
      unfolding acyclic_def by (meson contains_length tranclD)
  next
    assume acyc: "acyclic (contains nodes)"
    have "finite (contains nodes)"
      by (rule finite_subset [of _ "{..<length nodes} \<times> {..<length nodes}"]) (use contains_length in auto)
    then have "wf ((contains nodes)\<inverse>)" using acyc by (rule finite_acyclic_wf_converse)
    then have "i < length nodes \<longrightarrow> ?s ! i" for i
    proof (induction i rule: wf_induct_rule)
      case (less i)
      then have "\<forall>j. (i, j) \<in> contains nodes \<longrightarrow> ?s ! j" using contains_length by blast
      then show ?case using least(1,2) sized_rule_contains by (auto simp: closed_rule_def)
    qed
    then show "\<forall>i < length nodes. ?s ! i" by blast
  qed
qed

lemma recursion_Inr_marked:
  "recursion items = Inr () \<longleftrightarrow>
     (\<forall>i < length (nodes_of items). least_fixpoint (length (nodes_of items)) (ends_rule (nodes_of items)) ! i)
     \<and> (\<forall>i < length (nodes_of items). least_fixpoint (length (nodes_of items)) (sized_rule (nodes_of items)) ! i)"
    (is "_ \<longleftrightarrow> (\<forall>i < ?n. ?e ! i) \<and> (\<forall>i < ?n. ?s ! i)")
proof -
  have "(\<forall>i < ?n. ?e ! i) \<longleftrightarrow> find (\<lambda>i. \<not> ?e ! i) [0..<?n] = None"
    and "(\<forall>i < ?n. ?s ! i) \<longleftrightarrow> find (\<lambda>i. \<not> ?s ! i) [0..<?n] = None"
    by (simp_all only: find_upt_None not_not)
  then show ?thesis by (simp add: recursion_def Let_def split: option.splits)
qed

lemma recursion_Inr:
  "recursion items = Inr () \<longleftrightarrow>
     (\<forall>i < length (nodes_of items). \<exists>w. wire_of (nodes_of items) i w) \<and> acyclic (contains (nodes_of items))"
  unfolding recursion_Inr_marked all_sized_iff_acyclic using marked_iff_wire [of _ "nodes_of items"] by metis

lemma recursion_Endless:
  assumes "recursion items = Inl (Endless name path)"
  shows "\<exists>i < length (nodes_of items). nd_name (nodes_of items ! i) = name \<and> \<not> (\<exists>w. wire_of (nodes_of items) i w)"
proof -
  let ?ns = "nodes_of items"
  obtain i where "find (\<lambda>i. \<not> least_fixpoint (length ?ns) (ends_rule ?ns) ! i) [0..<length ?ns] = Some i"
    "nd_name (?ns ! i) = name"
    using assms by (auto simp: recursion_def Let_def split: option.splits)
  with find_upt_Some marked_iff_wire show ?thesis by blast
qed

lemma recursion_InfiniteSize:
  assumes "recursion items = Inl (InfiniteSize name path)"
  shows "(\<forall>i < length (nodes_of items). \<exists>w. wire_of (nodes_of items) i w) \<and> \<not> acyclic (contains (nodes_of items))"
proof -
  let ?ns = "nodes_of items"
  obtain i where "find (\<lambda>i. \<not> least_fixpoint (length ?ns) (ends_rule ?ns) ! i) [0..<length ?ns] = None"
    "find (\<lambda>i. \<not> least_fixpoint (length ?ns) (sized_rule ?ns) ! i) [0..<length ?ns] = Some i"
    using assms by (auto simp: recursion_def Let_def split: option.splits)
  then have "\<forall>i < length ?ns. least_fixpoint (length ?ns) (ends_rule ?ns) ! i"
    and "\<exists>i < length ?ns. \<not> least_fixpoint (length ?ns) (sized_rule ?ns) ! i"
    using find_upt_None [of "\<lambda>i. \<not> least_fixpoint (length ?ns) (ends_rule ?ns) ! i"] find_upt_Some by blast+
  with marked_iff_wire all_sized_iff_acyclic show ?thesis by blast
qed

section \<open>Open ends\<close>

datatype term_end = Known bool | Defers referent

definition term_of :: "segment list \<Rightarrow> term_end" where
  "term_of segs =
     (case defers_open_end segs of
        Some r \<Rightarrow> Defers (rf_to r)
      | None \<Rightarrow> Known (segs \<noteq> [] \<and> seg_open_ended (last segs)))"

record end_node =
  en_item :: string
  en_choice :: bool
  en_terms :: "term_end list"

fun end_node_of :: "'t item \<Rightarrow> end_node option" where
  "end_node_of (IMessage m) =
     Some \<lparr>en_item = mi_name m, en_choice = False, en_terms = [term_of (mi_segments m)]\<rparr>"
| "end_node_of (IChoice c) =
     (if ci_other c \<noteq> None \<and> ci_other_bytes c = None
      then Some \<lparr>en_item = ci_name c, en_choice = True, en_terms = [Known True]\<rparr>
      else Some \<lparr>en_item = ci_name c, en_choice = True, en_terms = map (\<lambda>a. term_of (am_body a)) (ci_arms c)\<rparr>)"
| "end_node_of _ = None"

definition find_end :: "end_node list \<Rightarrow> referent \<Rightarrow> nat option" where
  "find_end nodes to =
     index_where (\<lambda>n. en_item n = referent_name to \<and> en_choice n = wants_choice to) nodes"

text \<open>The relation of the first loop, as a matrix in one vector: \<open>i * n + j\<close>.\<close>

fun mark_terms :: "end_node list \<Rightarrow> nat \<Rightarrow> term_end list \<Rightarrow> bool list \<Rightarrow> bool list" where
  "mark_terms nodes i [] m = m"
| "mark_terms nodes i (Known b # ts) m = mark_terms nodes i ts m"
| "mark_terms nodes i (Defers to # ts) m =
     (case find_end nodes to of
        Some j \<Rightarrow> mark_terms nodes i ts (m[i * length nodes + j := True])
      | None \<Rightarrow> mark_terms nodes i ts m)"

definition first_reaches :: "end_node list \<Rightarrow> bool list" where
  "first_reaches nodes =
     fold (\<lambda>i. mark_terms nodes i (en_terms (nodes ! i))) [0..<length nodes]
       (replicate (length nodes * length nodes) False)"

text \<open>Warshall's loops: \<open>reaches[i * n + j] |= reaches[k * n + j]\<close>.\<close>

definition close_row :: "nat \<Rightarrow> nat \<Rightarrow> nat \<Rightarrow> bool list \<Rightarrow> bool list" where
  "close_row n k i m =
     (if m ! (i * n + k)
      then fold (\<lambda>j m. m[i * n + j := (m ! (i * n + j) \<or> m ! (k * n + j))]) [0..<n] m
      else m)"

definition close_step :: "nat \<Rightarrow> nat \<Rightarrow> bool list \<Rightarrow> bool list" where
  "close_step n k m = fold (close_row n k) [0..<n] m"

definition close_all :: "nat \<Rightarrow> bool list \<Rightarrow> bool list" where
  "close_all n m = fold (close_step n) [0..<n] m"

definition value_rule :: "end_node list \<Rightarrow> nat \<Rightarrow> bool list \<Rightarrow> bool" where
  "value_rule nodes i found =
     list_ex (\<lambda>t. case t of Known b \<Rightarrow> b | Defers to \<Rightarrow>
         (case find_end nodes to of Some j \<Rightarrow> found ! j | None \<Rightarrow> False)) (en_terms (nodes ! i))"

definition missing_ends :: "end_node list \<Rightarrow> nat \<Rightarrow> string list" where
  "missing_ends nodes j =
     List.map_filter (\<lambda>t. case t of
         Defers to \<Rightarrow> if find_end nodes to = None then Some (referent_name to) else None
       | Known b \<Rightarrow> None) (en_terms (nodes ! j))"

definition open_end_cycles :: "'t item list \<Rightarrow> refusal + (string \<times> (string \<times> bool) list) list" where
  "open_end_cycles items =
     (let nodes = List.map_filter end_node_of items;
          n = length nodes;
          reaches = close_all n (first_reaches nodes);
          on_a_cycle = (\<lambda>i. reaches ! (i * n + i))
      in if \<not> list_ex on_a_cycle [0..<n] then Inr []
         else case find_map (\<lambda>i. find_map (\<lambda>j. case missing_ends nodes j of
                                     [] \<Rightarrow> None
                                   | to # _ \<Rightarrow> Some (UnknownEnd (en_item (nodes ! i)) to))
                                (filter (\<lambda>j. j = i \<or> reaches ! (i * n + j)) [0..<n]))
                         (filter on_a_cycle [0..<n]) of
           Some e \<Rightarrow> Inl e
         | None \<Rightarrow>
             let found = least_fixpoint n (value_rule nodes)
             in Inr (map (\<lambda>i. (en_item (nodes ! i),
                    map (\<lambda>j. (en_item (nodes ! j), found ! j))
                      (filter (\<lambda>j. reaches ! (i * n + j) \<and> reaches ! (j * n + i)) [0..<n]))) [0..<n]))"

definition terminal_switches :: "'t item list \<Rightarrow> message_item \<Rightarrow> refusal + unit" where
  "terminal_switches items m =
     (let segs = mi_segments m
      in case find_map (\<lambda>i. case segs ! i of
                 SSwitch h on choice None \<Rightarrow>
                   if i + 1 = length segs then None
                   else (case find_map (\<lambda>it. case it of IChoice c \<Rightarrow> if ci_name c = choice then Some c else None | _ \<Rightarrow> None) items of
                           Some c \<Rightarrow> if choice_open_ended c then Some (FollowsOpenEnd (mi_name m) (sh_name h) choice) else None
                         | None \<Rightarrow> None)
               | _ \<Rightarrow> None) [0..<length segs] of
           Some e \<Rightarrow> Inl e
         | None \<Rightarrow> Inr ())"

section \<open>Warshall's loops\<close>

definition rel_of :: "nat \<Rightarrow> bool list \<Rightarrow> (nat \<times> nat) set" where
  "rel_of n m = {(i, j). i < n \<and> j < n \<and> m ! (i * n + j)}"

lemma cell_less: "i < n \<Longrightarrow> j < n \<Longrightarrow> i * n + j < n * n" for i j n :: nat
proof -
  assume "i < n" "j < n"
  then have "(i + 1) * n \<le> n * n" by (intro mult_le_mono1) simp
  with \<open>j < n\<close> show ?thesis by (simp add: add_mult_distrib)
qed

lemma cell_inj: "j < n \<Longrightarrow> j' < n \<Longrightarrow> i * n + j = i' * n + j' \<longleftrightarrow> i = i' \<and> j = j'" for i j n :: nat
proof -
  assume "j < n" "j' < n"
  then have "(i * n + j) div n = i" "(i' * n + j') div n = i'" by simp_all
  then show ?thesis by (metis add_left_cancel)
qed

lemma rel_of_update:
  assumes "length m = n * n" "i < n" "j < n"
  shows "rel_of n (m[i * n + j := b]) = (if b then insert (i, j) (rel_of n m) else rel_of n m - {(i, j)})"
proof -
  have cell: "(x, y) \<in> rel_of n (m[i * n + j := b]) \<longleftrightarrow> (if (x, y) = (i, j) then b else (x, y) \<in> rel_of n m)" for x y
    using cell_less [of i n j] assms cell_inj [of y n j x i]
    by (cases "x < n \<and> y < n") (auto simp: rel_of_def nth_list_update)
  show ?thesis
  proof (intro set_eqI)
    fix p
    show "p \<in> rel_of n (m[i * n + j := b]) \<longleftrightarrow>
        p \<in> (if b then insert (i, j) (rel_of n m) else rel_of n m - {(i, j)})"
      by (cases p) (auto simp: cell)
  qed
qed

lemma close_row_rel:
  assumes "length m = n * n" "i < n" "k < n"
  shows "length (close_row n k i m) = n * n
    \<and> rel_of n (close_row n k i m) = rel_of n m \<union> {(i', j). i' = i \<and> (i, k) \<in> rel_of n m \<and> (k, j) \<in> rel_of n m}"
proof -
  let ?step = "\<lambda>j m. m[i * n + j := (m ! (i * n + j) \<or> m ! (k * n + j))]"
  have inner: "length (fold ?step [0..<b] m) = n * n
      \<and> rel_of n (fold ?step [0..<b] m) = rel_of n m \<union> {(i', j). i' = i \<and> j < b \<and> (k, j) \<in> rel_of n m}"
    if "b \<le> n" for b
    using that
  proof (induction b)
    case (Suc b)
    let ?m = "fold ?step [0..<b] m"
    have len: "length ?m = n * n" and rel: "rel_of n ?m = rel_of n m \<union> {(i', j). i' = i \<and> j < b \<and> (k, j) \<in> rel_of n m}"
      using Suc by auto
    have cell: "?m ! (i * n + b) \<longleftrightarrow> (i, b) \<in> rel_of n ?m" "?m ! (k * n + b) \<longleftrightarrow> (k, b) \<in> rel_of n ?m"
      using Suc.prems assms by (auto simp: rel_of_def)
    have "rel_of n (?step b ?m) = (if (i, b) \<in> rel_of n ?m \<or> (k, b) \<in> rel_of n ?m
        then insert (i, b) (rel_of n ?m) else rel_of n ?m - {(i, b)})"
      using rel_of_update [OF len assms(2), of b] Suc.prems cell by simp
    also have "\<dots> = rel_of n m \<union> {(i', j). i' = i \<and> j < Suc b \<and> (k, j) \<in> rel_of n m}"
      unfolding rel by (auto simp: less_Suc_eq)
    finally show ?case using len by simp
  qed (use assms in simp)
  have "m ! (i * n + k) \<longleftrightarrow> (i, k) \<in> rel_of n m" using assms by (simp add: rel_of_def)
  then show ?thesis
    using inner [of n] assms(1) by (auto simp: close_row_def rel_of_def)
qed

lemma close_step_rel:
  assumes "length m = n * n" "k < n"
  shows "length (close_step n k m) = n * n
    \<and> rel_of n (close_step n k m) = rel_of n m \<union> {(i, j). (i, k) \<in> rel_of n m \<and> (k, j) \<in> rel_of n m}"
proof -
  have "length (fold (close_row n k) [0..<b] m) = n * n
      \<and> rel_of n (fold (close_row n k) [0..<b] m)
        = rel_of n m \<union> {(i, j). i < b \<and> (i, k) \<in> rel_of n m \<and> (k, j) \<in> rel_of n m}" if "b \<le> n" for b
    using that
  proof (induction b)
    case (Suc b)
    then have len: "length (fold (close_row n k) [0..<b] m) = n * n"
      and rel: "rel_of n (fold (close_row n k) [0..<b] m)
        = rel_of n m \<union> {(i, j). i < b \<and> (i, k) \<in> rel_of n m \<and> (k, j) \<in> rel_of n m}"
      by auto
    from close_row_rel [OF len, of b k] Suc.prems assms(2) show ?case
      unfolding rel by (auto simp: less_Suc_eq)
  qed (use assms in simp)
  from this [of n] show ?thesis by (auto simp: close_step_def rel_of_def)
qed

text \<open>After the step for \<open>k\<close>, every path through the nodes up to \<open>k\<close> is a pair of the matrix.\<close>

lemma close_all_rel:
  assumes "length m = n * n"
  shows "length (close_all n m) = n * n \<and> rel_of n (close_all n m) = (rel_of n m)\<^sup>+"
proof -
  have inv: "length (fold (close_step n) [0..<b] m) = n * n
      \<and> rel_of n m \<subseteq> rel_of n (fold (close_step n) [0..<b] m)
      \<and> rel_of n (fold (close_step n) [0..<b] m) \<subseteq> (rel_of n m)\<^sup>+
      \<and> (\<forall>i j k. k < b \<longrightarrow> (i, k) \<in> rel_of n (fold (close_step n) [0..<b] m) \<longrightarrow>
            (k, j) \<in> rel_of n (fold (close_step n) [0..<b] m) \<longrightarrow>
            (i, j) \<in> rel_of n (fold (close_step n) [0..<b] m))" if "b \<le> n" for b
    using that
  proof (induction b)
    case (Suc b)
    let ?m = "fold (close_step n) [0..<b] m"
    have len: "length ?m = n * n" and sub: "rel_of n m \<subseteq> rel_of n ?m" "rel_of n ?m \<subseteq> (rel_of n m)\<^sup>+"
      and trans: "\<And>i j k. k < b \<Longrightarrow> (i, k) \<in> rel_of n ?m \<Longrightarrow> (k, j) \<in> rel_of n ?m \<Longrightarrow> (i, j) \<in> rel_of n ?m"
      using Suc by auto
    have step: "length (close_step n b ?m) = n * n"
      "rel_of n (close_step n b ?m) = rel_of n ?m \<union> {(i, j). (i, b) \<in> rel_of n ?m \<and> (b, j) \<in> rel_of n ?m}"
      using close_step_rel [OF len, of b] Suc.prems by auto
    have "(i, j) \<in> rel_of n (close_step n b ?m)"
      if "k < Suc b" "(i, k) \<in> rel_of n (close_step n b ?m)" "(k, j) \<in> rel_of n (close_step n b ?m)" for i j k
      using that trans unfolding step(2) less_Suc_eq by blast
    moreover have "rel_of n (close_step n b ?m) \<subseteq> (rel_of n m)\<^sup>+"
      unfolding step(2) using sub(2) by (auto intro: trancl_trans)
    ultimately show ?case using step sub(1) by auto
  qed (use assms in auto)
  from inv [of n] have len: "length (close_all n m) = n * n"
    and sub: "rel_of n m \<subseteq> rel_of n (close_all n m)" "rel_of n (close_all n m) \<subseteq> (rel_of n m)\<^sup>+"
    and tr: "\<And>i j k. k < n \<Longrightarrow> (i, k) \<in> rel_of n (close_all n m) \<Longrightarrow> (k, j) \<in> rel_of n (close_all n m) \<Longrightarrow>
      (i, j) \<in> rel_of n (close_all n m)"
    by (auto simp: close_all_def)
  have "trans (rel_of n (close_all n m))"
    unfolding trans_def using tr by (auto simp: rel_of_def)
  then have "(rel_of n m)\<^sup>+ \<subseteq> rel_of n (close_all n m)" using sub(1) by (metis subrelI trancl_id trancl_mono)
  with sub(2) len show ?thesis by blast
qed

section \<open>Open ends that depend on each other\<close>

definition defers_to :: "end_node list \<Rightarrow> (nat \<times> nat) set" where
  "defers_to nodes = {(i, j). i < length nodes \<and> (\<exists>to. Defers to \<in> set (en_terms (nodes ! i)) \<and> find_end nodes to = Some j)}"

text \<open>An item reads to the end of its body when one of its bodies does, or defers to one that does.\<close>

inductive end_open :: "end_node list \<Rightarrow> nat \<Rightarrow> bool" for nodes where
  known: "i < length nodes \<Longrightarrow> Known True \<in> set (en_terms (nodes ! i)) \<Longrightarrow> end_open nodes i"
| deferred: "(i, j) \<in> defers_to nodes \<Longrightarrow> end_open nodes j \<Longrightarrow> end_open nodes i"

inductive_cases end_openE: "end_open nodes i"

lemma find_end_length: "find_end nodes to = Some j \<Longrightarrow> j < length nodes"
  unfolding find_end_def using index_where_Some by blast

lemma defers_to_length: "(i, j) \<in> defers_to nodes \<Longrightarrow> i < length nodes \<and> j < length nodes"
  by (auto simp: defers_to_def find_end_length)

lemma mark_terms_rel:
  "\<lbrakk>length m = length nodes * length nodes; i < length nodes\<rbrakk> \<Longrightarrow>
   length (mark_terms nodes i ts m) = length nodes * length nodes
   \<and> rel_of (length nodes) (mark_terms nodes i ts m)
     = rel_of (length nodes) m \<union> {(i', j). i' = i \<and> (\<exists>to. Defers to \<in> set ts \<and> find_end nodes to = Some j)}"
proof (induction nodes i ts m rule: mark_terms.induct)
  case (3 nodes i to ts m)
  show ?case
  proof (cases "find_end nodes to")
    case None
    then show ?thesis using 3 by auto
  next
    case (Some j)
    have "rel_of (length nodes) (m[i * length nodes + j := True]) = insert (i, j) (rel_of (length nodes) m)"
      using rel_of_update [of m "length nodes" i j True] 3(3,4) find_end_length [OF Some] by simp
    then show ?thesis using 3 Some by auto
  qed
qed auto

lemma first_reaches_rel:
  "length (first_reaches nodes) = length nodes * length nodes
   \<and> rel_of (length nodes) (first_reaches nodes) = defers_to nodes"
proof -
  let ?n = "length nodes"
  have "length (fold (\<lambda>i. mark_terms nodes i (en_terms (nodes ! i))) [0..<b] (replicate (?n * ?n) False)) = ?n * ?n
      \<and> rel_of ?n (fold (\<lambda>i. mark_terms nodes i (en_terms (nodes ! i))) [0..<b] (replicate (?n * ?n) False))
        = {(i, j). (i, j) \<in> defers_to nodes \<and> i < b}" if "b \<le> ?n" for b
    using that
  proof (induction b)
    case 0
    then show ?case using cell_less by (auto simp: rel_of_def)
  next
    case (Suc b)
    let ?m = "fold (\<lambda>i. mark_terms nodes i (en_terms (nodes ! i))) [0..<b] (replicate (?n * ?n) False)"
    have "length ?m = ?n * ?n" "rel_of ?n ?m = {(i, j). (i, j) \<in> defers_to nodes \<and> i < b}" using Suc by auto
    with mark_terms_rel [of ?m nodes b] Suc.prems show ?case by (auto simp: defers_to_def less_Suc_eq)
  qed
  from this [of ?n] show ?thesis using defers_to_length by (auto simp: first_reaches_def)
qed

lemma reaches_iff:
  "\<lbrakk>i < length nodes; j < length nodes\<rbrakk> \<Longrightarrow>
   close_all (length nodes) (first_reaches nodes) ! (i * length nodes + j) \<longleftrightarrow> (i, j) \<in> (defers_to nodes)\<^sup>+"
  using close_all_rel [of "first_reaches nodes" "length nodes"] first_reaches_rel [of nodes]
  by (auto simp: rel_of_def)

lemma term_holds_iff:
  "(case t of Known b \<Rightarrow> b | Defers to \<Rightarrow> (case find_end nodes to of Some j \<Rightarrow> found ! j | None \<Rightarrow> False))
   \<longleftrightarrow> t = Known True \<or> (\<exists>to j. t = Defers to \<and> find_end nodes to = Some j \<and> found ! j)"
  by (cases t) (auto split: option.splits)

lemma value_rule_terms:
  "value_rule nodes i found \<longleftrightarrow> Known True \<in> set (en_terms (nodes ! i))
     \<or> (\<exists>to j. Defers to \<in> set (en_terms (nodes ! i)) \<and> find_end nodes to = Some j \<and> found ! j)"
  unfolding value_rule_def list_ex_iff term_holds_iff by blast

lemma value_rule_iff:
  "i < length nodes \<Longrightarrow> value_rule nodes i found \<longleftrightarrow>
     Known True \<in> set (en_terms (nodes ! i)) \<or> (\<exists>j. (i, j) \<in> defers_to nodes \<and> found ! j)"
  unfolding value_rule_terms defers_to_def by auto

lemma monotone_value: "monotone_rule (length nodes) (value_rule nodes)"
  unfolding monotone_rule_def value_rule_terms within_def using find_end_length by metis

lemma value_end_open:
  assumes "i < length nodes"
  shows "least_fixpoint (length nodes) (value_rule nodes) ! i \<longleftrightarrow> end_open nodes i"
proof
  note least = least_fixpoint_least [OF monotone_value, of nodes]
  define t where "t = map (end_open nodes) [0..<length nodes]"
  have "closed_rule (value_rule nodes) t"
    unfolding closed_rule_def
  proof (intro allI impI)
    fix i assume "i < length t" "value_rule nodes i t"
    then have "i < length nodes" "Known True \<in> set (en_terms (nodes ! i)) \<or> (\<exists>j. (i, j) \<in> defers_to nodes \<and> t ! j)"
      using value_rule_iff by (auto simp: t_def)
    then have "Known True \<in> set (en_terms (nodes ! i)) \<or> (\<exists>j. (i, j) \<in> defers_to nodes \<and> end_open nodes j)"
      using defers_to_length by (metis (no_types, lifting) add.left_neutral length_map length_upt nth_map nth_upt t_def minus_nat.diff_0)
    then have "end_open nodes i" using end_open.intros \<open>i < length nodes\<close> by blast
    with \<open>i < length nodes\<close> show "t ! i" by (simp add: t_def)
  qed
  then have "within (least_fixpoint (length nodes) (value_rule nodes)) t" using least(3) by (simp add: t_def)
  then show "end_open nodes i" if "least_fixpoint (length nodes) (value_rule nodes) ! i"
    using that assms least(1) by (auto simp: within_def t_def)
  show "least_fixpoint (length nodes) (value_rule nodes) ! i" if "end_open nodes i"
    using that
  proof induction
    case (known i)
    then have "value_rule nodes i (least_fixpoint (length nodes) (value_rule nodes))"
      by (simp add: value_rule_terms)
    then show ?case using least(1,2) known(1) by (simp add: closed_rule_def)
  next
    case (deferred i j)
    have i: "i < length nodes" using defers_to_length [OF deferred(1)] by simp
    then have "value_rule nodes i (least_fixpoint (length nodes) (value_rule nodes))"
      using deferred(1,3) value_rule_iff by blast
    then show ?case using least(1,2) i by (simp add: closed_rule_def)
  qed
qed

definition end_nodes :: "'t item list \<Rightarrow> end_node list" where
  "end_nodes items = List.map_filter end_node_of items"

lemma no_cycle_iff:
  "\<not> list_ex (\<lambda>i. close_all (length nodes) (first_reaches nodes) ! (i * length nodes + i)) [0..<length nodes]
   \<longleftrightarrow> acyclic (defers_to nodes)"
proof -
  have "(i, i) \<in> (defers_to nodes)\<^sup>+ \<Longrightarrow> i < length nodes" for i
    using defers_to_length by (meson tranclD)
  then show ?thesis using reaches_iff [of _ nodes] by (auto simp: list_ex_iff acyclic_def)
qed

lemma open_end_cycles_Inr:
  assumes "open_end_cycles items = Inr cs"
  shows "cs = (if acyclic (defers_to (end_nodes items)) then []
     else map (\<lambda>i. (en_item (end_nodes items ! i),
            map (\<lambda>j. (en_item (end_nodes items ! j), end_open (end_nodes items) j))
              (filter (\<lambda>j. (i, j) \<in> (defers_to (end_nodes items))\<^sup>+ \<and> (j, i) \<in> (defers_to (end_nodes items))\<^sup>+)
                [0..<length (end_nodes items)]))) [0..<length (end_nodes items)])"
proof -
  let ?ns = "end_nodes items"
  show ?thesis
  proof (cases "acyclic (defers_to ?ns)")
    case True
    then show ?thesis using assms no_cycle_iff [of ?ns]
      by (simp add: open_end_cycles_def Let_def flip: end_nodes_def)
  next
    case False
    then have cs: "cs = map (\<lambda>i. (en_item (?ns ! i),
            map (\<lambda>j. (en_item (?ns ! j), least_fixpoint (length ?ns) (value_rule ?ns) ! j))
              (filter (\<lambda>j. close_all (length ?ns) (first_reaches ?ns) ! (i * length ?ns + j)
                  \<and> close_all (length ?ns) (first_reaches ?ns) ! (j * length ?ns + i)) [0..<length ?ns]))) [0..<length ?ns]"
      using assms no_cycle_iff [of ?ns]
      by (simp add: open_end_cycles_def Let_def flip: end_nodes_def split: option.splits)
    show ?thesis
      unfolding cs using False reaches_iff [of _ ?ns] value_end_open [of _ ?ns]
      by (auto intro!: map_cong filter_cong)
  qed
qed

section \<open>Properties\<close>

text \<open>A message that ends through an optional field, and one that holds itself.\<close>

definition chain :: "unit item list" where
  "chain =
     [IMessage (message_new ''Link'' [SOpt OnRemaining (field_new ''next'' (KMsg ''Link'' True []))]),
      IMessage (message_new ''Head'' [seg_value ''link'' (KMsg ''Link'' False [])])]"

definition loop_item :: "unit item list" where
  "loop_item = [IMessage (message_new ''Loop'' [seg_value ''inner'' (KMsg ''Loop'' True [])])]"

lemmas graph_defs =
  nodes_of_def references_def find_node_def least_fixpoint_def ends_rule_def sized_rule_def fix_loop.simps
  message_new_def seg_value_def field_new_def edge_def head_of_def List.map_filter_def

lemma chain_passes: "recursion chain = Inr ()"
  by (simp add: chain_def recursion_def Let_def graph_defs numeral_2_eq_2 upt_rec [of 0])

text \<open>C31: the recursion check passes exactly the modules whose items can all end and all have a
  size: every message and choice has a finite wire, and no type contains itself without a pointer.
  When it refuses, the item it names has no finite wire, or else every item has one and containment
  is cyclic.\<close>

theorem recursion_exact:
  "(recursion items = Inr () \<longleftrightarrow>
      (\<forall>i < length (nodes_of items). \<exists>w. wire_of (nodes_of items) i w) \<and> acyclic (contains (nodes_of items)))
   \<and> (\<forall>name path. recursion items = Inl (Endless name path) \<longrightarrow>
        (\<exists>i < length (nodes_of items). nd_name (nodes_of items ! i) = name \<and> \<not> (\<exists>w. wire_of (nodes_of items) i w)))
   \<and> (\<forall>name path. recursion items = Inl (InfiniteSize name path) \<longrightarrow>
        (\<forall>i < length (nodes_of items). \<exists>w. wire_of (nodes_of items) i w) \<and> \<not> acyclic (contains (nodes_of items)))"
  using recursion_Inr recursion_Endless recursion_InfiniteSize by blast

theorem recursion_exact_witness:
  "(\<exists>w. wire_of (nodes_of chain) 1 w) \<and> acyclic (contains (nodes_of chain))
   \<and> recursion loop_item = Inl (Endless ''Loop'' ''`Loop` -> `Loop`'')
   \<and> \<not> (\<exists>w. wire_of (nodes_of loop_item) 0 w)"
proof -
  have two: "length (nodes_of chain) = 2" "length (nodes_of loop_item) = 1"
    by (simp_all add: chain_def loop_item_def nodes_of_def List.map_filter_def)
  have "recursion loop_item = Inl (Endless ''Loop'' ''`Loop` -> `Loop`'')"
    by (simp add: loop_item_def recursion_def Let_def graph_defs cycle_from_def unavoidable_def quoted_def)
  then show ?thesis
    using recursion_exact [of chain] recursion_exact [of loop_item] chain_passes two by (auto simp: less_Suc_eq)
qed

text \<open>The path printed for an endless item need not be the reason: the walk takes the first reference
  that cannot be skipped within its alternative, here into a cycle that has a way out.\<close>

definition misnamed :: "unit item list" where
  "misnamed =
     [IMessage (message_new ''X'' [seg_value ''a'' (KMsg ''A'' True []), seg_value ''x'' (KMsg ''X'' True [])]),
      IMessage (message_new ''A'' [seg_switch ''c'' SwitchBodyLength ''C'' None]),
      IChoice (choice_new ''C'' [arm_new 0 ''Back'' [seg_value ''a'' (KMsg ''A'' True [])], arm_new 1 ''Stop'' []])]"

lemma endless_path_can_have_a_way_out:
  "recursion misnamed = Inl (Endless ''X'' ''`A` -> `C` -> `A`'')
   \<and> (\<exists>w. wire_of (nodes_of misnamed) 1 w) \<and> (\<exists>w. wire_of (nodes_of misnamed) 2 w)"
proof
  show "recursion misnamed = Inl (Endless ''X'' ''`A` -> `C` -> `A`'')"
    by (simp add: misnamed_def recursion_def Let_def graph_defs cycle_from_def unavoidable_def quoted_def
        seg_switch_def choice_new_def arm_new_def upt_rec [of 0] numeral_2_eq_2 numeral_3_eq_3)
  have "wire_of (nodes_of misnamed) 2 (Wire 1 [])" "wire_of (nodes_of misnamed) 1 (Wire 0 [Wire 1 []])"
    by (simp_all add: misnamed_def graph_defs seg_switch_def choice_new_def arm_new_def needed_def)
  then show "(\<exists>w. wire_of (nodes_of misnamed) 1 w) \<and> (\<exists>w. wire_of (nodes_of misnamed) 2 w)" by blast
qed

text \<open>C32: when items' open ends depend on each other in a cycle, each item of a cycle is told which
  members of its cycle read to the end of their bodies, and that is what their segments say: a
  member does when a body of it is open-ended, or defers to an item that is.\<close>

theorem open_end_cycles_exact:
  assumes "open_end_cycles items = Inr cs"
  shows "cs = (if acyclic (defers_to (end_nodes items)) then []
     else map (\<lambda>i. (en_item (end_nodes items ! i),
            map (\<lambda>j. (en_item (end_nodes items ! j), end_open (end_nodes items) j))
              (filter (\<lambda>j. (i, j) \<in> (defers_to (end_nodes items))\<^sup>+ \<and> (j, i) \<in> (defers_to (end_nodes items))\<^sup>+)
                [0..<length (end_nodes items)]))) [0..<length (end_nodes items)])"
  using open_end_cycles_Inr [OF assms] .

definition tail_loop :: "unit item list" where
  "tail_loop =
     [IMessage (message_new ''Node'' [seg_switch ''body'' (SwitchField ''tag'') ''Body'' None]),
      IChoice (choice_new ''Body'' [arm_new 0 ''Inner'' [seg_value ''node'' (KMsg ''Node'' True [])],
        arm_new 1 ''Leaf'' [seg_repeat ''rest'' (KScalar (ScU 8)) (CountFill None) None ColVec]])]"

theorem open_end_cycles_exact_witness:
  "end_open (end_nodes tail_loop) 0 \<and> end_open (end_nodes tail_loop) 1"
proof -
  have "open_end_cycles tail_loop = Inr [(''Node'', [(''Node'', True), (''Body'', True)]), (''Body'', [(''Node'', True), (''Body'', True)])]"
    by code_simp
  note eq = open_end_cycles_exact [OF this]
  define ns where "ns = end_nodes tail_loop"
  have two: "length ns = 2" by (simp add: ns_def end_nodes_def tail_loop_def List.map_filter_def)
  have upt: "[0..<2] = [0, 1 :: nat]" by (simp add: upt_rec)
  have "map (\<lambda>j. (en_item (ns ! j), end_open ns j))
      (filter (\<lambda>j. (0, j) \<in> (defers_to ns)\<^sup>+ \<and> (j, 0) \<in> (defers_to ns)\<^sup>+) [0, 1]) = [(''Node'', True), (''Body'', True)]"
    using eq unfolding ns_def [symmetric] two upt by (auto split: if_splits)
  then show ?thesis by (simp add: ns_def split: if_splits)
qed

end
