(* ===== verification/Stamping.thy ===== *)
theory Stamping
  imports LayoutRules MessageModel
begin

text \<open>
  The order in which checksums can be computed (\<open>layline-codegen/src/validate/coverage.rs\<close>,
  \<open>stampable\<close>): a checksum waits on those its range covers, and a body whose checksums wait on each
  other is refused.

  The specification is the relation \<open>waits\<close>. A body is accepted exactly when it is acyclic, that is,
  when some order computes every checksum after the ones it covers.
\<close>

section \<open>The rule\<close>

definition check_order :: "segment list \<Rightarrow> string \<Rightarrow> nat option" where
  "check_order segs row = place_in (concat (map seg_places segs)) row"

fun checksum_of :: "segment \<Rightarrow> (string \<times> coverage) option" where
  "checksum_of (SChecksum h _ _ over) = Some (sh_name h, over)"
| "checksum_of _ = None"

definition checks_of :: "segment list \<Rightarrow> (string \<times> coverage) list" where
  "checks_of segs = List.map_filter checksum_of segs"

definition covers :: "segment list \<Rightarrow> coverage \<Rightarrow> string \<Rightarrow> string \<Rightarrow> bool" where
  "covers segs over own other =
     (case (check_order segs own, check_order segs other) of
        (Some k, Some t) \<Rightarrow>
          (case resolve_coverage over (k, k + 1) (\<lambda>n. map_option (\<lambda>i. (i, i + 1)) (check_order segs n)) of
             Some c \<Rightarrow> list_ex (\<lambda>(a, b). a \<le> t \<and> t < b) (runs c)
           | None \<Rightarrow> False)
      | _ \<Rightarrow> False)"

definition waits_on :: "segment list \<Rightarrow> nat \<Rightarrow> nat list" where
  "waits_on segs i =
     (let checks = checks_of segs; (own, over) = checks ! i
      in filter (\<lambda>j. fst (checks ! j) \<noteq> own \<and> covers segs over own (fst (checks ! j))) [0..<length checks])"

text \<open>The loop marks one checksum at a time, the first that waits on none left. \<open>Inl\<close> is the state it
  is stuck in.\<close>

fun stamp_loop :: "nat list list \<Rightarrow> nat \<Rightarrow> bool list \<Rightarrow> bool list + unit" where
  "stamp_loop waits 0 stamped = Inr ()"
| "stamp_loop waits (Suc n) stamped =
     (case find (\<lambda>i. \<not> stamped ! i \<and> list_all (\<lambda>j. stamped ! j) (waits ! i)) [0..<length waits] of
        Some next \<Rightarrow> stamp_loop waits n (stamped[next := True])
      | None \<Rightarrow> Inl stamped)"

definition stampable :: "segment list \<Rightarrow> invalid + unit" where
  "stampable segs =
     (let checks = checks_of segs; n = length checks
      in case stamp_loop (map (waits_on segs) [0..<n]) n (replicate n False) of
           Inl stamped \<Rightarrow> Inl (InvalidOther (''checksums ''
             @ joined '' and '' (map (\<lambda>i. quoted (fst (checks ! i))) (filter (\<lambda>i. \<not> stamped ! i) [0..<n]))
             @ '' cover each other''))
         | Inr _ \<Rightarrow> Inr ())"

section \<open>The loop finds an order\<close>

definition waits :: "nat list list \<Rightarrow> (nat \<times> nat) set" where
  "waits ws = {(i, j). i < length ws \<and> j \<in> set (ws ! i)}"

definition in_range :: "nat list list \<Rightarrow> bool" where
  "in_range ws \<longleftrightarrow> (\<forall>w \<in> set ws. \<forall>j \<in> set w. j < length ws)"

lemma in_range_waits: "in_range ws \<Longrightarrow> (i, j) \<in> waits ws \<Longrightarrow> i < length ws \<and> j < length ws"
  by (auto simp: in_range_def waits_def)

text \<open>A set of marked checksums that waits on nothing outside and has no cycle within.\<close>

definition settled :: "nat list list \<Rightarrow> bool list \<Rightarrow> bool" where
  "settled ws st \<longleftrightarrow> (\<forall>(i, j) \<in> waits ws. st ! i \<longrightarrow> st ! j) \<and> (\<forall>i < length ws. st ! i \<longrightarrow> (i, i) \<notin> (waits ws)\<^sup>+)"

lemma settled_trancl: "settled ws st \<Longrightarrow> (i, j) \<in> (waits ws)\<^sup>+ \<Longrightarrow> st ! i \<Longrightarrow> st ! j"
  by (erule trancl_induct) (auto simp: settled_def)

lemma settled_step:
  assumes "settled ws st" "in_range ws" "length st = length ws" "i < length ws" "\<not> st ! i"
    and ready: "\<forall>j \<in> set (ws ! i). st ! j"
  shows "settled ws (st[i := True])"
proof -
  have out: "st ! j" if "(i, j) \<in> (waits ws)\<^sup>+" for j
  proof -
    from that obtain k where k: "(i, k) \<in> waits ws" "k = j \<or> (k, j) \<in> (waits ws)\<^sup>+"
      by (metis tranclD rtranclD)
    then have "st ! k" using ready by (simp add: waits_def)
    then show ?thesis using k(2) settled_trancl [OF assms(1)] by blast
  qed
  have new: "st[i := True] ! a \<longleftrightarrow> a = i \<or> st ! a" if "a < length ws" for a
    using that assms(3,4) by (auto simp: nth_list_update)
  have "st[i := True] ! b" if "(a, b) \<in> waits ws" "st[i := True] ! a" for a b
  proof -
    have ab: "a < length ws" "b < length ws" using in_range_waits [OF assms(2) that(1)] by auto
    then have "st ! b"
      using that new [of a] ready assms(1) by (cases "a = i") (auto simp: waits_def settled_def)
    then show ?thesis using new ab(2) by simp
  qed
  moreover have "(a, a) \<notin> (waits ws)\<^sup>+" if "a < length ws" "st[i := True] ! a" for a
    using that new [of a] out [of i] assms(1,5) by (auto simp: settled_def)
  ultimately show ?thesis by (auto simp: settled_def)
qed

lemma stamp_loop_Inr:
  "\<lbrakk>stamp_loop ws n st = Inr (); settled ws st; in_range ws; length st = length ws; missing st = n\<rbrakk>
   \<Longrightarrow> acyclic (waits ws)"
proof (induction n arbitrary: st)
  case 0
  then have "(i, i) \<notin> (waits ws)\<^sup>+" if "i < length ws" for i
    using that by (simp add: missing_zero settled_def)
  then show ?case unfolding acyclic_def using in_range_waits [OF "0.prems"(3)] by (meson tranclD)
next
  case (Suc n)
  from Suc.prems(1) obtain i where
    i: "find (\<lambda>i. \<not> st ! i \<and> list_all (\<lambda>j. st ! j) (ws ! i)) [0..<length ws] = Some i"
      "stamp_loop ws n (st[i := True]) = Inr ()"
    by (auto split: option.splits)
  have ready: "i < length ws" "\<not> st ! i" "\<forall>j \<in> set (ws ! i). st ! j"
    using find_upt_Some [OF i(1)] by (auto simp: list_all_iff)
  have "missing (st[i := True]) = n"
    using missing_update [of i st] ready Suc.prems(4,5) by simp
  with Suc.IH [OF i(2)] settled_step [OF Suc.prems(2-4) ready] Suc.prems(3,4) show ?case by simp
qed

lemma stamp_loop_Inl:
  "\<lbrakk>stamp_loop ws n st = Inl st'; in_range ws; length st = length ws\<rbrakk>
   \<Longrightarrow> missing st < n \<or> \<not> acyclic (waits ws)"
proof (induction n arbitrary: st)
  case (Suc n)
  show ?case
  proof (cases "find (\<lambda>i. \<not> st ! i \<and> list_all (\<lambda>j. st ! j) (ws ! i)) [0..<length ws]")
    case (Some i)
    then have i: "i < length ws" "\<not> st ! i" using find_upt_Some [OF Some] by auto
    have "missing (st[i := True]) < n \<or> \<not> acyclic (waits ws)"
      using Suc.IH [of "st[i := True]"] Suc.prems Some by simp
    then show ?thesis using missing_update [of i st] i Suc.prems(3) by linarith
  next
    case None
    have stuck: "\<exists>j. (i, j) \<in> waits ws \<and> \<not> st ! j" if "i < length ws" "\<not> st ! i" for i
      using None that by (force simp: find_upt_None list_all_iff waits_def)
    show ?thesis
    proof (cases "\<forall>i < length st. st ! i")
      case True
      then have "missing st = 0" by (simp add: missing_zero)
      then show ?thesis by simp
    next
      case False
      then obtain i where i: "i < length ws" "\<not> st ! i" using Suc.prems(3) by auto
      have "\<not> acyclic (waits ws)"
      proof
        assume acyc: "acyclic (waits ws)"
        have "finite (waits ws)"
          by (rule finite_subset [of _ "{..<length ws} \<times> {..<length ws}"])
            (use in_range_waits [OF Suc.prems(2)] in auto)
        then have "wf ((waits ws)\<inverse>)" using acyc by (rule finite_acyclic_wf_converse)
        then have "i < length ws \<longrightarrow> st ! i" for i
        proof (induction i rule: wf_induct_rule)
          case (less i)
          then show ?case using stuck in_range_waits [OF Suc.prems(2)] by blast
        qed
        with i show False by blast
      qed
      then show ?thesis ..
    qed
  qed
qed simp

lemma stamp_loop_acyclic:
  assumes "in_range ws"
  shows "stamp_loop ws (length ws) (replicate (length ws) False) = Inr () \<longleftrightarrow> acyclic (waits ws)"
proof -
  let ?st = "replicate (length ws) False"
  have "settled ws ?st" using in_range_waits [OF assms] by (auto simp: settled_def)
  then have "stamp_loop ws (length ws) ?st = Inr () \<Longrightarrow> acyclic (waits ws)"
    using stamp_loop_Inr assms by force
  moreover have "stamp_loop ws (length ws) ?st = Inl st' \<Longrightarrow> \<not> acyclic (waits ws)" for st'
    using stamp_loop_Inl [OF _ assms] by fastforce
  ultimately show ?thesis by (cases "stamp_loop ws (length ws) ?st") auto
qed

section \<open>Properties\<close>

definition covering :: "segment list \<Rightarrow> (nat \<times> nat) set" where
  "covering segs =
     {(i, j). i < length (checks_of segs) \<and> j < length (checks_of segs)
        \<and> fst (checks_of segs ! j) \<noteq> fst (checks_of segs ! i)
        \<and> covers segs (snd (checks_of segs ! i)) (fst (checks_of segs ! i)) (fst (checks_of segs ! j))}"

lemma waits_covering: "waits (map (waits_on segs) [0..<length (checks_of segs)]) = covering segs"
  by (auto simp: waits_def covering_def waits_on_def Let_def case_prod_beta)

lemma stampable_acyclic: "stampable segs = Inr () \<longleftrightarrow> acyclic (covering segs)"
proof -
  let ?ws = "map (waits_on segs) [0..<length (checks_of segs)]"
  have "in_range ?ws" by (auto simp: in_range_def waits_on_def Let_def case_prod_beta)
  from stamp_loop_acyclic [OF this] show ?thesis
    by (auto simp: stampable_def Let_def waits_covering split: sum.splits)
qed

text \<open>C33: a body's checksums are accepted exactly when no chain of covered ranges leads from one back
  to itself, so that each can be computed once those its range includes are in place.\<close>

theorem stampable_exact:
  "stampable segs = Inr () \<longleftrightarrow> acyclic (covering segs)"
  by (rule stampable_acyclic)

definition crossed :: "segment list" where
  "crossed = [seg_checksum ''a'' (ScU 8) ''Sum'' \<lparr>co_from = FromStart, co_to = ToAfter ''b''\<rparr>,
     seg_checksum ''b'' (ScU 8) ''Sum'' coverage_whole]"

lemma crossed_refused: "stampable crossed = Inl (InvalidOther ''checksums `a` and `b` cover each other'')"
  by code_simp

end
