(* ===== verification/Catalogue.thy ===== *)
theory Catalogue
  imports Validity MessageModel "HOL-Library.Multiset"
begin

text \<open>
  Enumerations and dispatches of the generator (\<open>layline-codegen/src/validate/catalogue.rs\<close>) and the
  codec it writes for an enumeration (\<open>walk/fixed.rs\<close>, \<open>enum_parts\<close>).

  Bounds are \<open>i64\<close> arithmetic with overflow checks, as in a debug build: \<open>None\<close> is a panic. A value of
  the generated type is the name of its variant, or the fallback with its number; the casts of the
  codec are written out at the width of the primitive that holds the representation.
\<close>

section \<open>Rules\<close>

definition i64_checked :: "int \<Rightarrow> int option" where
  "i64_checked x = (if - (2 ^ 63) \<le> x \<and> x < 2 ^ 63 then Some x else None)"

text \<open>\<open>1i64 << k\<close> keeps the low 64 bits.\<close>

definition i64_bit :: "nat \<Rightarrow> int" where
  "i64_bit k = (if k = 63 then - (2 ^ 63) else 2 ^ k)"

definition i64_max :: int where
  "i64_max = 2 ^ 63 - 1"

definition bounds :: "bool \<Rightarrow> nat \<Rightarrow> (int \<times> int) option" where
  "bounds sgn_bit bits =
     (if sgn_bit
      then (case i64_checked (- i64_bit (bits - 1)) of
              None \<Rightarrow> None
            | Some lo \<Rightarrow> map_option (Pair lo) (i64_checked (i64_bit (bits - 1) - 1)))
      else Some (0, if 2 ^ bits - 1 \<le> i64_max then 2 ^ bits - 1 else i64_max))"

text \<open>\<open>windows(2).find(|w| w[0] == w[1])\<close> on the sorted values.\<close>

fun twin :: "int list \<Rightarrow> int option" where
  "twin (x # y # zs) = (if x = y then Some x else twin (y # zs))"
| "twin _ = None"

definition distinct_values :: "int list \<Rightarrow> invalid + unit" where
  "distinct_values vs =
     (case twin (sort vs) of
        Some v \<Rightarrow> Inl (DuplicateArm (if 0 \<le> v then nat v else 0))
      | None \<Rightarrow> Inr ())"

text \<open>A step that can panic: the first \<open>None\<close>, else the first refusal.\<close>

fun then_check :: "(invalid + unit) option \<Rightarrow> (invalid + unit) option \<Rightarrow> (invalid + unit) option" where
  "then_check (Some (Inr _)) r = r"
| "then_check (Some (Inl e)) r = Some (Inl e)"
| "then_check None r = None"

definition refuse_if :: "bool \<Rightarrow> string \<Rightarrow> invalid + unit" where
  "refuse_if b label = (if b then Inl (InvalidOther label) else Inr ())"

definition default_rule :: "enum_item \<Rightarrow> invalid + unit" where
  "default_rule e =
     (case en_default e of
        None \<Rightarrow> Inr ()
      | Some dflt \<Rightarrow>
          bind_res (refuse_if (en_other e = Some dflt) ''the default variant is the fallback'') (\<lambda>_.
          refuse_if (\<not> list_ex (\<lambda>v. vn_name v = dflt) (en_variants e)) ''the default variant is not one of its variants''))"

definition enum_repr :: "scalar \<Rightarrow> (nat \<times> bool) option" where
  "enum_repr s = (case s of ScU b \<Rightarrow> Some (b, False) | ScI b \<Rightarrow> Some (b, True) | ScBool \<Rightarrow> Some (1, False) | _ \<Rightarrow> None)"

definition enum_names :: "enum_item \<Rightarrow> invalid + unit" where
  "enum_names e =
     bind_res (ident ''catalogue'' (en_name e)) (\<lambda>_.
     bind_res (each (\<lambda>v. ident ''variant'' (vn_name v)) (en_variants e)) (\<lambda>_.
     bind_res (case en_other e of Some other \<Rightarrow> ident ''fallback variant'' other | None \<Rightarrow> Inr ()) (\<lambda>_.
     default_rule e)))"

definition enum_values :: "enum_item \<Rightarrow> nat \<Rightarrow> int \<times> int \<Rightarrow> invalid + unit" where
  "enum_values e bits lim =
     bind_res (each (\<lambda>v. refuse_if (vn_value v < fst lim \<or> snd lim < vn_value v) ''the value does not fit'')
       (en_variants e)) (\<lambda>_.
     bind_res (distinct_values (map vn_value (en_variants e))) (\<lambda>_.
     refuse_if (en_other e = None \<and> length (en_variants e) \<noteq> 2 ^ bits) ''the catalogue is not total''))"

definition validate_enum :: "enum_item \<Rightarrow> (invalid + unit) option" where
  "validate_enum e =
     then_check (Some (enum_names e))
       (case enum_repr (en_repr e) of
          None \<Rightarrow> Some (Inl (InvalidOther ''the representation must be an integer or a one-bit bool''))
        | Some (bits, sgn_bit) \<Rightarrow>
            if bits = 0 \<or> bits > 64 then Some (Inl (InvalidOther ''the representation is not 1 to 64 bits''))
            else map_option (enum_values e bits) (bounds sgn_bit bits))"

definition dispatch_names :: "grammar \<Rightarrow> dispatch_item \<Rightarrow> invalid + unit" where
  "dispatch_names P d =
     bind_res (ident ''dispatch'' (di_name d)) (\<lambda>_.
     bind_res (ident ''fallback arm'' (di_other d)) (\<lambda>_.
     each (\<lambda>a. bind_res (ident ''arm'' (da_name a)) (\<lambda>_. type_path P (da_name a) ''the body of the arm'' (da_ty a)))
       (di_arms d)))"

definition dispatch_ids :: "dispatch_item \<Rightarrow> int \<times> int \<Rightarrow> invalid + unit" where
  "dispatch_ids d lim =
     each (\<lambda>a. bind_res (refuse_if (da_id a < fst lim \<or> snd lim < da_id a) ''the id does not fit'') (\<lambda>_.
               refuse_if (da_name a = di_other d) ''a name is both an arm and the fallback'')) (di_arms d)"

definition validate_dispatch :: "grammar \<Rightarrow> dispatch_item \<Rightarrow> (invalid + unit) option" where
  "validate_dispatch P d =
     then_check (Some (dispatch_names P d))
       (case (case di_id d of ScU b \<Rightarrow> Some (b, False) | ScI b \<Rightarrow> Some (b, True) | _ \<Rightarrow> None) of
          None \<Rightarrow> Some (Inl (InvalidOther ''the id must be an integer''))
        | Some (bits, sgn_bit) \<Rightarrow>
            if \<not> (bits = 8 \<or> bits = 16 \<or> bits = 32 \<or> bits = 64)
            then Some (Inl (InvalidOther ''the id must be 8, 16, 32 or 64 bits''))
            else then_check (Some (case di_other_body d of
                                 Some body \<Rightarrow> type_path P (di_other d) ''the body of the fallback'' body
                               | None \<Rightarrow> Inr ()))
                (then_check (Some (refuse_if (di_prefix d > 64) ''the prefix is wider than 64 bits''))
                (then_check (Some (distinct_values (map da_id (di_arms d))))
                   (map_option (dispatch_ids d) (bounds sgn_bit bits)))))"

section \<open>The generated codec\<close>

definition primitive_bits :: "nat \<Rightarrow> nat" where
  "primitive_bits n = (if n \<le> 8 then 8 else if n \<le> 16 then 16 else if n \<le> 32 then 32 else if n \<le> 64 then 64 else 128)"

text \<open>\<open>raw as repr\<close>, and back to \<open>u64\<close>.\<close>

fun cast_repr :: "scalar \<Rightarrow> u64 \<Rightarrow> int" where
  "cast_repr (ScI n) raw = signed_take_bit (primitive_bits n - 1) (uint raw)"
| "cast_repr s raw = take_bit (primitive_bits (scalar_bits s)) (uint raw)"

datatype enum_value = Listed string | Unlisted string int

definition enum_from_raw :: "enum_item \<Rightarrow> u64 \<Rightarrow> enum_value option" where
  "enum_from_raw e raw =
     (let x = cast_repr (en_repr e) raw
      in case find (\<lambda>v. vn_value v = x) (en_variants e) of
           Some v \<Rightarrow> Some (Listed (vn_name v))
         | None \<Rightarrow> (case en_other e of
               Some other \<Rightarrow> Some (Unlisted other x)
             | None \<Rightarrow> (case en_variants e of v # _ \<Rightarrow> Some (Listed (vn_name v)) | [] \<Rightarrow> None)))"

fun enum_to_raw :: "enum_item \<Rightarrow> enum_value \<Rightarrow> u64 option" where
  "enum_to_raw e (Listed name) =
     map_option (\<lambda>v. word_of_int (vn_value v)) (find (\<lambda>v. vn_name v = name) (en_variants e))"
| "enum_to_raw e (Unlisted _ raw) = Some (word_of_int raw)"

section \<open>Distinct values\<close>

lemma twin_sorted: "sorted xs \<Longrightarrow> twin xs = None \<longleftrightarrow> distinct xs"
  by (induction xs rule: twin.induct) (auto simp: le_less)

lemma distinct_values_iff: "distinct_values vs = Inr () \<longleftrightarrow> distinct vs"
proof -
  have "distinct (sort vs) \<longleftrightarrow> distinct vs" by (simp add: distinct_sort)
  then show ?thesis using twin_sorted [of "sort vs"] by (auto simp: distinct_values_def split: option.splits)
qed

lemma refuse_if_iff [simp]: "refuse_if b label = Inr () \<longleftrightarrow> \<not> b"
  by (simp add: refuse_if_def)

lemma then_check_ok: "then_check r s = Some (Inr ()) \<longleftrightarrow> r = Some (Inr ()) \<and> s = Some (Inr ())"
  by (cases "(r, s)" rule: then_check.cases) auto

lemma bounds_unsigned: "bounds False bits = Some (0, if 2 ^ bits - 1 \<le> i64_max then 2 ^ bits - 1 else i64_max)"
  by (simp add: bounds_def)

lemma bounds_signed:
  assumes "1 \<le> bits" "bits \<le> 63"
  shows "bounds True bits = Some (- (2 ^ (bits - 1)), 2 ^ (bits - 1) - 1)"
proof -
  define p :: int where "p = 2 ^ (bits - 1)"
  have "p \<le> 2 ^ 62" unfolding p_def using assms by (intro power_increasing) auto
  moreover have "0 < p" by (simp add: p_def)
  moreover have "i64_bit (bits - 1) = p" using assms by (auto simp: i64_bit_def p_def)
  ultimately show ?thesis unfolding bounds_def p_def [symmetric] by (simp add: i64_checked_def)
qed

lemma bounds_signed_64: "bounds True 64 = None"
  by (simp add: bounds_def i64_bit_def i64_checked_def)

lemma validate_enum_parts:
  assumes "validate_enum e = Some (Inr ())"
  obtains bits sgn_bit lo hi where "enum_repr (en_repr e) = Some (bits, sgn_bit)" "1 \<le> bits" "bits \<le> 64"
    "bounds sgn_bit bits = Some (lo, hi)" "\<forall>v \<in> set (en_variants e). lo \<le> vn_value v \<and> vn_value v \<le> hi"
    "distinct (map vn_value (en_variants e))" "en_other e = None \<longrightarrow> length (en_variants e) = 2 ^ bits"
proof -
  from assms obtain bits sgn_bit where r: "enum_repr (en_repr e) = Some (bits, sgn_bit)" "\<not> (bits = 0 \<or> bits > 64)"
    "map_option (enum_values e bits) (bounds sgn_bit bits) = Some (Inr ())"
    by (auto simp: validate_enum_def then_check_ok split: option.splits if_splits)
  then obtain lo hi where b: "bounds sgn_bit bits = Some (lo, hi)" "enum_values e bits (lo, hi) = Inr ()"
    by auto
  show thesis
    by (rule that [OF r(1) _ _ b(1)])
      (use r(2) b(2) in \<open>auto simp: enum_values_def bind_res_Inr_iff each_Inr_iff distinct_values_iff not_less\<close>)
qed

text \<open>A closed enumeration that passes lists every value.\<close>

lemma closed_total:
  fixes vs :: "int list"
  assumes "distinct vs" "\<forall>v \<in> set vs. lo \<le> v \<and> v \<le> hi" "length vs = 2 ^ bits" "hi - lo + 1 \<le> 2 ^ bits"
  shows "set vs = {lo..<lo + 2 ^ bits}"
proof -
  have card: "card (set vs) = 2 ^ bits" using assms(1,3) by (simp add: distinct_card)
  have "set vs \<subseteq> {lo..<lo + 2 ^ bits}" using assms(2,4) by force
  moreover have "card {lo..<lo + 2 ^ bits} = 2 ^ bits" by (simp add: nat_power_eq)
  ultimately show ?thesis using card by (intro card_subset_eq) auto
qed

lemma find_distinct:
  "distinct (map f xs) \<Longrightarrow> x \<in> set xs \<Longrightarrow> find (\<lambda>y. f y = f x) xs = Some x"
  by (induction xs) (auto simp: rev_image_eqI)

lemma find_value_None: "find (\<lambda>v. f v = x) xs = None \<longleftrightarrow> x \<notin> f ` set xs"
  by (auto simp: find_None_iff)

section \<open>The codec is the identity on the wire\<close>

text \<open>A representation that fills its primitive, or is unsigned.\<close>

definition whole_repr :: "scalar \<Rightarrow> bool" where
  "whole_repr s = (case s of ScU n \<Rightarrow> True | ScI n \<Rightarrow> n = primitive_bits n | _ \<Rightarrow> False)"

lemma primitive_bits_le: "n \<le> 64 \<Longrightarrow> n \<le> primitive_bits n"
  by (simp add: primitive_bits_def)

text \<open>What the cast gives for a value of the representation's width, and that it loses nothing.\<close>

lemma cast_unsigned:
  assumes "n \<le> 64" "uint raw < 2 ^ n"
  shows "cast_repr (ScU n) raw = uint raw"
proof -
  have "(2 :: int) ^ n \<le> 2 ^ primitive_bits n" using assms(1) primitive_bits_le by (intro power_increasing) auto
  then have "uint raw < 2 ^ primitive_bits n" using assms(2) by linarith
  then show ?thesis by (simp add: take_bit_int_eq_self)
qed

lemma cast_back:
  assumes "whole_repr s" "1 \<le> scalar_bits s" "scalar_bits s \<le> 64" "uint raw < 2 ^ scalar_bits s"
  shows "take_bit (scalar_bits s) (word_of_int (cast_repr s raw)) = raw"
proof -
  have raw: "take_bit (scalar_bits s) raw = raw"
    by (rule word_uint_eqI) (use assms(4) in \<open>simp add: unsigned_take_bit_eq take_bit_int_eq_self\<close>)
  show ?thesis
  proof (cases s)
    case (ScU n)
    then show ?thesis using cast_unsigned [of n raw] assms raw by simp
  next
    case (ScI n)
    then have "cast_repr s raw = signed_take_bit (n - 1) (uint raw)" using assms(1) by (simp add: whole_repr_def)
    then have "take_bit n (word_of_int (cast_repr s raw) :: u64) = word_of_int (take_bit n (uint raw))"
      using ScI assms(2) by (simp add: take_bit_signed_take_bit flip: of_int_take_bit take_bit_of_int)
    also have "\<dots> = raw" using raw ScI by (metis scalar_bits.simps(2) take_bit_of_int word_of_int_uint)
    finally show ?thesis using ScI by simp
  qed (use assms(1) in \<open>simp_all add: whole_repr_def\<close>)
qed

lemma cast_range:
  assumes "whole_repr s" "enum_repr s = Some (bits, sgn_bit)" "1 \<le> bits" "bits \<le> 64" "uint raw < 2 ^ bits"
    "bounds sgn_bit bits = Some (lo, hi)"
  shows "lo \<le> cast_repr s raw \<and> cast_repr s raw < lo + 2 ^ bits \<and> hi - lo + 1 \<le> 2 ^ bits"
proof (cases s)
  case (ScU n)
  then have "bits = n" "sgn_bit = False" using assms(2) by (auto simp: enum_repr_def)
  then show ?thesis
    using ScU cast_unsigned [of n raw] assms(4,5,6) by (auto simp: bounds_unsigned split: if_splits)
next
  case (ScI n)
  then have n: "bits = n" "sgn_bit = True" "n = primitive_bits n"
    using assms(1,2) by (auto simp: enum_repr_def whole_repr_def)
  then have "n \<le> 63" using assms(4,6) bounds_signed_64 by (cases "n = 64") auto
  then have b: "lo = - (2 ^ (n - 1))" "hi = 2 ^ (n - 1) - 1" using assms(3,6) n bounds_signed by auto
  have "(2 :: int) ^ n = 2 * 2 ^ (n - 1)" using assms(3) n(1) by (cases n) auto
  moreover have "cast_repr s raw = signed_take_bit (n - 1) (uint raw)" using ScI n by simp
  ultimately show ?thesis
    using b n signed_take_bit_int_greater_eq_minus_exp [of "n - 1" "uint raw"] signed_take_bit_int_less_exp [of "n - 1" "uint raw"]
    by simp
qed (use assms(1) in \<open>simp_all add: whole_repr_def\<close>)

lemma enum_reads_raw:
  assumes "validate_enum e = Some (Inr ())" "whole_repr (en_repr e)" "distinct (map vn_name (en_variants e))"
    "uint raw < 2 ^ scalar_bits (en_repr e)"
  shows "\<exists>v w. enum_from_raw e raw = Some v \<and> enum_to_raw e v = Some w
    \<and> take_bit (scalar_bits (en_repr e)) w = raw \<and> (en_other e = None \<longrightarrow> (\<exists>name. v = Listed name))"
proof -
  obtain bits sgn_bit lo hi where p: "enum_repr (en_repr e) = Some (bits, sgn_bit)" "1 \<le> bits" "bits \<le> 64"
    "bounds sgn_bit bits = Some (lo, hi)" "\<forall>v \<in> set (en_variants e). lo \<le> vn_value v \<and> vn_value v \<le> hi"
    "distinct (map vn_value (en_variants e))" "en_other e = None \<longrightarrow> length (en_variants e) = 2 ^ bits"
    by (rule validate_enum_parts [OF assms(1)])
  have bits: "scalar_bits (en_repr e) = bits"
    using p(1) by (auto simp: enum_repr_def split: scalar.splits)
  let ?x = "cast_repr (en_repr e) raw"
  have same_raw: "take_bit bits (word_of_int ?x) = raw"
    using cast_back [OF assms(2)] p(2,3) bits assms(4) by simp
  show ?thesis
  proof (cases "find (\<lambda>v. vn_value v = ?x) (en_variants e)")
    case (Some v)
    then have v: "v \<in> set (en_variants e)" "vn_value v = ?x" by (auto simp: find_Some_iff)
    then have "find (\<lambda>y. vn_name y = vn_name v) (en_variants e) = Some v" using find_distinct assms(3) by metis
    then show ?thesis using Some v same_raw bits by (simp add: enum_from_raw_def)
  next
    case None
    then have out: "?x \<notin> set (map vn_value (en_variants e))" by (simp add: find_value_None)
    have "en_other e \<noteq> None"
    proof
      assume closed: "en_other e = None"
      have lims: "lo \<le> ?x" "?x < lo + 2 ^ bits" "hi - lo + 1 \<le> 2 ^ bits"
        using cast_range [OF assms(2) p(1-3) _ p(4)] assms(4) bits by auto
      have "set (map vn_value (en_variants e)) = {lo..<lo + 2 ^ bits}"
        using closed p(5,6,7) lims(3) by (intro closed_total) auto
      with out lims(1,2) show False by simp
    qed
    then show ?thesis using None same_raw bits by (auto simp: enum_from_raw_def)
  qed
qed

lemma cast_value:
  assumes "whole_repr s" "enum_repr s = Some (bits, sgn_bit)" "1 \<le> bits" "bits \<le> 64"
    "bounds sgn_bit bits = Some (lo, hi)" "lo \<le> x" "x \<le> hi"
  shows "cast_repr s (take_bit bits (word_of_int x)) = x"
proof (cases s)
  case (ScU n)
  then have n: "bits = n" "sgn_bit = False" using assms(2) by (auto simp: enum_repr_def)
  then have x: "0 \<le> x" "x < 2 ^ n" using assms(5,6,7) by (auto simp: bounds_unsigned split: if_splits)
  have "(2 :: int) ^ n \<le> 2 ^ 64" using assms(4) n by (intro power_increasing) auto
  then have "uint (take_bit n (word_of_int x :: u64)) = x"
    using x by (simp add: unsigned_take_bit_eq uint_word_of_int take_bit_int_eq_self)
  then show ?thesis using ScU n cast_unsigned [of n "take_bit n (word_of_int x)"] assms(4) x by simp
next
  case (ScI n)
  then have n: "bits = n" "sgn_bit = True" "n = primitive_bits n"
    using assms(1,2) by (auto simp: enum_repr_def whole_repr_def)
  then have "n \<le> 63" using assms(4,5) bounds_signed_64 by (cases "n = 64") auto
  then have x: "- (2 ^ (n - 1)) \<le> x" "x < 2 ^ (n - 1)" using assms(3,5,6,7) n bounds_signed by auto
  have "uint (take_bit n (word_of_int x :: u64)) = take_bit n x"
    using \<open>n \<le> 63\<close> take_bit_take_bit [of n 64 x]
    by (simp add: unsigned_take_bit_eq uint_word_of_int min_def flip: take_bit_eq_mod [of 64, simplified])
  then have "cast_repr s (take_bit bits (word_of_int x)) = signed_take_bit (n - 1) (take_bit n x)"
    using ScI n by simp
  also have "n - 1 < n" using assms(3) n by simp
  then have "signed_take_bit (n - 1) (take_bit n x) = signed_take_bit (n - 1) x" by (simp add: signed_take_bit_take_bit)
  also have "\<dots> = x" using x by (simp add: signed_take_bit_int_eq_self)
  finally show ?thesis .
qed (use assms(1) in \<open>simp_all add: whole_repr_def\<close>)

lemma enum_writes_variant:
  assumes "validate_enum e = Some (Inr ())" "whole_repr (en_repr e)" "distinct (map vn_name (en_variants e))"
    "v \<in> set (en_variants e)"
  shows "\<exists>w. enum_to_raw e (Listed (vn_name v)) = Some w
    \<and> enum_from_raw e (take_bit (scalar_bits (en_repr e)) w) = Some (Listed (vn_name v))"
proof -
  obtain bits sgn_bit lo hi where p: "enum_repr (en_repr e) = Some (bits, sgn_bit)" "1 \<le> bits" "bits \<le> 64"
    "bounds sgn_bit bits = Some (lo, hi)" "\<forall>v \<in> set (en_variants e). lo \<le> vn_value v \<and> vn_value v \<le> hi"
    "distinct (map vn_value (en_variants e))" "en_other e = None \<longrightarrow> length (en_variants e) = 2 ^ bits"
    by (rule validate_enum_parts [OF assms(1)])
  have bits: "scalar_bits (en_repr e) = bits"
    using p(1) by (auto simp: enum_repr_def split: scalar.splits)
  have "find (\<lambda>y. vn_name y = vn_name v) (en_variants e) = Some v"
    "find (\<lambda>y. vn_value y = vn_value v) (en_variants e) = Some v"
    using find_distinct assms(3,4) p(6) by metis+
  moreover have "cast_repr (en_repr e) (take_bit bits (word_of_int (vn_value v))) = vn_value v"
    using cast_value [OF assms(2) p(1-4)] p(5) assms(4) by blast
  ultimately show ?thesis by (simp add: bits enum_from_raw_def)
qed

section \<open>Properties\<close>

definition mode :: enum_item where
  "mode = (enum_new ''Mode'' (ScI 8) [variant_new 0 ''Idle'', variant_new (-3) ''Fault''])\<lparr>en_other := Some ''Other''\<rparr>"

text \<open>C34: an enumeration that passes the rules, whose representation is unsigned of any width or a whole
  signed primitive, and whose variants have distinct names, reads every bit pattern of its width and writes
  the same bits back; each variant is read from what it writes; and a closed enumeration reads only listed
  variants. Over a narrow signed representation this fails (\<open>narrow_signed_enum_misread\<close>).\<close>

theorem enum_codec_round_trip:
  assumes "validate_enum e = Some (Inr ())" "whole_repr (en_repr e)" "distinct (map vn_name (en_variants e))"
  shows "(\<forall>raw. uint raw < 2 ^ scalar_bits (en_repr e) \<longrightarrow>
       (\<exists>v w. enum_from_raw e raw = Some v \<and> enum_to_raw e v = Some w
          \<and> take_bit (scalar_bits (en_repr e)) w = raw \<and> (en_other e = None \<longrightarrow> (\<exists>name. v = Listed name))))
    \<and> (\<forall>v \<in> set (en_variants e). \<exists>w. enum_to_raw e (Listed (vn_name v)) = Some w
          \<and> enum_from_raw e (take_bit (scalar_bits (en_repr e)) w) = Some (Listed (vn_name v)))"
  using enum_reads_raw [OF assms] enum_writes_variant [OF assms] by blast

theorem enum_codec_round_trip_witness:
  "\<exists>w. enum_to_raw mode (Listed ''Fault'') = Some w \<and> enum_from_raw mode (take_bit 8 w) = Some (Listed ''Fault'')"
proof -
  have "validate_enum mode = Some (Inr ())"
    using bounds_signed [of 8]
    by (simp add: mode_def enum_new_def variant_new_def validate_enum_def enum_names_def default_rule_def
        enum_repr_def enum_values_def ident_def is_ident_def alphabetic_def alphanumeric_def distinct_values_def
        refuse_if_def)
  then have "\<forall>v \<in> set (en_variants mode). \<exists>w. enum_to_raw mode (Listed (vn_name v)) = Some w
      \<and> enum_from_raw mode (take_bit (scalar_bits (en_repr mode)) w) = Some (Listed (vn_name v))"
    using enum_codec_round_trip [of mode]
    by (simp add: mode_def enum_new_def variant_new_def whole_repr_def primitive_bits_def)
  then show ?thesis by (simp add: mode_def enum_new_def variant_new_def)
qed

text \<open>A signed representation narrower than its primitive is not read back: the codec does not extend
  the sign, so the three bits of \<open>-1\<close> are read as 7. The rules accept the enumeration.\<close>

definition narrow :: enum_item where
  "narrow = (enum_new ''Narrow'' (ScI 3) [variant_new (-1) ''Down'', variant_new 1 ''Up''])\<lparr>en_other := Some ''Other''\<rparr>"

lemma narrow_signed_enum_misread:
  "validate_enum narrow = Some (Inr ()) \<and> enum_to_raw narrow (Listed ''Down'') = Some (- 1)
   \<and> enum_from_raw narrow (take_bit 3 (- 1)) = Some (Unlisted ''Other'' 7)"
proof -
  have "validate_enum narrow = Some (Inr ())"
    using bounds_signed [of 3]
    by (simp add: narrow_def enum_new_def variant_new_def validate_enum_def enum_names_def default_rule_def
        enum_repr_def enum_values_def ident_def is_ident_def alphabetic_def alphanumeric_def distinct_values_def
        refuse_if_def)
  moreover have "take_bit 3 (- 1 :: u64) = 7" by (simp add: take_bit_minus_one_eq_mask mask_eq_exp_minus_1)
  ultimately show ?thesis
    by (simp add: narrow_def enum_new_def variant_new_def enum_from_raw_def primitive_bits_def
        signed_take_bit_eq_if_positive)
qed

text \<open>Identifiers of 64 signed bits are allowed by the rules, but their bounds overflow \<open>i64\<close>.\<close>

lemma signed_64_bounds_panic:
  "validate_enum (enum_new ''Wide'' (ScI 64) []) = None"
  by (simp add: enum_new_def validate_enum_def enum_names_def default_rule_def enum_repr_def bounds_signed_64
      ident_def is_ident_def alphabetic_def alphanumeric_def)

end
