(* ===== verification/DerivedCodecs.thy ===== *)
theory DerivedCodecs
  imports WireInts LayoutModel
begin

text \<open>
  \<open>#[derive(FieldCodec)]\<close> (\<open>layline-derive/src/codec.rs\<close>, with \<open>variant_key\<close> of \<open>attr.rs\<close>): the rules
  for a newtype over a primitive and for an enumeration, and the codec each expands to, as a
  \<open>field_codec\<close> of the runtime. The macro sees syntax; the model keeps of it what the rules read: the
  literals of the attributes, the discriminant, and the shape of a variant's fields. A newtype over a
  primitive of \<open>n\<close> bits holds an \<open>n\<close>-bit word.

  The contract is the runtime's own: every codec the macro writes is an \<open>exact_codec\<close>.
\<close>

section \<open>Widths\<close>

definition width_max :: "nat \<Rightarrow> u64" where
  "width_max bits = drop_bit (64 - bits) (- 1)"

definition cardinality :: "nat \<Rightarrow> nat" where
  "cardinality bits = 2 ^ bits"

definition narrowest_primitive :: "nat \<Rightarrow> string" where
  "narrowest_primitive bits =
     (if bits \<le> 8 then ''u8'' else if bits \<le> 16 then ''u16'' else if bits \<le> 32 then ''u32'' else ''u64'')"

definition width_mask :: "nat \<Rightarrow> u64 \<Rightarrow> u64" where
  "width_mask bits raw = (if bits = 64 then raw else raw AND width_max bits)"

lemma width_max_mask: "bits \<le> 64 \<Longrightarrow> width_max bits = mask bits"
  by (rule bit_word_eqI) (auto simp: width_max_def bit_simps)

lemma width_mask_take_bit: "bits \<le> 64 \<Longrightarrow> width_mask bits raw = take_bit bits raw"
  by (cases "bits = 64") (simp_all add: width_mask_def width_max_mask take_bit_word_eq_self flip: take_bit_eq_mask)

section \<open>Newtypes\<close>

text \<open>\<open>None\<close> when the macro refuses the width: more bits than the primitive has, or not 1 to 64.\<close>

definition newtype_bits :: "nat \<Rightarrow> nat \<Rightarrow> nat option" where
  "newtype_bits bits inner = (if 1 \<le> bits \<and> bits \<le> 64 \<and> bits \<le> inner then Some bits else None)"

definition newtype_unsigned :: "nat \<Rightarrow> ('n::len word) field_codec" where
  "newtype_unsigned bits = \<lparr>BITS = newtype_bits bits LENGTH('n),
     from_raw = (\<lambda>raw. ucast (width_mask bits raw)), to_raw = (\<lambda>v. ucast v)\<rparr>"

definition newtype_signed :: "nat \<Rightarrow> ('n::len word) field_codec" where
  "newtype_signed bits = \<lparr>BITS = newtype_bits bits LENGTH('n),
     from_raw = (\<lambda>raw. ucast (signed_drop_bit (64 - bits) (push_bit (64 - bits) (width_mask bits raw)))),
     to_raw = (\<lambda>v. width_mask bits (scast v))\<rparr>"

definition derived_wire_int :: "'c field_codec \<Rightarrow> 'c wire_int" where
  "derived_wire_int C = \<lparr>to_i64 = to_raw C, from_i64 = from_raw C\<rparr>"

section \<open>Enumerations\<close>

datatype discriminant_expr = NoDiscriminant | LitDiscriminant nat | OtherDiscriminant

datatype payload = NoPayload | OneUnnamed "scalar option" | OtherPayload

record enum_variant =
  va_name :: string
  va_discriminant :: discriminant_expr
  va_values :: "nat list"
  va_others :: nat
  va_payload :: payload

datatype variant_key = KeyValue nat | KeyOther

datatype derive_error = Refused string string \<comment> \<open>the type or variant it names, and a label of the rule\<close>

definition single :: "string \<Rightarrow> 'a list \<Rightarrow> derive_error + 'a option" where
  "single owner attrs =
     (case attrs of [] \<Rightarrow> Inr None | [a] \<Rightarrow> Inr (Some a) | _ \<Rightarrow> Inl (Refused owner ''duplicate attribute''))"

definition variant_key_of :: "enum_variant \<Rightarrow> derive_error + variant_key" where
  "variant_key_of v =
     bind_res (single (va_name v) (replicate (va_others v) ())) (\<lambda>other.
     bind_res (single (va_name v) (va_values v)) (\<lambda>val.
       case (other, val) of
         (Some _, Some _) \<Rightarrow> Inl (Refused (va_name v) ''both other and value are set'')
       | (Some _, None) \<Rightarrow> Inr KeyOther
       | (None, Some n) \<Rightarrow> Inr (KeyValue n)
       | (None, None) \<Rightarrow> Inl (Refused (va_name v) ''needs a value'')))"

definition codec_key :: "enum_variant \<Rightarrow> bool \<Rightarrow> bool \<Rightarrow> nat option \<Rightarrow> derive_error + variant_key" where
  "codec_key v repr first implicit =
     (let stated = (va_values v \<noteq> [] \<or> va_others v > 0)
      in case va_discriminant v of
           LitDiscriminant n \<Rightarrow>
             if \<not> stated then Inr (KeyValue n) else Inl (Refused (va_name v) ''both a discriminant and an attribute'')
         | OtherDiscriminant \<Rightarrow>
             if stated then Inl (Refused (va_name v) ''both a discriminant and an attribute'')
             else Inl (Refused (va_name v) ''a discriminant must be an integer literal'')
         | NoDiscriminant \<Rightarrow>
             if \<not> stated \<and> repr
             then (if first then Inr (KeyValue 0)
                   else case implicit of
                     Some n \<Rightarrow> Inr (KeyValue n)
                   | None \<Rightarrow> Inl (Refused (va_name v) ''its wire value would not be its discriminant''))
             else variant_key_of v)"

text \<open>The number Rust gives the next variant, while it is known: one past a value that is the
  variant's own discriminant, and a \<open>u64\<close>.\<close>

definition next_implicit :: "enum_variant \<Rightarrow> variant_key \<Rightarrow> nat option" where
  "next_implicit v key =
     (case key of
        KeyValue n \<Rightarrow> if va_values v = [] \<and> n + 1 < 2 ^ 64 then Some (n + 1) else None
      | KeyOther \<Rightarrow> None)"

definition other_variant :: "enum_variant \<Rightarrow> nat \<Rightarrow> derive_error + (string \<times> nat)" where
  "other_variant v bits =
     (case va_payload v of
        OneUnnamed (Some (ScU c)) \<Rightarrow>
          if c < bits then Inl (Refused (va_name v) ''the field has too few bits'') else Inr (va_name v, c)
      | _ \<Rightarrow> Inl (Refused (va_name v) ''other needs one unsigned integer field''))"

record enum_plan =
  ep_listed :: "(string \<times> nat) list"
  ep_open :: "(string \<times> nat) option"

definition add_variant :: "nat \<Rightarrow> enum_variant \<Rightarrow> variant_key \<Rightarrow> enum_plan \<Rightarrow> derive_error + enum_plan" where
  "add_variant bits v key plan =
     (case key of
        KeyOther \<Rightarrow>
          if ep_open plan \<noteq> None then Inl (Refused (va_name v) ''a second other variant'')
          else map_res (\<lambda>w. plan\<lparr>ep_open := Some w\<rparr>) (other_variant v bits)
      | KeyValue n \<Rightarrow>
          if n \<ge> 2 ^ 64 then Inl (Refused (va_name v) ''not a u64'')
          else if n > unat (width_max bits) then Inl (Refused (va_name v) ''the value does not fit'')
          else if list_ex (\<lambda>(_, m). m = n) (ep_listed plan) then Inl (Refused (va_name v) ''the value is already used'')
          else if va_payload v \<noteq> NoPayload then Inl (Refused (va_name v) ''a value variant cannot carry data'')
          else Inr (plan\<lparr>ep_listed := ep_listed plan @ [(va_name v, n)]\<rparr>))"

fun collect_variants ::
    "nat \<Rightarrow> bool \<Rightarrow> bool \<Rightarrow> nat option \<Rightarrow> enum_plan \<Rightarrow> enum_variant list \<Rightarrow> derive_error + enum_plan" where
  "collect_variants bits repr first implicit plan [] = Inr plan"
| "collect_variants bits repr first implicit plan (v # vs) =
     bind_res (codec_key v repr first implicit) (\<lambda>key.
     bind_res (add_variant bits v key plan) (\<lambda>plan'.
       collect_variants bits repr False (next_implicit v key) plan' vs))"

definition enum_plan_of :: "string \<Rightarrow> nat \<Rightarrow> bool \<Rightarrow> enum_variant list \<Rightarrow> derive_error + enum_plan" where
  "enum_plan_of name bits repr vs =
     (if bits = 0 \<or> bits > 64 then Inl (Refused name ''the width is outside 1 to 64'')
      else bind_res (collect_variants bits repr True None \<lparr>ep_listed = [], ep_open = None\<rparr> vs) (\<lambda>plan.
        if ep_open plan = None \<and> length (ep_listed plan) \<noteq> cardinality bits
        then Inl (Refused name ''some values have no variant'') else Inr plan))"

text \<open>The expansion. A value is a unit variant, or the \<open>other\<close> variant with its number.\<close>

datatype derived_value = Unit string | Carried string u64

definition variant_of :: "(string \<times> nat) list \<Rightarrow> nat \<Rightarrow> string option" where
  "variant_of listed n = map_option fst (find (\<lambda>(_, m). m = n) listed)"

definition enum_decode :: "nat \<Rightarrow> enum_plan \<Rightarrow> u64 \<Rightarrow> derived_value" where
  "enum_decode bits plan raw =
     (let x = width_mask bits raw
      in case ep_open plan of
           Some (name, c) \<Rightarrow>
             (case variant_of (ep_listed plan) (unat x) of
                Some nm \<Rightarrow> Unit nm | None \<Rightarrow> Carried name (take_bit c x))
         | None \<Rightarrow>
             (case variant_of (butlast (ep_listed plan)) (unat x) of
                Some nm \<Rightarrow> Unit nm | None \<Rightarrow> Unit (fst (last (ep_listed plan)))))"

fun enum_encode :: "enum_plan \<Rightarrow> derived_value \<Rightarrow> u64" where
  "enum_encode plan (Unit nm) = (case map_of (ep_listed plan) nm of Some n \<Rightarrow> of_nat n | None \<Rightarrow> 0)"
| "enum_encode plan (Carried _ raw) = raw"

definition derived_enum :: "nat \<Rightarrow> enum_plan \<Rightarrow> derived_value field_codec" where
  "derived_enum bits plan = \<lparr>BITS = Some bits, from_raw = enum_decode bits plan, to_raw = enum_encode plan\<rparr>"

section \<open>Newtypes are exact\<close>

definition signed_fits :: "nat \<Rightarrow> 'n::len word \<Rightarrow> bool" where
  "signed_fits bits v \<longleftrightarrow> signed_take_bit (bits - 1) v = v"

lemma signed_fits_iff:
  fixes v :: "'n::len word"
  assumes "1 \<le> bits" "bits \<le> LENGTH('n)"
  shows "signed_fits bits v \<longleftrightarrow> (\<forall>k. bits \<le> k \<longrightarrow> k < LENGTH('n) \<longrightarrow> bit v k = bit v (bits - 1))"
proof
  assume v: "signed_fits bits v"
  have "bit v k = bit v (bits - 1)" if "bits \<le> k" "k < LENGTH('n)" for k
  proof -
    have "bit v k = bit (signed_take_bit (bits - 1) v) k" using v by (simp add: signed_fits_def)
    then show ?thesis using that assms by (simp add: bit_signed_take_bit_iff min_def)
  qed
  then show "\<forall>k. bits \<le> k \<longrightarrow> k < LENGTH('n) \<longrightarrow> bit v k = bit v (bits - 1)" by blast
next
  assume v: "\<forall>k. bits \<le> k \<longrightarrow> k < LENGTH('n) \<longrightarrow> bit v k = bit v (bits - 1)"
  have "bit (signed_take_bit (bits - 1) v) k = bit v k" if k: "k < LENGTH('n)" for k
  proof (cases "k < bits")
    case True
    then have "k = bits - 1 \<or> k < bits - 1" by linarith
    then show ?thesis using k by (auto simp: bit_signed_take_bit_iff min_def)
  next
    case False
    then have "bit v k = bit v (bits - 1)" using v k by simp
    then show ?thesis using k False by (simp add: bit_signed_take_bit_iff min_def)
  qed
  then show "signed_fits bits v" by (auto simp: signed_fits_def intro: bit_word_eqI)
qed

lemma newtype_unsigned_exact:
  "exact_codec (newtype_unsigned bits :: ('n::len word) field_codec) (\<lambda>v. take_bit bits v = v)"
proof
  fix n and v :: "'n word" and raw
  assume n: "BITS (newtype_unsigned bits :: 'n word field_codec) = Some n"
  then have b: "n = bits" "1 \<le> bits" "bits \<le> 64" "bits \<le> LENGTH('n)"
    by (auto simp: newtype_unsigned_def newtype_bits_def split: if_splits)
  then show "1 \<le> n \<and> n \<le> 64" by simp
  show "take_bit bits (from_raw (newtype_unsigned bits) raw :: 'n word) = from_raw (newtype_unsigned bits) raw"
    by (rule bit_word_eqI) (auto simp: newtype_unsigned_def width_mask_take_bit b bit_simps)
  show "to_raw (newtype_unsigned bits) (from_raw (newtype_unsigned bits) raw :: 'n word) = raw" if "take_bit n raw = raw"
  proof -
    have "bit raw k \<Longrightarrow> k < bits" for k using that b(1) by (metis bit_take_bit_iff)
    then have "bit raw k \<Longrightarrow> k < bits \<and> k < LENGTH('n)" for k using b(4) order_less_le_trans by blast
    then show ?thesis
      using b by (auto intro!: bit_word_eqI simp: newtype_unsigned_def width_mask_take_bit bit_simps)
  qed
  assume v: "take_bit bits v = v"
  then have "bit v k \<Longrightarrow> k < bits \<and> k < 64" for k using b(3) by (metis bit_take_bit_iff order_less_le_trans)
  then show "take_bit n (to_raw (newtype_unsigned bits) v) = to_raw (newtype_unsigned bits) v"
    and "from_raw (newtype_unsigned bits) (to_raw (newtype_unsigned bits) v) = v"
    using b by (auto intro!: bit_word_eqI simp: newtype_unsigned_def width_mask_take_bit bit_simps)
qed

lemma bit_newtype_signed:
  assumes "1 \<le> bits" "bits \<le> 64" "bits \<le> LENGTH('n::len)" "k < LENGTH('n)" "k < 64"
  shows "bit (from_raw (newtype_signed bits) raw :: 'n word) k \<longleftrightarrow> bit raw (if k < bits then k else bits - 1)"
  using assms
  by (auto simp: newtype_signed_def width_mask_take_bit bit_simps bit_signed_drop_bit_iff)

lemma bit_to_newtype_signed:
  fixes v :: "'n::len word"
  assumes "1 \<le> bits" "bits \<le> 64" "bits \<le> LENGTH('n)" "LENGTH('n) \<le> 64"
  shows "bit (to_raw (newtype_signed bits) v) k \<longleftrightarrow> k < bits \<and> bit v k"
proof (cases "k < bits")
  case True
  then show ?thesis using assms
    by (cases "k = LENGTH('n) - 1") (auto simp: newtype_signed_def width_mask_take_bit bit_simps bit_signed_iff min_def)
qed (use assms in \<open>simp add: newtype_signed_def width_mask_take_bit bit_simps\<close>)

lemma newtype_signed_exact:
  assumes inner: "LENGTH('n::len) \<le> 64"
  shows "exact_codec (newtype_signed bits :: 'n word field_codec) (signed_fits bits)"
proof
  fix n and v :: "'n word" and raw
  assume n: "BITS (newtype_signed bits :: 'n word field_codec) = Some n"
  then have b: "n = bits" "1 \<le> bits" "bits \<le> 64" "bits \<le> LENGTH('n)"
    by (auto simp: newtype_signed_def newtype_bits_def split: if_splits)
  then show "1 \<le> n \<and> n \<le> 64" by simp
  note from_bit = bit_newtype_signed [OF b(2-4)]
  note to_bit = bit_to_newtype_signed [OF b(2-4) inner]
  show "signed_fits bits (from_raw (newtype_signed bits) raw :: 'n word)"
    unfolding signed_fits_iff [OF b(2,4)] using b inner by (simp add: from_bit)
  show "to_raw (newtype_signed bits) (from_raw (newtype_signed bits) raw :: 'n word) = raw" if "take_bit n raw = raw"
  proof (rule bit_word_eqI)
    fix k assume "k < LENGTH(64)"
    moreover have "bit raw k \<Longrightarrow> k < bits" using that b(1) by (metis bit_take_bit_iff)
    ultimately show "bit (to_raw (newtype_signed bits) (from_raw (newtype_signed bits) raw :: 'n word)) k = bit raw k"
      using b inner by (auto simp: to_bit from_bit)
  qed
  assume v: "signed_fits bits v"
  show "take_bit n (to_raw (newtype_signed bits) v) = to_raw (newtype_signed bits) v"
    by (rule bit_word_eqI) (auto simp: bit_take_bit_iff to_bit b)
  show "from_raw (newtype_signed bits) (to_raw (newtype_signed bits) v) = v"
  proof (rule bit_word_eqI)
    fix k assume k: "k < LENGTH('n)"
    then show "bit (from_raw (newtype_signed bits) (to_raw (newtype_signed bits) v) :: 'n word) k = bit v k"
      using v [unfolded signed_fits_iff [OF b(2,4)]] b inner
      by (cases "k < bits") (simp_all add: to_bit from_bit)
  qed
qed

section \<open>Enumerations are exact\<close>

definition plan_ok :: "nat \<Rightarrow> enum_plan \<Rightarrow> bool" where
  "plan_ok bits plan \<longleftrightarrow> distinct (map snd (ep_listed plan)) \<and> (\<forall>n \<in> snd ` set (ep_listed plan). n < 2 ^ bits)
     \<and> (\<forall>name c. ep_open plan = Some (name, c) \<longrightarrow> bits \<le> c)"

lemma add_variant_ok:
  assumes "add_variant bits v key plan = Inr plan'" "plan_ok bits plan" "bits \<le> 64"
  shows "plan_ok bits plan'"
proof (cases key)
  case (KeyValue n)
  have "unat (width_max bits) = 2 ^ bits - 1"
    unfolding width_max_mask [OF assms(3)] unat_eq_nat_uint uint_mask_eq using assms(3)
    by (simp add: min_absorb2 nat_mask_eq) (simp add: mask_eq_exp_minus_1)
  moreover have "0 < (2 :: nat) ^ bits" by simp
  moreover have "n \<le> unat (width_max bits)" using assms(1) KeyValue by (auto simp: add_variant_def split: if_splits)
  ultimately have "n < 2 ^ bits" by linarith
  moreover have "n \<notin> snd ` set (ep_listed plan)" "plan' = plan\<lparr>ep_listed := ep_listed plan @ [(va_name v, n)]\<rparr>"
    using assms(1) KeyValue by (auto simp: add_variant_def list_ex_iff split: if_splits)
  ultimately show ?thesis using assms(2) by (auto simp: plan_ok_def)
next
  case KeyOther
  then obtain w where "other_variant v bits = Inr w" "plan' = plan\<lparr>ep_open := Some w\<rparr>"
    using assms(1) by (cases "other_variant v bits") (auto simp: add_variant_def split: if_splits)
  then show ?thesis using assms(2)
    by (auto simp: plan_ok_def other_variant_def split: payload.splits option.splits scalar.splits if_splits)
qed

lemma collect_variants_ok:
  "\<lbrakk>collect_variants bits repr first implicit plan vs = Inr plan'; plan_ok bits plan; bits \<le> 64\<rbrakk> \<Longrightarrow> plan_ok bits plan'"
  by (induction bits repr first implicit plan vs rule: collect_variants.induct)
    (auto simp: bind_res_Inr_iff dest: add_variant_ok)

lemma enum_plan_of_ok:
  assumes "enum_plan_of name bits repr vs = Inr plan"
  shows "1 \<le> bits" "bits \<le> 64" "plan_ok bits plan" "ep_open plan = None \<Longrightarrow> length (ep_listed plan) = 2 ^ bits"
proof -
  from assms have c: "1 \<le> bits" "bits \<le> 64"
    "collect_variants bits repr True None \<lparr>ep_listed = [], ep_open = None\<rparr> vs = Inr plan"
    "ep_open plan = None \<longrightarrow> length (ep_listed plan) = 2 ^ bits"
    by (auto simp: enum_plan_of_def bind_res_Inr_iff cardinality_def split: if_splits)
  then show "1 \<le> bits" "bits \<le> 64" "ep_open plan = None \<Longrightarrow> length (ep_listed plan) = 2 ^ bits" by auto
  show "plan_ok bits plan" using collect_variants_ok [OF c(3) _ c(2)] by (simp add: plan_ok_def)
qed

text \<open>A value the type can hold that is in its normal form: the \<open>other\<close> variant never carries a
  listed number.\<close>

definition enum_valid :: "nat \<Rightarrow> enum_plan \<Rightarrow> derived_value \<Rightarrow> bool" where
  "enum_valid bits plan v =
     (case v of
        Unit nm \<Rightarrow> nm \<in> fst ` set (ep_listed plan)
      | Carried nm raw \<Rightarrow> (\<exists>c. ep_open plan = Some (nm, c)) \<and> take_bit bits raw = raw
          \<and> unat raw \<notin> snd ` set (ep_listed plan))"

lemma variant_of_Some: "variant_of listed n = Some nm \<Longrightarrow> (nm, n) \<in> set listed"
  by (auto simp: variant_of_def find_Some_iff dest!: nth_mem)

lemma variant_of_None: "variant_of listed n = None \<longleftrightarrow> n \<notin> snd ` set listed"
  by (force simp: variant_of_def find_None_iff)

lemma variant_of_member: "distinct (map snd listed) \<Longrightarrow> (nm, n) \<in> set listed \<Longrightarrow> variant_of listed n = Some nm"
  by (induction listed) (auto simp: variant_of_def rev_image_eqI)

lemma closed_lists_all:
  assumes "plan_ok bits plan" "length (ep_listed plan) = 2 ^ bits"
  shows "snd ` set (ep_listed plan) = {..<2 ^ bits}"
proof (rule card_subset_eq)
  show "snd ` set (ep_listed plan) \<subseteq> {..<2 ^ bits}" using assms(1) by (auto simp: plan_ok_def)
  have "card (set (map snd (ep_listed plan))) = length (map snd (ep_listed plan))"
    using assms(1) by (intro distinct_card) (simp add: plan_ok_def)
  then show "card (snd ` set (ep_listed plan)) = card {..<2 ^ bits :: nat}" using assms(2) by simp
qed simp

text \<open>The arm the closed expansion leaves out is its last, which the fallback names.\<close>

lemma closed_variant_of:
  assumes "distinct (map snd listed)" "(nm, n) \<in> set listed"
  shows "(case variant_of (butlast listed) n of Some nm' \<Rightarrow> nm' | None \<Rightarrow> fst (last listed)) = nm"
proof -
  have l: "listed = butlast listed @ [last listed]" using assms(2) by (metis append_butlast_last_id empty_iff empty_set)
  show ?thesis
  proof (cases "(nm, n) \<in> set (butlast listed)")
    case True
    have "distinct (map snd (butlast listed))" using assms(1) by (metis distinct_append l map_append)
    then show ?thesis using variant_of_member [OF _ True] by simp
  next
    case False
    then have last: "last listed = (nm, n)" using assms(2) l by (metis UnE empty_iff insertE list.set(1,2) set_append)
    have "n \<notin> snd ` set (butlast listed)"
      using assms(1) by (subst (asm) l) (auto simp: last)
    then show ?thesis by (simp add: variant_of_None [THEN iffD2] last)
  qed
qed

lemma enum_decode_listed:
  assumes "plan_ok bits plan" "bits \<le> 64" "(nm, n) \<in> set (ep_listed plan)"
    "ep_open plan = None \<longrightarrow> length (ep_listed plan) = 2 ^ bits" "unat (take_bit bits raw) = n"
  shows "enum_decode bits plan raw = Unit nm"
proof (cases "ep_open plan")
  case None
  then show ?thesis
    using closed_variant_of [of "ep_listed plan" nm n] assms
    by (auto simp: enum_decode_def Let_def width_mask_take_bit plan_ok_def split: option.splits)
next
  case (Some w)
  then show ?thesis
    using variant_of_member [of "ep_listed plan" nm n] assms
    by (auto simp: enum_decode_def Let_def width_mask_take_bit plan_ok_def)
qed

lemma derived_enum_simps:
  "BITS (derived_enum bits plan) = Some bits" "from_raw (derived_enum bits plan) = enum_decode bits plan"
  "to_raw (derived_enum bits plan) = enum_encode plan"
  by (simp_all add: derived_enum_def)

lemma enum_decode_unlisted:
  assumes "bits \<le> 64" "unat (take_bit bits raw) \<notin> snd ` set (ep_listed plan)" "ep_open plan = Some (nm, c)" "bits \<le> c"
  shows "enum_decode bits plan raw = Carried nm (take_bit bits raw)"
  using assms variant_of_None [THEN iffD2, OF assms(2)]
  by (simp add: enum_decode_def Let_def width_mask_take_bit take_bit_take_bit min_def)

text \<open>A decoded number is listed, or the carried one.\<close>

lemma enum_decode_cases:
  assumes "plan_ok bits plan" "bits \<le> 64" "ep_open plan = None \<longrightarrow> length (ep_listed plan) = 2 ^ bits"
  obtains (listed) nm n where "(nm, n) \<in> set (ep_listed plan)" "unat (take_bit bits raw) = n"
      "enum_decode bits plan raw = Unit nm"
    | (carried) nm c where "ep_open plan = Some (nm, c)" "unat (take_bit bits raw) \<notin> snd ` set (ep_listed plan)"
      "enum_decode bits plan raw = Carried nm (take_bit bits raw)"
proof (cases "unat (take_bit bits raw) \<in> snd ` set (ep_listed plan)")
  case True
  then obtain nm where "(nm, unat (take_bit bits raw)) \<in> set (ep_listed plan)" by auto
  then show ?thesis using enum_decode_listed [OF assms(1,2) _ assms(3) refl] listed by blast
next
  case False
  have "unat (take_bit bits raw) < 2 ^ bits"
    using assms(2) by (simp add: unsigned_take_bit_eq)
  then obtain nm c where op: "ep_open plan = Some (nm, c)"
    using False closed_lists_all [OF assms(1)] assms(3) by (cases "ep_open plan") auto
  then have "bits \<le> c" using assms(1) by (simp add: plan_ok_def)
  then show ?thesis using enum_decode_unlisted [OF assms(2) False op] carried op False by blast
qed

lemma enum_encode_listed:
  "(nm, n) \<in> set (ep_listed plan) \<Longrightarrow> distinct (map fst (ep_listed plan)) \<Longrightarrow> enum_encode plan (Unit nm) = of_nat n"
  by simp

lemma enum_decode_valid:
  assumes "plan_ok bits plan" "bits \<le> 64" "ep_open plan = None \<longrightarrow> length (ep_listed plan) = 2 ^ bits"
  shows "enum_valid bits plan (enum_decode bits plan raw)"
  by (cases rule: enum_decode_cases [OF assms, of raw]) (force simp: enum_valid_def)+

lemma enum_encode_decode:
  assumes "plan_ok bits plan" "bits \<le> 64" "ep_open plan = None \<longrightarrow> length (ep_listed plan) = 2 ^ bits"
    "distinct (map fst (ep_listed plan))"
  shows "enum_encode plan (enum_decode bits plan raw) = take_bit bits raw"
  by (cases rule: enum_decode_cases [OF assms(1-3), of raw])
    (use assms(4) in \<open>auto simp: enum_encode_listed simp del: enum_encode.simps(1)\<close>)

lemma enum_encode_fits:
  assumes "plan_ok bits plan" "bits \<le> 64" "enum_valid bits plan v"
  shows "take_bit bits (enum_encode plan v) = enum_encode plan v"
proof (cases v)
  case (Unit nm)
  show ?thesis
  proof (cases "map_of (ep_listed plan) nm")
    case (Some n)
    then have "n < 2 ^ bits" using assms(1) by (force simp: plan_ok_def dest: map_of_SomeD)
    then show ?thesis using Some Unit by (simp flip: of_nat_take_bit add: take_bit_nat_eq_self)
  qed (simp add: Unit)
next
  case (Carried nm raw)
  then show ?thesis using assms(3) by (simp add: enum_valid_def)
qed

lemma enum_decode_encode:
  assumes "plan_ok bits plan" "bits \<le> 64" "ep_open plan = None \<longrightarrow> length (ep_listed plan) = 2 ^ bits"
    "distinct (map fst (ep_listed plan))" "enum_valid bits plan v"
  shows "enum_decode bits plan (enum_encode plan v) = v"
proof (cases v)
  case (Unit nm)
  then obtain n where n: "(nm, n) \<in> set (ep_listed plan)" using assms(5) by (auto simp: enum_valid_def)
  then have "n < 2 ^ bits" using assms(1) by (force simp: plan_ok_def)
  moreover have "(2 :: nat) ^ bits \<le> 2 ^ 64" using assms(2) by (intro power_increasing) auto
  ultimately have "unat (take_bit bits (of_nat n :: u64)) = n"
    by (simp add: unsigned_take_bit_eq unat_of_nat take_bit_nat_eq_self)
  then show ?thesis
    using enum_decode_listed [OF assms(1,2) n assms(3)] enum_encode_listed [OF n assms(4)] Unit by simp
next
  case (Carried nm raw)
  then obtain c where c: "ep_open plan = Some (nm, c)" "take_bit bits raw = raw" "unat raw \<notin> snd ` set (ep_listed plan)"
    using assms(5) by (auto simp: enum_valid_def)
  then have "bits \<le> c" using assms(1) by (simp add: plan_ok_def)
  then show ?thesis using enum_decode_unlisted [of bits raw plan nm c] c assms(2) Carried by simp
qed

lemma derived_enum_exact:
  assumes plan: "enum_plan_of name bits repr vs = Inr plan" and names: "distinct (map fst (ep_listed plan))"
  shows "exact_codec (derived_enum bits plan) (enum_valid bits plan)"
proof
  note ok = enum_plan_of_ok [OF plan]
  have full: "ep_open plan = None \<longrightarrow> length (ep_listed plan) = 2 ^ bits" using ok(4) by blast
  have below: "m < 2 ^ bits" if "(nm, m) \<in> set (ep_listed plan)" for nm m using that ok(3) by (force simp: plan_ok_def)
  fix n v raw
  assume "BITS (derived_enum bits plan) = Some n"
  then have n: "n = bits" by (simp add: derived_enum_def)
  then show "1 \<le> n \<and> n \<le> 64" using ok by simp
  show V: "enum_valid bits plan (from_raw (derived_enum bits plan) raw)" for raw
    by (rule enum_decode_valid [OF ok(3,2) full, folded derived_enum_simps(2)])
  show "to_raw (derived_enum bits plan) (from_raw (derived_enum bits plan) raw) = raw" if "take_bit n raw = raw"
    using enum_encode_decode [OF ok(3,2) full names] that n by (simp add: derived_enum_simps)
  assume v: "enum_valid bits plan v"
  show "take_bit n (to_raw (derived_enum bits plan) v) = to_raw (derived_enum bits plan) v"
    using enum_encode_fits [OF ok(3,2) v] n by (simp add: derived_enum_simps)
  show "from_raw (derived_enum bits plan) (to_raw (derived_enum bits plan) v) = v"
    using enum_decode_encode [OF ok(3,2) full names v] by (simp add: derived_enum_simps)
qed

interpretation newtype_u: exact_codec "newtype_unsigned bits :: ('n::len word) field_codec" "\<lambda>v. take_bit bits v = v" for bits
  by (rule newtype_unsigned_exact)

text \<open>The plan names each variant once when the enumeration does.\<close>

lemma add_variant_names:
  "add_variant bits v key plan = Inr plan' \<Longrightarrow>
     ep_listed plan' = ep_listed plan \<or> (\<exists>n. ep_listed plan' = ep_listed plan @ [(va_name v, n)])"
  by (cases key; cases "other_variant v bits") (auto simp: add_variant_def split: if_splits)

lemma collect_variants_names:
  "\<lbrakk>collect_variants bits repr first implicit plan vs = Inr plan'; distinct (map fst (ep_listed plan) @ map va_name vs)\<rbrakk>
     \<Longrightarrow> distinct (map fst (ep_listed plan'))"
proof (induction vs arbitrary: first implicit plan)
  case (Cons v vs)
  then obtain key plan1 where step: "add_variant bits v key plan = Inr plan1"
    "collect_variants bits repr False (next_implicit v key) plan1 vs = Inr plan'"
    by (auto simp: bind_res_Inr_iff)
  have "distinct (map fst (ep_listed plan1) @ map va_name vs)"
    using add_variant_names [OF step(1)] Cons.prems(2) by (elim disjE exE) (auto simp del: set_map)
  then show ?case by (rule Cons.IH [OF step(2)])
qed simp

lemma enum_plan_names:
  "enum_plan_of name bits repr vs = Inr plan \<Longrightarrow> distinct (map va_name vs) \<Longrightarrow> distinct (map fst (ep_listed plan))"
  by (auto simp: enum_plan_of_def bind_res_Inr_iff dest: collect_variants_names split: if_splits)

text \<open>C35: an enumeration the macro accepts gets a codec that loses nothing: a number of the declared
  width decodes to a value of the type that encodes back to it, and a value in normal form encodes in
  that width and decodes back. A value no variant lists needs the \<open>other\<close> variant, and the macro
  refuses an enumeration that leaves one out without it.\<close>

theorem derived_enum_round_trip:
  assumes "enum_plan_of name bits repr vs = Inr plan" "distinct (map va_name vs)"
  shows "(\<forall>raw. take_bit bits raw = raw \<longrightarrow> enum_valid bits plan (enum_decode bits plan raw)
            \<and> enum_encode plan (enum_decode bits plan raw) = raw)
    \<and> (\<forall>v. enum_valid bits plan v \<longrightarrow> take_bit bits (enum_encode plan v) = enum_encode plan v
            \<and> enum_decode bits plan (enum_encode plan v) = v)"
proof -
  have exact: "exact_codec (derived_enum bits plan) (enum_valid bits plan)"
    by (rule derived_enum_exact [OF assms(1) enum_plan_names [OF assms]])
  note laws = exact_codec.axioms(1) [OF exact]
  show ?thesis
    using exact_codec.to_from_raw [OF exact] codec_laws.to_raw_fits [OF laws] codec_laws.valid_from_raw [OF laws]
      codec_laws.from_to_raw [OF laws]
    by (auto simp: derived_enum_simps)
qed

text \<open>A two-bit kind with an implicit value and an open tail.\<close>

definition kind_variants :: "enum_variant list" where
  "kind_variants =
     [\<lparr>va_name = ''A'', va_discriminant = LitDiscriminant 1, va_values = [], va_others = 0, va_payload = NoPayload\<rparr>,
      \<lparr>va_name = ''B'', va_discriminant = NoDiscriminant, va_values = [], va_others = 0, va_payload = NoPayload\<rparr>,
      \<lparr>va_name = ''X'', va_discriminant = NoDiscriminant, va_values = [], va_others = 1,
        va_payload = OneUnnamed (Some (ScU 8))\<rparr>]"

lemma kind_plan: "enum_plan_of ''Kind'' 2 True kind_variants
    = Inr \<lparr>ep_listed = [(''A'', 1), (''B'', 2)], ep_open = Some (''X'', 8)\<rparr>"
  by (simp add: enum_plan_of_def kind_variants_def codec_key_def variant_key_of_def single_def next_implicit_def
      add_variant_def other_variant_def width_max_def mask_eq_exp_minus_1 Let_def)

lemma derived_enum_round_trip_witness:
  "let plan = \<lparr>ep_listed = [(''A'', 1), (''B'', 2)], ep_open = Some (''X'', 8)\<rparr>
   in enum_encode plan (enum_decode 2 plan 3) = 3 \<and> enum_decode 2 plan 3 = Carried ''X'' 3
     \<and> enum_decode 2 plan (enum_encode plan (Unit ''B'')) = Unit ''B''"
proof -
  have d: "distinct (map va_name kind_variants)" by (simp add: kind_variants_def)
  have "take_bit 2 (3 :: u64) = 3" by simp
  moreover have "enum_valid 2 \<lparr>ep_listed = [(''A'', 1), (''B'', 2)], ep_open = Some (''X'', 8)\<rparr> (Unit ''B'')"
    by (simp add: enum_valid_def)
  moreover have "enum_decode 2 \<lparr>ep_listed = [(''A'', 1), (''B'', 2)], ep_open = Some (''X'', 8)\<rparr> 3 = Carried ''X'' 3"
    by (simp add: enum_decode_def width_mask_take_bit variant_of_def Let_def)
  ultimately show ?thesis
    unfolding Let_def using derived_enum_round_trip [OF kind_plan d] by metis
qed

end
