(* ===== verification/MessageRules.thy ===== *)
theory MessageRules
  imports MessageModel LayoutRules Stamping
begin

text \<open>
  The generator's rules for messages and choices (\<open>layline-codegen/src/validate/names.rs\<close>,
  \<open>message.rs\<close> and \<open>bits.rs\<close>). A byte-addressed body is read from left to right: the state of the
  walk is the names declared so far, the current bit position while it is known, and the segment
  that reads to the end of the body once there is one.

  What the rules promise to the code the generator writes is stated by \<open>promises\<close> and \<open>stands\<close>:
  every reference names an earlier integer or flag, and nothing follows a segment without an end.
\<close>

section \<open>References\<close>

record known =
  kn_name :: string
  kn_kind :: kind
  kn_param :: bool

definition known_field :: "string \<Rightarrow> kind \<Rightarrow> known" where
  "known_field name k = \<lparr>kn_name = name, kn_kind = k, kn_param = False\<rparr>"

datatype reads = ReadsNumber | ReadsFlag

definition lookup_known :: "known list \<Rightarrow> string \<Rightarrow> known option" where
  "lookup_known seen name = find (\<lambda>k. kn_name k = name) seen"

fun holds_for :: "reads \<Rightarrow> kind \<Rightarrow> bool" where
  "holds_for ReadsNumber k = is_integer_kind k"
| "holds_for ReadsFlag k = (k = KScalar ScBool \<or> k = KScalar ScByteBool)"

definition resolve :: "known list \<Rightarrow> string \<Rightarrow> reads \<Rightarrow> invalid + unit" where
  "resolve seen field reads =
     (let (outer, inner) = split_ref field
      in case lookup_known seen outer of
           None \<Rightarrow> Inl (UnknownReference field)
         | Some k \<Rightarrow>
             (case inner of
                None \<Rightarrow> if holds_for reads (kn_kind k) then Inr ()
                        else Inl (case reads of ReadsNumber \<Rightarrow> NonIntegerReference field | ReadsFlag \<Rightarrow> NotAFlagReference field)
              | Some i \<Rightarrow>
                  if CHR ''.'' \<in> set i then Inl (InvalidOther ''a reference through more than one nested layout'')
                  else case kn_kind k of KNested _ _ \<Rightarrow> ident ''field'' i | _ \<Rightarrow> Inl (NotANestedLayout field)))"

definition read_only :: "known list \<Rightarrow> string \<Rightarrow> string \<Rightarrow> invalid + unit" where
  "read_only seen field what =
     (let outer = fst (split_ref field)
      in if \<not> list_ex (\<lambda>k. kn_name k = outer \<and> kn_param k) seen then Inr ()
         else Inl (InvalidOther (quoted outer @ '' is a parameter, and encode cannot write '' @ what @ '' into it'')))"

definition stated_with :: "known list \<Rightarrow> string \<Rightarrow> kind \<Rightarrow> invalid + unit" where
  "stated_with seen name k =
     (case k of
        KMsg _ _ args \<Rightarrow>
          each (\<lambda>arg. if CHR ''.'' \<in> set arg then Inl (InvalidField name ''a parameter takes one field of this message'')
                      else resolve seen arg ReadsNumber) args
      | _ \<Rightarrow> Inr ())"

section \<open>Borrowed collections and parameters\<close>

fun borrowed_rule :: "bool \<Rightarrow> segment \<Rightarrow> invalid + unit" where
  "borrowed_rule lifetime (SRepeat h element cnt _ col) =
     (if \<not> borrows col then Inr ()
      else if \<not> lifetime then Inl (InvalidField (sh_name h) ''a borrowed collection needs a message with a lifetime'')
      else if element \<noteq> KScalar (ScU 8) then Inl (InvalidField (sh_name h) ''a borrowed collection is bytes'')
      else if col = ColBorrowedArray
        then (case cnt of CountWindow (LenBytes _) \<Rightarrow> Inr ()
              | _ \<Rightarrow> Inl (InvalidField (sh_name h) ''a borrowed array is a fixed number of bytes''))
      else (case cnt of
              CountField _ _ \<Rightarrow> Inr ()
            | CountFill _ \<Rightarrow> Inr ()
            | CountWindow (LenField _ _ _) \<Rightarrow> Inr ()
            | CountWindow (LenBytes _) \<Rightarrow> Inr ()
            | _ \<Rightarrow> Inl (InvalidField (sh_name h) ''a borrowed collection is sized before it is read'')))"
| "borrowed_rule lifetime _ = Inr ()"

definition borrowed :: "segment list \<Rightarrow> bool \<Rightarrow> invalid + unit" where
  "borrowed segs lifetime = each (borrowed_rule lifetime) segs"

fun declared_by :: "segment \<Rightarrow> string list" where
  "declared_by (SBlock fs) = map f_name fs"
| "declared_by (SOpt _ f) = [f_name f]"
| "declared_by seg = (case seg_name seg of Some n \<Rightarrow> [n] | None \<Rightarrow> [])"

definition declared :: "segment list \<Rightarrow> string list" where
  "declared segs = concat (map declared_by segs)"

fun param_rules :: "string \<Rightarrow> string list \<Rightarrow> known list \<Rightarrow> param list \<Rightarrow> invalid + known list" where
  "param_rules msg names seen [] = Inr seen"
| "param_rules msg names seen (p # ps) =
     bind_res (ident ''parameter'' (pm_name p)) (\<lambda>_.
       if list_ex (\<lambda>k. kn_name k = pm_name p) seen
       then Inl (InvalidOther (''message '' @ quoted msg @ '' declares the parameter '' @ quoted (pm_name p) @ '' twice''))
       else if pm_name p \<in> set names
       then Inl (InvalidOther (''message '' @ quoted msg @ '': '' @ quoted (pm_name p) @ '' is both a parameter and a field''))
       else if \<not> is_integer_kind (KScalar (pm_repr p))
       then Inl (InvalidOther (''message '' @ quoted msg @ '': a parameter must be an integer''))
       else param_rules msg names (seen @ [\<lparr>kn_name = pm_name p, kn_kind = KScalar (pm_repr p), kn_param = True\<rparr>]) ps)"

definition needs_rule :: "message_item \<Rightarrow> invalid + known list" where
  "needs_rule m =
     (if mi_needs m \<noteq> [] \<and> mi_bits m \<noteq> None
      then Inl (InvalidOther (''message '' @ quoted (mi_name m) @ '': a bit-addressed message cannot take parameters''))
      else param_rules (mi_name m) (declared (mi_segments m)) [] (mi_needs m))"

section \<open>The walk over a byte-addressed body\<close>

text \<open>\<open>Some(pos? + bits?)\<close>\<close>

definition advance :: "nat option \<Rightarrow> nat option \<Rightarrow> nat option" where
  "advance pos bits = (case (pos, bits) of (Some p, Some b) \<Rightarrow> Some (p + b) | _ \<Rightarrow> None)"

definition stated_here :: "nat option \<Rightarrow> string \<Rightarrow> stated \<Rightarrow> invalid + unit" where
  "stated_here pos name s =
     (case pos of
        None \<Rightarrow> Inl (InvalidField name ''a stated position after a variable-length segment'')
      | Some p \<Rightarrow> (case stated_check s name p of Inl m \<Rightarrow> Inl (StatedElsewhere m) | Inr _ \<Rightarrow> Inr ()))"

record walk =
  wk_seen :: "known list"
  wk_open :: "string option"
  wk_pos :: "nat option"

text \<open>Each rule returns the names the segment adds, and what leaves the body open, if it does.\<close>

type_synonym outcome = "invalid + (known list \<times> string option)"

fun block_rules :: "grammar \<Rightarrow> nat option \<Rightarrow> field list \<Rightarrow> invalid + known list" where
  "block_rules P pos [] = Inr []"
| "block_rules P pos (f # fs) =
     bind_res (field_names P f) (\<lambda>_.
       if kind_bits (f_kind f) = None
       then Inl (InvalidOther (''field '' @ quoted (f_name f) @ '': a variable-length field cannot be in a block''))
       else if (case f_kind f of KChecksum _ _ _ \<Rightarrow> True | _ \<Rightarrow> False)
       then Inl (InvalidOther (''field '' @ quoted (f_name f) @ '': a checksum cannot be in a block''))
       else if f_kind f = KScalar ScBool then Inl (InvalidField (f_name f) ''a byte-addressed message stores a `bool` in a whole byte'')
       else bind_res (case f_stated f of Some s \<Rightarrow> stated_here pos (f_name f) s | None \<Rightarrow> Inr ()) (\<lambda>_.
         map_res ((#) (known_field (f_name f) (f_kind f))) (block_rules P (advance pos (kind_bits (f_kind f))) fs)))"

definition value_rules :: "grammar \<Rightarrow> known list \<Rightarrow> string \<Rightarrow> kind \<Rightarrow> outcome" where
  "value_rules P seen name k =
     bind_res (kind_paths P name k) (\<lambda>_.
     bind_res (case k of
                 KVar _ \<Rightarrow> Inr None
               | KMsg _ _ _ \<Rightarrow> Inr None
               | KText (LenField by _ _) _ \<Rightarrow> map_res (\<lambda>_. None) (resolve seen (nb_field by) ReadsNumber)
               | KText (LenBytes _) _ \<Rightarrow> Inr None
               | KText (LenUntil _) _ \<Rightarrow> Inr None
               | KText LenFill _ \<Rightarrow> Inr (Some ''text(fill)'')
               | _ \<Rightarrow> Inl (InvalidField name ''a value of a fixed width belongs in a block'')) (\<lambda>open_ended.
     bind_res (stated_with seen name k) (\<lambda>_. Inr ([known_field name k], open_ended))))"

definition variable_element :: "string \<Rightarrow> kind \<Rightarrow> invalid + unit" where
  "variable_element name element =
     (case element of
        KText len _ \<Rightarrow>
          (case len of
             LenBytes _ \<Rightarrow> Inr ()
           | LenUntil _ \<Rightarrow> Inr ()
           | _ \<Rightarrow> Inl (InvalidOther (''collection '' @ quoted name @ '': text elements without an end'')))
      | _ \<Rightarrow> Inr ())"

fun count_rule :: "known list \<Rightarrow> string \<Rightarrow> kind \<Rightarrow> string option \<Rightarrow> count_kind \<Rightarrow> invalid + string option" where
  "count_rule seen name element pos (CountField by _) = map_res (\<lambda>_. None) (resolve seen (nb_field by) ReadsNumber)"
| "count_rule seen name element pos (CountSquared by _) = map_res (\<lambda>_. None) (resolve seen (nb_field by) ReadsNumber)"
| "count_rule seen name element pos (CountWindow (LenUntil _)) =
     (if kind_bits element \<noteq> Some 8
      then Inl (InvalidOther (''collection '' @ quoted name @ '': a run ended by a terminator byte needs one-byte elements''))
      else Inr None)"
| "count_rule seen name element pos (CountTerminated m) =
     (if m = 0 then Inl (InvalidOther (''collection '' @ quoted name @ '': a mask of zero never marks the last element''))
      else if (case element of KVar _ \<Rightarrow> True | KText _ _ \<Rightarrow> True | _ \<Rightarrow> False)
      then Inl (InvalidOther (''collection '' @ quoted name @ '': a terminated run needs fixed-width elements''))
      else Inr None)"
| "count_rule seen name element pos (CountStrided by _ stride) =
     bind_res (resolve seen (nb_field by) ReadsNumber) (\<lambda>_.
     bind_res (resolve seen (nb_field stride) ReadsNumber) (\<lambda>_.
       if nb_field stride = nb_field by
       then Inl (InvalidOther (''collection '' @ quoted name @ '': one field is both the count and the stride''))
       else if (case element of KVar _ \<Rightarrow> True | KMsg _ _ _ \<Rightarrow> True | KText _ _ \<Rightarrow> True | _ \<Rightarrow> False)
       then Inl (InvalidOther (''collection '' @ quoted name @ '': a variable-length element cannot have a stride''))
       else Inr None))"
| "count_rule seen name element pos (CountWindow (LenField by _ _)) = map_res (\<lambda>_. None) (resolve seen (nb_field by) ReadsNumber)"
| "count_rule seen name element pos (CountWindow (LenBytes _)) =
     (if pos \<noteq> None then Inl (InvalidOther (''collection '' @ quoted name @ '': an offset and a fixed size give no element count''))
      else Inr None)"
| "count_rule seen name element pos (CountWindow LenFill) =
     Inl (InvalidOther (''collection '' @ quoted name @ '': not a supported byte window''))"
| "count_rule seen name element pos (CountFill _) = Inr (Some ''repeat(fill)'')"

definition repeat_rules :: "grammar \<Rightarrow> known list \<Rightarrow> string \<Rightarrow> kind \<Rightarrow> count_kind \<Rightarrow> string option \<Rightarrow> outcome" where
  "repeat_rules P seen name element cnt pos =
     bind_res (kind_paths P name element) (\<lambda>_.
     bind_res (variable_element name element) (\<lambda>_.
     bind_res (count_rule seen name element pos cnt) (\<lambda>open_ended.
     bind_res (case pos of
                 Some field \<Rightarrow> bind_res (resolve seen field ReadsNumber) (\<lambda>_. read_only seen field ''a collection offset'')
               | None \<Rightarrow> Inr ()) (\<lambda>_.
     bind_res (stated_with seen name element) (\<lambda>_. Inr ([], open_ended))))))"

definition placed_rules :: "grammar \<Rightarrow> known list \<Rightarrow> string \<Rightarrow> kind \<Rightarrow> string \<Rightarrow> absence option \<Rightarrow> outcome" where
  "placed_rules P seen name k pos absent =
     bind_res (kind_paths P name k) (\<lambda>_.
     bind_res (resolve seen pos ReadsNumber) (\<lambda>_.
     bind_res (read_only seen pos ''a record offset'') (\<lambda>_.
     bind_res (stated_with seen name k) (\<lambda>_.
     bind_res (case absent of
                 Some (ZeroLength by _) \<Rightarrow>
                   bind_res (resolve seen by ReadsNumber) (\<lambda>_.
                   bind_res (read_only seen by ''a record length'') (\<lambda>_.
                     if by = pos then Inl (InvalidField name ''one field is both the offset and the length'') else Inr ()))
               | _ \<Rightarrow> Inr ()) (\<lambda>_.
       case k of
         KNested ty n \<Rightarrow> if n = 0 then Inl (InvalidField name ''a record of zero bytes'') else Inr ([], None)
       | KMsg _ _ _ \<Rightarrow> Inr ([], None)
       | _ \<Rightarrow> Inl (InvalidField name ''a record at an offset must be a nested layout or a message''))))))"

definition switch_rules :: "grammar \<Rightarrow> known list \<Rightarrow> string \<Rightarrow> switch_on \<Rightarrow> string \<Rightarrow> len option \<Rightarrow> outcome" where
  "switch_rules P seen name on choice window =
     bind_res (type_path P name ''the catalogue'' choice) (\<lambda>_.
     bind_res (case on of SwitchField field \<Rightarrow> resolve seen field ReadsNumber | SwitchBodyLength \<Rightarrow> Inr ()) (\<lambda>_.
       case window of
         None \<Rightarrow> Inr ([], None)
       | Some (LenBytes n) \<Rightarrow>
           if n = 0 then Inl (InvalidField name ''a union of zero bytes'')
           else if on = SwitchBodyLength
           then Inl (InvalidOther (''field '' @ quoted name @ '': a switch on the body length cannot have a fixed size''))
           else Inr ([], None)
       | Some (LenField by _ _) \<Rightarrow>
           if on = SwitchBodyLength
           then Inl (InvalidField name ''a switch on the body length cannot take its size from a field'')
           else map_res (\<lambda>_. ([], None)) (resolve seen (nb_field by) ReadsNumber)
       | Some _ \<Rightarrow> Inl (InvalidField name ''not a supported switch window'')))"

definition opt_rules :: "grammar \<Rightarrow> known list \<Rightarrow> when_present \<Rightarrow> field \<Rightarrow> outcome" where
  "opt_rules P seen when f =
     bind_res (field_names P f) (\<lambda>_.
     bind_res (stated_with seen (f_name f) (f_kind f)) (\<lambda>_.
     bind_res (let masked = (\<lambda>flag m.
                   bind_res (resolve seen flag ReadsNumber) (\<lambda>_.
                   bind_res (read_only seen flag ''presence bits'') (\<lambda>_.
                     if m = 0 then Inl (InvalidField (f_name f) ''the mask tests no bits'') else Inr ())));
                   flagged = (\<lambda>flag. bind_res (resolve seen flag ReadsFlag) (\<lambda>_. read_only seen flag ''presence bits''))
               in case when of
                    OnRemaining \<Rightarrow> Inr ()
                  | OnMask flag m \<Rightarrow> masked flag m
                  | OnMaskClear flag m \<Rightarrow> masked flag m
                  | OnFlag flag \<Rightarrow> flagged flag
                  | OnFlagClear flag \<Rightarrow> flagged flag
                  | OnBit \<Rightarrow> Inl (InvalidField (f_name f) ''a byte-addressed message has no inline presence bits'')) (\<lambda>_.
       case f_kind f of
         KText (LenField _ _ _) _ \<Rightarrow> Inl (InvalidField (f_name f) ''an optional string cannot take its length from a field'')
       | KText LenFill _ \<Rightarrow> Inr ([], Some ''optional text(fill)'')
       | _ \<Rightarrow> Inr ([], None))))"

fun segment_rules :: "grammar \<Rightarrow> string list \<Rightarrow> string list \<Rightarrow> known list \<Rightarrow> nat option \<Rightarrow> segment \<Rightarrow> outcome" where
  "segment_rules P places optional seen pos (SBlock fs) = map_res (\<lambda>ks. (ks, None)) (block_rules P pos fs)"
| "segment_rules P places optional seen pos (SValue h k) = value_rules P seen (sh_name h) k"
| "segment_rules P places optional seen pos (SRepeat h element cnt off _) = repeat_rules P seen (sh_name h) element cnt off"
| "segment_rules P places optional seen pos (SPlaced h k off absent) = placed_rules P seen (sh_name h) k off absent"
| "segment_rules P places optional seen pos (SSwitch h on choice window) = switch_rules P seen (sh_name h) on choice window"
| "segment_rules P places optional seen pos (SOpt when f) = opt_rules P seen when f"
| "segment_rules P places optional seen pos (SChecksum h repr algorithm over) =
     bind_res (check_value P (sh_name h) repr algorithm) (\<lambda>_.
     bind_res (check_coverage places optional (sh_name h) over) (\<lambda>_. Inr ([], None)))"

definition named :: "segment \<Rightarrow> string" where
  "named seg = (case seg_name seg of Some n \<Rightarrow> n | None \<Rightarrow> ''?'')"

definition walk_segment :: "grammar \<Rightarrow> string list \<Rightarrow> string list \<Rightarrow> walk \<Rightarrow> segment \<Rightarrow> invalid + walk" where
  "walk_segment P places optional w seg =
     (case wk_open w of
        Some who \<Rightarrow> Inl (AfterOpenEnd (quoted who @ '' reads to the end of the body, so nothing can follow it''))
      | None \<Rightarrow>
          bind_res (case seg_name seg of Some name \<Rightarrow> ident ''field'' name | None \<Rightarrow> Inr ()) (\<lambda>_.
          bind_res (case seg_stated seg of Some s \<Rightarrow> stated_here (wk_pos w) (named seg) s | None \<Rightarrow> Inr ()) (\<lambda>_.
            if (case seg_align seg of Some a \<Rightarrow> a < 2 | None \<Rightarrow> False)
            then Inl (InvalidField (named seg) ''the alignment pads nothing'')
            else bind_res (segment_rules P places optional (wk_seen w) (wk_pos w) seg) (\<lambda>(ks, open_ended).
              Inr \<lparr>wk_seen = wk_seen w @ ks, wk_open = open_ended, wk_pos = advance (wk_pos w) (seg_fixed_bits seg)\<rparr>))))"

fun walk_segments :: "grammar \<Rightarrow> string list \<Rightarrow> string list \<Rightarrow> walk \<Rightarrow> segment list \<Rightarrow> invalid + walk" where
  "walk_segments P places optional w [] = Inr w"
| "walk_segments P places optional w (seg # segs) =
     bind_res (walk_segment P places optional w seg) (\<lambda>w'. walk_segments P places optional w' segs)"

definition validate_segments :: "grammar \<Rightarrow> segment list \<Rightarrow> known list \<Rightarrow> invalid + unit" where
  "validate_segments P segs seen =
     bind_res (walk_segments P (concat (map seg_places segs)) (List.map_filter placed_optionally segs)
         \<lparr>wk_seen = seen, wk_open = None, wk_pos = Some 0\<rparr> segs) (\<lambda>_.
     stampable segs)"

section \<open>Bit-addressed messages\<close>

record bit_seen =
  bs_name :: string
  bs_kind :: kind
  bs_optional :: bool

definition lookup_bit :: "bit_seen list \<Rightarrow> string \<Rightarrow> bit_seen option" where
  "lookup_bit seen flag = find (\<lambda>k. bs_name k = flag) seen"

definition bit_field :: "grammar \<Rightarrow> field \<Rightarrow> bool \<Rightarrow> invalid + unit" where
  "bit_field P f alone =
     bind_res (field_names P f) (\<lambda>_.
       if alone \<and> (case f_kind f of KVar _ \<Rightarrow> True | _ \<Rightarrow> False) then Inr ()
       else bind_res (case f_kind f of
                        KScalar s \<Rightarrow> if s = ScByteBool then Inl (InvalidField (f_name f) ''a whole-byte `bool` in a bit-addressed message'')
                                       else Inr (scalar_bits s)
                      | KCodec _ bits \<Rightarrow> Inr bits
                      | KVar _ \<Rightarrow> Inl (InvalidField (f_name f) ''a variable-length value in a block'')
                      | _ \<Rightarrow> Inl (InvalidField (f_name f) ''no bit width'')) (\<lambda>bits.
              if bits = 0 then Inl (InvalidField (f_name f) ''a field of 0 bits'')
              else if bits > 64 then Inl (InvalidField (f_name f) ''a bit field holds at most 64 bits'')
              else Inr ()))"

definition bit_flag :: "bit_seen list \<Rightarrow> string \<Rightarrow> string \<Rightarrow> invalid + unit" where
  "bit_flag seen field flag =
     (case lookup_bit seen flag of
        None \<Rightarrow> Inl (InvalidField field ''the flag is not read before the field'')
      | Some k \<Rightarrow>
          if bs_optional k then Inl (InvalidField field ''the flag is itself sometimes absent'')
          else if kind_bits (bs_kind k) = None then Inl (InvalidField field ''the flag reads its width off the wire'')
          else Inr ())"

definition bit_mask :: "bit_seen list \<Rightarrow> string \<Rightarrow> string \<Rightarrow> u64 \<Rightarrow> invalid + unit" where
  "bit_mask seen field flag m =
     (if m = 0 then Inl (InvalidField field ''the mask tests no bits'')
      else case lookup_bit seen flag of
        None \<Rightarrow> Inr ()
      | Some k \<Rightarrow>
          (case kind_bits (bs_kind k) of
             None \<Rightarrow> Inr ()
           | Some bits \<Rightarrow>
               if \<not> is_integer_kind (bs_kind k) then Inl (InvalidField field ''a mask tests the bits of an integer'')
               else if bits < 64 \<and> drop_bit bits m \<noteq> 0 then Inl (InvalidField field ''the mask reaches past the flag'')
               else Inr ()))"

definition bit_alone :: "(string \<times> u64 \<times> string) list \<Rightarrow> string \<Rightarrow> string \<Rightarrow> u64 \<Rightarrow> invalid + unit" where
  "bit_alone governed field flag m =
     (if list_ex (\<lambda>(f, taken, _). f = flag \<and> taken AND m \<noteq> 0) governed
      then Inl (InvalidField field ''the presence bit is already used'') else Inr ())"

definition bit_bool :: "bit_seen list \<Rightarrow> string \<Rightarrow> string \<Rightarrow> invalid + unit" where
  "bit_bool seen field flag =
     (case lookup_bit seen flag of
        None \<Rightarrow> Inr ()
      | Some k \<Rightarrow> if bs_kind k \<noteq> KScalar ScBool then Inl (InvalidField field ''a bare test reads a `bool`'') else Inr ())"

record bit_walk =
  bw_seen :: "bit_seen list"
  bw_governed :: "(string \<times> u64 \<times> string) list"

definition bit_seen_of :: "bool \<Rightarrow> field \<Rightarrow> bit_seen" where
  "bit_seen_of optional f = \<lparr>bs_name = f_name f, bs_kind = f_kind f, bs_optional = optional\<rparr>"

fun bit_segment :: "grammar \<Rightarrow> bit_walk \<Rightarrow> segment \<Rightarrow> invalid + bit_walk" where
  "bit_segment P w (SBlock fs) =
     bind_res (each (\<lambda>f. bit_field P f False) fs) (\<lambda>_. Inr (w\<lparr>bw_seen := bw_seen w @ map (bit_seen_of False) fs\<rparr>))"
| "bit_segment P w (SOpt when f) =
     bind_res (bit_field P f True) (\<lambda>_.
     bind_res (if when = OnBit then Inr (bw_governed w)
               else case presence_tests when of
                 Some (flag, m, _) \<Rightarrow>
                   bind_res (bit_flag (bw_seen w) (f_name f) flag) (\<lambda>_.
                   bind_res (if reads_flag when then bit_bool (bw_seen w) (f_name f) flag
                             else bit_mask (bw_seen w) (f_name f) flag m) (\<lambda>_.
                   bind_res (bit_alone (bw_governed w) (f_name f) flag m) (\<lambda>_.
                     Inr (bw_governed w @ [(flag, m, f_name f)]))))
               | None \<Rightarrow> Inl (InvalidField (f_name f) ''a bit-addressed message has no trailing bytes to test'')) (\<lambda>governed.
       Inr \<lparr>bw_seen = bw_seen w @ [bit_seen_of True f], bw_governed = governed\<rparr>))"
| "bit_segment P w (SValue h (KVar ty)) =
     Inr (w\<lparr>bw_seen := bw_seen w @ [\<lparr>bs_name = sh_name h, bs_kind = KVar ty, bs_optional = False\<rparr>]\<rparr>)"
| "bit_segment P w seg = Inl (InvalidField (named seg) ''cannot appear in a bit-addressed message'')"

fun bit_segments :: "grammar \<Rightarrow> bit_walk \<Rightarrow> segment list \<Rightarrow> invalid + bit_walk" where
  "bit_segments P w [] = Inr w"
| "bit_segments P w (seg # segs) = bind_res (bit_segment P w seg) (\<lambda>w'. bit_segments P w' segs)"

definition validate_bits :: "grammar \<Rightarrow> message_item \<Rightarrow> invalid + unit" where
  "validate_bits P m =
     (if mi_endian m = Be then Inl (InvalidOther (''message '' @ quoted (mi_name m) @ '': a bit-addressed message has no byte order''))
      else if list_all (\<lambda>seg. case seg of SBlock fs \<Rightarrow> fs = [] | _ \<Rightarrow> False) (mi_segments m)
      then Inl (InvalidOther (''message '' @ quoted (mi_name m) @ '': a bit-addressed message needs at least one field''))
      else map_res (\<lambda>_. ()) (bit_segments P \<lparr>bw_seen = [], bw_governed = []\<rparr> (mi_segments m)))"

section \<open>Messages and choices\<close>

definition validate_message :: "grammar \<Rightarrow> message_item \<Rightarrow> invalid + unit" where
  "validate_message P m =
     bind_res (ident ''message'' (mi_name m)) (\<lambda>_.
     bind_res (case mi_lifetime m of
                 Some l \<Rightarrow>
                   bind_res (ident ''lifetime'' l) (\<lambda>_.
                     if l = ''static'' \<or> l = ''_''
                     then Inl (InvalidOther (''message '' @ quoted (mi_name m) @ '': the lifetime cannot name the input''))
                     else if mi_needs m \<noteq> [] \<or> mi_bits m \<noteq> None
                     then Inl (InvalidOther (''message '' @ quoted (mi_name m) @ '': a message that borrows is byte-addressed and takes no parameters''))
                     else Inr ())
               | None \<Rightarrow> Inr ()) (\<lambda>_.
     bind_res (borrowed (mi_segments m) (mi_lifetime m \<noteq> None)) (\<lambda>_.
     bind_res (needs_rule m) (\<lambda>seen.
       if mi_bits m \<noteq> None then validate_bits P m
       else validate_segments P (mi_segments m) seen))))"

fun arm_rules :: "grammar \<Rightarrow> nat list \<Rightarrow> arm list \<Rightarrow> invalid + unit" where
  "arm_rules P values [] = Inr ()"
| "arm_rules P values (a # arms) =
     bind_res (ident ''arm'' (am_name a)) (\<lambda>_.
       if am_value a \<in> set values then Inl (DuplicateArm (am_value a))
       else bind_res (borrowed (am_body a) False) (\<lambda>_.
            bind_res (validate_segments P (am_body a) []) (\<lambda>_.
              arm_rules P (values @ [am_value a]) arms)))"

definition validate_choice :: "grammar \<Rightarrow> choice_item \<Rightarrow> invalid + unit" where
  "validate_choice P c =
     bind_res (ident ''choice'' (ci_name c)) (\<lambda>_.
     bind_res (case ci_other c of Some other \<Rightarrow> ident ''fallback arm'' other | None \<Rightarrow> Inr ()) (\<lambda>_.
     bind_res (arm_rules P [] (ci_arms c)) (\<lambda>_.
       if ci_arms c = [] \<and> ci_other c = None
       then Inl (InvalidOther (''choice '' @ quoted (ci_name c) @ '' has no arms and no fallback''))
       else Inr ())))"

section \<open>What a validated body promises\<close>

text \<open>The names a segment adds, the references it reads as numbers and as flags, and those encode
  writes a position, a length or presence bits into.\<close>

fun introduces :: "segment \<Rightarrow> known list" where
  "introduces (SBlock fs) = map (\<lambda>f. known_field (f_name f) (f_kind f)) fs"
| "introduces (SValue h k) = [known_field (sh_name h) k]"
| "introduces _ = []"

fun with_refs :: "kind \<Rightarrow> string list" where
  "with_refs (KMsg _ _ args) = args"
| "with_refs _ = []"

fun len_refs :: "len \<Rightarrow> string list" where
  "len_refs (LenField by _ _) = [nb_field by]"
| "len_refs _ = []"

fun kind_refs :: "kind \<Rightarrow> string list" where
  "kind_refs (KText len _) = len_refs len"
| "kind_refs _ = []"

fun count_refs :: "count_kind \<Rightarrow> string list" where
  "count_refs (CountField by _) = [nb_field by]"
| "count_refs (CountSquared by _) = [nb_field by]"
| "count_refs (CountStrided by _ stride) = [nb_field by, nb_field stride]"
| "count_refs (CountWindow len) = len_refs len"
| "count_refs _ = []"

fun offset_refs :: "segment \<Rightarrow> string list" where
  "offset_refs (SRepeat _ _ _ (Some field) _) = [field]"
| "offset_refs (SPlaced _ _ pos (Some (ZeroLength by _))) = [pos, by]"
| "offset_refs (SPlaced _ _ pos _) = [pos]"
| "offset_refs _ = []"

fun mask_refs :: "segment \<Rightarrow> string list" where
  "mask_refs (SOpt (OnMask flag _) _) = [flag]"
| "mask_refs (SOpt (OnMaskClear flag _) _) = [flag]"
| "mask_refs _ = []"

fun flag_refs :: "segment \<Rightarrow> string list" where
  "flag_refs (SOpt (OnFlag flag) _) = [flag]"
| "flag_refs (SOpt (OnFlagClear flag) _) = [flag]"
| "flag_refs _ = []"

fun read_refs :: "segment \<Rightarrow> string list" where
  "read_refs (SValue _ k) = kind_refs k @ with_refs k"
| "read_refs (SRepeat _ element cnt _ _) = count_refs cnt @ with_refs element"
| "read_refs (SPlaced _ k _ _) = with_refs k"
| "read_refs (SSwitch _ on _ window) =
     (case on of SwitchField field \<Rightarrow> [field] | SwitchBodyLength \<Rightarrow> [])
     @ (case window of Some len \<Rightarrow> len_refs len | None \<Rightarrow> [])"
| "read_refs (SOpt _ f) = with_refs (f_kind f)"
| "read_refs _ = []"

definition number_refs :: "segment \<Rightarrow> string list" where
  "number_refs seg = read_refs seg @ offset_refs seg @ mask_refs seg"

definition refers :: "known list \<Rightarrow> reads \<Rightarrow> string \<Rightarrow> bool" where
  "refers scope reads r \<longleftrightarrow>
     (\<exists>k \<in> set scope. kn_name k = fst (split_ref r) \<and>
        (case snd (split_ref r) of
           None \<Rightarrow> holds_for reads (kn_kind k)
         | Some inner \<Rightarrow> is_ident inner \<and> (\<exists>ty n. kn_kind k = KNested ty n)))"

lemma resolve_refers: "resolve scope r reads = Inr () \<Longrightarrow> refers scope reads r"
  by (cases "split_ref r")
    (auto simp: resolve_def refers_def lookup_known_def ident_def find_Some_iff split: option.splits if_splits kind.splits
      dest!: nth_mem)

definition writable :: "known list \<Rightarrow> string \<Rightarrow> bool" where
  "writable scope r \<longleftrightarrow> (\<forall>k \<in> set scope. kn_name k = fst (split_ref r) \<longrightarrow> \<not> kn_param k)"

lemma read_only_writable: "read_only scope r what = Inr () \<longleftrightarrow> writable scope r"
  by (auto simp: read_only_def writable_def list_ex_iff Let_def)

lemma stated_with_refers: "stated_with scope name k = Inr () \<Longrightarrow> r \<in> set (with_refs k) \<Longrightarrow> refers scope ReadsNumber r"
  by (cases k) (auto simp: stated_with_def each_Inr_iff split: if_splits dest: resolve_refers)

lemma map_res_Inr_iff: "map_res f m = Inr y \<longleftrightarrow> (\<exists>x. m = Inr x \<and> y = f x)"
  by (cases m) auto

lemmas rule_results = bind_res_Inr_iff map_res_Inr_iff

text \<open>Each rule, read off: the names it adds, whether it closes the body, and its references.\<close>

definition promises :: "known list \<Rightarrow> segment \<Rightarrow> bool" where
  "promises scope seg \<longleftrightarrow>
     (\<forall>r \<in> set (number_refs seg). refers scope ReadsNumber r)
     \<and> (\<forall>r \<in> set (flag_refs seg). refers scope ReadsFlag r)
     \<and> (\<forall>r \<in> set (offset_refs seg @ mask_refs seg @ flag_refs seg). writable scope r)"

lemma block_rules_adds: "block_rules P pos fs = Inr ks \<Longrightarrow> ks = map (\<lambda>f. known_field (f_name f) (f_kind f)) fs"
  by (induction P pos fs arbitrary: ks rule: block_rules.induct) (auto simp: rule_results split: if_splits)

lemma value_rules_promise:
  assumes "value_rules P scope (sh_name h) k = Inr (ks, open_ended)"
  shows "promises scope (SValue h k)" "ks = [known_field (sh_name h) k]" "open_ended \<noteq> None \<longleftrightarrow> fills k"
  using assms
  by (cases k; auto simp: value_rules_def rule_results promises_def number_refs_def
      dest: resolve_refers stated_with_refers split: len.splits)+

lemma count_rule_refers:
  "count_rule scope name element pos cnt = Inr open_ended \<Longrightarrow>
     (\<forall>r \<in> set (count_refs cnt). refers scope ReadsNumber r) \<and> (open_ended \<noteq> None \<longleftrightarrow> (\<exists>cap. cnt = CountFill cap))"
  by (induction scope name element pos cnt rule: count_rule.induct)
    (auto simp: rule_results dest: resolve_refers split: if_splits)

lemma repeat_rules_promise:
  assumes "repeat_rules P scope (sh_name h) element cnt pos = Inr (ks, open_ended)"
  shows "promises scope (SRepeat h element cnt pos col)" "ks = []" "open_ended \<noteq> None \<longleftrightarrow> seg_open_ended (SRepeat h element cnt pos col)"
proof -
  have c: "count_rule scope (sh_name h) element pos cnt = Inr open_ended" and w: "stated_with scope (sh_name h) element = Inr ()"
    using assms by (auto simp: repeat_rules_def rule_results)
  have off: "pos = Some f \<Longrightarrow> resolve scope f ReadsNumber = Inr () \<and> read_only scope f ''a collection offset'' = Inr ()" for f
    using assms by (auto simp: repeat_rules_def rule_results)
  show "ks = []" using assms by (auto simp: repeat_rules_def rule_results)
  show "promises scope (SRepeat h element cnt pos col)"
    using count_rule_refers [OF c] stated_with_refers [OF w] off
    by (cases pos) (auto simp: promises_def number_refs_def read_only_writable dest: resolve_refers)
  show "open_ended \<noteq> None \<longleftrightarrow> seg_open_ended (SRepeat h element cnt pos col)"
    using count_rule_refers [OF c] by (cases cnt) auto
qed

lemma placed_rules_promise:
  assumes "placed_rules P scope (sh_name h) k pos absent = Inr (ks, open_ended)"
  shows "promises scope (SPlaced h k pos absent)" "ks = []" "open_ended = None"
proof -
  have p: "resolve scope pos ReadsNumber = Inr ()" "read_only scope pos ''a record offset'' = Inr ()"
    "stated_with scope (sh_name h) k = Inr ()"
    using assms by (auto simp: placed_rules_def rule_results)
  have len: "absent = Some (ZeroLength b a) \<Longrightarrow> resolve scope b ReadsNumber = Inr () \<and> read_only scope b ''a record length'' = Inr ()" for a b
    using assms by (auto simp: placed_rules_def rule_results)
  show "ks = []" "open_ended = None"
    using assms by (auto simp: placed_rules_def rule_results split: kind.splits if_splits)
  show "promises scope (SPlaced h k pos absent)"
  proof (cases "\<exists>b a. absent = Some (ZeroLength b a)")
    case True
    then obtain b a where ba: "absent = Some (ZeroLength b a)" by blast
    then show ?thesis
      using p len [OF ba] by (auto simp: promises_def number_refs_def read_only_writable dest: resolve_refers stated_with_refers)
  next
    case False
    then have "offset_refs (SPlaced h k pos absent) = [pos]"
      by (induction "SPlaced h k pos absent" rule: offset_refs.induct) auto
    then show ?thesis
      using p by (auto simp: promises_def number_refs_def read_only_writable dest: resolve_refers stated_with_refers)
  qed
qed

lemma switch_rules_promise:
  assumes "switch_rules P scope (sh_name h) on choice window = Inr (ks, open_ended)"
  shows "promises scope (SSwitch h on choice window)" "ks = []" "open_ended = None"
  using assms
  by (cases on; auto simp: switch_rules_def rule_results promises_def number_refs_def dest: resolve_refers
      split: option.splits len.splits if_splits)+

lemma opt_rules_promise:
  assumes "opt_rules P scope when f = Inr (ks, open_ended)"
  shows "promises scope (SOpt when f)" "ks = []" "open_ended \<noteq> None \<longleftrightarrow> fills (f_kind f)"
proof -
  have w: "stated_with scope (f_name f) (f_kind f) = Inr ()" using assms by (auto simp: opt_rules_def rule_results)
  then show "promises scope (SOpt when f)"
    using assms
    by (cases "when") (auto simp: opt_rules_def rule_results promises_def number_refs_def read_only_writable Let_def
        dest: resolve_refers stated_with_refers split: if_splits)
  show "ks = []" "open_ended \<noteq> None \<longleftrightarrow> fills (f_kind f)"
    using assms
    by (auto simp: opt_rules_def rule_results split: kind.splits len.splits)
qed

lemma segment_rules_promise:
  assumes "segment_rules P places optional scope pos seg = Inr (ks, open_ended)"
  shows "promises scope seg \<and> ks = introduces seg \<and> (open_ended \<noteq> None \<longleftrightarrow> seg_open_ended seg)"
proof (cases seg)
  case (SBlock fs)
  then show ?thesis using assms by (auto simp: rule_results promises_def number_refs_def dest: block_rules_adds)
next
  case (SChecksum h repr algorithm over)
  then show ?thesis using assms by (auto simp: rule_results promises_def number_refs_def)
next
  case (SValue h k)
  then show ?thesis using assms value_rules_promise [of P scope h k ks open_ended] by simp
next
  case (SRepeat h element cnt off col)
  then show ?thesis using assms repeat_rules_promise [of P scope h element cnt off ks open_ended] by simp
next
  case (SPlaced h k off absent)
  then show ?thesis using assms placed_rules_promise [of P scope h k off absent ks open_ended] by simp
next
  case (SSwitch h on choice window)
  then show ?thesis using assms switch_rules_promise [of P scope h on choice window ks open_ended] by simp
next
  case (SOpt wh f)
  then show ?thesis using assms opt_rules_promise [of P scope wh f ks open_ended] by simp
qed

section \<open>The walk\<close>

definition scope_after :: "known list \<Rightarrow> segment list \<Rightarrow> known list" where
  "scope_after scope segs = scope @ concat (map introduces segs)"

lemma scope_after_simps [simp]:
  "scope_after scope [] = scope"
  "scope_after scope (seg # segs) = scope_after (scope @ introduces seg) segs"
  by (simp_all add: scope_after_def)

lemma advance_sum: "advance (sum_options xs) b = sum_options (xs @ [b])"
proof (induction xs rule: sum_options.induct)
  case (3 x xs)
  then show ?case
    by (cases "sum_options xs"; cases b; cases "sum_options (xs @ [b])") (auto simp: advance_def)
qed (cases b; auto simp: advance_def)+

definition stands :: "known list \<Rightarrow> segment list \<Rightarrow> walk \<Rightarrow> bool" where
  "stands scope pre w \<longleftrightarrow>
     wk_seen w = scope_after scope pre \<and> wk_pos w = sum_options (map seg_fixed_bits pre)
     \<and> (wk_open w \<noteq> None \<longleftrightarrow> pre \<noteq> [] \<and> seg_open_ended (last pre))"

lemma walk_segment_stands:
  assumes "walk_segment P places optional w seg = Inr w'" "stands scope pre w"
  shows "stands scope (pre @ [seg]) w' \<and> promises (scope_after scope pre) seg \<and> (pre = [] \<or> \<not> seg_open_ended (last pre))
    \<and> (\<forall>s. seg_stated seg = Some s \<longrightarrow> sum_options (map seg_fixed_bits pre) = Some (st_bits s))"
proof -
  from assms(1) obtain ks open_ended where
    r: "segment_rules P places optional (wk_seen w) (wk_pos w) seg = Inr (ks, open_ended)" and closed: "wk_open w = None"
    and st: "\<And>s. seg_stated seg = Some s \<Longrightarrow> stated_here (wk_pos w) (named seg) s = Inr ()"
    and w': "w' = \<lparr>wk_seen = wk_seen w @ ks, wk_open = open_ended, wk_pos = advance (wk_pos w) (seg_fixed_bits seg)\<rparr>"
    by (auto simp: walk_segment_def rule_results split: option.splits if_splits)
  have seen: "wk_seen w = scope_after scope pre" and pos: "wk_pos w = sum_options (map seg_fixed_bits pre)"
    and op: "pre = [] \<or> \<not> seg_open_ended (last pre)"
    using assms(2) closed by (auto simp: stands_def)
  have "sum_options (map seg_fixed_bits pre) = Some (st_bits s)" if "seg_stated seg = Some s" for s
    using st [OF that] by (auto simp: stated_here_def stated_check_def Let_def simp flip: pos split: option.splits if_splits sum.splits)
  then show ?thesis
    using segment_rules_promise [OF r] op w' seen pos
    by (auto simp: stands_def scope_after_def advance_sum)
qed

lemma walk_segments_stands:
  assumes "walk_segments P places optional w (pre @ seg # post) = Inr w'" "stands scope done w"
  shows "promises (scope_after scope (done @ pre)) seg \<and> (seg_open_ended seg \<longrightarrow> post = [])
    \<and> (\<forall>s. seg_stated seg = Some s \<longrightarrow> sum_options (map seg_fixed_bits (done @ pre)) = Some (st_bits s))"
  using assms
proof (induction pre arbitrary: w "done")
  case Nil
  then obtain w1 where w1: "walk_segment P places optional w seg = Inr w1" "walk_segments P places optional w1 post = Inr w'"
    by (auto simp: rule_results)
  note here = walk_segment_stands [OF w1(1) Nil.prems(2)]
  have "post = []" if "seg_open_ended seg"
  proof (cases post)
    case (Cons s ss)
    then obtain w2 where "walk_segment P places optional w1 s = Inr w2" using w1(2) by (auto simp: rule_results)
    then have False using walk_segment_stands [of P places optional w1 s w2 scope "done @ [seg]"] here that by simp
    then show ?thesis ..
  qed simp
  then show ?case using here by simp
next
  case (Cons s pre)
  then obtain w1 where w1: "walk_segment P places optional w s = Inr w1"
    "walk_segments P places optional w1 (pre @ seg # post) = Inr w'"
    by (auto simp: rule_results)
  have "stands scope (done @ [s]) w1" using walk_segment_stands [OF w1(1) Cons.prems(2)] by blast
  from Cons.IH [OF w1(2) this] show ?case by simp
qed

lemma validated_segments:
  assumes "validate_segments P (pre @ seg # post) scope = Inr ()"
  shows "promises (scope_after scope pre) seg \<and> (seg_open_ended seg \<longrightarrow> post = [])
    \<and> (\<forall>s. seg_stated seg = Some s \<longrightarrow> sum_options (map seg_fixed_bits pre) = Some (st_bits s))"
proof -
  from assms obtain places optional w where
    w: "walk_segments P places optional \<lparr>wk_seen = scope, wk_open = None, wk_pos = Some 0\<rparr> (pre @ seg # post) = Inr w"
    by (auto simp: validate_segments_def rule_results)
  have "stands scope [] \<lparr>wk_seen = scope, wk_open = None, wk_pos = Some 0\<rparr>" by (simp add: stands_def)
  from walk_segments_stands [OF w this] show ?thesis by simp
qed

text \<open>The parameters of a message, as names.\<close>

definition param_scope :: "param list \<Rightarrow> known list" where
  "param_scope ps = map (\<lambda>p. \<lparr>kn_name = pm_name p, kn_kind = KScalar (pm_repr p), kn_param = True\<rparr>) ps"

lemma param_scope_Nil [simp]: "param_scope [] = []"
  by (simp add: param_scope_def)

lemma param_rules_scope:
  "param_rules msg names seen ps = Inr scope \<Longrightarrow> scope = seen @ param_scope ps
     \<and> (\<forall>p \<in> set ps. pm_name p \<notin> set names \<and> is_integer_kind (KScalar (pm_repr p)))"
  by (induction msg names seen ps rule: param_rules.induct) (auto simp: rule_results param_scope_def split: if_splits)

definition scope_at :: "message_item \<Rightarrow> segment list \<Rightarrow> known list" where
  "scope_at m pre = scope_after (param_scope (mi_needs m)) pre"

lemma validate_message_segments:
  assumes "validate_message P m = Inr ()" "mi_bits m = None"
  shows "validate_segments P (mi_segments m) (param_scope (mi_needs m)) = Inr ()"
  using assms by (auto simp: validate_message_def needs_rule_def rule_results dest: param_rules_scope split: if_splits option.splits)

text \<open>C9: in a byte-addressed message the rules accept, every number or flag a segment reads is an
  earlier field of the right type, a field of an earlier nested layout, or a parameter; what encode
  writes back is no parameter; a segment without an end is the last; and a stated position is where
  the segments before it put the segment.\<close>

theorem validated_message_in_order:
  assumes "validate_message P m = Inr ()" "mi_bits m = None" "mi_segments m = pre @ seg # post"
  shows "(\<forall>r \<in> set (number_refs seg). refers (scope_at m pre) ReadsNumber r)
    \<and> (\<forall>r \<in> set (flag_refs seg). refers (scope_at m pre) ReadsFlag r)
    \<and> (\<forall>r \<in> set (offset_refs seg @ mask_refs seg @ flag_refs seg). writable (scope_at m pre) r)
    \<and> (seg_open_ended seg \<longrightarrow> post = [])
    \<and> (\<forall>s. seg_stated seg = Some s \<longrightarrow> sum_options (map seg_fixed_bits pre) = Some (st_bits s))"
  using validated_segments [of P pre seg post "param_scope (mi_needs m)"] validate_message_segments [OF assms(1,2)] assms(3)
  by (simp add: promises_def scope_at_def)

text \<open>A telegram with a count, a flag word, and text to the end.\<close>

definition telegram :: message_item where
  "telegram = message_new ''Telegram''
     [SBlock [field_new ''n'' (KScalar (ScU 8)), field_new ''flags'' (KScalar (ScU 8))],
      seg_repeat ''points'' (KScalar (ScU 16)) (CountField (num_by_field ''n'') None) None ColVec,
      SOpt (OnMask ''flags'' 1) (field_new ''stamp'' (KScalar (ScU 32))),
      seg_value ''note'' (KText LenFill None)]"

lemmas message_defs =
  validate_message_def validate_segments_def walk_segment_def needs_rule_def declared_def borrowed_def ident_def is_ident_def
  alphabetic_def alphanumeric_def field_names_def int_scalar_def WIDEST_FIELD_def value_rules_def repeat_rules_def opt_rules_def
  variable_element_def stated_with_def resolve_def read_only_def lookup_known_def known_field_def advance_def named_def
  List.map_filter_def stampable_def checks_of_def Let_def

lemma telegram_valid: "validate_message lexical telegram = Inr ()"
  by (simp add: telegram_def message_new_def field_new_def num_by_field_def seg_repeat_def seg_value_def head_of_def message_defs)

lemma validated_message_in_order_witness:
  "refers (scope_at telegram (take 2 (mi_segments telegram))) ReadsNumber ''flags''"
proof -
  have "mi_bits telegram = None" by (simp add: telegram_def message_new_def)
  moreover have "mi_segments telegram = take 2 (mi_segments telegram)
      @ SOpt (OnMask ''flags'' 1) (field_new ''stamp'' (KScalar (ScU 32))) # [seg_value ''note'' (KText LenFill None)]"
    by (simp add: telegram_def message_new_def)
  ultimately show ?thesis
    using validated_message_in_order [OF telegram_valid] by (simp add: number_refs_def)
qed

text \<open>Two optional fields may share a presence bit in a byte-addressed message; in a bit-addressed one
  the same declaration is refused.\<close>

definition shared_bit :: "bit_order option \<Rightarrow> message_item" where
  "shared_bit order = (message_new ''M''
     [SBlock [field_new ''flags'' (KScalar (ScU 8))],
      SOpt (OnMask ''flags'' 1) (field_new ''a'' (KScalar (ScU 8))),
      SOpt (OnMask ''flags'' 1) (field_new ''b'' (KScalar (ScU 8)))])\<lparr>mi_bits := order\<rparr>"

lemmas bit_rule_defs =
  validate_bits_def bit_field_def bit_seen_of_def bit_flag_def bit_mask_def bit_alone_def bit_bool_def lookup_bit_def

lemma shared_presence_bit_accepted:
  "validate_message lexical (shared_bit None) = Inr ()"
  "validate_message lexical (shared_bit (Some Lsb)) = Inl (InvalidField ''b'' ''the presence bit is already used'')"
  by (simp_all add: shared_bit_def message_new_def field_new_def message_defs bit_rule_defs)

text \<open>The rules for a bit-addressed message look at neither the name nor the type path of a
  variable-length value, which the generator then parses and expects to be well formed.\<close>

lemma bit_value_path_unchecked:
  "validate_message lexical ((message_new ''M'' [seg_value ''1st'' (KVar ''not a path!'')])\<lparr>mi_bits := Some Lsb\<rparr>) = Inr ()"
  "kind_paths lexical ''1st'' (KVar ''not a path!'') = Inl (InvalidField ''1st'' ''the `VarCodec` type is not a Rust type path'')"
  "ident ''field'' ''1st'' = Inl (InvalidOther ''field `1st` is not a Rust identifier'')"
  by (simp_all add: message_new_def seg_value_def head_of_def message_defs bit_rule_defs type_path_def lexical_def
      lexical_path_def trim_def white_space_def)

end
