(* ===== verification/BitMessages.thy ===== *)
theory BitMessages
  imports MessageRules ExpGolomb Catalogue Segments
begin

text \<open>
  The code generated for a bit-addressed message (\<open>layline-codegen/src/walk/message/bits.rs\<close>): what
  the emitted statements compute, one definition per fragment the generator emits. The message is
  given by the list \<open>bit_declared\<close> of its fields, each with when it is present; a value of the
  struct is the list of its fields' values in that order, \<open>None\<close> for an absent optional field.

  The types a field names by path are the user's: their codecs are the record \<open>bit_types\<close>, an argument
  of encode and decode, looked up by the field's kind. Encode answers \<open>None\<close> where an assertion of
  the emitted code panics. What the types promise is the locale \<open>bit_message_types\<close>.
\<close>

section \<open>Fields and when they are present\<close>

datatype bit_presence =
    Always
  | PresentBit
  | Masked string u64 bool \<comment> \<open>\<open>field\<close>, \<open>mask\<close>, \<open>set\<close>\<close>

type_synonym bit_decl = "(field \<times> bit_presence) list"

fun bit_declared_seg :: "segment \<Rightarrow> bit_decl option" where
  "bit_declared_seg (SBlock fs) = Some (map (\<lambda>f. (f, Always)) fs)"
| "bit_declared_seg (SOpt when f) =
     (if when = OnBit then Some [(f, PresentBit)]
      else case presence_tests when of
        Some (flag, m, s) \<Rightarrow> Some [(f, Masked flag m s)]
      | None \<Rightarrow> None)"
| "bit_declared_seg (SValue h (KVar ty)) = Some [((field_new (sh_name h) (KVar ty))\<lparr>f_doc := sh_doc h\<rparr>, Always)]"
| "bit_declared_seg _ = None"

text \<open>\<open>None\<close> where the generator refuses the segment.\<close>

definition bit_declared :: "message_item \<Rightarrow> bit_decl option" where
  "bit_declared m = map_option concat (those (map bit_declared_seg (mi_segments m)))"

type_synonym governed = "(u64 \<times> string \<times> bool) list"

fun add_governed :: "string \<Rightarrow> u64 \<times> string \<times> bool \<Rightarrow> (string \<times> governed) list \<Rightarrow> (string \<times> governed) list" where
  "add_governed flag b [] = [(flag, [b])]"
| "add_governed flag b ((f, bs) # flags) =
     (if f = flag then (f, bs @ [b]) # flags else (f, bs) # add_governed flag b flags)"

fun bit_flags_from :: "(string \<times> governed) list \<Rightarrow> bit_decl \<Rightarrow> (string \<times> governed) list" where
  "bit_flags_from flags [] = flags"
| "bit_flags_from flags ((f, Masked flag m s) # decl) = bit_flags_from (add_governed flag (m, f_name f, s) flags) decl"
| "bit_flags_from flags (_ # decl) = bit_flags_from flags decl"

definition bit_flags :: "bit_decl \<Rightarrow> (string \<times> governed) list" where
  "bit_flags decl = bit_flags_from [] decl"

section \<open>Values and their numbers\<close>

datatype ('c, 'v) bit_value =
    BvUint u64
  | BvInt i64
  | BvF32 u32
  | BvF64 u64
  | BvBool bool
  | BvCodec 'c
  | BvVar 'v

record ('c, 'v, 'b) bit_types =
  bt_codec :: "kind \<Rightarrow> 'c field_codec"
  bt_var :: "string \<Rightarrow> ('v, 'b) bit_codec"

fun bit_decode :: "('c, 'v, 'b) bit_types \<Rightarrow> kind \<Rightarrow> u64 \<Rightarrow> ('c, 'v) bit_value" where
  "bit_decode E (KScalar (ScU n)) raw = BvUint (if n = 64 then raw else take_bit (primitive_bits n) raw)"
| "bit_decode E (KScalar (ScI n)) raw =
     BvInt (if n = 64 then raw
            else signed_take_bit (primitive_bits n - 1) (signed_drop_bit (64 - n) (push_bit (64 - n) raw)))"
| "bit_decode E (KScalar ScF32) raw = BvF32 (ucast raw)"
| "bit_decode E (KScalar ScF64) raw = BvF64 raw"
| "bit_decode E (KScalar ScBool) raw = BvBool (from_raw bool_codec raw)"
| "bit_decode E (KScalar ScByteBool) raw = BvBool (from_raw bool_codec raw)"
| "bit_decode E k raw = BvCodec (from_raw (bt_codec E k) raw)"

text \<open>The value's constructor says which of the emitted conversions its type takes.\<close>

fun bit_encode :: "('c, 'v, 'b) bit_types \<Rightarrow> kind \<Rightarrow> ('c, 'v) bit_value \<Rightarrow> u64" where
  "bit_encode E k (BvUint v) = v"
| "bit_encode E k (BvInt v) = v"
| "bit_encode E k (BvF32 v) = ucast v"
| "bit_encode E k (BvF64 v) = v"
| "bit_encode E k (BvBool b) = to_raw bool_codec b"
| "bit_encode E k (BvCodec c) = to_raw (bt_codec E k) c"
| "bit_encode E k (BvVar v) = 0"

definition scalar_fits :: "scalar \<Rightarrow> i64 \<Rightarrow> bool" where
  "scalar_fits s v =
     (case s of
        ScU n \<Rightarrow>
          if primitive_bits n = 8 then fits_in_field (wi_unsigned :: u8 wire_int) v n
          else if primitive_bits n = 16 then fits_in_field (wi_unsigned :: u16 wire_int) v n
          else if primitive_bits n = 32 then fits_in_field (wi_unsigned :: u32 wire_int) v n
          else fits_in_field wi_u64 v n
      | ScI n \<Rightarrow>
          if primitive_bits n = 8 then fits_in_field (wi_signed :: u8 wire_int) v n
          else if primitive_bits n = 16 then fits_in_field (wi_signed :: u16 wire_int) v n
          else if primitive_bits n = 32 then fits_in_field (wi_signed :: u32 wire_int) v n
          else fits_in_field (wi_signed :: i64 wire_int) v n
      | _ \<Rightarrow> True)"

definition bit_fits :: "('c, 'v, 'b) bit_types \<Rightarrow> kind \<Rightarrow> ('c, 'v) bit_value \<Rightarrow> bool" where
  "bit_fits E k v =
     (let bits = kind_width k
      in case k of
           KScalar ScBool \<Rightarrow> drop_bit bits (bit_encode E k v) = 0
         | KCodec _ _ \<Rightarrow> bits < 64 \<longrightarrow> drop_bit bits (bit_encode E k v) = 0
         | KScalar (ScU n) \<Rightarrow> n < 64 \<longrightarrow> scalar_fits (ScU n) (bit_encode E k v)
         | KScalar (ScI n) \<Rightarrow> n < 64 \<longrightarrow> scalar_fits (ScI n) (bit_encode E k v)
         | _ \<Rightarrow> True)"

section \<open>Encode\<close>

type_synonym 'b wrote = "((overflow + unit) \<times> 'b bit_writer) option"

definition bit_write :: "('c, 'v, 'b) bit_types \<Rightarrow> 'b buffer_ops \<Rightarrow> bool \<Rightarrow> kind \<Rightarrow> ('c, 'v) bit_value \<Rightarrow> 'b bit_writer \<Rightarrow> 'b wrote" where
  "bit_write E B msb k v w =
     (case (k, v) of
        (KVar ty, BvVar x) \<Rightarrow> Some (bc_encode (bt_var E ty) B x w)
      | _ \<Rightarrow> if bit_fits E k v then Some (write_bits B msb w (bit_encode E k v) (kind_width k)) else None)"

text \<open>The statements for one field, \<open>?\<close> included.\<close>

definition then_write :: "'b wrote \<Rightarrow> ('b bit_writer \<Rightarrow> ((overflow + 'a) \<times> 'b bit_writer) option)
    \<Rightarrow> ((overflow + 'a) \<times> 'b bit_writer) option" where
  "then_write m f =
     (case m of None \<Rightarrow> None | Some (Inl e, w) \<Rightarrow> Some (Inl e, w) | Some (Inr _, w) \<Rightarrow> f w)"

fun bit_write_field ::
    "('c, 'v, 'b) bit_types \<Rightarrow> 'b buffer_ops \<Rightarrow> bool \<Rightarrow> field \<times> bit_presence \<Rightarrow> ('c, 'v) bit_value option
       \<Rightarrow> 'b bit_writer \<Rightarrow> 'b wrote" where
  "bit_write_field E B msb (f, Always) held w = bit_write E B msb (f_kind f) (the held) w"
| "bit_write_field E B msb (f, PresentBit) held w =
     (case held of
        Some v \<Rightarrow> then_write (Some (write_bit B msb w True)) (bit_write E B msb (f_kind f) v)
      | None \<Rightarrow> Some (write_bit B msb w False))"
| "bit_write_field E B msb (f, Masked _ _ _) held w =
     (case held of Some v \<Rightarrow> bit_write E B msb (f_kind f) v w | None \<Rightarrow> Some (Inr (), w))"

text \<open>\<open>marks\<close> are the locals that hold where each flag field was written.\<close>

fun bit_writes ::
    "('c, 'v, 'b) bit_types \<Rightarrow> 'b buffer_ops \<Rightarrow> bool \<Rightarrow> string list \<Rightarrow> bit_decl \<Rightarrow> ('c, 'v) bit_value option list
       \<Rightarrow> (string \<times> nat) list \<Rightarrow> 'b bit_writer \<Rightarrow> ((overflow + (string \<times> nat) list) \<times> 'b bit_writer) option" where
  "bit_writes E B msb flags (d # decl) (held # vals) marks w =
     then_write (bit_write_field E B msb d held w)
       (bit_writes E B msb flags decl vals
          (if snd d = Always \<and> f_name (fst d) \<in> set flags
           then marks @ [(f_name (fst d), writer_position B w)] else marks))"
| "bit_writes E B msb flags _ _ marks w = Some (Inr marks, w)"

definition value_named :: "bit_decl \<Rightarrow> ('c, 'v) bit_value option list \<Rightarrow> string \<Rightarrow> ('c, 'v) bit_value option" where
  "value_named decl vals name = Option.bind (map_of (zip (map (f_name \<circ> fst) decl) vals) name) (\<lambda>v. v)"

definition kind_named :: "bit_decl \<Rightarrow> string \<Rightarrow> kind" where
  "kind_named decl name = f_kind (fst (the (find (\<lambda>d. f_name (fst d) = name) decl)))"

definition governed_mask :: "governed \<Rightarrow> u64" where
  "governed_mask gs = foldl (\<lambda>all (m, _, _). all OR m) 0 gs"

definition marked_bits :: "(string \<Rightarrow> bool) \<Rightarrow> governed \<Rightarrow> u64 \<Rightarrow> u64" where
  "marked_bits is_some gs held =
     foldl (\<lambda>raw (m, name, s). raw OR (if is_some name = s then m else 0)) (held AND NOT (governed_mask gs)) gs"

definition flag_number ::
    "('c, 'v, 'b) bit_types \<Rightarrow> bit_decl \<Rightarrow> ('c, 'v) bit_value option list \<Rightarrow> string \<times> governed \<Rightarrow> u64" where
  "flag_number E decl vals fg =
     (case fg of (flag, gs) \<Rightarrow>
        marked_bits (\<lambda>name. value_named decl vals name \<noteq> None) gs
          (bit_encode E (kind_named decl flag) (the (value_named decl vals flag))))"

definition bit_patches ::
    "('c, 'v, 'b) bit_types \<Rightarrow> 'b buffer_ops \<Rightarrow> bool \<Rightarrow> bit_decl \<Rightarrow> ('c, 'v) bit_value option list \<Rightarrow> (string \<times> nat) list
       \<Rightarrow> (string \<times> governed) list \<Rightarrow> 'b bit_writer \<Rightarrow> 'b bit_writer" where
  "bit_patches E B msb decl vals marks flags w =
     foldl (\<lambda>w fg. patch B msb w (the (map_of marks (fst fg))) (kind_width (kind_named decl (fst fg))) (flag_number E decl vals fg))
       w flags"

definition bit_message_encode ::
    "('c, 'v, 'b) bit_types \<Rightarrow> 'b buffer_ops \<Rightarrow> bool \<Rightarrow> bit_decl \<Rightarrow> ('c, 'v) bit_value option list \<Rightarrow> 'b
       \<Rightarrow> ((overflow + unit) \<times> 'b) option" where
  "bit_message_encode E B msb decl vals out =
     (case bit_writes E B msb (map fst (bit_flags decl)) decl vals [] (writer_new B out) of
        None \<Rightarrow> None
      | Some (Inl e, w) \<Rightarrow> Some (Inl e, out_buf w)
      | Some (Inr marks, w) \<Rightarrow> Some (Inr (), out_buf (bit_patches E B msb decl vals marks (bit_flags decl) w)))"

section \<open>Decode\<close>

fun bit_read :: "('c, 'v, 'b) bit_types \<Rightarrow> bool \<Rightarrow> string \<Rightarrow> kind \<Rightarrow> bit_reader \<Rightarrow> parse_error + (('c, 'v) bit_value \<times> bit_reader)" where
  "bit_read E msb name (KVar ty) r =
     bind_res (bc_decode (bt_var E ty) (rd_bytes r) (reader_position r)) (\<lambda>(v, n).
       if n = 0 then Inl (Malformed name (reader_position r div 8))
       else case skip r n of (Inl e, _) \<Rightarrow> Inl e | (Inr _, r') \<Rightarrow> Inr (BvVar v, r'))"
| "bit_read E msb name k r =
     (case read msb r (kind_width k) of (Inl e, _) \<Rightarrow> Inl e | (Inr raw, r') \<Rightarrow> Inr (bit_decode E k raw, r'))"

definition bit_flag_test :: "('c, 'v, 'b) bit_types \<Rightarrow> bit_decl \<Rightarrow> ('c, 'v) bit_value \<Rightarrow> string \<Rightarrow> u64 \<Rightarrow> bool \<Rightarrow> bool" where
  "bit_flag_test E decl v flag m s =
     (let k = kind_named decl flag
      in if k = KScalar ScBool \<and> m = 1 then (if s then v = BvBool True else v \<noteq> BvBool True)
         else if s then bit_encode E k v AND m \<noteq> 0 else bit_encode E k v AND m = 0)"

text \<open>\<open>got\<close> are the locals bound so far.\<close>

fun bit_read_field ::
    "('c, 'v, 'b) bit_types \<Rightarrow> bool \<Rightarrow> bit_decl \<Rightarrow> (string \<times> ('c, 'v) bit_value option) list \<Rightarrow> field \<times> bit_presence
       \<Rightarrow> bit_reader \<Rightarrow> parse_error + (('c, 'v) bit_value option \<times> bit_reader)" where
  "bit_read_field E msb decl got (f, Always) r =
     map_res (\<lambda>(v, r'). (Some v, r')) (bit_read E msb (f_name f) (f_kind f) r)"
| "bit_read_field E msb decl got (f, PresentBit) r =
     (case read_bit msb r of
        (Inl e, _) \<Rightarrow> Inl e
      | (Inr present, r') \<Rightarrow>
          if present then map_res (\<lambda>(v, r''). (Some v, r'')) (bit_read E msb (f_name f) (f_kind f) r') else Inr (None, r'))"
| "bit_read_field E msb decl got (f, Masked flag m s) r =
     (if bit_flag_test E decl (the (the (map_of got flag))) flag m s
      then map_res (\<lambda>(v, r'). (Some v, r')) (bit_read E msb (f_name f) (f_kind f) r) else Inr (None, r))"

fun bit_reads ::
    "('c, 'v, 'b) bit_types \<Rightarrow> bool \<Rightarrow> bit_decl \<Rightarrow> (string \<times> ('c, 'v) bit_value option) list \<Rightarrow> bit_decl
       \<Rightarrow> bit_reader \<Rightarrow> parse_error + (('c, 'v) bit_value option list \<times> bit_reader)" where
  "bit_reads E msb decl got [] r = Inr ([], r)"
| "bit_reads E msb decl got (d # todo) r =
     bind_res (bit_read_field E msb decl got d r) (\<lambda>(v, r').
     map_res (\<lambda>(vs, r''). (v # vs, r'')) (bit_reads E msb decl (got @ [(f_name (fst d), v)]) todo r'))"

definition bit_message_decode ::
    "('c, 'v, 'b) bit_types \<Rightarrow> bool \<Rightarrow> bit_decl \<Rightarrow> u8 list \<Rightarrow> nat \<Rightarrow> parse_error + (('c, 'v) bit_value option list \<times> nat)" where
  "bit_message_decode E msb decl body depth =
     (if depth > MAX_NESTING_DEPTH then Inl (TooDeep MAX_NESTING_DEPTH)
      else map_res (\<lambda>(vs, r). (vs, bytes_consumed r)) (bit_reads E msb decl [] decl (reader_new body)))"

section \<open>One value\<close>

definition value_ok :: "(kind \<Rightarrow> 'c \<Rightarrow> bool) \<Rightarrow> kind \<Rightarrow> ('c, 'v) bit_value \<Rightarrow> bool" where
  "value_ok valid k v =
     (case (k, v) of
        (KScalar (ScU n), BvUint u) \<Rightarrow> u_valid n u
      | (KScalar (ScI n), BvInt i) \<Rightarrow> i_valid n i
      | (KScalar ScF32, BvF32 _) \<Rightarrow> True
      | (KScalar ScF64, BvF64 _) \<Rightarrow> True
      | (KScalar ScBool, BvBool _) \<Rightarrow> True
      | (KCodec _ _, BvCodec c) \<Rightarrow> valid k c
      | (KVar _, BvVar _) \<Rightarrow> True
      | _ \<Rightarrow> False)"

text \<open>The kinds the rules allow, and what the types of a message promise about them.\<close>

fun fixed_bit_kind :: "kind \<Rightarrow> bool" where
  "fixed_bit_kind (KScalar s) = (s \<noteq> ScByteBool \<and> 1 \<le> scalar_bits s \<and> scalar_bits s \<le> 64)"
| "fixed_bit_kind (KCodec ty n) = (1 \<le> n \<and> n \<le> 64)"
| "fixed_bit_kind _ = False"

definition bit_kind :: "kind \<Rightarrow> bool" where
  "bit_kind k \<longleftrightarrow> fixed_bit_kind k \<or> (\<exists>ty. k = KVar ty)"

definition codec_for :: "(kind \<Rightarrow> 'c \<Rightarrow> bool) \<Rightarrow> ('c, 'v, 'b) bit_types \<Rightarrow> kind \<Rightarrow> bool" where
  "codec_for valid E k \<longleftrightarrow>
     (\<forall>ty n. k = KCodec ty n \<longrightarrow> exact_codec (bt_codec E k) (valid k) \<and> BITS (bt_codec E k) = Some n)"

lemma bit_read_fixed:
  "fixed_bit_kind k \<Longrightarrow> bit_read E msb name k r =
     (case read msb r (kind_width k) of (Inl e, _) \<Rightarrow> Inl e | (Inr raw, r') \<Rightarrow> Inr (bit_decode E k raw, r'))"
  by (rule fixed_bit_kind.cases [of k]) (simp_all only: bit_read.simps fixed_bit_kind.simps)

lemma scalar_fits_U: "1 \<le> n \<Longrightarrow> n < 64 \<Longrightarrow> scalar_fits (ScU n) v \<longleftrightarrow> u_valid n v"
  by (auto simp: scalar_fits_def primitive_bits_def fits_unsigned_valid fits_u64_valid split: if_splits)

lemma scalar_fits_I: "1 \<le> n \<Longrightarrow> n < 64 \<Longrightarrow> scalar_fits (ScI n) v \<longleftrightarrow> i_valid n v"
  by (auto simp: scalar_fits_def primitive_bits_def fits_signed_valid split: if_splits)

lemma drop_bit_0_iff: "drop_bit n v = 0 \<longleftrightarrow> take_bit n v = v" for v :: u64
proof -
  have "drop_bit n v = 0 \<longleftrightarrow> (\<forall>k. bit v k \<longrightarrow> k < n)"
  proof
    assume z: "drop_bit n v = 0"
    have "\<not> bit v k" if "n \<le> k" for k
      using arg_cong [OF z, of "\<lambda>w. bit w (k - n)"] that by (simp add: bit_drop_bit_eq)
    then show "\<forall>k. bit v k \<longrightarrow> k < n" using not_le by blast
  next
    assume "\<forall>k. bit v k \<longrightarrow> k < n"
    then show "drop_bit n v = 0" by (intro bit_word_eqI) (auto simp: bit_drop_bit_eq)
  qed
  also have "\<dots> \<longleftrightarrow> take_bit n v = v"
    by (metis bit_take_bit_iff bit_word_eqI)
  finally show ?thesis .
qed

lemma and_within: "take_bit n m = m \<Longrightarrow> x AND m = take_bit n x AND m" for m x :: u64
proof -
  assume m: "take_bit n m = m"
  have "bit m k \<Longrightarrow> k < n" for k using arg_cong [OF m, of "\<lambda>w. bit w k"] by (simp add: bit_take_bit_iff)
  then show ?thesis by (intro bit_word_eqI) (auto simp: bit_and_iff bit_take_bit_iff)
qed

lemma decode_signed:
  assumes "1 \<le> n" "n < 64" "i_valid n v"
  shows "signed_take_bit (primitive_bits n - 1) (signed_drop_bit (64 - n) (push_bit (64 - n) (take_bit n v))) = v"
proof -
  have p: "n \<le> primitive_bits n" "primitive_bits n \<le> 64" using assms(2) by (auto simp: primitive_bits_def)
  have v: "sign_extend v n = v" using assms by (simp add: i_valid_iff)
  have "signed_drop_bit (64 - n) (push_bit (64 - n) (take_bit n v)) = v"
    using sign_extend_take_bit [of n v] assms(1,2) v by (simp add: sign_extend_def Let_def)
  moreover have "signed_take_bit (primitive_bits n - 1) v = v"
  proof (rule bit_word_eqI)
    fix k assume k: "k < LENGTH(64)"
    have b: "bit v j = bit v (n - 1)" if "n \<le> j" "j < 64" for j
      using bit_sign_extend [of n j v] assms(1,2) that by (simp add: v)
    consider "k < primitive_bits n - 1" | "primitive_bits n - 1 \<le> k" by linarith
    then show "bit (signed_take_bit (primitive_bits n - 1) v) k = bit v k"
    proof cases
      case 1
      then show ?thesis using k by (simp add: bit_signed_take_bit_iff min_absorb1)
    next
      case 2
      have "bit v (primitive_bits n - 1) = bit v k"
      proof (cases "k < n")
        case True
        then have "k = primitive_bits n - 1" using 2 p by linarith
        then show ?thesis by simp
      next
        case False
        then show ?thesis using b [of k] b [of "primitive_bits n - 1"] k p 2 assms(1)
          by (cases "n = primitive_bits n") auto
      qed
      then show ?thesis using 2 k by (simp add: bit_signed_take_bit_iff min_absorb2)
    qed
  qed
  ultimately show ?thesis by simp
qed

lemma value_decode_encode:
  assumes "fixed_bit_kind k" "codec_for valid E k" "value_ok valid k v"
  shows "bit_fits E k v \<and> bit_decode E k (take_bit (kind_width k) (bit_encode E k v)) = v"
proof (cases k)
  case (KScalar s)
  show ?thesis
  proof (cases s)
    case (ScU n)
    then obtain u where u: "v = BvUint u" "u_valid n u" using assms(3) KScalar by (cases v) (auto simp: value_ok_def)
    have n: "1 \<le> n" "n \<le> 64" using assms(1) KScalar ScU by auto
    then have "take_bit (primitive_bits n) u = u"
      using u(2) primitive_bits_le [of n] by (metis min_absorb2 take_bit_take_bit u_valid_def)
    then show ?thesis
      using u n KScalar ScU
      by (auto simp: bit_fits_def kind_width_def scalar_fits_U take_bit_word_eq_self u_valid_def min_absorb2)
  next
    case (ScI n)
    then obtain u where u: "v = BvInt u" "i_valid n u" using assms(3) KScalar by (cases v) (auto simp: value_ok_def)
    have n: "1 \<le> n" "n \<le> 64" using assms(1) KScalar ScI by auto
    then show ?thesis
      using u KScalar ScI decode_signed [OF n(1) _ u(2)]
      by (auto simp: bit_fits_def kind_width_def scalar_fits_I take_bit_word_eq_self)
  next
    case ScF32
    then obtain u where "v = BvF32 u" using assms(3) KScalar by (cases v) (auto simp: value_ok_def)
    then show ?thesis
      using KScalar ScF32 f32_c.to_raw_fits [of 32 u] f32_c.from_to_raw [of 32 u]
      by (simp add: bit_fits_def kind_width_def f32_codec_def)
  next
    case ScF64
    then obtain u where "v = BvF64 u" using assms(3) KScalar by (cases v) (auto simp: value_ok_def)
    then show ?thesis using KScalar ScF64 by (simp add: bit_fits_def kind_width_def take_bit_word_eq_self)
  next
    case ScBool
    then obtain b where "v = BvBool b" using assms(3) KScalar by (cases v) (auto simp: value_ok_def)
    then show ?thesis
      using KScalar ScBool by (cases b) (simp_all add: bit_fits_def kind_width_def bool_codec_def)
  next
    case ScByteBool
    then show ?thesis using assms(1) KScalar by simp
  qed
next
  case (KCodec ty n)
  then obtain c where c: "v = BvCodec c" "valid k c" using assms(3) by (cases v) (auto simp: value_ok_def)
  have "exact_codec (bt_codec E k) (valid k)" and B: "BITS (bt_codec E k) = Some n"
    using assms(2) KCodec by (auto simp: codec_for_def)
  then have laws: "codec_laws (bt_codec E k) (valid k)" by (simp add: exact_codec_def)
  have "take_bit n (to_raw (bt_codec E k) c) = to_raw (bt_codec E k) c" "from_raw (bt_codec E k) (to_raw (bt_codec E k) c) = c"
    using codec_laws.to_raw_fits [OF laws B c(2)] codec_laws.from_to_raw [OF laws B c(2)] by simp_all
  then show ?thesis using c KCodec by (simp add: bit_fits_def kind_width_def drop_bit_0_iff)
qed (use assms in auto)

lemma value_encode_decode:
  assumes "fixed_bit_kind k" "codec_for valid E k"
  shows "value_ok valid k (bit_decode E k (take_bit (kind_width k) raw))
    \<and> take_bit (kind_width k) (bit_encode E k (bit_decode E k (take_bit (kind_width k) raw))) = take_bit (kind_width k) raw"
proof (cases k)
  case (KScalar s)
  show ?thesis
  proof (cases s)
    case (ScU n)
    have n: "1 \<le> n" "n \<le> 64" using assms(1) KScalar ScU by auto
    then have "take_bit (primitive_bits n) (take_bit n raw) = take_bit n raw"
      using primitive_bits_le [of n] by (simp add: min_absorb2)
    then show ?thesis using n KScalar ScU by (simp add: value_ok_def kind_width_def u_valid_def take_bit_word_eq_self)
  next
    case (ScI n)
    have n: "1 \<le> n" "n \<le> 64" using assms(1) KScalar ScI by auto
    show ?thesis
    proof (cases "n = 64")
      case True
      have "i_valid 64 raw" for raw :: u64 by (subst i_valid_iff) (auto simp: sign_extend_def)
      then show ?thesis using True KScalar ScI by (simp add: value_ok_def kind_width_def take_bit_word_eq_self)
    next
      case False
      then have n': "n < 64" using n by simp
      have ext: "i_valid n (sign_extend raw n)" using n sign_extend_idem by (simp add: i_valid_iff)
      have "take_bit n raw = take_bit n (sign_extend raw n)" using take_bit_sign_extend [OF n] by simp
      then show ?thesis
        using decode_signed [OF n(1) n' ext] ext False KScalar ScI by (simp add: value_ok_def kind_width_def)
    qed
  next
    case ScF32
    have "ucast (ucast (take_bit 32 raw) :: u32) = take_bit 32 raw"
      using f32_c.to_from_raw [of 32 "take_bit 32 raw"] by (simp add: f32_codec_def)
    then show ?thesis using KScalar ScF32 by (simp add: value_ok_def kind_width_def)
  next
    case ScF64
    then show ?thesis using KScalar by (simp add: value_ok_def kind_width_def)
  next
    case ScBool
    have "BITS bool_codec = Some 1" by (simp add: bool_codec_def)
    then have "to_raw bool_codec (from_raw bool_codec (take_bit 1 raw)) = take_bit 1 raw"
      by (rule bool_c.to_from_raw) (simp only: take_bit_take_bit min.idem)
    moreover have "take_bit 1 (take_bit 1 raw) = take_bit 1 raw" by (simp only: take_bit_take_bit min.idem)
    ultimately show ?thesis using KScalar ScBool by (simp add: value_ok_def kind_width_def)
  next
    case ScByteBool
    then show ?thesis using assms(1) KScalar by simp
  qed
next
  case (KCodec ty n)
  have x: "exact_codec (bt_codec E k) (valid k)" and B: "BITS (bt_codec E k) = Some n"
    using assms(2) KCodec by (auto simp: codec_for_def)
  then have laws: "codec_laws (bt_codec E k) (valid k)" by (simp add: exact_codec_def)
  show ?thesis
    using codec_laws.valid_from_raw [OF laws B] exact_codec.to_from_raw [OF x B, of "take_bit n raw"] KCodec
    by (simp add: value_ok_def kind_width_def)
qed (use assms in auto)

lemma fixed_kind_width: "fixed_bit_kind k \<Longrightarrow> 1 \<le> kind_width k \<and> kind_width k \<le> 64"
  by (cases k) (auto simp: kind_width_def)

lemma take_patched:
  assumes "j + length xs \<le> N" "N \<le> length s"
  shows "take N (take j s @ xs @ drop (j + length xs) s) = take j (take N s) @ xs @ drop (j + length xs) (take N s)"
proof -
  obtain r where "N = j + length xs + r" using assms(1) le_Suc_ex by blast
  moreover have "length (take j s) = j" "j \<le> length s" using assms by simp_all
  ultimately show ?thesis by (simp add: drop_take min_absorb1)
qed

lemma name_at:
  "distinct (map (f_name \<circ> fst) decl) \<Longrightarrow> i < length decl \<Longrightarrow> j < length decl \<Longrightarrow>
     f_name (fst (decl ! i)) = f_name (fst (decl ! j)) \<Longrightarrow> i = j"
  by (auto simp: distinct_conv_nth)

lemma kind_named_nth:
  assumes "distinct (map (f_name \<circ> fst) decl)" "i < length decl"
  shows "kind_named decl (f_name (fst (decl ! i))) = f_kind (fst (decl ! i))"
proof -
  have "find (\<lambda>d. f_name (fst d) = f_name (fst (decl ! i))) decl = Some (decl ! i)"
    unfolding find_Some_iff using assms by (intro exI [of _ i]) (auto simp: distinct_conv_nth)
  then show ?thesis by (simp add: kind_named_def)
qed

lemma value_named_nth:
  assumes "distinct (map (f_name \<circ> fst) decl)" "i < length decl" "length vals = length decl"
  shows "value_named decl vals (f_name (fst (decl ! i))) = vals ! i"
proof -
  have "map_of (zip (map (f_name \<circ> fst) decl) vals) (map (f_name \<circ> fst) decl ! i) = Some (vals ! i)"
    using assms by (intro map_of_zip_nth) auto
  then show ?thesis using assms(2) by (simp add: value_named_def)
qed

section \<open>Presence bits\<close>

definition governed_of :: "bit_decl \<Rightarrow> string \<Rightarrow> governed" where
  "governed_of decl flag =
     List.map_filter (\<lambda>d. case snd d of
         Masked fl m s \<Rightarrow> if fl = flag then Some (m, f_name (fst d), s) else None | _ \<Rightarrow> None) decl"

lemma governed_of_simps [simp]:
  "governed_of [] flag = []"
  "governed_of ((f, Always) # decl) flag = governed_of decl flag"
  "governed_of ((f, PresentBit) # decl) flag = governed_of decl flag"
  "governed_of ((f, Masked fl m s) # decl) flag =
     (if fl = flag then (m, f_name f, s) # governed_of decl flag else governed_of decl flag)"
  by (simp_all add: governed_of_def List.map_filter_def)

lemma add_governed_map:
  "map_of (add_governed flag b flags) x =
     (if x = flag then Some ((case map_of flags flag of Some bs \<Rightarrow> bs | None \<Rightarrow> []) @ [b]) else map_of flags x)"
  "fst ` set (add_governed flag b flags) = insert flag (fst ` set flags)"
  "distinct (map fst flags) \<Longrightarrow> distinct (map fst (add_governed flag b flags))"
proof -
  show dom: "fst ` set (add_governed flag b flags) = insert flag (fst ` set flags)" for flags
    by (induction flag b flags rule: add_governed.induct) (simp_all add: insert_commute)
  show "map_of (add_governed flag b flags) x =
     (if x = flag then Some ((case map_of flags flag of Some bs \<Rightarrow> bs | None \<Rightarrow> []) @ [b]) else map_of flags x)"
    by (induction flags) auto
  show "distinct (map fst flags) \<Longrightarrow> distinct (map fst (add_governed flag b flags))"
    by (induction flags) (auto simp: dom)
qed

lemma bit_flags_from_map:
  "distinct (map fst flags) \<Longrightarrow> distinct (map fst (bit_flags_from flags decl))
     \<and> map_of (bit_flags_from flags decl) flag =
       (case map_of flags flag of Some bs \<Rightarrow> Some (bs @ governed_of decl flag)
        | None \<Rightarrow> if governed_of decl flag = [] then None else Some (governed_of decl flag))"
  by (induction flags decl rule: bit_flags_from.induct) (auto simp: add_governed_map split: option.splits)

lemma bit_flags_map: "map_of (bit_flags decl) flag = (if governed_of decl flag = [] then None else Some (governed_of decl flag))"
  and bit_flags_distinct: "distinct (map fst (bit_flags decl))"
  using bit_flags_from_map [of "[]" decl] by (simp_all add: bit_flags_def)

lemma governed_member: "(m, name, s) \<in> set (governed_of decl flag) \<longleftrightarrow> (\<exists>f. (f, Masked flag m s) \<in> set decl \<and> f_name f = name)"
proof (induction decl)
  case (Cons d decl)
  obtain f p where "d = (f, p)" by (cases d)
  then show ?case using Cons by (cases p) auto
qed simp

lemma bit_governed_mask: "bit (governed_mask gs) k \<longleftrightarrow> (\<exists>(m, n, s) \<in> set gs. bit m k)"
proof -
  have "bit (foldl (\<lambda>all (m, _, _). all OR m) a gs) k \<longleftrightarrow> bit a k \<or> (\<exists>(m, n, s) \<in> set gs. bit m k)" for a :: u64
    by (induction gs arbitrary: a) (auto simp: bit_or_iff)
  then show ?thesis by (simp add: governed_mask_def)
qed

lemma bit_marked_bits:
  "k < 64 \<Longrightarrow> bit (marked_bits is_some gs held) k \<longleftrightarrow>
     bit held k \<and> (\<forall>(m, n, s) \<in> set gs. \<not> bit m k) \<or> (\<exists>(m, n, s) \<in> set gs. is_some n = s \<and> bit m k)"
proof -
  assume k: "k < 64"
  have "bit (foldl (\<lambda>raw (m, name, s). raw OR (if is_some name = s then m else 0)) a gs) k
      \<longleftrightarrow> bit a k \<or> (\<exists>(m, n, s) \<in> set gs. is_some n = s \<and> bit m k)" for a :: u64
  proof (induction gs arbitrary: a)
    case (Cons g gs)
    obtain m n s where "g = (m, n, s)" by (cases g)
    then show ?case using Cons by (cases "is_some n = s") (auto simp: bit_or_iff)
  qed simp
  then show ?thesis
    using k by (auto simp: marked_bits_def bit_and_iff bit_not_iff bit_governed_mask)
qed

text \<open>A field's presence bits say what it says, when no other field uses them.\<close>

lemma marked_test:
  assumes "(m, n, s) \<in> set gs" "m \<noteq> 0"
    and alone: "\<And>m' n' s'. (m', n', s') \<in> set gs \<Longrightarrow> n' \<noteq> n \<Longrightarrow> m' AND m = 0"
    and one: "\<And>m' s'. (m', n, s') \<in> set gs \<Longrightarrow> m' = m \<and> s' = s"
  shows "marked_bits is_some gs held AND m \<noteq> 0 \<longleftrightarrow> is_some n = s"
proof -
  have "marked_bits is_some gs held AND m = (if is_some n = s then m else 0)"
  proof (rule bit_word_eqI)
    fix k assume "k < LENGTH(64)"
    then have k: "k < 64" by simp
    have other: "\<not> bit m' k" if "(m', n', s') \<in> set gs" "n' \<noteq> n" "bit m k" for m' n' s'
      using arg_cong [OF alone [OF that(1,2)], of "\<lambda>w. bit w k"] that(3) by (simp add: bit_and_iff)
    show "bit (marked_bits is_some gs held AND m) k \<longleftrightarrow> bit (if is_some n = s then m else 0) k"
    proof (cases "bit m k")
      case True
      have "(\<exists>(m', n', s') \<in> set gs. is_some n' = s' \<and> bit m' k) \<longleftrightarrow> is_some n = s"
      proof
        assume "\<exists>(m', n', s') \<in> set gs. is_some n' = s' \<and> bit m' k"
        then obtain m' n' s' where g: "(m', n', s') \<in> set gs" "is_some n' = s'" "bit m' k" by blast
        then have "n' = n" using other True by blast
        then show "is_some n = s" using one g by blast
      qed (use assms(1) True in blast)
      then show ?thesis using True assms(1) by (auto simp: bit_and_iff bit_marked_bits [OF k])
    qed (simp add: bit_and_iff)
  qed
  then show ?thesis using assms(2) by simp
qed

text \<open>What the rules say of the flags: a field's presence bits are in a field before it that is always
  there, wide enough, and no other field's.\<close>

definition masks_ok :: "bit_decl \<Rightarrow> bool" where
  "masks_ok decl \<longleftrightarrow>
     (\<forall>j < length decl. \<forall>flag m s. snd (decl ! j) = Masked flag m s \<longrightarrow>
        m \<noteq> 0
        \<and> (\<exists>i < j. f_name (fst (decl ! i)) = flag \<and> snd (decl ! i) = Always \<and> fixed_bit_kind (f_kind (fst (decl ! i)))
             \<and> (f_kind (fst (decl ! i)) = KScalar ScBool \<longrightarrow> m = 1)
             \<and> take_bit (kind_width (f_kind (fst (decl ! i)))) m = m)
        \<and> (\<forall>l < j. \<forall>m' s'. snd (decl ! l) = Masked flag m' s' \<longrightarrow> m' AND m = 0))"

lemma governed_nth:
  assumes "distinct (map (f_name \<circ> fst) decl)" "j < length decl" "snd (decl ! j) = Masked flag m s" "masks_ok decl"
  shows "marked_bits is_some (governed_of decl flag) held AND m \<noteq> 0 \<longleftrightarrow> is_some (f_name (fst (decl ! j))) = s"
proof (rule marked_test)
  have mem: "\<exists>l < length decl. snd (decl ! l) = Masked flag m' s' \<and> f_name (fst (decl ! l)) = n'"
    if g: "(m', n', s') \<in> set (governed_of decl flag)" for m' n' s'
  proof -
    obtain f where "(f, Masked flag m' s') \<in> set decl" "f_name f = n'" using g by (auto simp: governed_member)
    then obtain l where "l < length decl" "decl ! l = (f, Masked flag m' s')" by (meson in_set_conv_nth)
    then show ?thesis using \<open>f_name f = n'\<close> by (intro exI [of _ l]) simp
  qed
  show "(m, f_name (fst (decl ! j)), s) \<in> set (governed_of decl flag)"
    using assms(2,3) by (auto simp: governed_member) (metis nth_mem prod.collapse)
  show "m \<noteq> 0" using assms(2-4) by (auto simp: masks_ok_def)
  show "m' = m \<and> s' = s" if h: "(m', f_name (fst (decl ! j)), s') \<in> set (governed_of decl flag)" for m' s'
  proof -
    obtain l where l: "l < length decl" "snd (decl ! l) = Masked flag m' s'" "f_name (fst (decl ! l)) = f_name (fst (decl ! j))"
      using mem [OF h] by blast
    then have "l = j" by (intro name_at [OF assms(1) _ assms(2)])
    then show ?thesis using l(2) assms(3) by simp
  qed
  show "m' AND m = 0" if g: "(m', n', s') \<in> set (governed_of decl flag)" "n' \<noteq> f_name (fst (decl ! j))" for m' n' s'
  proof -
    from mem [OF g(1)] obtain l where l: "l < length decl" "snd (decl ! l) = Masked flag m' s'" "f_name (fst (decl ! l)) = n'"
      by blast
    then consider "l < j" | "j < l" using g(2) by (metis linorder_neqE_nat)
    then show ?thesis
    proof cases
      case 1
      then show ?thesis using assms(2-4) l unfolding masks_ok_def by blast
    next
      case 2
      then have "m AND m' = 0" using assms(3,4) l unfolding masks_ok_def by blast
      then show ?thesis by (simp add: and.commute)
    qed
  qed
qed



section \<open>What a message's bits are\<close>

text \<open>\<open>word\<close> gives the bits of a self-delimiting value; every other value is a field of its width.\<close>

definition value_word_of ::
    "('c, 'v, 'b) bit_types \<Rightarrow> (string \<Rightarrow> 'v \<Rightarrow> bool list) \<Rightarrow> bool \<Rightarrow> kind \<Rightarrow> ('c, 'v) bit_value \<Rightarrow> bool list" where
  "value_word_of E word msb k v =
     (case (k, v) of (KVar ty, BvVar x) \<Rightarrow> word ty x | _ \<Rightarrow> field_bits msb (kind_width k) (bit_encode E k v))"

fun entry_word_of ::
    "('c, 'v, 'b) bit_types \<Rightarrow> (string \<Rightarrow> 'v \<Rightarrow> bool list) \<Rightarrow> bool \<Rightarrow> field \<times> bit_presence \<Rightarrow> ('c, 'v) bit_value option \<Rightarrow> bool list" where
  "entry_word_of E word msb (f, Always) held = value_word_of E word msb (f_kind f) (the held)"
| "entry_word_of E word msb (f, PresentBit) held =
     (case held of None \<Rightarrow> [False] | Some v \<Rightarrow> True # value_word_of E word msb (f_kind f) v)"
| "entry_word_of E word msb (f, Masked _ _ _) held =
     (case held of None \<Rightarrow> [] | Some v \<Rightarrow> value_word_of E word msb (f_kind f) v)"

definition message_word_of ::
    "('c, 'v, 'b) bit_types \<Rightarrow> (string \<Rightarrow> 'v \<Rightarrow> bool list) \<Rightarrow> bool \<Rightarrow> bit_decl \<Rightarrow> ('c, 'v) bit_value option list \<Rightarrow> bool list" where
  "message_word_of E word msb decl vals = concat (map2 (entry_word_of E word msb) decl vals)"

text \<open>A value of the struct: every field of its type, and only optional fields absent.\<close>

definition held_ok :: "(kind \<Rightarrow> 'c \<Rightarrow> bool) \<Rightarrow> field \<times> bit_presence \<Rightarrow> ('c, 'v) bit_value option \<Rightarrow> bool" where
  "held_ok valid d held \<longleftrightarrow>
     (case held of None \<Rightarrow> snd d \<noteq> Always | Some v \<Rightarrow> value_ok valid (f_kind (fst d)) v)"

definition kinds_in :: "kind set \<Rightarrow> bit_decl \<Rightarrow> bool" where
  "kinds_in kinds decl \<longleftrightarrow> (\<forall>d \<in> set decl. bit_kind (f_kind (fst d)) \<and> f_kind (fst d) \<in> kinds)"

text \<open>The value decode answers: a field that holds presence bits has the bits of the optional fields
  it governs replaced, and every other field is the one that was encoded.\<close>

definition stamped ::
    "('c, 'v, 'b) bit_types \<Rightarrow> bit_decl \<Rightarrow> ('c, 'v) bit_value option list \<Rightarrow> (string \<times> governed) list \<Rightarrow> nat \<Rightarrow> ('c, 'v) bit_value option" where
  "stamped E decl vals flags i =
     (let f = fst (decl ! i)
      in case map_of flags (f_name f) of
           None \<Rightarrow> vals ! i
         | Some gs \<Rightarrow> Some (bit_decode E (f_kind f) (take_bit (kind_width (f_kind f)) (flag_number E decl vals (f_name f, gs)))))"

definition stamped_all ::
    "('c, 'v, 'b) bit_types \<Rightarrow> bit_decl \<Rightarrow> ('c, 'v) bit_value option list \<Rightarrow> (string \<times> governed) list \<Rightarrow> ('c, 'v) bit_value option list" where
  "stamped_all E decl vals flags = map (stamped E decl vals flags) [0..<length decl]"

lemma length_stamped_all [simp]: "length (stamped_all E decl vals flags) = length decl"
  by (simp add: stamped_all_def)

lemma stamped_all_Nil: "length vals = length decl \<Longrightarrow> stamped_all E decl vals [] = vals"
  by (rule nth_equalityI) (auto simp: stamped_all_def stamped_def)

section \<open>The bits of a message\<close>

text \<open>What the types of a message's fields promise: exact codecs of the declared width, which the
  generated code asserts, and self-delimiting values of at least one bit.\<close>

locale bit_message_types = buffer B ok capacity
  for B :: "'b buffer_ops" and ok :: "'b \<Rightarrow> bool" and capacity :: "'b \<Rightarrow> enat" +
  fixes E :: "('c, 'v, 'b) bit_types" and msb :: bool and valid :: "kind \<Rightarrow> 'c \<Rightarrow> bool"
    and word :: "string \<Rightarrow> 'v \<Rightarrow> bool list" and kinds :: "kind set"
  assumes codec: "k \<in> kinds \<Longrightarrow> codec_for valid E k"
    and var: "KVar ty \<in> kinds \<Longrightarrow> bit_codec_into B ok capacity (bt_var E ty) (word ty) msb"
    and word_nonempty: "KVar ty \<in> kinds \<Longrightarrow> word ty v \<noteq> []"
begin

abbreviation value_word :: "kind \<Rightarrow> ('c, 'v) bit_value \<Rightarrow> bool list" where
  "value_word \<equiv> value_word_of E word msb"

lemma value_word_var [simp]: "value_word (KVar ty) (BvVar x) = word ty x"
  by (simp add: value_word_of_def)

lemma value_word_fixed: "fixed_bit_kind k \<Longrightarrow> value_word k v = field_bits msb (kind_width k) (bit_encode E k v)"
  by (cases k) (simp_all add: value_word_of_def)

definition wrote_word :: "'b bit_writer \<Rightarrow> nat \<Rightarrow> bool list \<Rightarrow> 'b bit_writer \<Rightarrow> bool" where
  "wrote_word w P bits w' \<longleftrightarrow>
     writer_at B ok msb w' (P + length bits) \<and> base_len w' = base_len w \<and> capacity (out_buf w') = capacity (out_buf w)
     \<and> take (P + length bits) (stream msb (written B (out_buf w'))) = take P (stream msb (written B (out_buf w))) @ bits"

lemma wrote_word_trans:
  "wrote_word w P xs w' \<Longrightarrow> wrote_word w' (P + length xs) ys w'' \<Longrightarrow> wrote_word w P (xs @ ys) w''"
  by (simp add: wrote_word_def add.assoc)

lemma room_for_part:
  "enat (div_ceil (P + n) 8) \<le> capacity b \<Longrightarrow> m \<le> n \<Longrightarrow> enat (div_ceil (P + m) 8) \<le> capacity b"
  using order_trans [of "enat (div_ceil (P + m) 8)" "enat (div_ceil (P + n) 8)"]
  by (simp add: div_ceil_def div_le_mono)

lemma write_bits_word:
  assumes "writer_at B ok msb w P" "n \<le> 64" "enat (div_ceil (P + n) 8) \<le> capacity (out_buf w)"
  shows "\<exists>w'. write_bits B msb w v n = (Inr (), w') \<and> wrote_word w P (field_bits msb n v) w'"
  using write_fits [OF assms, of v] by (auto simp: wrote_word_def)

lemma value_write:
  assumes "writer_at B ok msb w P" "bit_kind k" "k \<in> kinds" "value_ok valid k v"
    and "enat (div_ceil (P + length (value_word k v)) 8) \<le> capacity (out_buf w)"
  shows "\<exists>w'. bit_write E B msb k v w = Some (Inr (), w') \<and> wrote_word w P (value_word k v) w'"
proof (cases "fixed_bit_kind k")
  case True
  then have fixed: "value_word k v = field_bits msb (kind_width k) (bit_encode E k v)"
    "bit_write E B msb k v w = (if bit_fits E k v then Some (write_bits B msb w (bit_encode E k v) (kind_width k)) else None)"
    by (rule value_word_fixed, cases k) (simp_all add: bit_write_def)
  have "bit_fits E k v" using value_decode_encode [OF True codec [OF assms(3)] assms(4)] by blast
  then show ?thesis
    using write_bits_word [OF assms(1), of "kind_width k" "bit_encode E k v"] fixed_kind_width [OF True] assms(5) fixed by simp
next
  case False
  then obtain ty x where k: "k = KVar ty" "v = BvVar x" using assms(2,4) by (cases v) (auto simp: bit_kind_def value_ok_def)
  then have kv: "KVar ty \<in> kinds" using assms(3) by simp
  show ?thesis
    using bit_codec_into.encode_word [OF var [OF kv] assms(1), of x] assms(5) by (auto simp: k wrote_word_def bit_write_def)
qed

text \<open>A value reads back from the bits it wrote.\<close>

definition at_word :: "bit_reader \<Rightarrow> bool list \<Rightarrow> bool" where
  "at_word r bits \<longleftrightarrow> in_memory (rd_bytes r) \<and> rd_at r + length bits \<le> 8 * length (rd_bytes r)
     \<and> take (length bits) (drop (rd_at r) (stream msb (rd_bytes r))) = bits"

lemma at_word_append:
  "at_word r (xs @ ys) \<longleftrightarrow> at_word r xs \<and> at_word (r\<lparr>rd_at := rd_at r + length xs\<rparr>) ys"
proof -
  define zs where "zs = drop (rd_at r) (stream msb (rd_bytes r))"
  have drop: "drop (rd_at r + length xs) (stream msb (rd_bytes r)) = drop (length xs) zs"
    by (simp add: zs_def add.commute)
  have "take (length xs + length ys) zs = xs @ ys
      \<longleftrightarrow> take (length xs) zs = xs \<and> take (length ys) (drop (length xs) zs) = ys"
    if "length xs + length ys \<le> length zs"
    using that unfolding take_add by (intro append_eq_append_conv) simp
  then show ?thesis
    by (auto simp: at_word_def drop zs_def [symmetric])
      (auto simp: zs_def)
qed

lemma read_word:
  assumes "at_word r (field_bits msb n v)" "n \<le> 64"
  shows "read msb r n = (Inr (take_bit n v), r\<lparr>rd_at := rd_at r + n\<rparr>)"
  using assms by (intro read_unique) (auto simp: at_word_def field_bits_take_bit)

lemma skip_word: "in_memory (rd_bytes r) \<Longrightarrow> rd_at r + n \<le> 8 * length (rd_bytes r) \<Longrightarrow> skip r n = (Inr (), r\<lparr>rd_at := rd_at r + n\<rparr>)"
  using enough_bytes_iff [of "rd_bytes r" "rd_at r" n]
  by (simp add: skip_def Let_def in_memory_def saturating_add_u64_def min_absorb1)

lemma value_read:
  assumes "at_word r (value_word k v)" "bit_kind k" "k \<in> kinds" "value_ok valid k v"
  shows "bit_read E msb name k r = Inr (v, r\<lparr>rd_at := rd_at r + length (value_word k v)\<rparr>)"
proof (cases "fixed_bit_kind k")
  case True
  then have fixed: "value_word k v = field_bits msb (kind_width k) (bit_encode E k v)"
    by (rule value_word_fixed)
  show ?thesis
    using read_word [OF assms(1) [unfolded fixed(1)]] fixed_kind_width [OF True]
      value_decode_encode [OF True codec [OF assms(3)] assms(4)]
    by (simp add: fixed bit_read_fixed [OF True])
next
  case False
  then obtain ty x where k: "k = KVar ty" "v = BvVar x" using assms(2,4) by (cases v) (auto simp: bit_kind_def value_ok_def)
  then have kv: "KVar ty \<in> kinds" using assms(3) by simp
  have at: "in_memory (rd_bytes r)" "take (length (word ty x)) (drop (rd_at r) (stream msb (rd_bytes r))) = word ty x"
    "rd_at r + length (word ty x) \<le> 8 * length (rd_bytes r)"
    using assms(1) by (auto simp: at_word_def k)
  show ?thesis
    using bit_codec_into.decode_word [OF var [OF kv] at(1,2)] word_nonempty [OF kv, of x] skip_word [OF at(1,3)]
    by (simp add: k reader_position_def)
qed

text \<open>The bits of a whole message, field after field.\<close>

abbreviation entry_word :: "field \<times> bit_presence \<Rightarrow> ('c, 'v) bit_value option \<Rightarrow> bool list" where
  "entry_word \<equiv> entry_word_of E word msb"

abbreviation message_word :: "bit_decl \<Rightarrow> ('c, 'v) bit_value option list \<Rightarrow> bool list" where
  "message_word \<equiv> message_word_of E word msb"

abbreviation entry_ok :: "field \<times> bit_presence \<Rightarrow> ('c, 'v) bit_value option \<Rightarrow> bool" where
  "entry_ok \<equiv> held_ok valid"

lemma message_word_simps [simp]:
  "message_word [] vals = []" "message_word (d # decl) (held # vals) = entry_word d held @ message_word decl vals"
  by (simp_all add: message_word_of_def)

abbreviation kinds_ok :: "bit_decl \<Rightarrow> bool" where
  "kinds_ok \<equiv> kinds_in kinds"

lemma kinds_ok_Cons [simp]: "kinds_ok (d # decl) \<longleftrightarrow> bit_kind (f_kind (fst d)) \<and> f_kind (fst d) \<in> kinds \<and> kinds_ok decl"
  by (auto simp: kinds_in_def)

lemma one_bit: "field_bits msb 1 (if b then 1 else 0) = [b]"
  by (rule nth_equalityI) (auto simp: field_bit_def)

lemma entry_write:
  assumes "writer_at B ok msb w P" "entry_ok d held" "bit_kind (f_kind (fst d))" "f_kind (fst d) \<in> kinds"
    and room: "enat (div_ceil (P + length (entry_word d held)) 8) \<le> capacity (out_buf w)"
  shows "\<exists>w'. bit_write_field E B msb d held w = Some (Inr (), w') \<and> wrote_word w P (entry_word d held) w'"
proof (cases d)
  case (Pair f p)
  have same: "wrote_word w P [] w" using assms(1) by (simp add: wrote_word_def)
  show ?thesis
  proof (cases p)
    case Always
    then obtain v where "held = Some v" "value_ok valid (f_kind f) v" using assms(2) Pair by (cases held) (auto simp: held_ok_def)
    then show ?thesis using value_write [OF assms(1), of "f_kind f" v] assms(3-5) Pair Always by simp
  next
    case (Masked flag m s)
    then show ?thesis using value_write [OF assms(1), of "f_kind f"] assms(2-5) Pair same
      by (cases held) (auto simp: held_ok_def)
  next
    case PresentBit
    have one: "\<exists>w'. write_bit B msb w b = (Inr (), w') \<and> wrote_word w P [b] w'" for b
    proof -
      have "enat (div_ceil (P + 1) 8) \<le> capacity (out_buf w)"
        by (rule room_for_part [OF room]) (use Pair PresentBit in \<open>auto split: option.splits\<close>)
      then show ?thesis
        using write_bits_word [OF assms(1), of 1 "if b then 1 else 0"] unfolding one_bit write_bit_def by simp
    qed
    show ?thesis
    proof (cases held)
      case None
      then show ?thesis using one [of False] Pair PresentBit by auto
    next
      case (Some v)
      obtain w1 where w1: "write_bit B msb w True = (Inr (), w1)" "wrote_word w P [True] w1" using one by blast
      then have "\<exists>w'. bit_write E B msb (f_kind f) v w1 = Some (Inr (), w') \<and> wrote_word w1 (P + 1) (value_word (f_kind f) v) w'"
        using value_write [of w1 "P + 1" "f_kind f" v] assms(2-5) Pair PresentBit Some
        by (auto simp: wrote_word_def held_ok_def)
      then show ?thesis
        using w1 wrote_word_trans [OF w1(2)] Pair PresentBit Some by (auto simp: then_write_def)
    qed
  qed
qed

fun marks_from :: "string list \<Rightarrow> bit_decl \<Rightarrow> ('c, 'v) bit_value option list \<Rightarrow> nat \<Rightarrow> (string \<times> nat) list" where
  "marks_from flags (d # decl) (held # vals) p =
     (if snd d = Always \<and> f_name (fst d) \<in> set flags then [(f_name (fst d), p)] else [])
     @ marks_from flags decl vals (p + length (entry_word d held))"
| "marks_from flags _ _ p = []"

lemma entries_write:
  assumes "writer_at B ok msb w P" "list_all2 entry_ok decl vals" "kinds_ok decl"
    and "enat (div_ceil (P + length (message_word decl vals)) 8) \<le> capacity (out_buf w)"
  shows "\<exists>w'. bit_writes E B msb flags decl vals marks w
      = Some (Inr (marks @ marks_from flags decl vals (P - 8 * base_len w)), w') \<and> wrote_word w P (message_word decl vals) w'"
  using assms(2,1,3,4)
proof (induction arbitrary: w P marks rule: list_all2_induct)
  case Nil
  then show ?case by (simp add: wrote_word_def)
next
  case (Cons d decl held vals)
  have "enat (div_ceil (P + length (entry_word d held)) 8) \<le> capacity (out_buf w)"
    by (rule room_for_part [OF Cons.prems(3)]) simp
  then obtain w1 where w1: "bit_write_field E B msb d held w = Some (Inr (), w1)" "wrote_word w P (entry_word d held) w1"
    using entry_write [OF Cons.prems(1) Cons.hyps(1)] Cons.prems(2) by auto
  let ?p = "P - 8 * base_len w"
  have pos: "writer_position B w = ?p" by (rule writer_position_at [OF Cons.prems(1)])
  have base: "8 * base_len w \<le> P" using Cons.prems(1) by (simp add: writer_at_def)
  from Cons.IH [of w1 "P + length (entry_word d held)" "marks @ (if snd d = Always \<and> f_name (fst d) \<in> set flags then [(f_name (fst d), ?p)] else [])"]
  obtain w2 where "bit_writes E B msb flags decl vals
      (marks @ (if snd d = Always \<and> f_name (fst d) \<in> set flags then [(f_name (fst d), ?p)] else [])) w1
      = Some (Inr (marks @ marks_from flags (d # decl) (held # vals) ?p), w2)"
    "wrote_word w1 (P + length (entry_word d held)) (message_word decl vals) w2"
    using w1(2) Cons.prems base by (auto simp: wrote_word_def add.assoc)
  then show ?case
    using w1 wrote_word_trans [OF w1(2)] pos by (cases "snd d = Always \<and> f_name (fst d) \<in> set flags") (auto simp: then_write_def)
qed

text \<open>Decode reads the fields back when every presence test answers what the value says.\<close>

fun tests_ok :: "bit_decl \<Rightarrow> (string \<times> ('c, 'v) bit_value option) list \<Rightarrow> bit_decl \<Rightarrow> ('c, 'v) bit_value option list \<Rightarrow> bool" where
  "tests_ok decl got (d # todo) (held # vals) \<longleftrightarrow>
     (\<forall>flag m s. snd d = Masked flag m s \<longrightarrow> (bit_flag_test E decl (the (the (map_of got flag))) flag m s \<longleftrightarrow> held \<noteq> None))
     \<and> tests_ok decl (got @ [(f_name (fst d), held)]) todo vals"
| "tests_ok decl got _ _ \<longleftrightarrow> True"

lemma entry_read:
  assumes "at_word r (entry_word d held)" "entry_ok d held" "bit_kind (f_kind (fst d))" "f_kind (fst d) \<in> kinds"
    and "\<forall>flag m s. snd d = Masked flag m s \<longrightarrow> (bit_flag_test E decl (the (the (map_of got flag))) flag m s \<longleftrightarrow> held \<noteq> None)"
  shows "bit_read_field E msb decl got d r = Inr (held, r\<lparr>rd_at := rd_at r + length (entry_word d held)\<rparr>)"
proof (cases d)
  case (Pair f p)
  show ?thesis
  proof (cases p)
    case Always
    then obtain v where v: "held = Some v" "value_ok valid (f_kind f) v" using assms(2) Pair by (cases held) (auto simp: held_ok_def)
    then have "at_word r (value_word (f_kind f) v)" using assms(1) Pair Always by simp
    from value_read [OF this _ _ v(2)] show ?thesis using assms(3,4) v(1) Pair Always by simp
  next
    case (Masked flag m s)
    show ?thesis
    proof (cases held)
      case None
      then show ?thesis using assms(5) Pair Masked by simp
    next
      case (Some v)
      then have "at_word r (value_word (f_kind f) v)" "value_ok valid (f_kind f) v"
        using assms(1,2) Pair Masked by (simp_all add: held_ok_def)
      from value_read [OF this(1) _ _ this(2)] show ?thesis using assms(3-5) Some Pair Masked by simp
    qed
  next
    case PresentBit
    have one: "read_bit msb r = (Inr b, r\<lparr>rd_at := rd_at r + 1\<rparr>)" if "at_word r [b]" for b
      using read_word [of r 1 "if b then 1 else 0"] that unfolding one_bit by (cases b) (simp_all add: read_bit_def)
    show ?thesis
    proof (cases held)
      case None
      then show ?thesis using one [of False] assms(1) Pair PresentBit by simp
    next
      case (Some v)
      then have "at_word r ([True] @ value_word (f_kind f) v)" using assms(1) Pair PresentBit by simp
      then have "at_word r [True]" and v: "at_word (r\<lparr>rd_at := rd_at r + 1\<rparr>) (value_word (f_kind f) v)"
        unfolding at_word_append by simp_all
      moreover have "value_ok valid (f_kind f) v" using assms(2) Some Pair by (simp add: held_ok_def)
      ultimately show ?thesis
        using one [of True] value_read [OF v, of "f_name f"] assms(3,4) Some Pair PresentBit by (simp add: add.assoc)
    qed
  qed
qed

lemma entries_read:
  assumes "list_all2 entry_ok todo vals" "kinds_ok todo" "tests_ok decl got todo vals" "at_word r (message_word todo vals)"
  shows "bit_reads E msb decl got todo r = Inr (vals, r\<lparr>rd_at := rd_at r + length (message_word todo vals)\<rparr>)"
  using assms
proof (induction arbitrary: r got rule: list_all2_induct)
  case (Cons d todo held vals)
  let ?r = "r\<lparr>rd_at := rd_at r + length (entry_word d held)\<rparr>"
  have w: "at_word r (entry_word d held)" "at_word ?r (message_word todo vals)"
    using Cons.prems(3) unfolding message_word_simps at_word_append by simp_all
  have k: "bit_kind (f_kind (fst d))" "f_kind (fst d) \<in> kinds" "kinds_ok todo" using Cons.prems(1) by simp_all
  have t: "\<forall>flag m s. snd d = Masked flag m s \<longrightarrow> (bit_flag_test E decl (the (the (map_of got flag))) flag m s \<longleftrightarrow> held \<noteq> None)"
    "tests_ok decl (got @ [(f_name (fst d), held)]) todo vals"
    using Cons.prems(2) by simp_all
  show ?case
    using entry_read [OF w(1) Cons.hyps(1) k(1,2) t(1)] Cons.IH [OF k(3) t(2) w(2)]
    by (simp add: add.assoc)
qed simp

text \<open>A patched flag field is a message with another value of the flag.\<close>

definition flags_ok :: "bit_decl \<Rightarrow> (string \<times> governed) list \<Rightarrow> bool" where
  "flags_ok decl flags \<longleftrightarrow>
     (\<forall>flag \<in> fst ` set flags. \<exists>i < length decl. f_name (fst (decl ! i)) = flag \<and> snd (decl ! i) = Always
        \<and> fixed_bit_kind (f_kind (fst (decl ! i))))"

definition offset_in :: "bit_decl \<Rightarrow> ('c, 'v) bit_value option list \<Rightarrow> nat \<Rightarrow> nat" where
  "offset_in decl vals i = length (message_word (take i decl) (take i vals))"

lemma message_word_split:
  assumes "i < length decl" "length vals = length decl"
  shows "message_word decl vals = message_word (take i decl) (take i vals) @ entry_word (decl ! i) (vals ! i)
    @ message_word (drop (Suc i) decl) (drop (Suc i) vals)"
proof -
  have "decl = take i decl @ decl ! i # drop (Suc i) decl" "vals = take i vals @ vals ! i # drop (Suc i) vals"
    using assms by (simp_all add: id_take_nth_drop)
  then have "zip decl vals = zip (take i decl @ decl ! i # drop (Suc i) decl) (take i vals @ vals ! i # drop (Suc i) vals)"
    by argo
  also have "\<dots> = zip (take i decl) (take i vals) @ (decl ! i, vals ! i) # zip (drop (Suc i) decl) (drop (Suc i) vals)"
    using assms by (subst zip_append) auto
  finally show ?thesis by (simp add: message_word_of_def)
qed

lemma message_word_update:
  assumes "i < length decl" "length vals = length decl" "snd (decl ! i) = Always" "fixed_bit_kind (f_kind (fst (decl ! i)))"
    and codec: "codec_for valid E (f_kind (fst (decl ! i)))"
  defines "k \<equiv> f_kind (fst (decl ! i))" and "off \<equiv> offset_in decl vals i"
  shows "message_word decl (vals[i := Some (bit_decode E k (take_bit (kind_width k) raw))])
      = take off (message_word decl vals) @ field_bits msb (kind_width k) raw @ drop (off + kind_width k) (message_word decl vals)"
    and "off + kind_width k \<le> length (message_word decl vals)"
proof -
  have entry: "entry_word (decl ! i) held = field_bits msb (kind_width k) (bit_encode E k (the held))" for held
    using assms(3,4) by (cases "decl ! i") (simp add: k_def value_word_fixed)
  have w: "kind_width k \<le> 64" using fixed_kind_width [OF assms(4)] by (simp add: k_def)
  have "take_bit (kind_width k) (bit_encode E k (bit_decode E k (take_bit (kind_width k) raw))) = take_bit (kind_width k) raw"
    using value_encode_decode [OF assms(4) codec] by (simp add: k_def)
  then have bits: "field_bits msb (kind_width k) (bit_encode E k (bit_decode E k (take_bit (kind_width k) raw)))
      = field_bits msb (kind_width k) raw"
    using field_bits_take_bit [OF w] by metis
  let ?vals = "vals[i := Some (bit_decode E k (take_bit (kind_width k) raw))]"
  have "message_word decl ?vals = message_word (take i decl) (take i vals)
      @ field_bits msb (kind_width k) raw @ message_word (drop (Suc i) decl) (drop (Suc i) vals)"
    using message_word_split [of i decl ?vals] assms(1,2) bits by (simp add: entry)
  moreover have "message_word decl vals = message_word (take i decl) (take i vals)
      @ field_bits msb (kind_width k) (bit_encode E k (the (vals ! i))) @ message_word (drop (Suc i) decl) (drop (Suc i) vals)"
    using message_word_split [of i decl vals] assms(1,2) by (simp add: entry)
  ultimately show "message_word decl ?vals
      = take off (message_word decl vals) @ field_bits msb (kind_width k) raw @ drop (off + kind_width k) (message_word decl vals)"
    "off + kind_width k \<le> length (message_word decl vals)"
    by (simp_all add: off_def offset_in_def)
qed

lemma marks_at:
  assumes "distinct (map (f_name \<circ> fst) decl)" "length vals = length decl" "i < length decl"
    and "snd (decl ! i) = Always" "f_name (fst (decl ! i)) \<in> set flags"
  shows "map_of (marks_from flags decl vals p) (f_name (fst (decl ! i))) = Some (p + offset_in decl vals i)"
  using assms
proof (induction decl arbitrary: vals p i)
  case (Cons d decl)
  then obtain held vals' where vals: "vals = held # vals'" by (cases vals) auto
  show ?case
  proof (cases i)
    case 0
    then show ?thesis using Cons.prems by (simp add: vals offset_in_def)
  next
    case (Suc j)
    have "f_name (fst (decl ! j)) \<in> (f_name \<circ> fst) ` set decl" using Cons.prems(3) Suc by auto
    moreover have "(f_name \<circ> fst) d \<notin> (f_name \<circ> fst) ` set decl" using Cons.prems(1) by simp
    ultimately have "f_name (fst d) \<noteq> f_name (fst (decl ! j))" by (metis comp_apply)
    then show ?thesis
      using Cons.IH [of vals' j "p + length (entry_word d held)"] Cons.prems
      by (simp add: vals Suc offset_in_def add.assoc)
  qed
qed simp

lemma stamped_all_step:
  assumes "distinct (map (f_name \<circ> fst) decl)" "i < length decl" "f_name (fst (decl ! i)) = flag" "flag \<notin> fst ` set done"
  defines "k \<equiv> f_kind (fst (decl ! i))"
  shows "stamped_all E decl vals (done @ [(flag, gs)])
      = (stamped_all E decl vals done)[i := Some (bit_decode E k (take_bit (kind_width k) (flag_number E decl vals (flag, gs))))]"
proof (rule nth_equalityI)
  fix j assume j: "j < length (stamped_all E decl vals (done @ [(flag, gs)]))"
  have none: "map_of done flag = None" using assms(4) by (simp add: map_of_eq_None_iff)
  have "f_name (fst (decl ! j)) = flag \<longleftrightarrow> j = i"
    using assms(1-3) j by (auto simp: distinct_conv_nth)
  then show "stamped_all E decl vals (done @ [(flag, gs)]) ! j
      = (stamped_all E decl vals done)[i := Some (bit_decode E k (take_bit (kind_width k) (flag_number E decl vals (flag, gs))))] ! j"
    using j none assms(2) by (cases "j = i") (auto simp: stamped_all_def stamped_def Let_def k_def map_add_def split: option.splits)
qed simp

text \<open>Flag fields keep their width, so a stamp moves nothing.\<close>

lemma offset_stamped:
  assumes "flags_ok decl flags" "distinct (map (f_name \<circ> fst) decl)" "length vals = length decl" "i \<le> length decl"
  shows "offset_in decl (stamped_all E decl vals flags) i = offset_in decl vals i"
proof -
  have same: "length (entry_word (decl ! j) (stamped E decl vals flags j)) = length (entry_word (decl ! j) (vals ! j))" if j: "j < length decl" for j
  proof (cases "map_of flags (f_name (fst (decl ! j)))")
    case (Some gs)
    then have "f_name (fst (decl ! j)) \<in> fst ` set flags" by (force dest: map_of_SomeD)
    then obtain m where m: "m < length decl" "f_name (fst (decl ! m)) = f_name (fst (decl ! j))" "snd (decl ! m) = Always"
      "fixed_bit_kind (f_kind (fst (decl ! m)))"
      using assms(1) by (auto simp: flags_ok_def)
    then have "m = j" using assms(2) j by (auto simp: distinct_conv_nth)
    then show ?thesis using m by (cases "decl ! j") (simp add: value_word_fixed)
  qed (simp add: stamped_def)
  have "map length (map2 entry_word (take i decl) (take i (stamped_all E decl vals flags))) = map length (map2 entry_word (take i decl) (take i vals))"
    by (rule nth_equalityI) (use assms(3,4) same in \<open>auto simp: stamped_all_def\<close>)
  then show ?thesis by (simp add: offset_in_def message_word_of_def length_concat comp_def split_def)
qed

lemma codec_at: "kinds_ok decl \<Longrightarrow> i < length decl \<Longrightarrow> codec_for valid E (f_kind (fst (decl ! i)))"
  by (auto simp: kinds_in_def intro: codec)

lemma length_message_stamped:
  assumes "flags_ok decl flags" "distinct (map (f_name \<circ> fst) decl)" "length vals = length decl"
  shows "length (message_word decl (stamped_all E decl vals flags)) = length (message_word decl vals)"
  using offset_stamped [OF assms order_refl] assms(3) by (simp add: offset_in_def)

definition patch_one :: "bit_decl \<Rightarrow> ('c, 'v) bit_value option list \<Rightarrow> (string \<times> nat) list \<Rightarrow> 'b bit_writer \<Rightarrow> string \<times> governed \<Rightarrow> 'b bit_writer" where
  "patch_one decl vals marks w fg =
     patch B msb w (the (map_of marks (fst fg))) (kind_width (kind_named decl (fst fg))) (flag_number E decl vals fg)"

text \<open>The cursor has written a message after \<open>head\<close>; its last byte may have bits left.\<close>

definition holds_message :: "'b bit_writer \<Rightarrow> nat \<Rightarrow> bool list \<Rightarrow> bool list \<Rightarrow> bool" where
  "holds_message w L head bits \<longleftrightarrow>
     writer_at B ok msb w (8 * L + length bits) \<and> base_len w = L \<and> length head = 8 * L
     \<and> take (8 * L + length bits) (stream msb (written B (out_buf w))) = head @ bits"

lemma patch_message:
  assumes w: "holds_message w L head (message_word decl (stamped_all E decl vals done))"
    and decl: "distinct (map (f_name \<circ> fst) decl)" "length vals = length decl" "kinds_ok decl"
    and flags: "flags_ok decl (done @ [(flag, gs)])" "flag \<notin> fst ` set done" "flag \<in> set names"
  shows "holds_message (patch_one decl vals (marks_from names decl vals 0) w (flag, gs)) L head
      (message_word decl (stamped_all E decl vals (done @ [(flag, gs)])))
    \<and> capacity (out_buf (patch_one decl vals (marks_from names decl vals 0) w (flag, gs))) = capacity (out_buf w)"
proof -
  obtain i where i: "i < length decl" "f_name (fst (decl ! i)) = flag" "snd (decl ! i) = Always"
    "fixed_bit_kind (f_kind (fst (decl ! i)))"
    using flags(1) by (auto simp: flags_ok_def)
  have "flags_ok decl done" using flags(1) by (auto simp: flags_ok_def)
  note stay = offset_stamped [OF this decl(1,2)]
  define k where "k = f_kind (fst (decl ! i))"
  define raw where "raw = flag_number E decl vals (flag, gs)"
  define off where "off = offset_in decl vals i"
  let ?old = "message_word decl (stamped_all E decl vals done)"
  let ?new = "message_word decl (stamped_all E decl vals (done @ [(flag, gs)]))"
  let ?w' = "patch_one decl vals (marks_from names decl vals 0) w (flag, gs)"
  have "?w' = patch B msb w off (kind_width k) raw"
    using marks_at [OF decl(1,2) i(1,3), of names 0] kind_named_nth [OF decl(1) i(1)] i(2) flags(3)
    by (simp add: patch_one_def off_def k_def raw_def)
  moreover have new: "?new = take off ?old @ field_bits msb (kind_width k) raw @ drop (off + kind_width k) ?old"
    "off + kind_width k \<le> length ?old"
    using message_word_update(1) [OF i(1) length_stamped_all i(3,4) codec_at [OF decl(3) i(1)], of E vals "done" raw]
      message_word_update(2) [OF i(1) length_stamped_all i(3,4) codec_at [OF decl(3) i(1)], of E vals "done"]
      stamped_all_step [OF decl(1) i(1,2) flags(2), of vals gs] stay [of i] i(1)
    by (simp_all add: off_def k_def raw_def)
  moreover have "kind_width k \<le> 64" using fixed_kind_width [OF i(4)] by (simp add: k_def)
  ultimately have p: "writer_at B ok msb ?w' (8 * L + length ?old)" "base_len ?w' = L"
    "capacity (out_buf ?w') = capacity (out_buf w)"
    "stream msb (written B (out_buf ?w')) = (let s = stream msb (written B (out_buf w)); j = 8 * L + off
        in take j s @ field_bits msb (kind_width k) raw @ drop (j + kind_width k) s)"
    using patch_spec [of msb w "8 * L + length ?old" "kind_width k" off raw] w by (auto simp: holds_message_def)
  have len: "length ?new = length ?old" using new by simp
  define s where "s = stream msb (written B (out_buf w))"
  have s: "take (8 * L + length ?old) s = head @ ?old" "length head = 8 * L" "8 * L + length ?old \<le> length s"
    using w by (auto simp: holds_message_def s_def writer_at_def simp flip: div_ceil_8_le_iff)
  have "take (8 * L + length ?old) (take (8 * L + off) s @ field_bits msb (kind_width k) raw @ drop (8 * L + off + kind_width k) s)
      = take (8 * L + off) (take (8 * L + length ?old) s) @ field_bits msb (kind_width k) raw
        @ drop (8 * L + off + kind_width k) (take (8 * L + length ?old) s)"
    using take_patched [of "8 * L + off" "field_bits msb (kind_width k) raw" "8 * L + length ?old" s] s(3) new(2) by simp
  also have "\<dots> = head @ ?new" unfolding s(1) using new s(2) by simp
  finally show ?thesis using p w len by (simp add: holds_message_def s_def Let_def)
qed

lemma patches_message:
  assumes "holds_message w L head (message_word decl (stamped_all E decl vals done))"
    and decl: "distinct (map (f_name \<circ> fst) decl)" "length vals = length decl" "kinds_ok decl"
    and "flags_ok decl (done @ flags)" "distinct (map fst (done @ flags))" "fst ` set flags \<subseteq> set names"
  shows "holds_message (foldl (patch_one decl vals (marks_from names decl vals 0)) w flags) L head
      (message_word decl (stamped_all E decl vals (done @ flags)))
    \<and> capacity (out_buf (foldl (patch_one decl vals (marks_from names decl vals 0)) w flags)) = capacity (out_buf w)"
  using assms(1,5-)
proof (induction flags arbitrary: w "done")
  case (Cons fg flags)
  obtain flag gs where fg: "fg = (flag, gs)" by (cases fg)
  have "flags_ok decl (done @ [(flag, gs)])" "flag \<notin> fst ` set done" "flag \<in> set names"
    using Cons.prems(2-4) by (auto simp: flags_ok_def fg)
  note one = patch_message [OF Cons.prems(1) decl this]
  show ?case
    using Cons.IH [OF conjunct1 [OF one]] Cons.prems(2-4) one by (auto simp: fg)
qed simp

text \<open>The flags' stamped values make every presence test true exactly where the field has a value.\<close>

lemma tests_ok_at:
  assumes "distinct (map (f_name \<circ> fst) decl)" "length vals = length decl"
    and tests: "\<And>j flag m s. j < length decl \<Longrightarrow> snd (decl ! j) = Masked flag m s \<Longrightarrow>
      \<exists>i < j. f_name (fst (decl ! i)) = flag \<and> (bit_flag_test E decl (the (vals ! i)) flag m s \<longleftrightarrow> vals ! j \<noteq> None)"
  shows "j \<le> length decl \<Longrightarrow>
    tests_ok decl (zip (map (f_name \<circ> fst) (take j decl)) (take j vals)) (drop j decl) (drop j vals)"
proof (induction rule: inc_induct)
  case (step j)
  let ?names = "map (f_name \<circ> fst) (take j decl)"
  have cons: "drop j decl = decl ! j # drop (Suc j) decl" "drop j vals = vals ! j # drop (Suc j) vals"
    using step.hyps assms(2) by (simp_all add: Cons_nth_drop_Suc)
  have step1: "zip ?names (take j vals) @ [(f_name (fst (decl ! j)), vals ! j)]
      = zip (map (f_name \<circ> fst) (take (Suc j) decl)) (take (Suc j) vals)"
    using step.hyps assms(2) by (simp add: take_Suc_conv_app_nth)
  have "bit_flag_test E decl (the (the (map_of (zip ?names (take j vals)) flag))) flag m s \<longleftrightarrow> vals ! j \<noteq> None"
    if m: "snd (decl ! j) = Masked flag m s" for flag m s
  proof -
    obtain i where i: "i < j" "f_name (fst (decl ! i)) = flag"
      "bit_flag_test E decl (the (vals ! i)) flag m s \<longleftrightarrow> vals ! j \<noteq> None"
      using tests [OF step.hyps(2) m] by blast
    have "distinct ?names" using assms(1) by (metis distinct_take take_map)
    then have "map_of (zip ?names (take j vals)) (?names ! i) = Some (take j vals ! i)"
      using i(1) step.hyps assms(2) by (intro map_of_zip_nth) auto
    then show ?thesis using i step.hyps by simp
  qed
  then show ?case using step.IH unfolding cons step1 [symmetric] tests_ok.simps(1) by blast
qed (use assms(2) in simp)

lemma flags_ok_flags: "flags_ok decl (bit_flags decl)" if "masks_ok decl"
proof -
  have "\<exists>i < length decl. f_name (fst (decl ! i)) = flag \<and> snd (decl ! i) = Always \<and> fixed_bit_kind (f_kind (fst (decl ! i)))"
    if "flag \<in> fst ` set (bit_flags decl)" for flag
  proof -
    have "governed_of decl flag \<noteq> []"
      using that map_of_eq_None_iff [of "bit_flags decl" flag] by (auto simp: bit_flags_map split: if_splits)
    then obtain m n s where "(m, n, s) \<in> set (governed_of decl flag)" by (cases "governed_of decl flag") auto
    then obtain f where "(f, Masked flag m s) \<in> set decl" by (auto simp: governed_member)
    then obtain j where j: "j < length decl" "snd (decl ! j) = Masked flag m s" by (auto simp: in_set_conv_nth)
    then obtain i where "i < j" "f_name (fst (decl ! i)) = flag" "snd (decl ! i) = Always"
      "fixed_bit_kind (f_kind (fst (decl ! i)))"
      using \<open>masks_ok decl\<close> unfolding masks_ok_def by blast
    then show ?thesis using j(1) less_trans by blast
  qed
  then show ?thesis by (simp add: flags_ok_def)
qed

lemma stamped_unflagged:
  assumes "flags_ok decl flags" "distinct (map (f_name \<circ> fst) decl)" "j < length decl" "snd (decl ! j) \<noteq> Always"
  shows "stamped E decl vals flags j = vals ! j"
proof (cases "map_of flags (f_name (fst (decl ! j)))")
  case (Some gs)
  then have "f_name (fst (decl ! j)) \<in> fst ` set flags" by (force dest: map_of_SomeD)
  then obtain i where "i < length decl" "f_name (fst (decl ! i)) = f_name (fst (decl ! j))" "snd (decl ! i) = Always"
    using assms(1) by (auto simp: flags_ok_def)
  then show ?thesis using name_at [OF assms(2) _ assms(3)] assms(4) by auto
qed (simp add: stamped_def)

lemma stamped_entries_ok:
  assumes "list_all2 entry_ok decl vals" "flags_ok decl flags" "distinct (map (f_name \<circ> fst) decl)" "kinds_ok decl"
  shows "list_all2 entry_ok decl (stamped_all E decl vals flags)"
proof (rule list_all2_all_nthI)
  fix j assume j: "j < length decl"
  have len: "length vals = length decl" and held: "entry_ok (decl ! j) (vals ! j)"
    using assms(1) j by (auto simp: list_all2_conv_all_nth)
  show "entry_ok (decl ! j) (stamped_all E decl vals flags ! j)"
  proof (cases "map_of flags (f_name (fst (decl ! j)))")
    case (Some gs)
    then have "f_name (fst (decl ! j)) \<in> fst ` set flags" by (force dest: map_of_SomeD)
    then obtain i where "i < length decl" "f_name (fst (decl ! i)) = f_name (fst (decl ! j))"
      "fixed_bit_kind (f_kind (fst (decl ! i)))"
      using assms(2) by (auto simp: flags_ok_def)
    then have "fixed_bit_kind (f_kind (fst (decl ! j)))" using name_at [OF assms(3) _ j] by auto
    then show ?thesis
      using value_encode_decode [OF _ codec_at [OF assms(4) j]] Some j
      by (simp add: stamped_all_def stamped_def held_ok_def Let_def)
  qed (use j held in \<open>simp add: stamped_all_def stamped_def\<close>)
qed simp

lemma stamped_test:
  assumes "masks_ok decl" "distinct (map (f_name \<circ> fst) decl)" "kinds_ok decl" "length vals = length decl"
    and j: "j < length decl" "snd (decl ! j) = Masked flag m s"
  shows "\<exists>i < j. f_name (fst (decl ! i)) = flag
    \<and> (bit_flag_test E decl (the (stamped_all E decl vals (bit_flags decl) ! i)) flag m s
        \<longleftrightarrow> stamped_all E decl vals (bit_flags decl) ! j \<noteq> None)"
proof -
  obtain i where i: "i < j" "f_name (fst (decl ! i)) = flag" "snd (decl ! i) = Always"
    "fixed_bit_kind (f_kind (fst (decl ! i)))" "f_kind (fst (decl ! i)) = KScalar ScBool \<Longrightarrow> m = 1"
    "take_bit (kind_width (f_kind (fst (decl ! i)))) m = m"
    using assms(1) j unfolding masks_ok_def by blast
  define k where "k = f_kind (fst (decl ! i))"
  define raw where "raw = flag_number E decl vals (flag, governed_of decl flag)"
  have i': "i < length decl" using i(1) j(1) by simp
  have named: "kind_named decl flag = k" using kind_named_nth [OF assms(2) i'] i(2) by (simp add: k_def)
  have "(m, f_name (fst (decl ! j)), s) \<in> set (governed_of decl flag)"
    using j by (auto simp: governed_member) (metis nth_mem prod.collapse)
  then have "governed_of decl flag \<noteq> []" by auto
  then have at_i: "stamped_all E decl vals (bit_flags decl) ! i = Some (bit_decode E k (take_bit (kind_width k) raw))"
    using i(2) i' by (simp add: stamped_all_def stamped_def bit_flags_map k_def raw_def Let_def)
  have at_j: "stamped_all E decl vals (bit_flags decl) ! j = vals ! j"
    using stamped_unflagged [OF flags_ok_flags [OF assms(1)] assms(2) j(1), of vals] j by (simp add: stamped_all_def)
  have "raw AND m \<noteq> 0 \<longleftrightarrow> (vals ! j \<noteq> None) = s"
    using governed_nth [OF assms(2) j assms(1), of "\<lambda>name. value_named decl vals name \<noteq> None"]
      value_named_nth [OF assms(2) j(1) assms(4)]
    by (simp add: raw_def flag_number_def)
  moreover have "take_bit (kind_width k) (bit_encode E k (bit_decode E k (take_bit (kind_width k) raw))) = take_bit (kind_width k) raw"
    using value_encode_decode [OF i(4) codec_at [OF assms(3) i'], of raw] by (simp add: k_def)
  then have "bit_encode E k (bit_decode E k (take_bit (kind_width k) raw)) AND m = raw AND m"
    using and_within [OF i(6)] unfolding k_def [symmetric] by metis
  ultimately have enc: "bit_encode E k (bit_decode E k (take_bit (kind_width k) raw)) AND m \<noteq> 0 \<longleftrightarrow> (vals ! j \<noteq> None) = s"
    by simp
  have "bit_flag_test E decl (bit_decode E k (take_bit (kind_width k) raw)) flag m s \<longleftrightarrow> vals ! j \<noteq> None"
  proof (cases "k = KScalar ScBool \<and> m = 1")
    case True
    then show ?thesis using enc by (cases s) (auto simp: bit_flag_test_def named bool_codec_def split: if_splits)
  next
    case False
    then show ?thesis using enc unfolding bit_flag_test_def named Let_def by (cases s) auto
  qed
  then show ?thesis using i(1,2) at_i at_j by auto
qed

text \<open>A message that fits is encoded after what the buffer held, and decode answers it with the
  presence bits its optional fields set, the number of its bytes, and nothing else.\<close>

lemma message_round_trip:
  assumes "ok out" "list_all2 entry_ok decl vals" "kinds_ok decl" "distinct (map (f_name \<circ> fst) decl)" "masks_ok decl"
    and room: "enat (length (written B out) + div_ceil (length (message_word decl vals)) 8) \<le> capacity out"
      "div_ceil (length (message_word decl vals)) 8 < 2 ^ 60"
    and "depth \<le> MAX_NESTING_DEPTH"
  shows "\<exists>out'. bit_message_encode E B msb decl vals out = Some (Inr (), out') \<and> ok out'
    \<and> capacity out' = capacity out
    \<and> take (length (written B out)) (written B out') = written B out
    \<and> take (length (message_word decl vals)) (stream msb (drop (length (written B out)) (written B out')))
        = message_word decl (stamped_all E decl vals (bit_flags decl))
    \<and> bit_message_decode E msb decl (drop (length (written B out)) (written B out')) depth
        = Inr (stamped_all E decl vals (bit_flags decl), div_ceil (length (message_word decl vals)) 8)"
proof -
  let ?L = "length (written B out)" and ?n = "length (message_word decl vals)"
  let ?vals = "stamped_all E decl vals (bit_flags decl)" and ?names = "map fst (bit_flags decl)"
  have len: "length vals = length decl" using assms(2) by (simp add: list_all2_lengthD)
  have ceil: "div_ceil (8 * ?L + ?n) 8 = ?L + div_ceil ?n 8" unfolding div_ceil_def by simp
  have base: "8 * ?L - 8 * base_len (writer_new B out) = 0" "base_len (writer_new B out) = ?L"
    using assms(1) by (simp_all add: writer_new_def buf_len)
  from entries_write [OF writer_new_at [OF assms(1)] assms(2,3), of ?names "[]"] room(1)
  obtain w where w: "bit_writes E B msb ?names decl vals [] (writer_new B out) = Some (Inr (marks_from ?names decl vals 0), w)"
    "wrote_word (writer_new B out) (8 * ?L) (message_word decl vals) w"
    unfolding base append_Nil by (auto simp: writer_new_def ceil)
  have "holds_message w ?L (stream msb (written B out)) (message_word decl (stamped_all E decl vals []))"
    using w(2) base(2) by (simp add: wrote_word_def holds_message_def stamped_all_Nil [OF len] writer_new_def)
  from patches_message [OF this assms(4) len assms(3), of "bit_flags decl" ?names] flags_ok_flags [OF assms(5)]
  obtain w' where w': "w' = bit_patches E B msb decl vals (marks_from ?names decl vals 0) (bit_flags decl) w"
    "holds_message w' ?L (stream msb (written B out)) (message_word decl ?vals)"
    "capacity (out_buf w') = capacity (out_buf w)"
    by (auto simp: bit_patches_def patch_one_def [abs_def] bit_flags_distinct)
  let ?new = "written B (out_buf w')"
  have n: "length (message_word decl ?vals) = ?n"
    by (rule length_message_stamped [OF flags_ok_flags [OF assms(5)] assms(4) len])
  have all: "length ?new = ?L + div_ceil ?n 8" "ok (out_buf w')"
    using w'(2) n by (simp_all add: holds_message_def writer_at_def ceil)
  have bits: "take (8 * ?L + ?n) (stream msb ?new) = stream msb (written B out) @ message_word decl ?vals"
    using w'(2) n by (simp add: holds_message_def)
  have "at_word (reader_new (drop ?L ?new)) (message_word decl ?vals)"
    unfolding at_word_def reader_new_def
  proof (intro conjI)
    show "in_memory (rd_bytes \<lparr>rd_bytes = drop ?L ?new, rd_at = 0\<rparr>)" using all room(2) by (simp add: in_memory_def u64_max_def)
    have "?n \<le> 8 * div_ceil ?n 8" using div_ceil_8_le_iff [of ?n "div_ceil ?n 8"] by simp
    then show "rd_at \<lparr>rd_bytes = drop ?L ?new, rd_at = 0\<rparr> + length (message_word decl ?vals)
        \<le> 8 * length (rd_bytes \<lparr>rd_bytes = drop ?L ?new, rd_at = 0\<rparr>)" using all n by simp
    show "take (length (message_word decl ?vals)) (drop (rd_at \<lparr>rd_bytes = drop ?L ?new, rd_at = 0\<rparr>)
        (stream msb (rd_bytes \<lparr>rd_bytes = drop ?L ?new, rd_at = 0\<rparr>))) = message_word decl ?vals"
      using arg_cong [OF bits, of "drop (8 * ?L)"] n by (simp add: take_drop add.commute stream_drop)
  qed
  moreover have "tests_ok decl [] decl ?vals"
    using tests_ok_at [OF assms(4) length_stamped_all stamped_test [OF assms(5,4,3) len], of 0] by simp
  ultimately have "bit_reads E msb decl [] decl (reader_new (drop ?L ?new))
      = Inr (?vals, (reader_new (drop ?L ?new))\<lparr>rd_at := ?n\<rparr>)"
    using entries_read [OF stamped_entries_ok [OF assms(2) flags_ok_flags [OF assms(5)] assms(4,3)] assms(3)] n
    by (simp add: reader_new_def)
  then have "bit_message_decode E msb decl (drop ?L ?new) depth = Inr (?vals, div_ceil ?n 8)"
    using assms(8) by (simp add: bit_message_decode_def bytes_consumed_def reader_new_def)
  moreover have "take ?L ?new = written B out"
  proof (rule stream_inj)
    have "stream msb (take ?L ?new) = take (8 * ?L) (stream msb ?new)"
      by (rule nth_equalityI) (use all stream_bit_append [of _ "take ?L ?new" msb "drop ?L ?new"] in auto)
    also have "\<dots> = stream msb (written B out)"
      using arg_cong [OF bits, of "take (8 * ?L)"] by (simp add: min_def)
    finally show "stream msb (take ?L ?new) = stream msb (written B out)" .
  qed
  moreover have "bit_message_encode E B msb decl vals out = Some (Inr (), out_buf w')"
    using w(1) w'(1) by (simp add: bit_message_encode_def)
  moreover have "capacity (out_buf w') = capacity out" using w'(3) w(2) by (simp add: wrote_word_def writer_new_def)
  moreover have "take ?n (stream msb (drop ?L ?new)) = message_word decl ?vals"
    using arg_cong [OF bits, of "drop (8 * ?L)"] n by (simp add: take_drop add.commute stream_drop)
  ultimately show ?thesis using all(2) by auto
qed

end

section \<open>What the rules promise the generated code\<close>

definition tracks :: "bit_decl \<Rightarrow> bit_walk \<Rightarrow> bool" where
  "tracks decl w \<longleftrightarrow>
     bw_seen w = map (\<lambda>d. bit_seen_of (snd d \<noteq> Always) (fst d)) decl
     \<and> (\<forall>d \<in> set decl. \<forall>flag m s. snd d = Masked flag m s \<longrightarrow> (flag, m, f_name (fst d)) \<in> set (bw_governed w))
     \<and> masks_ok decl \<and> (\<forall>d \<in> set decl. bit_kind (f_kind (fst d)))"

lemma masks_ok_append: "masks_ok decl \<Longrightarrow> (\<And>d. d \<in> set ds \<Longrightarrow> \<nexists>flag m s. snd d = Masked flag m s) \<Longrightarrow> masks_ok (decl @ ds)"
  unfolding masks_ok_def
proof (intro allI impI)
  fix j flag m s
  assume decl: "\<forall>j<length decl. \<forall>flag m s. snd (decl ! j) = Masked flag m s \<longrightarrow> m \<noteq> 0
      \<and> (\<exists>i<j. f_name (fst (decl ! i)) = flag \<and> snd (decl ! i) = Always \<and> fixed_bit_kind (f_kind (fst (decl ! i)))
           \<and> (f_kind (fst (decl ! i)) = KScalar ScBool \<longrightarrow> m = 1) \<and> take_bit (kind_width (f_kind (fst (decl ! i)))) m = m)
      \<and> (\<forall>l<j. \<forall>m' s'. snd (decl ! l) = Masked flag m' s' \<longrightarrow> m' AND m = 0)"
    and ds: "\<And>d. d \<in> set ds \<Longrightarrow> \<nexists>flag m s. snd d = Masked flag m s"
    and j: "j < length (decl @ ds)" "snd ((decl @ ds) ! j) = Masked flag m s"
  then have "j < length decl" using ds [of "ds ! (j - length decl)"] by (auto simp: nth_append split: if_splits)
  moreover from this have "(decl @ ds) ! l = decl ! l" if "l \<le> j" for l using that by (simp add: nth_append)
  ultimately show "m \<noteq> 0
      \<and> (\<exists>i<j. f_name (fst ((decl @ ds) ! i)) = flag \<and> snd ((decl @ ds) ! i) = Always \<and> fixed_bit_kind (f_kind (fst ((decl @ ds) ! i)))
           \<and> (f_kind (fst ((decl @ ds) ! i)) = KScalar ScBool \<longrightarrow> m = 1) \<and> take_bit (kind_width (f_kind (fst ((decl @ ds) ! i)))) m = m)
      \<and> (\<forall>l<j. \<forall>m' s'. snd ((decl @ ds) ! l) = Masked flag m' s' \<longrightarrow> m' AND m = 0)"
    using decl j(2) by (metis less_imp_le order_refl)
qed

lemma masks_ok_snoc:
  assumes "masks_ok decl" "m \<noteq> 0" "i < length decl" "f_name (fst (decl ! i)) = flag" "snd (decl ! i) = Always"
    and "fixed_bit_kind (f_kind (fst (decl ! i)))" "f_kind (fst (decl ! i)) = KScalar ScBool \<longrightarrow> m = 1"
    and "take_bit (kind_width (f_kind (fst (decl ! i)))) m = m"
    and alone: "\<And>f' m' s'. (f', Masked flag m' s') \<in> set decl \<Longrightarrow> m' AND m = 0"
  shows "masks_ok (decl @ [(f, Masked flag m s)])"
  unfolding masks_ok_def
proof (intro allI impI)
  let ?all = "decl @ [(f, Masked flag m s)]"
  fix j flag' m2 s2 assume j: "j < length ?all" "snd (?all ! j) = Masked flag' m2 s2"
  have same: "?all ! l = decl ! l" if "l < length decl" for l using that by (simp add: nth_append)
  show "m2 \<noteq> 0
      \<and> (\<exists>i<j. f_name (fst (?all ! i)) = flag' \<and> snd (?all ! i) = Always \<and> fixed_bit_kind (f_kind (fst (?all ! i)))
           \<and> (f_kind (fst (?all ! i)) = KScalar ScBool \<longrightarrow> m2 = 1) \<and> take_bit (kind_width (f_kind (fst (?all ! i)))) m2 = m2)
      \<and> (\<forall>l<j. \<forall>m' s'. snd (?all ! l) = Masked flag' m' s' \<longrightarrow> m' AND m2 = 0)"
  proof (cases "j < length decl")
    case True
    then have "?all ! l = decl ! l" if "l \<le> j" for l using same that by simp
    then show ?thesis using assms(1) True j(2) unfolding masks_ok_def by (metis less_imp_le order_refl)
  next
    case False
    then have "j = length decl" using j(1) by simp
    then have j': "j = length decl" "flag' = flag" "m2 = m" using j(2) by auto
    have "m' AND m = 0" if "l < length decl" "snd (decl ! l) = Masked flag m' s'" for l m' s'
      using alone that by (metis nth_mem prod.collapse)
    then show ?thesis using assms(2-8) same unfolding j' by (metis (no_types, lifting))
  qed
qed

lemma bit_field_kind: "bit_field P f alone = Inr () \<Longrightarrow> bit_kind (f_kind f) \<and> (\<not> alone \<longrightarrow> fixed_bit_kind (f_kind f))"
  by (cases "f_kind f") (auto simp: bit_field_def bit_kind_def bind_res_Inr_iff split: if_splits)

lemma lookup_tracked:
  assumes "tracks decl w" "lookup_bit (bw_seen w) flag = Some k"
  obtains i where "i < length decl" "f_name (fst (decl ! i)) = flag" "bs_kind k = f_kind (fst (decl ! i))"
    "bs_optional k \<longleftrightarrow> snd (decl ! i) \<noteq> Always"
  using assms by (auto simp: tracks_def lookup_bit_def find_Some_iff bit_seen_of_def)

lemma flag_rules_promise:
  assumes "tracks decl w" "presence_tests when = Some (flag, m, s)" "bit_flag (bw_seen w) name flag = Inr ()"
    and "(if reads_flag when then bit_bool (bw_seen w) name flag else bit_mask (bw_seen w) name flag m) = Inr ()"
    and "bit_alone (bw_governed w) name flag m = Inr ()"
  shows "masks_ok (decl @ [(f, Masked flag m s)])"
proof -
  obtain k where k: "lookup_bit (bw_seen w) flag = Some k" "\<not> bs_optional k" "kind_bits (bs_kind k) \<noteq> None"
    using assms(3) by (auto simp: bit_flag_def split: option.splits if_splits)
  obtain i where i: "i < length decl" "f_name (fst (decl ! i)) = flag" "bs_kind k = f_kind (fst (decl ! i))" "snd (decl ! i) = Always"
    using lookup_tracked [OF assms(1) k(1)] k(2) by blast
  have "bit_kind (bs_kind k)" using assms(1) i by (simp add: tracks_def)
  then have fixed: "fixed_bit_kind (bs_kind k)" using k(3) by (auto simp: bit_kind_def)
  show ?thesis
  proof (rule masks_ok_snoc [OF _ _ i(1,2,4)])
    show "masks_ok decl" using assms(1) by (simp add: tracks_def)
    show "fixed_bit_kind (f_kind (fst (decl ! i)))" using fixed i(3) by simp
    show "m' AND m = 0" if "(f', Masked flag m' s') \<in> set decl" for f' m' s'
      using assms(1,5) that by (fastforce simp: tracks_def bit_alone_def list_ex_iff split: if_splits)
    have m: "m = 1 \<and> bs_kind k = KScalar ScBool
        \<or> m \<noteq> 0 \<and> is_integer_kind (bs_kind k) \<and> take_bit (kind_width (bs_kind k)) m = m"
    proof (cases "reads_flag when")
      case True
      then show ?thesis using assms(2,4) k(1) by (cases "when") (auto simp: bit_bool_def split: if_splits)
    next
      case False
      then show ?thesis
        using assms(4) k fixed_kind_width [OF fixed]
        by (auto simp: bit_mask_def kind_width_def drop_bit_0_iff take_bit_word_eq_self split: if_splits)
    qed
    then show "m \<noteq> 0" "f_kind (fst (decl ! i)) = KScalar ScBool \<longrightarrow> m = 1" using i(3) by auto
    show "take_bit (kind_width (f_kind (fst (decl ! i)))) m = m"
      using m i(3) by (auto simp: kind_width_def)
  qed
qed

lemma bit_segment_promise:
  assumes "bit_segment P w seg = Inr w'" "tracks decl w"
  shows "\<exists>ds. bit_declared_seg seg = Some ds \<and> tracks (decl @ ds) w'"
proof (cases seg)
  case (SBlock fs)
  then have "\<forall>f \<in> set fs. bit_field P f False = Inr ()" and w': "w' = w\<lparr>bw_seen := bw_seen w @ map (bit_seen_of False) fs\<rparr>"
    using assms(1) by (auto simp: rule_results each_Inr_iff)
  then have "\<forall>d \<in> set (decl @ map (\<lambda>f. (f, Always)) fs). bit_kind (f_kind (fst d))"
    using bit_field_kind assms(2) by (fastforce simp: tracks_def)
  moreover have "masks_ok (decl @ map (\<lambda>f. (f, Always)) fs)"
    using assms(2) by (intro masks_ok_append) (auto simp: tracks_def)
  moreover have "bit_declared_seg seg = Some (map (\<lambda>f. (f, Always)) fs)" using SBlock by simp
  ultimately show ?thesis using assms(2) w' by (auto simp: tracks_def comp_def)
next
  case (SOpt wh f)
  then have f: "bit_kind (f_kind f)" using assms(1) bit_field_kind by (auto simp: rule_results)
  show ?thesis
  proof (cases "wh = OnBit")
    case True
    then show ?thesis
      using assms SOpt f masks_ok_append [of decl "[(f, PresentBit)]"] by (auto simp: rule_results tracks_def)
  next
    case False
    then obtain flag m s where t: "presence_tests wh = Some (flag, m, s)"
      using assms(1) SOpt by (cases "presence_tests wh") (auto simp: rule_results)
    then have "masks_ok (decl @ [(f, Masked flag m s)])"
      using assms SOpt False by (intro flag_rules_promise [OF assms(2) t, of "f_name f"]) (auto simp: rule_results split: if_splits)
    then show ?thesis using assms SOpt f t False by (auto simp: rule_results tracks_def)
  qed
next
  case (SValue h k)
  then obtain ty where "k = KVar ty" using assms(1) by (cases k) auto
  then show ?thesis
    using assms SValue masks_ok_append [of decl "[((field_new (sh_name h) (KVar ty))\<lparr>f_doc := sh_doc h\<rparr>, Always)]"]
    by (auto simp: tracks_def bit_seen_of_def field_new_def bit_kind_def)
qed (use assms(1) in simp_all)

lemma bit_segments_promise:
  "bit_segments P w segs = Inr w' \<Longrightarrow> tracks decl w \<Longrightarrow>
     \<exists>ds. map_option concat (those (map bit_declared_seg segs)) = Some ds \<and> tracks (decl @ ds) w'"
proof (induction segs arbitrary: w decl)
  case (Cons seg segs)
  obtain w1 where w1: "bit_segment P w seg = Inr w1" "bit_segments P w1 segs = Inr w'"
    using Cons.prems(1) by (auto simp: rule_results)
  obtain ds where ds: "bit_declared_seg seg = Some ds" "tracks (decl @ ds) w1"
    using bit_segment_promise [OF w1(1) Cons.prems(2)] by blast
  then show ?case using Cons.IH [OF w1(2) ds(2)] by (auto simp: append.assoc)
qed simp

lemma validated_bits:
  assumes "validate_message P m = Inr ()" "mi_bits m = Some order"
  shows "\<exists>decl. bit_declared m = Some decl \<and> masks_ok decl \<and> (\<forall>d \<in> set decl. bit_kind (f_kind (fst d)))"
proof -
  have "validate_bits P m = Inr ()" using assms by (auto simp: validate_message_def rule_results)
  then obtain w where "bit_segments P \<lparr>bw_seen = [], bw_governed = []\<rparr> (mi_segments m) = Inr w"
    by (auto simp: validate_bits_def rule_results split: if_splits)
  moreover have "tracks [] \<lparr>bw_seen = [], bw_governed = []\<rparr>" by (simp add: tracks_def masks_ok_def)
  ultimately obtain decl where "bit_declared m = Some decl" "tracks ([] @ decl) w"
    unfolding bit_declared_def using bit_segments_promise by blast
  then show ?thesis by (simp add: tracks_def)
qed

section \<open>The runtime's own types\<close>

text \<open>Unsigned fields of any width and Exp-Golomb values, in a growable buffer, most significant bit
  first.\<close>

definition runtime_types :: "(u64, u64, u8 list) bit_types" where
  "runtime_types = \<lparr>bt_codec = \<lambda>k. u_codec (kind_width k), bt_var = \<lambda>_. exp_golomb\<rparr>"

definition runtime_valid :: "kind \<Rightarrow> u64 \<Rightarrow> bool" where
  "runtime_valid k v = u_valid (kind_width k) v"

interpretation runtime_bits:
  bit_message_types vec_ops "\<lambda>_. True" "\<lambda>_. \<infinity>" runtime_types True runtime_valid "\<lambda>_. code_word" "{k. bit_kind k}"
proof (intro bit_message_types.intro bit_message_types_axioms.intro)
  show "buffer vec_ops (\<lambda>_. True) (\<lambda>_. \<infinity>)" by (rule vec.buffer_axioms)
  fix k :: kind and ty and v :: u64
  show "codec_for runtime_valid runtime_types k" if "k \<in> {k. bit_kind k}"
    using that u_c.exact_codec_axioms
    by (auto simp: codec_for_def runtime_valid_def [abs_def] runtime_types_def bit_kind_def kind_width_def u_codec_def checked_width_Some)
  show "bit_codec_into vec_ops (\<lambda>_. True) (\<lambda>_. \<infinity>) (bt_var runtime_types ty) code_word True"
    using expg_vec.bit_codec_into_axioms by (simp add: runtime_types_def)
  show "code_word v \<noteq> []" using code_word_length [of v] by auto
qed

section \<open>Properties\<close>


definition sensor :: message_item where
  "sensor = (message_new ''Sensor''
     [SBlock [field_new ''flags'' (KScalar (ScU 3)), field_new ''level'' (KCodec ''U<5>'' 5)],
      SOpt (OnMask ''flags'' 2) (field_new ''peak'' (KScalar (ScI 6))),
      SOpt OnBit (field_new ''extra'' (KVar ''ExpGolomb'')),
      seg_value ''last'' (KVar ''ExpGolomb'')])\<lparr>mi_bits := Some Msb\<rparr>"

definition sensor_decl :: bit_decl where
  "sensor_decl =
     [(field_new ''flags'' (KScalar (ScU 3)), Always), (field_new ''level'' (KCodec ''U<5>'' 5), Always),
      (field_new ''peak'' (KScalar (ScI 6)), Masked ''flags'' 2 True), (field_new ''extra'' (KVar ''ExpGolomb''), PresentBit),
      (field_new ''last'' (KVar ''ExpGolomb''), Always)]"

definition sensor_vals :: "(u64, u64) bit_value option list" where
  "sensor_vals = [Some (BvUint 5), Some (BvCodec 17), Some (BvInt (- 3)), None, Some (BvVar 3)]"

lemma bit_message_types_fewer:
  "bit_message_types B ok capacity E msb valid word kinds \<Longrightarrow> kinds' \<subseteq> kinds \<Longrightarrow> bit_message_types B ok capacity E msb valid word kinds'"
  unfolding bit_message_types_def bit_message_types_axioms_def by blast

lemma sensor_accepted:
  "validate_message lexical sensor = Inr ()" "mi_bits sensor = Some Msb" "bit_declared sensor = Some sensor_decl"
  by (simp_all add: sensor_def sensor_decl_def message_new_def field_new_def seg_value_def head_of_def bit_declared_def
      message_defs bit_rule_defs type_path_def lexical_def lexical_path_def trim_def white_space_def)

lemma sensor_value:
  "distinct (map (f_name \<circ> fst) sensor_decl)" "list_all2 (held_ok runtime_valid) sensor_decl sensor_vals"
  "length (message_word_of runtime_types (\<lambda>_. code_word) True sensor_decl sensor_vals) = 20"
  "stamped_all runtime_types sensor_decl sensor_vals (bit_flags sensor_decl)
     = [Some (BvUint 7), Some (BvCodec 17), Some (BvInt (- 3)), None, Some (BvVar 3)]"
proof -
  note defs = sensor_decl_def sensor_vals_def field_new_def kind_width_def
  have "split_code 3 = (2, 0)" by (simp add: split_code_def ilog2.simps)
  then have "length (code_word 3) = 5" by (simp add: code_word_length)
  then show "length (message_word_of runtime_types (\<lambda>_. code_word) True sensor_decl sensor_vals) = 20"
    by (simp add: defs message_word_of_def value_word_of_def)
  show "distinct (map (f_name \<circ> fst) sensor_decl)" by (simp add: defs)
  show "list_all2 (held_ok runtime_valid) sensor_decl sensor_vals"
    by (simp add: defs held_ok_def value_ok_def runtime_valid_def u_valid_def i_valid_def)
  have "bit_flags sensor_decl = [(''flags'', [(2, ''peak'', True)])]" by (simp add: defs bit_flags_def)
  moreover have "flag_number runtime_types sensor_decl sensor_vals (''flags'', [(2, ''peak'', True)]) = 7"
    by (simp add: defs flag_number_def marked_bits_def governed_mask_def value_named_def kind_named_def)
  ultimately show "stamped_all runtime_types sensor_decl sensor_vals (bit_flags sensor_decl)
     = [Some (BvUint 7), Some (BvCodec 17), Some (BvInt (- 3)), None, Some (BvVar 3)]"
    by (simp add: stamped_all_def stamped_def Let_def upt_rec) (simp add: defs primitive_bits_def)
qed


end
