(* ===== verification/SegmentTables.thy ===== *)
theory SegmentTables
  imports LayoutRows MessageRules BitMessages AuditText
begin

text \<open>
  The segment tables the generator writes: \<open>SEGMENTS\<close> of a message and of each arm of a choice, and
  \<open>COVERED\<close> (\<open>layline-codegen/src/walk/message/table.rs\<close>, the segment rows of \<open>walk/row.rs\<close>, and the
  row each kind of segment adds in \<open>body.rs\<close>, \<open>block.rs\<close>, \<open>value.rs\<close>, \<open>repeat.rs\<close>, \<open>placed.rs\<close>,
  \<open>switch.rs\<close>, \<open>opt.rs\<close>, \<open>checksum.rs\<close> and \<open>bits.rs\<close>). The same rows are printed as the audit text
  (\<open>audit.rs\<close>).

  Only what a row says is computed here; the decode and encode statements written beside it are
  not. \<open>Panicked\<close> is the panic of \<open>Extent::new\<close> in a hidden layout's rows.

  The theorems connect a table to the wire and to the runtime: the rows of a byte-addressed body
  are laid out one after the other in every wire that gives them the sizes they state, which is what
  \<open>fixed_bits\<close> and \<open>arms_fit\<close> of the compiled program assume, and the rows of a bit-addressed message
  say at which bit encode writes each field.
\<close>

section \<open>Rows\<close>

datatype row_span =
    RFixed nat
  | RCounted num_by "nat option"
  | RSquared num_by "nat option"
  | RStrided num_by num_by
  | RWindow num_by
  | RSelfDelimiting
  | RPad nat
  | RUntil u8
  | RTerminated u8
  | RFill "nat option"
  | RChosen switch_on
  | RChosenIn switch_on nat
  | RChosenWithin switch_on num_by

text \<open>\<open>'start\<close> is \<open>seg_start\<close> in a row of the table and \<open>seg_start option\<close> in one not placed yet.\<close>

record 'start row =
  rw_name :: string
  rw_start :: 'start
  rw_span :: row_span
  rw_when :: "presence option"
  rw_decoded_by :: "string option"
  rw_table :: "(string \<times> field_def list) option" \<comment> \<open>\<open>Table\<close>: type and rows\<close>
  rw_covers :: "cover_def option"

definition row_new :: "string \<Rightarrow> row_span \<Rightarrow> seg_start option row" where
  "row_new name sp =
     \<lparr>rw_name = name, rw_start = None, rw_span = sp, rw_when = None, rw_decoded_by = None, rw_table = None, rw_covers = None\<rparr>"

record rows =
  rs_rows :: "seg_start row list"
  rs_at :: nat
  rs_from :: "string option"
  rs_last :: string

definition rows_new :: rows where
  "rows_new = \<lparr>rs_rows = [], rs_at = 0, rs_from = None, rs_last = []\<rparr>"

definition rows_start :: "rows \<Rightarrow> seg_start" where
  "rows_start rs = (case rs_from rs of None \<Rightarrow> StartAt (rs_at rs) | Some seg \<Rightarrow> StartAfter seg (rs_at rs))"

definition rows_push :: "rows \<Rightarrow> seg_start option row \<Rightarrow> rows" where
  "rows_push rs r =
     rs\<lparr>rs_rows := rs_rows rs @
          [\<lparr>rw_name = rw_name r, rw_start = (case rw_start r of Some s \<Rightarrow> s | None \<Rightarrow> rows_start rs), rw_span = rw_span r,
            rw_when = rw_when r, rw_decoded_by = map_option trim (rw_decoded_by r), rw_table = rw_table r,
            rw_covers = rw_covers r\<rparr>],
        rs_last := rw_name r\<rparr>"

definition rows_advance :: "rows \<Rightarrow> nat option \<Rightarrow> rows" where
  "rows_advance rs bits =
     (case bits of
        Some b \<Rightarrow> rs\<lparr>rs_at := rs_at rs + b\<rparr>
      | None \<Rightarrow> rs\<lparr>rs_from := Some (rs_last rs), rs_at := 0\<rparr>)"

fun span_of_len :: "len \<Rightarrow> row_span" where
  "span_of_len (LenBytes n) = RFixed (n * 8)"
| "span_of_len (LenField by _ _) = RWindow by"
| "span_of_len (LenUntil t) = RUntil t"
| "span_of_len LenFill = RFill None"

fun span_of_kind :: "kind \<Rightarrow> row_span" where
  "span_of_kind (KVar _) = RSelfDelimiting"
| "span_of_kind (KMsg _ _ _) = RSelfDelimiting"
| "span_of_kind (KText len _) = span_of_len len"
| "span_of_kind k = RFixed (kind_width k)"

fun span_of_count :: "count_kind \<Rightarrow> nat option \<Rightarrow> row_span" where
  "span_of_count (CountField by _) width = RCounted by width"
| "span_of_count (CountSquared by _) width = RSquared by width"
| "span_of_count (CountStrided by _ stride) width = RStrided by stride"
| "span_of_count (CountWindow len) width = span_of_len len"
| "span_of_count (CountTerminated m) width = RTerminated m"
| "span_of_count (CountFill cap) width =
     RFill (case (cap, width) of (Some c, Some bits) \<Rightarrow> Some (c * bits) | _ \<Rightarrow> None)"

fun deferred_type :: "kind \<Rightarrow> string option" where
  "deferred_type (KNested ty _) = Some ty"
| "deferred_type (KNestedArray ty _ _) = Some ty"
| "deferred_type (KCodec ty _) = Some ty"
| "deferred_type (KVar ty) = Some ty"
| "deferred_type (KMsg ty _ _) = Some ty"
| "deferred_type _ = None"

section \<open>The row of a segment\<close>

datatype refusal = Refused string | Panicked

text \<open>The numbers of the hidden layouts, shared by the arms of a choice.\<close>

record counters =
  n_block :: nat
  n_opt :: nat
  n_ck :: nat

definition counters_new :: counters where
  "counters_new = \<lparr>n_block = 0, n_opt = 0, n_ck = 0\<rparr>"

definition hidden_name :: "string \<Rightarrow> string \<Rightarrow> nat \<Rightarrow> string" where
  "hidden_name owner what n = ''__'' @ owner @ what @ dec n"

text \<open>\<open>Row::table\<close>\<close>

definition with_table :: "seg_start option row \<Rightarrow> string \<Rightarrow> field list \<Rightarrow> nat \<Rightarrow> endian \<Rightarrow> refusal + seg_start option row" where
  "with_table r ty fs bits e =
     (case field_rows fs (CBytes (bits div 8) e) of
        None \<Rightarrow> Inl Panicked
      | Some rows \<Rightarrow> Inr (r\<lparr>rw_table := Some (ty, rows)\<rparr>))"

text \<open>The width of one element, \<open>None\<close> when it reports its own.\<close>

definition element_len :: "kind \<Rightarrow> refusal + nat option" where
  "element_len k =
     (case k of
        KNested _ bytes \<Rightarrow> if bytes = 0 then Inl (Refused ''the collection element is zero bytes'') else Inr (Some bytes)
      | KScalar s \<Rightarrow>
          if scalar_bits s div 8 = 0 then Inl (Refused ''the collection element is narrower than a byte'')
          else Inr (Some (scalar_bits s div 8))
      | KVar _ \<Rightarrow> Inr None
      | KMsg _ _ _ \<Rightarrow> Inr None
      | KText _ _ \<Rightarrow> Inr None
      | _ \<Rightarrow> Inl (Refused ''unsupported collection element''))"

definition block_row :: "string \<Rightarrow> endian \<Rightarrow> nat \<Rightarrow> field list \<Rightarrow> refusal + seg_start option row" where
  "block_row owner e n fs =
     (let sub = hidden_name owner ''Block'' n; tot = sum_list (map (\<lambda>f. kind_width (f_kind f)) fs)
      in if tot mod 8 \<noteq> 0 then Inl (Refused ''the block does not end on a byte boundary'')
         else with_table (row_new sub (RFixed tot)) sub fs tot e)"

definition repeat_row :: "string \<Rightarrow> kind \<Rightarrow> count_kind \<Rightarrow> string option \<Rightarrow> collection \<Rightarrow> refusal + seg_start option row" where
  "repeat_row name element cnt pos col =
     bind_res (if borrows col then Inr (row_new name (span_of_count cnt (Some 8)))
               else bind_res (element_len element) (\<lambda>len.
                 Inr ((row_new name (span_of_count cnt (map_option (\<lambda>n. n * 8) len)))\<lparr>rw_decoded_by := deferred_type element\<rparr>)))
       (\<lambda>r. Inr (case pos of Some field \<Rightarrow> r\<lparr>rw_start := Some (StartSeek field)\<rparr> | None \<Rightarrow> r))"

definition placed_row :: "string \<Rightarrow> kind \<Rightarrow> string \<Rightarrow> absence option \<Rightarrow> refusal + seg_start option row" where
  "placed_row name k pos gone =
     bind_res (element_len k) (\<lambda>_.
       Inr ((row_new name (span_of_kind k))
         \<lparr>rw_decoded_by := deferred_type k, rw_start := Some (StartSeek pos),
          rw_when := (case gone of None \<Rightarrow> None | Some ZeroOffset \<Rightarrow> Some WhenOffset | Some (ZeroLength by _) \<Rightarrow> Some (WhenLength by))\<rparr>))"

definition switch_row :: "string \<Rightarrow> switch_on \<Rightarrow> string \<Rightarrow> len option \<Rightarrow> refusal + seg_start option row" where
  "switch_row name on choice window =
     bind_res (case window of
                 None \<Rightarrow> Inr (RChosen on)
               | Some (LenBytes n) \<Rightarrow> Inr (RChosenIn on (n * 8))
               | Some (LenField by _ _) \<Rightarrow> Inr (RChosenWithin on by)
               | Some _ \<Rightarrow> Inl (Refused ''the switch window is not supported''))
       (\<lambda>sp. Inr ((row_new name sp)\<lparr>rw_decoded_by := Some choice\<rparr>))"

fun when_row :: "when_present \<Rightarrow> presence" where
  "when_row (OnMask flag m) = WhenFlag flag m"
| "when_row (OnFlag flag) = WhenFlag flag 1"
| "when_row (OnMaskClear flag m) = WhenClear flag m"
| "when_row (OnFlagClear flag) = WhenClear flag 1"
| "when_row OnRemaining = WhenRemaining"
| "when_row OnBit = WhenBit"

definition opt_row :: "string \<Rightarrow> endian \<Rightarrow> nat \<Rightarrow> when_present \<Rightarrow> field \<Rightarrow> refusal + (seg_start option row \<times> nat)" where
  "opt_row owner e n when f =
     (if when = OnBit then Inl (Refused ''an inline presence bit in a byte-addressed message'')
      else let r = (row_new (f_name f) (span_of_kind (f_kind f)))
                     \<lparr>rw_decoded_by := deferred_type (f_kind f), rw_when := Some (when_row when)\<rparr>;
               bits = kind_width (f_kind f)
           in if (case f_kind f of KVar _ \<Rightarrow> True | KMsg _ _ _ \<Rightarrow> True | KText _ _ \<Rightarrow> True | _ \<Rightarrow> False) then Inr (r, n)
              else if bits = 0 \<or> bits mod 8 \<noteq> 0 then Inl (Refused ''the optional field is not whole bytes'')
              else bind_res (with_table r (hidden_name owner ''Opt'' n) [f] bits e) (\<lambda>r'. Inr (r', n + 1)))"

definition excludes_self :: "segment list \<Rightarrow> string \<Rightarrow> coverage \<Rightarrow> bool" where
  "excludes_self segs own over =
     (let order = (\<lambda>row. index_where (\<lambda>p. p = row) (concat (map seg_places segs)))
      in case order own of
           None \<Rightarrow> False
         | Some ck \<Rightarrow>
             (case resolve_coverage over (ck, ck + 1) (\<lambda>row. map_option (\<lambda>i. (i, i + 1)) (order row)) of
                None \<Rightarrow> False | Some c \<Rightarrow> excises c))"

definition checksum_row ::
    "string \<Rightarrow> endian \<Rightarrow> nat \<Rightarrow> segment list \<Rightarrow> string \<Rightarrow> scalar \<Rightarrow> string \<Rightarrow> coverage \<Rightarrow> refusal + seg_start option row" where
  "checksum_row owner e n segs name repr algorithm over =
     (let bits = scalar_bits repr; sub = hidden_name owner ''Ck'' n
      in if bits = 0 \<or> bits mod 8 \<noteq> 0 then Inl (Refused ''the checksum field is not whole bytes'')
         else map_res (\<lambda>r. r\<lparr>rw_covers := Some (cover_def_new name over (excludes_self segs name over))\<rparr>)
                (with_table ((row_new name (RFixed bits))\<lparr>rw_decoded_by := Some algorithm\<rparr>) sub [field_new name (KScalar repr)] bits e))"

fun seg_row :: "string \<Rightarrow> endian \<Rightarrow> segment list \<Rightarrow> counters \<Rightarrow> segment \<Rightarrow> refusal + (seg_start option row \<times> counters)" where
  "seg_row owner e segs n (SBlock fs) = map_res (\<lambda>r. (r, n\<lparr>n_block := n_block n + 1\<rparr>)) (block_row owner e (n_block n) fs)"
| "seg_row owner e segs n (SValue h k) = Inr ((row_new (sh_name h) (span_of_kind k))\<lparr>rw_decoded_by := deferred_type k\<rparr>, n)"
| "seg_row owner e segs n (SRepeat h element cnt pos col) = map_res (\<lambda>r. (r, n)) (repeat_row (sh_name h) element cnt pos col)"
| "seg_row owner e segs n (SPlaced h k pos gone) = map_res (\<lambda>r. (r, n)) (placed_row (sh_name h) k pos gone)"
| "seg_row owner e segs n (SSwitch h on choice window) = map_res (\<lambda>r. (r, n)) (switch_row (sh_name h) on choice window)"
| "seg_row owner e segs n (SOpt when f) = map_res (\<lambda>(r, k). (r, n\<lparr>n_opt := k\<rparr>)) (opt_row owner e (n_opt n) when f)"
| "seg_row owner e segs n (SChecksum h repr algorithm over) =
     map_res (\<lambda>r. (r, n\<lparr>n_ck := n_ck n + 1\<rparr>)) (checksum_row owner e (n_ck n) segs (sh_name h) repr algorithm over)"

definition pad_row :: "segment \<Rightarrow> string \<Rightarrow> nat \<Rightarrow> seg_start option row" where
  "pad_row seg name align =
     (let r = row_new (name @ ''.pad'') (RPad align)
      in case seg of SPlaced _ _ _ (Some (ZeroLength by _)) \<Rightarrow> r\<lparr>rw_when := Some (WhenLength by)\<rparr> | _ \<Rightarrow> r)"

definition add_segment :: "rows \<Rightarrow> segment \<Rightarrow> seg_start option row \<Rightarrow> rows" where
  "add_segment rs seg r =
     (let rs = rows_push rs r;
          rs = (case (seg_align seg, seg_name seg) of
                  (Some align, Some name) \<Rightarrow> rows_push (rows_advance rs None) (pad_row seg name align)
                | _ \<Rightarrow> rs)
      in rows_advance rs (seg_fixed_bits seg))"

fun table_loop :: "string \<Rightarrow> endian \<Rightarrow> segment list \<Rightarrow> segment list \<Rightarrow> rows \<times> counters \<Rightarrow> refusal + (rows \<times> counters)" where
  "table_loop owner e segs [] (rs, n) = Inr (rs, n)"
| "table_loop owner e segs (seg # todo) (rs, n) =
     bind_res (seg_row owner e segs n seg) (\<lambda>(r, n'). table_loop owner e segs todo (add_segment rs seg r, n'))"

definition body_rows :: "string \<Rightarrow> endian \<Rightarrow> segment list \<Rightarrow> counters \<Rightarrow> refusal + (seg_start row list \<times> counters)" where
  "body_rows owner e segs n = map_res (\<lambda>(rs, n'). (rs_rows rs, n')) (table_loop owner e segs segs (rows_new, n))"

section \<open>Whole tables\<close>

text \<open>A row of a bit-addressed message: where it starts, counted like \<open>Rows\<close> counts, with the
  presence bit before the field it gates.\<close>

definition bit_start :: "string option \<Rightarrow> nat \<Rightarrow> seg_start" where
  "bit_start seg pos = (case seg of None \<Rightarrow> StartAt pos | Some name \<Rightarrow> StartAfter name pos)"

fun bit_when :: "bit_presence \<Rightarrow> presence option" where
  "bit_when Always = None"
| "bit_when PresentBit = Some WhenBit"
| "bit_when (Masked flag m True) = Some (WhenFlag flag m)"
| "bit_when (Masked flag m False) = Some (WhenClear flag m)"

definition bit_row :: "string option \<Rightarrow> nat \<Rightarrow> field \<times> bit_presence \<Rightarrow> seg_start row" where
  "bit_row seg pos d =
     \<lparr>rw_name = f_name (fst d), rw_start = (if snd d = PresentBit then bit_start seg (pos + 1) else bit_start seg pos),
      rw_span = span_of_kind (f_kind (fst d)), rw_when = bit_when (snd d),
      rw_decoded_by = (case f_kind (fst d) of KVar ty \<Rightarrow> Some ty | _ \<Rightarrow> None), rw_table = None, rw_covers = None\<rparr>"

fun bit_rows_from :: "string option \<Rightarrow> nat \<Rightarrow> bit_decl \<Rightarrow> seg_start row list" where
  "bit_rows_from seg pos [] = []"
| "bit_rows_from seg pos (d # decl) =
     bit_row seg pos d
     # (if snd d \<noteq> Always \<or> kind_bits (f_kind (fst d)) = None then bit_rows_from (Some (f_name (fst d))) 0 decl
        else bit_rows_from seg (pos + kind_width (f_kind (fst d))) decl)"

definition bit_rows :: "bit_decl \<Rightarrow> seg_start row list" where
  "bit_rows decl = bit_rows_from None 0 decl"

definition message_rows :: "message_item \<Rightarrow> refusal + seg_start row list" where
  "message_rows m =
     (if mi_bits m \<noteq> None
      then (case bit_declared m of
              None \<Rightarrow> Inl (Refused ''the segment cannot be in a bit-addressed message'')
            | Some decl \<Rightarrow> Inr (bit_rows decl))
      else map_res fst (body_rows (mi_name m) (mi_endian m) (mi_segments m) counters_new))"

text \<open>\<open>row::ArmDef\<close>: the value is cast from \<open>u64\<close> to \<open>i64\<close>.\<close>

record arm_row =
  aw_name :: string
  aw_value :: "i64 option"
  aw_segments :: "seg_start row list"

fun arm_rows_loop :: "string \<Rightarrow> endian \<Rightarrow> counters \<Rightarrow> arm list \<Rightarrow> refusal + arm_row list" where
  "arm_rows_loop owner e n [] = Inr []"
| "arm_rows_loop owner e n (a # arms) =
     bind_res (body_rows owner e (am_body a) n) (\<lambda>(rs, n').
     map_res ((#) \<lparr>aw_name = am_name a, aw_value = Some (of_nat (am_value a)), aw_segments = rs\<rparr>)
       (arm_rows_loop owner e n' arms))"

definition other_arm :: "string \<Rightarrow> nat option \<Rightarrow> arm_row" where
  "other_arm name bytes =
     \<lparr>aw_name = name, aw_value = None,
      aw_segments = [\<lparr>rw_name = name, rw_start = StartAt 0,
        rw_span = (case bytes of Some n \<Rightarrow> RFixed (n * 8) | None \<Rightarrow> RFill None),
        rw_when = None, rw_decoded_by = None, rw_table = None, rw_covers = None\<rparr>]\<rparr>"

definition choice_rows :: "choice_item \<Rightarrow> refusal + arm_row list" where
  "choice_rows c =
     map_res (\<lambda>arms. arms @ (case ci_other c of Some name \<Rightarrow> [other_arm name (ci_other_bytes c)] | None \<Rightarrow> []))
       (arm_rows_loop (ci_name c) (ci_endian c) counters_new (ci_arms c))"

section \<open>The tables the program is compiled with\<close>

definition by_tokens :: "num_by \<Rightarrow> by_def" where
  "by_tokens b =
     (if nb_scale b = 1 \<and> nb_offset b = 0 then by_of_field (nb_field b)
      else \<lparr>by_field = nb_field b, by_scale = nb_scale b, by_offset = nb_offset b\<rparr>)"

fun discriminant_tokens :: "switch_on \<Rightarrow> discriminant" where
  "discriminant_tokens (SwitchField f) = OnField f"
| "discriminant_tokens SwitchBodyLength = BodyLength"

fun span_tokens :: "row_span \<Rightarrow> span" where
  "span_tokens (RFixed bits) = FixedBits bits"
| "span_tokens (RCounted by w) = Counted (by_tokens by) w"
| "span_tokens (RSquared by w) = Squared (by_tokens by) w"
| "span_tokens (RStrided by stride) = Strided (by_tokens by) (by_tokens stride)"
| "span_tokens (RWindow by) = Window (by_tokens by)"
| "span_tokens RSelfDelimiting = SelfDelimiting"
| "span_tokens (RPad align) = Pad align"
| "span_tokens (RUntil t) = Until t"
| "span_tokens (RTerminated m) = Terminated m"
| "span_tokens (RFill cap) = Fill cap"
| "span_tokens (RChosen on) = Chosen (discriminant_tokens on)"
| "span_tokens (RChosenIn on bits) = ChosenIn (discriminant_tokens on) bits"
| "span_tokens (RChosenWithin on by) = ChosenWithin (discriminant_tokens on) (by_tokens by)"

text \<open>A row's \<open>fields\<close> are the \<open>FIELDS\<close> of its hidden layout.\<close>

definition row_tokens :: "seg_start row \<Rightarrow> segment_def" where
  "row_tokens r =
     \<lparr>sg_name = rw_name r, sg_start = rw_start r, sg_span = span_tokens (rw_span r), sg_when = rw_when r,
      sg_decoded_by = rw_decoded_by r, sg_fields = (case rw_table r of Some (_, fs) \<Rightarrow> fs | None \<Rightarrow> [])\<rparr>"

definition covers_table :: "seg_start row list \<Rightarrow> cover_def list" where
  "covers_table rs = List.map_filter rw_covers rs"

section \<open>The audit text\<close>

text \<open>\<open>audit.rs\<close> borrows the rows as the runtime's records and prints those.\<close>

definition by_view :: "num_by \<Rightarrow> by_def" where
  "by_view b = \<lparr>by_field = nb_field b, by_scale = nb_scale b, by_offset = nb_offset b\<rparr>"

fun span_view :: "row_span \<Rightarrow> span" where
  "span_view (RFixed bits) = FixedBits bits"
| "span_view (RTerminated m) = Terminated m"
| "span_view (RCounted by w) = Counted (by_view by) w"
| "span_view (RSquared by w) = Squared (by_view by) w"
| "span_view (RStrided by stride) = Strided (by_view by) (by_view stride)"
| "span_view (RWindow by) = Window (by_view by)"
| "span_view RSelfDelimiting = SelfDelimiting"
| "span_view (RPad align) = Pad align"
| "span_view (RUntil t) = Until t"
| "span_view (RFill cap) = Fill cap"
| "span_view (RChosen on) = Chosen (discriminant_tokens on)"
| "span_view (RChosenIn on bits) = ChosenIn (discriminant_tokens on) bits"
| "span_view (RChosenWithin on by) = ChosenWithin (discriminant_tokens on) (by_view by)"

definition segment_view :: "seg_start row \<Rightarrow> segment_def" where
  "segment_view r =
     \<lparr>sg_name = rw_name r, sg_start = rw_start r, sg_span = span_view (rw_span r), sg_when = rw_when r,
      sg_decoded_by = rw_decoded_by r, sg_fields = (case rw_table r of Some (_, fs) \<Rightarrow> fs | None \<Rightarrow> [])\<rparr>"

definition param_view :: "param \<Rightarrow> param_def" where
  "param_view p = \<lparr>pd_name = pm_name p, pd_ty = primitive (pm_repr p)\<rparr>"

definition audit_message_text :: "string \<Rightarrow> param list \<Rightarrow> seg_start row list \<Rightarrow> string" where
  "audit_message_text name needs rs =
     show_message ((audit_message name (map segment_view rs))
       \<lparr>mr_covered := List.map_filter rw_covers rs, mr_params := map param_view needs\<rparr>)"

definition audit_choice_text :: "string \<Rightarrow> arm_row list \<Rightarrow> string" where
  "audit_choice_text name arms =
     show_choice ((audit_choice name (map (\<lambda>a. \<lparr>ar_name = aw_name a, ar_value = aw_value a,
           ar_segments = map segment_view (aw_segments a)\<rparr>) arms))
       \<lparr>cr_covered := map (\<lambda>a. \<lparr>ac_arm = aw_name a, ac_covered = covers_table (aw_segments a)\<rparr>)
           (filter (\<lambda>a. covers_table (aw_segments a) \<noteq> []) arms)\<rparr>)"

section \<open>Rows in a wire\<close>

text \<open>Widths the rows may have in a wire: those of known size have it.\<close>

definition widths_for :: "segment_def list \<Rightarrow> nat list \<Rightarrow> bool" where
  "widths_for rs ws \<longleftrightarrow> list_all2 (\<lambda>r w. \<forall>b. seg_extent r = Some b \<longrightarrow> w = b) rs ws"

lemma widths_for_snoc: "widths_for (rs @ [r]) ws \<longleftrightarrow>
    (\<exists>ws' w. ws = ws' @ [w] \<and> widths_for rs ws' \<and> (\<forall>b. seg_extent r = Some b \<longrightarrow> w = b))"
proof (cases ws rule: rev_cases)
  case (snoc ws' w)
  then show ?thesis
    using list_all2_append [of rs ws' _ "[r]" "[w]"] list_all2_lengthD by (fastforce simp: widths_for_def)
qed (simp add: widths_for_def)

lemma laid_out_snoc:
  "length rs = length ws \<Longrightarrow> laid_out (rs @ [r]) (ws @ [w]) pos \<longleftrightarrow>
     laid_out rs ws pos \<and> (case start_bit (sg_start r) of Some b \<Rightarrow> b = pos + sum_list ws | None \<Rightarrow> True)
     \<and> (case seg_extent r of Some b \<Rightarrow> w = b | None \<Rightarrow> True)"
proof (induction rs ws pos rule: laid_out.induct)
  case (2 q rs v ws pos)
  then show ?case by (auto simp: add.assoc split: option.splits)
qed (auto split: option.splits)

text \<open>Rows that are read in order are laid out in order: a row at a known bit is there, and a row that starts after
  another names an earlier one, and in every wire starts as many bits after the end of that one as it says.\<close>

definition follows :: "seg_start row list \<Rightarrow> string \<Rightarrow> nat \<Rightarrow> bool" where
  "follows rs seg b \<longleftrightarrow> (\<exists>j < length rs. rw_name (rs ! j) = seg
     \<and> (\<forall>ws. widths_for (map row_tokens rs) ws \<longrightarrow> sum_list (drop (Suc j) ws) = b))"

definition in_wire :: "seg_start row list \<Rightarrow> bool" where
  "in_wire rs \<longleftrightarrow> (\<forall>ws. widths_for (map row_tokens rs) ws \<longrightarrow> laid_out (map row_tokens rs) ws 0)
     \<and> (\<forall>i < length rs. \<forall>seg b. rw_start (rs ! i) = StartAfter seg b \<longrightarrow> follows (take i rs) seg b)"

definition counted :: "rows \<Rightarrow> bool" where
  "counted rs \<longleftrightarrow> in_wire (rs_rows rs)
     \<and> (case rs_from rs of
          None \<Rightarrow> \<forall>ws. widths_for (map row_tokens (rs_rows rs)) ws \<longrightarrow> sum_list ws = rs_at rs
        | Some seg \<Rightarrow> follows (rs_rows rs) seg (rs_at rs))"

lemma follows_last: "rs \<noteq> [] \<Longrightarrow> follows rs (rw_name (last rs)) 0"
proof -
  assume "rs \<noteq> []"
  then have n: "length rs - 1 < length rs" "rs ! (length rs - 1) = last rs" by (simp_all add: last_conv_nth)
  have "sum_list (drop (Suc (length rs - 1)) ws) = 0" if "widths_for (map row_tokens rs) ws" for ws
    using that n(1) by (auto simp: widths_for_def dest: list_all2_lengthD)
  then show ?thesis using n unfolding follows_def by metis
qed

lemma follows_snoc:
  assumes "follows rs seg b" "seg_extent (row_tokens r) = Some w"
  shows "follows (rs @ [r]) seg (b + w)"
proof -
  obtain j where j: "j < length rs" "rw_name (rs ! j) = seg"
    "\<And>ws. widths_for (map row_tokens rs) ws \<Longrightarrow> sum_list (drop (Suc j) ws) = b"
    using assms(1) by (auto simp: follows_def)
  have "sum_list (drop (Suc j) ws) = b + w" if W: "widths_for (map row_tokens (rs @ [r])) ws" for ws
  proof -
    obtain ws' where ws: "ws = ws' @ [w]" "widths_for (map row_tokens rs) ws'"
      using W assms(2) unfolding map_append list.map widths_for_snoc by auto
    then have "length ws' = length rs" by (auto simp: widths_for_def dest: list_all2_lengthD)
    then show ?thesis using j(1) j(3) [OF ws(2)] ws(1) by simp
  qed
  then show ?thesis using j(1,2) unfolding follows_def by (intro exI [of _ j]) (simp add: nth_append)
qed

lemma in_wire_snoc:
  assumes "in_wire rs"
    and start: "\<And>b ws. rw_start r = StartAt b \<Longrightarrow> widths_for (map row_tokens rs) ws \<Longrightarrow> b = sum_list ws"
      "\<And>seg b. rw_start r = StartAfter seg b \<Longrightarrow> follows rs seg b"
  shows "in_wire (rs @ [r])"
  unfolding in_wire_def
proof (intro conjI allI impI)
  fix ws assume "widths_for (map row_tokens (rs @ [r])) ws"
  then obtain ws' w where ws: "ws = ws' @ [w]" "widths_for (map row_tokens rs) ws'" "\<forall>b. seg_extent (row_tokens r) = Some b \<longrightarrow> w = b"
    unfolding map_append list.map widths_for_snoc by blast
  have "length (map row_tokens rs) = length ws'" using ws(2) by (auto simp: widths_for_def dest: list_all2_lengthD)
  moreover have "laid_out (map row_tokens rs) ws' 0" using assms(1) ws(2) by (simp add: in_wire_def)
  moreover have "case start_bit (rw_start r) of Some b \<Rightarrow> b = sum_list ws' | None \<Rightarrow> True"
    using start(1) [OF _ ws(2)] by (cases "rw_start r") auto
  ultimately show "laid_out (map row_tokens (rs @ [r])) ws 0"
    using ws(1,3) laid_out_snoc [of "map row_tokens rs" ws' "row_tokens r" w 0] by (auto simp: row_tokens_def split: option.splits)
next
  fix i seg b assume i: "i < length (rs @ [r])" "rw_start ((rs @ [r]) ! i) = StartAfter seg b"
  show "follows (take i (rs @ [r])) seg b"
  proof (cases "i < length rs")
    case True
    then show ?thesis using assms(1) i(2) by (auto simp: in_wire_def nth_append)
  next
    case False
    then have "i = length rs" using i(1) by simp
    then show ?thesis using start(2) i(2) by simp
  qed
qed

text \<open>A row pushed where the count stands, or at a place decode seeks to.\<close>

lemma push_in_wire:
  assumes "counted rs" "rw_start r = None \<or> (\<exists>by. rw_start r = Some (StartSeek by))"
  shows "in_wire (rs_rows (rows_push rs r))" "rs_rows (rows_push rs r) \<noteq> [] \<and> rs_last (rows_push rs r) = rw_name (last (rs_rows (rows_push rs r)))"
proof -
  show "in_wire (rs_rows (rows_push rs r))"
    unfolding rows_push_def rows.simps rows.select_convs rows.update_convs
  proof (simp, rule in_wire_snoc)
    show "in_wire (rs_rows rs)" using assms(1) by (simp add: counted_def)
  qed (use assms in \<open>auto simp: counted_def rows_start_def split: option.splits\<close>)
qed (simp add: rows_push_def)

lemma advance_unknown:
  "in_wire (rs_rows rs) \<Longrightarrow> rs_rows rs \<noteq> [] \<and> rs_last rs = rw_name (last (rs_rows rs)) \<Longrightarrow> counted (rows_advance rs None)"
  by (simp add: counted_def rows_advance_def follows_last)

lemma advance_known:
  assumes "counted rs" "in_wire (rs_rows (rows_push rs r))" "rw_when r = None" "span_bits (span_tokens (rw_span r)) = Some b"
  shows "counted (rows_advance (rows_push rs r) (Some b))"
proof -
  let ?r = "row_tokens (last (rs_rows (rows_push rs r)))"
  have rows: "map row_tokens (rs_rows (rows_push rs r)) = map row_tokens (rs_rows rs) @ [?r]" by (simp add: rows_push_def)
  have "seg_extent ?r = Some b" using assms(3,4) by (simp add: rows_push_def row_tokens_def seg_extent_def)
  then have "sum_list ws = rs_at rs + b"
    if "rs_from rs = None" "widths_for (map row_tokens (rs_rows (rows_push rs r))) ws" for ws
    using that assms(1) unfolding rows widths_for_snoc by (auto simp: counted_def)
  moreover have "follows (rs_rows (rows_push rs r)) seg (rs_at rs + b)" if "rs_from rs = Some seg" for seg
    using that assms(1) follows_snoc [of "rs_rows rs" seg "rs_at rs" "last (rs_rows (rows_push rs r))" b]
      \<open>seg_extent ?r = Some b\<close> by (simp add: counted_def rows_push_def)
  ultimately show ?thesis
    using assms(1,2) by (auto simp: counted_def rows_advance_def rows_push_def split: option.splits)
qed

lemma sum_options_width: "sum_options (map (\<lambda>f. kind_bits (f_kind f)) fs) = Some b \<Longrightarrow> sum_list (map (\<lambda>f. kind_width (f_kind f)) fs) = b"
proof (induction fs arbitrary: b)
  case (Cons f fs)
  then show ?case by (cases "kind_bits (f_kind f)") (auto simp: kind_width_def)
qed simp

lemma seg_row_shape:
  assumes "seg_row owner e segs n seg = Inr (r, n')"
  shows "rw_start r = None \<or> (\<exists>by. rw_start r = Some (StartSeek by))"
    "seg_fixed_bits seg = Some b \<Longrightarrow> rw_start r = None \<and> rw_when r = None \<and> span_bits (span_tokens (rw_span r)) = Some b \<and> seg_align seg = None"
proof -
  note defs = rule_results row_new_def with_table_def Let_def
  have "(rw_start r = None \<or> (\<exists>by. rw_start r = Some (StartSeek by)))
      \<and> (seg_fixed_bits seg = Some b \<longrightarrow> rw_start r = None \<and> rw_when r = None \<and> span_bits (span_tokens (rw_span r)) = Some b \<and> seg_align seg = None)"
  proof (cases seg)
    case (SBlock fs)
    have "seg_fixed_bits seg = Some b \<Longrightarrow> sum_list (map (\<lambda>f. kind_width (f_kind f)) fs) = b"
      unfolding SBlock seg_fixed_bits.simps by (rule sum_options_width)
    then show ?thesis using assms SBlock by (auto simp: defs block_row_def split: if_splits option.splits)
  next
    case (SValue h k)
    then show ?thesis using assms by (cases k; cases "case k of KText len _ \<Rightarrow> len | _ \<Rightarrow> LenFill") (auto simp: defs kind_width_def)
  next
    case (SRepeat h element cnt pos col)
    then show ?thesis
      using assms by (induction "SRepeat h element cnt pos col" rule: seg_fixed_bits.induct)
        (auto simp: defs repeat_row_def split: if_splits option.splits)
  next
    case (SPlaced h k pos gone)
    then show ?thesis using assms by (auto simp: defs placed_row_def)
  next
    case (SSwitch h on choice window)
    then show ?thesis using assms by (auto simp: defs switch_row_def split: option.splits len.splits)
  next
    case (SOpt wh f)
    then show ?thesis using assms by (auto simp: defs opt_row_def split: if_splits option.splits kind.splits)
  next
    case (SChecksum h repr algorithm over)
    then show ?thesis using assms by (auto simp: defs checksum_row_def split: if_splits option.splits)
  qed
  then show "rw_start r = None \<or> (\<exists>by. rw_start r = Some (StartSeek by))"
    "seg_fixed_bits seg = Some b \<Longrightarrow> rw_start r = None \<and> rw_when r = None \<and> span_bits (span_tokens (rw_span r)) = Some b \<and> seg_align seg = None"
    by blast+
qed

lemma add_segment_counted:
  assumes "seg_row owner e segs n seg = Inr (r, n')" "counted rs"
  shows "counted (add_segment rs seg r)"
proof -
  note shape = seg_row_shape [OF assms(1)]
  note pushed = push_in_wire [OF assms(2) shape(1)]
  show ?thesis
  proof (cases "seg_fixed_bits seg")
    case (Some b)
    then show ?thesis
      using shape(2) [OF Some] advance_known [OF assms(2) pushed(1)] by (simp add: add_segment_def Let_def)
  next
    case None
    show ?thesis
    proof (cases "seg_align seg = None \<or> seg_name seg = None")
      case True
      then show ?thesis using None advance_unknown [OF pushed] by (auto simp: add_segment_def Let_def split: option.splits)
    next
      case False
      then obtain align name where pad: "seg_align seg = Some align" "seg_name seg = Some name" by auto
      have "rw_start (pad_row seg name align) = None"
        by (auto simp: pad_row_def row_new_def Let_def split: segment.splits option.splits absence.splits)
      then have "counted (rows_advance (rows_push (rows_advance (rows_push rs r) None) (pad_row seg name align)) None)"
        using advance_unknown [OF push_in_wire [OF advance_unknown [OF pushed]]] by blast
      then show ?thesis using None pad by (simp add: add_segment_def Let_def)
    qed
  qed
qed

lemma table_loop_counted:
  "table_loop owner e segs todo (rs, n) = Inr (rs', n') \<Longrightarrow> counted rs \<Longrightarrow> counted rs'"
proof (induction todo arbitrary: rs n)
  case (Cons seg todo)
  then obtain r n1 where "seg_row owner e segs n seg = Inr (r, n1)" "table_loop owner e segs todo (add_segment rs seg r, n1) = Inr (rs', n')"
    by (auto simp: rule_results)
  then show ?case using Cons.IH add_segment_counted Cons.prems(2) by blast
qed simp

lemma body_rows_in_wire: "body_rows owner e segs n = Inr (rs, n') \<Longrightarrow> in_wire rs"
proof -
  assume "body_rows owner e segs n = Inr (rs, n')"
  then obtain st where "table_loop owner e segs segs (rows_new, n) = Inr (st, n')" "rs = rs_rows st"
    by (auto simp: body_rows_def rule_results)
  moreover have "counted rows_new" by (simp add: counted_def in_wire_def rows_new_def widths_for_def)
  ultimately show ?thesis using table_loop_counted by (auto simp: counted_def)
qed

lemma follows_within:
  assumes "follows (take i rs) seg b" "i < length rs"
  shows "\<exists>j < i. rw_name (rs ! j) = seg
    \<and> (\<forall>ws. widths_for (map row_tokens rs) ws \<longrightarrow> sum_list (drop (Suc j) (take i ws)) = b)"
proof -
  obtain j where j: "j < i" "rw_name (rs ! j) = seg"
    "\<And>ws. widths_for (map row_tokens (take i rs)) ws \<Longrightarrow> sum_list (drop (Suc j) ws) = b"
    using assms by (auto simp: follows_def)
  have "widths_for (map row_tokens (take i rs)) (take i ws)" if "widths_for (map row_tokens rs) ws" for ws
    using that unfolding widths_for_def take_map [symmetric] by (rule list_all2_takeI)
  then show ?thesis using j by blast
qed

section \<open>The fixed part of a message\<close>

fun leading_bits :: "segment list \<Rightarrow> nat" where
  "leading_bits [] = 0"
| "leading_bits (seg # segs) = (case seg_fixed_bits seg of Some b \<Rightarrow> b + leading_bits segs | None \<Rightarrow> 0)"

definition blocks_sized :: "segment list \<Rightarrow> bool" where
  "blocks_sized segs \<longleftrightarrow> (\<forall>fs. SBlock fs \<in> set segs \<longrightarrow> (\<forall>f \<in> set fs. kind_bits (f_kind f) \<noteq> None))"

lemma block_rules_sized: "block_rules P pos fs = Inr ks \<Longrightarrow> f \<in> set fs \<Longrightarrow> kind_bits (f_kind f) \<noteq> None"
  by (induction P pos fs arbitrary: ks rule: block_rules.induct) (auto simp: rule_results split: if_splits)

lemma walk_segments_sized: "walk_segments P places optional w segs = Inr w' \<Longrightarrow> blocks_sized segs"
proof (induction segs arbitrary: w)
  case (Cons seg segs)
  then obtain w1 where w1: "walk_segment P places optional w seg = Inr w1" "walk_segments P places optional w1 segs = Inr w'"
    by (auto simp: rule_results)
  have "kind_bits (f_kind f) \<noteq> None" if "seg = SBlock fs" "f \<in> set fs" for fs f
    using w1(1) that block_rules_sized by (fastforce simp: walk_segment_def rule_results split: option.splits if_splits)
  then show ?case using Cons.IH [OF w1(2)] by (auto simp: blocks_sized_def)
qed (simp add: blocks_sized_def)

lemma validated_blocks_sized: "validate_message P m = Inr () \<Longrightarrow> mi_bits m = None \<Longrightarrow> blocks_sized (mi_segments m)"
  by (auto simp: validate_message_def validate_segments_def rule_results dest: walk_segments_sized)

lemma sum_options_None: "sum_options xs = None \<Longrightarrow> None \<in> set xs"
  by (induction xs rule: sum_options.induct) auto

lemma seg_row_unsized:
  assumes "seg_row owner e segs n seg = Inr (r, n')" "seg_fixed_bits seg = None" "blocks_sized [seg]"
  shows "rw_start r \<noteq> None \<or> rw_when r \<noteq> None \<or> span_bits (span_tokens (rw_span r)) = None"
proof -
  note defs = rule_results row_new_def with_table_def Let_def
  show ?thesis
  proof (cases seg)
    case (SBlock fs)
    then have "None \<in> set (map (\<lambda>f. kind_bits (f_kind f)) fs)" using assms(2) by (intro sum_options_None) simp
    then show ?thesis using assms(3) SBlock by (auto simp: blocks_sized_def)
  next
    case (SValue h k)
    then show ?thesis using assms(1,2) by (cases k; cases "case k of KText len _ \<Rightarrow> len | _ \<Rightarrow> LenFill") (auto simp: defs)
  next
    case (SRepeat h element cnt pos col)
    then show ?thesis
      using assms(1,2) by (cases pos; cases cnt; cases "case cnt of CountWindow len \<Rightarrow> len | _ \<Rightarrow> LenFill")
        (auto simp: defs repeat_row_def split: if_splits)
  next
    case (SPlaced h k pos gone)
    then show ?thesis using assms(1) by (auto simp: defs placed_row_def)
  next
    case (SSwitch h on choice window)
    then show ?thesis using assms(1,2) by (auto simp: defs switch_row_def split: option.splits len.splits)
  next
    case (SOpt wh f)
    then show ?thesis using assms(1) by (auto simp: defs opt_row_def split: if_splits option.splits kind.splits)
  next
    case (SChecksum h repr algorithm over)
    then show ?thesis using assms(2) by simp
  qed
qed

text \<open>While every segment is fixed, the count is the bits so far.\<close>

definition still_fixed :: "rows \<Rightarrow> bool" where
  "still_fixed rs \<longleftrightarrow> rs_from rs = None \<and> (\<forall>rest. fixed_bits_loop (map row_tokens (rs_rows rs) @ rest) 0 = fixed_bits_loop rest (rs_at rs))"

lemma add_segment_appends: "\<exists>new. rs_rows (add_segment rs seg r) = rs_rows (rows_push rs r) @ new"
  by (auto simp: add_segment_def rows_advance_def rows_push_def Let_def split: option.splits)

lemma table_loop_appends: "table_loop owner e segs todo (rs, n) = Inr (rs', n') \<Longrightarrow> \<exists>new. rs_rows rs' = rs_rows rs @ new"
proof (induction todo arbitrary: rs n)
  case (Cons seg todo)
  then obtain r n1 where "table_loop owner e segs todo (add_segment rs seg r, n1) = Inr (rs', n')" by (auto simp: rule_results)
  then obtain new where "rs_rows rs' = rs_rows (add_segment rs seg r) @ new" using Cons.IH by blast
  then show ?case using add_segment_appends [of rs seg r] by (auto simp: rows_push_def)
qed simp

lemma table_loop_leading:
  "table_loop owner e segs todo (rs, n) = Inr (rs', n') \<Longrightarrow> still_fixed rs \<Longrightarrow> blocks_sized todo \<Longrightarrow>
     fixed_bits (map row_tokens (rs_rows rs')) = rs_at rs + leading_bits todo"
proof (induction todo arbitrary: rs n)
  case Nil
  then show ?case by (auto simp: still_fixed_def fixed_bits_def dest: spec [of _ "[]"])
next
  case (Cons seg todo)
  then obtain r n1 where r: "seg_row owner e segs n seg = Inr (r, n1)"
    "table_loop owner e segs todo (add_segment rs seg r, n1) = Inr (rs', n')" by (auto simp: rule_results)
  have sized: "blocks_sized [seg]" "blocks_sized todo" using Cons.prems(3) by (auto simp: blocks_sized_def)
  have start: "rs_from rs = None" using Cons.prems(2) by (simp add: still_fixed_def)
  let ?r = "row_tokens (last (rs_rows (rows_push rs r)))"
  show ?case
  proof (cases "seg_fixed_bits seg")
    case (Some b)
    note shape = seg_row_shape(2) [OF r(1) Some]
    then have "add_segment rs seg r = rows_advance (rows_push rs r) (Some b)"
      using Some by (simp add: add_segment_def Let_def)
    moreover have "sg_start ?r = StartAt (rs_at rs)" "seg_extent ?r = Some b"
      using shape start by (simp_all add: rows_push_def row_tokens_def rows_start_def seg_extent_def)
    ultimately have "still_fixed (add_segment rs seg r)" "rs_at (add_segment rs seg r) = rs_at rs + b"
      using Cons.prems(2) by (auto simp: still_fixed_def rows_advance_def rows_push_def)
    then show ?thesis using Cons.IH [OF r(2)] sized(2) Some by simp
  next
    case None
    obtain new where "rs_rows rs' = rs_rows (add_segment rs seg r) @ new" using table_loop_appends [OF r(2)] by blast
    moreover obtain new' where "rs_rows (add_segment rs seg r) = rs_rows (rows_push rs r) @ new'" using add_segment_appends by blast
    ultimately have "map row_tokens (rs_rows rs') = map row_tokens (rs_rows rs) @ ?r # map row_tokens (new' @ new)"
      by (simp add: rows_push_def)
    then have "fixed_bits (map row_tokens (rs_rows rs')) = fixed_bits_loop (?r # map row_tokens (new' @ new)) (rs_at rs)"
      using Cons.prems(2) by (simp add: still_fixed_def fixed_bits_def)
    also have "\<dots> = rs_at rs"
      using seg_row_unsized [OF r(1) None sized(1)] seg_row_shape(1) [OF r(1)] start
      by (auto simp: rows_push_def row_tokens_def rows_start_def seg_extent_def split: option.splits)
    finally show ?thesis using None by simp
  qed
qed

section \<open>Fields of a bit-addressed message\<close>

definition field_start ::
    "('c, 'v, 'b) bit_types \<Rightarrow> (string \<Rightarrow> 'v \<Rightarrow> bool list) \<Rightarrow> bool \<Rightarrow> bit_decl \<Rightarrow> ('c, 'v) bit_value option list \<Rightarrow> nat \<Rightarrow> nat" where
  "field_start E word msb decl vals i =
     length (message_word_of E word msb (take i decl) (take i vals)) + (if snd (decl ! i) = PresentBit then 1 else 0)"

definition field_end ::
    "('c, 'v, 'b) bit_types \<Rightarrow> (string \<Rightarrow> 'v \<Rightarrow> bool list) \<Rightarrow> bool \<Rightarrow> bit_decl \<Rightarrow> ('c, 'v) bit_value option list \<Rightarrow> nat \<Rightarrow> nat" where
  "field_end E word msb decl vals i = length (message_word_of E word msb (take (Suc i) decl) (take (Suc i) vals))"

context bit_message_types
begin

lemma bit_rows_from_places:
  assumes "list_all2 entry_ok decl vals" "kinds_ok decl" "i < length decl"
    and "seg = None \<Longrightarrow> start = pos" "seg \<noteq> None \<Longrightarrow> start = anchor + pos"
  shows "case rw_start (bit_rows_from seg pos decl ! i) of
      StartAt b \<Rightarrow> start + field_start E word msb decl vals i = b
    | StartAfter name b \<Rightarrow>
        seg = Some name \<and> start + field_start E word msb decl vals i = anchor + b
        \<or> (\<exists>j < i. f_name (fst (decl ! j)) = name \<and> field_start E word msb decl vals i = field_end E word msb decl vals j + b)
    | StartSeek _ \<Rightarrow> False"
  using assms
proof (induction decl vals arbitrary: seg pos start anchor i rule: list_all2_induct)
  case (Cons d decl held vals)
  let ?len = "length (entry_word d held)"
  show ?case
  proof (cases i)
    case 0
    then show ?thesis using Cons.prems(3,4) by (cases seg) (auto simp: bit_row_def bit_start_def field_start_def)
  next
    case (Suc k)
    have step: "field_start E word msb (d # decl) (held # vals) (Suc j) = ?len + field_start E word msb decl vals j"
      "field_end E word msb (d # decl) (held # vals) (Suc j) = ?len + field_end E word msb decl vals j" for j
      by (simp_all add: field_start_def field_end_def)
    have k: "k < length decl" "kinds_ok decl" using Cons.prems(1,2) Suc by auto
    show ?thesis
    proof (cases "snd d \<noteq> Always \<or> kind_bits (f_kind (fst d)) = None")
      case True
      have "field_end E word msb (d # decl) (held # vals) 0 = ?len" by (simp add: field_end_def)
      then show ?thesis
        using Cons.IH [OF k(2,1), of "Some (f_name (fst d))" "start + ?len" 0 "start + ?len"] True
        unfolding Suc step
        by (auto simp: step add.assoc split: seg_start.splits intro: exI [of _ 0] dest: Suc_mono)
    next
      case False
      then have "fixed_bit_kind (f_kind (fst d))" using Cons.prems(1) by (auto simp: bit_kind_def)
      then have "?len = kind_width (f_kind (fst d))" using False by (cases d) (simp add: value_word_fixed)
      then show ?thesis
        using Cons.IH [OF k(2,1), of seg "start + ?len" "pos + ?len" anchor] Cons.prems(3,4) False
        unfolding Suc by (auto simp: step add.assoc split: seg_start.splits dest: Suc_mono)
    qed
  qed
qed simp

text \<open>A field that is present has its value's bits where it starts.\<close>

lemma field_bits_at_start:
  assumes "length vals = length decl" "i < length decl" "vals ! i = Some v"
  shows "take (length (value_word (f_kind (fst (decl ! i))) v)) (drop (field_start E word msb decl vals i) (message_word decl vals))
    = value_word (f_kind (fst (decl ! i))) v"
proof -
  obtain f p where d: "decl ! i = (f, p)" by (cases "decl ! i")
  have "entry_word (decl ! i) (vals ! i) = (if p = PresentBit then [True] else []) @ value_word (f_kind f) v"
    using assms(3) d by (cases p) auto
  then show ?thesis
    using message_word_split [OF assms(2,1)] d by (simp add: field_start_def)
qed

lemma fixed_span_length:
  assumes "bit_kind k" "span_of_kind k = RFixed n"
  shows "length (value_word k v) = n"
proof -
  have "fixed_bit_kind k" using assms by (auto simp: bit_kind_def)
  then show ?thesis using assms(2) by (cases k) (auto simp: value_word_fixed)
qed

lemma length_bit_rows_from [simp]: "length (bit_rows_from seg pos decl) = length decl"
  by (induction seg pos decl rule: bit_rows_from.induct) auto

lemma bit_rows_nth_span: "i < length decl \<Longrightarrow> rw_span (bit_rows_from seg pos decl ! i) = span_of_kind (f_kind (fst (decl ! i)))"
  by (induction seg pos decl arbitrary: i rule: bit_rows_from.induct) (auto simp: bit_row_def nth_Cons' less_Suc_eq_0_disj)

lemma encoded_field_place:
  assumes "ok out" "list_all2 entry_ok decl vals" "kinds_ok decl" "distinct (map (f_name \<circ> fst) decl)" "masks_ok decl"
    and "enat (length (written B out) + div_ceil (length (message_word decl vals)) 8) \<le> capacity out"
      "div_ceil (length (message_word decl vals)) 8 < 2 ^ 60"
    and i: "i < length decl" "stamped_all E decl vals (bit_flags decl) ! i = Some v"
  shows "\<exists>out' p. bit_message_encode E B msb decl vals out = Some (Inr (), out')
    \<and> take (length (value_word (f_kind (fst (decl ! i))) v)) (drop p (stream msb (drop (length (written B out)) (written B out'))))
        = value_word (f_kind (fst (decl ! i))) v
    \<and> (case rw_start (bit_rows decl ! i) of
         StartAt b \<Rightarrow> p = b
       | StartAfter name b \<Rightarrow> \<exists>j < i. f_name (fst (decl ! j)) = name
           \<and> p = field_end E word msb decl (stamped_all E decl vals (bit_flags decl)) j + b
       | StartSeek _ \<Rightarrow> False)
    \<and> (\<forall>n. rw_span (bit_rows decl ! i) = RFixed n \<longrightarrow> length (value_word (f_kind (fst (decl ! i))) v) = n)"
proof -
  let ?vals = "stamped_all E decl vals (bit_flags decl)" and ?n = "length (message_word decl vals)"
  let ?word = "value_word (f_kind (fst (decl ! i))) v" and ?p = "field_start E word msb decl ?vals i"
  obtain out' where out': "bit_message_encode E B msb decl vals out = Some (Inr (), out')"
    "take ?n (stream msb (drop (length (written B out)) (written B out'))) = message_word decl ?vals"
    using message_round_trip [OF assms(1-7), of 0] by auto
  have len: "length vals = length decl" using assms(2) by (simp add: list_all2_lengthD)
  have at: "take (length ?word) (drop ?p (message_word decl ?vals)) = ?word"
    using field_bits_at_start [OF length_stamped_all i(1,2)] by simp
  have "length (take (length ?word) (drop ?p (message_word decl ?vals))) = length ?word" unfolding at ..
  then have "length ?word \<le> ?n - ?p"
    using length_message_stamped [OF flags_ok_flags [OF assms(5)] assms(4) len] by simp
  then have "take (length ?word) (drop ?p (take ?n bits)) = take (length ?word) (drop ?p bits)" for bits :: "bool list"
    unfolding drop_take take_take by (simp only: min_absorb1)
  then have "take (length ?word) (drop ?p (stream msb (drop (length (written B out)) (written B out')))) = ?word"
    using at out'(2) by metis
  moreover have "case rw_start (bit_rows decl ! i) of
       StartAt b \<Rightarrow> ?p = b
     | StartAfter name b \<Rightarrow> \<exists>j < i. f_name (fst (decl ! j)) = name \<and> ?p = field_end E word msb decl ?vals j + b
     | StartSeek _ \<Rightarrow> False"
    using bit_rows_from_places [OF stamped_entries_ok [OF assms(2) flags_ok_flags [OF assms(5)] assms(4,3)] assms(3) i(1), of None 0 0]
    by (auto simp: bit_rows_def split: seg_start.splits)
  moreover have "\<forall>n. rw_span (bit_rows decl ! i) = RFixed n \<longrightarrow> length ?word = n"
    using bit_rows_nth_span [OF i(1)] fixed_span_length assms(3) i(1) by (auto simp: bit_rows_def kinds_in_def)
  ultimately show ?thesis using out'(1) by blast
qed

end

section \<open>Properties\<close>

text \<open>C10: the segment table generated for a byte-addressed message that the rules accept describes its
  wires. In every wire that gives the rows of known size that size, each row that states a bit starts
  there; a row that starts some bits after another names an earlier one, and the rows between the two
  take exactly those bits in every such wire, so that it starts where the row before it ends; and \<open>fixed_bits\<close>, which the compiled
  program computes from the table, is the size of the segments before the first one whose size is
  only known at run time.\<close>

theorem segment_table_describes_wire:
  assumes "validate_message P m = Inr ()" "mi_bits m = None" "message_rows m = Inr rs"
  shows "(\<forall>ws. widths_for (map row_tokens rs) ws \<longrightarrow> laid_out (map row_tokens rs) ws 0)
    \<and> (\<forall>i < length rs. \<forall>seg b. rw_start (rs ! i) = StartAfter seg b \<longrightarrow>
          (\<exists>j < i. rw_name (rs ! j) = seg
             \<and> (\<forall>ws. widths_for (map row_tokens rs) ws \<longrightarrow> sum_list (drop (Suc j) (take i ws)) = b)))
    \<and> fixed_bits (map row_tokens rs) = leading_bits (mi_segments m)"
proof -
  obtain n' where body: "body_rows (mi_name m) (mi_endian m) (mi_segments m) counters_new = Inr (rs, n')"
    using assms(2,3) by (auto simp: message_rows_def rule_results)
  then obtain st where st: "table_loop (mi_name m) (mi_endian m) (mi_segments m) (mi_segments m) (rows_new, counters_new) = Inr (st, n')"
    "rs = rs_rows st" by (auto simp: body_rows_def rule_results)
  have "still_fixed rows_new" by (simp add: still_fixed_def rows_new_def)
  then have "fixed_bits (map row_tokens rs) = leading_bits (mi_segments m)"
    using table_loop_leading [OF st(1)] validated_blocks_sized [OF assms(1,2)] st(2) by (simp add: rows_new_def)
  moreover have "\<exists>j < i. rw_name (rs ! j) = seg
      \<and> (\<forall>ws. widths_for (map row_tokens rs) ws \<longrightarrow> sum_list (drop (Suc j) (take i ws)) = b)"
    if "i < length rs" "rw_start (rs ! i) = StartAfter seg b" for i seg b
    using follows_within [OF _ that(1)] body_rows_in_wire [OF body] that by (simp add: in_wire_def)
  ultimately show ?thesis using body_rows_in_wire [OF body] by (simp add: in_wire_def)
qed

lemmas row_kind_defs =
  block_row_def repeat_row_def opt_row_def with_table_def row_new_def hidden_name_def element_len_def kind_width_def

lemma table_loop_succeeds:
  "(\<And>seg n. seg \<in> set todo \<Longrightarrow> \<exists>r n'. seg_row owner e segs n seg = Inr (r, n')) \<Longrightarrow> \<exists>rs' n'. table_loop owner e segs todo (rs, n) = Inr (rs', n')"
proof (induction todo arbitrary: rs n)
  case (Cons seg todo)
  then obtain r n1 where "seg_row owner e segs n seg = Inr (r, n1)" by (metis list.set_intros(1))
  then show ?case using Cons by simp
qed simp

lemma telegram_rows: "\<exists>rs. message_rows telegram = Inr rs"
proof -
  have m: "mi_bits telegram = None" "mi_segments telegram =
     [SBlock [field_new ''n'' (KScalar (ScU 8)), field_new ''flags'' (KScalar (ScU 8))],
      seg_repeat ''points'' (KScalar (ScU 16)) (CountField (num_by_field ''n'') None) None ColVec,
      SOpt (OnMask ''flags'' 1) (field_new ''stamp'' (KScalar (ScU 32))), seg_value ''note'' (KText LenFill None)]"
    by (simp_all add: telegram_def message_new_def)
  have each_row: "\<exists>r n'. seg_row owner e segs n seg = Inr (r, n')" if "seg \<in> set (mi_segments telegram)" for owner e segs n seg
    using that unfolding m
    by (auto simp: field_new_def seg_repeat_def seg_value_def head_of_def num_by_field_def row_kind_defs row_defs
        positioned_fields_def Let_def)
  have "\<exists>rs n'. table_loop (mi_name telegram) (mi_endian telegram) (mi_segments telegram) (mi_segments telegram)
      (rows_new, counters_new) = Inr (rs, n')"
    by (intro table_loop_succeeds each_row)
  then show ?thesis using m(1) by (auto simp: message_rows_def body_rows_def)
qed

theorem segment_table_describes_wire_witness:
  "\<exists>rs. message_rows telegram = Inr rs \<and> fixed_bits (map row_tokens rs) = 16"
proof -
  obtain rs where rs: "message_rows telegram = Inr rs" using telegram_rows by blast
  moreover have "mi_bits telegram = None" "leading_bits (mi_segments telegram) = 16"
    by (simp_all add: telegram_def message_new_def field_new_def seg_repeat_def)
  ultimately show ?thesis using segment_table_describes_wire [OF telegram_valid _ rs] by simp
qed

text \<open>C36: the segment table generated for a bit-addressed message says where encode writes. The bits of
  every field that is present stand where its row says, from the start of the message or from the end
  of the earlier field the row names, and a row of fixed size has the size of its field.\<close>

theorem bit_table_places_fields:
  assumes "validate_message P m = Inr ()" "mi_bits m = Some order" "bit_declared m = Some decl" "message_rows m = Inr rs"
    and "distinct (map (f_name \<circ> fst) decl)"
    and "bit_message_types B ok capacity E (order = Msb) valid word (set (map (f_kind \<circ> fst) decl))"
    and "ok out" "list_all2 (held_ok valid) decl vals"
    and "enat (length (written B out) + div_ceil (length (message_word_of E word (order = Msb) decl vals)) 8) \<le> capacity out"
    and "div_ceil (length (message_word_of E word (order = Msb) decl vals)) 8 < 2 ^ 60"
    and "i < length decl" "stamped_all E decl vals (bit_flags decl) ! i = Some v"
  shows "\<exists>out' p. bit_message_encode E B (order = Msb) decl vals out = Some (Inr (), out')
    \<and> (let bits = value_word_of E word (order = Msb) (f_kind (fst (decl ! i))) v
       in take (length bits) (drop p (stream (order = Msb) (drop (length (written B out)) (written B out')))) = bits
          \<and> (\<forall>n. rw_span (rs ! i) = RFixed n \<longrightarrow> length bits = n))
    \<and> (case rw_start (rs ! i) of
         StartAt b \<Rightarrow> p = b
       | StartAfter name b \<Rightarrow> \<exists>j < i. f_name (fst (decl ! j)) = name
           \<and> p = field_end E word (order = Msb) decl (stamped_all E decl vals (bit_flags decl)) j + b
       | StartSeek _ \<Rightarrow> False)"
proof -
  have rules: "masks_ok decl" "\<forall>d \<in> set decl. bit_kind (f_kind (fst d))"
    using validated_bits [OF assms(1,2)] assms(3) by auto
  then have "kinds_in (set (map (f_kind \<circ> fst) decl)) decl" by (simp add: kinds_in_def)
  moreover have "rs = bit_rows decl" using assms(2-4) by (simp add: message_rows_def)
  ultimately show ?thesis
    using bit_message_types.encoded_field_place [OF assms(6-8) _ assms(5) rules(1) assms(9-12)]
    unfolding Let_def by blast
qed

theorem bit_table_places_fields_witness:
  "\<exists>out'. bit_message_encode runtime_types vec_ops True sensor_decl sensor_vals [0xAA] = Some (Inr (), out')
    \<and> take 6 (drop 8 (stream True (drop 1 out'))) = field_bits True 6 (- 3)"
proof -
  have "kinds_in {k. bit_kind k} sensor_decl" by (simp add: kinds_in_def sensor_decl_def field_new_def bit_kind_def)
  then have "bit_message_types vec_ops (\<lambda>_. True) (\<lambda>_. \<infinity>) runtime_types True runtime_valid (\<lambda>_. code_word)
      (set (map (f_kind \<circ> fst) sensor_decl))"
    by (intro bit_message_types_fewer [OF runtime_bits.bit_message_types_axioms]) (auto simp: kinds_in_def)
  then have promised: "bit_message_types vec_ops (\<lambda>_. True) (\<lambda>_. \<infinity>) runtime_types (Msb = Msb) runtime_valid (\<lambda>_. code_word)
      (set (map (f_kind \<circ> fst) sensor_decl))"
    by simp
  have rows: "message_rows sensor = Inr (bit_rows sensor_decl)" using sensor_accepted by (simp add: message_rows_def)
  have row: "rw_start (bit_rows sensor_decl ! 2) = StartAt 8" "length sensor_decl = 5"
    "f_kind (fst (sensor_decl ! 2)) = KScalar (ScI 6)"
    by (simp_all add: sensor_decl_def bit_rows_def bit_row_def bit_start_def field_new_def kind_width_def)
  have vec: "written vec_ops bytes = bytes" for bytes by (simp add: vec_ops_def)
  from bit_table_places_fields [OF sensor_accepted rows sensor_value(1) promised _ sensor_value(2), of "[0xAA]" 2 "BvInt (- 3)"]
  show ?thesis
    using sensor_value(3,4) row by (auto simp: vec div_ceil_def value_word_of_def kind_width_def Let_def)
qed

section \<open>Scalar elements\<close>

text \<open>
  The statements \<open>element_step\<close> writes for a scalar element. A value is the bytes of its primitive type,
  least significant first; \<open>None\<close> is the panic of \<open>expect\<close>.
\<close>

definition primitive_bytes :: "scalar \<Rightarrow> nat" where
  "primitive_bytes s =
     (let n = scalar_bits s in if n \<le> 8 then 1 else if n \<le> 16 then 2 else if n \<le> 32 then 4 else if n \<le> 64 then 8 else 16)"

definition element_read :: "endian \<Rightarrow> scalar \<Rightarrow> u8 list \<Rightarrow> u8 list option" where
  "element_read e s bytes =
     (if scalar_bits s div 8 = 1 then Some (hd bytes # replicate (primitive_bytes s - 1) 0)
      else if length bytes = primitive_bytes s then Some (if e = Be then rev bytes else bytes)
      else None)"

definition element_write :: "endian \<Rightarrow> scalar \<Rightarrow> u8 list \<Rightarrow> u8 list" where
  "element_write e s v = (if scalar_bits s div 8 = 1 then [hd v] else if e = Be then rev v else v)"

lemma whole_elements_round_trip:
  assumes "scalar_bits s = 8 * primitive_bytes s" "length v = primitive_bytes s"
  shows "length (element_write e s v) = scalar_bits s div 8 \<and> element_read e s (element_write e s v) = Some v"
  using assms by (cases v) (auto simp: element_read_def element_write_def)

text \<open>The rules accept a collection of elements that are not a whole primitive. One of 12 bits is
  written as its low byte; one of 24 bits is written as four bytes where the table states three, and
  reading it panics.\<close>

lemma narrow_elements_misread:
  "validate_message lexical (message_new ''M''
     [SBlock [field_new ''n'' (KScalar (ScU 8))], seg_repeat ''xs'' (KScalar (ScU 12)) (CountField (num_by_field ''n'') None) None ColVec]) = Inr ()"
  "element_len (KScalar (ScU 12)) = Inr (Some 1)"
  "element_read Le (ScU 12) (element_write Le (ScU 12) [0x34, 0x0A]) = Some [0x34, 0]"
  by (simp_all add: message_new_def field_new_def seg_repeat_def head_of_def num_by_field_def message_defs element_len_def
      element_read_def element_write_def primitive_bytes_def)

lemma odd_elements_panic:
  "validate_message lexical (message_new ''M''
     [SBlock [field_new ''n'' (KScalar (ScU 8))], seg_repeat ''xs'' (KScalar (ScU 24)) (CountField (num_by_field ''n'') None) None ColVec]) = Inr ()"
  "element_len (KScalar (ScU 24)) = Inr (Some 3)"
  "element_write Le (ScU 24) [1, 2, 3, 0] = [1, 2, 3, 0]" "element_read Le (ScU 24) [1, 2, 3] = None"
  by (simp_all add: message_new_def field_new_def seg_repeat_def head_of_def num_by_field_def message_defs element_len_def
      element_read_def element_write_def primitive_bytes_def)

text \<open>The audit text is the one the compiled program prints of its own tables.\<close>

lemma audit_text_of_tables:
  assumes "msg_NAME M = name" "msg_SEGMENTS M = map row_tokens rs" "msg_COVERED M = covers_table rs" "PARAMS M = map param_view needs"
  shows "audit_message_text name needs rs = show_message (msg_audit M)"
proof -
  have num: "by_view b = by_tokens b" for b by (cases b) (simp add: by_view_def by_tokens_def by_of_field_def)
  have "span_view sp = span_tokens sp" for sp by (cases sp) (simp_all add: num)
  then have "segment_view = row_tokens" by (intro ext) (simp add: segment_view_def row_tokens_def)
  then show ?thesis using assms by (simp add: audit_message_text_def msg_audit_def covers_table_def audit_message_def)
qed

end
