(* ===== verification/LayoutAccess.thy ===== *)
theory LayoutAccess
  imports LayoutModel BitWords
begin

text \<open>
  How the code of \<open>#[derive(Layout)]\<close> reads and writes one field
  (\<open>layline-derive/src/layout/mod.rs\<close>, \<open>access.rs\<close>): the plan of a layout, the choice between the five
  ways of access, and what the emitted load and store of each compute. A register of \<open>reg\<close> bytes
  (\<open>u8\<close> to \<open>u128\<close>) is a 128-bit word in which the truncation to \<open>8 * reg\<close> bits is written out. The fixed
  array of wire bytes is a byte list; an index outside it, which the compiler would refuse, is \<open>None\<close>,
  as is an assertion of the macro. A type is the path it is written as.

  The meaning is stated on single bits. Under a container the bits of a field have \<open>cells\<close>, a byte and a
  bit of it each; every way of access reads exactly the field's cells, and writes no other.
\<close>

section \<open>The plan of a layout\<close>

datatype prim = PU8 | PU16 | PU32 | PU64 | PI8 | PI16 | PI32 | PI64 | PF32 | PF64 | PBool

fun prim_bytes :: "prim \<Rightarrow> nat" where
  "prim_bytes PU8 = 1" | "prim_bytes PI8 = 1" | "prim_bytes PBool = 1"
| "prim_bytes PU16 = 2" | "prim_bytes PI16 = 2"
| "prim_bytes PU32 = 4" | "prim_bytes PI32 = 4" | "prim_bytes PF32 = 4"
| "prim_bytes PU64 = 8" | "prim_bytes PI64 = 8" | "prim_bytes PF64 = 8"

datatype reading = RUint nat | RInt | RBool | RCodec | RNative prim

record packed =
  pk_ty :: string
  pk_reading :: reading
  pk_bits :: nat

datatype lay_body =
    BPacked packed
  | BNested string nat \<comment> \<open>\<open>ty\<close>, \<open>bytes\<close>\<close>
  | BRepeat lay_body nat

fun body_bits :: "lay_body \<Rightarrow> nat" where
  "body_bits (BPacked p) = pk_bits p"
| "body_bits (BNested _ n) = n * 8"
| "body_bits (BRepeat b n) = body_bits b * n"

fun element_bits :: "lay_body \<Rightarrow> nat" where
  "element_bits (BRepeat b _) = body_bits b"
| "element_bits b = body_bits b"

fun peeled :: "lay_body \<Rightarrow> nat list \<times> lay_body" where
  "peeled (BRepeat b n) = (let (dims, inner) = peeled b in (n # dims, inner))"
| "peeled b = ([], b)"

definition body_kind :: "lay_body \<Rightarrow> kind" where
  "body_kind b =
     (let (dims, inner) = peeled b
      in case inner of
           BNested ty bytes \<Rightarrow> if dims = [] then KNested ty bytes else KNestedArray ty bytes (prod_list dims)
         | BPacked p \<Rightarrow>
             (let s = (if pk_reading p = RInt then ScI (pk_bits p) else ScU (pk_bits p))
              in if dims = [] then (if pk_reading p = RCodec then KCodec (pk_ty p) (pk_bits p) else KScalar s)
                 else KArray s dims)
         | BRepeat _ _ \<Rightarrow> KScalar (ScU 0))"

definition pk_wide :: "packed \<Rightarrow> bool" where
  "pk_wide p = (case pk_reading p of RUint n \<Rightarrow> n > 64 \<or> pk_bits p > 64 | _ \<Rightarrow> False)"

text \<open>What every field of a layout shares; the plan proper extends it.\<close>

record lay_grid =
  lg_grid :: container
  lg_endian :: endian
  lg_bits :: nat
  lg_bytes :: nat

section \<open>Registers and bytes\<close>

fun next_pow2 :: "nat \<Rightarrow> nat" where
  "next_pow2 n = (if n \<le> 1 then 1 else 2 * next_pow2 ((n + 1) div 2))"

declare next_pow2.simps [simp del]

definition from_le :: "u8 list \<Rightarrow> u128" where
  "from_le bs = foldr (\<lambda>b acc. ucast b OR push_bit 8 acc) bs 0"

definition from_bytes :: "endian \<Rightarrow> u8 list \<Rightarrow> u128" where
  "from_bytes e bs = (case e of Le \<Rightarrow> from_le bs | Be \<Rightarrow> from_le (rev bs))"

definition to_bytes :: "endian \<Rightarrow> nat \<Rightarrow> u128 \<Rightarrow> u8 list" where
  "to_bytes e reg v = (case e of Le \<Rightarrow> to_wire reg v | Be \<Rightarrow> to_wire_be reg v)"

definition reg_mask :: "nat \<Rightarrow> u128 \<Rightarrow> u128" where
  "reg_mask reg v = take_bit (8 * reg) v"

text \<open>\<open>win_literal\<close> is \<open>reg_mask\<close> of a constant, \<open>reg_ones\<close> all of a register.\<close>

definition reg_ones :: "nat \<Rightarrow> u128" where
  "reg_ones reg = mask128 (8 * reg)"

definition window_bytes :: "endian \<Rightarrow> nat \<Rightarrow> nat \<Rightarrow> nat \<Rightarrow> u8 list \<Rightarrow> u128 option" where
  "window_bytes e off len reg buf =
     (if length buf < off + len then None
      else if reg = 1 then Some (ucast (buf ! off))
      else let real = take len (drop off buf); pad = replicate (reg - len) 0
           in Some (from_bytes e (case e of Le \<Rightarrow> real @ pad | Be \<Rightarrow> pad @ real)))"

text \<open>The \<open>len\<close> bytes of a register that are on the wire.\<close>

definition wire_part :: "endian \<Rightarrow> nat \<Rightarrow> nat \<Rightarrow> u128 \<Rightarrow> u8 list" where
  "wire_part e len reg v =
     take len (drop (case e of Le \<Rightarrow> 0 | Be \<Rightarrow> reg - len) (to_bytes e reg v))"

definition put :: "u8 list \<Rightarrow> nat \<Rightarrow> u8 list \<Rightarrow> u8 list option" where
  "put buf pos bytes =
     (if length buf < pos + length bytes then None
      else Some (take pos buf @ bytes @ drop (pos + length bytes) buf))"

definition scalar_read :: "endian \<Rightarrow> prim \<Rightarrow> nat \<Rightarrow> u8 list \<Rightarrow> u128 option" where
  "scalar_read e s off buf =
     (case s of
        PBool \<Rightarrow> if length buf \<le> off then None else Some (if buf ! off \<noteq> 0 then 1 else 0)
      | _ \<Rightarrow> window_bytes e off (prim_bytes s) (prim_bytes s) buf)"

definition scalar_write :: "endian \<Rightarrow> prim \<Rightarrow> nat \<Rightarrow> u8 list \<Rightarrow> u128 \<Rightarrow> u8 list option" where
  "scalar_write e s off buf v = put buf off (to_bytes e (prim_bytes s) v)"

section \<open>The ways of access\<close>

record window =
  wn_offset :: nat
  wn_len :: nat
  wn_reg :: nat
  wn_shift :: nat
  wn_mask :: u128
  wn_wide :: bool
  wn_tail :: "(nat \<times> nat) option"

datatype access =
    AContainer extent bool \<comment> \<open>the field's lens, \<open>wide\<close>\<close>
  | ARegister nat nat nat \<comment> \<open>\<open>start\<close>, \<open>width\<close>, \<open>reg\<close>\<close>
  | AWindow window
  | ARegion prim nat nat u64 \<comment> \<open>\<open>ty\<close>, \<open>byte\<close>, \<open>off\<close>, \<open>mask\<close>\<close>
  | AWhole prim nat

definition hoisted :: "'a lay_grid_scheme \<Rightarrow> bool" where
  "hoisted P \<longleftrightarrow> is_bit_addressed (lg_grid P) \<and> interior_boundary (lg_grid P) = None \<and> lg_bits P \<le> 128"

definition register :: "'a lay_grid_scheme \<Rightarrow> nat option" where
  "register P = (if hoisted P \<and> lg_bits P \<le> 64 then Some (next_pow2 (lg_bytes P)) else None)"

definition container_window :: "nat \<Rightarrow> nat \<Rightarrow> nat \<times> nat" where
  "container_window pos width = (let first = pos div 8; final = (pos + width - 1) div 8 in (first, final - first + 1))"

definition wire_offset :: "'a lay_grid_scheme \<Rightarrow> nat \<Rightarrow> nat \<Rightarrow> nat" where
  "wire_offset P c0 n = (case lg_endian P of Le \<Rightarrow> c0 | Be \<Rightarrow> lg_bytes P - c0 - n)"

text \<open>\<open>None\<close> is the assertion that only a carry of at least 122 bits spans seventeen bytes.\<close>

definition window_of :: "'a lay_grid_scheme \<Rightarrow> nat \<Rightarrow> packed \<Rightarrow> window option" where
  "window_of P pos p =
     (let (c0, span) = container_window pos (pk_bits p);
          wide = pk_wide p;
          shift = pos mod 8
      in if span \<le> 16
         then Some \<lparr>wn_offset = wire_offset P c0 span, wn_len = span,
                wn_reg = (if wide then 16 else next_pow2 span), wn_shift = shift,
                wn_mask = mask128 (pk_bits p), wn_wide = wide, wn_tail = None\<rparr>
         else if span = 17 \<and> wide
         then Some \<lparr>wn_offset = wire_offset P c0 16, wn_len = 16, wn_reg = 16, wn_shift = shift,
                wn_mask = mask128 (pk_bits p), wn_wide = wide,
                wn_tail = Some (wire_offset P (c0 + 16) 1, pk_bits p - (128 - shift))\<rparr>
         else None)"

definition uint_scalar :: "nat \<Rightarrow> prim" where
  "uint_scalar n = (if n = 8 then PU8 else if n = 16 then PU16 else if n = 32 then PU32 else PU64)"

text \<open>\<open>held\<close>: the layout is already loaded into a local, as decode and encode do and a view does not.\<close>

definition access_of :: "'a lay_grid_scheme \<Rightarrow> bool \<Rightarrow> nat \<Rightarrow> packed \<Rightarrow> access option" where
  "access_of P held pos p =
     (case pk_reading p of
        RNative s \<Rightarrow> Some (AWhole s (pos div 8))
      | _ \<Rightarrow>
          (case interior_boundary (lg_grid P) of
             Some region \<Rightarrow>
               Some (ARegion (uint_scalar region) ((pos - pos mod region) div 8) (pos mod region) (mask64 (pk_bits p)))
           | None \<Rightarrow>
               if is_bit_addressed (lg_grid P)
               then if hoisted P \<and> held
                    then (case register P of
                            Some reg \<Rightarrow> Some (ARegister pos (pk_bits p) reg)
                          | None \<Rightarrow> Some (AContainer \<lparr>ext_start = pos, ext_width = pk_bits p\<rparr> (pk_wide p)))
                    else map_option AWindow (window_of P pos p)
               else Some (AWhole (uint_scalar (pk_bits p)) (pos div 8))))"

text \<open>The width of the integer an access works in.\<close>

fun raw_bits :: "access \<Rightarrow> nat" where
  "raw_bits (AContainer _ wide) = (if wide then 128 else 64)"
| "raw_bits (ARegister _ _ reg) = 8 * reg"
| "raw_bits (AWindow w) = 8 * wn_reg w"
| "raw_bits (ARegion s _ _ _) = 8 * prim_bytes s"
| "raw_bits (AWhole s _) = 8 * prim_bytes s"

section \<open>Load and store\<close>

text \<open>\<open>raw\<close> is the local the layout is loaded into, where there is one.\<close>

definition register_load :: "'a lay_grid_scheme \<Rightarrow> u8 list \<Rightarrow> u128 option" where
  "register_load P buf =
     (case register P of Some reg \<Rightarrow> window_bytes (lg_endian P) 0 (lg_bytes P) reg buf | None \<Rightarrow> None)"

definition register_store :: "'a lay_grid_scheme \<Rightarrow> nat \<Rightarrow> u128 \<Rightarrow> u8 list" where
  "register_store P reg bits = wire_part (lg_endian P) (lg_bytes P) reg bits"

definition load_raw :: "'a lay_grid_scheme \<Rightarrow> u8 list \<Rightarrow> u128 option" where
  "load_raw P buf =
     (if register P \<noteq> None then register_load P buf
      else if hoisted P
      then (case lg_endian P of
              Le \<Rightarrow> from_wire (lg_bits P) (lg_bytes P) buf
            | Be \<Rightarrow> from_wire_be (lg_bits P) (lg_bytes P) buf)
      else Some 0)"

fun load :: "'a lay_grid_scheme \<Rightarrow> u128 \<Rightarrow> u8 list \<Rightarrow> access \<Rightarrow> u128 option" where
  "load P raw buf (AContainer lens wide) =
     (if wide then extract_wide lens raw else map_option ucast (extract_u64 lens raw))"
| "load P raw buf (ARegister start width reg) =
     (let shifted = drop_bit start raw
      in Some (if start + width < reg * 8 then shifted AND reg_mask reg (mask128 width) else shifted))"
| "load P raw buf (AWindow w) =
     Option.bind (window_bytes (lg_endian P) (wn_offset w) (wn_len w) (wn_reg w) buf) (\<lambda>v.
       let shifted = drop_bit (wn_shift w) v;
           whole = (case wn_tail w of
                      None \<Rightarrow> Some shifted
                    | Some (byte, _) \<Rightarrow>
                        if length buf \<le> byte then None
                        else Some (shifted OR push_bit (128 - wn_shift w) (ucast (buf ! byte))))
       in map_option (\<lambda>r. if wn_mask w \<noteq> reg_ones (wn_reg w) then r AND reg_mask (wn_reg w) (wn_mask w) else r) whole)"
| "load P raw buf (ARegion s byte off m) =
     map_option (\<lambda>v. drop_bit off v AND reg_mask (prim_bytes s) (ucast m)) (scalar_read (lg_endian P) s byte buf)"
| "load P raw buf (AWhole s off) = scalar_read (lg_endian P) s off buf"

text \<open>The store works on the local \<open>__bits\<close> of a loaded layout, and on the bytes of any other.\<close>

definition window_merge :: "nat \<Rightarrow> nat \<Rightarrow> u128 \<Rightarrow> u128 \<Rightarrow> u128 \<Rightarrow> u128" where
  "window_merge reg shift m cur v =
     (let held = (if m = reg_ones reg then v else v AND reg_mask reg m);
          keep = reg_ones reg AND NOT (push_bit shift m)
      in (cur AND keep) OR reg_mask reg (push_bit shift held))"

definition tail_byte :: "u8 \<Rightarrow> nat \<Rightarrow> nat \<Rightarrow> u128 \<Rightarrow> u8" where
  "tail_byte cur bits shift v =
     (cur AND NOT (mask bits)) OR (ucast (drop_bit (128 - shift) v) AND mask bits)"

fun store :: "'a lay_grid_scheme \<Rightarrow> access \<Rightarrow> u128 \<Rightarrow> u128 \<times> u8 list \<Rightarrow> (u128 \<times> u8 list) option" where
  "store P (AContainer lens wide) v (bits, buf) =
     map_option (\<lambda>b. (b, buf)) (if wide then insert_wide lens bits v else insert_u64 lens bits (ucast v))"
| "store P (ARegister start width reg) v (bits, buf) =
     (let held = (if width < reg * 8 then v AND reg_mask reg (mask128 width) else v)
      in Some (bits OR reg_mask reg (push_bit start held), buf))"
| "store P (AWindow w) v (bits, buf) =
     Option.bind (window_bytes (lg_endian P) (wn_offset w) (wn_len w) (wn_reg w) buf) (\<lambda>cur.
       let new = window_merge (wn_reg w) (wn_shift w) (wn_mask w) cur v
       in Option.bind (put buf (wn_offset w) (wire_part (lg_endian P) (wn_len w) (wn_reg w) new)) (\<lambda>buf'.
          case wn_tail w of
            None \<Rightarrow> Some (bits, buf')
          | Some (byte, n) \<Rightarrow>
              if length buf' \<le> byte then None
              else Some (bits, buf'[byte := tail_byte (buf' ! byte) n (wn_shift w) v])))"
| "store P (ARegion s byte off m) v (bits, buf) =
     Option.bind (scalar_read (lg_endian P) s byte buf) (\<lambda>cur.
       let mm = reg_mask (prim_bytes s) (ucast m);
           new = (cur AND NOT (push_bit off mm)) OR push_bit off (v AND mm)
       in map_option (\<lambda>b. (bits, b)) (put buf byte (to_bytes (lg_endian P) (prim_bytes s) new)))"
| "store P (AWhole s off) v (bits, buf) =
     map_option (\<lambda>b. (bits, b)) (scalar_write (lg_endian P) s off buf v)"

section \<open>Cells\<close>

definition wire_bit :: "u8 list \<Rightarrow> nat \<times> nat \<Rightarrow> bool" where
  "wire_bit buf c = bit (buf ! fst c) (snd c)"

text \<open>Bit \<open>pos\<close> of the region of \<open>n\<close> bits that starts at bit \<open>start\<close>.\<close>

definition region_cell :: "endian \<Rightarrow> nat \<Rightarrow> nat \<Rightarrow> nat \<Rightarrow> nat \<times> nat" where
  "region_cell e start n pos =
     (start div 8 + (case e of Le \<Rightarrow> (pos - start) div 8 | Be \<Rightarrow> n div 8 - 1 - (pos - start) div 8), pos mod 8)"

definition packed_region :: "'a lay_grid_scheme \<Rightarrow> nat \<Rightarrow> packed \<Rightarrow> nat \<times> nat" where
  "packed_region P pos p =
     (case pk_reading p of
        RNative s \<Rightarrow> (pos, 8 * prim_bytes s)
      | _ \<Rightarrow> (region_start (lg_grid P) pos, region_bits (lg_grid P) (pk_bits p)))"

definition packed_cell :: "'a lay_grid_scheme \<Rightarrow> nat \<Rightarrow> packed \<Rightarrow> nat \<Rightarrow> nat \<times> nat" where
  "packed_cell P pos p j = (case packed_region P pos p of (start, n) \<Rightarrow> region_cell (lg_endian P) start n (pos + j))"

text \<open>A field whose position and width the derive accepts.\<close>

definition grid_ok :: "'a lay_grid_scheme \<Rightarrow> bool" where
  "grid_ok P \<longleftrightarrow> lg_bits P = container_bits (lg_grid P) \<and> lg_bits P = 8 * lg_bytes P
     \<and> lg_endian P = container_endian (lg_grid P)"

definition packed_fits :: "packed \<Rightarrow> bool" where
  "packed_fits p \<longleftrightarrow> 1 \<le> pk_bits p \<and> pk_bits p \<le> (if pk_wide p then 128 else 64)"

definition packed_placed :: "'a lay_grid_scheme \<Rightarrow> nat \<Rightarrow> packed \<Rightarrow> bool" where
  "packed_placed P pos p \<longleftrightarrow> packed_fits p \<and> pos + pk_bits p \<le> lg_bits P
     \<and> (case pk_reading p of
          RNative s \<Rightarrow> pk_bits p = 8 * prim_bytes s \<and> 8 dvd pos
        | _ \<Rightarrow> (case lg_grid P of
                  CWord _ _ _ _ _ \<Rightarrow> True
                | CWords _ _ _ \<Rightarrow> pos mod 16 + pk_bits p \<le> 16
                | CBytes _ _ \<Rightarrow> 8 dvd pos \<and> (pk_bits p = 8 \<or> pk_bits p = 16 \<or> pk_bits p = 32 \<or> pk_bits p = 64)))"

section \<open>What the loads read\<close>

lemma next_pow2_small:
  "n \<le> 16 \<Longrightarrow> next_pow2 n = (if n \<le> 1 then 1 else if n \<le> 2 then 2 else if n \<le> 4 then 4 else if n \<le> 8 then 8 else 16)"
proof -
  have "next_pow2 (Suc 0) = 1" "next_pow2 2 = 2" by (simp_all add: next_pow2.simps)
  moreover have "next_pow2 3 = 4" "next_pow2 4 = 4" using calculation by (simp_all add: next_pow2.simps)
  moreover have "next_pow2 5 = 8" "next_pow2 6 = 8" "next_pow2 7 = 8" "next_pow2 8 = 8"
    using calculation by (simp_all add: next_pow2.simps)
  moreover have "next_pow2 9 = 16" "next_pow2 10 = 16" "next_pow2 11 = 16" "next_pow2 12 = 16" "next_pow2 13 = 16"
    "next_pow2 14 = 16" "next_pow2 15 = 16" "next_pow2 16 = 16" "next_pow2 0 = 1"
    using calculation by (simp_all add: next_pow2.simps)
  moreover assume "n \<le> 16"
  then have "n \<in> {0, 1, 2, 3, 4, 5, 6, 7, 8, 9, 10, 11, 12, 13, 14, 15, 16}" unfolding insert_iff empty_iff by presburger
  ultimately show ?thesis by auto
qed

lemma next_pow2_bounds: "1 \<le> n \<Longrightarrow> n \<le> 16 \<Longrightarrow> n \<le> next_pow2 n \<and> next_pow2 n \<le> 16 \<and> (next_pow2 n = 1 \<longleftrightarrow> n = 1)"
  by (auto simp: next_pow2_small)

lemma bit_ucast_byte: "bit (ucast (b :: u8) :: u128) n \<longleftrightarrow> n < 8 \<and> bit b n"
  using bit_imp_le_length [of b n] by (auto simp: bit_ucast_iff)

lemma bit_from_le [bits_at]:
  "bit (from_le bs) n \<longleftrightarrow> n < 128 \<and> n div 8 < length bs \<and> bit (bs ! (n div 8)) (n mod 8)"
proof (induction bs arbitrary: n)
  case Nil
  then show ?case by (simp add: from_le_def)
next
  case (Cons b bs)
  have e: "from_le (b # bs) = ucast b OR push_bit 8 (from_le bs)" by (simp add: from_le_def)
  show ?case
  proof (cases "n < 8")
    case True
    then show ?thesis by (auto simp: e bit_or_iff bit_push_bit_iff bit_ucast_byte)
  next
    case False
    then have "n div 8 = Suc ((n - 8) div 8)" "(n - 8) mod 8 = n mod 8" by (auto simp: le_div_geq le_mod_geq)
    then show ?thesis
      using False by (auto simp: e bit_or_iff bit_push_bit_iff bit_ucast_byte Cons.IH)
  qed
qed

text \<open>Where byte \<open>k\<close> of the number held in \<open>len\<close> bytes is among them.\<close>

definition byte_at :: "endian \<Rightarrow> nat \<Rightarrow> nat \<Rightarrow> nat" where
  "byte_at e n k = (case e of Le \<Rightarrow> k | Be \<Rightarrow> n - 1 - k)"

lemma byte_at_less: "k < n \<Longrightarrow> byte_at e n k < n"
  by (cases e) (auto simp: byte_at_def)

lemma byte_at_twice: "k < n \<Longrightarrow> byte_at e n (byte_at e n k) = k"
  by (cases e) (auto simp: byte_at_def)

lemma bit_from_bytes [bits_at]:
  "bit (from_bytes e bs) n \<longleftrightarrow> n < 128 \<and> n div 8 < length bs \<and> bit (bs ! byte_at e (length bs) (n div 8)) (n mod 8)"
  by (cases e) (auto simp: from_bytes_def byte_at_def bit_from_le rev_nth)

lemma region_cell_alt:
  "region_cell e start n pos = (start div 8 + byte_at e (n div 8) ((pos - start) div 8), pos mod 8)"
  by (simp add: region_cell_def byte_at_def split: endian.splits)

lemma window_bytes_bit:
  assumes "off + len \<le> length buf" "1 \<le> len" "len \<le> reg" "reg \<le> 16"
  shows "\<exists>v. window_bytes e off len reg buf = Some v
    \<and> (\<forall>n. bit v n \<longleftrightarrow> n < 8 * len \<and> bit (buf ! (off + byte_at e len (n div 8))) (n mod 8))"
proof -
  have d: "n div 8 < len \<longleftrightarrow> n < 8 * len" for n by auto
  show ?thesis
  proof (cases "reg = 1")
    case True
    then have "len = 1" using assms by simp
    then show ?thesis
      using True assms by (cases e) (auto simp: window_bytes_def bit_ucast_byte byte_at_def)
  next
    case False
    let ?real = "take len (drop off buf)" and ?pad = "replicate (reg - len) (0 :: u8)"
    let ?bs = "case e of Le \<Rightarrow> ?real @ ?pad | Be \<Rightarrow> ?pad @ ?real"
    have l: "length ?bs = reg" using assms by (cases e) auto
    have "bit (from_bytes e ?bs) n \<longleftrightarrow> n < 8 * len \<and> bit (buf ! (off + byte_at e len (n div 8))) (n mod 8)" for n
    proof (cases "n < 8 * len")
      case True
      then have k: "n div 8 < len" "n < 128" using assms by auto
      show ?thesis
        unfolding bit_from_bytes l using k True assms
        by (cases e) (auto simp: byte_at_def nth_append add.commute)
    next
      case F: False
      show ?thesis
        unfolding bit_from_bytes l using F assms
        by (cases e) (auto simp: byte_at_def nth_append)
    qed
    then show ?thesis using False assms by (simp add: window_bytes_def Let_def)
  qed
qed

lemma scalar_read_bit:
  assumes "off + prim_bytes s \<le> length buf" "s \<noteq> PBool"
  shows "\<exists>v. scalar_read e s off buf = Some v
    \<and> (\<forall>n. bit v n \<longleftrightarrow> n < 8 * prim_bytes s \<and> bit (buf ! (off + byte_at e (prim_bytes s) (n div 8))) (n mod 8))"
proof -
  have "1 \<le> prim_bytes s" "prim_bytes s \<le> 16" by (cases s; simp)+
  then show ?thesis
    using window_bytes_bit [OF assms(1) _ order_refl, of e] assms(2) by (cases s) (simp_all add: scalar_read_def)
qed

lemma bit_mask128: "bit (mask128 n) k \<longleftrightarrow> k < 128 \<and> k < n"
  by (simp add: mask128_eq bit_mask_iff)

lemma bit_reg_mask: "bit (reg_mask reg v) k \<longleftrightarrow> k < 8 * reg \<and> bit v k"
  by (simp add: reg_mask_def bit_take_bit_iff)

lemma uint_scalar_simps: "uint_scalar 16 = PU16"
  "n = 8 \<or> n = 16 \<or> n = 32 \<or> n = 64 \<Longrightarrow> 8 * prim_bytes (uint_scalar n) = n \<and> uint_scalar n \<noteq> PBool"
  by (auto simp: uint_scalar_def)

lemma byte_cell:
  assumes "8 dvd pos"
  shows "region_cell e pos n (pos + j) = (pos div 8 + byte_at e (n div 8) (j div 8), j mod 8)"
  using assms by (auto simp: region_cell_alt)

lemma whole_load:
  assumes "8 dvd pos" "s \<noteq> PBool" "pos + 8 * prim_bytes s \<le> 8 * length buf"
  shows "\<exists>v. scalar_read e s (pos div 8) buf = Some v
    \<and> (\<forall>j. bit v j \<longleftrightarrow> j < 8 * prim_bytes s \<and> wire_bit buf (region_cell e pos (8 * prim_bytes s) (pos + j)))"
proof -
  have "pos div 8 + prim_bytes s \<le> length buf" using assms(1,3) by auto
  from scalar_read_bit [OF this assms(2), of e] show ?thesis
    by (simp add: byte_cell [OF assms(1)] wire_bit_def)
qed

lemma raw_exact:
  assumes "grid_ok P" "hoisted P" "1 \<le> lg_bytes P" "length buf = lg_bytes P"
  shows "\<exists>raw. load_raw P buf = Some raw
    \<and> (\<forall>n. bit raw n \<longleftrightarrow> n < lg_bits P \<and> wire_bit buf (region_cell (lg_endian P) 0 (lg_bits P) n))"
proof (cases "lg_bits P \<le> 64")
  case True
  have b: "lg_bits P = 8 * lg_bytes P" using assms(1) by (simp add: grid_ok_def)
  then have n: "lg_bytes P \<le> 8" using True by simp
  define reg where "reg = next_pow2 (lg_bytes P)"
  have r: "lg_bytes P \<le> reg" "reg \<le> 16" using next_pow2_bounds [of "lg_bytes P"] n assms(3) by (simp_all add: reg_def)
  have "load_raw P buf = window_bytes (lg_endian P) 0 (lg_bytes P) reg buf"
    using True assms(2) by (simp add: load_raw_def register_load_def register_def reg_def)
  with window_bytes_bit [of 0 "lg_bytes P" buf reg "lg_endian P"] assms(3,4) r show ?thesis
    by (auto simp: region_cell_alt wire_bit_def b)
next
  case False
  have b: "lg_bits P = 8 * lg_bytes P" using assms(1) by (simp add: grid_ok_def)
  have n: "lg_bytes P \<le> 16" using assms(2) b by (simp add: hoisted_def)
  have reg: "register P = None" using False by (simp add: register_def)
  have wires: "\<exists>x. from_wire (lg_bits P) (lg_bytes P) bs = Some x
      \<and> (\<forall>n. bit x n \<longleftrightarrow> n < lg_bits P \<and> bit (bs ! (n div 8)) (n mod 8))" for bs
  proof -
    obtain x where x: "from_wire (lg_bits P) (lg_bytes P) bs = Some x"
      using from_wire_Some [of "lg_bytes P" bs] assms(3) n by (auto simp: b)
    moreover have "bit x n \<longleftrightarrow> n < lg_bits P \<and> bit (bs ! (n div 8)) (n mod 8)" for n
      using bit_from_wire [OF x, of n] from_wire_upper [OF x, of n] by (cases "n < lg_bits P") (auto simp: b)
    ultimately show ?thesis by auto
  qed
  show ?thesis
  proof (cases "lg_endian P")
    case Le
    then show ?thesis using wires [of buf] reg assms(2) by (simp add: load_raw_def region_cell_alt byte_at_def wire_bit_def)
  next
    case Be
    have "rev buf ! (n div 8) = buf ! (lg_bytes P - 1 - n div 8)" if "n < lg_bits P" for n
      using that assms(4) by (subst rev_nth) (auto simp: b)
    then show ?thesis
      using Be wires [of "rev buf"] reg assms(2,4)
      by (auto simp: load_raw_def region_cell_alt byte_at_def wire_bit_def b from_wire_be_rev)
  qed
qed

lemma window_placed:
  assumes "1 \<le> w"
  shows "\<exists>span. container_window pos w = (pos div 8, span) \<and> 1 \<le> span
    \<and> pos mod 8 + w \<le> 8 * span \<and> 8 * span < pos mod 8 + w + 8"
proof -
  define q r f where "q = pos div 8" and "r = pos mod 8" and "f = (pos + w - 1) div 8"
  have p: "pos = 8 * q + r" by (simp add: q_def r_def)
  have "8 * f \<le> pos + w - 1" "pos + w - 1 < 8 * f + 8" by (auto simp: f_def)
  then have f: "8 * f + 1 \<le> pos + w" "pos + w \<le> 8 * f + 8" using assms by linarith+
  have "q \<le> f" unfolding q_def f_def using assms by (intro div_le_mono) simp
  then obtain d where d: "f = q + d" using le_Suc_ex by blast
  have "r + w \<le> 8 * (d + 1)" using f p d by simp
  moreover have "8 * (d + 1) < r + w + 8" using f p d by simp
  ultimately have "r + w \<le> 8 * (f - q + 1)" "8 * (f - q + 1) < r + w + 8" using d by simp_all
  then show ?thesis by (simp add: container_window_def f_def q_def r_def Let_def)
qed

lemma offset_byte:
  assumes "k < n" "c0 + n \<le> lg_bytes P"
  shows "wire_offset P c0 n + byte_at (lg_endian P) n k = byte_at (lg_endian P) (lg_bytes P) (c0 + k)"
  using assms by (cases "lg_endian P") (auto simp: wire_offset_def byte_at_def)

lemma offset_fits: "c0 + n \<le> lg_bytes P \<Longrightarrow> wire_offset P c0 n + n \<le> lg_bytes P"
  by (cases "lg_endian P") (auto simp: wire_offset_def)

text \<open>The two shapes of a window: up to sixteen bytes, and seventeen.\<close>

lemma window_shapes:
  assumes "lg_bits P = 8 * lg_bytes P" "pos + pk_bits p \<le> lg_bits P" "packed_fits p"
  obtains (short) span reg where
      "window_of P pos p = Some \<lparr>wn_offset = wire_offset P (pos div 8) span, wn_len = span, wn_reg = reg,
         wn_shift = pos mod 8, wn_mask = mask128 (pk_bits p), wn_wide = pk_wide p, wn_tail = None\<rparr>"
      "1 \<le> span" "span \<le> reg" "reg \<le> 16" "pos div 8 + span \<le> lg_bytes P"
      "pos mod 8 + pk_bits p \<le> 8 * span"
    | (long) "window_of P pos p = Some \<lparr>wn_offset = wire_offset P (pos div 8) 16, wn_len = 16, wn_reg = 16,
         wn_shift = pos mod 8, wn_mask = mask128 (pk_bits p), wn_wide = pk_wide p,
         wn_tail = Some (wire_offset P (pos div 8 + 16) 1, pk_bits p - (128 - pos mod 8))\<rparr>"
      "pos div 8 + 17 \<le> lg_bytes P" "128 < pos mod 8 + pk_bits p" "pk_bits p \<le> 128" "pk_wide p"
proof -
  have w: "1 \<le> pk_bits p" "pk_bits p \<le> 128" using assms(3) by (auto simp: packed_fits_def split: if_splits)
  obtain span where s: "container_window pos (pk_bits p) = (pos div 8, span)" "1 \<le> span"
    "pos mod 8 + pk_bits p \<le> 8 * span" "8 * span < pos mod 8 + pk_bits p + 8"
    using window_placed [OF w(1), of pos] by blast
  have pq: "pos = 8 * (pos div 8) + pos mod 8" "pos mod 8 < 8" by simp_all
  have fit: "pos div 8 + span \<le> lg_bytes P" using s(4) pq assms(1,2) by linarith
  show thesis
  proof (cases "span \<le> 16")
    case True
    define reg where "reg = (if pk_wide p then 16 else next_pow2 span)"
    have "span \<le> reg" "reg \<le> 16" using next_pow2_bounds [of span] True s(2) by (auto simp: reg_def)
    moreover have "window_of P pos p = Some \<lparr>wn_offset = wire_offset P (pos div 8) span, wn_len = span, wn_reg = reg,
         wn_shift = pos mod 8, wn_mask = mask128 (pk_bits p), wn_wide = pk_wide p, wn_tail = None\<rparr>"
      using True by (simp add: window_of_def s(1) reg_def Let_def)
    ultimately show thesis using short s(2,3) fit by blast
  next
    case False
    then have sp: "span = 17" "128 < pos mod 8 + pk_bits p" using s(4) w(2) pq(2) by linarith+
    have wide: "pk_wide p"
    proof (rule ccontr)
      assume "\<not> pk_wide p"
      then have "pk_bits p \<le> 64" using assms(3) by (simp add: packed_fits_def)
      then show False using sp(2) pq(2) by linarith
    qed
    show thesis
      using fit long sp w(2) wide by (simp add: window_of_def s(1) Let_def)
  qed
qed

lemma cell_whole:
  assumes "lg_bits P = 8 * lg_bytes P"
  shows "region_cell (lg_endian P) 0 (lg_bits P) (pos + j)
    = (byte_at (lg_endian P) (lg_bytes P) (pos div 8 + (pos mod 8 + j) div 8), (pos mod 8 + j) mod 8)"
proof -
  have "pos + j = 8 * (pos div 8) + (pos mod 8 + j)" by simp
  then have "(pos + j) div 8 = pos div 8 + (pos mod 8 + j) div 8" "(pos + j) mod 8 = (pos mod 8 + j) mod 8"
    by (metis div_mult_self4 zero_neq_numeral, metis mod_mult_self4)
  then show ?thesis by (simp add: region_cell_alt assms)
qed

lemma mask128_inj: "a \<le> 128 \<Longrightarrow> b \<le> 128 \<Longrightarrow> mask128 a = mask128 b \<Longrightarrow> a = b"
proof -
  assume ab: "a \<le> 128" "b \<le> 128" and e: "mask128 a = mask128 b"
  have "k < a \<longleftrightarrow> k < b" if "k < 128" for k using arg_cong [OF e, of "\<lambda>w. bit w k"] that by (simp add: bit_mask128)
  then show ?thesis using ab by (metis linorder_neqE_nat order_less_le_trans order.strict_implies_not_eq nat_neq_iff)
qed

lemma window_load:
  assumes "lg_bits P = 8 * lg_bytes P" "length buf = lg_bytes P" "pos + pk_bits p \<le> lg_bits P" "packed_fits p"
  shows "\<exists>w v. window_of P pos p = Some w \<and> load P raw buf (AWindow w) = Some v
    \<and> (\<forall>j. bit v j \<longleftrightarrow> j < pk_bits p \<and> wire_bit buf (region_cell (lg_endian P) 0 (lg_bits P) (pos + j)))"
  using assms(1,3,4)
proof (cases rule: window_shapes)
  case (short span reg)
  obtain v where v: "window_bytes (lg_endian P) (wire_offset P (pos div 8) span) span reg buf = Some v"
    "\<And>n. bit v n \<longleftrightarrow> n < 8 * span \<and> bit (buf ! (wire_offset P (pos div 8) span + byte_at (lg_endian P) span (n div 8))) (n mod 8)"
    using window_bytes_bit [OF _ short(2-4), of "wire_offset P (pos div 8) span" buf "lg_endian P"]
      offset_fits [OF short(5)] assms(2) by auto
  have b: "bit (drop_bit (pos mod 8) v) j \<longleftrightarrow> pos mod 8 + j < 8 * span
      \<and> wire_bit buf (region_cell (lg_endian P) 0 (lg_bits P) (pos + j))" for j
  proof (cases "pos mod 8 + j < 8 * span")
    case True
    then have "(pos mod 8 + j) div 8 < span" by auto
    from offset_byte [OF this short(5)] True show ?thesis
      by (simp add: bit_drop_bit_eq v(2) cell_whole [OF assms(1)] wire_bit_def)
  qed (simp add: bit_drop_bit_eq v(2))
  have w: "pk_bits p \<le> 8 * reg" using short(3,6) by linarith
  have "mask128 (pk_bits p) = reg_ones reg \<Longrightarrow> pk_bits p = 8 * reg"
    using w short(4) by (intro mask128_inj) (auto simp: reg_ones_def)
  then have "mask128 (pk_bits p) = reg_ones reg \<Longrightarrow> pos mod 8 + j < 8 * span \<longleftrightarrow> j < pk_bits p" for j
    using short(3,6) by auto
  moreover have "j < pk_bits p \<Longrightarrow> pos mod 8 + j < 8 * span \<and> j < 8 * reg \<and> j < 128" for j
    using short(6) w short(4) by auto
  ultimately show ?thesis
    by (auto simp: short(1) v(1) b bit_and_iff bit_reg_mask bit_mask128 Let_def)
next
  case long
  let ?s = "pos mod 8"
  have c0: "pos div 8 + 16 \<le> lg_bytes P" using long(2) by simp
  obtain v where v: "window_bytes (lg_endian P) (wire_offset P (pos div 8) 16) 16 16 buf = Some v"
    "\<And>n. bit v n \<longleftrightarrow> n < 8 * 16 \<and> bit (buf ! (wire_offset P (pos div 8) 16 + byte_at (lg_endian P) 16 (n div 8))) (n mod 8)"
    using window_bytes_bit [of "wire_offset P (pos div 8) 16" 16 buf 16 "lg_endian P"] offset_fits [OF c0] assms(2) by auto
  let ?byte = "wire_offset P (pos div 8 + 16) 1"
  have byte: "?byte = byte_at (lg_endian P) (lg_bytes P) (pos div 8 + 16)" "?byte < length buf"
    using offset_byte [of 0 1 "pos div 8 + 16" P] offset_fits [of "pos div 8 + 16" 1 P] long(2) assms(2)
    by (auto simp: byte_at_def split: endian.splits)
  let ?all = "drop_bit ?s v OR push_bit (128 - ?s) (ucast (buf ! ?byte))"
  have b: "bit ?all j \<longleftrightarrow> wire_bit buf (region_cell (lg_endian P) 0 (lg_bits P) (pos + j))" if j: "j < pk_bits p" for j
  proof (cases "?s + j < 128")
    case True
    then have "(?s + j) div 8 < 16" "\<not> 128 - ?s \<le> j" by linarith+
    with offset_byte [OF this(1) c0] True show ?thesis
      by (simp add: bit_or_iff bit_drop_bit_eq bit_push_bit_iff v(2) cell_whole [OF assms(1)] wire_bit_def)
  next
    case False
    have s: "?s < 8" "j < 128" using j long(4) by simp_all
    define i where "i = ?s + j - 128"
    have i: "?s + j = 128 + i" "i < 8" using False s by (auto simp: i_def)
    moreover have "(128 + i) mod 8 = i" "(128 + i) div 8 = 16" using i(2) by presburger+
    ultimately have "(?s + j) div 8 = 16" "(?s + j) mod 8 = i" "j - (128 - ?s) = i" "128 - ?s \<le> j" by auto
    then show ?thesis
      using False s i by (simp add: bit_or_iff bit_drop_bit_eq bit_push_bit_iff bit_ucast_byte v(2) cell_whole [OF assms(1)]
          wire_bit_def byte(1) [unfolded One_nat_def])
  qed
  define r where "r = (if mask128 (pk_bits p) \<noteq> reg_ones 16 then ?all AND reg_mask 16 (mask128 (pk_bits p)) else ?all)"
  have "bit r j \<longleftrightarrow> j < pk_bits p \<and> wire_bit buf (region_cell (lg_endian P) 0 (lg_bits P) (pos + j))" for j
  proof (cases "mask128 (pk_bits p) = reg_ones 16")
    case True
    then have "pk_bits p = 128" using long(4) by (auto simp: reg_ones_def intro: mask128_inj)
    moreover have "bit ?all j \<Longrightarrow> j < 128" using bit_imp_le_length [of ?all j] by simp
    ultimately show ?thesis using b [of j] True unfolding r_def by auto
  next
    case False
    then have "bit r j \<longleftrightarrow> bit ?all j \<and> j < pk_bits p"
      using long(4) unfolding r_def if_P [OF False] bit_and_iff bit_reg_mask bit_mask128 by auto
    then show ?thesis using b [of j] by blast
  qed
  moreover have "load P raw buf (AWindow (the (window_of P pos p))) = Some r"
    using byte(2) by (simp add: long(1) v(1) r_def Let_def)
  ultimately show ?thesis using long(1) by auto
qed

text \<open>Every way of access, as decode and encode use it (\<open>held\<close>) and as a view does.\<close>

lemma load_exact:
  assumes G: "grid_ok P" and F: "packed_placed P pos p" and L: "length buf = lg_bytes P"
    and B: "pk_reading p \<noteq> RNative PBool" and R: "held \<Longrightarrow> load_raw P buf = Some raw"
  shows "\<exists>a v. access_of P held pos p = Some a \<and> load P raw buf a = Some v
    \<and> (\<forall>j. bit v j \<longleftrightarrow> j < pk_bits p \<and> wire_bit buf (packed_cell P pos p j))"
proof (cases "\<exists>s. pk_reading p = RNative s")
  case True
  then obtain s where s: "pk_reading p = RNative s" by blast
  then have f: "pk_bits p = 8 * prim_bytes s" "8 dvd pos" "pos + 8 * prim_bytes s \<le> 8 * length buf" "s \<noteq> PBool"
    using F G L B by (auto simp: packed_placed_def grid_ok_def)
  from whole_load [OF f(2,4,3), of "lg_endian P"] show ?thesis
    by (simp add: access_of_def s packed_cell_def packed_region_def f(1))
next
  case False
  have fits: "packed_fits p" "pos + pk_bits p \<le> lg_bits P" "lg_bits P = 8 * lg_bytes P"
    using F G by (auto simp: packed_placed_def grid_ok_def)
  have w: "1 \<le> pk_bits p" "pk_bits p \<le> 128" using fits(1) by (auto simp: packed_fits_def split: if_splits)
  have n: "1 \<le> lg_bytes P" using fits w by linarith
  show ?thesis
  proof (cases "lg_grid P")
    case (CWord gb pre pv ge ord)
    have cell: "packed_cell P pos p j = region_cell (lg_endian P) 0 (lg_bits P) (pos + j)" for j
      using False G CWord by (auto simp: packed_cell_def packed_region_def grid_ok_def split: reading.splits)
    show ?thesis
    proof (cases "hoisted P \<and> held")
      case H: True
      then have raw: "bit raw k \<longleftrightarrow> k < lg_bits P \<and> wire_bit buf (region_cell (lg_endian P) 0 (lg_bits P) k)" for k
        using raw_exact [OF G _ n L] R by auto
      show ?thesis
      proof (cases "lg_bits P \<le> 64")
        case True
        define reg where "reg = next_pow2 (lg_bytes P)"
        have r: "lg_bits P \<le> 8 * reg" "reg \<le> 16"
          using next_pow2_bounds [of "lg_bytes P"] True n fits(3) by (auto simp: reg_def)
        have "access_of P held pos p = Some (ARegister pos (pk_bits p) reg)"
          using False H CWord True by (auto simp: access_of_def register_def reg_def split: reading.splits)
        moreover have "\<not> pos + pk_bits p < reg * 8 \<Longrightarrow> lg_bits P = pos + pk_bits p" using fits(2) r(1) by simp
        moreover have "j < pk_bits p \<Longrightarrow> pos + j < lg_bits P \<and> j < 8 * reg \<and> j < 128" for j using fits(2) r by linarith
        ultimately show ?thesis
          by (auto simp: Let_def bit_and_iff bit_drop_bit_eq bit_reg_mask bit_mask128 raw cell)
      next
        case big: False
        have acc: "access_of P held pos p = Some (AContainer \<lparr>ext_start = pos, ext_width = pk_bits p\<rparr> (pk_wide p))"
          using False H CWord big by (auto simp: access_of_def register_def split: reading.splits)
        have "lg_bits P \<le> 128" using H by (simp add: hoisted_def)
        then obtain v where v: "extract_wide \<lparr>ext_start = pos, ext_width = pk_bits p\<rparr> raw = Some v"
          using extract_wide_Some [of "\<lparr>ext_start = pos, ext_width = pk_bits p\<rparr>" raw] fits(2) by (auto simp: extent_end_def)
        have b: "bit v j \<longleftrightarrow> j < pk_bits p \<and> wire_bit buf (packed_cell P pos p j)" for j
          using fits(2) by (auto simp: bit_extract_wide [OF v] raw cell)
        have "\<not> pk_wide p \<Longrightarrow> pk_bits p \<le> 64" using fits(1) by (simp add: packed_fits_def)
        then have "\<not> pk_wide p \<Longrightarrow> (ucast (ucast v :: u64) :: u128) = v"
          by (intro bit_word_eqI) (auto simp: bit_ucast_iff b)
        with b v acc show ?thesis by (auto simp: extract_u64_def)
      qed
    next
      case H: False
      have "access_of P held pos p = map_option AWindow (window_of P pos p)"
        using False H CWord by (auto simp: access_of_def split: reading.splits)
      with window_load [OF fits(3) L fits(2,1), of raw] show ?thesis by (auto simp: cell)
    qed
  next
    case (CBytes nb ge)
    have d: "8 dvd pos" "pk_bits p = 8 \<or> pk_bits p = 16 \<or> pk_bits p = 32 \<or> pk_bits p = 64"
      using False F CBytes by (auto simp: packed_placed_def split: reading.splits)
    have s: "8 * prim_bytes (uint_scalar (pk_bits p)) = pk_bits p" "uint_scalar (pk_bits p) \<noteq> PBool"
      using uint_scalar_simps(2) [OF d(2)] by auto
    have "access_of P held pos p = Some (AWhole (uint_scalar (pk_bits p)) (pos div 8))"
      using False CBytes by (auto simp: access_of_def split: reading.splits)
    moreover have "packed_cell P pos p j = region_cell (lg_endian P) pos (pk_bits p) (pos + j)" for j
      using False CBytes by (auto simp: packed_cell_def packed_region_def split: reading.splits)
    ultimately show ?thesis
      using whole_load [OF d(1) s(2), of buf "lg_endian P"] fits(2,3) L by (auto simp: s(1))
  next
    case (CWords nw ge ord)
    have d: "pos mod 16 + pk_bits p \<le> 16" using False F CWords by (auto simp: packed_placed_def split: reading.splits)
    let ?base = "pos - pos mod 16"
    have base: "?base = 16 * (pos div 16)" by (metis minus_mod_eq_mult_div mult.commute)
    have "lg_bits P = nw * 16" using G CWords by (simp add: grid_ok_def)
    moreover from this have "pos div 16 < nw" using fits(2) w(1) by (intro less_mult_imp_div_less) linarith
    ultimately have in16: "?base + 16 \<le> 8 * length buf" using base fits(3) L by simp
    obtain v where v: "scalar_read (lg_endian P) PU16 (?base div 8) buf = Some v"
      "\<And>j. bit v j \<longleftrightarrow> j < 16 \<and> wire_bit buf (region_cell (lg_endian P) ?base 16 (?base + j))"
      using whole_load [of ?base PU16 buf "lg_endian P"] base in16 by (auto simp: dvd_def)
    have acc: "access_of P held pos p = Some (ARegion PU16 (?base div 8) (pos mod 16) (mask64 (pk_bits p)))"
      using False CWords by (auto simp: access_of_def uint_scalar_simps split: reading.splits)
    have cell: "packed_cell P pos p j = region_cell (lg_endian P) ?base 16 (pos + j)" for j
      using False CWords by (auto simp: packed_cell_def packed_region_def split: reading.splits)
    have sum: "?base + (pos mod 16 + j) = pos + j" for j using base by simp
    have "bit (reg_mask 2 (ucast (mask64 (pk_bits p)))) j \<longleftrightarrow> j < pk_bits p" for j
      using d by (auto simp: bit_reg_mask mask64_eq bit_ucast_iff bit_mask_iff)
    moreover have "j < pk_bits p \<Longrightarrow> pos mod 16 + j < 16" for j using d by linarith
    ultimately show ?thesis
      using acc by (auto simp: v bit_and_iff bit_drop_bit_eq cell sum)
  qed
qed

section \<open>What the stores write\<close>

lemma byte_shift: "bit (ucast (drop_bit (8 * i) v) :: u8) k \<longleftrightarrow> k < 8 \<and> bit v (8 * i + k)" for v :: u128
  by (auto simp: bit_ucast_iff bit_drop_bit_eq)

lemma wire_part_nth:
  assumes "len \<le> reg"
  shows "length (wire_part e len reg v) = len"
    and "i < len \<Longrightarrow> bit (wire_part e len reg v ! i) k \<longleftrightarrow> k < 8 \<and> bit v (8 * byte_at e len i + k)"
proof -
  have "to_wire_be reg v ! (reg - len + i) = ucast (drop_bit (8 * (len - 1 - i)) v)" if "i < len" for i
  proof -
    define q where "q = reg - len + i"
    have "reg - 1 - q = len - 1 - i" "q < reg" using that assms by (auto simp: q_def)
    then show ?thesis unfolding q_def [symmetric] by (simp add: to_wire_be_def mult.commute)
  qed
  moreover have "to_wire reg v ! i = ucast (drop_bit (8 * i) v)" if "i < len" for i
    using that assms by (simp add: to_wire_def mult.commute)
  ultimately show "length (wire_part e len reg v) = len"
    "i < len \<Longrightarrow> bit (wire_part e len reg v ! i) k \<longleftrightarrow> k < 8 \<and> bit v (8 * byte_at e len i + k)"
    using assms by (cases e; auto simp: wire_part_def to_bytes_def byte_at_def len_simps byte_shift)+
qed

lemma to_bytes_part: "to_bytes e n v = wire_part e n n v"
  by (cases e) (simp_all add: wire_part_def to_bytes_def len_simps)

text \<open>Cell \<open>n\<close> of the number held in the \<open>len\<close> bytes at \<open>off\<close>.\<close>

definition number_cell :: "endian \<Rightarrow> nat \<Rightarrow> nat \<Rightarrow> nat \<Rightarrow> nat \<times> nat" where
  "number_cell e off len n = (off + byte_at e len (n div 8), n mod 8)"

text \<open>\<open>buf'\<close> holds \<open>v\<close> in the cells \<open>c 0\<close> to \<open>c (w - 1)\<close>, and is \<open>buf\<close> elsewhere.\<close>

definition written_to :: "(nat \<Rightarrow> nat \<times> nat) \<Rightarrow> nat \<Rightarrow> u128 \<Rightarrow> u8 list \<Rightarrow> u8 list \<Rightarrow> bool" where
  "written_to c w v buf buf' \<longleftrightarrow> length buf' = length buf \<and> (\<forall>j < w. wire_bit buf' (c j) = bit v j)
     \<and> (\<forall>i < length buf. \<forall>k < 8. (i, k) \<notin> c ` {..<w} \<longrightarrow> bit (buf' ! i) k = bit (buf ! i) k)"

lemma number_store:
  assumes "off + len \<le> length buf" "len \<le> reg" "s + w \<le> 8 * len"
    and new: "\<And>n. n < 8 * len \<Longrightarrow>
      bit new n \<longleftrightarrow> (if s \<le> n \<and> n < s + w then bit v (n - s) else wire_bit buf (number_cell e off len n))"
  shows "\<exists>buf'. put buf off (wire_part e len reg new) = Some buf'
    \<and> written_to (\<lambda>j. number_cell e off len (s + j)) w v buf buf'"
proof -
  note part = wire_part_nth [OF assms(2), where e = e and v = new]
  define buf' where "buf' = take off buf @ wire_part e len reg new @ drop (off + len) buf"
  have l: "length buf' = length buf" using assms(1) by (simp add: buf'_def part(1))
  have out: "buf' ! i = buf ! i" if "i < length buf" "\<not> (off \<le> i \<and> i < off + len)" for i
    using that assms(1) by (auto simp: buf'_def nth_append part(1))
  have inn: "bit (buf' ! (off + i)) k \<longleftrightarrow> k < 8 \<and> bit new (8 * byte_at e len i + k)" if "i < len" for i k
    using that assms(1) part(2) [OF that] by (simp add: buf'_def nth_append part(1))
  have "wire_bit buf' (number_cell e off len n) \<longleftrightarrow> bit new n" if "n < 8 * len" for n
  proof -
    have k: "n div 8 < len" using that by auto
    from inn [OF byte_at_less [OF k]] show ?thesis
      by (simp add: wire_bit_def number_cell_def byte_at_twice [OF k])
  qed
  moreover have "bit (buf' ! i) k = bit (buf ! i) k"
    if ik: "i < length buf" "k < 8" "(i, k) \<notin> (\<lambda>j. number_cell e off len (s + j)) ` {..<w}" for i k
  proof (cases "off \<le> i \<and> i < off + len")
    case True
    then obtain b where b: "i = off + b" "b < len" using le_Suc_ex by (metis nat_add_left_cancel_less)
    define n where "n = 8 * byte_at e len b + k"
    have n: "n div 8 = byte_at e len b" "n mod 8 = k" using ik(2) by (auto simp: n_def)
    have small: "n < 8 * len" using byte_at_less [OF b(2), of e] ik(2) by (auto simp: n_def)
    have cell: "number_cell e off len n = (i, k)" by (simp add: number_cell_def n b(1) byte_at_twice [OF b(2)])
    have "\<not> (s \<le> n \<and> n < s + w)"
    proof
      assume "s \<le> n \<and> n < s + w"
      then have "(i, k) = number_cell e off len (s + (n - s))" "n - s < w" using cell by auto
      then show False using ik(3) by blast
    qed
    with new [OF small] have "bit new n = bit (buf ! i) k" by (simp only: if_False cell wire_bit_def fst_conv snd_conv)
    with inn [OF b(2), of k] ik(2) show ?thesis by (simp add: b(1) n_def)
  qed (simp add: out ik(1))
  ultimately have "written_to (\<lambda>j. number_cell e off len (s + j)) w v buf buf'"
    using l new assms(3) by (auto simp: written_to_def)
  then show ?thesis using assms(1) by (simp add: put_def buf'_def part(1))
qed

lemma written_to_cong: "(\<And>j. j < w \<Longrightarrow> c j = d j) \<Longrightarrow> written_to c w v buf buf' = written_to d w v buf buf'"
  by (auto simp: written_to_def image_iff)

lemma prim_bytes_range: "1 \<le> prim_bytes s" "prim_bytes s \<le> 8"
  by (cases s; simp)+

lemma whole_cell: "8 dvd pos \<Longrightarrow> region_cell e pos (8 * n) (pos + j) = number_cell e (pos div 8) n j"
  by (simp add: byte_cell number_cell_def)

lemma whole_store:
  assumes "8 dvd pos" "pos + 8 * prim_bytes s \<le> 8 * length buf"
  shows "\<exists>buf'. scalar_write e s (pos div 8) buf v = Some buf'
    \<and> written_to (\<lambda>j. region_cell e pos (8 * prim_bytes s) (pos + j)) (8 * prim_bytes s) v buf buf'"
proof -
  have "pos div 8 + prim_bytes s \<le> length buf" using assms by auto
  from number_store [OF this order_refl, of 0 "8 * prim_bytes s" v v e] show ?thesis
    by (simp add: scalar_write_def to_bytes_part whole_cell [OF assms(1)])
qed

lemma window_new_bit:
  assumes "w \<le> 8 * len - s" "s \<le> 8 * len" "len \<le> reg" "reg \<le> 16" "n < 8 * len" and w: "w \<le> mw" "w = mw \<or> s + w = 8 * len"
    and m: "m = mask128 mw" "mw \<le> 128"
    and cur: "\<And>n. bit cur n \<longleftrightarrow> n < 8 * len \<and> P n"
    and ones: "m = reg_ones reg \<Longrightarrow> mw = 8 * reg"
  shows "bit (window_merge reg s m cur v) n
    \<longleftrightarrow> (if s \<le> n \<and> n < s + w then bit v (n - s) else P n)"
proof -
  have n: "n < 8 * reg" "n < 128" using assms(3-5) by linarith+
  have b: "bit (push_bit s m) n \<longleftrightarrow> s \<le> n \<and> n < s + mw"
    using n(2) assms(4) by (auto simp: bit_push_bit_iff m(1) bit_mask128)
  have eq: "n < s + mw \<longleftrightarrow> n < s + w" using w assms(5) by linarith
  show ?thesis
  proof (cases "s \<le> n \<and> n < s + w")
    case True
    then have "bit (if m = reg_ones reg then v else v AND reg_mask reg m) (n - s) \<longleftrightarrow> bit v (n - s)"
      using n eq by (auto simp: bit_and_iff bit_reg_mask m(1) bit_mask128)
    with True show ?thesis using n eq b
      by (simp add: window_merge_def bit_or_iff bit_and_iff bit_not_iff bit_reg_mask bit_push_bit_iff [where 'a = "128 word"]
          del: if_split)
  next
    case False
    have "\<not> bit (push_bit s (if m = reg_ones reg then v else v AND reg_mask reg m)) n"
    proof
      assume h: "bit (push_bit s (if m = reg_ones reg then v else v AND reg_mask reg m)) n"
      then have s: "s \<le> n" by (simp add: bit_push_bit_iff)
      then have "s + w \<le> n" using False by simp
      then have nw: "w = mw" "\<not> n < s + mw" using assms(5) w(2) eq by linarith+
      show False
      proof (cases "m = reg_ones reg")
        case True
        then show False using ones nw n s by simp
      next
        case F: False
        then have "n - s < mw" using h by (simp add: bit_push_bit_iff bit_and_iff bit_reg_mask m(1) bit_mask128)
        then show False using nw(2) s by simp
      qed
    qed
    then show ?thesis using False n eq b assms(5)
      by (auto simp: window_merge_def bit_or_iff bit_and_iff bit_not_iff bit_reg_mask reg_ones_def bit_mask128 cur)
  qed
qed

lemma bit_tail_byte:
  "k < 8 \<Longrightarrow> s \<le> 128 \<Longrightarrow> bit (tail_byte cur n s v) k \<longleftrightarrow> (if k < n then bit v (128 - s + k) else bit cur k)"
  by (auto simp: tail_byte_def bit_or_iff bit_and_iff bit_not_iff bit_mask_iff bit_ucast_iff bit_drop_bit_eq)

lemma byte_at_inj: "i < n \<Longrightarrow> j < n \<Longrightarrow> byte_at e n i = byte_at e n j \<Longrightarrow> i = j"
  by (metis byte_at_twice)

lemma window_number_cell:
  assumes "lg_bits P = 8 * lg_bytes P" "pos div 8 + n \<le> lg_bytes P" "pos mod 8 + j < 8 * n"
  shows "region_cell (lg_endian P) 0 (lg_bits P) (pos + j)
    = number_cell (lg_endian P) (wire_offset P (pos div 8) n) n (pos mod 8 + j)"
proof -
  have "(pos mod 8 + j) div 8 < n" using assms(3) by linarith
  from offset_byte [OF this assms(2)] show ?thesis by (simp add: cell_whole [OF assms(1)] number_cell_def)
qed

lemma window_store:
  assumes "lg_bits P = 8 * lg_bytes P" "length buf = lg_bytes P" "pos + pk_bits p \<le> lg_bits P" "packed_fits p"
  shows "\<exists>w buf'. window_of P pos p = Some w \<and> store P (AWindow w) v (bits, buf) = Some (bits, buf')
    \<and> written_to (\<lambda>j. region_cell (lg_endian P) 0 (lg_bits P) (pos + j)) (pk_bits p) v buf buf'"
  using assms(1,3,4)
proof (cases rule: window_shapes)
  case (short span reg)
  let ?e = "lg_endian P" and ?off = "wire_offset P (pos div 8) span" and ?m = "mask128 (pk_bits p)" and ?s = "pos mod 8"
  have off: "?off + span \<le> length buf" using offset_fits [OF short(5)] assms(2) by simp
  obtain cur where cur: "window_bytes ?e ?off span reg buf = Some cur"
    "\<And>n. bit cur n \<longleftrightarrow> n < 8 * span \<and> wire_bit buf (number_cell ?e ?off span n)"
    using window_bytes_bit [OF off short(2-4), of ?e] by (auto simp: wire_bit_def number_cell_def)
  have ones: "?m = reg_ones reg \<Longrightarrow> pk_bits p = 8 * reg"
    using short(3,4,6) by (intro mask128_inj) (auto simp: reg_ones_def)
  define new where "new = window_merge reg ?s ?m cur v"
  have n: "bit new n \<longleftrightarrow> (if ?s \<le> n \<and> n < ?s + pk_bits p then bit v (n - ?s) else wire_bit buf (number_cell ?e ?off span n))"
    if "n < 8 * span" for n
    unfolding new_def
    by (rule window_new_bit [OF _ _ short(3,4) that _ _ refl _ _ ones]) (use short(3,4,6) cur in auto)
  from number_store [OF off short(3,6), of new v ?e, OF n]
  obtain buf' where "put buf ?off (wire_part ?e span reg new) = Some buf'"
    "written_to (\<lambda>j. number_cell ?e ?off span (?s + j)) (pk_bits p) v buf buf'" by auto
  moreover have "number_cell ?e ?off span (?s + j) = region_cell ?e 0 (lg_bits P) (pos + j)" if "j < pk_bits p" for j
    using window_number_cell [OF assms(1) short(5), of j] that short(6) by simp
  ultimately show ?thesis
    by (simp add: short(1) cur(1) flip: new_def cong: written_to_cong)
next
  case long
  let ?e = "lg_endian P" and ?off = "wire_offset P (pos div 8) 16" and ?m = "mask128 (pk_bits p)" and ?s = "pos mod 8"
  let ?byte = "wire_offset P (pos div 8 + 16) 1" and ?w = "128 - pos mod 8"
  let ?cell = "\<lambda>j. region_cell ?e 0 (lg_bits P) (pos + j)"
  have c0: "pos div 8 + 16 \<le> lg_bytes P" using long(2) by simp
  have s: "?s < 8" "?w < pk_bits p" using long(3) by auto
  have off: "?off + 16 \<le> length buf" using offset_fits [OF c0] assms(2) by simp
  obtain cur where cur: "window_bytes ?e ?off 16 16 buf = Some cur"
    "\<And>n. bit cur n \<longleftrightarrow> n < 8 * 16 \<and> wire_bit buf (number_cell ?e ?off 16 n)"
    using window_bytes_bit [OF off, of 16 ?e] by (auto simp: wire_bit_def number_cell_def)
  have ones: "?m = reg_ones 16 \<Longrightarrow> pk_bits p = 8 * 16"
    using long(4) by (auto simp: reg_ones_def intro: mask128_inj)
  define new where "new = window_merge 16 ?s ?m cur v"
  have n: "bit new n \<longleftrightarrow> (if ?s \<le> n \<and> n < ?s + ?w then bit v (n - ?s) else wire_bit buf (number_cell ?e ?off 16 n))"
    if "n < 8 * 16" for n
    unfolding new_def
    by (rule window_new_bit [OF _ _ order_refl _ that _ _ refl long(4) _ ones]) (use s cur in auto)
  have "?s + ?w \<le> 8 * 16" using s by simp
  from number_store [OF off order_refl this, of new v ?e, OF n]
  obtain buf' where put: "put buf ?off (wire_part ?e 16 16 new) = Some buf'"
    and wrote: "written_to (\<lambda>j. number_cell ?e ?off 16 (?s + j)) ?w v buf buf'" by auto
  have cell: "number_cell ?e ?off 16 (?s + j) = ?cell j" if "j < ?w" for j
    using window_number_cell [OF assms(1) c0, of j] that by simp
  have byte: "?byte = byte_at ?e (lg_bytes P) (pos div 8 + 16)" "?byte < length buf"
    using offset_byte [of 0 1 "pos div 8 + 16" P] offset_fits [of "pos div 8 + 16" 1 P] long(2) assms(2)
    by (auto simp: byte_at_def split: endian.splits)
  have last: "?cell (?w + i) = (?byte, i)" if "i < 8" for i
  proof -
    have "?s + (?w + i) = 128 + i" using s by simp
    moreover have "(128 + i) div 8 = 16" "(128 + i) mod 8 = i" using that by presburger+
    ultimately show ?thesis unfolding cell_whole [OF assms(1)] byte(1) by simp
  qed
  have apart: "fst (?cell j) \<noteq> ?byte" if "j < ?w" for j
  proof -
    have "(?s + j) div 8 < 16" using that by linarith
    then have "pos div 8 + (?s + j) div 8 \<noteq> pos div 8 + 16" "pos div 8 + (?s + j) div 8 < lg_bytes P"
      using long(2) by linarith+
    then show ?thesis using byte_at_inj [of "pos div 8 + (?s + j) div 8" "lg_bytes P" "pos div 8 + 16" ?e] long(2)
      by (auto simp: cell_whole [OF assms(1)] byte(1) [unfolded One_nat_def])
  qed
  define k where "k = pk_bits p - ?w"
  have k: "pk_bits p = ?w + k" "k < 8" using s long(4) by (auto simp: k_def)
  define buf2 where "buf2 = buf'[?byte := tail_byte (buf' ! ?byte) k ?s v]"
  have l: "length buf' = length buf" using wrote by (simp add: written_to_def)
  have old: "\<forall>j < ?w. wire_bit buf' (?cell j) = bit v j"
    "\<forall>i < length buf. \<forall>k < 8. (i, k) \<notin> ?cell ` {..<?w} \<longrightarrow> bit (buf' ! i) k = bit (buf ! i) k"
    using wrote cell by (auto simp: written_to_def image_iff)
  have tail: "bit (buf2 ! ?byte) i \<longleftrightarrow> (if i < k then bit v (?w + i) else bit (buf' ! ?byte) i)" if "i < 8" for i
    using that byte(2) s(1) l by (simp add: buf2_def bit_tail_byte)
  have same: "buf2 ! i = buf' ! i" if "i \<noteq> ?byte" for i using that by (simp add: buf2_def)
  have "wire_bit buf2 (?cell j) = bit v j" if j: "j < pk_bits p" for j
  proof (cases "j < ?w")
    case True
    then show ?thesis using old(1) same [OF apart [OF True]] by (simp add: wire_bit_def)
  next
    case False
    then obtain i where i: "j = ?w + i" using le_Suc_ex not_le by blast
    then have "i < k" using j k(1) by simp
    then show ?thesis using last [of i] tail [of i] k(2) by (simp add: i wire_bit_def)
  qed
  moreover have "bit (buf2 ! i) b = bit (buf ! i) b"
    if ib: "i < length buf" "b < 8" "(i, b) \<notin> ?cell ` {..<pk_bits p}" for i b
  proof -
    have "(i, b) \<notin> ?cell ` {..<?w}" using ib(3) k(1) by auto
    then have e: "bit (buf' ! i) b = bit (buf ! i) b" using old(2) ib by blast
    show ?thesis
    proof (cases "i = ?byte")
      case True
      have "\<not> b < k"
      proof
        assume "b < k"
        then have "?cell (?w + b) = (i, b)" "?w + b < pk_bits p" using last [of b] ib(2) True k(1) by auto
        then show False using ib(3) by (metis image_eqI lessThan_iff)
      qed
      then show ?thesis using tail [OF ib(2)] e True by simp
    qed (simp add: same e)
  qed
  ultimately have "written_to ?cell (pk_bits p) v buf buf2"
    using l by (simp add: written_to_def buf2_def)
  moreover have "store P (AWindow (the (window_of P pos p))) v (bits, buf) = Some (bits, buf2)"
    using put byte(2) l by (simp add: long(1) cur(1) buf2_def k_def flip: new_def)
  ultimately show ?thesis using long(1) by auto
qed

text \<open>A store into the bytes, as encode makes it for a layout it does not load, and as a view's setter does.\<close>

lemma store_exact:
  assumes G: "grid_ok P" and F: "packed_placed P pos p" and L: "length buf = lg_bytes P" and H: "\<not> (hoisted P \<and> held)"
  shows "\<exists>a buf'. access_of P held pos p = Some a \<and> store P a v (bits, buf) = Some (bits, buf')
    \<and> written_to (packed_cell P pos p) (pk_bits p) v buf buf'"
proof (cases "\<exists>s. pk_reading p = RNative s")
  case True
  then obtain s where s: "pk_reading p = RNative s" by blast
  then have f: "pk_bits p = 8 * prim_bytes s" "8 dvd pos" "pos + 8 * prim_bytes s \<le> 8 * length buf"
    using F G L by (auto simp: packed_placed_def grid_ok_def)
  from whole_store [OF f(2,3), of "lg_endian P" v] show ?thesis
    by (simp add: access_of_def s packed_cell_def [abs_def] packed_region_def f(1))
next
  case False
  have fits: "packed_fits p" "pos + pk_bits p \<le> lg_bits P" "lg_bits P = 8 * lg_bytes P"
    using F G by (auto simp: packed_placed_def grid_ok_def)
  have w: "1 \<le> pk_bits p" using fits(1) by (auto simp: packed_fits_def)
  show ?thesis
  proof (cases "lg_grid P")
    case (CWord gb pre pv ge ord)
    have cell: "packed_cell P pos p j = region_cell (lg_endian P) 0 (lg_bits P) (pos + j)" for j
      using False G CWord by (auto simp: packed_cell_def packed_region_def grid_ok_def split: reading.splits)
    have "access_of P held pos p = map_option AWindow (window_of P pos p)"
      using False H CWord by (auto simp: access_of_def split: reading.splits)
    with window_store [OF fits(3) L fits(2,1), of v bits] show ?thesis
      by (auto simp: cell simp del: store.simps cong: written_to_cong)
  next
    case (CBytes nb ge)
    have d: "8 dvd pos" "pk_bits p = 8 \<or> pk_bits p = 16 \<or> pk_bits p = 32 \<or> pk_bits p = 64"
      using False F CBytes by (auto simp: packed_placed_def split: reading.splits)
    have s: "8 * prim_bytes (uint_scalar (pk_bits p)) = pk_bits p"
      using uint_scalar_simps(2) [OF d(2)] by auto
    have "access_of P held pos p = Some (AWhole (uint_scalar (pk_bits p)) (pos div 8))"
      using False CBytes by (auto simp: access_of_def split: reading.splits)
    moreover have "packed_cell P pos p j = region_cell (lg_endian P) pos (pk_bits p) (pos + j)" for j
      using False CBytes by (auto simp: packed_cell_def packed_region_def split: reading.splits)
    then have "packed_cell P pos p = (\<lambda>j. region_cell (lg_endian P) pos (pk_bits p) (pos + j))" by blast
    ultimately show ?thesis
      using whole_store [OF d(1), of "uint_scalar (pk_bits p)" buf "lg_endian P" v] fits(2,3) L
      by (simp add: s)
  next
    case (CWords nw ge ord)
    have d: "pos mod 16 + pk_bits p \<le> 8 * 2" using False F CWords by (auto simp: packed_placed_def split: reading.splits)
    let ?base = "pos - pos mod 16"
    have base: "?base = 16 * (pos div 16)" by (metis minus_mod_eq_mult_div mult.commute)
    have "lg_bits P = nw * 16" using G CWords by (simp add: grid_ok_def)
    moreover from this have "pos div 16 < nw" using fits(2) w(1) by (intro less_mult_imp_div_less) linarith
    ultimately have in16: "?base div 8 + 2 \<le> length buf" "8 dvd ?base" using base fits(3) L by auto
    obtain cur where cur: "scalar_read (lg_endian P) PU16 (?base div 8) buf = Some cur"
      "\<And>n. bit cur n \<longleftrightarrow> n < 16 \<and> wire_bit buf (number_cell (lg_endian P) (?base div 8) 2 n)"
      using scalar_read_bit [of "?base div 8" PU16 buf "lg_endian P"] in16(1) by (auto simp: wire_bit_def number_cell_def)
    have acc: "access_of P held pos p = Some (ARegion PU16 (?base div 8) (pos mod 16) (mask64 (pk_bits p)))"
      using False CWords by (auto simp: access_of_def uint_scalar_simps split: reading.splits)
    let ?mm = "reg_mask 2 (ucast (mask64 (pk_bits p)))"
    have mm: "bit ?mm j \<longleftrightarrow> j < pk_bits p" for j
      using d by (auto simp: bit_reg_mask mask64_eq bit_ucast_iff bit_mask_iff)
    define new where "new = (cur AND NOT (push_bit (pos mod 16) ?mm)) OR push_bit (pos mod 16) (v AND ?mm)"
    have new: "bit new n \<longleftrightarrow> (if pos mod 16 \<le> n \<and> n < pos mod 16 + pk_bits p then bit v (n - pos mod 16)
        else wire_bit buf (number_cell (lg_endian P) (?base div 8) 2 n))" if "n < 8 * 2" for n
      using that d by (auto simp: new_def bit_or_iff bit_and_iff bit_not_iff bit_push_bit_iff mm cur(2))
    have cell: "packed_cell P pos p j = number_cell (lg_endian P) (?base div 8) 2 (pos mod 16 + j)" for j
    proof -
      have "pos + j = ?base + (pos mod 16 + j)" using base by simp
      then have "region_cell (lg_endian P) ?base 16 (pos + j) = number_cell (lg_endian P) (?base div 8) 2 (pos mod 16 + j)"
        using whole_cell [OF in16(2), of "lg_endian P" 2 "pos mod 16 + j"] by simp
      then show ?thesis using False CWords by (auto simp: packed_cell_def packed_region_def split: reading.splits)
    qed
    obtain buf' where "put buf (?base div 8) (wire_part (lg_endian P) 2 2 new) = Some buf'"
      "written_to (\<lambda>j. number_cell (lg_endian P) (?base div 8) 2 (pos mod 16 + j)) (pk_bits p) v buf buf'"
      using number_store [OF in16(1) order_refl d, of new v "lg_endian P", OF new] by auto
    moreover have "packed_cell P pos p = (\<lambda>j. number_cell (lg_endian P) (?base div 8) 2 (pos mod 16 + j))"
      using cell by blast
    ultimately show ?thesis using acc by (simp add: cur(1) to_bytes_part Let_def new_def)
  qed
qed

text \<open>A store into the local of a loaded layout, over bits that are still zero.\<close>

lemma held_store:
  assumes G: "grid_ok P" and F: "packed_placed P pos p" and H: "hoisted P"
    and N: "\<And>s. pk_reading p \<noteq> RNative s" and Z: "\<And>n. pos \<le> n \<Longrightarrow> n < pos + pk_bits p \<Longrightarrow> \<not> bit bits n"
  shows "\<exists>a bits'. access_of P True pos p = Some a \<and> store P a v (bits, buf) = Some (bits', buf)
    \<and> (\<forall>n. bit bits' n \<longleftrightarrow> (if pos \<le> n \<and> n < pos + pk_bits p then bit v (n - pos) else bit bits n))"
proof -
  have fits: "packed_fits p" "pos + pk_bits p \<le> lg_bits P" "lg_bits P = 8 * lg_bytes P"
    using F G by (auto simp: packed_placed_def grid_ok_def)
  have w: "1 \<le> pk_bits p" using fits(1) by (auto simp: packed_fits_def)
  have n: "1 \<le> lg_bytes P" "lg_bits P \<le> 128" using fits w H by (auto simp: hoisted_def)
  have acc: "access_of P True pos p = (case register P of Some reg \<Rightarrow> Some (ARegister pos (pk_bits p) reg)
      | None \<Rightarrow> Some (AContainer \<lparr>ext_start = pos, ext_width = pk_bits p\<rparr> (pk_wide p)))"
    using N H by (auto simp: access_of_def hoisted_def split: reading.splits)
  show ?thesis
  proof (cases "lg_bits P \<le> 64")
    case True
    define reg where "reg = next_pow2 (lg_bytes P)"
    have r: "lg_bits P \<le> 8 * reg" "reg \<le> 16"
      using next_pow2_bounds [of "lg_bytes P"] True n fits(3) by (auto simp: reg_def)
    have "register P = Some reg" using H True by (simp add: register_def reg_def)
    define held where "held = (if pk_bits p < reg * 8 then v AND reg_mask reg (mask128 (pk_bits p)) else v)"
    have full: "\<not> pk_bits p < reg * 8 \<Longrightarrow> pos = 0 \<and> pk_bits p = 8 * reg" using fits(2) r(1) by linarith
    have "bit held j \<longleftrightarrow> bit v j \<and> (pk_bits p < reg * 8 \<longrightarrow> j < pk_bits p)" for j
      using r by (auto simp: held_def bit_and_iff bit_reg_mask bit_mask128)
    then have or: "bit (bits OR reg_mask reg (push_bit pos held)) k \<longleftrightarrow> bit bits k \<or> (k < 8 * reg \<and> k < 128 \<and> pos \<le> k
        \<and> bit v (k - pos) \<and> (pk_bits p < reg * 8 \<longrightarrow> k - pos < pk_bits p))" for k
      by (auto simp: bit_or_iff bit_reg_mask bit_push_bit_iff)
    have "bit (bits OR reg_mask reg (push_bit pos held)) k
        \<longleftrightarrow> (if pos \<le> k \<and> k < pos + pk_bits p then bit v (k - pos) else bit bits k)" for k
    proof (cases "pos \<le> k \<and> k < pos + pk_bits p")
      case True
      moreover from this have "k < 8 * reg" "k < 128" "k - pos < pk_bits p" using fits(2) r n(2) by linarith+
      ultimately show ?thesis using or Z [of k] by simp
    next
      case False
      then have "pos \<le> k \<Longrightarrow> k < 8 * reg \<Longrightarrow> pk_bits p < reg * 8 \<and> \<not> k - pos < pk_bits p" using full by auto
      then show ?thesis unfolding or if_not_P [OF False] by blast
    qed
    then show ?thesis using acc \<open>register P = Some reg\<close> by (simp add: Let_def flip: held_def)
  next
    case False
    let ?lens = "\<lparr>ext_start = pos, ext_width = pk_bits p\<rparr>"
    have "register P = None" using False by (simp add: register_def)
    moreover have "\<exists>bits'. insert_wide ?lens bits x = Some bits'
        \<and> (\<forall>k. bit bits' k \<longleftrightarrow> (if pos \<le> k \<and> k < pos + pk_bits p then bit v (k - pos) else bit bits k))"
      if x: "\<And>j. j < pk_bits p \<Longrightarrow> bit x j \<longleftrightarrow> bit v j" for x
    proof -
      obtain bits' where b: "insert_wide ?lens bits x = Some bits'"
        using insert_wide_Some [of ?lens bits x] fits(2) n(2) w by (auto simp: extent_end_def)
      have "bit bits' k \<longleftrightarrow> (if pos \<le> k \<and> k < pos + pk_bits p then bit v (k - pos) else bit bits k)" for k
      proof (cases "k < 128")
        case True
        then show ?thesis using bit_insert_wide [OF b True] x by (auto simp: extent_end_def)
      next
        case F: False
        then have "\<not> bit bits' k" "\<not> bit bits k" "\<not> (k < pos + pk_bits p)"
          using bit_imp_le_length [of bits' k] bit_imp_le_length [of bits k] fits(2) n(2) by auto
        then show ?thesis by simp
      qed
      with b show ?thesis by blast
    qed
    moreover have "bit (ucast (ucast v :: u64) :: u128) j \<longleftrightarrow> bit v j" if "j < pk_bits p" "\<not> pk_wide p" for j
      using that fits(1) by (auto simp: packed_fits_def bit_ucast_iff)
    ultimately show ?thesis using acc
      by (cases "pk_wide p") (auto simp: insert_u64_def)
  qed
qed

text \<open>The same number through the access of decode and through that of a view.\<close>

lemma both_accesses:
  assumes "grid_ok P" "packed_placed P pos p" "length buf = lg_bytes P" "load_raw P buf = Some raw"
    and "pk_reading p \<noteq> RNative PBool"
  shows "\<exists>a b v. access_of P True pos p = Some a \<and> access_of P False pos p = Some b
    \<and> load P raw buf a = Some v \<and> load P other buf b = Some v
    \<and> (\<forall>j. bit v j \<longleftrightarrow> j < pk_bits p \<and> wire_bit buf (packed_cell P pos p j))"
proof -
  from load_exact [OF assms(1-3,5), of True raw] assms(4) obtain a v where a:
    "access_of P True pos p = Some a" "load P raw buf a = Some v"
    "\<forall>j. bit v j \<longleftrightarrow> j < pk_bits p \<and> wire_bit buf (packed_cell P pos p j)" by auto
  from load_exact [OF assms(1-3,5), of False other] obtain b w where b:
    "access_of P False pos p = Some b" "load P other buf b = Some w"
    "\<forall>j. bit w j \<longleftrightarrow> j < pk_bits p \<and> wire_bit buf (packed_cell P pos p j)" by auto
  have "v = w" using a(3) b(3) by (intro bit_word_eqI) simp
  with a b show ?thesis by blast
qed

section \<open>Properties\<close>

definition be_word :: lay_grid where
  "be_word = \<lparr>lg_grid = CWord 16 0 None Be Lsb, lg_endian = Be, lg_bits = 16, lg_bytes = 2\<rparr>"

definition mid_byte :: packed where
  "mid_byte = \<lparr>pk_ty = ''u8'', pk_reading = RUint 8, pk_bits = 8\<rparr>"

lemma be_word_ok: "grid_ok be_word" "packed_placed be_word 4 mid_byte"
  by (simp_all add: be_word_def mid_byte_def grid_ok_def packed_placed_def packed_fits_def pk_wide_def)

lemma be_word_raw: "load_raw be_word [0x12, 0x34] = Some 0x1234"
  by (simp add: be_word_def load_raw_def register_def hoisted_def register_load_def next_pow2_small window_bytes_def
      from_bytes_def from_le_def Let_def numeral_2_eq_2 del: numeral_2_eq_2)

text \<open>C37: decode, which loads a layout once, and a view, which reads only the bytes a field touches, read the
  same number, and it is the field's cells bit by bit: a register, a 128-bit container, a window of up to
  seventeen bytes, a word and a whole scalar are five readings of one specification.\<close>

theorem field_access_agrees:
  assumes "grid_ok P" "packed_placed P pos p" "length buf = lg_bytes P" "load_raw P buf = Some raw"
    and "pk_reading p \<noteq> RNative PBool"
  shows "\<exists>a b v. access_of P True pos p = Some a \<and> access_of P False pos p = Some b
    \<and> load P raw buf a = Some v \<and> load P other buf b = Some v
    \<and> (\<forall>j. bit v j \<longleftrightarrow> j < pk_bits p \<and> wire_bit buf (packed_cell P pos p j))"
  by (rule both_accesses [OF assms])

theorem field_access_agrees_witness:
  "\<exists>a b v. access_of be_word True 4 mid_byte = Some a \<and> access_of be_word False 4 mid_byte = Some b
    \<and> load be_word 0x1234 [0x12, 0x34] a = Some v \<and> load be_word 0 [0x12, 0x34] b = Some v
    \<and> (\<forall>j. bit v j \<longleftrightarrow> j < pk_bits mid_byte \<and> wire_bit [0x12, 0x34] (packed_cell be_word 4 mid_byte j))"
  by (rule field_access_agrees [OF be_word_ok _ be_word_raw]) (simp_all add: be_word_def mid_byte_def)

text \<open>C38: a setter of a view writes exactly the cells of its field: afterwards the getter reads the low bits
  of what was written, and every other bit of the record is what it was.\<close>

theorem field_store_exact:
  assumes "grid_ok P" "packed_placed P pos p" "length buf = lg_bytes P" "pk_reading p \<noteq> RNative PBool"
  shows "\<exists>b buf'. access_of P False pos p = Some b \<and> store P b v (bits, buf) = Some (bits, buf')
    \<and> written_to (packed_cell P pos p) (pk_bits p) v buf buf'
    \<and> load P other buf' b = Some (take_bit (pk_bits p) v)"
proof -
  from store_exact [OF assms(1-3), of False v bits] obtain b buf' where b:
    "access_of P False pos p = Some b" "store P b v (bits, buf) = Some (bits, buf')"
    "written_to (packed_cell P pos p) (pk_bits p) v buf buf'" by auto
  then have "length buf' = lg_bytes P" using assms(3) by (simp add: written_to_def)
  from load_exact [OF assms(1,2) this assms(4), of False other] b(1) obtain w where w:
    "load P other buf' b = Some w"
    "\<forall>j. bit w j \<longleftrightarrow> j < pk_bits p \<and> wire_bit buf' (packed_cell P pos p j)" by auto
  have "w = take_bit (pk_bits p) v"
    using w(2) b(3) by (intro bit_word_eqI) (auto simp: bit_take_bit_iff written_to_def)
  with b w(1) show ?thesis by blast
qed

theorem field_store_exact_witness:
  "\<exists>b buf'. access_of be_word False 4 mid_byte = Some b \<and> store be_word b 0xAB (0, [0x12, 0x34]) = Some (0, buf')
    \<and> written_to (packed_cell be_word 4 mid_byte) (pk_bits mid_byte) 0xAB [0x12, 0x34] buf'
    \<and> load be_word 0 buf' b = Some (take_bit (pk_bits mid_byte) 0xAB)"
  by (rule field_store_exact [OF be_word_ok]) (simp_all add: be_word_def mid_byte_def)

end
