(* ===== verification/TypeShapes.thy ===== *)
theory TypeShapes
  imports MessageModel DerivedCodecs
begin

text \<open>
  How the derive macros recognise a type (\<open>layline-derive/src/ty.rs\<close>, \<open>width.rs\<close>, the spelling and the
  duplicate check of \<open>attr.rs\<close>). A macro cannot resolve a type; it looks at its syntax. A type is given
  here by the part of \<open>syn::Type\<close> these functions inspect: a path by its segments and their arguments, an
  array by its element and length, a slice, a reference, a trait object, and any other type by its text.
  A refusal is the field it names and a label of the rule, and not its sentence.
\<close>

section \<open>Syntax of types\<close>

text \<open>An expression where a length or a constant stands: its text, and its value when it is a literal
  integer that parses.\<close>

record const_expr =
  ce_text :: string
  ce_value :: "nat option"

datatype rust_type =
    TyPath bool "(string \<times> seg_args) list" \<comment> \<open>qualified by \<open><T as Trait>\<close>, segments\<close>
  | TyArray rust_type const_expr
  | TySlice rust_type
  | TyReference "string option" bool rust_type \<comment> \<open>lifetime, \<open>mut\<close>, the type\<close>
  | TyTrait string
  | TyOther string
and seg_args = NoArgs | AngleArgs "generic_arg list" | ParenArgs string
and generic_arg = GenType rust_type | GenConst const_expr | GenOther string

definition angled :: "string list \<Rightarrow> string" where
  "angled xs = ''<'' @ joined '','' xs @ ''>''"

text \<open>\<open>spelled\<close>: the tokens without spaces. The qualifier of a qualified path is not kept, and such a path is
  never one of the shapes below.\<close>

primrec spelled :: "rust_type \<Rightarrow> string" and spelled_args :: "seg_args \<Rightarrow> string"
    and spelled_arg :: "generic_arg \<Rightarrow> string" where
  "spelled (TyPath q segs) = joined ''::'' (map (\<lambda>(s, a). s @ a) (map (map_prod (\<lambda>s. s) spelled_args) segs))"
| "spelled (TyArray t n) = ''['' @ spelled t @ '';'' @ ce_text n @ '']''"
| "spelled (TySlice t) = ''['' @ spelled t @ '']''"
| "spelled (TyReference l m t) =
     ''&'' @ (case l of None \<Rightarrow> [] | Some l \<Rightarrow> l) @ (if m then ''mut'' else []) @ spelled t"
| "spelled (TyTrait s) = s"
| "spelled (TyOther s) = s"
| "spelled_args NoArgs = []"
| "spelled_args (AngleArgs xs) = angled (map spelled_arg xs)"
| "spelled_args (ParenArgs s) = s"
| "spelled_arg (GenType t) = spelled t"
| "spelled_arg (GenConst n) = ce_text n"
| "spelled_arg (GenOther s) = s"

section \<open>Shapes\<close>

fun bare_ident :: "rust_type \<Rightarrow> string option" where
  "bare_ident (TyPath False [(s, NoArgs)]) = Some s"
| "bare_ident _ = None"

fun is_plain_path :: "rust_type \<Rightarrow> bool" where
  "is_plain_path (TyPath q segs) = (\<not> q \<and> list_all (\<lambda>(s, a). a = NoArgs) segs)"
| "is_plain_path _ = False"

definition scalar_of :: "rust_type \<Rightarrow> scalar option" where
  "scalar_of ty = Option.bind (bare_ident ty) (map_of
     [(''u8'', ScU 8), (''u16'', ScU 16), (''u32'', ScU 32), (''u64'', ScU 64), (''i8'', ScI 8), (''i16'', ScI 16),
      (''i32'', ScI 32), (''i64'', ScI 64), (''f32'', ScF32), (''f64'', ScF64)])"

definition last_segment :: "(string \<times> seg_args) list \<Rightarrow> (string \<times> seg_args) option" where
  "last_segment segs = (if segs = [] then None else Some (last segs))"

definition is_string_type :: "rust_type \<Rightarrow> bool" where
  "is_string_type ty =
     (case ty of TyPath False segs \<Rightarrow> last_segment segs = Some (''String'', NoArgs) | _ \<Rightarrow> False)"

definition runtime_sized :: "string list" where
  "runtime_sized =
     [''String'', ''str'', ''OsString'', ''OsStr'', ''CString'', ''CStr'', ''PathBuf'', ''Path'', ''Cow'', ''Vec'',
      ''VecDeque'']"

definition variable_size :: "rust_type \<Rightarrow> bool" where
  "variable_size ty =
     (case ty of
        TyReference _ _ _ \<Rightarrow> True | TySlice _ \<Rightarrow> True | TyTrait _ \<Rightarrow> True
      | TyPath _ segs \<Rightarrow> (case last_segment segs of Some (s, _) \<Rightarrow> s \<in> set runtime_sized | None \<Rightarrow> False)
      | _ \<Rightarrow> False)"

fun array_of :: "rust_type \<Rightarrow> (rust_type \<times> nat) option" where
  "array_of (TyArray t n) = map_option (Pair t) (ce_value n)"
| "array_of _ = None"

text \<open>The loop of \<open>array_dims\<close> peels while the length is a literal.\<close>

fun peel_dims :: "rust_type \<Rightarrow> rust_type \<times> nat list" where
  "peel_dims (TyArray t n) =
     (case ce_value n of
        Some k \<Rightarrow> (let (elem, dims) = peel_dims t in (elem, k # dims))
      | None \<Rightarrow> (TyArray t n, []))"
| "peel_dims ty = (ty, [])"

fun is_array_type :: "rust_type \<Rightarrow> bool" where
  "is_array_type (TyArray _ _) = True"
| "is_array_type _ = False"

definition array_dims :: "rust_type \<Rightarrow> (rust_type \<times> nat list) option" where
  "array_dims ty =
     (let (elem, dims) = peel_dims ty in if dims \<noteq> [] \<and> \<not> is_array_type elem then Some (elem, dims) else None)"

definition wrapped :: "rust_type \<Rightarrow> string \<Rightarrow> rust_type option" where
  "wrapped ty wrapper =
     (case ty of
        TyPath False segs \<Rightarrow>
          (case last_segment segs of
             Some (s, AngleArgs [GenType t]) \<Rightarrow> if s = wrapper then Some t else None
           | _ \<Rightarrow> None)
      | _ \<Rightarrow> None)"

definition option_element :: "rust_type \<Rightarrow> rust_type option" where
  "option_element ty = wrapped ty ''Option''"

definition vec_element :: "rust_type \<Rightarrow> rust_type option" where
  "vec_element ty = wrapped ty ''Vec''"

definition box_element :: "rust_type \<Rightarrow> rust_type option" where
  "box_element ty = wrapped ty ''Box''"

definition run_element :: "rust_type \<Rightarrow> (rust_type \<times> collection) option" where
  "run_element ty =
     (case vec_element ty of
        Some t \<Rightarrow> Some (t, ColVec)
      | None \<Rightarrow> (case box_element ty of Some (TySlice t) \<Rightarrow> Some (t, ColBoxed) | _ \<Rightarrow> None))"

definition is_byte_vec :: "rust_type \<Rightarrow> bool" where
  "is_byte_vec ty \<longleftrightarrow> Option.bind (vec_element ty) scalar_of = Some (ScU 8)"

definition borrowed_bytes :: "rust_type \<Rightarrow> (string \<times> nat option) option" where
  "borrowed_bytes ty =
     (case ty of
        TyReference (Some l) False (TySlice t) \<Rightarrow> if bare_ident t = Some ''u8'' then Some (l, None) else None
      | TyReference (Some l) False (TyArray t n) \<Rightarrow>
          if bare_ident t = Some ''u8'' then map_option (\<lambda>k. (l, Some k)) (ce_value n) else None
      | _ \<Rightarrow> None)"

section \<open>Widths\<close>

definition carried_bits :: "rust_type \<Rightarrow> nat option" where
  "carried_bits ty =
     (case ty of
        TyPath False segs \<Rightarrow>
          (case last_segment segs of
             Some (s, AngleArgs [GenConst n]) \<Rightarrow> if s = ''U'' \<or> s = ''I'' then ce_value n else None
           | _ \<Rightarrow> None)
      | _ \<Rightarrow> None)"

definition declared_width :: "string \<Rightarrow> rust_type \<Rightarrow> nat option \<Rightarrow> derive_error + nat option" where
  "declared_width name ty stated =
     (case (stated, carried_bits ty) of
        (Some s, Some c) \<Rightarrow> if s \<noteq> c then Inl (Refused name ''the width disagrees with the type'') else Inr (Some s)
      | (Some s, None) \<Rightarrow> Inr (Some s)
      | (None, carried) \<Rightarrow> Inr carried)"

definition nonzero_width :: "string \<Rightarrow> nat \<Rightarrow> derive_error + unit" where
  "nonzero_width name bits = (if bits \<noteq> 0 then Inr () else Inl (Refused name ''bits(0) is empty''))"

definition one_bit_bool :: "string \<Rightarrow> nat \<Rightarrow> derive_error + unit" where
  "one_bit_bool name bits = (if bits = 1 then Inr () else Inl (Refused name ''a bool is one bit''))"

section \<open>Attributes\<close>

text \<open>\<open>once_attr\<close>: the value is parsed only when the slot is free.\<close>

definition once_attr :: "string \<Rightarrow> 'a option \<Rightarrow> derive_error + 'a \<Rightarrow> derive_error + 'a option" where
  "once_attr owner slot v =
     (if slot \<noteq> None then Inl (Refused owner ''duplicate attribute'') else map_res Some v)"

end
