(* ===== verification/LayoutPlans.thy ===== *)
theory LayoutPlans
  imports LayoutAccess LayoutRows TypeShapes
begin

text \<open>
  What \<open>#[derive(Layout)]\<close> decides before it writes code: the attributes it reads (\<open>layline-derive/src/claim.rs\<close>,
  \<open>layout/field.rs\<close>, \<open>parse.rs\<close>, \<open>misplaced.rs\<close>), the declarations it makes of them (\<open>declared.rs\<close>), the plan,
  the position of every field (\<open>solve.rs\<close>), and the assertions (\<open>asserts.rs\<close>). An attribute is given with its
  arguments parsed, or with the refusal of its parser.
\<close>

section \<open>Attributes of a field\<close>

datatype magic_lit = MagicBytes "u8 list" | MagicInt nat

record check_spec =
  cs_algorithm :: string
  cs_over :: coverage

record overlay =
  ov_name :: string
  ov_ty :: string

datatype field_attr =
    FaBits "derive_error + nat"
  | FaBytes "derive_error + nat"
  | FaCodec "derive_error + nat"
  | FaAt "derive_error + stated"
  | FaMagic "derive_error + magic_lit"
  | FaChecksum "derive_error + check_spec"
  | FaRange "derive_error + value_range"
  | FaOverlay "derive_error + overlay"
  | FaOther string

record rust_field =
  rf_name :: string
  rf_ty :: rust_type
  rf_attrs :: "field_attr list"

text \<open>\<open>range_attr\<close> on the literals of the range: \<open>closed\<close> tells \<open>..=\<close> from \<open>..\<close>.\<close>

definition range_attr :: "string \<Rightarrow> int option \<Rightarrow> int option \<Rightarrow> bool \<Rightarrow> derive_error + value_range" where
  "range_attr name lo hi closed =
     (if hi \<noteq> None \<and> \<not> closed then Inl (Refused name ''range needs an inclusive upper bound'')
      else case (lo, hi) of
        (Some l, Some h) \<Rightarrow>
          if l > h then Inl (Refused name ''range is empty'') else Inr \<lparr>vr_lo = Some l, vr_hi = Some h\<rparr>
      | _ \<Rightarrow> Inr \<lparr>vr_lo = lo, vr_hi = hi\<rparr>)"

text \<open>\<open>parse_checksum\<close> on the bare names of the range.\<close>

definition checksum_spec :: "string \<Rightarrow> string option \<Rightarrow> string option \<Rightarrow> bool \<Rightarrow> check_spec" where
  "checksum_spec algorithm start stop closed =
     \<lparr>cs_algorithm = algorithm,
      cs_over =
        \<lparr>co_from = (case start of None \<Rightarrow> FromStart | Some f \<Rightarrow> FromField f),
         co_to = (case stop of None \<Rightarrow> ToHere | Some f \<Rightarrow> if closed then ToAfter f else ToBefore f)\<rparr>\<rparr>"

text \<open>\<open>magic_bytes\<close>: the constant's bytes in wire order. A literal that does not parse as a \<open>u128\<close> is refused.\<close>

definition magic_bytes :: "magic_lit \<Rightarrow> string \<Rightarrow> nat \<Rightarrow> endian \<Rightarrow> derive_error + u8 list" where
  "magic_bytes m name width e =
     (case m of
        MagicBytes bytes \<Rightarrow>
          if length bytes \<noteq> width then Inl (Refused name ''the magic is not the size of the field'') else Inr bytes
      | MagicInt n \<Rightarrow>
          if n \<ge> 2 ^ 128 then Inl (Refused name ''number too large'')
          else if width < 16 \<and> n \<ge> 2 ^ (width * 8) then Inl (Refused name ''the magic does not fit'')
          else Inr (to_bytes e width (of_nat n)))"

definition layout_attrs :: "string list" where
  "layout_attrs =
     [''layout'', ''bits'', ''codec'', ''bytes'', ''at'', ''overlay'', ''magic'', ''checksum'', ''range'', ''count'',
      ''len'', ''stride'', ''fill'', ''seek'', ''text'', ''until'', ''var'', ''message'', ''switch'', ''when'', ''align'']"

definition message_vocabulary :: "string list" where
  "message_vocabulary =
     [''count'', ''len'', ''stride'', ''fill'', ''seek'', ''text'', ''until'', ''var'', ''message'', ''switch'', ''when'',
      ''align'']"

definition refuse_message_vocabulary :: "string \<Rightarrow> string \<Rightarrow> derive_error + unit" where
  "refuse_message_vocabulary name attr =
     (if attr \<in> set message_vocabulary then Inl (Refused name ''not supported in a layout'') else Inr ())"

definition refuse_unbound :: "string \<Rightarrow> string \<Rightarrow> derive_error + unit" where
  "refuse_unbound name attr =
     (if attr \<in> set layout_attrs then Inl (Refused name ''the attribute does not apply'') else Inr ())"

definition no_assertions_in_bit_mode :: "string \<Rightarrow> derive_error" where
  "no_assertions_in_bit_mode name = Refused name ''a bit-addressed layout has no whole bytes''"

text \<open>What the loop over a field's attributes has filled.\<close>

record field_reads =
  fr_bits :: "nat option"
  fr_bytes :: "nat option"
  fr_at :: "stated option"
  fr_magic :: "magic_lit option"
  fr_check :: "check_spec option"
  fr_range :: "value_range option"
  fr_overlays :: "overlay list"

definition no_reads :: field_reads where
  "no_reads = \<lparr>fr_bits = None, fr_bytes = None, fr_at = None, fr_magic = None, fr_check = None, fr_range = None,
     fr_overlays = []\<rparr>"

definition other_attr :: "string \<Rightarrow> string \<Rightarrow> field_reads \<Rightarrow> derive_error + field_reads" where
  "other_attr name attr r =
     bind_res (refuse_message_vocabulary name attr) (\<lambda>_. bind_res (refuse_unbound name attr) (\<lambda>_. Inr r))"

definition word_attr :: "string \<Rightarrow> field_attr \<Rightarrow> field_reads \<Rightarrow> derive_error + field_reads" where
  "word_attr name a r =
     (case a of
        FaMagic _ \<Rightarrow> Inl (no_assertions_in_bit_mode name)
      | FaChecksum _ \<Rightarrow> Inl (no_assertions_in_bit_mode name)
      | FaBytes _ \<Rightarrow> Inl (Refused name ''bytes does not apply'')
      | FaRange v \<Rightarrow> map_res (\<lambda>x. r\<lparr>fr_range := x\<rparr>) (once_attr name (fr_range r) v)
      | FaBits v \<Rightarrow> map_res (\<lambda>x. r\<lparr>fr_bits := x\<rparr>) (once_attr name (fr_bits r) v)
      | FaAt v \<Rightarrow> map_res (\<lambda>x. r\<lparr>fr_at := x\<rparr>) (once_attr name (fr_at r) v)
      | FaOverlay v \<Rightarrow> map_res (\<lambda>x. r\<lparr>fr_overlays := fr_overlays r @ [x]\<rparr>) v
      | FaCodec _ \<Rightarrow> other_attr name ''codec'' r
      | FaOther s \<Rightarrow> other_attr name s r)"

definition byte_attr :: "string \<Rightarrow> field_attr \<Rightarrow> field_reads \<Rightarrow> derive_error + field_reads" where
  "byte_attr name a r =
     (case a of
        FaMagic v \<Rightarrow> map_res (\<lambda>x. r\<lparr>fr_magic := x\<rparr>) (once_attr name (fr_magic r) v)
      | FaChecksum v \<Rightarrow> map_res (\<lambda>x. r\<lparr>fr_check := x\<rparr>) (once_attr name (fr_check r) v)
      | FaRange v \<Rightarrow> map_res (\<lambda>x. r\<lparr>fr_range := x\<rparr>) (once_attr name (fr_range r) v)
      | FaCodec v \<Rightarrow> map_res (\<lambda>x. r\<lparr>fr_bits := x\<rparr>) (once_attr name (fr_bits r) v)
      | FaBytes v \<Rightarrow> map_res (\<lambda>x. r\<lparr>fr_bytes := x\<rparr>) (once_attr name (fr_bytes r) v)
      | FaBits _ \<Rightarrow> Inl (Refused name ''byte mode has no bit fields'')
      | FaOverlay _ \<Rightarrow> Inl (Refused name ''overlay does not apply'')
      | FaAt v \<Rightarrow> map_res (\<lambda>x. r\<lparr>fr_at := x\<rparr>) (once_attr name (fr_at r) v)
      | FaOther s \<Rightarrow> other_attr name s r)"

definition words_attr :: "string \<Rightarrow> field_attr \<Rightarrow> field_reads \<Rightarrow> derive_error + field_reads" where
  "words_attr name a r =
     (case a of
        FaMagic _ \<Rightarrow> Inl (no_assertions_in_bit_mode name)
      | FaChecksum _ \<Rightarrow> Inl (no_assertions_in_bit_mode name)
      | FaRange v \<Rightarrow> map_res (\<lambda>x. r\<lparr>fr_range := x\<rparr>) (once_attr name (fr_range r) v)
      | FaBits v \<Rightarrow> map_res (\<lambda>x. r\<lparr>fr_bits := x\<rparr>) (once_attr name (fr_bits r) v)
      | FaBytes v \<Rightarrow> map_res (\<lambda>x. r\<lparr>fr_bytes := x\<rparr>) (once_attr name (fr_bytes r) v)
      | FaAt v \<Rightarrow> map_res (\<lambda>x. r\<lparr>fr_at := x\<rparr>) (once_attr name (fr_at r) v)
      | FaOverlay v \<Rightarrow> map_res (\<lambda>x. r\<lparr>fr_overlays := fr_overlays r @ [x]\<rparr>) v
      | FaCodec _ \<Rightarrow> other_attr name ''codec'' r
      | FaOther s \<Rightarrow> other_attr name s r)"

fun read_attrs ::
    "(field_attr \<Rightarrow> field_reads \<Rightarrow> derive_error + field_reads) \<Rightarrow> field_attr list \<Rightarrow> field_reads
       \<Rightarrow> derive_error + field_reads" where
  "read_attrs step [] r = Inr r"
| "read_attrs step (a # rest) r = bind_res (step a r) (read_attrs step rest)"

section \<open>Declared fields\<close>

datatype word_kind = WkUint nat | WkInt nat | WkBool | WkCodec

definition word_kind_of :: "rust_type \<Rightarrow> word_kind" where
  "word_kind_of ty =
     (case bare_ident ty of
        None \<Rightarrow> WkCodec
      | Some s \<Rightarrow>
          (case map_of
                  [(''u8'', WkUint 8), (''u16'', WkUint 16), (''u32'', WkUint 32), (''u64'', WkUint 64),
                   (''u128'', WkUint 128), (''i8'', WkInt 8), (''i16'', WkInt 16), (''i32'', WkInt 32),
                   (''i64'', WkInt 64), (''bool'', WkBool)] s of
             Some k \<Rightarrow> k
           | None \<Rightarrow> WkCodec))"

fun reading_of :: "word_kind \<Rightarrow> reading" where
  "reading_of (WkUint n) = RUint n"
| "reading_of (WkInt _) = RInt"
| "reading_of WkBool = RBool"
| "reading_of WkCodec = RCodec"

definition prim_of :: "string \<Rightarrow> prim option" where
  "prim_of s =
     map_of [(''u8'', PU8), (''u16'', PU16), (''u32'', PU32), (''u64'', PU64), (''i8'', PI8), (''i16'', PI16),
             (''i32'', PI32), (''i64'', PI64), (''f32'', PF32), (''f64'', PF64), (''bool'', PBool)] s"

definition fits_its_type :: "string \<Rightarrow> word_kind \<Rightarrow> nat \<Rightarrow> derive_error + unit" where
  "fits_its_type name wk bits =
     (case wk of
        WkUint w \<Rightarrow> if bits > w then Inl (Refused name ''wider than its type'') else Inr ()
      | WkInt w \<Rightarrow> if bits > w then Inl (Refused name ''wider than its type'') else Inr ()
      | WkBool \<Rightarrow> one_bit_bool name bits
      | WkCodec \<Rightarrow> Inr ())"

record word_field =
  wf_name :: string
  wf_ty :: string
  wf_kind :: word_kind
  wf_bits :: nat
  wf_at :: "stated option"
  wf_overlays :: "overlay list"
  wf_range :: "value_range option"

definition word_field_of :: "rust_field \<Rightarrow> derive_error + word_field" where
  "word_field_of f =
     (let name = rf_name f; wk = word_kind_of (rf_ty f)
      in bind_res (read_attrs (word_attr name) (rf_attrs f) no_reads) (\<lambda>r.
         bind_res (declared_width name (rf_ty f) (fr_bits r)) (\<lambda>width.
         case width of
           None \<Rightarrow> Inl (Refused name ''no width'')
         | Some bits \<Rightarrow>
             bind_res (nonzero_width name bits) (\<lambda>_.
             if bits > (if wk = WkUint 128 then 128 else 64) then Inl (Refused name ''wider than the accessor'')
             else bind_res (fits_its_type name wk bits) (\<lambda>_.
               Inr \<lparr>wf_name = name, wf_ty = spelled (rf_ty f), wf_kind = wk, wf_bits = bits, wf_at = fr_at r,
                  wf_overlays = fr_overlays r, wf_range = fr_range r\<rparr>)))))"

datatype words_kind =
    WsBits string word_kind nat
  | WsNested string nat
  | WsArrayU16 nat
  | WsArrayU8 nat

record words_field =
  ws_name :: string
  ws_kind :: words_kind
  ws_at :: "stated option"
  ws_overlays :: "overlay list"
  ws_range :: "value_range option"

definition words_kind_of :: "string \<Rightarrow> rust_type \<Rightarrow> nat option \<Rightarrow> nat option \<Rightarrow> derive_error + words_kind" where
  "words_kind_of name ty bits bytes =
     (case (bits, bytes) of
        (Some _, Some _) \<Rightarrow> Inl (Refused name ''bits and bytes are both set'')
      | (Some n, None) \<Rightarrow>
          if n = 0 \<or> n > 16 then Inl (Refused name ''a field must fit in one word'')
          else bind_res (fits_its_type name (word_kind_of ty) n) (\<lambda>_. Inr (WsBits (spelled ty) (word_kind_of ty) n))
      | (None, Some n) \<Rightarrow>
          if n = 0 \<or> n mod 2 \<noteq> 0 then Inl (Refused name ''not a whole number of words'') else Inr (WsNested (spelled ty) n)
      | (None, None) \<Rightarrow>
          (case map_option (map_prod bare_ident (\<lambda>n. n)) (array_of ty) of
             Some (Some elem, n) \<Rightarrow>
               if elem = ''u16'' then Inr (WsArrayU16 n) else if elem = ''u8'' then Inr (WsArrayU8 n)
               else Inl (Refused name ''unsupported array'')
           | _ \<Rightarrow> Inl (Refused name ''no width'')))"

definition words_field_of :: "rust_field \<Rightarrow> derive_error + words_field" where
  "words_field_of f =
     (let name = rf_name f
      in bind_res (read_attrs (words_attr name) (rf_attrs f) no_reads) (\<lambda>r.
         bind_res (if fr_bytes r = None then declared_width name (rf_ty f) (fr_bits r) else Inr (fr_bits r)) (\<lambda>bits.
         if fr_overlays r \<noteq> [] \<and> bits = None then Inl (Refused name ''overlay needs a bits field'')
         else bind_res (words_kind_of name (rf_ty f) bits (fr_bytes r)) (\<lambda>k.
           Inr \<lparr>ws_name = name, ws_kind = k, ws_at = fr_at r, ws_overlays = fr_overlays r, ws_range = fr_range r\<rparr>))))"

datatype byte_kind =
    BkScalar prim
  | BkArray prim "nat list"
  | BkCodec string nat
  | BkNested string nat
  | BkNestedArray string nat nat
  | BkCodecArray string nat nat

record byte_field =
  bf_name :: string
  bf_kind :: byte_kind
  bf_at :: "stated option"
  bf_magic :: "magic_lit option"
  bf_check :: "check_spec option"
  bf_range :: "value_range option"

definition byte_kind_of :: "rust_type \<Rightarrow> byte_kind option" where
  "byte_kind_of ty =
     (case bare_ident ty of
        Some s \<Rightarrow> map_option BkScalar (prim_of s)
      | None \<Rightarrow>
          Option.bind (array_dims ty) (\<lambda>(elem, ds).
          Option.bind (bare_ident elem) (\<lambda>s.
          map_option (\<lambda>s. BkArray s ds) (prim_of s))))"

fun integer_scalar :: "byte_kind \<Rightarrow> bool" where
  "integer_scalar (BkScalar s) = (s \<noteq> PF32 \<and> s \<noteq> PF64 \<and> s \<noteq> PBool)"
| "integer_scalar _ = False"

fun array_prim :: "byte_kind \<Rightarrow> prim option" where
  "array_prim (BkArray s _) = Some s"
| "array_prim _ = None"

definition assertable :: "string \<Rightarrow> byte_kind \<Rightarrow> magic_lit option \<Rightarrow> check_spec option \<Rightarrow> derive_error + unit" where
  "assertable name k magic check =
     (if magic \<noteq> None \<and> check \<noteq> None then Inl (Refused name ''magic and checksum cannot share a field'')
      else if magic \<noteq> None \<and> \<not> (integer_scalar k \<or> array_prim k = Some PU8) then Inl (Refused name ''magic needs bytes'')
      else if (case magic of Some (MagicInt _) \<Rightarrow> array_prim k \<noteq> None | _ \<Rightarrow> False)
      then Inl (Refused name ''an array needs a byte string magic'')
      else if check \<noteq> None \<and> \<not> integer_scalar k then Inl (Refused name ''a checksum must be an integer scalar'')
      else Inr ())"

definition scalar_wide :: "nat \<Rightarrow> bool" where
  "scalar_wide n \<longleftrightarrow> n = 8 \<or> n = 16 \<or> n = 32 \<or> n = 64"

definition byte_field_kind :: "string \<Rightarrow> rust_type \<Rightarrow> nat option \<Rightarrow> nat option \<Rightarrow> derive_error + byte_kind" where
  "byte_field_kind name ty bits bytes =
     (case (bytes, bits) of
        (Some n, b) \<Rightarrow>
          if b \<noteq> None then Inl (Refused name ''codec and bytes are both set'')
          else if n = 0 then Inl (Refused name ''bytes(0) is empty'')
          else Inr (case array_of ty of
                      Some (elem, m) \<Rightarrow> BkNestedArray (spelled elem) n m
                    | None \<Rightarrow> BkNested (spelled ty) n)
      | (None, Some n) \<Rightarrow>
          (case (array_of ty, byte_kind_of ty) of
             (Some (elem, m), None) \<Rightarrow>
               if scalar_wide n then Inr (BkCodecArray (spelled elem) n m) else Inl (Refused name ''not a scalar width'')
           | (_, Some k) \<Rightarrow>
               Inl (Refused name (if k = BkScalar PBool then ''a bool is strict'' else ''a scalar has its width''))
           | (None, None) \<Rightarrow>
               if scalar_wide n then Inr (BkCodec (spelled ty) n) else Inl (Refused name ''not a scalar width''))
      | (None, None) \<Rightarrow> (case byte_kind_of ty of Some k \<Rightarrow> Inr k | None \<Rightarrow> Inl (Refused name ''unsupported type'')))"

definition byte_field_of :: "rust_field \<Rightarrow> derive_error + byte_field" where
  "byte_field_of f =
     (let name = rf_name f
      in bind_res (read_attrs (byte_attr name) (rf_attrs f) no_reads) (\<lambda>r.
         bind_res (if fr_bytes r = None then declared_width name (rf_ty f) (fr_bits r) else Inr (fr_bits r)) (\<lambda>bits.
         bind_res (byte_field_kind name (rf_ty f) bits (fr_bytes r)) (\<lambda>k.
         if array_prim k = Some PBool then Inl (Refused name ''an array of bool has no byte layout'')
         else bind_res (assertable name k (fr_magic r) (fr_check r)) (\<lambda>_.
           Inr \<lparr>bf_name = name, bf_kind = k, bf_at = fr_at r, bf_magic = fr_magic r, bf_check = fr_check r,
              bf_range = fr_range r\<rparr>)))))"

section \<open>Declared layouts\<close>

text \<open>The keys of \<open>#[layout(..)]\<close>, each given at most once.\<close>

record layout_keys =
  lk_bits :: "nat option"
  lk_bytes :: "nat option"
  lk_words :: "nat option"
  lk_prefix :: "nat option"
  lk_prefix_value :: "nat option"
  lk_endian :: "endian option"
  lk_order :: "bit_order option"
  lk_view :: bool
  lk_internal :: bool
  lk_truncate :: bool

definition prefix_admitted :: "string \<Rightarrow> nat \<Rightarrow> nat \<Rightarrow> nat option \<Rightarrow> derive_error + unit" where
  "prefix_admitted name bits prefix prefix_value =
     (case validate_container (CWord bits prefix prefix_value Le Lsb) of
        Inr _ \<Rightarrow> Inr () | Inl _ \<Rightarrow> Inl (Refused name ''the prefix''))"

definition container_attr :: "string \<Rightarrow> layout_keys \<Rightarrow> derive_error + container" where
  "container_attr name k =
     (let e = (case lk_endian k of Some e \<Rightarrow> e | None \<Rightarrow> Le);
          ord = (case lk_order k of Some ord \<Rightarrow> ord | None \<Rightarrow> Lsb);
          prefixed = lk_prefix k \<noteq> None \<or> lk_prefix_value k \<noteq> None
      in case (lk_bits k, lk_bytes k, lk_words k) of
           (None, None, Some words) \<Rightarrow>
             if prefixed then Inl (Refused name ''a prefix outside bits = N'') else Inr (CWords words e ord)
         | (None, Some bytes, None) \<Rightarrow>
             if lk_order k \<noteq> None then Inl (Refused name ''bytes = N has no bit order'')
             else if prefixed then Inl (Refused name ''a prefix outside bits = N'')
             else Inr (CBytes bytes e)
         | (Some bits, None, None) \<Rightarrow>
             (let prefix = (case lk_prefix k of Some p \<Rightarrow> p | None \<Rightarrow> 0)
              in if bits = 0 then Inl (Refused name ''bits = 0 is empty'')
                 else if bits mod 8 \<noteq> 0 then Inl (Refused name ''not a whole number of bytes'')
                 else bind_res (prefix_admitted name bits prefix (lk_prefix_value k)) (\<lambda>_.
                   Inr (CWord bits prefix (lk_prefix_value k) e ord)))
         | (None, None, None) \<Rightarrow> Inl (Refused name ''needs a size'')
         | _ \<Rightarrow> Inl (Refused name ''only one size''))"

text \<open>\<open>viewless\<close>: a view has no field whose values decode restricts.\<close>

definition viewless :: "string \<Rightarrow> bool \<Rightarrow> bool list \<Rightarrow> derive_error + unit" where
  "viewless name view asserted =
     (if view \<and> True \<in> set asserted then Inl (Refused name ''a view cannot check'') else Inr ())"

fun overlays_apart_loop :: "string list \<Rightarrow> overlay list \<Rightarrow> derive_error + unit" where
  "overlays_apart_loop methods [] = Inr ()"
| "overlays_apart_loop methods (ov # rest) =
     (let setter = ''set_'' @ ov_name ov
      in if setter \<in> set methods then Inl (Refused (ov_name ov) ''a method of that name'')
         else if ov_name ov \<in> set (methods @ [setter]) then Inl (Refused (ov_name ov) ''a method of that name'')
         else overlays_apart_loop (methods @ [setter, ov_name ov]) rest)"

definition overlays_apart :: "overlay list \<Rightarrow> derive_error + unit" where
  "overlays_apart = overlays_apart_loop [''decode'', ''encode'', ''from_bits'', ''to_bits'']"

datatype layout_decl =
    DeclWord nat nat "nat option" endian bit_order "word_field list"
  | DeclBytes nat endian "byte_field list"
  | DeclWords nat endian bit_order "words_field list"

fun collect_res :: "('a \<Rightarrow> 'e + 'b) \<Rightarrow> 'a list \<Rightarrow> 'e + 'b list" where
  "collect_res f [] = Inr []"
| "collect_res f (x # xs) = bind_res (f x) (\<lambda>y. bind_res (collect_res f xs) (\<lambda>ys. Inr (y # ys)))"

definition declared_fields :: "string \<Rightarrow> container \<Rightarrow> bool \<Rightarrow> rust_field list \<Rightarrow> derive_error + layout_decl" where
  "declared_fields name c view fs =
     (case c of
        CWord bits prefix pv e ord \<Rightarrow>
          bind_res (collect_res word_field_of fs) (\<lambda>fields.
          bind_res (viewless name view (map (\<lambda>f. wf_range f \<noteq> None) fields)) (\<lambda>_.
          bind_res (overlays_apart (concat (map wf_overlays fields))) (\<lambda>_.
          Inr (DeclWord bits prefix pv e ord fields))))
      | CBytes bytes e \<Rightarrow>
          bind_res (collect_res byte_field_of fs) (\<lambda>fields.
          bind_res (viewless name view
                     (map (\<lambda>f. bf_kind f = BkScalar PBool \<or> bf_range f \<noteq> None) fields)) (\<lambda>_.
          Inr (DeclBytes bytes e fields)))
      | CWords words e ord \<Rightarrow>
          bind_res (collect_res words_field_of fs) (\<lambda>fields.
          bind_res (viewless name view (map (\<lambda>f. ws_range f \<noteq> None) fields)) (\<lambda>_.
          bind_res (overlays_apart (concat (map ws_overlays fields))) (\<lambda>_.
          Inr (DeclWords words e ord fields)))))"

text \<open>\<open>parse\<close>, of a struct with named fields and no generics: \<open>attrs\<close> are the other registered attributes above it.\<close>

definition parse_layout ::
    "string \<Rightarrow> layout_keys \<Rightarrow> string list \<Rightarrow> rust_field list \<Rightarrow> derive_error + layout_decl" where
  "parse_layout name k attrs fs =
     bind_res (container_attr name k) (\<lambda>c.
     if list_ex (\<lambda>a. a \<in> set layout_attrs \<and> a \<noteq> ''layout'') attrs
     then Inl (Refused name ''the attribute belongs on a field'')
     else if fs = [] \<and> \<not> (case c of CWords n _ _ \<Rightarrow> n = 0 | CBytes n _ \<Rightarrow> n = 0 | _ \<Rightarrow> False)
     then Inl (Refused name ''a layout needs at least one field'')
     else declared_fields name c (lk_view k) fs)"

section \<open>The plan\<close>

record magic_at =
  ma_field :: string
  ma_at :: nat
  ma_bytes :: "u8 list"

record check_at =
  ca_field :: string
  ca_at :: nat
  ca_width :: nat
  ca_algorithm :: string
  ca_runs :: "(nat \<times> nat) list"
  ca_from :: cover_from
  ca_to :: cover_to
  ca_excludes_self :: bool

record range_at =
  ra_field :: string
  ra_lo :: int
  ra_hi :: int

record lay_asserts =
  as_magic :: "magic_at list"
  as_check :: "check_at list"
  as_range :: "range_at list"
  as_flags :: "(string \<times> nat) list"

definition no_asserts :: lay_asserts where
  "no_asserts = \<lparr>as_magic = [], as_check = [], as_range = [], as_flags = []\<rparr>"

definition asserts_ranged :: "lay_asserts \<Rightarrow> bool" where
  "asserts_ranged a \<longleftrightarrow> as_range a \<noteq> []"

definition asserts_stamped :: "lay_asserts \<Rightarrow> bool" where
  "asserts_stamped a \<longleftrightarrow> as_magic a \<noteq> [] \<or> as_check a \<noteq> []"

definition asserts_any :: "lay_asserts \<Rightarrow> bool" where
  "asserts_any a \<longleftrightarrow> as_magic a \<noteq> [] \<or> as_check a \<noteq> [] \<or> as_range a \<noteq> [] \<or> as_flags a \<noteq> []"

record lay_item =
  li_name :: string
  li_at :: "stated option"
  li_body :: lay_body
  li_overlays :: "overlay list"
  li_phys :: nat
  li_magic :: "magic_lit option"
  li_check :: "check_spec option"
  li_range :: "value_range option"

record lay_plan = lay_grid +
  lp_name :: string
  lp_prefix :: nat
  lp_prefix_value :: "nat option"
  lp_view :: bool
  lp_items :: "lay_item list"
  lp_asserts :: lay_asserts
  lp_internal :: bool
  lp_truncate :: bool

fun prim_name :: "prim \<Rightarrow> string" where
  "prim_name PU8 = ''u8''" | "prim_name PU16 = ''u16''" | "prim_name PU32 = ''u32''" | "prim_name PU64 = ''u64''"
| "prim_name PI8 = ''i8''" | "prim_name PI16 = ''i16''" | "prim_name PI32 = ''i32''" | "prim_name PI64 = ''i64''"
| "prim_name PF32 = ''f32''" | "prim_name PF64 = ''f64''" | "prim_name PBool = ''bool''"

definition native :: "prim \<Rightarrow> lay_body" where
  "native s = BPacked \<lparr>pk_ty = prim_name s, pk_reading = RNative s, pk_bits = prim_bytes s * 8\<rparr>"

definition word_item :: "word_field \<Rightarrow> lay_item" where
  "word_item f =
     \<lparr>li_name = wf_name f, li_at = wf_at f,
      li_body = BPacked \<lparr>pk_ty = wf_ty f, pk_reading = reading_of (wf_kind f), pk_bits = wf_bits f\<rparr>,
      li_overlays = wf_overlays f, li_phys = 0, li_magic = None, li_check = None, li_range = wf_range f\<rparr>"

definition words_item :: "words_field \<Rightarrow> lay_item" where
  "words_item f =
     \<lparr>li_name = ws_name f, li_at = ws_at f,
      li_body =
        (case ws_kind f of
           WsBits ty wk bits \<Rightarrow> BPacked \<lparr>pk_ty = ty, pk_reading = reading_of wk, pk_bits = bits\<rparr>
         | WsNested ty bytes \<Rightarrow> BNested ty bytes
         | WsArrayU16 n \<Rightarrow> BRepeat (native PU16) n
         | WsArrayU8 n \<Rightarrow> BRepeat (native PU8) n),
      li_overlays = ws_overlays f, li_phys = 0, li_magic = None, li_check = None, li_range = ws_range f\<rparr>"

definition codec_body :: "string \<Rightarrow> nat \<Rightarrow> lay_body" where
  "codec_body ty bits = BPacked \<lparr>pk_ty = ty, pk_reading = RCodec, pk_bits = bits\<rparr>"

definition byte_body :: "byte_kind \<Rightarrow> lay_body" where
  "byte_body k =
     (case k of
        BkScalar s \<Rightarrow> native s
      | BkArray s dims \<Rightarrow> foldl BRepeat (native s) (rev dims)
      | BkCodec ty bits \<Rightarrow> codec_body ty bits
      | BkNested ty bytes \<Rightarrow> BNested ty bytes
      | BkNestedArray ty bytes n \<Rightarrow> BRepeat (BNested ty bytes) n
      | BkCodecArray ty bits n \<Rightarrow> BRepeat (codec_body ty bits) n)"

definition byte_item :: "byte_field \<Rightarrow> lay_item" where
  "byte_item f =
     \<lparr>li_name = bf_name f, li_at = bf_at f, li_body = byte_body (bf_kind f), li_overlays = [], li_phys = 0,
      li_magic = bf_magic f, li_check = bf_check f, li_range = bf_range f\<rparr>"

text \<open>\<open>plan\<close> with the flags of \<open>#[layout(..)]\<close>, before the fields have a position. The bits of a layout of bytes or of
  words are counted as \<open>usize\<close> and cast to \<open>u32\<close>.\<close>

definition as_u32 :: "nat \<Rightarrow> nat" where
  "as_u32 n = unat (of_nat n :: u32)"

definition plan_of :: "string \<Rightarrow> layout_keys \<Rightarrow> layout_decl \<Rightarrow> lay_plan" where
  "plan_of name k d =
     (let plan = (\<lambda>c e bits bytes prefix pv items.
            \<lparr>lg_grid = c, lg_endian = e, lg_bits = bits, lg_bytes = bytes, lp_name = name, lp_prefix = prefix,
             lp_prefix_value = pv, lp_view = lk_view k, lp_items = items, lp_asserts = no_asserts,
             lp_internal = lk_internal k, lp_truncate = lk_truncate k\<rparr>)
      in case d of
           DeclWord bits prefix pv e ord fs \<Rightarrow>
             plan (CWord bits prefix pv e ord) e bits (bits div 8) prefix pv (map word_item fs)
         | DeclBytes bytes e fs \<Rightarrow> plan (CBytes bytes e) e (as_u32 (bytes * 8)) bytes 0 None (map byte_item fs)
         | DeclWords words e ord fs \<Rightarrow>
             plan (CWords words e ord) e (as_u32 (words * 16)) (words * 2) 0 None (map words_item fs))"

definition prefix_physical :: "lay_plan \<Rightarrow> nat" where
  "prefix_physical P = physical (lg_grid P) (KScalar (ScU (lp_prefix P))) 0"

section \<open>Positions\<close>

definition check_placement :: "container \<Rightarrow> lay_item \<Rightarrow> nat \<Rightarrow> derive_error + unit" where
  "check_placement c it pos =
     (case interior_boundary c of
        None \<Rightarrow> Inr ()
      | Some region \<Rightarrow>
          (case li_body it of
             BPacked p \<Rightarrow>
               if pos mod region + pk_bits p > region then Inl (Refused (li_name it) ''crosses a word boundary'') else Inr ()
           | body \<Rightarrow>
               (let align = min region (element_bits body)
                in if align \<noteq> 0 \<and> pos mod align \<noteq> 0 then Inl (Refused (li_name it) ''must be aligned'') else Inr ())))"

fun solve_items :: "container \<Rightarrow> nat \<Rightarrow> nat \<Rightarrow> lay_item list \<Rightarrow> derive_error + (lay_item list \<times> nat)" where
  "solve_items c final pos [] = Inr ([], pos)"
| "solve_items c final pos (it # rest) =
     bind_res (check_placement c it pos) (\<lambda>_.
     let stop = pos + body_bits (li_body it); k = body_kind (li_body it)
     in if stop > final then Inl (Refused (li_name it) ''overflows the layout'')
        else bind_res
          (case li_at it of
             None \<Rightarrow> Inr ()
           | Some s \<Rightarrow>
               (case check_stated c (li_name it) k s pos of
                  Inr _ \<Rightarrow> Inr () | Inl why \<Rightarrow> Inl (Refused (li_name it) why))) (\<lambda>_.
          bind_res (solve_items c final stop rest) (\<lambda>(items, reached).
          Inr (it\<lparr>li_phys := physical c k pos\<rparr> # items, reached))))"

definition solve :: "lay_plan \<Rightarrow> derive_error + lay_plan" where
  "solve P =
     bind_res (solve_items (lg_grid P) (lg_bits P) (lp_prefix P) (lp_items P)) (\<lambda>(items, reached).
     if reached \<noteq> lg_bits P then Inl (Refused (lp_name P) ''the fields do not fill the layout'')
     else Inr (P\<lparr>lp_items := items\<rparr>))"

section \<open>Assertions\<close>

fun prim_bounds :: "prim \<Rightarrow> (bool \<times> nat) option" where
  "prim_bounds PU8 = Some (False, 8)" | "prim_bounds PU16 = Some (False, 16)" | "prim_bounds PU32 = Some (False, 32)"
| "prim_bounds PU64 = Some (False, 64)" | "prim_bounds PI8 = Some (True, 8)" | "prim_bounds PI16 = Some (True, 16)"
| "prim_bounds PI32 = Some (True, 32)" | "prim_bounds PI64 = Some (True, 64)" | "prim_bounds PF32 = None"
| "prim_bounds PF64 = None" | "prim_bounds PBool = None"

definition value_bounds :: "lay_body \<Rightarrow> (int \<times> int) option" where
  "value_bounds body =
     (case body of
        BPacked p \<Rightarrow>
          Option.bind
            (case pk_reading p of
               RUint _ \<Rightarrow> Some (False, pk_bits p) | RInt \<Rightarrow> Some (True, pk_bits p) | RNative s \<Rightarrow> prim_bounds s
             | RBool \<Rightarrow> None | RCodec \<Rightarrow> None) (\<lambda>(sign, bits).
          if bits = 0 \<or> bits > 64 then None
          else Some (if sign then (- (2 ^ (bits - 1)), 2 ^ (bits - 1) - 1) else (0, 2 ^ bits - 1)))
      | _ \<Rightarrow> None)"

definition in_i64 :: "int \<Rightarrow> bool" where
  "in_i64 n \<longleftrightarrow> - (2 ^ 63) \<le> n \<and> n < 2 ^ 63"

definition range_of_item :: "lay_item \<Rightarrow> derive_error + range_at list" where
  "range_of_item it =
     (case li_range it of
        None \<Rightarrow> Inr []
      | Some r \<Rightarrow>
          (case value_bounds (li_body it) of
             None \<Rightarrow> Inl (Refused (li_name it) ''range needs an integer field'')
           | Some (least, most) \<Rightarrow>
               (let lo = (case vr_lo r of Some n \<Rightarrow> n | None \<Rightarrow> least);
                    hi = (case vr_hi r of Some n \<Rightarrow> n | None \<Rightarrow> most)
                in if \<not> in_i64 lo \<or> \<not> in_i64 hi then Inl (Refused (li_name it) ''the range does not fit i64'')
                   else if lo < least \<or> hi > most then Inl (Refused (li_name it) ''the range goes beyond the field'')
                   else if (lo, hi) = (least, most) then Inl (Refused (li_name it) ''the range allows every value'')
                   else Inr [\<lparr>ra_field = li_name it, ra_lo = lo, ra_hi = hi\<rparr>])))"

text \<open>The fields that are whole bytes, with their byte range.\<close>

definition whole_bytes :: "lay_item \<Rightarrow> bool" where
  "whole_bytes it \<longleftrightarrow> li_phys it mod 8 = 0 \<and> body_bits (li_body it) mod 8 = 0"

definition item_extent :: "lay_item \<Rightarrow> derive_error + (string \<times> nat \<times> nat) list" where
  "item_extent it =
     (if \<not> whole_bytes it
      then if li_magic it \<noteq> None \<or> li_check it \<noteq> None then Inl (Refused (li_name it) ''needs whole bytes'') else Inr []
      else Inr [(li_name it, li_phys it div 8, (li_phys it + body_bits (li_body it)) div 8)])"

definition item_flag :: "lay_item \<Rightarrow> (string \<times> nat) list" where
  "item_flag it =
     (case li_body it of
        BPacked p \<Rightarrow> if pk_reading p = RNative PBool then [(li_name it, li_phys it div 8)] else []
      | _ \<Rightarrow> [])"

definition bound_names :: "coverage \<Rightarrow> string list" where
  "bound_names c =
     (case co_from c of FromField f \<Rightarrow> [f] | FromStart \<Rightarrow> [])
     @ (case co_to c of ToBefore f \<Rightarrow> [f] | ToAfter f \<Rightarrow> [f] | ToHere \<Rightarrow> [])"

definition resolve_check ::
    "(string \<times> nat \<times> nat) list \<Rightarrow> lay_item \<Rightarrow> check_spec \<Rightarrow> nat \<Rightarrow> nat \<Rightarrow> derive_error + check_at" where
  "resolve_check extents it spec pos stop =
     (let name = li_name it; over = cs_over spec
      in if name \<in> set (bound_names over) then Inl (Refused name ''a bound is the checksum itself'')
         else case resolve_coverage over (pos, stop) (map_of extents) of
           None \<Rightarrow> Inl (Refused name ''a bound is not a field of this layout'')
         | Some c \<Rightarrow>
             if cd_to c < cd_from c then Inl (Refused name ''the coverage runs backwards'')
             else if list_all (\<lambda>(a, b). a \<ge> b) (runs c) then Inl (Refused name ''the coverage is empty'')
             else Inr \<lparr>ca_field = name, ca_at = pos, ca_width = stop - pos, ca_algorithm = cs_algorithm spec,
                     ca_runs = filter (\<lambda>(a, b). a < b) (runs c), ca_from = co_from over, ca_to = co_to over,
                     ca_excludes_self = excises c\<rparr>)"

definition magic_of_item ::
    "endian \<Rightarrow> (string \<times> nat \<times> nat) list \<Rightarrow> lay_item \<Rightarrow> derive_error + magic_at list" where
  "magic_of_item e extents it =
     (case (map_of extents (li_name it), li_magic it) of
        (Some (pos, stop), Some m) \<Rightarrow>
          map_res (\<lambda>bytes. [\<lparr>ma_field = li_name it, ma_at = pos, ma_bytes = bytes\<rparr>])
            (magic_bytes m (li_name it) (stop - pos) e)
      | _ \<Rightarrow> Inr [])"

definition check_of_item :: "(string \<times> nat \<times> nat) list \<Rightarrow> lay_item \<Rightarrow> derive_error + check_at list" where
  "check_of_item extents it =
     (case (map_of extents (li_name it), li_check it) of
        (Some (pos, stop), Some spec) \<Rightarrow> map_res (\<lambda>c. [c]) (resolve_check extents it spec pos stop)
      | _ \<Rightarrow> Inr [])"

text \<open>The loop over the items resolves the magic, then the checksum, of each.\<close>

definition stamps_of_item ::
    "endian \<Rightarrow> (string \<times> nat \<times> nat) list \<Rightarrow> lay_item \<Rightarrow> derive_error + (magic_at list \<times> check_at list)" where
  "stamps_of_item e extents it =
     bind_res (magic_of_item e extents it) (\<lambda>m. bind_res (check_of_item extents it) (\<lambda>c. Inr (m, c)))"

definition order_of :: "(string \<times> nat \<times> nat) list \<Rightarrow> string \<Rightarrow> nat option" where
  "order_of extents name = index_where (\<lambda>x. fst x = name) extents"

definition covers_later :: "(string \<times> nat \<times> nat) list \<Rightarrow> check_at list \<Rightarrow> check_at \<Rightarrow> bool" where
  "covers_later extents checks c =
     (case order_of extents (ca_field c) of
        None \<Rightarrow> False
      | Some here \<Rightarrow>
          list_ex (\<lambda>d. ca_field d \<noteq> ca_field c
             \<and> list_ex (\<lambda>(a, b). ca_at d \<ge> a \<and> ca_at d + ca_width d \<le> b) (ca_runs c)
             \<and> (case order_of extents (ca_field d) of Some i \<Rightarrow> i > here | None \<Rightarrow> False)) checks)"

definition resolve_assertions :: "lay_plan \<Rightarrow> derive_error + lay_plan" where
  "resolve_assertions P =
     bind_res (map_res concat (collect_res item_extent (lp_items P))) (\<lambda>extents.
     bind_res (map_res concat (collect_res range_of_item (lp_items P))) (\<lambda>ranges.
     bind_res (collect_res (stamps_of_item (lg_endian P) extents) (lp_items P)) (\<lambda>stamps.
     let checks = concat (map snd stamps)
     in if list_ex (covers_later extents checks) checks
        then Inl (Refused (lp_name P) ''a checksum covers a later one'')
        else Inr (P\<lparr>lp_asserts :=
               \<lparr>as_magic = concat (map fst stamps), as_check = checks, as_range = ranges,
                as_flags = concat (map item_flag (lp_items P))\<rparr>\<rparr>))))"

definition expand_layout ::
    "string \<Rightarrow> layout_keys \<Rightarrow> string list \<Rightarrow> rust_field list \<Rightarrow> derive_error + lay_plan" where
  "expand_layout name k attrs fs =
     bind_res (parse_layout name k attrs fs) (\<lambda>d. bind_res (solve (plan_of name k d)) resolve_assertions)"

end
