(* ===== verification/LayoutTiles.thy ===== *)
theory LayoutTiles
  imports LayoutPlans
begin

text \<open>
  What a plan of \<open>#[derive(Layout)]\<close> guarantees once its positions are solved: every field has the shape and the
  place its accessors rely on, and the fields tile the wire. A bit of the wire is a \<open>cell\<close>, a byte and a bit of
  it; \<open>body_cells\<close> are the cells the accessors of a field touch. The tiling holds for every plan the macro
  accepts but some of 16-bit words with byte arrays among bit fields, which \<open>arrays_regular\<close> sets apart.
\<close>

section \<open>Shapes\<close>

definition ty_int_bits :: "string \<Rightarrow> nat" where
  "ty_int_bits ty =
     (case map_of [(''i8'', 8), (''i16'', 16), (''i32'', 32), (''i64'', 64)] ty of Some n \<Rightarrow> n | None \<Rightarrow> 64)"

definition leaf_ok :: "packed \<Rightarrow> bool" where
  "leaf_ok p \<longleftrightarrow> 1 \<le> pk_bits p
     \<and> (case pk_reading p of
          RUint n \<Rightarrow> n \<in> {8, 16, 32, 64, 128} \<and> pk_bits p \<le> n
        | RInt \<Rightarrow> pk_bits p \<le> ty_int_bits (pk_ty p)
        | RBool \<Rightarrow> pk_bits p = 1
        | RCodec \<Rightarrow> pk_bits p \<le> 64
        | RNative s \<Rightarrow> pk_bits p = 8 * prim_bytes s)"

fun leaves_ok :: "lay_body \<Rightarrow> bool" where
  "leaves_ok (BPacked p) = leaf_ok p"
| "leaves_ok (BNested _ n) = (0 < n)"
| "leaves_ok (BRepeat b n) = leaves_ok b"

definition is_native :: "packed \<Rightarrow> bool" where
  "is_native p \<longleftrightarrow> (case pk_reading p of RNative _ \<Rightarrow> True | _ \<Rightarrow> False)"

fun byte_leaves :: "lay_body \<Rightarrow> bool" where
  "byte_leaves (BPacked p) = (is_native p \<or> pk_reading p = RCodec \<and> scalar_wide (pk_bits p))"
| "byte_leaves (BNested _ n) = True"
| "byte_leaves (BRepeat b n) = byte_leaves b"

definition shaped :: "container \<Rightarrow> lay_body \<Rightarrow> bool" where
  "shaped c body \<longleftrightarrow> leaves_ok body
     \<and> (case c of
          CWord _ _ _ _ _ \<Rightarrow> (case body of BPacked p \<Rightarrow> \<not> is_native p | _ \<Rightarrow> False)
        | CWords _ _ _ \<Rightarrow>
            (case body of
               BPacked p \<Rightarrow> \<not> is_native p
             | BNested _ n \<Rightarrow> even n
             | BRepeat b _ \<Rightarrow> b = native PU16 \<or> b = native PU8)
        | CBytes _ _ \<Rightarrow> byte_leaves body)"

lemma spelled_bare: "bare_ident ty = Some s \<Longrightarrow> spelled ty = s"
  by (induction ty rule: bare_ident.induct) auto

lemma leaf_native: "leaf_ok \<lparr>pk_ty = prim_name s, pk_reading = RNative s, pk_bits = prim_bytes s * 8\<rparr>"
  by (cases s) (simp_all add: leaf_ok_def)

lemma native_shape [simp]: "leaves_ok (native s)" "byte_leaves (native s)"
  using leaf_native [of s] by (simp_all add: native_def is_native_def)

lemma fits_type_leaf:
  assumes "fits_its_type name (word_kind_of ty) bits = Inr ()" "1 \<le> bits" "word_kind_of ty = WkCodec \<Longrightarrow> bits \<le> 64"
  shows "leaf_ok \<lparr>pk_ty = spelled ty, pk_reading = reading_of (word_kind_of ty), pk_bits = bits\<rparr>"
proof (cases "bare_ident ty")
  case None
  then show ?thesis using assms by (simp add: word_kind_of_def leaf_ok_def)
next
  case (Some s)
  have "word_kind_of ty = WkCodec \<or> s \<in> {''u8'', ''u16'', ''u32'', ''u64'', ''u128'', ''i8'', ''i16'', ''i32'', ''i64'', ''bool''}"
    using Some by (auto simp: word_kind_of_def)
  then show ?thesis
    using assms Some spelled_bare [OF Some]
    by (auto simp: word_kind_of_def fits_its_type_def one_bit_bool_def leaf_ok_def ty_int_bits_def split: if_splits)
qed

lemma not_native: "\<not> is_native \<lparr>pk_ty = ty, pk_reading = reading_of k, pk_bits = bits\<rparr>"
  by (cases k) (simp_all add: is_native_def)

lemma word_field_shaped: "word_field_of f = Inr x \<Longrightarrow> shaped (CWord bits pre pv e ord) (li_body (word_item x))"
  using fits_type_leaf [of "rf_name f" "rf_ty f"] not_native
  by (auto simp: word_field_of_def bind_res_Inr_iff nonzero_width_def shaped_def word_item_def Let_def
      split: option.splits if_splits)

lemma words_field_shaped: "words_field_of f = Inr x \<Longrightarrow> shaped (CWords n e ord) (li_body (words_item x))"
  using fits_type_leaf [of "rf_name f" "rf_ty f"] not_native
  by (auto simp: words_field_of_def words_kind_of_def bind_res_Inr_iff shaped_def words_item_def Let_def
      split: option.splits if_splits)

lemma byte_body_array: "leaves_ok (foldl BRepeat b ds) = leaves_ok b" "byte_leaves (foldl BRepeat b ds) = byte_leaves b"
  by (induction ds arbitrary: b) auto

lemma byte_kind_shape: "byte_kind_of ty = Some k \<Longrightarrow> leaves_ok (byte_body k) \<and> byte_leaves (byte_body k)"
  by (auto simp: byte_kind_of_def byte_body_def byte_body_array bind_eq_Some_conv split: option.splits)

lemma codec_shape:
  "scalar_wide n \<Longrightarrow> leaves_ok (codec_body ty n) \<and> byte_leaves (codec_body ty n)"
  by (auto simp: scalar_wide_def codec_body_def leaf_ok_def)

lemma byte_field_kind_shape:
  assumes "byte_field_kind name ty bits bytes = Inr k"
  shows "leaves_ok (byte_body k) \<and> byte_leaves (byte_body k)"
proof (cases bytes)
  case (Some n)
  then show ?thesis using assms by (auto simp: byte_field_kind_def byte_body_def split: option.splits if_splits)
next
  case None
  show ?thesis
  proof (cases bits)
    case (Some n)
    then have "scalar_wide n \<and> ((\<exists>e m. k = BkCodecArray e n m) \<or> (\<exists>t. k = BkCodec t n))"
      using assms None by (auto simp: byte_field_kind_def split: option.splits if_splits)
    then show ?thesis using codec_shape by (auto simp: byte_body_def)
  next
    case None
    then have "byte_kind_of ty = Some k"
      using assms \<open>bytes = None\<close> by (auto simp: byte_field_kind_def split: option.splits)
    then show ?thesis by (rule byte_kind_shape)
  qed
qed

lemma byte_field_shaped: "byte_field_of f = Inr x \<Longrightarrow> shaped (CBytes n e) (li_body (byte_item x))"
  using byte_field_kind_shape
  by (auto simp: byte_field_of_def bind_res_Inr_iff shaped_def byte_item_def Let_def simp del: byte_leaves.simps
      split: if_splits)

lemma collect_res_set:
  "collect_res f xs = Inr ys \<Longrightarrow> y \<in> set ys \<Longrightarrow> \<exists>x \<in> set xs. f x = Inr y"
  by (induction xs arbitrary: ys) (auto simp: bind_res_Inr_iff)

lemma collect_res_all:
  "collect_res f xs = Inr ys \<Longrightarrow> (\<And>x y. f x = Inr y \<Longrightarrow> Q y) \<Longrightarrow> \<forall>y \<in> set ys. Q y"
  by (metis collect_res_set)

lemma as_u32_small: "n < 2 ^ 32 \<Longrightarrow> as_u32 n = n"
  by (simp add: as_u32_def unat_of_nat take_bit_nat_eq_self)

lemma as_u32_container: "n < 2 ^ 29 \<Longrightarrow> as_u32 (n * 8) = n * 8" "2 * n < 2 ^ 29 \<Longrightarrow> as_u32 (n * 16) = n * 16"
  by (simp_all add: as_u32_small)

lemma declared_shaped:
  assumes "declared_fields name c view fs = Inr d"
  shows "\<forall>it \<in> set (lp_items (plan_of n k d)). shaped c (li_body it)" "lg_grid (plan_of n k d) = c"
    "lp_prefix (plan_of n k d) = container_prefix c"
    "8 dvd container_bits c \<Longrightarrow> lg_bytes (plan_of n k d) < 2 ^ 29 \<Longrightarrow> grid_ok (plan_of n k d)"
proof -
  consider (word) bits pre pv e ord ys where "c = CWord bits pre pv e ord" "collect_res word_field_of fs = Inr ys"
      "d = DeclWord bits pre pv e ord ys"
    | (bytes) m e ys where "c = CBytes m e" "collect_res byte_field_of fs = Inr ys" "d = DeclBytes m e ys"
    | (words) m e ord ys where "c = CWords m e ord" "collect_res words_field_of fs = Inr ys" "d = DeclWords m e ord ys"
    using assms by (cases c) (auto simp: declared_fields_def bind_res_Inr_iff)
  then have "(\<forall>it \<in> set (lp_items (plan_of n k d)). shaped c (li_body it)) \<and> lg_grid (plan_of n k d) = c
    \<and> lp_prefix (plan_of n k d) = container_prefix c \<and> (8 dvd container_bits c \<and> lg_bytes (plan_of n k d) < 2 ^ 29 \<longrightarrow> grid_ok (plan_of n k d))"
  proof cases
    case word
    then show ?thesis
      using collect_res_all [OF word(2) word_field_shaped]
      by (simp add: plan_of_def grid_ok_def Let_def word(1,3) split_beta dvd_div_mult_self)
  next
    case bytes
    then show ?thesis
      using collect_res_all [OF bytes(2) byte_field_shaped]
      by (simp add: plan_of_def grid_ok_def Let_def bytes(1,3) split_beta as_u32_container)
  next
    case words
    then show ?thesis
      using collect_res_all [OF words(2) words_field_shaped]
      by (simp add: plan_of_def grid_ok_def Let_def words(1,3) split_beta as_u32_container)
  qed
  then show "\<forall>it \<in> set (lp_items (plan_of n k d)). shaped c (li_body it)" "lg_grid (plan_of n k d) = c"
    "lp_prefix (plan_of n k d) = container_prefix c"
    "8 dvd container_bits c \<Longrightarrow> lg_bytes (plan_of n k d) < 2 ^ 29 \<Longrightarrow> grid_ok (plan_of n k d)" by auto
qed

lemma container_attr_bytes:
  assumes "container_attr name k = Inr c"
  shows "8 dvd container_bits c" "container_prefix c \<le> container_bits c" "\<And>b p pv e ord. c = CWord b p pv e ord \<Longrightarrow> 0 < b"
  using assms
  by (auto simp: container_attr_def prefix_admitted_def bind_res_Inr_iff Let_def split: option.splits if_splits sum.splits)

lemma plan_facts:
  assumes "parse_layout name k attrs fs = Inr d" "lg_bytes (plan_of name k d) < 2 ^ 29"
  shows "grid_ok (plan_of name k d)"
    and "\<forall>it \<in> set (lp_items (plan_of name k d)). shaped (lg_grid (plan_of name k d)) (li_body it)"
    and "lp_prefix (plan_of name k d) = container_prefix (lg_grid (plan_of name k d))"
    and "container_prefix (lg_grid (plan_of name k d)) \<le> lg_bits (plan_of name k d)"
    and "\<And>b p pv e ord. lg_grid (plan_of name k d) = CWord b p pv e ord \<Longrightarrow> 0 < b"
proof -
  obtain c where c: "container_attr name k = Inr c" "declared_fields name c (lk_view k) fs = Inr d"
    using assms(1) by (auto simp: parse_layout_def bind_res_Inr_iff split: if_splits)
  note bytes = container_attr_bytes [OF c(1)]
  note shape = declared_shaped [OF c(2), of name k]
  show "grid_ok (plan_of name k d)" "lp_prefix (plan_of name k d) = container_prefix (lg_grid (plan_of name k d))"
    "\<forall>it \<in> set (lp_items (plan_of name k d)). shaped (lg_grid (plan_of name k d)) (li_body it)"
    using shape(1,3) shape(4) [OF bytes(1) assms(2)] unfolding shape(2) by simp_all
  then show "container_prefix (lg_grid (plan_of name k d)) \<le> lg_bits (plan_of name k d)"
    using bytes(2) unfolding shape(2) by (simp add: grid_ok_def shape(2))
  show "\<And>b p pv e ord. lg_grid (plan_of name k d) = CWord b p pv e ord \<Longrightarrow> 0 < b"
    using bytes(3) unfolding shape(2) by blast
qed

section \<open>Solved positions\<close>

fun solved_from :: "container \<Rightarrow> nat \<Rightarrow> nat \<Rightarrow> lay_item list \<Rightarrow> nat \<Rightarrow> bool" where
  "solved_from c final pos [] stop = (stop = pos)"
| "solved_from c final pos (it # rest) stop =
     (check_placement c it pos = Inr () \<and> pos + body_bits (li_body it) \<le> final
      \<and> li_phys it = physical c (body_kind (li_body it)) pos
      \<and> solved_from c final (pos + body_bits (li_body it)) rest stop)"

lemma check_placement_phys [simp]: "check_placement c (it\<lparr>li_phys := x\<rparr>) pos = check_placement c it pos"
  by (simp add: check_placement_def split: option.splits lay_body.splits)

lemma solve_items_solved:
  "solve_items c final pos items = Inr (items', stop) \<Longrightarrow>
     solved_from c final pos items' stop \<and> map li_body items' = map li_body items \<and> map li_name items' = map li_name items
     \<and> map li_magic items' = map li_magic items \<and> map li_check items' = map li_check items
     \<and> map li_range items' = map li_range items"
proof (induction items arbitrary: pos items' stop)
  case (Cons it rest)
  let ?next = "pos + body_bits (li_body it)"
  from Cons.prems obtain items'' where s: "check_placement c it pos = Inr ()" "?next \<le> final"
    "solve_items c final ?next rest = Inr (items'', stop)"
    "items' = it\<lparr>li_phys := physical c (body_kind (li_body it)) pos\<rparr> # items''"
    by (auto simp: bind_res_Inr_iff Let_def split: if_splits)
  with Cons.IH [OF s(3)] show ?case by simp
qed simp

lemma resolve_assertions_grid:
  assumes "resolve_assertions P = Inr Q"
  shows "\<exists>a. Q = P\<lparr>lp_asserts := a\<rparr>"
  using assms by (auto simp: resolve_assertions_def bind_res_Inr_iff Let_def split: if_splits)

definition plan_ok :: "lay_plan \<Rightarrow> bool" where
  "plan_ok P \<longleftrightarrow> grid_ok P \<and> (\<forall>it \<in> set (lp_items P). shaped (lg_grid P) (li_body it))
     \<and> lp_prefix P = container_prefix (lg_grid P) \<and> 0 < region_of (lg_grid P)
     \<and> solved_from (lg_grid P) (lg_bits P) (lp_prefix P) (lp_items P) (lg_bits P)"

lemma grid_ok_update [simp]:
  "grid_ok (P\<lparr>lp_items := xs\<rparr>) = grid_ok P" "grid_ok (P\<lparr>lp_asserts := a\<rparr>) = grid_ok P"
  by (simp_all add: grid_ok_def)

lemma shaped_bodies:
  "map li_body xs = map li_body ys \<Longrightarrow> (\<forall>it \<in> set xs. shaped c (li_body it)) = (\<forall>it \<in> set ys. shaped c (li_body it))"
  by (metis (no_types, lifting) image_eqI image_iff list.set_map)

lemma expand_layout_ok:
  assumes "expand_layout name k attrs fs = Inr P" "lg_bytes P < 2 ^ 29"
  shows "plan_ok P"
proof -
  obtain d Q where d: "parse_layout name k attrs fs = Inr d" "solve (plan_of name k d) = Inr Q"
    "resolve_assertions Q = Inr P"
    using assms(1) by (auto simp: expand_layout_def bind_res_Inr_iff)
  define R where "R = plan_of name k d"
  obtain items where items: "solve_items (lg_grid R) (lg_bits R) (lp_prefix R) (lp_items R) = Inr (items, lg_bits R)"
    "Q = R\<lparr>lp_items := items\<rparr>"
    using d(2) by (auto simp: solve_def bind_res_Inr_iff R_def split: if_splits)
  note s = solve_items_solved [OF items(1)]
  obtain a where a: "P = R\<lparr>lp_items := items, lp_asserts := a\<rparr>"
    using resolve_assertions_grid [OF d(3)] items(2) by auto
  then have "lg_bytes R < 2 ^ 29" using assms(2) by simp
  then have facts: "grid_ok R" "\<forall>it \<in> set (lp_items R). shaped (lg_grid R) (li_body it)"
    "lp_prefix R = container_prefix (lg_grid R)" "\<And>b p pv e ord. lg_grid R = CWord b p pv e ord \<Longrightarrow> 0 < b"
    using plan_facts [OF d(1)] by (simp_all add: R_def)
  have "0 < region_of (lg_grid R)" using facts(4) by (cases "lg_grid R") auto
  moreover have "\<forall>it \<in> set items. shaped (lg_grid R) (li_body it)"
    using s shaped_bodies [of items "lp_items R" "lg_grid R"] facts(2) by simp
  ultimately show ?thesis using s facts(1,3) by (simp add: plan_ok_def a)
qed

section \<open>The cells of a body\<close>

fun body_cells :: "'a lay_grid_scheme \<Rightarrow> nat \<Rightarrow> lay_body \<Rightarrow> (nat \<times> nat) list" where
  "body_cells P pos (BPacked p) = map (packed_cell P pos p) [0..<pk_bits p]"
| "body_cells P pos (BNested _ n) = concat (map (\<lambda>i. map (Pair (pos div 8 + i)) [0..<8]) [0..<n])"
| "body_cells P pos (BRepeat b n) = concat (map (\<lambda>i. body_cells P (pos + i * body_bits b) b) [0..<n])"

definition item_cells :: "'a lay_grid_scheme \<Rightarrow> lay_item \<Rightarrow> (nat \<times> nat) list" where
  "item_cells P it = body_cells P (li_phys it) (li_body it)"

definition prefix_cells :: "lay_plan \<Rightarrow> (nat \<times> nat) list" where
  "prefix_cells P = map (\<lambda>j. region_cell (lg_endian P) 0 (lg_bits P) (prefix_physical P + j)) [0..<lp_prefix P]"

lemma sum_list_const: "(\<And>x. x \<in> set xs \<Longrightarrow> f x = k) \<Longrightarrow> sum_list (map f xs) = length xs * (k :: nat)"
  by (induction xs) auto

lemma length_body_cells [simp]: "length (body_cells P pos b) = body_bits b"
  by (induction b arbitrary: pos) (simp_all add: length_concat comp_def sum_list_triv)

text \<open>The cell of a bit in physical numbering, and of a bit in declared numbering.\<close>

definition wire_cell :: "'a lay_grid_scheme \<Rightarrow> nat \<Rightarrow> nat \<times> nat" where
  "wire_cell P m =
     (case lg_grid P of
        CBytes _ _ \<Rightarrow> (m div 8, m mod 8)
      | c \<Rightarrow> region_cell (lg_endian P) (region_start c m) (region_bits c 0) m)"

definition grid_cell :: "'a lay_grid_scheme \<Rightarrow> nat \<Rightarrow> nat \<times> nat" where
  "grid_cell P n = wire_cell P (place_bit (lg_grid P) n)"

lemma wire_cell_word: "lg_grid P = CWord bits pre pv e ord \<Longrightarrow> wire_cell P m = (byte_at (lg_endian P) (bits div 8) (m div 8), m mod 8)"
  by (simp add: wire_cell_def region_cell_alt)

lemma wire_cell_words:
  assumes "lg_grid P = CWords w e ord"
  shows "wire_cell P m = (2 * (m div 16) + byte_at (lg_endian P) 2 ((m mod 16) div 8), m mod 8)"
proof -
  have "m - m mod 16 = 16 * (m div 16)" by (simp add: minus_mod_eq_mult_div)
  then have "(m - m mod 16) div 8 = 2 * (m div 16)" "m - (m - m mod 16) = m mod 16" by simp_all
  then show ?thesis using assms by (simp add: wire_cell_def region_cell_alt)
qed

lemma grid_ok_bits: "grid_ok P \<Longrightarrow> container_bits (lg_grid P) = 8 * lg_bytes P \<and> lg_bits P = 8 * lg_bytes P"
  by (simp add: grid_ok_def)

lemma div_mod_8: "m div 8 = n div 8 \<Longrightarrow> m mod 8 = n mod 8 \<Longrightarrow> m = (n :: nat)"
  by (metis div_mult_mod_eq)

lemma halves: "m div 8 = 2 * (m div 16) + m mod 16 div (8 :: nat)"
proof -
  have "(m mod 16 + (2 * (m div 16)) * 8) div 8 = 2 * (m div 16) + m mod 16 div 8" by (rule div_mult_self1) simp
  moreover have "m mod 16 + (2 * (m div 16)) * 8 = m" using div_mult_mod_eq [of m 16] by linarith
  ultimately show ?thesis by simp
qed

lemma wire_cell_inj:
  assumes "grid_ok P"
  shows "inj_on (wire_cell P) {..<lg_bits P}"
proof (rule inj_onI)
  fix m n
  assume "m \<in> {..<lg_bits P}" "n \<in> {..<lg_bits P}" and e: "wire_cell P m = wire_cell P n"
  then have less: "m < 8 * lg_bytes P" "n < 8 * lg_bytes P" using assms by (auto simp: grid_ok_def)
  show "m = n"
  proof (cases "lg_grid P")
    case (CWord bits pre pv e' ord)
    have b: "bits div 8 = lg_bytes P" using grid_ok_bits [OF assms] CWord by simp
    have "m div 8 < lg_bytes P" "n div 8 < lg_bytes P" using less by auto
    then show ?thesis
      using e byte_at_inj [of "m div 8" "lg_bytes P" "n div 8"] by (auto simp: wire_cell_word [OF CWord] b intro: div_mod_8)
  next
    case (CWords w e' ord)
    define h k where "h = (m mod 16) div 8" and "k = (n mod 16) div 8"
    have hk: "h < 2" "k < 2" by (auto simp: h_def k_def)
    have small: "byte_at (lg_endian P) 2 h < 2" "byte_at (lg_endian P) 2 k < 2" using hk by (auto intro: byte_at_less)
    have sums: "2 * (m div 16) + byte_at (lg_endian P) 2 h = 2 * (n div 16) + byte_at (lg_endian P) 2 k" "m mod 8 = n mod 8"
      using e unfolding wire_cell_words [OF CWords] h_def [symmetric] k_def [symmetric] by simp_all
    have "a = b \<and> x = y" if "2 * a + x = 2 * b + y" "x < 2" "y < 2" for a b x y :: nat
      using that by presburger
    from this [OF sums(1) small] have "m div 16 = n div 16" "byte_at (lg_endian P) 2 h = byte_at (lg_endian P) 2 k" by simp_all
    moreover from this(2) have "h = k" using byte_at_inj [of h 2 k] hk by simp
    ultimately have "m div 8 = n div 8" unfolding halves [of m] halves [of n] h_def k_def by (simp only:)
    then show ?thesis using sums(2) by (rule div_mod_8)
  next
    case (CBytes w e')
    then show ?thesis using e by (auto simp: wire_cell_def intro: div_mod_8)
  qed
qed

lemma wire_cell_range:
  assumes "grid_ok P" "m < lg_bits P"
  shows "wire_cell P m \<in> {..<lg_bytes P} \<times> {..<8}"
proof -
  have m: "m < 8 * lg_bytes P" using assms by (auto simp: grid_ok_def)
  then have d: "m div 8 < lg_bytes P" by auto
  show ?thesis
  proof (cases "lg_grid P")
    case (CWord bits pre pv e' ord)
    then have "bits div 8 = lg_bytes P" using grid_ok_bits [OF assms(1)] by simp
    then show ?thesis using d byte_at_less by (simp add: wire_cell_word [OF CWord])
  next
    case (CWords w e' ord)
    then have w: "lg_bytes P = 2 * w" using assms by (simp add: grid_ok_def)
    have "(m mod 16) div 8 < 2" by auto
    moreover have "m div 16 < w" using m w by auto
    ultimately show ?thesis using byte_at_less [of "(m mod 16) div 8" 2 "lg_endian P"]
      by (simp add: wire_cell_words [OF CWords] w del: One_nat_def)
  qed (use d in \<open>auto simp: wire_cell_def\<close>)
qed

lemma wire_cell_onto:
  assumes "grid_ok P"
  shows "wire_cell P ` {..<lg_bits P} = {..<lg_bytes P} \<times> {..<8 :: nat}"
proof (rule card_subset_eq)
  show "wire_cell P ` {..<lg_bits P} \<subseteq> {..<lg_bytes P} \<times> {..<8 :: nat}" using wire_cell_range [OF assms] by blast
  show "card (wire_cell P ` {..<lg_bits P}) = card ({..<lg_bytes P} \<times> {..<8 :: nat})"
    unfolding card_image [OF wire_cell_inj [OF assms]] using grid_ok_bits [OF assms] by (simp add: card_cartesian_product)
qed simp

lemma grid_cell_onto:
  assumes "grid_ok P" "0 < region_of (lg_grid P)"
  shows "grid_cell P ` {..<lg_bits P} = {..<lg_bytes P} \<times> {..<8 :: nat}"
proof -
  have "place_bit (lg_grid P) ` {..<lg_bits P} = {..<lg_bits P}"
    using place_bit_range [OF assms(2)] assms(1) by (simp add: grid_ok_def lessThan_atLeast0)
  moreover have "grid_cell P ` {..<lg_bits P} = wire_cell P ` (place_bit (lg_grid P) ` {..<lg_bits P})"
    by (simp add: image_image grid_cell_def)
  ultimately show ?thesis using wire_cell_onto [OF assms(1)] by simp
qed

lemma grid_cell_inj:
  assumes "grid_ok P" "0 < region_of (lg_grid P)"
  shows "inj_on (grid_cell P) {..<lg_bits P}"
proof (rule eq_card_imp_inj_on)
  show "card (grid_cell P ` {..<lg_bits P}) = card {..<lg_bits P}"
    unfolding grid_cell_onto [OF assms] using grid_ok_bits [OF assms(1)] by (simp add: card_cartesian_product)
qed simp

section \<open>Fields of bits\<close>

lemma bit_leaf_cells:
  assumes "grid_ok P" "\<not> is_native p" "lg_grid P = CWord bits pre pv e ord \<or> lg_grid P = CWords w e ord \<and> pos mod 16 + pk_bits p \<le> 16"
    "j < pk_bits p"
  shows "packed_cell P pos p j = wire_cell P (pos + j)"
proof -
  have n: "packed_region P pos p = (region_start (lg_grid P) pos, region_bits (lg_grid P) (pk_bits p))"
    using assms(2) by (auto simp: packed_region_def is_native_def split: reading.splits)
  have "(pos + j) - (pos + j) mod 16 = pos - pos mod 16" if "pos mod 16 + pk_bits p \<le> 16"
  proof -
    have "pos mod 16 + j < 16" using that assms(4) by simp
    then have "(pos + j) mod 16 = pos mod 16 + j" using mod_add_left_eq [of pos 16 j] by simp
    then show ?thesis using mod_less_eq_dividend [of pos 16] by linarith
  qed
  then show ?thesis using assms(3) by (auto simp: packed_cell_def n wire_cell_def)
qed

section \<open>Fields of bytes\<close>

fun bytewise :: "'a lay_grid_scheme \<Rightarrow> lay_body \<Rightarrow> bool" where
  "bytewise P (BPacked p) = (is_native p \<or> (case lg_grid P of CBytes _ _ \<Rightarrow> 8 dvd pk_bits p | _ \<Rightarrow> False))"
| "bytewise P (BNested _ _) = True"
| "bytewise P (BRepeat b n) = bytewise P b"

definition whole_cells :: "nat \<Rightarrow> nat \<Rightarrow> (nat \<times> nat) set" where
  "whole_cells start n = {start..<start + n} \<times> {..<8}"

lemma bytewise_bits: "bytewise P b \<Longrightarrow> leaves_ok b \<Longrightarrow> 8 dvd body_bits b"
  by (induction b) (auto simp: leaf_ok_def is_native_def split: reading.splits container.splits)

lemma whole_cells_UN: "(\<Union>i < n. whole_cells (s + i * k) k) = whole_cells s (n * k)"
proof (induction n)
  case (Suc n)
  have "whole_cells s (n * k) \<union> whole_cells (s + n * k) k = whole_cells s (n * k + k)" by (auto simp: whole_cells_def)
  with Suc show ?case by (simp add: lessThan_Suc Un_commute add.commute)
qed (simp add: whole_cells_def)

lemma number_cells: "(\<lambda>j. number_cell e off n j) ` {..<8 * n} = whole_cells off n"
proof (intro set_eqI iffI)
  fix x assume "x \<in> (\<lambda>j. number_cell e off n j) ` {..<8 * n}"
  then show "x \<in> whole_cells off n" using byte_at_less [of _ n e] by (auto simp: number_cell_def whole_cells_def)
next
  fix x assume "x \<in> whole_cells off n"
  then have "fst x - off < n" "x = (off + (fst x - off), snd x)" "snd x < 8" by (auto simp: whole_cells_def)
  then obtain i k where x: "x = (off + i, k)" "i < n" "k < 8" by blast
  define j where "j = 8 * byte_at e n i + k"
  have "number_cell e off n j = x" "j < 8 * n"
    using x byte_at_less [OF x(2), of e] byte_at_twice [OF x(2), of e] by (auto simp: number_cell_def j_def)
  then show "x \<in> (\<lambda>j. number_cell e off n j) ` {..<8 * n}" by blast
qed

lemma byte_leaf_cell:
  assumes "bytewise P (BPacked p)" "leaf_ok p" "8 dvd pos"
  shows "packed_cell P pos p j = number_cell (lg_endian P) (pos div 8) (pk_bits p div 8) j"
proof -
  have "packed_region P pos p = (pos, 8 * (pk_bits p div 8))"
    using assms(1,2) by (auto simp: packed_region_def is_native_def leaf_ok_def split: reading.splits container.splits)
  then show ?thesis by (simp add: packed_cell_def whole_cell [OF assms(3)])
qed

lemma bytewise_cells:
  "bytewise P b \<Longrightarrow> leaves_ok b \<Longrightarrow> 8 dvd pos \<Longrightarrow> set (body_cells P pos b) = whole_cells (pos div 8) (body_bits b div 8)"
proof (induction b arbitrary: pos)
  case (BPacked p)
  have "8 * (pk_bits p div 8) = pk_bits p" using bytewise_bits [OF BPacked(1,2)] by simp
  then have "set (body_cells P pos (BPacked p)) = (\<lambda>j. number_cell (lg_endian P) (pos div 8) (pk_bits p div 8) j) ` {..<8 * (pk_bits p div 8)}"
    using byte_leaf_cell [OF BPacked(1) _ BPacked(3)] BPacked(2) by (simp add: lessThan_atLeast0)
  then show ?case by (simp add: number_cells)
next
  case (BNested ty n)
  have "(\<lambda>i. pos div 8 + i) ` {0..<n} = {pos div 8..<pos div 8 + n}" by (simp add: add.commute)
  moreover have "set (body_cells P pos (BNested ty n)) = (\<Union>i \<in> {0..<n}. {pos div 8 + i} \<times> {..<8})"
    by (auto simp: lessThan_atLeast0)
  moreover have "(\<Union>i \<in> {0..<n}. {pos div 8 + i} \<times> {..<8 :: nat}) = (\<lambda>i. pos div 8 + i) ` {0..<n} \<times> {..<8}" by blast
  ultimately show ?case by (simp add: whole_cells_def)
next
  case (BRepeat b n)
  have k: "8 dvd body_bits b" using bytewise_bits [of P b] BRepeat.prems by simp
  have "set (body_cells P (pos + i * body_bits b) b) = whole_cells (pos div 8 + i * (body_bits b div 8)) (body_bits b div 8)" for i
    using BRepeat.IH [of "pos + i * body_bits b"] BRepeat.prems k by (simp add: div_plus_div_distrib_dvd_left div_mult_swap)
  then have "set (body_cells P pos (BRepeat b n)) = (\<Union>i < n. whole_cells (pos div 8 + i * (body_bits b div 8)) (body_bits b div 8))"
    by (simp add: lessThan_atLeast0)
  also have "\<dots> = whole_cells (pos div 8) (n * (body_bits b div 8))" by (rule whole_cells_UN)
  finally show ?case using k by (simp add: div_mult_swap mult.commute)
qed

section \<open>The tiling\<close>

text \<open>A byte array of a layout of 16-bit words starts and ends with a word, unless the bytes of a word are numbered
  as its bits are.\<close>

definition bytes_follow_bits :: "container \<Rightarrow> bool" where
  "bytes_follow_bits c \<longleftrightarrow>
     (case c of CWords _ e ord \<Rightarrow> (e = Le \<longleftrightarrow> ord = Lsb) | _ \<Rightarrow> True)"

definition array_regular :: "container \<Rightarrow> lay_item \<Rightarrow> bool" where
  "array_regular c it \<longleftrightarrow>
     bytes_follow_bits c
     \<or> (case li_body it of BRepeat b n \<Rightarrow> li_phys it mod 16 = 0 \<and> body_bits b * n mod 16 = 0 | _ \<Rightarrow> True)"

definition arrays_regular :: "lay_plan \<Rightarrow> bool" where
  "arrays_regular P \<longleftrightarrow> list_all (array_regular (lg_grid P)) (lp_items P)"

lemma card_grid:
  assumes "grid_ok P" "0 < region_of (lg_grid P)" "pos + w \<le> lg_bits P"
  shows "card (grid_cell P ` {pos..<pos + w}) = w"
proof -
  have "inj_on (grid_cell P) {pos..<pos + w}"
    using grid_cell_inj [OF assms(1,2)] assms(3) by (auto intro: inj_on_subset)
  then show ?thesis by (simp add: card_image)
qed

lemma card_whole_cells: "card (whole_cells s n) = 8 * n"
  by (simp add: whole_cells_def card_cartesian_product)

lemma whole_grid:
  assumes "grid_ok P" "0 < region_of (lg_grid P)" "pos + w \<le> lg_bits P" "8 dvd w"
    and "\<And>m. pos \<le> m \<Longrightarrow> m < pos + w \<Longrightarrow> fst (grid_cell P m) \<in> {pos div 8..<pos div 8 + w div 8}"
  shows "grid_cell P ` {pos..<pos + w} = whole_cells (pos div 8) (w div 8)"
proof (rule card_subset_eq)
  have "snd (grid_cell P m) < 8" for m by (cases "lg_grid P") (simp_all add: grid_cell_def wire_cell_def region_cell_def)
  then have "grid_cell P m \<in> whole_cells (pos div 8) (w div 8)" if "pos \<le> m" "m < pos + w" for m
    using assms(5) [OF that] by (simp add: whole_cells_def mem_Times_iff)
  then show "grid_cell P ` {pos..<pos + w} \<subseteq> whole_cells (pos div 8) (w div 8)" by auto
  show "card (grid_cell P ` {pos..<pos + w}) = card (whole_cells (pos div 8) (w div 8))"
    using assms(4) by (simp add: card_grid [OF assms(1-3)] card_whole_cells)
qed (simp add: whole_cells_def)

lemma grid_byte:
  assumes "grid_ok P" "lg_grid P = CWords n e ord"
  shows "fst (grid_cell P m) div 2 = m div 16" "e = Le \<longleftrightarrow> ord = Lsb \<Longrightarrow> fst (grid_cell P m) = m div 8"
proof -
  have e: "lg_endian P = e" using assms by (simp add: grid_ok_def)
  define r where "r = m mod 16"
  have r: "r < 16" by (simp add: r_def)
  have pl: "place_bit (lg_grid P) m div 16 = m div 16" "place_bit (lg_grid P) m mod 16 = (if ord = Msb then 15 - r else r)"
    using mirror_bit_div [of 16 m] mirror_bit_mod [of 16 m] by (auto simp: place_bit_def assms(2) r_def)
  have f: "fst (grid_cell P m) = 2 * (m div 16) + byte_at e 2 ((if ord = Msb then 15 - r else r) div 8)"
    by (simp add: grid_cell_def wire_cell_words [OF assms(2)] e pl)
  have "(if ord = Msb then 15 - r else r) div 8 < 2" using r by auto
  from byte_at_less [OF this, of e] f show "fst (grid_cell P m) div 2 = m div 16" by simp
  assume "e = Le \<longleftrightarrow> ord = Lsb"
  then have "byte_at e 2 ((if ord = Msb then 15 - r else r) div 8) = r div 8"
  proof (cases "ord = Msb")
    case True
    then have "e = Be" using \<open>e = Le \<longleftrightarrow> ord = Lsb\<close> by (cases e) auto
    moreover have "1 - (15 - r) div 8 = r div 8" using r by (cases "r < 8") (auto simp: div_eq_0_iff intro!: div_nat_eqI [symmetric])
    ultimately show ?thesis using True by (simp add: byte_at_def)
  next
    case False
    then have "ord = Lsb" by (cases ord) auto
    then show ?thesis using \<open>e = Le \<longleftrightarrow> ord = Lsb\<close> by (simp add: byte_at_def)
  qed
  then show "fst (grid_cell P m) = m div 8" using f halves [of m] by (simp add: r_def)
qed

lemma ty_int_bits_le: "ty_int_bits ty \<le> 64"
  by (simp add: ty_int_bits_def)

fun body_placed :: "'a lay_grid_scheme \<Rightarrow> nat \<Rightarrow> lay_body \<Rightarrow> bool" where
  "body_placed P pos (BPacked p) = (packed_placed P pos p \<and> leaf_ok p)"
| "body_placed P pos (BNested _ n) = (8 dvd pos \<and> pos + n * 8 \<le> lg_bits P)"
| "body_placed P pos (BRepeat b n) =
     (8 dvd pos \<and> pos + body_bits b * n \<le> lg_bits P \<and> (\<forall>i < n. body_placed P (pos + i * body_bits b) b))"

lemma leaf_fits: "leaf_ok p \<Longrightarrow> packed_fits p"
  using ty_int_bits_le [of "pk_ty p"] prim_bytes_range
  by (auto simp: leaf_ok_def packed_fits_def pk_wide_def split: reading.splits)

lemma bit_item:
  assumes G: "grid_ok P" "0 < region_of (lg_grid P)" and c: "\<And>n e. lg_grid P \<noteq> CBytes n e"
    and p: "\<not> is_native p" "leaf_ok p" "pos + pk_bits p \<le> lg_bits P"
    and w: "\<And>n e ord. lg_grid P = CWords n e ord \<Longrightarrow> pos mod 16 + pk_bits p \<le> 16"
    and phys: "phys = physical (lg_grid P) (body_kind (BPacked p)) pos"
  shows "packed_placed P phys p" "set (body_cells P phys (BPacked p)) = grid_cell P ` {pos..<pos + pk_bits p}"
proof -
  have k: "kind_width (body_kind (BPacked p)) = pk_bits p" "packed_kind (body_kind (BPacked p))"
    by (simp_all add: body_kind_def kind_width_def)
  have one: "1 \<le> pk_bits p" using p(2) by (simp add: leaf_ok_def)
  have o: "orderly (lg_grid P) (body_kind (BPacked p))" using k(2)
    by (cases "body_kind (BPacked p)") (auto simp: orderly_def whole_words_def split: container.splits)
  have bits: "container_bits (lg_grid P) = lg_bits P" using G by (simp add: grid_ok_def)
  have ivl: "{phys..<phys + pk_bits p} = place_bit (lg_grid P) ` {pos..<pos + pk_bits p}"
    using physical_place [OF o G(2)] p(3) w unfolding k(1) bits phys by blast
  also have "\<dots> \<subseteq> place_bit (lg_grid P) ` {0..<lg_bits P}" using p(3) by (intro image_mono) auto
  also have "\<dots> = {0..<lg_bits P}" using place_bit_range [OF G(2)] bits by simp
  finally have "phys + (pk_bits p - 1) \<in> {0..<lg_bits P}" using one by (auto simp: subset_iff)
  then have in_range: "phys + pk_bits p \<le> lg_bits P" using one by simp
  have w': "phys mod 16 + pk_bits p \<le> 16" if "lg_grid P = CWords n e ord" for n e ord
  proof (cases "ord = Lsb")
    case True
    then show ?thesis using w [OF that] phys by (simp add: that physical_in_def)
  next
    case False
    define r where "r = pos mod 16"
    have r: "r + pk_bits p \<le> 16" using w [OF that] by (simp add: r_def)
    have "phys = 16 * (pos div 16) + (16 - (r + pk_bits p))"
    proof -
      have "pos - pos mod 16 = 16 * (pos div 16)" "pos - 16 * (pos div 16) = r"
        by (simp_all add: minus_mod_eq_mult_div r_def minus_mult_div_eq_mod)
      then show ?thesis using False k phys by (simp add: that physical_in_def Let_def)
    qed
    then have "phys mod 16 = 16 - (r + pk_bits p)" using one by simp
    then show ?thesis using r by simp
  qed
  show "packed_placed P phys p"
    using c p in_range w' leaf_fits [OF p(2)] unfolding packed_placed_def is_native_def
    by (cases "lg_grid P"; cases "pk_reading p") auto
  have "packed_cell P phys p j = wire_cell P (phys + j)" if "j < pk_bits p" for j
    using bit_leaf_cells [OF G(1) p(1) _ that] c w' by (cases "lg_grid P") blast+
  then have "packed_cell P phys p ` {0..<pk_bits p} = (\<lambda>j. wire_cell P (phys + j)) ` {0..<pk_bits p}"
    by (intro image_cong) simp_all
  also have "\<dots> = wire_cell P ` ((\<lambda>j. phys + j) ` {0..<pk_bits p})" by (simp only: image_image)
  finally have "set (body_cells P phys (BPacked p)) = wire_cell P ` ((\<lambda>j. phys + j) ` {0..<pk_bits p})" by simp
  then have "set (body_cells P phys (BPacked p)) = wire_cell P ` {phys..<phys + pk_bits p}"
    by (simp add: add.commute)
  then show "set (body_cells P phys (BPacked p)) = grid_cell P ` {pos..<pos + pk_bits p}"
    by (simp add: ivl image_image grid_cell_def)
qed

lemma bytewise_placed:
  "grid_ok P \<Longrightarrow> bytewise P b \<Longrightarrow> leaves_ok b \<Longrightarrow> byte_leaves b \<Longrightarrow> 8 dvd pos \<Longrightarrow> pos + body_bits b \<le> lg_bits P
    \<Longrightarrow> body_placed P pos b"
proof (induction b arbitrary: pos)
  case (BPacked p)
  then show ?case
    using leaf_fits [of p]
    by (auto simp: packed_placed_def is_native_def leaf_ok_def scalar_wide_def split: reading.splits container.splits)
next
  case (BRepeat b n)
  have k: "8 dvd body_bits b" using bytewise_bits [of P b] BRepeat.prems by simp
  have "body_placed P (pos + i * body_bits b) b" if "i < n" for i
  proof (rule BRepeat.IH)
    have "i * body_bits b + body_bits b \<le> n * body_bits b"
      using that mult_le_mono1 [of "Suc i" n "body_bits b"] by simp
    then show "pos + i * body_bits b + body_bits b \<le> lg_bits P" using BRepeat.prems(6) by (simp add: mult.commute)
  qed (use BRepeat.prems k in auto)
  then show ?case using BRepeat.prems(5,6) by simp
qed simp

lemma byte_item:
  assumes G: "grid_ok P" "0 < region_of (lg_grid P)" and S: "bytewise P b" "leaves_ok b" "byte_leaves b" "8 dvd pos"
    and pos: "pos + body_bits b \<le> lg_bits P"
    and c: "(\<exists>n e. lg_grid P = CBytes n e)
      \<or> (\<exists>n e ord. lg_grid P = CWords n e ord \<and> ((e = Le \<longleftrightarrow> ord = Lsb) \<or> 16 dvd pos \<and> 16 dvd body_bits b))"
  shows "body_placed P pos b" "set (body_cells P pos b) = grid_cell P ` {pos..<pos + body_bits b}"
proof -
  show "body_placed P pos b" using bytewise_placed [OF G(1)] S pos by blast
  have w: "8 dvd body_bits b" using bytewise_bits S by blast
  have in_byte: "m div 8 \<in> {pos div 8..<pos div 8 + body_bits b div 8}" if "pos \<le> m" "m < pos + body_bits b" for m
    using that S(4) w by (auto elim!: dvdE)
  have "grid_cell P ` {pos..<pos + body_bits b} = whole_cells (pos div 8) (body_bits b div 8)"
  proof (rule whole_grid [OF G pos w])
    fix m
    assume m: "pos \<le> m" "m < pos + body_bits b"
    show "fst (grid_cell P m) \<in> {pos div 8..<pos div 8 + body_bits b div 8}"
    proof (cases "lg_grid P")
      case (CBytes n e)
      then show ?thesis using in_byte [OF m] by (simp add: grid_cell_def wire_cell_def place_bit_def)
    next
      case (CWords n e ord)
      note byte = grid_byte [OF G(1) CWords, of m]
      show ?thesis
      proof (cases "e = Le \<longleftrightarrow> ord = Lsb")
        case True
        then show ?thesis using byte(2) in_byte [OF m] by simp
      next
        case False
        then obtain x y where "pos = 16 * x" "body_bits b = 16 * y" using c CWords by (auto elim!: dvdE)
        moreover from this have "x \<le> m div 16" "m div 16 < x + y" using m by auto
        moreover have "2 * x \<le> f \<and> f < 2 * x + 2 * y" if "f div 2 = d" "x \<le> d" "d < x + y" for f d :: nat
          using that by linarith
        ultimately show ?thesis using byte(1) by simp
      qed
    qed (use c in simp)
  qed
  then show "set (body_cells P pos b) = grid_cell P ` {pos..<pos + body_bits b}"
    using bytewise_cells [OF S(1,2,4)] by simp
qed

lemma peeled_inner: "snd (peeled b) \<noteq> BRepeat x n"
  by (induction b) (auto simp: Let_def split_beta)

lemma bytewise_shaped:
  assumes "shaped (lg_grid P) b" "lg_grid P = CBytes n e"
  shows "bytewise P b \<and> leaves_ok b \<and> byte_leaves b"
proof -
  have "byte_leaves b \<Longrightarrow> bytewise P b" by (induction b) (auto simp: assms(2) scalar_wide_def)
  then show ?thesis using assms by (simp add: shaped_def)
qed

lemma item_tiles:
  assumes G: "grid_ok P" "0 < region_of (lg_grid P)" and S: "shaped (lg_grid P) (li_body it)"
    and C: "check_placement (lg_grid P) it pos = Inr ()" "pos + body_bits (li_body it) \<le> lg_bits P"
      "li_phys it = physical (lg_grid P) (body_kind (li_body it)) pos"
    and B: "\<And>n e. lg_grid P = CBytes n e \<Longrightarrow> 8 dvd pos"
  shows "body_placed P (li_phys it) (li_body it)"
    and "array_regular (lg_grid P) it \<Longrightarrow> set (item_cells P it) = grid_cell P ` {pos..<pos + body_bits (li_body it)}"
proof -
  define b where "b = li_body it"
  have "body_placed P (li_phys it) b \<and> (array_regular (lg_grid P) it \<longrightarrow>
      set (body_cells P (li_phys it) b) = grid_cell P ` {pos..<pos + body_bits b})"
  proof (cases "lg_grid P")
    case (CBytes n e)
    then have "li_phys it = pos" using C(3) by simp
    then show ?thesis
      using byte_item [OF G _ _ _ B [OF CBytes], of b] bytewise_shaped [of P b, OF _ CBytes] S C(2) CBytes
      unfolding b_def by metis
  next
    case (CWord bits pre pv e ord)
    then obtain p where "b = BPacked p" "\<not> is_native p" "leaf_ok p" using S by (auto simp: shaped_def b_def split: lay_body.splits)
    then show ?thesis
      using bit_item [OF G, of p pos "li_phys it"] C CWord unfolding b_def [symmetric] by simp
  next
    case (CWords n e ord)
    show ?thesis
    proof (cases "\<exists>p. b = BPacked p")
      case True
      then obtain p where p: "b = BPacked p" "\<not> is_native p" "leaf_ok p"
        using S CWords by (auto simp: shaped_def b_def split: lay_body.splits)
      moreover have "pos mod 16 + pk_bits p \<le> 16"
        using C(1) p(1) CWords by (auto simp: check_placement_def b_def split: if_splits)
      ultimately show ?thesis
        using bit_item [OF G, of p pos "li_phys it"] C CWords unfolding b_def [symmetric] by simp
    next
      case False
      then have "\<not> packed_kind (body_kind b)"
        using peeled_inner [of b] by (cases b) (auto simp: body_kind_def Let_def split_beta split: lay_body.splits)
      then have phys: "li_phys it = pos" using C(3) CWords by (simp add: physical_in_def b_def)
      have leaves: "bytewise P b \<and> leaves_ok b \<and> byte_leaves b"
        using S CWords False by (auto simp: shaped_def b_def native_def is_native_def split: lay_body.splits)
      have align: "(case b of BPacked _ \<Rightarrow> True | body \<Rightarrow> pos mod (min 16 (element_bits body)) = 0)"
        using C(1) CWords False S leaves
        by (auto simp: check_placement_def b_def [symmetric] shaped_def native_def Let_def split: lay_body.splits if_splits)
      have whole: "16 dvd body_bits b \<and> 16 dvd pos" if "array_regular (lg_grid P) it" "\<not> (e = Le \<longleftrightarrow> ord = Lsb)"
        using that CWords align S False phys leaves
        by (auto simp: array_regular_def bytes_follow_bits_def b_def [symmetric] shaped_def mod_0_imp_dvd split: lay_body.splits)
      have "8 dvd pos"
      proof (cases b)
        case (BNested ty m)
        then obtain h where "m = 2 * h" "0 < h"
          using S CWords by (auto simp: b_def [symmetric] shaped_def elim!: evenE)
        then have "pos mod 16 = 0" using align BNested by simp
        then show ?thesis by presburger
      next
        case (BRepeat b' m)
        then have "b' = native PU16 \<or> b' = native PU8" using S CWords by (simp add: b_def [symmetric] shaped_def)
        then have "pos mod 16 = 0 \<or> pos mod 8 = 0" using align BRepeat by (auto simp: native_def)
        then show ?thesis by presburger
      qed (use False in simp)
      have "body_placed P pos b"
        using bytewise_placed [OF G(1)] leaves \<open>8 dvd pos\<close> C(2) by (simp add: b_def)
      moreover have "set (body_cells P pos b) = grid_cell P ` {pos..<pos + body_bits b}" if "array_regular (lg_grid P) it"
        using leaves \<open>8 dvd pos\<close> C(2) whole [OF that] CWords by (intro byte_item(2) [OF G]) (auto simp: b_def)
      ultimately show ?thesis by (simp add: phys)
    qed
  qed
  then show "body_placed P (li_phys it) (li_body it)"
    "array_regular (lg_grid P) it \<Longrightarrow> set (item_cells P it) = grid_cell P ` {pos..<pos + body_bits (li_body it)}"
    by (simp_all add: b_def item_cells_def)
qed

lemma items_tile:
  assumes G: "grid_ok P" "0 < region_of (lg_grid P)"
  shows "solved_from (lg_grid P) (lg_bits P) pos items stop \<Longrightarrow> \<forall>it \<in> set items. shaped (lg_grid P) (li_body it) \<Longrightarrow>
    (\<And>n e. lg_grid P = CBytes n e \<Longrightarrow> 8 dvd pos) \<Longrightarrow>
    (\<forall>it \<in> set items. body_placed P (li_phys it) (li_body it)) \<and> pos \<le> stop
    \<and> length (concat (map (item_cells P) items)) = stop - pos
    \<and> (list_all (array_regular (lg_grid P)) items \<longrightarrow> set (concat (map (item_cells P) items)) = grid_cell P ` {pos..<stop})"
proof (induction items arbitrary: pos)
  case (Cons it rest)
  define w where "w = body_bits (li_body it)"
  have s: "check_placement (lg_grid P) it pos = Inr ()" "pos + w \<le> lg_bits P"
    "li_phys it = physical (lg_grid P) (body_kind (li_body it)) pos" "solved_from (lg_grid P) (lg_bits P) (pos + w) rest stop"
    using Cons.prems(1) by (simp_all add: w_def)
  have shape: "shaped (lg_grid P) (li_body it)" using Cons.prems(2) by simp
  have nxt: "8 dvd pos + w" if "lg_grid P = CBytes n e" for n e
    using bytewise_bits [of P "li_body it"] bytewise_shaped [OF shape that] Cons.prems(3) [OF that] by (simp add: w_def)
  note one = item_tiles [OF G shape s(1) _ s(3) Cons.prems(3), folded w_def, OF s(2)]
  have rest: "(\<forall>it \<in> set rest. body_placed P (li_phys it) (li_body it)) \<and> pos + w \<le> stop
    \<and> length (concat (map (item_cells P) rest)) = stop - (pos + w)
    \<and> (list_all (array_regular (lg_grid P)) rest \<longrightarrow> set (concat (map (item_cells P) rest)) = grid_cell P ` {pos + w..<stop})"
    using Cons.prems(2) nxt by (intro Cons.IH [OF s(4)]) auto
  have "{pos..<stop} = {pos..<pos + w} \<union> {pos + w..<stop}" using rest by auto
  then have "grid_cell P ` {pos..<stop} = grid_cell P ` {pos..<pos + w} \<union> grid_cell P ` {pos + w..<stop}" by (simp add: image_Un)
  then show ?case using one rest by (simp add: item_cells_def [of P it] w_def)
qed simp

lemma wire_shift: "(\<lambda>j. wire_cell P (s + j)) ` {0..<n} = wire_cell P ` {s..<s + n}"
proof -
  have "wire_cell P ` ((\<lambda>j. s + j) ` {0..<n}) = wire_cell P ` {s..<s + n}" by (simp add: add.commute)
  then show ?thesis by (simp only: image_image)
qed

lemma prefix_tile:
  assumes "plan_ok P" "lp_prefix P \<le> lg_bits P"
  shows "set (prefix_cells P) = grid_cell P ` {0..<lp_prefix P}"
proof (cases "lg_grid P")
  case (CWord bits pre pv e ord)
  define k where "k = KScalar (ScU (lp_prefix P))"
  have G: "lg_bits P = bits" "0 < region_of (lg_grid P)" using assms(1) CWord by (auto simp: plan_ok_def grid_ok_def)
  have w: "kind_width k = lp_prefix P" by (simp add: k_def kind_width_def)
  have "orderly (lg_grid P) k" using CWord by (simp add: orderly_def whole_words_def k_def)
  then have "{prefix_physical P..<prefix_physical P + lp_prefix P} = place_bit (lg_grid P) ` {0..<0 + lp_prefix P}"
    using physical_place [of "lg_grid P" k 0] assms(2) G CWord w by (simp add: prefix_physical_def k_def)
  then have "wire_cell P ` {prefix_physical P..<prefix_physical P + lp_prefix P} = grid_cell P ` {0..<lp_prefix P}"
    by (simp add: image_image grid_cell_def)
  moreover have "set (prefix_cells P) = (\<lambda>j. wire_cell P (prefix_physical P + j)) ` {0..<lp_prefix P}"
    using CWord by (simp add: prefix_cells_def wire_cell_def G(1))
  ultimately show ?thesis by (simp add: wire_shift)
qed (use assms(1) in \<open>simp_all add: prefix_cells_def plan_ok_def\<close>)

lemma plan_ok_items:
  assumes "plan_ok P"
  shows "\<forall>it \<in> set (lp_items P). body_placed P (li_phys it) (li_body it)" "lp_prefix P \<le> lg_bits P"
    "length (concat (map (item_cells P) (lp_items P))) = lg_bits P - lp_prefix P"
    "arrays_regular P \<Longrightarrow> set (concat (map (item_cells P) (lp_items P))) = grid_cell P ` {lp_prefix P..<lg_bits P}"
proof -
  have "grid_ok P" "0 < region_of (lg_grid P)" using assms by (simp_all add: plan_ok_def)
  moreover have "8 dvd lp_prefix P" if "lg_grid P = CBytes n e" for n e using assms that by (simp add: plan_ok_def)
  moreover have "solved_from (lg_grid P) (lg_bits P) (lp_prefix P) (lp_items P) (lg_bits P)"
    "\<forall>it \<in> set (lp_items P). shaped (lg_grid P) (li_body it)" using assms unfolding plan_ok_def by blast+
  ultimately have "(\<forall>it \<in> set (lp_items P). body_placed P (li_phys it) (li_body it)) \<and> lp_prefix P \<le> lg_bits P
    \<and> length (concat (map (item_cells P) (lp_items P))) = lg_bits P - lp_prefix P
    \<and> (arrays_regular P \<longrightarrow> set (concat (map (item_cells P) (lp_items P))) = grid_cell P ` {lp_prefix P..<lg_bits P})"
    unfolding arrays_regular_def by (intro items_tile) blast+
  then show "\<forall>it \<in> set (lp_items P). body_placed P (li_phys it) (li_body it)" "lp_prefix P \<le> lg_bits P"
    "length (concat (map (item_cells P) (lp_items P))) = lg_bits P - lp_prefix P"
    "arrays_regular P \<Longrightarrow> set (concat (map (item_cells P) (lp_items P))) = grid_cell P ` {lp_prefix P..<lg_bits P}"
    by blast+
qed

lemma plan_tiles:
  assumes "plan_ok P" "arrays_regular P"
  shows "distinct (prefix_cells P @ concat (map (item_cells P) (lp_items P)))"
    and "set (prefix_cells P @ concat (map (item_cells P) (lp_items P))) = {..<lg_bytes P} \<times> {..<8}"
proof -
  have G: "grid_ok P" "0 < region_of (lg_grid P)" using assms by (simp_all add: plan_ok_def)
  note items = plan_ok_items [OF assms(1)]
  have "{..<lg_bits P} = {0..<lp_prefix P} \<union> {lp_prefix P..<lg_bits P}" using items(2) by auto
  then have "set (prefix_cells P @ concat (map (item_cells P) (lp_items P))) = grid_cell P ` {..<lg_bits P}"
    using prefix_tile [OF assms(1) items(2)] items(4) [OF assms(2)] by (simp add: image_Un)
  then show all: "set (prefix_cells P @ concat (map (item_cells P) (lp_items P))) = {..<lg_bytes P} \<times> {..<8}"
    by (simp add: grid_cell_onto [OF G])
  have "length (prefix_cells P @ concat (map (item_cells P) (lp_items P))) = 8 * lg_bytes P"
    using items(2,3) grid_ok_bits [OF G(1)] by (simp add: prefix_cells_def)
  also have "\<dots> = card (set (prefix_cells P @ concat (map (item_cells P) (lp_items P))))"
    unfolding all by (simp add: card_cartesian_product)
  finally show "distinct (prefix_cells P @ concat (map (item_cells P) (lp_items P)))" by (intro card_distinct) simp
qed

lemma plan_item_shape:
  assumes "plan_ok P" "it \<in> set (lp_items P)"
  shows "leaves_ok (li_body it)" "(\<exists>p. li_body it = BPacked p) \<or> bytewise P (li_body it)"
proof -
  have s: "shaped (lg_grid P) (li_body it)" using assms by (simp add: plan_ok_def)
  then show "leaves_ok (li_body it)" by (simp add: shaped_def)
  show "(\<exists>p. li_body it = BPacked p) \<or> bytewise P (li_body it)"
  proof (cases "lg_grid P")
    case (CBytes n e)
    then show ?thesis using bytewise_shaped [OF s] by blast
  qed (use s in \<open>auto simp: shaped_def native_def is_native_def split: lay_body.splits\<close>)
qed

section \<open>Properties\<close>

text \<open>A header of sixteen bits in big endian, most significant bit first, over a prefix of three bits.\<close>

definition u8_type :: rust_type where
  "u8_type = TyPath False [(''u8'', NoArgs)]"

definition header_keys :: layout_keys where
  "header_keys =
     \<lparr>lk_bits = Some 16, lk_bytes = None, lk_words = None, lk_prefix = Some 3, lk_prefix_value = Some 5,
      lk_endian = Some Be, lk_order = Some Msb, lk_view = False, lk_internal = False, lk_truncate = False\<rparr>"

definition header_fields :: "rust_field list" where
  "header_fields =
     [\<lparr>rf_name = ''kind'', rf_ty = u8_type, rf_attrs = [FaBits (Inr 5)]\<rparr>,
      \<lparr>rf_name = ''flag'', rf_ty = TyPath False [(''bool'', NoArgs)], rf_attrs = [FaBits (Inr 1), FaAt (Inr (stated_bit 8))]\<rparr>,
      \<lparr>rf_name = ''size'', rf_ty = TyPath False [(''U'', AngleArgs [GenConst \<lparr>ce_text = ''7'', ce_value = Some 7\<rparr>])],
       rf_attrs = []\<rparr>]"

lemma header_accepted:
  "case expand_layout ''Header'' header_keys [] header_fields of
     Inr P \<Rightarrow> arrays_regular P \<and> lg_bytes P = 2 \<and> map li_phys (lp_items P) = [8, 7, 0] | Inl _ \<Rightarrow> False"
  by code_simp

text \<open>C7: A layout that \<open>#[derive(Layout)]\<close> accepts, of less than 2^29 bytes and whose arrays are regular, tiles its
  wire bytes: the cells of its reserved prefix and of its fields, in the places the accessors use, are every bit of
  every wire byte, each exactly once, whatever the endianness and the bit order. The arrays are regular when, in a
  layout of 16-bit words, a byte array begins and ends with a word, or the bytes of a word are numbered as its bits
  are; every layout of another kind is regular. \<open>odd_byte_array_overlaps\<close> and \<open>wrapped_words_unfilled\<close> show
  accepted layouts outside these two conditions that do not tile.\<close>

theorem layout_tiles_wire:
  assumes "expand_layout name k attrs fs = Inr P" "arrays_regular P" "lg_bytes P < 2 ^ 29"
  shows "distinct (prefix_cells P @ concat (map (item_cells P) (lp_items P)))
    \<and> set (prefix_cells P @ concat (map (item_cells P) (lp_items P))) = {..<lg_bytes P} \<times> {..<8}"
  using plan_tiles [OF expand_layout_ok [OF assms(1,3)] assms(2)] by blast

theorem layout_tiles_wire_witness:
  "\<exists>P. expand_layout ''Header'' header_keys [] header_fields = Inr P
    \<and> distinct (prefix_cells P @ concat (map (item_cells P) (lp_items P)))
    \<and> set (prefix_cells P @ concat (map (item_cells P) (lp_items P))) = {..<2} \<times> {..<8}"
  using header_accepted layout_tiles_wire [of "''Header''" header_keys "[]" header_fields]
  by (auto split: sum.splits)

text \<open>Without regularity: in a 16-bit word in big endian, an array of one byte and the eight-bit field after it are
  the same wire byte, and the other byte is no field's.\<close>

definition shared_byte_keys :: layout_keys where
  "shared_byte_keys =
     \<lparr>lk_bits = None, lk_bytes = None, lk_words = Some 1, lk_prefix = None, lk_prefix_value = None,
      lk_endian = Some Be, lk_order = None, lk_view = False, lk_internal = False, lk_truncate = False\<rparr>"

definition shared_byte_fields :: "rust_field list" where
  "shared_byte_fields =
     [\<lparr>rf_name = ''raw'', rf_ty = TyArray u8_type \<lparr>ce_text = ''1'', ce_value = Some 1\<rparr>, rf_attrs = []\<rparr>,
      \<lparr>rf_name = ''low'', rf_ty = u8_type, rf_attrs = [FaBits (Inr 8)]\<rparr>]"

lemma odd_byte_array_overlaps:
  "case expand_layout ''Pair'' shared_byte_keys [] shared_byte_fields of
     Inr P \<Rightarrow> lg_bytes P = 2 \<and> map (item_cells P) (lp_items P) = [map (Pair 0) [0..<8], map (Pair 0) [0..<8]]
   | Inl _ \<Rightarrow> False"
  by code_simp

text \<open>Without the bound: the bits of \<open>words = 268435457\<close> are cast to 16, so one field of 16 bits fills the layout, whose
  wire has 536870914 bytes.\<close>

definition wrapped_keys :: layout_keys where
  "wrapped_keys = shared_byte_keys\<lparr>lk_words := Some 268435457\<rparr>"

definition wrapped_fields :: "rust_field list" where
  "wrapped_fields = [\<lparr>rf_name = ''low'', rf_ty = TyPath False [(''u16'', NoArgs)], rf_attrs = [FaBits (Inr 16)]\<rparr>]"

lemma wrapped_field:
  "collect_res words_field_of wrapped_fields
    = Inr [\<lparr>ws_name = ''low'', ws_kind = WsBits ''u16'' (WkUint 16) 16, ws_at = None, ws_overlays = [], ws_range = None\<rparr>]"
  by code_simp

lemma wrapped_words_unfilled:
  "\<exists>P. expand_layout ''Wrapped'' wrapped_keys [] wrapped_fields = Inr P \<and> lg_bytes P = 536870914
     \<and> lg_bits P = 16 \<and> map (\<lambda>it. body_bits (li_body it)) (lp_items P) = [16]"
proof -
  have "container_attr ''Wrapped'' wrapped_keys = Inr (CWords 268435457 Be Lsb)"
    by (simp add: container_attr_def wrapped_keys_def shared_byte_keys_def)
  then have "parse_layout ''Wrapped'' wrapped_keys [] wrapped_fields = Inr (DeclWords 268435457 Be Lsb
      [\<lparr>ws_name = ''low'', ws_kind = WsBits ''u16'' (WkUint 16) 16, ws_at = None, ws_overlays = [], ws_range = None\<rparr>])"
    using wrapped_field
    by (simp add: parse_layout_def declared_fields_def wrapped_fields_def wrapped_keys_def shared_byte_keys_def
        viewless_def overlays_apart_def)
  moreover have "as_u32 4294967312 = 16" by (simp add: as_u32_def)
  ultimately show ?thesis
    by (simp add: expand_layout_def plan_of_def Let_def solve_def words_item_def check_placement_def
        resolve_assertions_def item_extent_def range_of_item_def stamps_of_item_def magic_of_item_def check_of_item_def
        whole_bytes_def physical_in_def)
qed

end
