(* ===== verification/LayoutCodecs.thy ===== *)
theory LayoutCodecs
  imports LayoutTiles Checksums Errors
begin

text \<open>
  The code \<open>#[derive(Layout)]\<close> emits for a whole record (\<open>layline-derive/src/layout/emit.rs\<close>, \<open>asserts.rs\<close>,
  \<open>view.rs\<close>, and the value half of \<open>access.rs\<close>): \<open>decode\<close>, \<open>encode\<close>, their integer forms, the
  view. A panic, and an index the compiler or the run would refuse, is \<open>None\<close>; a returned error is
  \<open>Some (Inl e)\<close>. A float is its bits. The types a field names that are not primitive, its codec, a nested
  layout, a checksum, are parameters, looked up by the path they are written as.
\<close>

section \<open>Values and the types they come from\<close>

datatype 'c lay_value =
    LvUint u128
  | LvInt i64
  | LvF32 u32
  | LvF64 u64
  | LvBool bool
  | LvOther 'c
  | LvArr "'c lay_value list"

record 'c nested_layout =
  nl_decode :: "u8 list \<Rightarrow> 'c"
  nl_decode_slice :: "u8 list \<Rightarrow> parse_error + 'c"
  nl_encode :: "'c \<Rightarrow> u8 list"

record ('c, 's) lay_types =
  lt_codec :: "string \<Rightarrow> 'c field_codec"
  lt_layout :: "string \<Rightarrow> 'c nested_layout"
  lt_checksum :: "string \<Rightarrow> (u128, 's) checksum"

text \<open>A step that may panic or return early.\<close>

type_synonym 'a run = "(parse_error + 'a) option"

definition bind_run :: "'a run \<Rightarrow> ('a \<Rightarrow> 'b run) \<Rightarrow> 'b run" where
  "bind_run m f = (case m of None \<Rightarrow> None | Some (Inl e) \<Rightarrow> Some (Inl e) | Some (Inr x) \<Rightarrow> f x)"

lemma bind_run_simps [simp]:
  "bind_run None f = None" "bind_run (Some (Inl e)) f = Some (Inl e)" "bind_run (Some (Inr x)) f = f x"
  by (simp_all add: bind_run_def)

definition ok_run :: "'a option \<Rightarrow> 'a run" where
  "ok_run m = map_option Inr m"

fun each_run :: "('a \<Rightarrow> 'b run) \<Rightarrow> 'a list \<Rightarrow> 'b list run" where
  "each_run f [] = Some (Inr [])"
| "each_run f (x # xs) = bind_run (f x) (\<lambda>y. bind_run (each_run f xs) (\<lambda>ys. Some (Inr (y # ys))))"

fun all_run :: "('a \<Rightarrow> unit run) \<Rightarrow> 'a list \<Rightarrow> unit run" where
  "all_run f [] = Some (Inr ())"
| "all_run f (x # xs) = bind_run (f x) (\<lambda>_. all_run f xs)"

section \<open>One value\<close>

fun access_wide :: "access \<Rightarrow> bool" where
  "access_wide (AContainer _ wide) = wide"
| "access_wide (AWindow w) = wn_wide w"
| "access_wide _ = False"

fun register_is :: "access \<Rightarrow> nat \<Rightarrow> bool" where
  "register_is (ARegister _ _ reg) bits = (reg * 8 = bits)"
| "register_is _ bits = False"

fun u64_raw :: "access \<Rightarrow> bool" where
  "u64_raw (AContainer _ wide) = (\<not> wide)"
| "u64_raw a = register_is a 64"

text \<open>A scalar as its type reads and writes it.\<close>

definition native_value :: "prim \<Rightarrow> u128 \<Rightarrow> 'c lay_value" where
  "native_value s raw =
     (case s of
        PI8 \<Rightarrow> LvInt (signed_take_bit 7 (ucast raw)) | PI16 \<Rightarrow> LvInt (signed_take_bit 15 (ucast raw))
      | PI32 \<Rightarrow> LvInt (signed_take_bit 31 (ucast raw)) | PI64 \<Rightarrow> LvInt (ucast raw)
      | PF32 \<Rightarrow> LvF32 (ucast raw) | PF64 \<Rightarrow> LvF64 (ucast raw) | PBool \<Rightarrow> LvBool (raw \<noteq> 0)
      | _ \<Rightarrow> LvUint raw)"

definition native_raw :: "prim \<Rightarrow> 'c lay_value \<Rightarrow> u128 option" where
  "native_raw s v =
     (case v of
        LvUint x \<Rightarrow> if s \<in> {PU8, PU16, PU32, PU64} then Some (take_bit (8 * prim_bytes s) x) else None
      | LvInt x \<Rightarrow> if s \<in> {PI8, PI16, PI32, PI64} then Some (take_bit (8 * prim_bytes s) (ucast x)) else None
      | LvF32 x \<Rightarrow> if s = PF32 then Some (ucast x) else None
      | LvF64 x \<Rightarrow> if s = PF64 then Some (ucast x) else None
      | LvBool b \<Rightarrow> if s = PBool then Some (if b then 1 else 0) else None
      | _ \<Rightarrow> None)"

text \<open>\<open>sign_extend\<close>, with the cast to the field's type.\<close>

definition sign_extended :: "u128 \<Rightarrow> nat \<Rightarrow> string \<Rightarrow> i64" where
  "sign_extended raw width ty = signed_take_bit (ty_int_bits ty - 1) (sign_extend (ucast raw) width)"

definition decode_value :: "('c, 's) lay_types \<Rightarrow> packed \<Rightarrow> access \<Rightarrow> u128 \<Rightarrow> 'c lay_value" where
  "decode_value T p a raw =
     (case pk_reading p of
        RUint n \<Rightarrow> LvUint (if access_wide a \<or> register_is a n then raw else take_bit n raw)
      | RNative s \<Rightarrow> native_value s raw
      | RInt \<Rightarrow> LvInt (sign_extended raw (pk_bits p) (pk_ty p))
      | RBool \<Rightarrow> LvBool (from_raw bool_codec (ucast raw))
      | RCodec \<Rightarrow> LvOther (from_raw (lt_codec T (pk_ty p)) (ucast raw)))"

definition encode_raw :: "('c, 's) lay_types \<Rightarrow> packed \<Rightarrow> access \<Rightarrow> 'c lay_value \<Rightarrow> u128 option" where
  "encode_raw T p a v =
     (case (pk_reading p, v) of
        (RUint n, LvUint x) \<Rightarrow> Some (if access_wide a \<or> register_is a n then x else take_bit (raw_bits a) x)
      | (RNative s, _) \<Rightarrow> native_raw s v
      | (RInt, LvInt x) \<Rightarrow> Some (take_bit (raw_bits a) (scast x))
      | (RBool, LvBool b) \<Rightarrow> Some (take_bit (if u64_raw a then 64 else raw_bits a) (ucast (to_raw bool_codec b)))
      | (RCodec, LvOther c) \<Rightarrow>
          Some (take_bit (if u64_raw a then 64 else raw_bits a) (ucast (to_raw (lt_codec T (pk_ty p)) c)))
      | _ \<Rightarrow> None)"

text \<open>\<open>fits_check\<close>: whether the assertion holds.\<close>

definition fits_check :: "('c, 's) lay_types \<Rightarrow> packed \<Rightarrow> 'c lay_value \<Rightarrow> bool" where
  "fits_check T p v =
     (case (pk_reading p, v) of
        (RInt, LvInt x) \<Rightarrow>
          pk_bits p < 64 \<longrightarrow> - (2 ^ (pk_bits p - 1)) \<le> sint x \<and> sint x \<le> 2 ^ (pk_bits p - 1) - 1
      | (RCodec, LvOther c) \<Rightarrow> pk_bits p < 64 \<longrightarrow> drop_bit (pk_bits p) (to_raw (lt_codec T (pk_ty p)) c) = 0
      | (RUint n, LvUint x) \<Rightarrow>
          pk_bits p < n \<longrightarrow> drop_bit (pk_bits p) (if n > 64 then x else take_bit 64 x) = 0
      | _ \<Rightarrow> True)"

definition narrowed_packed :: "packed \<Rightarrow> bool" where
  "narrowed_packed p =
     (case pk_reading p of
        RInt \<Rightarrow> pk_bits p < 64 | RCodec \<Rightarrow> pk_bits p < 64 | RUint n \<Rightarrow> pk_bits p < n | _ \<Rightarrow> False)"

fun narrowed :: "lay_body \<Rightarrow> bool" where
  "narrowed (BPacked p) = narrowed_packed p"
| "narrowed (BNested _ _) = False"
| "narrowed (BRepeat b _) = narrowed b"

section \<open>Reading and writing a body\<close>

fun native_leaf :: "lay_body \<Rightarrow> bool" where
  "native_leaf (BPacked p) = is_native p"
| "native_leaf (BRepeat b _) = native_leaf b"
| "native_leaf (BNested _ _) = False"

definition is_byte_leaf :: "lay_body \<Rightarrow> bool" where
  "is_byte_leaf b = (case b of BPacked p \<Rightarrow> pk_reading p = RNative PU8 | _ \<Rightarrow> False)"

text \<open>\<open>read_run\<close>: a scalar array at a byte offset, one slice for bytes and a loop otherwise.\<close>

fun read_run :: "endian \<Rightarrow> u8 list \<Rightarrow> lay_body \<Rightarrow> nat \<Rightarrow> 'c lay_value option" where
  "read_run e buf (BPacked p) off =
     (case pk_reading p of RNative s \<Rightarrow> map_option (native_value s) (scalar_read e s off buf) | _ \<Rightarrow> None)"
| "read_run e buf (BRepeat b n) off =
     (if is_byte_leaf b
      then if length buf < off + n then None else Some (LvArr (map (\<lambda>x. LvUint (ucast x)) (take n (drop off buf))))
      else map_option LvArr (those (map (\<lambda>i. read_run e buf b (off + i * (body_bits b div 8))) [0..<n])))"
| "read_run e buf (BNested _ _) off = None"

fun read_body :: "('c, 's) lay_types \<Rightarrow> lay_plan \<Rightarrow> bool \<Rightarrow> u128 \<Rightarrow> u8 list \<Rightarrow> nat \<Rightarrow> lay_body \<Rightarrow> 'c lay_value run" where
  "read_body T P loaded raw buf pos (BPacked p) =
     ok_run (Option.bind (access_of P loaded pos p) (\<lambda>a. map_option (decode_value T p a) (load P raw buf a)))"
| "read_body T P loaded raw buf pos (BNested ty n) =
     (let a = pos div 8; L = lt_layout T ty
      in if length buf < a + n then None
         else let sub = take n (drop a buf)
              in if lp_internal P
                 then Some (case nl_decode_slice L sub of Inl err \<Rightarrow> Inl (rebased err a) | Inr v \<Rightarrow> Inr (LvOther v))
                 else Some (Inr (LvOther (nl_decode L sub))))"
| "read_body T P loaded raw buf pos (BRepeat b n) =
     (if native_leaf b then ok_run (read_run (lg_endian P) buf (BRepeat b n) (pos div 8))
      else bind_run (each_run (\<lambda>i. read_body T P loaded raw buf (pos + i * body_bits b) b) [0..<n]) (\<lambda>vs. Some (Inr (LvArr vs))))"

fun write_each :: "(nat \<Rightarrow> 'a \<Rightarrow> 'b \<Rightarrow> 'b option) \<Rightarrow> nat \<Rightarrow> 'a list \<Rightarrow> 'b \<Rightarrow> 'b option" where
  "write_each f i [] st = Some st"
| "write_each f i (v # vs) st = Option.bind (f i v st) (write_each f (Suc i) vs)"

definition uint_byte :: "'c lay_value \<Rightarrow> u8 option" where
  "uint_byte v = (case v of LvUint x \<Rightarrow> Some (ucast x) | _ \<Rightarrow> None)"

fun write_run :: "endian \<Rightarrow> lay_body \<Rightarrow> nat \<Rightarrow> 'c lay_value \<Rightarrow> u8 list \<Rightarrow> u8 list option" where
  "write_run e (BPacked p) off v buf =
     (case pk_reading p of
        RNative s \<Rightarrow> Option.bind (native_raw s v) (scalar_write e s off buf)
      | _ \<Rightarrow> None)"
| "write_run e (BRepeat b n) off v buf =
     (case v of
        LvArr vs \<Rightarrow>
          if length vs \<noteq> n then None
          else if is_byte_leaf b then Option.bind (those (map uint_byte vs)) (put buf off)
          else write_each (\<lambda>i x. write_run e b (off + i * (body_bits b div 8)) x) 0 vs buf
      | _ \<Rightarrow> None)"
| "write_run e (BNested _ _) off v buf = None"

text \<open>The state is the register \<open>__bits\<close> of a loaded layout, and the bytes of any other.\<close>

fun write_body ::
    "('c, 's) lay_types \<Rightarrow> lay_plan \<Rightarrow> bool \<Rightarrow> bool \<Rightarrow> nat \<Rightarrow> lay_body \<Rightarrow> 'c lay_value \<Rightarrow> u128 \<times> u8 list \<Rightarrow> (u128 \<times> u8 list) option" where
  "write_body T P loaded guard pos (BPacked p) v st =
     Option.bind (access_of P loaded pos p) (\<lambda>a. Option.bind (encode_raw T p a v) (\<lambda>raw.
       if guard \<and> \<not> fits_check T p v then None else store P a raw st))"
| "write_body T P loaded guard pos (BNested ty n) v st =
     (case v of
        LvOther c \<Rightarrow> map_option (Pair (fst st)) (put (snd st) (pos div 8) (nl_encode (lt_layout T ty) c))
      | _ \<Rightarrow> None)"
| "write_body T P loaded guard pos (BRepeat b n) v st =
     (if native_leaf b then map_option (Pair (fst st)) (write_run (lg_endian P) (BRepeat b n) (pos div 8) v (snd st))
      else case v of
        LvArr vs \<Rightarrow>
          if length vs \<noteq> n then None
          else write_each (\<lambda>i x. write_body T P loaded guard (pos + i * body_bits b) b x) 0 vs st
      | _ \<Rightarrow> None)"

section \<open>Checks and stamps\<close>

text \<open>\<open>WireInt::to_i64\<close> of a field: \<open>prim\<close> names its type when it is a whole scalar, and only a \<open>u64\<close> saturates.\<close>

definition value_i64 :: "'c lay_value \<Rightarrow> i64 option" where
  "value_i64 v =
     (case v of LvUint x \<Rightarrow> Some (to_i64 wi_u64 (ucast x)) | LvInt x \<Rightarrow> Some x | _ \<Rightarrow> None)"

fun item_named :: "lay_item list \<Rightarrow> string \<Rightarrow> lay_item option" where
  "item_named [] name = None"
| "item_named (it # rest) name = (if li_name it = name then Some it else item_named rest name)"

definition field_i64 ::
    "('c, 's) lay_types \<Rightarrow> lay_plan \<Rightarrow> bool \<Rightarrow> u128 \<Rightarrow> u8 list \<Rightarrow> string \<Rightarrow> i64 run" where
  "field_i64 T P loaded raw buf name =
     (case item_named (lp_items P) name of
        None \<Rightarrow> None
      | Some it \<Rightarrow> bind_run (read_body T P loaded raw buf (li_phys it) (li_body it)) (\<lambda>v. ok_run (value_i64 v)))"

definition magic_check :: "u8 list \<Rightarrow> magic_at \<Rightarrow> unit run" where
  "magic_check buf m =
     (if length buf < ma_at m + length (ma_bytes m) then None
      else if take (length (ma_bytes m)) (drop (ma_at m) buf) \<noteq> ma_bytes m
      then Some (Inl (Magic (ma_field m) (ma_bytes m) (ma_at m)))
      else Some (Inr ()))"

definition flag_check :: "u8 list \<Rightarrow> string \<times> nat \<Rightarrow> unit run" where
  "flag_check buf f =
     (case f of (name, pos) \<Rightarrow>
        if length buf \<le> pos then None
        else if 1 < buf ! pos then Some (Inl (Malformed name pos))
        else Some (Inr ()))"

definition in_range :: "range_at \<Rightarrow> i64 \<Rightarrow> bool" where
  "in_range r n \<longleftrightarrow> ra_lo r \<le> sint n \<and> sint n \<le> ra_hi r"

definition range_check :: "('c, 's) lay_types \<Rightarrow> lay_plan \<Rightarrow> u128 \<Rightarrow> u8 list \<Rightarrow> range_at \<Rightarrow> unit run" where
  "range_check T P raw buf r =
     bind_run (field_i64 T P True raw buf (ra_field r)) (\<lambda>got.
       if \<not> in_range r got
       then Some (Inl (OutOfRange (ra_field r) got (word_of_int (ra_lo r)) (word_of_int (ra_hi r))))
       else Some (Inr ()))"

definition fold_over :: "('o, 's) checksum \<Rightarrow> (nat \<times> nat) list \<Rightarrow> u8 list \<Rightarrow> 'o option" where
  "fold_over C rs buf =
     (if list_ex (\<lambda>(a, b). b < a \<or> length buf < b) rs then None
      else let slices = map (\<lambda>(a, b). take (b - a) (drop a buf)) rs
           in case slices of
                [one] \<Rightarrow> compute C one
              | many \<Rightarrow> map_option (\<lambda>s. ck_finish C (foldl (ck_update C) s many)) (ck_init C))"

text \<open>The type of a checksum field is one integer scalar, whose bits are the value the algorithm gives.\<close>

definition check_scalar :: "lay_plan \<Rightarrow> check_at \<Rightarrow> prim option" where
  "check_scalar P c =
     Option.bind (item_named (lp_items P) (ca_field c)) (\<lambda>it.
       case li_body it of
         BPacked p \<Rightarrow> (case pk_reading p of RNative s \<Rightarrow> Some s | _ \<Rightarrow> None)
       | _ \<Rightarrow> None)"

definition check_output :: "('c, 's) lay_types \<Rightarrow> lay_plan \<Rightarrow> check_at \<Rightarrow> u8 list \<Rightarrow> u128 option" where
  "check_output T P c buf = fold_over (lt_checksum T (ca_algorithm c)) (ca_runs c) buf"

definition check_verify :: "('c, 's) lay_types \<Rightarrow> lay_plan \<Rightarrow> bool \<Rightarrow> u128 \<Rightarrow> u8 list \<Rightarrow> check_at \<Rightarrow> unit run" where
  "check_verify T P loaded raw buf c =
     bind_run
       (ok_run (Option.bind (check_scalar P c) (\<lambda>s. Option.bind (check_output T P c buf) (\<lambda>v.
          value_i64 (native_value s v :: 'c lay_value))))) (\<lambda>want.
     bind_run (field_i64 T P loaded raw buf (ca_field c)) (\<lambda>got.
       if want \<noteq> got then Some (Inl (Checksum (ca_field c) want got)) else Some (Inr ())))"

definition prefix_window :: "lay_plan \<Rightarrow> window" where
  "prefix_window P =
     (let pos = prefix_physical P; (c0, span) = container_window pos (lp_prefix P)
      in \<lparr>wn_offset = wire_offset P c0 span, wn_len = span, wn_reg = next_pow2 span, wn_shift = pos mod 8,
          wn_mask = mask128 (lp_prefix P), wn_wide = False, wn_tail = None\<rparr>)"

text \<open>The mask \<open>(1u64 << prefix) - 1\<close> is computed by the macro, which overflows for 64 bits or more.\<close>

definition prefix_mask :: "nat \<Rightarrow> u64 option" where
  "prefix_mask prefix = (if prefix < 64 then Some (push_bit prefix 1 - 1) else None)"

definition prefix_check :: "lay_plan \<Rightarrow> bool \<Rightarrow> u128 \<Rightarrow> u8 list \<Rightarrow> unit run" where
  "prefix_check P loaded raw buf =
     (case lp_prefix_value P of
        None \<Rightarrow> Some (Inr ())
      | Some v \<Rightarrow>
          bind_run
            (ok_run (Option.bind (prefix_mask (lp_prefix P)) (\<lambda>m.
               if loaded then Some (ucast (drop_bit (prefix_physical P) raw) AND m)
               else let w = prefix_window P
                    in map_option (\<lambda>x. ucast (drop_bit (wn_shift w) x) AND m)
                         (window_bytes (lg_endian P) (wn_offset w) (wn_len w) (wn_reg w) buf)))) (\<lambda>got.
          let expected = (of_nat v :: u64)
          in if got \<noteq> expected then Some (Inl (Prefix expected got)) else Some (Inr ())))"

section \<open>Decode\<close>

definition asserting :: "lay_plan \<Rightarrow> bool" where
  "asserting P \<longleftrightarrow> asserts_any (lp_asserts P) \<or> lp_internal P \<or> lp_prefix_value P \<noteq> None"

definition read_items :: "('c, 's) lay_types \<Rightarrow> lay_plan \<Rightarrow> bool \<Rightarrow> u128 \<Rightarrow> u8 list \<Rightarrow> 'c lay_value list run" where
  "read_items T P loaded raw buf =
     each_run (\<lambda>it. read_body T P loaded raw buf (li_phys it) (li_body it)) (lp_items P)"

definition decode_checked :: "('c, 's) lay_types \<Rightarrow> lay_plan \<Rightarrow> u128 \<Rightarrow> u8 list \<Rightarrow> 'c lay_value list run" where
  "decode_checked T P raw buf =
     (let A = lp_asserts P
      in if \<not> asserts_any A \<and> lp_prefix_value P = None then read_items T P True raw buf
         else bind_run (all_run (magic_check buf) (as_magic A)) (\<lambda>_.
              bind_run (prefix_check P (hoisted P) raw buf) (\<lambda>_.
              bind_run (all_run (flag_check buf) (as_flags A)) (\<lambda>_.
              bind_run (all_run (range_check T P raw buf) (as_range A)) (\<lambda>_.
              bind_run (all_run (check_verify T P True raw buf) (as_check A)) (\<lambda>_.
              read_items T P True raw buf))))))"

text \<open>\<open>word_ty\<close>: a layout of exactly a native register decodes from, and encodes to, that integer.\<close>

definition word_ty :: "lay_plan \<Rightarrow> nat option" where
  "word_ty P = (case register P of Some reg \<Rightarrow> if reg = lg_bytes P then Some reg else None | None \<Rightarrow> None)"

definition lay_from_bits :: "('c, 's) lay_types \<Rightarrow> lay_plan \<Rightarrow> u128 \<Rightarrow> 'c lay_value list run" where
  "lay_from_bits T P bits = decode_checked T P bits []"

definition lay_decode :: "('c, 's) lay_types \<Rightarrow> lay_plan \<Rightarrow> u8 list \<Rightarrow> 'c lay_value list run" where
  "lay_decode T P wire =
     (if length wire \<noteq> lg_bytes P then None
      else case word_ty P of
        Some reg \<Rightarrow> lay_from_bits T P (from_bytes (lg_endian P) wire)
      | None \<Rightarrow> (case load_raw P wire of None \<Rightarrow> None | Some raw \<Rightarrow> decode_checked T P raw wire))"

definition lay_decode_slice :: "('c, 's) lay_types \<Rightarrow> lay_plan \<Rightarrow> u8 list \<Rightarrow> 'c lay_value list run" where
  "lay_decode_slice T P bytes =
     (if length bytes = lg_bytes P then lay_decode T P bytes
      else Some (Inl (Short (lg_bytes P) (length bytes) 0)))"

section \<open>Encode\<close>

definition range_guard :: "lay_plan \<Rightarrow> 'c lay_value list \<Rightarrow> range_at \<Rightarrow> bool" where
  "range_guard P vs r =
     (case index_where (\<lambda>it. li_name it = ra_field r) (lp_items P) of
        None \<Rightarrow> False
      | Some i \<Rightarrow> i < length vs \<and> (case value_i64 (vs ! i) of Some n \<Rightarrow> in_range r n | None \<Rightarrow> False))"

definition write_items ::
    "('c, 's) lay_types \<Rightarrow> lay_plan \<Rightarrow> 'c lay_value list \<Rightarrow> u128 \<times> u8 list \<Rightarrow> (u128 \<times> u8 list) option" where
  "write_items T P vs st =
     (if length vs \<noteq> length (lp_items P) then None
      else write_each (\<lambda>i v. write_body T P True (\<not> lp_truncate P) (li_phys (lp_items P ! i)) (li_body (lp_items P ! i)) v) 0 vs st)"

text \<open>The register or the \<open>u128\<close> a loaded layout starts from: zero with the prefix.\<close>

definition prefix_bits :: "lay_plan \<Rightarrow> u128" where
  "prefix_bits P =
     (case lp_prefix_value P of
        None \<Rightarrow> 0
      | Some v \<Rightarrow>
          (case register P of
             Some reg \<Rightarrow> reg_mask reg (push_bit (prefix_physical P) (reg_mask reg (of_nat v)))
           | None \<Rightarrow> push_bit (prefix_physical P) (of_nat v)))"

definition encode_bits :: "('c, 's) lay_types \<Rightarrow> lay_plan \<Rightarrow> 'c lay_value list \<Rightarrow> u128 option" where
  "encode_bits T P vs =
     (if \<not> list_all (range_guard P vs) (as_range (lp_asserts P)) then None
      else map_option fst (write_items T P vs (prefix_bits P, [])))"

definition magic_write :: "magic_at \<Rightarrow> u8 list \<Rightarrow> u8 list option" where
  "magic_write m buf = put buf (ma_at m) (ma_bytes m)"

definition checksum_clear :: "check_at \<Rightarrow> u8 list \<Rightarrow> u8 list option" where
  "checksum_clear c buf = put buf (ca_at c) (replicate (ca_width c) 0)"

definition checksum_write :: "('c, 's) lay_types \<Rightarrow> lay_plan \<Rightarrow> check_at \<Rightarrow> u8 list \<Rightarrow> u8 list option" where
  "checksum_write T P c buf =
     Option.bind (check_output T P c buf) (\<lambda>v. put buf (ca_at c) (to_bytes (lg_endian P) (ca_width c) v))"

fun then_all :: "('a \<Rightarrow> 'b \<Rightarrow> 'b option) \<Rightarrow> 'a list \<Rightarrow> 'b \<Rightarrow> 'b option" where
  "then_all f [] st = Some st"
| "then_all f (x # xs) st = Option.bind (f x st) (then_all f xs)"

definition prefix_write :: "lay_plan \<Rightarrow> u8 list \<Rightarrow> u8 list option" where
  "prefix_write P buf =
     (case lp_prefix_value P of
        None \<Rightarrow> Some buf
      | Some v \<Rightarrow>
          (let w = prefix_window P
           in map_option snd (store P (AWindow w) (reg_mask (wn_reg w) (of_nat v)) (0, buf))))"

definition stamp :: "('c, 's) lay_types \<Rightarrow> lay_plan \<Rightarrow> u8 list \<Rightarrow> u8 list option" where
  "stamp T P buf =
     Option.bind (prefix_write P buf) (\<lambda>b.
     Option.bind (then_all magic_write (as_magic (lp_asserts P)) b) (\<lambda>b.
     Option.bind (then_all checksum_clear (as_check (lp_asserts P)) b) (\<lambda>b.
     then_all (checksum_write T P) (as_check (lp_asserts P)) b)))"

definition lay_encode :: "('c, 's) lay_types \<Rightarrow> lay_plan \<Rightarrow> 'c lay_value list \<Rightarrow> u8 list option" where
  "lay_encode T P vs =
     (case register P of
        Some reg \<Rightarrow> map_option (register_store P reg) (encode_bits T P vs)
      | None \<Rightarrow>
          if hoisted P
          then Option.bind (encode_bits T P vs) (\<lambda>bits.
               map_option (\<lambda>w. case lg_endian P of Le \<Rightarrow> to_wire (lg_bytes P) w | Be \<Rightarrow> to_wire_be (lg_bytes P) w)
                 (set_raw (lg_bits P) (lg_bytes P) bits))
          else if \<not> list_all (range_guard P vs) (as_range (lp_asserts P)) then None
          else Option.bind (map_option snd (write_items T P vs (0, replicate (lg_bytes P) 0))) (stamp T P))"

section \<open>Views\<close>

definition view_get :: "('c, 's) lay_types \<Rightarrow> lay_plan \<Rightarrow> u8 list \<Rightarrow> lay_item \<Rightarrow> 'c lay_value run" where
  "view_get T P buf it = read_body T P False 0 buf (li_phys it) (li_body it)"

definition view_set :: "('c, 's) lay_types \<Rightarrow> lay_plan \<Rightarrow> lay_item \<Rightarrow> 'c lay_value \<Rightarrow> u8 list \<Rightarrow> u8 list option" where
  "view_set T P it v buf = map_option snd (write_body T P False False (li_phys it) (li_body it) v (0, buf))"

definition view_verify :: "('c, 's) lay_types \<Rightarrow> lay_plan \<Rightarrow> u8 list \<Rightarrow> unit run" where
  "view_verify T P buf =
     bind_run (all_run (magic_check buf) (as_magic (lp_asserts P))) (\<lambda>_.
     bind_run (prefix_check P False 0 buf) (\<lambda>_.
     all_run (check_verify T P False 0 buf) (as_check (lp_asserts P))))"

definition view_decode :: "('c, 's) lay_types \<Rightarrow> lay_plan \<Rightarrow> u8 list \<Rightarrow> 'c lay_value list run" where
  "view_decode T P buf = (if asserting P then read_items T P False 0 buf else lay_decode T P buf)"

definition view_checked :: "('c, 's) lay_types \<Rightarrow> lay_plan \<Rightarrow> u8 list \<Rightarrow> u8 list run" where
  "view_checked T P wire = bind_run (view_verify T P wire) (\<lambda>_. Some (Inr wire))"

definition view_seal :: "('c, 's) lay_types \<Rightarrow> lay_plan \<Rightarrow> u8 list \<Rightarrow> u8 list option" where
  "view_seal T P buf =
     (if asserts_stamped (lp_asserts P) \<or> lp_prefix_value P \<noteq> None then stamp T P buf else None)"

definition view_from_slice :: "lay_plan \<Rightarrow> u8 list \<Rightarrow> u8 list option" where
  "view_from_slice P bytes = (if length bytes = lg_bytes P then Some bytes else None)"

end
