(* ===== verification/LayoutRoundTrip.thy ===== *)
theory LayoutRoundTrip
  imports LayoutCodecs
begin

text \<open>
  What \<open>encode\<close> writes, \<open>decode\<close> reads (\<open>layline-derive/src/layout/emit.rs\<close>, \<open>asserts.rs\<close>, \<open>access.rs\<close>). The wire
  \<open>holds\<close> a value at a field when the field's cells carry its bits; a write makes the wire hold the value and leaves
  every other cell, a read gives the value the wire holds, and the tiling keeps the fields out of each other's way.
\<close>

section \<open>One value\<close>

text \<open>The bits of a value, of which the field takes the low ones.\<close>

definition leaf_raw :: "('c, 's) lay_types \<Rightarrow> packed \<Rightarrow> 'c lay_value \<Rightarrow> u128 option" where
  "leaf_raw T p v =
     (case (pk_reading p, v) of
        (RUint n, LvUint x) \<Rightarrow> Some x
      | (RNative s, _) \<Rightarrow> native_raw s v
      | (RInt, LvInt x) \<Rightarrow> Some (scast x)
      | (RBool, LvBool b) \<Rightarrow> Some (ucast (to_raw bool_codec b))
      | (RCodec, LvOther c) \<Rightarrow> Some (ucast (to_raw (lt_codec T (pk_ty p)) c))
      | _ \<Rightarrow> None)"

definition native_value_ok :: "prim \<Rightarrow> 'c lay_value \<Rightarrow> bool" where
  "native_value_ok s v =
     (case v of
        LvUint x \<Rightarrow> s \<in> {PU8, PU16, PU32, PU64} \<and> take_bit (8 * prim_bytes s) x = x
      | LvInt x \<Rightarrow> s \<in> {PI8, PI16, PI32, PI64} \<and> i_valid (8 * prim_bytes s) x
      | LvF32 _ \<Rightarrow> s = PF32
      | LvF64 _ \<Rightarrow> s = PF64
      | LvBool _ \<Rightarrow> s = PBool
      | _ \<Rightarrow> False)"

text \<open>A value of the field's type that its width holds.\<close>

definition leaf_value_ok :: "('c, 's) lay_types \<Rightarrow> packed \<Rightarrow> 'c lay_value \<Rightarrow> bool" where
  "leaf_value_ok T p v =
     (case (pk_reading p, v) of
        (RUint n, LvUint x) \<Rightarrow> take_bit (pk_bits p) x = x
      | (RNative s, _) \<Rightarrow> native_value_ok s v
      | (RInt, LvInt x) \<Rightarrow> i_valid (pk_bits p) x
      | (RBool, LvBool b) \<Rightarrow> True
      | (RCodec, LvOther c) \<Rightarrow>
          (let C = lt_codec T (pk_ty p)
           in take_bit (pk_bits p) (to_raw C c) = to_raw C c \<and> from_raw C (to_raw C c) = c)
      | _ \<Rightarrow> False)"

lemma leaf_value_raw: "leaf_value_ok T p v \<Longrightarrow> \<exists>raw. leaf_raw T p v = Some raw"
  by (auto simp: leaf_value_ok_def leaf_raw_def native_value_ok_def native_raw_def
      split: reading.splits lay_value.splits prim.splits)

lemma i_valid_bits:
  assumes "1 \<le> n" "n \<le> 64" "i_valid n x"
  shows "signed_take_bit (n - 1) x = x" "sign_extend x n = x"
proof -
  show s: "sign_extend x n = x" using assms by (simp add: i_valid_iff)
  show "signed_take_bit (n - 1) x = x"
  proof (rule bit_word_eqI)
    fix k
    assume "k < LENGTH(64)"
    then have "bit (sign_extend x n) k \<longleftrightarrow> bit x (if k < n then k else n - 1)"
      using bit_sign_extend [OF assms(1,2)] by simp
    moreover have "(if k < n then k else n - 1) = min k (n - 1)" using assms(1) by auto
    ultimately have "bit x k \<longleftrightarrow> bit x (min k (n - 1))" unfolding s by (simp only:)
    with \<open>k < LENGTH(64)\<close> show "bit (signed_take_bit (n - 1) x) k \<longleftrightarrow> bit x k"
      by (simp add: bit_signed_take_bit_iff min.commute)
  qed
qed

lemma sign_extended_valid:
  assumes "1 \<le> width" "width \<le> ty_int_bits ty" "i_valid width x"
  shows "sign_extended (take_bit width (scast x)) width ty = x"
proof -
  have w: "width \<le> 64" "ty_int_bits ty \<le> 64" using assms ty_int_bits_le [of ty] by linarith+
  have "ucast (take_bit width (scast x) :: u128) = take_bit width x"
  proof (rule bit_word_eqI)
    fix k
    assume "k < LENGTH(64)"
    then have "min 63 k = k" by simp
    then show "bit (ucast (take_bit width (scast x) :: u128) :: i64) k \<longleftrightarrow> bit (take_bit width x) k"
      using \<open>k < LENGTH(64)\<close> by (auto simp: bit_ucast_iff bit_take_bit_iff bit_signed_iff)
  qed
  then have "sign_extend (ucast (take_bit width (scast x) :: u128)) width = x"
    using sign_extend_take_bit [OF assms(1) w(1), of x] i_valid_bits [OF assms(1) w(1) assms(3)] by simp
  moreover have "i_valid (ty_int_bits ty) x"
  proof -
    have "(2 :: int) ^ (width - 1) \<le> 2 ^ (ty_int_bits ty - 1)" using assms(2) by (intro power_increasing) auto
    moreover have "1 \<le> ty_int_bits ty" using assms(1,2) by linarith
    ultimately show ?thesis
      using assms(3) unfolding i_valid_range [OF assms(1)] i_valid_range [OF \<open>1 \<le> ty_int_bits ty\<close>] by linarith
  qed
  ultimately show ?thesis
    using i_valid_bits(1) [of "ty_int_bits ty" x] assms(1,2) w(2) by (simp add: sign_extended_def)
qed

lemma native_back:
  assumes "native_value_ok s v" "native_raw s v = Some raw"
  shows "native_value s (take_bit (8 * prim_bytes s) raw) = v"
proof (cases v)
  case (LvInt x)
  have u: "ucast (take_bit n (ucast x :: u128)) = take_bit n x" if "n \<le> 64" for n
    by (rule bit_word_eqI) (use that in \<open>auto simp: bit_ucast_iff bit_take_bit_iff\<close>)
  have st: "signed_take_bit m (take_bit (Suc m) x) = signed_take_bit m x" for m
    by (rule bit_word_eqI) (auto simp: bit_signed_take_bit_iff bit_take_bit_iff min_def)
  show ?thesis
    using assms i_valid_bits(1) [of "8 * prim_bytes s" x] LvInt u st [of 7] st [of 15] st [of 31] take_bit_word_eq_self [of 64 x]
    by (cases s) (auto simp: native_value_ok_def native_raw_def native_value_def)
next
  case (LvF32 x)
  then have "ucast (take_bit 32 (ucast x :: u128)) = x"
    by (intro bit_word_eqI) (auto simp: bit_ucast_iff bit_take_bit_iff)
  then show ?thesis using assms LvF32 by (cases s) (auto simp: native_value_ok_def native_raw_def native_value_def)
next
  case (LvF64 x)
  then have "ucast (take_bit 64 (ucast x :: u128)) = x"
    by (intro bit_word_eqI) (auto simp: bit_ucast_iff bit_take_bit_iff)
  then show ?thesis using assms LvF64 by (cases s) (auto simp: native_value_ok_def native_raw_def native_value_def)
next
  case (LvUint x)
  then have s: "s \<in> {PU8, PU16, PU32, PU64}" "take_bit (8 * prim_bytes s) x = x" using assms(1) by (simp_all add: native_value_ok_def)
  then have "raw = x" using assms(2) LvUint by (simp add: native_raw_def)
  then show ?thesis using s LvUint by (elim insertE) (simp_all add: native_value_def)
next
  case (LvBool b)
  then show ?thesis using assms by (cases b) (auto simp: native_value_ok_def native_raw_def native_value_def)
qed (use assms in \<open>simp_all add: native_value_ok_def\<close>)

lemma leaf_back:
  assumes "leaf_ok p" "leaf_value_ok T p v" "leaf_raw T p v = Some raw"
  shows "decode_value T p a (take_bit (pk_bits p) raw) = v"
proof (cases "pk_reading p")
  case (RUint n)
  then show ?thesis
    using assms by (auto simp: leaf_ok_def leaf_value_ok_def leaf_raw_def decode_value_def min_def split: lay_value.splits)
next
  case RInt
  then obtain x where "v = LvInt x" using assms(2) by (auto simp: leaf_value_ok_def split: lay_value.splits)
  then show ?thesis
    using assms RInt sign_extended_valid [of "pk_bits p" "pk_ty p" x]
    by (simp add: leaf_ok_def leaf_value_ok_def leaf_raw_def decode_value_def)
next
  case RBool
  then obtain b where "v = LvBool b" using assms(2) by (auto simp: leaf_value_ok_def split: lay_value.splits)
  then show ?thesis
    using assms RBool by (cases b) (auto simp: leaf_ok_def leaf_raw_def decode_value_def bool_codec_def)
next
  case RCodec
  then obtain c where c: "v = LvOther c" using assms(2) by (auto simp: leaf_value_ok_def split: lay_value.splits)
  define r where "r = to_raw (lt_codec T (pk_ty p)) c"
  have "ucast (take_bit (pk_bits p) (ucast r :: u128)) = take_bit (pk_bits p) r"
    by (rule bit_word_eqI) (auto simp: bit_ucast_iff bit_take_bit_iff)
  then show ?thesis
    using assms RCodec c by (simp add: leaf_value_ok_def leaf_raw_def decode_value_def Let_def r_def)
next
  case (RNative s)
  then show ?thesis
    using assms native_back by (simp add: leaf_ok_def leaf_value_ok_def leaf_raw_def decode_value_def)
qed

lemma raw_bits_enough:
  assumes "grid_ok P" "packed_placed P pos p" "\<not> is_native p" "access_of P loaded pos p = Some a"
  shows "pk_bits p \<le> raw_bits a"
proof -
  have fits: "1 \<le> pk_bits p" "pk_bits p \<le> 128" "\<not> pk_wide p \<Longrightarrow> pk_bits p \<le> 64" "pos + pk_bits p \<le> lg_bits P"
    using assms(2) by (auto simp: packed_placed_def packed_fits_def split: if_splits)
  note other = assms(3) [unfolded is_native_def]
  consider (words) n e ord where "lg_grid P = CWords n e ord" | (bytes) n e where "lg_grid P = CBytes n e"
    | (word) b p' pv e ord where "lg_grid P = CWord b p' pv e ord" by (cases "lg_grid P") auto
  then show ?thesis
  proof cases
    case words
    then have "pk_bits p \<le> 16" using assms(2) other by (auto simp: packed_placed_def split: reading.splits)
    moreover have "raw_bits a = 16"
      using assms(4) words other by (auto simp: access_of_def uint_scalar_simps split: reading.splits)
    ultimately show ?thesis by simp
  next
    case bytes
    then have "pk_bits p \<in> {8, 16, 32, 64}" using assms(2) other by (auto simp: packed_placed_def split: reading.splits)
    then show ?thesis
      using assms(4) bytes other uint_scalar_simps(2) [of "pk_bits p"] by (auto simp: access_of_def split: reading.splits)
  next
    case word
    show ?thesis
    proof (cases "hoisted P \<and> loaded")
      case True
      have "a = AContainer \<lparr>ext_start = pos, ext_width = pk_bits p\<rparr> (pk_wide p) \<or>
          (\<exists>reg. register P = Some reg \<and> a = ARegister pos (pk_bits p) reg)"
        using True assms(4) word other by (auto simp: access_of_def split: reading.splits option.splits)
      moreover have "lg_bits P \<le> 8 * reg" if "register P = Some reg" for reg
      proof -
        have b: "lg_bits P = 8 * lg_bytes P" using assms(1) by (simp add: grid_ok_def)
        have "reg = next_pow2 (lg_bytes P)" "lg_bits P \<le> 64" using that by (auto simp: register_def split: if_splits)
        moreover have "1 \<le> lg_bytes P" "lg_bytes P \<le> 16" using fits b \<open>lg_bits P \<le> 64\<close> by auto
        ultimately show ?thesis using next_pow2_bounds [of "lg_bytes P"] b by simp
      qed
      ultimately show ?thesis using fits by fastforce
    next
      case False
      then have "map_option AWindow (window_of P pos p) = Some a"
        using assms(4) word other by (auto simp: access_of_def split: reading.splits)
      then obtain w where w: "window_of P pos p = Some w" "a = AWindow w" by auto
      obtain span where span: "container_window pos (pk_bits p) = (pos div 8, span)" "1 \<le> span"
          "pos mod 8 + pk_bits p \<le> 8 * span"
        using window_placed [OF fits(1), of pos] by auto
      have "pk_bits p \<le> 8 * wn_reg w"
        using w(1) fits(2) next_pow2_bounds [of span] span
        by (auto simp: window_of_def Let_def split: if_splits)
      then show ?thesis by (simp add: w(2))
    qed
  qed
qed

lemma encode_leaf:
  assumes "grid_ok P" "packed_placed P pos p" "access_of P loaded pos p = Some a" "leaf_ok p" "leaf_raw T p v = Some raw"
  shows "\<exists>r. encode_raw T p a v = Some r \<and> (\<forall>j < pk_bits p. bit r j = bit raw j)"
proof (cases "is_native p")
  case True
  then show ?thesis using assms(5) by (auto simp: is_native_def encode_raw_def leaf_raw_def split: reading.splits)
next
  case False
  have enough: "pk_bits p \<le> raw_bits a" using raw_bits_enough [OF assms(1,2) False assms(3)] .
  have le: "pk_reading p = RBool \<or> pk_reading p = RCodec \<Longrightarrow> pk_bits p \<le> 64" using assms(4) by (auto simp: leaf_ok_def)
  show ?thesis
    using False assms(5) enough le
    by (auto simp: is_native_def encode_raw_def leaf_raw_def bit_take_bit_iff split: reading.splits lay_value.splits)
qed

lemma fits_leaf:
  assumes "leaf_ok p" "leaf_value_ok T p v"
  shows "fits_check T p v"
proof -
  have z: "drop_bit n (take_bit n x) = 0" for x :: "'w::len word" and n
    by (rule bit_word_eqI) (auto simp: bit_simps)
  show ?thesis
  proof (cases "pk_reading p")
    case (RUint n)
    then obtain x where x: "v = LvUint x" "take_bit (pk_bits p) x = x" using assms(2) by (auto simp: leaf_value_ok_def split: lay_value.splits)
    have "drop_bit (pk_bits p) x = 0" using z [of "pk_bits p" x] x by simp
    moreover have "drop_bit (pk_bits p) (take_bit 64 x) = 0"
      using z [of "pk_bits p" "take_bit 64 x"] x by (metis take_bit_take_bit min.commute)
    ultimately show ?thesis using RUint x(1) by (simp add: fits_check_def)
  next
    case RInt
    then obtain x where "v = LvInt x" "i_valid (pk_bits p) x" using assms(2) by (auto simp: leaf_value_ok_def split: lay_value.splits)
    then show ?thesis
      using RInt assms(1) i_valid_range [of "pk_bits p" x] by (auto simp: fits_check_def leaf_ok_def)
  next
    case RCodec
    then obtain c where c: "v = LvOther c" using assms(2) by (auto simp: leaf_value_ok_def split: lay_value.splits)
    then show ?thesis
      using RCodec assms(2) z [of "pk_bits p" "to_raw (lt_codec T (pk_ty p)) c"]
      by (auto simp: fits_check_def leaf_value_ok_def Let_def)
  qed (auto simp: fits_check_def)
qed

section \<open>What the wire holds\<close>

definition cell_bit :: "u8 list \<Rightarrow> nat \<times> nat \<Rightarrow> bool" where
  "cell_bit buf c \<longleftrightarrow> fst c < length buf \<and> bit (buf ! fst c) (snd c)"

lemma cell_bit_wire: "fst c < length buf \<Longrightarrow> cell_bit buf c = wire_bit buf c"
  by (simp add: cell_bit_def wire_bit_def)

lemma cell_bit_8: "snd c \<ge> 8 \<Longrightarrow> \<not> cell_bit buf c"
  using bit_imp_le_length [of "buf ! fst c" "snd c"] by (auto simp: cell_bit_def)

fun holds :: "('c, 's) lay_types \<Rightarrow> lay_plan \<Rightarrow> nat \<Rightarrow> lay_body \<Rightarrow> 'c lay_value \<Rightarrow> u8 list \<Rightarrow> bool" where
  "holds T P pos (BPacked p) v buf =
     (case leaf_raw T p v of
        None \<Rightarrow> False
      | Some raw \<Rightarrow> (\<forall>j < pk_bits p. cell_bit buf (packed_cell P pos p j) = bit raw j))"
| "holds T P pos (BNested ty n) v buf =
     (case v of
        LvOther c \<Rightarrow>
          (let bytes = nl_encode (lt_layout T ty) c
           in length bytes = n \<and> (\<forall>i < n. \<forall>k < 8. cell_bit buf (pos div 8 + i, k) = bit (bytes ! i) k))
      | _ \<Rightarrow> False)"
| "holds T P pos (BRepeat b n) v buf =
     (case v of
        LvArr vs \<Rightarrow> length vs = n \<and> (\<forall>i < n. holds T P (pos + i * body_bits b) b (vs ! i) buf)
      | _ \<Rightarrow> False)"

lemma element_cells: "i < n \<Longrightarrow> set (body_cells P (pos + i * body_bits b) b) \<subseteq> set (body_cells P pos (BRepeat b n))"
  by force

lemma holds_cong:
  "(\<And>c. c \<in> set (body_cells P pos b) \<Longrightarrow> cell_bit buf c = cell_bit buf' c) \<Longrightarrow> holds T P pos b v buf = holds T P pos b v buf'"
proof (induction b arbitrary: pos v)
  case (BPacked p)
  then show ?case by (simp split: option.splits)
next
  case (BNested ty n)
  have "(pos div 8 + i, k) \<in> set (body_cells P pos (BNested ty n))" if "i < n" "k < 8" for i k
    using that by (simp add: image_iff)
  then have "cell_bit buf (pos div 8 + i, k) = cell_bit buf' (pos div 8 + i, k)" if "i < n" "k < 8" for i k
    using that BNested by blast
  then show ?case by (cases v) (simp_all add: Let_def)
next
  case (BRepeat b n)
  have "holds T P (pos + i * body_bits b) b x buf = holds T P (pos + i * body_bits b) b x buf'" if "i < n" for i x
    using BRepeat.prems element_cells [OF that, where P = P and pos = pos and b = b] by (intro BRepeat.IH) blast
  then show ?case by (simp split: lay_value.splits)
qed

text \<open>A value of the type and the width of a body.\<close>

fun body_value_ok :: "('c, 's) lay_types \<Rightarrow> lay_body \<Rightarrow> 'c lay_value \<Rightarrow> bool" where
  "body_value_ok T (BPacked p) v = leaf_value_ok T p v"
| "body_value_ok T (BNested ty n) v =
     (case v of
        LvOther c \<Rightarrow>
          (let L = lt_layout T ty
           in length (nl_encode L c) = n \<and> nl_decode L (nl_encode L c) = c \<and> nl_decode_slice L (nl_encode L c) = Inr c)
      | _ \<Rightarrow> False)"
| "body_value_ok T (BRepeat b n) v =
     (case v of LvArr vs \<Rightarrow> length vs = n \<and> (\<forall>x \<in> set vs. body_value_ok T b x) | _ \<Rightarrow> False)"

lemma leaf_cell_range:
  assumes "grid_ok P" "packed_placed P pos p" "leaf_ok p" "j < pk_bits p"
  shows "packed_cell P pos p j \<in> {..<lg_bytes P} \<times> {..<8}"
proof -
  have le: "pos + pk_bits p \<le> lg_bits P" "lg_bits P = 8 * lg_bytes P"
    using assms(1,2) by (auto simp: packed_placed_def grid_ok_def)
  show ?thesis
  proof (cases "is_native p \<or> (\<exists>n e. lg_grid P = CBytes n e)")
    case True
    then have b: "bytewise P (BPacked p)" "8 dvd pos"
      using assms(2) by (auto simp: packed_placed_def is_native_def split: reading.splits)
    have "packed_cell P pos p j \<in> set (body_cells P pos (BPacked p))" using assms(4) by simp
    then have "packed_cell P pos p j \<in> whole_cells (pos div 8) (pk_bits p div 8)"
      using bytewise_cells [OF b(1) _ b(2)] assms(3) by simp
    then show ?thesis using le by (auto simp: whole_cells_def)
  next
    case False
    then have "packed_cell P pos p j = wire_cell P (pos + j)"
      using assms(1,2,4) bit_leaf_cells [OF assms(1)]
      by (cases "lg_grid P") (auto simp: packed_placed_def is_native_def split: reading.splits)
    then show ?thesis using wire_cell_range [OF assms(1), of "pos + j"] le assms(4) by simp
  qed
qed

lemma body_cell_range:
  "grid_ok P \<Longrightarrow> body_placed P pos b \<Longrightarrow> c \<in> set (body_cells P pos b) \<Longrightarrow> c \<in> {..<lg_bytes P} \<times> {..<8}"
proof (induction b arbitrary: pos)
  case (BPacked p)
  then show ?case using leaf_cell_range [of P pos p] by auto
next
  case (BNested ty n)
  then show ?case by (auto simp: grid_ok_def)
qed fastforce

section \<open>Writing\<close>

definition unchanged :: "(nat \<times> nat) set \<Rightarrow> u8 list \<Rightarrow> u8 list \<Rightarrow> bool" where
  "unchanged C buf buf' \<longleftrightarrow> length buf' = length buf \<and> (\<forall>c. c \<notin> C \<longrightarrow> cell_bit buf' c = cell_bit buf c)"

lemma unchanged_refl [simp]: "unchanged C buf buf"
  by (simp add: unchanged_def)

lemma unchanged_trans: "unchanged C a b \<Longrightarrow> unchanged D b c \<Longrightarrow> C \<union> D \<subseteq> E \<Longrightarrow> unchanged E a c"
  unfolding unchanged_def by (metis Un_iff subsetD)

lemma unchanged_mono: "unchanged C a b \<Longrightarrow> C \<subseteq> E \<Longrightarrow> unchanged E a b"
  by (auto simp: unchanged_def)

lemma unchanged_holds:
  "unchanged C buf buf' \<Longrightarrow> C \<inter> set (body_cells P pos b) = {} \<Longrightarrow> holds T P pos b v buf \<Longrightarrow> holds T P pos b v buf'"
  using holds_cong [of P pos b buf buf' T v] by (auto simp: unchanged_def)

lemma written_unchanged:
  assumes "written_to c w v buf buf'"
  shows "unchanged (c ` {..<w}) buf buf'"
proof -
  have "cell_bit buf' x = cell_bit buf x" if "x \<notin> c ` {..<w}" for x
  proof (cases "snd x < 8 \<and> fst x < length buf")
    case True
    then show ?thesis using assms that by (cases x) (auto simp: written_to_def cell_bit_def)
  next
    case False
    then show ?thesis using assms cell_bit_8 [of x buf] cell_bit_8 [of x buf'] by (auto simp: written_to_def cell_bit_def)
  qed
  then show ?thesis using assms by (simp add: unchanged_def written_to_def)
qed

lemma put_unchanged:
  assumes "off + length bytes \<le> length buf"
  shows "\<exists>buf'. put buf off bytes = Some buf' \<and> unchanged (whole_cells off (length bytes)) buf buf'
    \<and> (\<forall>i < length bytes. \<forall>k. cell_bit buf' (off + i, k) = bit (bytes ! i) k)
    \<and> take (length bytes) (drop off buf') = bytes"
proof -
  define buf' where "buf' = take off buf @ bytes @ drop (off + length bytes) buf"
  have l: "length buf' = length buf" using assms by (simp add: buf'_def)
  have inn: "buf' ! (off + i) = bytes ! i" if "i < length bytes" for i
    using that assms by (simp add: buf'_def nth_append)
  have out: "buf' ! i = buf ! i" if "i < length buf" "\<not> (off \<le> i \<and> i < off + length bytes)" for i
    using that assms by (auto simp: buf'_def nth_append)
  have "cell_bit buf' c = cell_bit buf c" if "c \<notin> whole_cells off (length bytes)" for c
  proof (cases "fst c < length buf \<and> snd c < 8")
    case True
    then have "\<not> (off \<le> fst c \<and> fst c < off + length bytes)" using that by (auto simp: whole_cells_def mem_Times_iff)
    then show ?thesis using out [of "fst c"] True l by (simp add: cell_bit_def)
  next
    case False
    then show ?thesis using l cell_bit_8 [of c buf] cell_bit_8 [of c buf'] by (auto simp: cell_bit_def)
  qed
  moreover have "cell_bit buf' (off + i, k) = bit (bytes ! i) k" if "i < length bytes" for i k
    using inn [OF that] that assms l by (simp add: cell_bit_def)
  moreover have "take (length bytes) (drop off buf') = bytes" using assms by (simp add: buf'_def)
  ultimately show ?thesis using assms l by (simp add: put_def buf'_def [symmetric] unchanged_def)
qed

text \<open>A run of writes, each to cells of its own: \<open>look\<close> observes a state, \<open>pre\<close> is what a write asks of its cells.\<close>

lemma write_each_spec:
  fixes look :: "'st \<Rightarrow> 'k \<Rightarrow> bool"
  assumes step: "\<And>i st. i < length vs \<Longrightarrow> Inv st \<Longrightarrow> pre (m + i) st \<Longrightarrow> \<exists>st'. f (m + i) (vs ! i) st = Some st' \<and> Inv st'
      \<and> Hold (m + i) (vs ! i) st' \<and> (\<forall>c. c \<notin> cells (m + i) \<longrightarrow> look st' c = look st c)"
    and disj: "\<And>i j. i < j \<Longrightarrow> j < length vs \<Longrightarrow> cells (m + i) \<inter> cells (m + j) = {}"
    and cong: "\<And>i v st st'. i < length vs \<Longrightarrow> Inv st \<Longrightarrow> Inv st' \<Longrightarrow> (\<forall>c \<in> cells (m + i). look st c = look st' c) \<Longrightarrow>
      (pre (m + i) st \<longrightarrow> pre (m + i) st') \<and> (Hold (m + i) v st \<longrightarrow> Hold (m + i) v st')"
    and start: "Inv st" "\<And>i. i < length vs \<Longrightarrow> pre (m + i) st"
  shows "\<exists>st'. write_each f m vs st = Some st' \<and> Inv st' \<and> (\<forall>i < length vs. Hold (m + i) (vs ! i) st')
    \<and> (\<forall>c. c \<notin> (\<Union>i < length vs. cells (m + i)) \<longrightarrow> look st' c = look st c)"
  using assms
proof (induction vs arbitrary: m st)
  case (Cons v vs)
  obtain st1 where st1: "f m v st = Some st1" "Inv st1" "Hold m v st1" "\<forall>c. c \<notin> cells m \<longrightarrow> look st1 c = look st c"
    using Cons.prems(1) [of 0 st] Cons.prems(4) Cons.prems(5) [of 0] by auto
  have apart: "cells m \<inter> cells (Suc m + i) = {}" if "i < length vs" for i
    using Cons.prems(2) [of 0 "Suc i"] that by simp
  have "\<exists>st'. write_each f (Suc m) vs st1 = Some st' \<and> Inv st' \<and> (\<forall>i < length vs. Hold (Suc m + i) (vs ! i) st')
    \<and> (\<forall>c. c \<notin> (\<Union>i < length vs. cells (Suc m + i)) \<longrightarrow> look st' c = look st1 c)"
  proof (rule Cons.IH)
    fix i st' assume "i < length vs" "Inv st'" "pre (Suc m + i) st'"
    then show "\<exists>st''. f (Suc m + i) (vs ! i) st' = Some st'' \<and> Inv st'' \<and> Hold (Suc m + i) (vs ! i) st''
      \<and> (\<forall>c. c \<notin> cells (Suc m + i) \<longrightarrow> look st'' c = look st' c)"
      using Cons.prems(1) [of "Suc i" st'] by simp
  next
    fix i j assume "i < j" "j < length vs"
    then show "cells (Suc m + i) \<inter> cells (Suc m + j) = {}" using Cons.prems(2) [of "Suc i" "Suc j"] by simp
  next
    fix i v' st' st'' assume "i < length vs" "Inv st'" "Inv st''" "\<forall>c \<in> cells (Suc m + i). look st' c = look st'' c"
    then show "(pre (Suc m + i) st' \<longrightarrow> pre (Suc m + i) st'') \<and> (Hold (Suc m + i) v' st' \<longrightarrow> Hold (Suc m + i) v' st'')"
      using Cons.prems(3) [of "Suc i" st' st''] by simp
  next
    fix i assume i: "i < length vs"
    have "\<forall>c \<in> cells (Suc m + i). look st c = look st1 c" using st1(4) apart [OF i] by blast
    then show "pre (Suc m + i) st1"
      using Cons.prems(3) [of "Suc i" st st1] Cons.prems(4) Cons.prems(5) [of "Suc i"] st1(2) i by simp
  qed (rule st1(2))
  then obtain st' where st': "write_each f (Suc m) vs st1 = Some st'" "Inv st'"
    "\<And>i. i < length vs \<Longrightarrow> Hold (Suc m + i) (vs ! i) st'"
    "\<And>c. c \<notin> (\<Union>i < length vs. cells (Suc m + i)) \<Longrightarrow> look st' c = look st1 c" by blast
  have "\<forall>c \<in> cells m. look st1 c = look st' c" using st'(4) apart by (metis UN_E disjoint_iff lessThan_iff)
  then have "Hold m v st'" using Cons.prems(3) [of 0 st1 st'] st1 st'(2) by simp
  then have "Hold (m + i) ((v # vs) ! i) st'" if "i < length (v # vs)" for i
    using st'(3) that by (cases i) simp_all
  moreover have "look st' c = look st c" if "c \<notin> (\<Union>i < length (v # vs). cells (m + i))" for c
  proof -
    have "c \<notin> cells m" "c \<notin> (\<Union>i < length vs. cells (Suc m + i))" using that by (force+)
    then show ?thesis using st'(4) st1(4) by simp
  qed
  ultimately show ?case using st1(1) st'(1,2) by auto
qed simp

lemma native_bytewise: "native_leaf b \<Longrightarrow> bytewise P b"
  by (induction b) auto

lemma elements_apart:
  assumes "bytewise P b" "leaves_ok b" "8 dvd pos" "i < j"
  shows "set (body_cells P (pos + i * body_bits b) b) \<inter> set (body_cells P (pos + j * body_bits b) b) = {}"
proof -
  obtain k where k: "body_bits b = 8 * k" using bytewise_bits [OF assms(1,2)] by blast
  have c: "set (body_cells P (pos + m * body_bits b) b) = whole_cells (pos div 8 + m * k) k" for m
    using bytewise_cells [OF assms(1,2), of "pos + m * body_bits b"] assms(3) k by (simp add: mult.left_commute)
  have "i * k + k \<le> j * k" using mult_le_mono1 [of "Suc i" j k] assms(4) by simp
  then show ?thesis unfolding c by (auto simp: whole_cells_def)
qed

lemma native_cell:
  assumes "pk_reading p = RNative s"
  shows "packed_cell P pos p j = region_cell (lg_endian P) pos (8 * prim_bytes s) (pos + j)"
  by (simp add: packed_cell_def packed_region_def assms)

lemma those_map_Some: "(\<And>x. x \<in> set xs \<Longrightarrow> f x = Some (g x)) \<Longrightarrow> those (map f xs) = Some (map g xs)"
  by (induction xs) auto

lemma written_holds:
  assumes "written_to (packed_cell P pos p) (pk_bits p) r buf buf'" "grid_ok P" "packed_placed P pos p" "leaf_ok p"
    and "leaf_raw T p v = Some raw" "\<forall>j < pk_bits p. bit r j = bit raw j" "length buf = lg_bytes P"
  shows "holds T P pos (BPacked p) v buf'" "unchanged (set (body_cells P pos (BPacked p))) buf buf'"
proof -
  have "cell_bit buf' (packed_cell P pos p j) = wire_bit buf' (packed_cell P pos p j)" if "j < pk_bits p" for j
    using leaf_cell_range [OF assms(2-4) that] assms(1,7) by (intro cell_bit_wire) (auto simp: written_to_def)
  then show "holds T P pos (BPacked p) v buf'" using assms(1,5,6) by (simp add: written_to_def)
  show "unchanged (set (body_cells P pos (BPacked p))) buf buf'"
    using written_unchanged [OF assms(1)] by (simp add: lessThan_atLeast0)
qed

lemma write_run_holds:
  fixes T :: "('c, 's) lay_types"
  assumes "grid_ok P"
  shows "native_leaf b \<Longrightarrow> body_placed P pos b \<Longrightarrow> leaves_ok b \<Longrightarrow> 8 dvd pos \<Longrightarrow> length buf = lg_bytes P \<Longrightarrow>
    body_value_ok T b v \<Longrightarrow> \<exists>buf'. write_run (lg_endian P) b (pos div 8) v buf = Some buf'
      \<and> holds T P pos b v buf' \<and> unchanged (set (body_cells P pos b)) buf buf'"
proof (induction b arbitrary: pos v buf)
  case (BPacked p)
  then obtain s where s: "pk_reading p = RNative s" by (auto simp: is_native_def split: reading.splits)
  obtain raw where raw: "leaf_raw T p v = Some raw" using leaf_value_raw [of T p v] BPacked.prems(6) by auto
  have fits: "pk_bits p = 8 * prim_bytes s" "pos + 8 * prim_bytes s \<le> 8 * length buf"
    using BPacked.prems assms s by (auto simp: packed_placed_def grid_ok_def)
  obtain buf' where buf': "scalar_write (lg_endian P) s (pos div 8) buf raw = Some buf'"
    "written_to (packed_cell P pos p) (pk_bits p) raw buf buf'"
    using whole_store [OF BPacked.prems(4) fits(2), of "lg_endian P" raw]
    by (auto simp: native_cell [OF s, abs_def] fits(1))
  have "write_run (lg_endian P) (BPacked p) (pos div 8) v buf = Some buf'"
    using raw buf'(1) by (simp add: s leaf_raw_def)
  moreover from written_holds [OF buf'(2) assms(1) _ _ raw] BPacked.prems
  have "holds T P pos (BPacked p) v buf'" "unchanged (set (body_cells P pos (BPacked p))) buf buf'" by auto
  ultimately show ?case by blast
next
  case (BRepeat b n)
  obtain vs where vs: "v = LvArr vs" "length vs = n" "\<forall>x \<in> set vs. body_value_ok T b x"
    using BRepeat.prems(6) by (auto split: lay_value.splits)
  have leaf: "native_leaf b" "leaves_ok b" using BRepeat.prems by auto
  note bw = native_bytewise [OF leaf(1), of P]
  obtain k where k: "body_bits b = 8 * k" using bytewise_bits [OF bw leaf(2)] by blast
  have off: "(pos + i * body_bits b) div 8 = pos div 8 + i * (body_bits b div 8)" "8 dvd pos + i * body_bits b" for i
    using BRepeat.prems(4) by (simp_all add: k mult.left_commute)
  show ?case
  proof (cases "is_byte_leaf b")
    case True
    then obtain p where p: "b = BPacked p" "pk_reading p = RNative PU8" by (auto simp: is_byte_leaf_def split: lay_body.splits)
    then have bits: "pk_bits p = 8" using leaf(2) by (simp add: leaf_ok_def)
    define bytes where "bytes = map (\<lambda>x. the (uint_byte x)) vs"
    have uint: "\<exists>x. y = LvUint x \<and> take_bit 8 x = x" if "y \<in> set vs" for y
      using vs(3) that p by (cases y) (auto simp: leaf_value_ok_def native_value_ok_def)
    have b: "those (map uint_byte vs) = Some bytes"
      unfolding bytes_def by (rule those_map_Some) (auto simp: uint_byte_def dest!: uint)
    have len: "length bytes = n" by (simp add: bytes_def vs(2))
    have "pos + 8 * n \<le> 8 * length buf"
      using BRepeat.prems(2,5) p bits assms by (simp add: grid_ok_def)
    then have fit: "pos div 8 + length bytes \<le> length buf" using BRepeat.prems(4) len by (auto elim!: dvdE)
    obtain buf' where buf': "put buf (pos div 8) bytes = Some buf'" "unchanged (whole_cells (pos div 8) n) buf buf'"
      "\<And>i k. i < n \<Longrightarrow> cell_bit buf' (pos div 8 + i, k) = bit (bytes ! i) k"
      using put_unchanged [OF fit] len by auto
    have "holds T P (pos + i * 8) (BPacked p) (vs ! i) buf'" if i: "i < n" for i
    proof -
      obtain x where x: "vs ! i = LvUint x" "take_bit 8 x = x" using uint i vs(2) by (metis nth_mem)
      have byte: "bytes ! i = ucast x" using x(1) i vs(2) by (simp add: bytes_def uint_byte_def)
      have "packed_cell P (pos + i * 8) p j = (pos div 8 + i, j)" if "j < 8" for j
        using that BRepeat.prems(4) byte_cell [of "pos + i * 8" "lg_endian P" 8 j]
        by (simp add: native_cell [OF p(2)] byte_at_def split: endian.splits)
      then show ?thesis
        using x p buf'(3) [OF i] by (simp add: leaf_raw_def native_raw_def bits byte bit_ucast_iff)
    qed
    then have "holds T P pos (BRepeat b n) v buf'" using vs bits p by simp
    moreover have "set (body_cells P pos (BRepeat b n)) = whole_cells (pos div 8) n"
      using bytewise_cells [of P "BRepeat b n" pos] bw leaf BRepeat.prems(4) p(1) bits by simp
    moreover have "write_run (lg_endian P) (BRepeat b n) (pos div 8) v buf = Some buf'"
      using buf'(1) b True vs(1,2) by simp
    ultimately show ?thesis using buf'(2) by metis
  next
    case False
    define f where "f = (\<lambda>i (x :: 'c lay_value). write_run (lg_endian P) b (pos div 8 + i * (body_bits b div 8)) x)"
    have "\<exists>st'. write_each f 0 vs buf = Some st' \<and> length st' = lg_bytes P
        \<and> (\<forall>i < length vs. holds T P (pos + (0 + i) * body_bits b) b (vs ! i) st')
        \<and> (\<forall>c. c \<notin> (\<Union>i < length vs. set (body_cells P (pos + (0 + i) * body_bits b) b)) \<longrightarrow> cell_bit st' c = cell_bit buf c)"
    proof (rule write_each_spec [where look = cell_bit and Inv = "\<lambda>st. length st = lg_bytes P" and pre = "\<lambda>_ _. True"
          and Hold = "\<lambda>i x st. holds T P (pos + i * body_bits b) b x st" and cells = "\<lambda>i. set (body_cells P (pos + i * body_bits b) b)"])
      fix i st assume i: "i < length vs" and st: "length (st :: u8 list) = lg_bytes P"
      have "body_placed P (pos + i * body_bits b) b" "body_value_ok T b (vs ! i)"
        using BRepeat.prems(2) vs i by auto
      from BRepeat.IH [OF leaf(1) this(1) leaf(2) off(2) st this(2)]
      show "\<exists>st'. f (0 + i) (vs ! i) st = Some st' \<and> length st' = lg_bytes P
          \<and> holds T P (pos + (0 + i) * body_bits b) b (vs ! i) st'
          \<and> (\<forall>c. c \<notin> set (body_cells P (pos + (0 + i) * body_bits b) b) \<longrightarrow> cell_bit st' c = cell_bit st c)"
        by (auto simp: f_def off(1) unchanged_def st)
    next
      fix i j assume "i < j" "j < length vs"
      then show "set (body_cells P (pos + (0 + i) * body_bits b) b) \<inter> set (body_cells P (pos + (0 + j) * body_bits b) b) = {}"
        using elements_apart [OF bw leaf(2) BRepeat.prems(4)] by simp
    next
      fix i x and st st' :: "u8 list"
      assume "\<forall>c \<in> set (body_cells P (pos + (0 + i) * body_bits b) b). cell_bit st c = cell_bit st' c"
      then show "(True \<longrightarrow> True) \<and> (holds T P (pos + (0 + i) * body_bits b) b x st \<longrightarrow> holds T P (pos + (0 + i) * body_bits b) b x st')"
        using holds_cong [of P "pos + i * body_bits b" b st st' T x] by simp
    qed (use BRepeat.prems(5) in simp_all)
    then obtain buf' where buf': "write_each f 0 vs buf = Some buf'" "length buf' = lg_bytes P"
      "\<forall>i < n. holds T P (pos + i * body_bits b) b (vs ! i) buf'"
      "\<forall>c. c \<notin> (\<Union>i < n. set (body_cells P (pos + i * body_bits b) b)) \<longrightarrow> cell_bit buf' c = cell_bit buf c"
      using vs(2) by auto
    have "unchanged (set (body_cells P pos (BRepeat b n))) buf buf'"
      using buf'(2,4) BRepeat.prems(5) by (simp add: unchanged_def lessThan_atLeast0)
    moreover have "write_run (lg_endian P) (BRepeat b n) (pos div 8) v buf = Some buf'"
      using buf'(1) False vs(1,2) by (simp add: f_def)
    moreover have "holds T P pos (BRepeat b n) v buf'" using buf'(3) vs by simp
    ultimately show ?thesis by blast
  qed
qed simp

text \<open>The bodies of a solved plan: a field of bits, or whole bytes.\<close>

definition body_ok :: "lay_plan \<Rightarrow> nat \<Rightarrow> lay_body \<Rightarrow> bool" where
  "body_ok P pos b \<longleftrightarrow> body_placed P pos b \<and> leaves_ok b \<and> ((\<exists>p. b = BPacked p) \<or> bytewise P b \<and> 8 dvd pos)"

lemma body_ok_element:
  assumes "body_ok P pos (BRepeat b n)" "i < n"
  shows "body_ok P (pos + i * body_bits b) b"
proof -
  have "8 dvd body_bits b" using assms bytewise_bits [of P b] by (auto simp: body_ok_def)
  then show ?thesis using assms by (auto simp: body_ok_def)
qed

lemma write_body_holds:
  assumes "grid_ok P"
  shows "\<not> (hoisted P \<and> loaded) \<Longrightarrow> body_ok P pos b \<Longrightarrow> length buf = lg_bytes P \<Longrightarrow> body_value_ok T b v \<Longrightarrow>
    \<exists>buf'. write_body T P loaded guard pos b v (bits, buf) = Some (bits, buf') \<and> holds T P pos b v buf'
      \<and> unchanged (set (body_cells P pos b)) buf buf'"
proof (induction b arbitrary: pos v buf)
  case (BPacked p)
  then have p: "packed_placed P pos p" "leaf_ok p" "leaf_value_ok T p v" by (simp_all add: body_ok_def)
  obtain raw where raw: "leaf_raw T p v = Some raw" using leaf_value_raw [OF p(3)] by blast
  have "\<exists>a. access_of P loaded pos p = Some a"
    using store_exact [OF assms p(1) BPacked.prems(3), of loaded] BPacked.prems(1) by blast
  then obtain a where a: "access_of P loaded pos p = Some a" by blast
  obtain r where r: "encode_raw T p a v = Some r" "\<forall>j < pk_bits p. bit r j = bit raw j"
    using encode_leaf [OF assms p(1) a p(2) raw] by blast
  obtain buf' where buf': "store P a r (bits, buf) = Some (bits, buf')"
    "written_to (packed_cell P pos p) (pk_bits p) r buf buf'"
    using store_exact [OF assms p(1) BPacked.prems(3), of loaded r bits] BPacked.prems(1) a by auto
  have "write_body T P loaded guard pos (BPacked p) v (bits, buf) = Some (bits, buf')"
    using a r(1) buf'(1) fits_leaf [OF p(2,3)] by simp
  with written_holds [OF buf'(2) assms p(1,2) raw r(2) BPacked.prems(3)] show ?case by blast
next
  case (BNested ty n)
  obtain c where c: "v = LvOther c" "length (nl_encode (lt_layout T ty) c) = n"
    using BNested.prems(4) by (auto simp: Let_def split: lay_value.splits)
  define bytes where "bytes = nl_encode (lt_layout T ty) c"
  have pos: "8 dvd pos" "pos + n * 8 \<le> 8 * length buf" using BNested.prems assms by (auto simp: body_ok_def grid_ok_def)
  then have "pos div 8 + length bytes \<le> length buf" using c(2) by (auto simp: bytes_def elim!: dvdE)
  from put_unchanged [OF this] obtain buf' where buf': "put buf (pos div 8) bytes = Some buf'"
    "unchanged (whole_cells (pos div 8) n) buf buf'" "\<And>i k. i < n \<Longrightarrow> cell_bit buf' (pos div 8 + i, k) = bit (bytes ! i) k"
    using c(2) by (auto simp: bytes_def)
  have "set (body_cells P pos (BNested ty n)) = whole_cells (pos div 8) n"
    using bytewise_cells [of P "BNested ty n" pos] BNested.prems(2) pos(1) by (simp add: body_ok_def)
  moreover have "holds T P pos (BNested ty n) v buf'" using buf'(3) c by (simp add: bytes_def)
  moreover have "write_body T P loaded guard pos (BNested ty n) v (bits, buf) = Some (bits, buf')"
    using buf'(1) c(1) by (simp add: bytes_def)
  ultimately show ?case using buf'(2) by metis
next
  case (BRepeat b n)
  have ok: "bytewise P b" "leaves_ok b" "8 dvd pos" "body_placed P pos (BRepeat b n)"
    using BRepeat.prems(2) by (auto simp: body_ok_def)
  show ?case
  proof (cases "native_leaf b")
    case True
    then show ?thesis
      using write_run_holds [OF assms, of "BRepeat b n" pos buf T v] ok BRepeat.prems(3,4) by auto
  next
    case False
    obtain vs where vs: "v = LvArr vs" "length vs = n" "\<forall>x \<in> set vs. body_value_ok T b x"
      using BRepeat.prems(4) by (auto split: lay_value.splits)
    define f where "f = (\<lambda>i x. write_body T P loaded guard (pos + i * body_bits b) b x)"
    have "\<exists>st'. write_each f 0 vs (bits, buf) = Some st' \<and> (fst st' = bits \<and> length (snd st') = lg_bytes P)
        \<and> (\<forall>i < length vs. holds T P (pos + (0 + i) * body_bits b) b (vs ! i) (snd st'))
        \<and> (\<forall>c. c \<notin> (\<Union>i < length vs. set (body_cells P (pos + (0 + i) * body_bits b) b))
              \<longrightarrow> cell_bit (snd st') c = cell_bit (snd (bits, buf)) c)"
    proof (rule write_each_spec [where look = "\<lambda>st. cell_bit (snd st)" and pre = "\<lambda>_ _. True"
          and Inv = "\<lambda>st. fst st = bits \<and> length (snd st) = lg_bytes P"
          and Hold = "\<lambda>i x st. holds T P (pos + i * body_bits b) b x (snd st)"
          and cells = "\<lambda>i. set (body_cells P (pos + i * body_bits b) b)"])
      fix i and st :: "u128 \<times> u8 list"
      assume i: "i < length vs" and st: "fst st = bits \<and> length (snd st) = lg_bytes P"
      obtain buf0 where buf0: "st = (bits, buf0)" "length buf0 = lg_bytes P" using st by (cases st) simp
      have "body_ok P (pos + i * body_bits b) b" "body_value_ok T b (vs ! i)"
        using body_ok_element [OF BRepeat.prems(2)] vs i by auto
      from BRepeat.IH [OF BRepeat.prems(1) this(1) buf0(2) this(2)]
      show "\<exists>st'. f (0 + i) (vs ! i) st = Some st' \<and> (fst st' = bits \<and> length (snd st') = lg_bytes P)
          \<and> holds T P (pos + (0 + i) * body_bits b) b (vs ! i) (snd st')
          \<and> (\<forall>c. c \<notin> set (body_cells P (pos + (0 + i) * body_bits b) b) \<longrightarrow> cell_bit (snd st') c = cell_bit (snd st) c)"
        using buf0 by (force simp: f_def unchanged_def)
    next
      fix i j assume "i < j" "j < length vs"
      then show "set (body_cells P (pos + (0 + i) * body_bits b) b) \<inter> set (body_cells P (pos + (0 + j) * body_bits b) b) = {}"
        using elements_apart [OF ok(1-3)] by simp
    next
      fix i x and st st' :: "u128 \<times> u8 list"
      assume "\<forall>c \<in> set (body_cells P (pos + (0 + i) * body_bits b) b). cell_bit (snd st) c = cell_bit (snd st') c"
      then show "(True \<longrightarrow> True) \<and> (holds T P (pos + (0 + i) * body_bits b) b x (snd st)
          \<longrightarrow> holds T P (pos + (0 + i) * body_bits b) b x (snd st'))"
        using holds_cong [of P "pos + i * body_bits b" b "snd st" "snd st'" T x] by simp
    qed (use BRepeat.prems(3) in simp_all)
    then obtain buf' where buf': "write_each f 0 vs (bits, buf) = Some (bits, buf')" "length buf' = lg_bytes P"
      "\<forall>i < n. holds T P (pos + i * body_bits b) b (vs ! i) buf'"
      "\<forall>c. c \<notin> (\<Union>i < n. set (body_cells P (pos + i * body_bits b) b)) \<longrightarrow> cell_bit buf' c = cell_bit buf c"
      using vs(2) by auto
    have "unchanged (set (body_cells P pos (BRepeat b n))) buf buf'"
      using buf'(2,4) BRepeat.prems(3) by (simp add: unchanged_def lessThan_atLeast0)
    moreover have "write_body T P loaded guard pos (BRepeat b n) v (bits, buf) = Some (bits, buf')"
      using buf'(1) False vs(1,2) by (simp add: f_def)
    moreover have "holds T P pos (BRepeat b n) v buf'" using buf'(3) vs by simp
    ultimately show ?thesis by blast
  qed
qed

section \<open>Reading\<close>

lemma native_scalar_read:
  assumes "grid_ok P" "packed_placed P pos p" "leaf_ok p" "pk_reading p = RNative s" "length buf = lg_bytes P"
    and "leaf_value_ok T p v" "holds T P pos (BPacked p) v buf"
  shows "\<exists>r. scalar_read (lg_endian P) s (pos div 8) buf = Some r \<and> native_value s r = v"
proof -
  obtain raw where raw: "leaf_raw T p v = Some raw" using leaf_value_raw [OF assms(6)] by blast
  have bits: "pk_bits p = 8 * prim_bytes s" "8 dvd pos" "pos + 8 * prim_bytes s \<le> 8 * length buf"
    using assms(1-5) by (auto simp: packed_placed_def grid_ok_def)
  have cells: "cell_bit buf (region_cell (lg_endian P) pos (8 * prim_bytes s) (pos + j)) = bit raw j" if "j < 8 * prim_bytes s" for j
    using assms(7) raw that by (simp add: bits(1) native_cell [OF assms(4)])
  have again: "native_value s (take_bit (8 * prim_bytes s) raw) = v"
    using native_back [of s v raw] assms(4,6) raw by (simp add: leaf_value_ok_def leaf_raw_def)
  show ?thesis
  proof (cases "s = PBool")
    case False
    obtain r where r: "scalar_read (lg_endian P) s (pos div 8) buf = Some r"
      "\<And>j. bit r j \<longleftrightarrow> j < 8 * prim_bytes s \<and> wire_bit buf (region_cell (lg_endian P) pos (8 * prim_bytes s) (pos + j))"
      using whole_load [OF bits(2) False bits(3), of "lg_endian P"] by blast
    have "r = take_bit (8 * prim_bytes s) raw"
    proof (rule bit_word_eqI)
      fix j
      show "bit r j \<longleftrightarrow> bit (take_bit (8 * prim_bytes s) raw) j"
      proof (cases "j < 8 * prim_bytes s")
        case True
        have "region_cell (lg_endian P) pos (8 * prim_bytes s) (pos + j) \<in> {..<lg_bytes P} \<times> {..<8}"
          using leaf_cell_range [OF assms(1-3), of j] True by (simp add: bits(1) native_cell [OF assms(4)])
        then show ?thesis
          using cells [OF True] True assms(5) r(2) [of j] by (auto simp: cell_bit_wire bit_take_bit_iff)
      qed (simp add: r(2) bit_take_bit_iff)
    qed
    then show ?thesis using r(1) again by simp
  next
    case True
    then obtain b where b: "v = LvBool b" "raw = (if b then 1 else 0)"
      using assms(4,6) raw
      by (auto simp: leaf_value_ok_def native_value_ok_def leaf_raw_def native_raw_def split: lay_value.splits)
    have len: "pos div 8 < length buf" using bits True by (auto elim!: dvdE)
    have "bit (buf ! (pos div 8)) j \<longleftrightarrow> b \<and> j = 0" for j
    proof (cases "j < 8")
      case j: True
      have "region_cell (lg_endian P) pos 8 (pos + j) = (pos div 8, j)"
        using byte_cell [OF bits(2), of "lg_endian P" 8 j] j by (simp add: byte_at_def split: endian.splits)
      then show ?thesis using cells [of j] True j len b(2) by (auto simp: cell_bit_def bit_1_iff)
    next
      case False
      then show ?thesis using bit_imp_le_length [of "buf ! (pos div 8)" j] by auto
    qed
    then have "buf ! (pos div 8) \<noteq> 0 \<longleftrightarrow> b" by (metis bit_0_eq bit_eq_iff bot_apply bot_bool_def)
    then show ?thesis using True len b(1) by (auto simp: scalar_read_def native_value_def)
  qed
qed

lemma read_run_holds:
  assumes "grid_ok P"
  shows "native_leaf b \<Longrightarrow> body_placed P pos b \<Longrightarrow> leaves_ok b \<Longrightarrow> 8 dvd pos \<Longrightarrow> length buf = lg_bytes P \<Longrightarrow>
    body_value_ok T b v \<Longrightarrow> holds T P pos b v buf \<Longrightarrow> read_run (lg_endian P) buf b (pos div 8) = Some v"
proof (induction b arbitrary: pos v)
  case (BPacked p)
  then obtain s where s: "pk_reading p = RNative s" by (auto simp: is_native_def split: reading.splits)
  have "\<exists>r. scalar_read (lg_endian P) s (pos div 8) buf = Some r \<and> native_value s r = v"
    using BPacked.prems by (intro native_scalar_read [OF assms _ _ s]) auto
  then show ?case using s by auto
next
  case (BRepeat b n)
  obtain vs where vs: "v = LvArr vs" "length vs = n" "\<forall>x \<in> set vs. body_value_ok T b x"
    "\<And>i. i < n \<Longrightarrow> holds T P (pos + i * body_bits b) b (vs ! i) buf"
    using BRepeat.prems(6,7) by (auto split: lay_value.splits)
  have leaf: "native_leaf b" "leaves_ok b" using BRepeat.prems by auto
  obtain k where k: "body_bits b = 8 * k" using bytewise_bits [OF native_bytewise [OF leaf(1), of P] leaf(2)] by blast
  have off: "(pos + i * body_bits b) div 8 = pos div 8 + i * (body_bits b div 8)" "8 dvd pos + i * body_bits b" for i
    using BRepeat.prems(4) by (simp_all add: k mult.left_commute)
  have elem: "read_run (lg_endian P) buf b (pos div 8 + i * (body_bits b div 8)) = Some (vs ! i)" if "i < n" for i
    using BRepeat.IH [OF leaf(1) _ leaf(2) off(2) BRepeat.prems(5) _ vs(4) [OF that]] BRepeat.prems(2) vs(2,3) that
    by (simp add: off(1))
  show ?case
  proof (cases "is_byte_leaf b")
    case True
    then obtain p where p: "b = BPacked p" "pk_reading p = RNative PU8" by (auto simp: is_byte_leaf_def split: lay_body.splits)
    then have bits: "body_bits b = 8" using leaf(2) by (simp add: leaf_ok_def)
    have "pos + 8 * n \<le> 8 * length buf" using BRepeat.prems(2,5) bits assms by (simp add: grid_ok_def)
    then have fit: "pos div 8 + n \<le> length buf" using BRepeat.prems(4) by (auto elim!: dvdE)
    have "vs ! i = LvUint (ucast (buf ! (pos div 8 + i)))" if "i < n" for i
      using elem [OF that] p bits fit that by (simp add: scalar_read_def window_bytes_def native_value_def)
    then have "map (\<lambda>x. LvUint (ucast x)) (take n (drop (pos div 8) buf)) = vs"
      using vs(2) fit by (intro nth_equalityI) simp_all
    then show ?thesis using True fit vs(1) by simp
  next
    case False
    have "those (map (\<lambda>i. read_run (lg_endian P) buf b (pos div 8 + i * (body_bits b div 8))) [0..<n]) = Some (map ((!) vs) [0..<n])"
      by (rule those_map_Some) (simp add: elem)
    moreover have "map ((!) vs) [0..<n] = vs" using vs(2) by (metis map_nth)
    ultimately show ?thesis using False vs(1) by simp
  qed
qed simp

lemma each_run_ok: "(\<And>i. i < length vs \<Longrightarrow> f (xs ! i) = Some (Inr (vs ! i))) \<Longrightarrow> length xs = length vs \<Longrightarrow> each_run f xs = Some (Inr vs)"
proof (induction xs arbitrary: vs)
  case (Cons x xs)
  then obtain v vs' where vs: "vs = v # vs'" by (cases vs) auto
  have "each_run f xs = Some (Inr vs')" using Cons.prems vs by (intro Cons.IH) force+
  then show ?case using Cons.prems(1) [of 0] vs by simp
qed simp

lemma read_leaf_holds:
  assumes "grid_ok P" "packed_placed P pos p" "leaf_ok p" "length buf = lg_bytes P" "leaf_value_ok T p v"
    and "holds T P pos (BPacked p) v buf" "loaded \<Longrightarrow> load_raw P buf = Some raw"
  shows "read_body T P loaded raw buf pos (BPacked p) = Some (Inr v)"
proof (cases "pk_reading p = RNative PBool")
  case True
  from native_scalar_read [OF assms(1-3) True assms(4-6)] show ?thesis
    by (auto simp: access_of_def True decode_value_def ok_run_def)
next
  case False
  obtain r where r: "leaf_raw T p v = Some r" using leaf_value_raw [OF assms(5)] by blast
  obtain a x where a: "access_of P loaded pos p = Some a" "load P raw buf a = Some x"
    "\<And>j. bit x j \<longleftrightarrow> j < pk_bits p \<and> wire_bit buf (packed_cell P pos p j)"
    using load_exact [OF assms(1,2,4) False assms(7)] by blast
  have "x = take_bit (pk_bits p) r"
  proof (rule bit_word_eqI)
    fix j
    show "bit x j \<longleftrightarrow> bit (take_bit (pk_bits p) r) j"
    proof (cases "j < pk_bits p")
      case True
      then show ?thesis
        using leaf_cell_range [OF assms(1-3) True] assms(4,6) r a(3) [of j]
        by (auto simp: cell_bit_wire bit_take_bit_iff)
    qed (simp add: a(3) bit_take_bit_iff)
  qed
  then show ?thesis using a(1,2) leaf_back [OF assms(3,5) r] by (simp add: ok_run_def)
qed

lemma bytes_from_cells:
  assumes "off + n \<le> length buf" "length bytes = n" "\<And>i k. i < n \<Longrightarrow> k < 8 \<Longrightarrow> cell_bit buf (off + i, k) = bit (bytes ! i) k"
  shows "take n (drop off buf) = bytes"
proof (rule nth_equalityI)
  fix i
  assume i: "i < length (take n (drop off buf))"
  then have "i < n" "off + i < length buf" using assms(1) by auto
  then have "bit (buf ! (off + i)) k = bit (bytes ! i) k" if "k < 8" for k
    using assms(3) [OF \<open>i < n\<close> that] by (simp add: cell_bit_def)
  then have "buf ! (off + i) = bytes ! i" by (intro bit_word_eqI) simp
  then show "take n (drop off buf) ! i = bytes ! i" using \<open>i < n\<close> assms(1) by simp
qed (use assms(1,2) in simp)

lemma read_body_holds:
  assumes "grid_ok P" "length buf = lg_bytes P" "loaded \<Longrightarrow> load_raw P buf = Some raw"
  shows "body_ok P pos b \<Longrightarrow> body_value_ok T b v \<Longrightarrow> holds T P pos b v buf \<Longrightarrow>
    read_body T P loaded raw buf pos b = Some (Inr v)"
proof (induction b arbitrary: pos v)
  case (BPacked p)
  then show ?case
    using assms(3) by (intro read_leaf_holds [OF assms(1) _ _ assms(2)]) (auto simp: body_ok_def)
next
  case (BNested ty n)
  obtain c where c: "v = LvOther c" "length (nl_encode (lt_layout T ty) c) = n"
    "nl_decode (lt_layout T ty) (nl_encode (lt_layout T ty) c) = c"
    "nl_decode_slice (lt_layout T ty) (nl_encode (lt_layout T ty) c) = Inr c"
    using BNested.prems(2) by (auto simp: Let_def split: lay_value.splits)
  have "pos + n * 8 \<le> 8 * length buf" "8 dvd pos" using BNested.prems(1) assms by (auto simp: body_ok_def grid_ok_def)
  then have fit: "pos div 8 + n \<le> length buf" by (auto elim!: dvdE)
  have "take n (drop (pos div 8) buf) = nl_encode (lt_layout T ty) c"
    by (rule bytes_from_cells [OF fit c(2)]) (use BNested.prems(3) c(1) in \<open>simp add: Let_def\<close>)
  then show ?case using fit c by (simp add: Let_def)
next
  case (BRepeat b n)
  show ?case
  proof (cases "native_leaf b")
    case True
    then show ?thesis
      using read_run_holds [OF assms(1), of "BRepeat b n" pos buf T v] BRepeat.prems assms(2)
      by (auto simp: body_ok_def ok_run_def)
  next
    case False
    obtain vs where vs: "v = LvArr vs" "length vs = n" "\<forall>x \<in> set vs. body_value_ok T b x"
      "\<And>i. i < n \<Longrightarrow> holds T P (pos + i * body_bits b) b (vs ! i) buf"
      using BRepeat.prems(2,3) by (auto split: lay_value.splits)
    have "read_body T P loaded raw buf (pos + i * body_bits b) b = Some (Inr (vs ! i))" if "i < n" for i
      using BRepeat.IH [OF body_ok_element [OF BRepeat.prems(1) that] _ vs(4) [OF that]] vs(2,3) that by simp
    then have "each_run (\<lambda>i. read_body T P loaded raw buf (pos + i * body_bits b) b) [0..<n] = Some (Inr vs)"
      using vs(2) by (intro each_run_ok) simp_all
    then show ?thesis using False vs(1) by simp
  qed
qed

end
