(* ===== verification/LayoutRecords.thy ===== *)
theory LayoutRecords
  imports LayoutRoundTrip
begin

text \<open>
  Whole records of \<open>#[derive(Layout)]\<close>: what the assertions a plan resolves say of its fields, the stamps encode
  writes over the fields (the prefix, each magic, each checksum), the checks decode makes, and the round trip of
  encode and decode (\<open>layline-derive/src/layout/emit.rs\<close>, \<open>asserts.rs\<close>).
\<close>

section \<open>What the plan says of stamped fields\<close>

definition stamped :: "lay_item \<Rightarrow> bool" where
  "stamped it \<longleftrightarrow> li_magic it \<noteq> None \<or> li_check it \<noteq> None"

text \<open>An integer scalar, or an array of them.\<close>

fun native_ints :: "lay_body \<Rightarrow> bool" where
  "native_ints (BPacked p) = (case pk_reading p of RNative s \<Rightarrow> prim_bounds s \<noteq> None | _ \<Rightarrow> False)"
| "native_ints (BRepeat b n) = native_ints b"
| "native_ints (BNested ty n) = False"

lemma native_ints_leaf: "native_ints b \<Longrightarrow> native_leaf b"
  by (induction b rule: native_ints.induct) (auto simp: is_native_def split: reading.splits)

definition stamp_ok :: "container \<Rightarrow> lay_item \<Rightarrow> bool" where
  "stamp_ok c it \<longleftrightarrow>
     (stamped it \<longrightarrow> (\<exists>n e. c = CBytes n e) \<and> native_ints (li_body it))
     \<and> (li_check it \<noteq> None \<longrightarrow> li_magic it = None \<and> (\<exists>s. li_body it = native s \<and> prim_bounds s \<noteq> None))"

lemma prim_integer: "prim_bounds s \<noteq> None \<longleftrightarrow> s \<noteq> PF32 \<and> s \<noteq> PF64 \<and> s \<noteq> PBool"
  by (cases s) auto

lemma integer_scalar_native: "integer_scalar k \<Longrightarrow> \<exists>s. k = BkScalar s \<and> prim_bounds s \<noteq> None"
  by (cases k) (simp_all add: prim_integer del: not_None_eq)

lemma native_array: "native_ints (foldl BRepeat b ds) = native_ints b"
  by (induction ds arbitrary: b) auto

lemma native_is_ints [simp]: "native_ints (native s) = (prim_bounds s \<noteq> None)"
  by (simp add: native_def)

lemma byte_stamp_ok:
  assumes "byte_field_of f = Inr x"
  shows "stamp_ok (CBytes n e) (byte_item x)"
proof -
  have a: "assertable (rf_name f) (bf_kind x) (bf_magic x) (bf_check x) = Inr ()"
    using assms by (auto simp: byte_field_of_def Let_def bind_res_Inr_iff split: if_splits)
  have "native_ints (byte_body (bf_kind x))" if "bf_magic x \<noteq> None"
  proof -
    have "integer_scalar (bf_kind x) \<or> array_prim (bf_kind x) = Some PU8"
      using a that by (auto simp: assertable_def split: if_splits)
    then show ?thesis
    proof
      assume "integer_scalar (bf_kind x)"
      then show ?thesis using integer_scalar_native by (force simp: byte_body_def)
    next
      assume "array_prim (bf_kind x) = Some PU8"
      then show ?thesis by (cases "bf_kind x") (auto simp: byte_body_def native_array)
    qed
  qed
  moreover have "bf_magic x = None \<and> (\<exists>s. byte_body (bf_kind x) = native s \<and> prim_bounds s \<noteq> None)" if "bf_check x \<noteq> None"
  proof -
    have "integer_scalar (bf_kind x)" "bf_magic x = None" using a that by (auto simp: assertable_def split: if_splits)
    then show ?thesis using integer_scalar_native by (force simp: byte_body_def)
  qed
  ultimately show ?thesis by (auto simp: stamp_ok_def stamped_def byte_item_def)
qed

lemma collect_res_names:
  "collect_res f xs = Inr ys \<Longrightarrow> (\<And>x y. f x = Inr y \<Longrightarrow> h y = g x) \<Longrightarrow> map h ys = map g xs"
  by (induction xs arbitrary: ys) (auto simp: bind_res_Inr_iff)

lemma field_names:
  "word_field_of f = Inr x \<Longrightarrow> wf_name x = rf_name f" "words_field_of f = Inr y \<Longrightarrow> ws_name y = rf_name f"
  "byte_field_of f = Inr z \<Longrightarrow> bf_name z = rf_name f"
  by (auto simp: word_field_of_def words_field_of_def byte_field_of_def Let_def bind_res_Inr_iff split: if_splits option.splits)

text \<open>What the plan keeps of the declaration, past the shapes and the positions.\<close>

definition plan_stamps :: "string list \<Rightarrow> lay_plan \<Rightarrow> bool" where
  "plan_stamps names P \<longleftrightarrow> (\<forall>it \<in> set (lp_items P). stamp_ok (lg_grid P) it) \<and> map li_name (lp_items P) = names
     \<and> (\<forall>v. lp_prefix_value P = Some v \<longrightarrow> 0 < lp_prefix P \<and> (lp_prefix P < 128 \<longrightarrow> v < 2 ^ lp_prefix P))"

lemma declared_stamps:
  assumes "declared_fields name c view fs = Inr d" "container_attr name k = Inr c"
  shows "plan_stamps (map rf_name fs) (plan_of n k d)"
proof -
  consider (word) bits pre pv e ord ys where "c = CWord bits pre pv e ord" "collect_res word_field_of fs = Inr ys"
      "d = DeclWord bits pre pv e ord ys"
    | (bytes) m e ys where "c = CBytes m e" "collect_res byte_field_of fs = Inr ys" "d = DeclBytes m e ys"
    | (words) m e ord ys where "c = CWords m e ord" "collect_res words_field_of fs = Inr ys" "d = DeclWords m e ord ys"
    using assms(1) by (cases c) (auto simp: declared_fields_def bind_res_Inr_iff)
  then show ?thesis
  proof cases
    case word
    have v: "0 < pre \<and> (pre < 128 \<longrightarrow> v < 2 ^ pre)" if "pv = Some v" for v
      using assms(2) word(1) that
      by (auto simp: container_attr_def prefix_admitted_def bind_res_Inr_iff Let_def split: option.splits if_splits sum.splits)
    have "map (\<lambda>x. li_name (word_item x)) ys = map rf_name fs"
      by (rule collect_res_names [OF word(2)]) (simp add: word_item_def field_names)
    then show ?thesis
      using v word(3) by (auto simp: plan_stamps_def plan_of_def Let_def stamp_ok_def stamped_def word_item_def comp_def)
  next
    case bytes
    have "map (\<lambda>x. li_name (byte_item x)) ys = map rf_name fs"
      by (rule collect_res_names [OF bytes(2)]) (simp add: byte_item_def field_names)
    moreover have "\<forall>y \<in> set ys. stamp_ok (CBytes m e) (byte_item y)"
      by (rule collect_res_all [OF bytes(2)]) (rule byte_stamp_ok)
    ultimately show ?thesis using bytes(3) by (simp add: plan_stamps_def plan_of_def Let_def comp_def)
  next
    case words
    have "map (\<lambda>x. li_name (words_item x)) ys = map rf_name fs"
      by (rule collect_res_names [OF words(2)]) (simp add: words_item_def field_names)
    then show ?thesis
      using words(3) by (auto simp: plan_stamps_def plan_of_def Let_def stamp_ok_def stamped_def words_item_def comp_def)
  qed
qed

lemma expand_layout_parts:
  assumes "expand_layout name k attrs fs = Inr P" "lg_bytes P < 2 ^ 29"
  shows "plan_ok P" "plan_stamps (map rf_name fs) P" "\<exists>Q. resolve_assertions Q = Inr P \<and> lp_items Q = lp_items P
    \<and> lg_endian Q = lg_endian P"
proof -
  show "plan_ok P" using expand_layout_ok [OF assms] .
  obtain d Q where d: "parse_layout name k attrs fs = Inr d" "solve (plan_of name k d) = Inr Q"
    "resolve_assertions Q = Inr P"
    using assms(1) by (auto simp: expand_layout_def bind_res_Inr_iff)
  obtain c where c: "container_attr name k = Inr c" "declared_fields name c (lk_view k) fs = Inr d"
    using d(1) by (auto simp: parse_layout_def bind_res_Inr_iff split: if_splits)
  define R where "R = plan_of name k d"
  have stamps: "plan_stamps (map rf_name fs) R" unfolding R_def by (rule declared_stamps [OF c(2,1)])
  obtain items where items: "solve_items (lg_grid R) (lg_bits R) (lp_prefix R) (lp_items R) = Inr (items, lg_bits R)"
    "Q = R\<lparr>lp_items := items\<rparr>"
    using d(2) by (auto simp: solve_def bind_res_Inr_iff R_def split: if_splits)
  note s = solve_items_solved [OF items(1)]
  obtain a where a: "P = R\<lparr>lp_items := items, lp_asserts := a\<rparr>"
    using resolve_assertions_grid [OF d(3)] items(2) by auto
  have len: "length items = length (lp_items R)" using s by (metis length_map)
  have same: "stamp_ok (lg_grid R) (items ! i) = stamp_ok (lg_grid R) (lp_items R ! i)" if "i < length items" for i
  proof -
    have "li_body (items ! i) = li_body (lp_items R ! i)" "li_magic (items ! i) = li_magic (lp_items R ! i)"
      "li_check (items ! i) = li_check (lp_items R ! i)"
      using s that len by (metis nth_map)+
    then show ?thesis by (simp add: stamp_ok_def stamped_def)
  qed
  have "\<forall>it \<in> set items. stamp_ok (lg_grid R) it"
  proof
    fix it assume "it \<in> set items"
    then obtain i where "i < length items" "it = items ! i" by (auto simp: in_set_conv_nth)
    then show "stamp_ok (lg_grid R) it" using same stamps len by (simp add: plan_stamps_def)
  qed
  then show "plan_stamps (map rf_name fs) P" using stamps s by (simp add: plan_stamps_def a)
  show "\<exists>Q. resolve_assertions Q = Inr P \<and> lp_items Q = lp_items P \<and> lg_endian Q = lg_endian P"
    using d(3) items(2) a by auto
qed

section \<open>Resolved assertions\<close>

definition item_bytes :: "lay_item \<Rightarrow> nat \<times> nat" where
  "item_bytes it = (li_phys it div 8, (li_phys it + body_bits (li_body it)) div 8)"

definition extents_of :: "lay_item list \<Rightarrow> (string \<times> nat \<times> nat) list" where
  "extents_of items = map (\<lambda>it. (li_name it, item_bytes it)) (filter whole_bytes items)"

lemma collect_extents:
  "collect_res item_extent items = Inr es \<Longrightarrow> concat es = extents_of items \<and> (\<forall>it \<in> set items. stamped it \<longrightarrow> whole_bytes it)"
proof (induction items arbitrary: es)
  case (Cons it items)
  obtain e es' where e: "item_extent it = Inr e" "collect_res item_extent items = Inr es'" "es = e # es'"
    using Cons.prems by (auto simp: bind_res_Inr_iff)
  have "e = (if whole_bytes it then [(li_name it, item_bytes it)] else []) \<and> (stamped it \<longrightarrow> whole_bytes it)"
    using e(1) by (simp add: item_extent_def item_bytes_def stamped_def split: if_splits)
  then show ?case using Cons.IH [OF e(2)] e(3) by (simp add: extents_of_def)
qed (simp add: extents_of_def)

lemma map_of_extents:
  "distinct (map li_name items) \<Longrightarrow> it \<in> set items \<Longrightarrow>
     map_of (extents_of items) (li_name it) = (if whole_bytes it then Some (item_bytes it) else None)"
proof (induction items)
  case (Cons x items)
  have "map_of (extents_of items) (li_name x) = None"
    using Cons.prems(1) by (auto simp: extents_of_def map_of_eq_None_iff)
  moreover have "li_name it \<noteq> li_name x" if "it \<in> set items" using Cons.prems(1) that by (metis distinct.simps(2) image_eqI list.set_map list.simps(9))
  ultimately show ?case using Cons by (cases "it = x") (auto simp: extents_of_def)
qed simp

text \<open>A magic, and a checksum, as the plan resolves it for a field.\<close>

definition magic_for :: "magic_at \<Rightarrow> lay_item \<Rightarrow> bool" where
  "magic_for m it \<longleftrightarrow> li_magic it \<noteq> None \<and> ma_field m = li_name it \<and> ma_at m = fst (item_bytes it)
     \<and> length (ma_bytes m) = snd (item_bytes it) - fst (item_bytes it)"

definition check_for :: "(string \<times> nat \<times> nat) list \<Rightarrow> check_at \<Rightarrow> lay_item \<Rightarrow> bool" where
  "check_for extents c it \<longleftrightarrow> (\<exists>spec. li_check it = Some spec
     \<and> resolve_check extents it spec (fst (item_bytes it)) (snd (item_bytes it)) = Inr c)"

lemma magic_bytes_length: "magic_bytes m name width e = Inr bytes \<Longrightarrow> length bytes = width"
  by (cases e) (auto simp: magic_bytes_def to_bytes_def len_simps split: magic_lit.splits if_splits)

lemma magic_of_item_for:
  assumes "magic_of_item e extents it = Inr ms" "stamped it \<Longrightarrow> map_of extents (li_name it) = Some (item_bytes it)"
  shows "if li_magic it = None then ms = [] else \<exists>m. ms = [m] \<and> magic_for m it"
proof (cases "li_magic it")
  case None
  then show ?thesis using assms(1) by (auto simp: magic_of_item_def split: option.splits)
next
  case (Some lit)
  then have "map_of extents (li_name it) = Some (item_bytes it)" using assms(2) by (simp add: stamped_def)
  then have "map_res (\<lambda>bytes. [\<lparr>ma_field = li_name it, ma_at = fst (item_bytes it), ma_bytes = bytes\<rparr>])
      (magic_bytes lit (li_name it) (snd (item_bytes it) - fst (item_bytes it)) e) = Inr ms"
    using assms(1) Some by (cases "item_bytes it") (simp add: magic_of_item_def)
  then show ?thesis
    using Some magic_bytes_length
    by (cases "magic_bytes lit (li_name it) (snd (item_bytes it) - fst (item_bytes it)) e") (auto simp: magic_for_def)
qed

lemma check_of_item_for:
  assumes "check_of_item extents it = Inr cs" "stamped it \<Longrightarrow> map_of extents (li_name it) = Some (item_bytes it)"
  shows "if li_check it = None then cs = [] else \<exists>c. cs = [c] \<and> check_for extents c it"
proof (cases "li_check it")
  case None
  then show ?thesis using assms(1) by (auto simp: check_of_item_def split: option.splits)
next
  case (Some spec)
  then have "map_of extents (li_name it) = Some (item_bytes it)" using assms(2) by (simp add: stamped_def)
  then have "map_res (\<lambda>c. [c]) (resolve_check extents it spec (fst (item_bytes it)) (snd (item_bytes it))) = Inr cs"
    using assms(1) Some by (cases "item_bytes it") (simp add: check_of_item_def)
  then show ?thesis
    using Some by (cases "resolve_check extents it spec (fst (item_bytes it)) (snd (item_bytes it))") (auto simp: check_for_def)
qed

lemma stamps_of_item_Inr:
  "stamps_of_item e extents it = Inr p \<longleftrightarrow> magic_of_item e extents it = Inr (fst p) \<and> check_of_item extents it = Inr (snd p)"
  by (cases p) (auto simp: stamps_of_item_def bind_res_Inr_iff)

lemma stamps_lists:
  "collect_res (stamps_of_item e extents) items = Inr sts \<Longrightarrow>
    (\<And>it. it \<in> set items \<Longrightarrow> stamped it \<Longrightarrow> map_of extents (li_name it) = Some (item_bytes it)) \<Longrightarrow>
    list_all2 magic_for (concat (map fst sts)) (filter (\<lambda>it. li_magic it \<noteq> None) items)
    \<and> list_all2 (check_for extents) (concat (map snd sts)) (filter (\<lambda>it. li_check it \<noteq> None) items)"
proof (induction items arbitrary: sts)
  case (Cons it items)
  obtain ms cs rest where r: "magic_of_item e extents it = Inr ms" "check_of_item extents it = Inr cs"
    "collect_res (stamps_of_item e extents) items = Inr rest" "sts = (ms, cs) # rest"
    using Cons.prems(1) by (auto simp: bind_res_Inr_iff stamps_of_item_Inr)
  have m: "if li_magic it = None then ms = [] else \<exists>m. ms = [m] \<and> magic_for m it"
    using magic_of_item_for [OF r(1)] Cons.prems(2) by simp
  have c: "if li_check it = None then cs = [] else \<exists>c. cs = [c] \<and> check_for extents c it"
    using check_of_item_for [OF r(2)] Cons.prems(2) by simp
  note IH = Cons.IH [OF r(3)] Cons.prems(2)
  have "list_all2 magic_for (concat (map fst rest)) (filter (\<lambda>it. li_magic it \<noteq> None) items)
    \<and> list_all2 (check_for extents) (concat (map snd rest)) (filter (\<lambda>it. li_check it \<noteq> None) items)"
    by (intro Cons.IH [OF r(3)] Cons.prems(2)) simp_all
  then show ?case using m c r(4) by (auto split: if_splits)
qed simp

lemma resolved:
  assumes "resolve_assertions Q = Inr P" "distinct (map li_name (lp_items Q))"
  defines "items \<equiv> lp_items P" and "A \<equiv> lp_asserts P"
  shows "list_all2 magic_for (as_magic A) (filter (\<lambda>it. li_magic it \<noteq> None) items)"
    and "list_all2 (check_for (extents_of items)) (as_check A) (filter (\<lambda>it. li_check it \<noteq> None) items)"
    and "\<forall>c \<in> set (as_check A). \<not> covers_later (extents_of items) (as_check A) c"
    and "as_flags A = concat (map item_flag items)"
    and "\<forall>r \<in> set (as_range A). \<exists>it \<in> set items. range_of_item it = Inr [r]"
    and "\<forall>it \<in> set items. stamped it \<longrightarrow> whole_bytes it"
proof -
  obtain es rs sts where r: "collect_res item_extent (lp_items Q) = Inr es" "collect_res range_of_item (lp_items Q) = Inr rs"
    "collect_res (stamps_of_item (lg_endian Q) (concat es)) (lp_items Q) = Inr sts"
    "\<not> list_ex (covers_later (concat es) (concat (map snd sts))) (concat (map snd sts))"
    "P = Q\<lparr>lp_asserts := \<lparr>as_magic = concat (map fst sts), as_check = concat (map snd sts), as_range = concat rs,
                as_flags = concat (map item_flag (lp_items Q))\<rparr>\<rparr>"
    using assms(1) by (cases "collect_res item_extent (lp_items Q)"; cases "collect_res range_of_item (lp_items Q)")
      (auto simp: resolve_assertions_def bind_res_Inr_iff Let_def split: if_splits)
  have i: "items = lp_items Q" by (simp add: items_def r(5))
  note ex = collect_extents [OF r(1)]
  have e: "concat es = extents_of items" using ex i by simp
  have "map_of (concat es) (li_name it) = Some (item_bytes it)" if "it \<in> set items" "stamped it" for it
    using map_of_extents [OF assms(2), of it] that ex i e by simp
  then have "list_all2 magic_for (concat (map fst sts)) (filter (\<lambda>it. li_magic it \<noteq> None) items)
    \<and> list_all2 (check_for (concat es)) (concat (map snd sts)) (filter (\<lambda>it. li_check it \<noteq> None) items)"
    using stamps_lists [OF r(3)] i by blast
  then show "list_all2 magic_for (as_magic A) (filter (\<lambda>it. li_magic it \<noteq> None) items)"
    "list_all2 (check_for (extents_of items)) (as_check A) (filter (\<lambda>it. li_check it \<noteq> None) items)"
    by (simp_all add: A_def r(5) e)
  show "\<forall>c \<in> set (as_check A). \<not> covers_later (extents_of items) (as_check A) c"
    using r(4) by (simp add: A_def r(5) e list_ex_iff)
  show "as_flags A = concat (map item_flag items)" by (simp add: A_def r(5) i)
  show "\<forall>it \<in> set items. stamped it \<longrightarrow> whole_bytes it" using ex i by simp
  show "\<forall>r \<in> set (as_range A). \<exists>it \<in> set items. range_of_item it = Inr [r]"
  proof
    fix x assume "x \<in> set (as_range A)"
    then obtain ys where ys: "ys \<in> set rs" "x \<in> set ys" by (auto simp: A_def r(5))
    then obtain it where it: "it \<in> set items" "range_of_item it = Inr ys" using collect_res_set [OF r(2)] i by blast
    then have "ys = [x]" using ys(2) by (auto simp: range_of_item_def Let_def split: option.splits if_splits)
    then show "\<exists>it \<in> set items. range_of_item it = Inr [x]" using it by blast
  qed
qed

end
