(* ===== verification/LayoutReading.thy ===== *)
theory LayoutReading
  imports LayoutRecords
begin

text \<open>
  When the wire holds a value at every field, the prefix, the magic bytes and the checksums, the \<open>decode\<close> that
  \<open>#[derive(Layout)]\<close> emits passes its checks and gives the values (\<open>layline-derive/src/layout/emit.rs\<close>,
  \<open>asserts.rs\<close>).
\<close>

section \<open>A resolved plan\<close>

definition resolved_plan :: "lay_plan \<Rightarrow> bool" where
  "resolved_plan P \<longleftrightarrow> plan_ok P \<and> plan_stamps (map li_name (lp_items P)) P \<and> distinct (map li_name (lp_items P))
     \<and> list_all2 magic_for (as_magic (lp_asserts P)) (filter (\<lambda>it. li_magic it \<noteq> None) (lp_items P))
     \<and> list_all2 (check_for (extents_of (lp_items P))) (as_check (lp_asserts P)) (filter (\<lambda>it. li_check it \<noteq> None) (lp_items P))
     \<and> (\<forall>c \<in> set (as_check (lp_asserts P)). \<not> covers_later (extents_of (lp_items P)) (as_check (lp_asserts P)) c)
     \<and> as_flags (lp_asserts P) = concat (map item_flag (lp_items P))
     \<and> (\<forall>r \<in> set (as_range (lp_asserts P)). \<exists>it \<in> set (lp_items P). range_of_item it = Inr [r])
     \<and> (\<forall>it \<in> set (lp_items P). stamped it \<longrightarrow> whole_bytes it)"

lemma expand_layout_resolved:
  assumes "expand_layout name k attrs fs = Inr P" "lg_bytes P < 2 ^ 29" "distinct (map rf_name fs)"
  shows "resolved_plan P" "map li_name (lp_items P) = map rf_name fs"
proof -
  note parts = expand_layout_parts [OF assms(1,2)]
  show names: "map li_name (lp_items P) = map rf_name fs" using parts(2) by (simp add: plan_stamps_def)
  obtain Q where Q: "resolve_assertions Q = Inr P" "lp_items Q = lp_items P" using parts(3) by blast
  have "distinct (map li_name (lp_items Q))" using names assms(3) Q(2) by simp
  from resolved [OF Q(1) this] show "resolved_plan P"
    using parts(1,2) names assms(3) by (simp add: resolved_plan_def)
qed

lemma item_body_ok:
  assumes "plan_ok P" "it \<in> set (lp_items P)"
  shows "body_ok P (li_phys it) (li_body it)"
proof -
  have "body_placed P (li_phys it) (li_body it)" using plan_ok_items(1) [OF assms(1)] assms(2) by blast
  then show ?thesis
    using plan_item_shape [OF assms] by (cases "li_body it") (auto simp: body_ok_def)
qed

lemma hoisted_word:
  assumes "plan_ok P" "hoisted P"
  shows "\<exists>bits pre pv e ord. lg_grid P = CWord bits pre pv e ord" "1 \<le> lg_bytes P"
    and "it \<in> set (lp_items P) \<Longrightarrow> \<exists>p. li_body it = BPacked p \<and> \<not> is_native p"
proof -
  show w: "\<exists>bits pre pv e ord. lg_grid P = CWord bits pre pv e ord"
    using assms(2) by (cases "lg_grid P") (auto simp: hoisted_def)
  have "0 < region_of (lg_grid P)" "grid_ok P" using assms(1) by (simp_all add: plan_ok_def)
  then show "1 \<le> lg_bytes P" using w by (auto simp: grid_ok_def)
  assume "it \<in> set (lp_items P)"
  then have "shaped (lg_grid P) (li_body it)" using assms(1) by (simp add: plan_ok_def)
  then show "\<exists>p. li_body it = BPacked p \<and> \<not> is_native p" using w by (auto simp: shaped_def split: lay_body.splits)
qed

lemma item_named_index:
  "item_named xs name = map_option (nth xs) (index_where (\<lambda>it. li_name it = name) xs)"
  by (induction xs) (auto simp: option.map_comp comp_def)

section \<open>What the wire holds\<close>

definition wire_holds :: "('c, 's) lay_types \<Rightarrow> lay_plan \<Rightarrow> 'c lay_value list \<Rightarrow> u8 list \<Rightarrow> bool" where
  "wire_holds T P vs buf \<longleftrightarrow> length buf = lg_bytes P
     \<and> list_all2 (\<lambda>it v. body_value_ok T (li_body it) v \<and> holds T P (li_phys it) (li_body it) v buf) (lp_items P) vs"

definition prefix_held :: "lay_plan \<Rightarrow> u8 list \<Rightarrow> bool" where
  "prefix_held P buf \<longleftrightarrow> (\<forall>v. lp_prefix_value P = Some v \<longrightarrow>
     (\<forall>j < lp_prefix P. cell_bit buf (region_cell (lg_endian P) 0 (lg_bits P) (prefix_physical P + j)) = bit v j))"

definition magic_held :: "u8 list \<Rightarrow> magic_at \<Rightarrow> bool" where
  "magic_held buf m \<longleftrightarrow> ma_at m + length (ma_bytes m) \<le> length buf
     \<and> take (length (ma_bytes m)) (drop (ma_at m) buf) = ma_bytes m"

definition check_held :: "('c, 's) lay_types \<Rightarrow> lay_plan \<Rightarrow> 'c lay_value list \<Rightarrow> u8 list \<Rightarrow> check_at \<Rightarrow> bool" where
  "check_held T P vs buf c \<longleftrightarrow> (\<exists>i s out. index_where (\<lambda>it. li_name it = ca_field c) (lp_items P) = Some i
     \<and> i < length (lp_items P) \<and> li_body (lp_items P ! i) = native s \<and> prim_bounds s \<noteq> None
     \<and> check_output T P c buf = Some out \<and> vs ! i = native_value s out)"

definition checks_hold :: "('c, 's) lay_types \<Rightarrow> lay_plan \<Rightarrow> 'c lay_value list \<Rightarrow> u8 list \<Rightarrow> bool" where
  "checks_hold T P vs buf \<longleftrightarrow> prefix_held P buf \<and> (\<forall>m \<in> set (as_magic (lp_asserts P)). magic_held buf m)
     \<and> (\<forall>r \<in> set (as_range (lp_asserts P)). range_guard P vs r)
     \<and> (\<forall>c \<in> set (as_check (lp_asserts P)). check_held T P vs buf c)"

section \<open>Reading it\<close>

lemma wire_holds_nth:
  assumes "wire_holds T P vs buf" "i < length (lp_items P)"
  shows "i < length vs" "body_value_ok T (li_body (lp_items P ! i)) (vs ! i)"
    "holds T P (li_phys (lp_items P ! i)) (li_body (lp_items P ! i)) (vs ! i) buf"
  using assms by (auto simp: wire_holds_def list_all2_conv_all_nth)

lemma read_item_holds:
  assumes "plan_ok P" "wire_holds T P vs buf" "loaded \<Longrightarrow> load_raw P buf = Some raw" "i < length (lp_items P)"
  shows "read_body T P loaded raw buf (li_phys (lp_items P ! i)) (li_body (lp_items P ! i)) = Some (Inr (vs ! i))"
proof (rule read_body_holds)
  show "grid_ok P" using assms(1) by (simp add: plan_ok_def)
  show "length buf = lg_bytes P" using assms(2) by (simp add: wire_holds_def)
  show "body_ok P (li_phys (lp_items P ! i)) (li_body (lp_items P ! i))" using item_body_ok [OF assms(1)] assms(4) by simp
qed (use assms(3) wire_holds_nth [OF assms(2,4)] in auto)

lemma read_items_holds:
  assumes "plan_ok P" "wire_holds T P vs buf" "loaded \<Longrightarrow> load_raw P buf = Some raw"
  shows "read_items T P loaded raw buf = Some (Inr vs)"
proof -
  have "length vs = length (lp_items P)" using assms(2) by (auto simp: wire_holds_def dest: list_all2_lengthD)
  then show ?thesis
    unfolding read_items_def
    by (intro each_run_ok) (use read_item_holds [OF assms] in auto)
qed

lemma all_run_ok: "(\<And>x. x \<in> set xs \<Longrightarrow> f x = Some (Inr ())) \<Longrightarrow> all_run f xs = Some (Inr ())"
  by (induction xs) auto

lemma field_i64_holds:
  assumes "plan_ok P" "wire_holds T P vs buf" "loaded \<Longrightarrow> load_raw P buf = Some raw"
    and "index_where (\<lambda>it. li_name it = name) (lp_items P) = Some i" "i < length (lp_items P)" "value_i64 (vs ! i) = Some n"
  shows "field_i64 T P loaded raw buf name = Some (Inr n)"
  using read_item_holds [OF assms(1-3) assms(5)] assms(4,6)
  by (simp add: field_i64_def item_named_index ok_run_def)

lemma range_check_holds:
  assumes "plan_ok P" "wire_holds T P vs buf" "load_raw P buf = Some raw" "range_guard P vs r"
  shows "range_check T P raw buf r = Some (Inr ())"
proof -
  obtain i n where i: "index_where (\<lambda>it. li_name it = ra_field r) (lp_items P) = Some i" "value_i64 (vs ! i) = Some n" "in_range r n"
    using assms(4) by (auto simp: range_guard_def split: option.splits)
  have "i < length (lp_items P)" using index_where_Some [OF i(1)] by simp
  then show ?thesis
    using field_i64_holds [OF assms(1,2) _ i(1) _ i(2), of True raw] assms(3) i(3) by (simp add: range_check_def)
qed

lemma check_verify_holds:
  assumes "plan_ok P" "wire_holds T P vs buf" "loaded \<Longrightarrow> load_raw P buf = Some raw" "check_held T P vs buf c"
  shows "check_verify T P loaded raw buf c = Some (Inr ())"
proof -
  obtain i s out where i: "index_where (\<lambda>it. li_name it = ca_field c) (lp_items P) = Some i" "i < length (lp_items P)"
    "li_body (lp_items P ! i) = native s" "prim_bounds s \<noteq> None" "check_output T P c buf = Some out" "vs ! i = native_value s out"
    using assms(4) by (auto simp: check_held_def)
  obtain n where n: "value_i64 (native_value s out :: 'a lay_value) = Some n"
    using i(4) by (cases s) (auto simp: native_value_def value_i64_def)
  have "check_scalar P c = Some s" using i(1,3) by (simp add: check_scalar_def item_named_index native_def)
  then show ?thesis
    using field_i64_holds [OF assms(1,2) _ i(1,2), where n = n and loaded = loaded and raw = raw] assms(3) i(5,6) n by (simp add: check_verify_def ok_run_def)
qed

lemma flag_check_holds:
  assumes "plan_ok P" "wire_holds T P vs buf" "i < length (lp_items P)" "f \<in> set (item_flag (lp_items P ! i))"
  shows "flag_check buf f = Some (Inr ())"
proof -
  let ?it = "lp_items P ! i"
  obtain p where p: "li_body ?it = BPacked p" "pk_reading p = RNative PBool" "f = (li_name ?it, li_phys ?it div 8)"
    using assms(4) by (cases "li_body ?it") (auto simp: item_flag_def split: if_splits)
  have ok: "packed_placed P (li_phys ?it) p" using item_body_ok [OF assms(1), of ?it] assms(3) p(1) by (simp add: body_ok_def)
  then have pos: "8 dvd li_phys ?it" "pk_bits p = 8" "li_phys ?it + 8 \<le> lg_bits P"
    using p(2) by (auto simp: packed_placed_def)
  have len: "length buf = lg_bytes P" "lg_bits P = 8 * lg_bytes P"
    using assms(1,2) by (simp_all add: wire_holds_def plan_ok_def grid_ok_def)
  obtain b where b: "vs ! i = LvBool b" "\<And>j. j < 8 \<Longrightarrow> cell_bit buf (packed_cell P (li_phys ?it) p j) = bit (if b then 1 else 0 :: u128) j"
    using wire_holds_nth(2,3) [OF assms(2,3)] p pos(2)
    by (auto simp: leaf_value_ok_def native_value_ok_def leaf_raw_def native_raw_def split: lay_value.splits option.splits)
  have cell: "packed_cell P (li_phys ?it) p j = (li_phys ?it div 8, j)" if "j < 8" for j
    using that pos(1) native_cell [OF p(2), of P "li_phys ?it" j]
    by (simp add: byte_cell byte_at_def split: endian.splits)
  have lt: "li_phys ?it div 8 < length buf" using pos len by auto
  have "buf ! (li_phys ?it div 8) = (if b then 1 else 0)"
  proof (rule bit_word_eqI)
    fix j
    assume "j < LENGTH(8)"
    then show "bit (buf ! (li_phys ?it div 8)) j = bit (if b then 1 else 0 :: u8) j"
      using b(2) [of j] cell [of j] lt by (auto simp: cell_bit_def bit_1_iff)
  qed
  then show ?thesis using lt p(3) by (simp add: flag_check_def)
qed

section \<open>The prefix\<close>

lemma nat_bits_below: "v < 2 ^ n \<Longrightarrow> bit v k \<Longrightarrow> k < n" for v :: nat
  by (metis bit_take_bit_iff take_bit_nat_eq_self)

lemma prefix_placed:
  assumes "resolved_plan P" "lp_prefix_value P = Some v"
  shows "\<exists>bits pre pv e ord. lg_grid P = CWord bits pre pv e ord" "1 \<le> lp_prefix P"
    and "prefix_physical P + lp_prefix P \<le> lg_bits P" "lp_prefix P < 64 \<Longrightarrow> v < 2 ^ lp_prefix P"
proof -
  have p: "plan_ok P" "plan_stamps (map li_name (lp_items P)) P" using assms(1) by (simp_all add: resolved_plan_def)
  show one: "1 \<le> lp_prefix P" and "lp_prefix P < 64 \<Longrightarrow> v < 2 ^ lp_prefix P"
    using p(2) assms(2) by (auto simp: plan_stamps_def)
  have pre: "lp_prefix P = container_prefix (lg_grid P)" using p(1) by (simp add: plan_ok_def)
  then show w: "\<exists>bits pre pv e ord. lg_grid P = CWord bits pre pv e ord" using one by (cases "lg_grid P") auto
  have "lp_prefix P \<le> lg_bits P" "grid_ok P" using plan_ok_items(2) [OF p(1)] p(1) by (simp_all add: plan_ok_def)
  then show "prefix_physical P + lp_prefix P \<le> lg_bits P"
    using w by (auto simp: prefix_physical_def physical_in_def grid_ok_def kind_width_def)
qed

text \<open>The number an accessor of the prefix has read.\<close>

lemma bit_prefix_number:
  assumes "n < 64" "\<And>k. k < n \<Longrightarrow> bit got k = B k"
  shows "bit (ucast (got :: u128) AND (push_bit n 1 - 1 :: u64)) k \<longleftrightarrow> k < n \<and> B k"
  using assms
  by (auto simp: bit_and_iff bit_ucast_iff bit_mask_iff push_bit_of_1 simp flip: mask_eq_exp_minus_1)

lemma span_fits:
  fixes pos n span bytes :: nat
  assumes "8 * span < pos mod 8 + n + 8" "n < 64" "pos + n \<le> 8 * bytes"
  shows "span \<le> 16" "pos div 8 + span \<le> bytes"
proof -
  have "pos mod 8 < 8" "8 * (pos div 8) + pos mod 8 = pos" by simp_all
  then show "span \<le> 16" "pos div 8 + span \<le> bytes" using assms by linarith+
qed

text \<open>Both ways, from the register and from the bytes, the prefix read is its cells bit by bit.\<close>

abbreviation prefix_cell :: "lay_plan \<Rightarrow> nat \<Rightarrow> nat \<times> nat" where
  "prefix_cell P k \<equiv> region_cell (lg_endian P) 0 (lg_bits P) (prefix_physical P + k)"

lemma prefix_reads:
  assumes "resolved_plan P" "lp_prefix_value P = Some v" "lp_prefix P < 64" "length buf = lg_bytes P"
    and "loaded \<Longrightarrow> hoisted P \<and> load_raw P buf = Some raw"
  shows "\<exists>got. prefix_check P loaded raw buf = Some (if got \<noteq> of_nat v then Inl (Prefix (of_nat v) got) else Inr ())
    \<and> (\<forall>k. bit got k \<longleftrightarrow> k < lp_prefix P \<and> wire_bit buf (prefix_cell P k))"
proof -
  note placed = prefix_placed [OF assms(1,2)]
  have p: "plan_ok P" using assms(1) by (simp add: resolved_plan_def)
  have g: "grid_ok P" "lg_bits P = 8 * lg_bytes P" using p by (simp_all add: plan_ok_def grid_ok_def)
  define m where "m = (push_bit (lp_prefix P) 1 - 1 :: u64)"
  have mask: "prefix_mask (lp_prefix P) = Some m" using assms(3) by (simp add: prefix_mask_def m_def)
  show ?thesis
  proof (cases loaded)
    case True
    then obtain raw' where raw: "load_raw P buf = Some raw'"
      "\<And>k. bit raw' k \<longleftrightarrow> k < lg_bits P \<and> wire_bit buf (region_cell (lg_endian P) 0 (lg_bits P) k)"
      using raw_exact [OF g(1) _ _ assms(4)] assms(5) hoisted_word(2) [OF p] by blast
    have "raw' = raw" using raw(1) assms(5) True by simp
    have "bit (drop_bit (prefix_physical P) raw) k = wire_bit buf (prefix_cell P k)" if "k < lp_prefix P" for k
    proof -
      have "prefix_physical P + k < lg_bits P" using that placed(3) by linarith
      then show ?thesis unfolding \<open>raw' = raw\<close> [symmetric] bit_drop_bit_eq comp_def raw(2) by blast
    qed
    note number = bit_prefix_number [OF assms(3) this, folded m_def]
    have "prefix_check P loaded raw buf
        = Some (if ucast (drop_bit (prefix_physical P) raw) AND m \<noteq> of_nat v
                then Inl (Prefix (of_nat v) (ucast (drop_bit (prefix_physical P) raw) AND m)) else Inr ())"
      using True assms(2) mask by (simp add: prefix_check_def ok_run_def)
    then show ?thesis using number by blast
  next
    case False
    obtain span where span: "container_window (prefix_physical P) (lp_prefix P) = (prefix_physical P div 8, span)" "1 \<le> span"
      "prefix_physical P mod 8 + lp_prefix P \<le> 8 * span" "8 * span < prefix_physical P mod 8 + lp_prefix P + 8"
      using window_placed [OF placed(2)] by blast
    have fit: "span \<le> 16" "prefix_physical P div 8 + span \<le> lg_bytes P"
      using span_fits [OF span(4) assms(3)] placed(3) g(2) by simp_all
    have reg: "span \<le> next_pow2 span" "next_pow2 span \<le> 16" using next_pow2_bounds [OF span(2) fit(1)] by simp_all
    obtain x where x: "window_bytes (lg_endian P) (wire_offset P (prefix_physical P div 8) span) span (next_pow2 span) buf = Some x"
      "\<And>k. bit x k \<longleftrightarrow> k < 8 * span
         \<and> bit (buf ! (wire_offset P (prefix_physical P div 8) span + byte_at (lg_endian P) span (k div 8))) (k mod 8)"
      using window_bytes_bit [OF _ span(2) reg, of "wire_offset P (prefix_physical P div 8) span" buf "lg_endian P"]
        offset_fits [OF fit(2)] assms(4) by auto
    have "bit (drop_bit (prefix_physical P mod 8) x) k = wire_bit buf (prefix_cell P k)" if k: "k < lp_prefix P" for k
    proof -
      from k have "prefix_physical P mod 8 + k < 8 * span" using span(3) by simp
      from window_number_cell [OF g(2) fit(2) this]
      show ?thesis
        using x(2) [of "prefix_physical P mod 8 + k"] \<open>prefix_physical P mod 8 + k < 8 * span\<close>
        by (simp add: bit_drop_bit_eq wire_bit_def number_cell_def)
    qed
    note number = bit_prefix_number [OF assms(3) this, folded m_def]
    have "prefix_check P loaded raw buf
        = Some (if ucast (drop_bit (prefix_physical P mod 8) x) AND m \<noteq> of_nat v
                then Inl (Prefix (of_nat v) (ucast (drop_bit (prefix_physical P mod 8) x) AND m)) else Inr ())"
      using False assms(2) mask x(1) span(1) by (simp add: prefix_check_def prefix_window_def ok_run_def Let_def)
    then show ?thesis using number by blast
  qed
qed

lemma prefix_check_holds:
  assumes "resolved_plan P" "length buf = lg_bytes P" "loaded \<Longrightarrow> hoisted P \<and> load_raw P buf = Some raw" "prefix_held P buf"
    and "lp_prefix_value P \<noteq> None \<Longrightarrow> lp_prefix P < 64"
  shows "prefix_check P loaded raw buf = Some (Inr ())"
proof (cases "lp_prefix_value P")
  case (Some v)
  note placed = prefix_placed [OF assms(1) Some]
  have n: "lp_prefix P < 64" using assms(5) Some by simp
  have g: "lg_bits P = 8 * lg_bytes P" using assms(1) by (simp add: resolved_plan_def plan_ok_def grid_ok_def)
  obtain got where got: "prefix_check P loaded raw buf = Some (if got \<noteq> of_nat v then Inl (Prefix (of_nat v) got) else Inr ())"
    "\<And>k. bit got k \<longleftrightarrow> k < lp_prefix P \<and> wire_bit buf (prefix_cell P k)"
    using prefix_reads [OF assms(1) Some n assms(2,3)] by blast
  have bits: "wire_bit buf (prefix_cell P k) = bit v k" if "k < lp_prefix P" for k
  proof -
    have "fst (prefix_cell P k) < length buf"
      using that placed(3) g assms(2) by (cases "lg_endian P") (auto simp: region_cell_def)
    from cell_bit_wire [OF this] show ?thesis using assms(4) that Some by (simp add: prefix_held_def)
  qed
  have "bit got k = bit (of_nat v :: u64) k" for k
    using got(2) [of k] bits [of k] nat_bits_below [OF placed(4) [OF n], of k] n by (auto simp: bit_of_nat_iff)
  then have "got = of_nat v" by (intro bit_word_eqI) simp
  then show ?thesis using got(1) by simp
qed (simp add: prefix_check_def)

section \<open>Decode\<close>

lemma magic_check_holds: "magic_held buf m \<Longrightarrow> magic_check buf m = Some (Inr ())"
  by (simp add: magic_held_def magic_check_def)

text \<open>The plan of a prefix that a 64-bit mask can hold.\<close>

definition prefix_small :: "lay_plan \<Rightarrow> bool" where
  "prefix_small P \<longleftrightarrow> (lp_prefix_value P \<noteq> None \<longrightarrow> lp_prefix P < 64)"

text \<open>The check of a wider one does not come to be: the macro overflows while it writes the mask.\<close>

lemma wide_prefix_panics: "\<not> prefix_small P \<Longrightarrow> prefix_check P loaded raw buf = None"
  by (auto simp: prefix_small_def prefix_check_def prefix_mask_def ok_run_def)

lemma decode_checked_holds:
  assumes "resolved_plan P" "prefix_small P" "wire_holds T P vs buf" "checks_hold T P vs buf" "load_raw P buf = Some raw"
  shows "decode_checked T P raw buf = Some (Inr vs)"
proof -
  have p: "plan_ok P" using assms(1) by (simp add: resolved_plan_def)
  have read: "read_items T P True raw buf = Some (Inr vs)" by (rule read_items_holds [OF p assms(3,5)])
  have "all_run (magic_check buf) (as_magic (lp_asserts P)) = Some (Inr ())"
    using assms(4) magic_check_holds by (intro all_run_ok) (auto simp: checks_hold_def)
  moreover have "prefix_check P (hoisted P) raw buf = Some (Inr ())"
    using assms by (intro prefix_check_holds) (auto simp: checks_hold_def prefix_small_def wire_holds_def)
  moreover have "all_run (flag_check buf) (as_flags (lp_asserts P)) = Some (Inr ())"
  proof (intro all_run_ok)
    fix f assume "f \<in> set (as_flags (lp_asserts P))"
    then obtain it where it: "it \<in> set (lp_items P)" "f \<in> set (item_flag it)" using assms(1) by (auto simp: resolved_plan_def)
    obtain i where "i < length (lp_items P)" "it = lp_items P ! i" using it(1) by (auto simp: in_set_conv_nth)
    with it(2) have "i < length (lp_items P)" "f \<in> set (item_flag (lp_items P ! i))" by simp_all
    then show "flag_check buf f = Some (Inr ())" by (rule flag_check_holds [OF p assms(3)])
  qed
  moreover have "all_run (range_check T P raw buf) (as_range (lp_asserts P)) = Some (Inr ())"
    using assms(4) range_check_holds [OF p assms(3,5)] by (intro all_run_ok) (auto simp: checks_hold_def)
  moreover have "all_run (check_verify T P True raw buf) (as_check (lp_asserts P)) = Some (Inr ())"
    using assms(4) check_verify_holds [OF p assms(3,5)] by (intro all_run_ok) (auto simp: checks_hold_def)
  ultimately show ?thesis using read by (simp add: decode_checked_def Let_def)
qed

text \<open>A layout loaded into a register needs no bytes, so the integer form runs the same checks.\<close>

lemma read_body_register:
  assumes "register P = Some reg" "\<not> is_native p"
  shows "read_body T P True raw buf pos (BPacked p) = read_body T P True raw buf' pos (BPacked p)"
proof -
  have "\<exists>w. access_of P True pos p = Some (ARegister pos w reg)" if "lg_grid P = CWord b pre pv e ord" for b pre pv e ord
    using assms that by (auto simp: access_of_def register_def is_native_def split: reading.splits if_splits)
  moreover have "\<exists>b pre pv e ord. lg_grid P = CWord b pre pv e ord"
    using assms(1) by (cases "lg_grid P") (auto simp: register_def hoisted_def split: if_splits)
  ultimately show ?thesis by auto
qed

lemma each_run_cong: "(\<And>x. x \<in> set xs \<Longrightarrow> f x = g x) \<Longrightarrow> each_run f xs = each_run g xs"
  by (induction xs) auto

lemma all_run_cong: "(\<And>x. x \<in> set xs \<Longrightarrow> f x = g x) \<Longrightarrow> all_run f xs = all_run g xs"
  by (induction xs) auto

lemma decode_checked_register:
  assumes "resolved_plan P" "register P = Some reg"
  shows "decode_checked T P raw buf = decode_checked T P raw buf'"
proof -
  have p: "plan_ok P" and h: "hoisted P" using assms by (auto simp: resolved_plan_def register_def split: if_splits)
  obtain bits pre pv e ord where c: "lg_grid P = CWord bits pre pv e ord" using hoisted_word(1) [OF p h] by blast
  have read: "read_body T P True raw buf (li_phys it) (li_body it) = read_body T P True raw buf' (li_phys it) (li_body it)"
    if "it \<in> set (lp_items P)" for it
    using hoisted_word(3) [OF p h that] read_body_register [OF assms(2)] by metis
  have none: "li_magic it = None \<and> li_check it = None" if "it \<in> set (lp_items P)" for it
    using assms(1) that c by (auto simp: resolved_plan_def plan_stamps_def stamp_ok_def stamped_def)
  have "as_magic (lp_asserts P) = [] \<and> as_check (lp_asserts P) = []"
    using assms(1) none by (auto simp: resolved_plan_def filter_empty_conv)
  moreover have "item_flag it = []" if "it \<in> set (lp_items P)" for it
    using hoisted_word(3) [OF p h that] by (auto simp: item_flag_def is_native_def)
  then have "as_flags (lp_asserts P) = []" using assms(1) by (simp add: resolved_plan_def)
  moreover have "read_items T P True raw buf = read_items T P True raw buf'"
    unfolding read_items_def by (rule each_run_cong) (rule read)
  moreover have "prefix_check P (hoisted P) raw buf = prefix_check P (hoisted P) raw buf'"
    using h by (simp add: prefix_check_def split: option.splits)
  moreover have "range_check T P raw buf r = range_check T P raw buf' r" for r
  proof (cases "index_where (\<lambda>it. li_name it = ra_field r) (lp_items P)")
    case (Some i)
    then show ?thesis
      using read [of "lp_items P ! i"] index_where_Some [OF Some] by (simp add: range_check_def field_i64_def item_named_index)
  qed (simp add: range_check_def field_i64_def item_named_index)
  then have "all_run (range_check T P raw buf) rs = all_run (range_check T P raw buf') rs" for rs by (intro all_run_cong)
  ultimately show ?thesis by (simp add: decode_checked_def Let_def)
qed

lemma word_ty_load:
  assumes "resolved_plan P" "word_ty P = Some reg" "length buf = lg_bytes P"
  shows "load_raw P buf = Some (from_bytes (lg_endian P) buf)"
proof -
  have r: "register P = Some reg" "reg = lg_bytes P" using assms(2) by (auto simp: word_ty_def split: option.splits if_splits)
  have p: "plan_ok P" and h: "hoisted P" and g: "grid_ok P" "lg_bits P = 8 * lg_bytes P" "lg_bits P \<le> 64"
    using assms(1) r(1) by (auto simp: resolved_plan_def plan_ok_def grid_ok_def register_def split: if_splits)
  obtain raw where raw: "load_raw P buf = Some raw"
    "\<And>n. bit raw n \<longleftrightarrow> n < lg_bits P \<and> wire_bit buf (region_cell (lg_endian P) 0 (lg_bits P) n)"
    using raw_exact [OF g(1) h hoisted_word(2) [OF p h] assms(3)] by blast
  have "raw = from_bytes (lg_endian P) buf"
    by (rule bit_word_eqI)
      (use g assms(3) in \<open>auto simp: raw(2) bit_from_bytes wire_bit_def region_cell_alt\<close>)
  then show ?thesis using raw(1) by simp
qed

lemma lay_decode_holds:
  assumes "resolved_plan P" "prefix_small P" "wire_holds T P vs buf" "checks_hold T P vs buf"
  shows "lay_decode T P buf = Some (Inr vs)"
proof -
  have len: "length buf = lg_bytes P" using assms(3) by (simp add: wire_holds_def)
  show ?thesis
  proof (cases "word_ty P")
    case (Some reg)
    then have r: "register P = Some reg" by (auto simp: word_ty_def split: option.splits if_splits)
    have "decode_checked T P (from_bytes (lg_endian P) buf) buf = Some (Inr vs)"
      by (rule decode_checked_holds [OF assms word_ty_load [OF assms(1) Some len]])
    then show ?thesis
      using Some len decode_checked_register [OF assms(1) r, of T _ "[]" buf] by (simp add: lay_decode_def lay_from_bits_def)
  next
    case None
    have "\<exists>raw. load_raw P buf = Some raw"
    proof (cases "hoisted P")
      case True
      then show ?thesis
        using raw_exact [OF _ True _ len] hoisted_word(2) assms(1) by (auto simp: resolved_plan_def plan_ok_def)
    next
      case False
      then show ?thesis by (simp add: load_raw_def register_def)
    qed
    then show ?thesis using None len decode_checked_holds [OF assms] by (auto simp: lay_decode_def)
  qed
qed

end
