(* ===== verification/LayoutWriting.thy ===== *)
theory LayoutWriting
  imports LayoutReading
begin

text \<open>
  The \<open>encode\<close> that \<open>#[derive(Layout)]\<close> emits makes the wire hold every field's value, the prefix, each magic and
  each checksum (\<open>layline-derive/src/layout/emit.rs\<close>, \<open>asserts.rs\<close>), so \<open>decode\<close> reads the values back.
\<close>

section \<open>Fields apart\<close>

lemma distinct_concat_nth:
  assumes "distinct (concat (map f xs))" "i < j" "j < length xs"
  shows "set (f (xs ! i)) \<inter> set (f (xs ! j)) = {}"
  using assms
proof (induction xs arbitrary: i j)
  case (Cons x xs)
  show ?case
  proof (cases i)
    case 0
    have "xs ! (j - 1) \<in> set xs" using Cons.prems(2,3) 0 by (intro nth_mem) simp
    moreover have "set (f x) \<inter> (\<Union>a \<in> set xs. set (f a)) = {}" using Cons.prems(1) by simp
    ultimately have "set (f x) \<inter> set (f (xs ! (j - 1))) = {}" by blast
    then show ?thesis using Cons.prems(2) 0 by (simp add: nth_Cons')
  next
    case (Suc i')
    then show ?thesis using Cons.IH [of i' "j - 1"] Cons.prems by (auto simp: nth_Cons')
  qed
qed simp

lemma items_apart:
  assumes "plan_ok P" "arrays_regular P" "i < j" "j < length (lp_items P)"
  shows "set (item_cells P (lp_items P ! i)) \<inter> set (item_cells P (lp_items P ! j)) = {}"
  using plan_tiles(1) [OF assms(1,2)] assms(3,4) by (intro distinct_concat_nth) simp_all

lemma prefix_apart:
  assumes "plan_ok P" "arrays_regular P" "it \<in> set (lp_items P)"
  shows "set (prefix_cells P) \<inter> set (item_cells P it) = {}"
  using plan_tiles(1) [OF assms(1,2)] assms(3) by auto

section \<open>A layout held in a register\<close>

lemma bit_reg_or_wide: "n < 128 \<Longrightarrow> bit (push_bit s v :: u128) n \<longleftrightarrow> s \<le> n \<and> bit v (n - s)"
  by (auto simp: bit_push_bit_iff)

lemma held_packed_write:
  assumes "grid_ok P" "hoisted P" "packed_placed P pos p" "leaf_ok p" "\<not> is_native p" "leaf_value_ok T p v"
    and "\<And>n. pos \<le> n \<Longrightarrow> n < pos + pk_bits p \<Longrightarrow> \<not> bit bits n"
  shows "\<exists>bits' raw. write_body T P True guard pos (BPacked p) v (bits, buf) = Some (bits', buf) \<and> leaf_raw T p v = Some raw
    \<and> (\<forall>n. bit bits' n \<longleftrightarrow> (if pos \<le> n \<and> n < pos + pk_bits p then bit raw (n - pos) else bit bits n))"
proof -
  obtain raw where raw: "leaf_raw T p v = Some raw" using leaf_value_raw [of T p v] assms(6) by blast
  have other: "pk_reading p \<noteq> RNative s" for s using assms(5) by (auto simp: is_native_def)
  have "\<exists>a. access_of P True pos p = Some a"
    using held_store [OF assms(1,3,2) other assms(7)] by blast
  then obtain a where a: "access_of P True pos p = Some a" by blast
  obtain r where r: "encode_raw T p a v = Some r" "\<forall>j < pk_bits p. bit r j = bit raw j"
    using encode_leaf [OF assms(1,3) a assms(4) raw] by blast
  obtain bits' where b: "store P a r (bits, buf) = Some (bits', buf)"
    "\<forall>n. bit bits' n \<longleftrightarrow> (if pos \<le> n \<and> n < pos + pk_bits p then bit r (n - pos) else bit bits n)"
    using held_store [OF assms(1,3,2) other assms(7), of r buf] a by auto
  have "write_body T P True guard pos (BPacked p) v (bits, buf) = Some (bits', buf)"
    using a r(1) b(1) fits_leaf [OF assms(4,6)] by simp
  then show ?thesis using raw b(2) r(2) by auto
qed

text \<open>The bits of a field in the register.\<close>

definition register_holds :: "('c, 's) lay_types \<Rightarrow> nat \<Rightarrow> lay_body \<Rightarrow> 'c lay_value \<Rightarrow> u128 \<Rightarrow> bool" where
  "register_holds T pos b v bits \<longleftrightarrow>
     (case b of
        BPacked p \<Rightarrow>
          (case leaf_raw T p v of Some raw \<Rightarrow> \<forall>j < pk_bits p. bit bits (pos + j) = bit raw j | None \<Rightarrow> False)
      | _ \<Rightarrow> False)"

definition item_bits :: "lay_item \<Rightarrow> nat set" where
  "item_bits it = {li_phys it..<li_phys it + body_bits (li_body it)}"

lemma register_holds_cong:
  "(\<forall>n \<in> {pos..<pos + body_bits b}. bit bits n = bit bits' n) \<Longrightarrow> register_holds T pos b v bits \<Longrightarrow> register_holds T pos b v bits'"
  by (auto simp: register_holds_def split: lay_body.splits option.splits)

lemma word_cells:
  assumes "grid_ok P" "lg_grid P = CWord bits pre pv e ord"
  shows "\<not> is_native p \<Longrightarrow> packed_cell P pos p j = region_cell (lg_endian P) 0 (lg_bits P) (pos + j)"
    and "wire_cell P m = region_cell (lg_endian P) 0 (lg_bits P) m"
  using assms by (auto simp: packed_cell_def packed_region_def grid_ok_def wire_cell_def is_native_def split: reading.splits)

lemma hoisted_bits_apart:
  assumes "plan_ok P" "arrays_regular P" "hoisted P"
  shows "i < j \<Longrightarrow> j < length (lp_items P) \<Longrightarrow> item_bits (lp_items P ! i) \<inter> item_bits (lp_items P ! j) = {}"
    and "it \<in> set (lp_items P) \<Longrightarrow> {prefix_physical P..<prefix_physical P + lp_prefix P} \<inter> item_bits it = {}"
proof -
  obtain bits pre pv e ord where c: "lg_grid P = CWord bits pre pv e ord" using hoisted_word(1) [OF assms(1,3)] by blast
  have g: "grid_ok P" using assms(1) by (simp add: plan_ok_def)
  have cells: "wire_cell P n \<in> set (item_cells P it)" if it: "it \<in> set (lp_items P)" and n: "n \<in> item_bits it" for n it
  proof -
    obtain p where p: "li_body it = BPacked p" "\<not> is_native p" using hoisted_word(3) [OF assms(1,3) it] by blast
    have "wire_cell P n = packed_cell P (li_phys it) p (n - li_phys it)"
      using n p word_cells [OF g c] by (simp add: item_bits_def)
    then show ?thesis using n p by (auto simp: item_cells_def item_bits_def)
  qed
  show "item_bits (lp_items P ! i) \<inter> item_bits (lp_items P ! j) = {}" if ij: "i < j" "j < length (lp_items P)"
    using items_apart [OF assms(1,2) ij] cells ij by (meson disjoint_iff nth_mem order.strict_trans)
  show "{prefix_physical P..<prefix_physical P + lp_prefix P} \<inter> item_bits it = {}" if it: "it \<in> set (lp_items P)"
  proof -
    have "wire_cell P n \<in> set (prefix_cells P)" if "n \<in> {prefix_physical P..<prefix_physical P + lp_prefix P}" for n
      unfolding prefix_cells_def set_map word_cells(2) [OF g c]
      by (rule image_eqI [of _ _ "n - prefix_physical P"]) (use that in auto)
    then show ?thesis using prefix_apart [OF assms(1,2) it] cells [OF it] by blast
  qed
qed

lemma bit_prefix_bits:
  assumes "resolved_plan P" "prefix_small P" "hoisted P"
  shows "bit (prefix_bits P) n \<longleftrightarrow>
    (\<exists>v. lp_prefix_value P = Some v \<and> prefix_physical P \<le> n \<and> n < prefix_physical P + lp_prefix P \<and> bit v (n - prefix_physical P))"
proof (cases "lp_prefix_value P")
  case (Some v)
  have v: "v < 2 ^ lp_prefix P" "lp_prefix P < 64" "prefix_physical P + lp_prefix P \<le> lg_bits P"
    using prefix_placed [OF assms(1) Some] assms(2) Some by (simp_all add: prefix_small_def)
  have g: "lg_bits P = 8 * lg_bytes P" "lg_bits P \<le> 128"
    using assms(1,3) by (simp_all add: resolved_plan_def plan_ok_def grid_ok_def hoisted_def)
  have below: "bit v k \<Longrightarrow> k < lp_prefix P" for k using nat_bits_below [OF v(1)] .
  show ?thesis
  proof (cases "register P")
    case None
    have "bit (prefix_bits P) n \<longleftrightarrow> n < 128 \<and> prefix_physical P \<le> n \<and> bit v (n - prefix_physical P)"
      using Some None by (auto simp: prefix_bits_def bit_push_bit_iff bit_of_nat_iff)
    then show ?thesis using Some v(3) g(2) below [of "n - prefix_physical P"] by auto
  next
    case (Some reg)
    have "lg_bytes P \<le> 8" using g(1) Some by (auto simp: register_def split: if_splits)
    then have "lg_bytes P \<le> reg"
      using Some next_pow2_bounds [of "lg_bytes P"] by (cases "lg_bytes P = 0") (auto simp: register_def split: if_splits)
    then have reg: "lg_bits P \<le> 8 * reg" using g(1) by simp
    have "bit (prefix_bits P) n \<longleftrightarrow> n < 128 \<and> n < 8 * reg \<and> prefix_physical P \<le> n \<and> bit v (n - prefix_physical P)"
      using \<open>lp_prefix_value P = Some v\<close> Some
      by (auto simp: prefix_bits_def bit_reg_mask bit_push_bit_iff bit_of_nat_iff)
    then show ?thesis using \<open>lp_prefix_value P = Some v\<close> v(3) g(2) reg below [of "n - prefix_physical P"] by auto
  qed
qed (simp add: prefix_bits_def)

text \<open>The values a caller may encode.\<close>

definition values_ok :: "('c, 's) lay_types \<Rightarrow> lay_plan \<Rightarrow> 'c lay_value list \<Rightarrow> bool" where
  "values_ok T P vs \<longleftrightarrow> list_all2 (\<lambda>it v. body_value_ok T (li_body it) v) (lp_items P) vs
     \<and> list_all (range_guard P vs) (as_range (lp_asserts P))"

lemma hoisted_writes:
  assumes "resolved_plan P" "prefix_small P" "arrays_regular P" "hoisted P" "values_ok T P vs"
  shows "\<exists>bits. encode_bits T P vs = Some bits
    \<and> (\<forall>i < length (lp_items P). register_holds T (li_phys (lp_items P ! i)) (li_body (lp_items P ! i)) (vs ! i) bits)
    \<and> (\<forall>n \<in> {prefix_physical P..<prefix_physical P + lp_prefix P}. bit bits n = bit (prefix_bits P) n)"
proof -
  have p: "plan_ok P" using assms(1) by (simp add: resolved_plan_def)
  then have g: "grid_ok P" by (simp add: plan_ok_def)
  have len: "length vs = length (lp_items P)" using assms(5) by (auto simp: values_ok_def dest: list_all2_lengthD)
  define f where "f = (\<lambda>i v. write_body T P True (\<not> lp_truncate P) (li_phys (lp_items P ! i)) (li_body (lp_items P ! i)) v)"
  have "\<exists>st'. write_each f 0 vs (prefix_bits P, []) = Some st' \<and> snd st' = []
    \<and> (\<forall>i < length vs. register_holds T (li_phys (lp_items P ! (0 + i))) (li_body (lp_items P ! (0 + i))) (vs ! i) (fst st'))
    \<and> (\<forall>n. n \<notin> (\<Union>i < length vs. item_bits (lp_items P ! (0 + i))) \<longrightarrow> bit (fst st') n = bit (fst (prefix_bits P, [] :: u8 list)) n)"
  proof (rule write_each_spec [where look = "\<lambda>(st :: u128 \<times> u8 list) n. bit (fst st) n" and Inv = "\<lambda>st :: u128 \<times> u8 list. snd st = []"
        and pre = "\<lambda>i (st :: u128 \<times> u8 list). \<forall>n \<in> item_bits (lp_items P ! i). \<not> bit (fst st) n" and cells = "\<lambda>i. item_bits (lp_items P ! i)"
        and Hold = "\<lambda>i v (st :: u128 \<times> u8 list). register_holds T (li_phys (lp_items P ! i)) (li_body (lp_items P ! i)) v (fst st)"])
    fix i and st :: "u128 \<times> u8 list"
    assume i: "i < length vs" "snd st = []" "\<forall>n \<in> item_bits (lp_items P ! (0 + i)). \<not> bit (fst st) n"
    let ?it = "lp_items P ! i"
    have it: "?it \<in> set (lp_items P)" using i(1) len by simp
    obtain q where q: "li_body ?it = BPacked q" "\<not> is_native q" using hoisted_word(3) [OF p assms(4) it] by blast
    have ok: "packed_placed P (li_phys ?it) q" "leaf_ok q" using item_body_ok [OF p it] q(1) by (simp_all add: body_ok_def)
    have v: "leaf_value_ok T q (vs ! i)" using assms(5) i(1) len q(1) by (auto simp: values_ok_def list_all2_conv_all_nth)
    obtain bits' raw where w: "write_body T P True (\<not> lp_truncate P) (li_phys ?it) (BPacked q) (vs ! i) (fst st, snd st) = Some (bits', snd st)"
      "leaf_raw T q (vs ! i) = Some raw"
      "\<forall>n. bit bits' n \<longleftrightarrow> (if li_phys ?it \<le> n \<and> n < li_phys ?it + pk_bits q then bit raw (n - li_phys ?it) else bit (fst st) n)"
      using held_packed_write [OF g assms(4) ok q(2) v, of "fst st" "\<not> lp_truncate P" "snd st"] i(3) q(1) by (auto simp: item_bits_def)
    show "\<exists>st'. f (0 + i) (vs ! i) st = Some st' \<and> snd st' = []
      \<and> register_holds T (li_phys (lp_items P ! (0 + i))) (li_body (lp_items P ! (0 + i))) (vs ! i) (fst st')
      \<and> (\<forall>n. n \<notin> item_bits (lp_items P ! (0 + i)) \<longrightarrow> bit (fst st') n = bit (fst st) n)"
      by (rule exI [of _ "(bits', snd st)"]) (use w q i(2) in \<open>cases st; auto simp: f_def register_holds_def item_bits_def\<close>)
  next
    show "\<And>i j. i < j \<Longrightarrow> j < length vs \<Longrightarrow> item_bits (lp_items P ! (0 + i)) \<inter> item_bits (lp_items P ! (0 + j)) = {}"
      using hoisted_bits_apart(1) [OF p assms(3,4)] len by simp
  next
    fix i v and st st' :: "u128 \<times> u8 list"
    assume "\<forall>c \<in> item_bits (lp_items P ! (0 + i)). bit (fst st) c = bit (fst st') c"
    then show "((\<forall>n \<in> item_bits (lp_items P ! (0 + i)). \<not> bit (fst st) n) \<longrightarrow> (\<forall>n \<in> item_bits (lp_items P ! (0 + i)). \<not> bit (fst st') n))
      \<and> (register_holds T (li_phys (lp_items P ! (0 + i))) (li_body (lp_items P ! (0 + i))) v (fst st)
         \<longrightarrow> register_holds T (li_phys (lp_items P ! (0 + i))) (li_body (lp_items P ! (0 + i))) v (fst st'))"
      using register_holds_cong [of "li_phys (lp_items P ! i)" "li_body (lp_items P ! i)" "fst st" "fst st'" T v]
      by (auto simp: item_bits_def)
  next
    fix i
    assume "i < length vs"
    then have "{prefix_physical P..<prefix_physical P + lp_prefix P} \<inter> item_bits (lp_items P ! i) = {}"
      using hoisted_bits_apart(2) [OF p assms(3,4)] len by simp
    then show "\<forall>n \<in> item_bits (lp_items P ! (0 + i)). \<not> bit (fst (prefix_bits P, [] :: u8 list)) n"
      using bit_prefix_bits [OF assms(1,2,4)] by auto
  qed simp
  then obtain st' where st: "write_each f 0 vs (prefix_bits P, []) = Some st'"
    "\<forall>i < length vs. register_holds T (li_phys (lp_items P ! i)) (li_body (lp_items P ! i)) (vs ! i) (fst st')"
    "\<forall>n. n \<notin> (\<Union>i < length vs. item_bits (lp_items P ! i)) \<longrightarrow> bit (fst st') n = bit (prefix_bits P) n" by auto
  have "write_items T P vs (prefix_bits P, []) = Some st'" using st(1) len by (simp add: write_items_def f_def)
  then have "encode_bits T P vs = Some (fst st')"
    using assms(5) by (simp add: encode_bits_def values_ok_def)
  moreover have "bit (fst st') n = bit (prefix_bits P) n" if "n \<in> {prefix_physical P..<prefix_physical P + lp_prefix P}" for n
    using st(3) that hoisted_bits_apart(2) [OF p assms(3,4)] len by (metis (no_types, lifting) UN_E disjoint_iff lessThan_iff nth_mem)
  ultimately show ?thesis using st(2) len by auto
qed

lemma hoisted_wire:
  assumes "plan_ok P" "hoisted P" "encode_bits T P vs = Some bits"
  shows "\<exists>wire. lay_encode T P vs = Some wire \<and> length wire = lg_bytes P
    \<and> (\<forall>m < lg_bits P. cell_bit wire (region_cell (lg_endian P) 0 (lg_bits P) m) = bit bits m)"
proof -
  have g: "lg_bits P = 8 * lg_bytes P" "lg_bits P \<le> 128" and n: "1 \<le> lg_bytes P"
    using assms(1,2) hoisted_word(2) [OF assms(1,2)] by (auto simp: plan_ok_def grid_ok_def hoisted_def)
  have part: "cell_bit (wire_part (lg_endian P) (lg_bytes P) reg v) (region_cell (lg_endian P) 0 (lg_bits P) m) = bit v m"
    if "lg_bytes P \<le> reg" "m < lg_bits P" for reg v m
  proof -
    have k: "m div 8 < lg_bytes P" using that(2) g(1) by (simp add: less_mult_imp_div_less)
    note b = byte_at_less [OF k, of "lg_endian P"] byte_at_twice [OF k, of "lg_endian P"]
    have "region_cell (lg_endian P) 0 (lg_bits P) m = (byte_at (lg_endian P) (lg_bytes P) (m div 8), m mod 8)"
      using g(1) by (simp add: region_cell_alt)
    then show ?thesis
      using wire_part_nth [OF that(1), where e = "lg_endian P" and v = v] b by (simp add: cell_bit_def)
  qed
  show ?thesis
  proof (cases "register P")
    case (Some reg)
    have "reg = next_pow2 (lg_bytes P)" using Some by (auto simp: register_def split: if_splits)
    then have "lg_bytes P \<le> reg" using next_pow2_bounds [of "lg_bytes P"] n g by simp
    then show ?thesis
      using part Some assms(3) wire_part_nth(1) [of "lg_bytes P" reg] by (simp add: lay_encode_def register_store_def)
  next
    case None
    define w where "w = bits AND mask128 (lg_bits P)"
    have w: "set_raw (lg_bits P) (lg_bytes P) bits = Some w"
      using g n by (simp add: set_raw_def bw_mask_def w_def)
    have "(case lg_endian P of Le \<Rightarrow> to_wire (lg_bytes P) w | Be \<Rightarrow> to_wire_be (lg_bytes P) w)
        = wire_part (lg_endian P) (lg_bytes P) (lg_bytes P) w"
      by (simp add: to_bytes_def flip: to_bytes_part)
    then have "lay_encode T P vs = Some (wire_part (lg_endian P) (lg_bytes P) (lg_bytes P) w)"
      using None assms(2,3) w by (simp add: lay_encode_def)
    moreover have "bit w m = bit bits m" if "m < lg_bits P" for m
      using that g(2) by (simp add: w_def bit_and_iff bit_mask128)
    ultimately show ?thesis using part [of "lg_bytes P" _ w] wire_part_nth(1) [of "lg_bytes P" "lg_bytes P"] by auto
  qed
qed

text \<open>A layout held in a register carries no stamp but the prefix.\<close>

lemma hoisted_encodes:
  assumes "resolved_plan P" "prefix_small P" "arrays_regular P" "hoisted P" "values_ok T P vs"
  shows "\<exists>wire. lay_encode T P vs = Some wire \<and> wire_holds T P vs wire \<and> checks_hold T P vs wire"
proof -
  have p: "plan_ok P" using assms(1) by (simp add: resolved_plan_def)
  obtain gb pre pv e ord where c: "lg_grid P = CWord gb pre pv e ord" using hoisted_word(1) [OF p assms(4)] by blast
  have g: "grid_ok P" using p by (simp add: plan_ok_def)
  obtain bits where bits: "encode_bits T P vs = Some bits"
    "\<And>i. i < length (lp_items P) \<Longrightarrow> register_holds T (li_phys (lp_items P ! i)) (li_body (lp_items P ! i)) (vs ! i) bits"
    "\<And>n. n \<in> {prefix_physical P..<prefix_physical P + lp_prefix P} \<Longrightarrow> bit bits n = bit (prefix_bits P) n"
    using hoisted_writes [OF assms] by blast
  obtain wire where wire: "lay_encode T P vs = Some wire" "length wire = lg_bytes P"
    "\<And>m. m < lg_bits P \<Longrightarrow> cell_bit wire (region_cell (lg_endian P) 0 (lg_bits P) m) = bit bits m"
    using hoisted_wire [OF p assms(4) bits(1)] by blast
  have len: "length vs = length (lp_items P)" using assms(5) by (auto simp: values_ok_def dest: list_all2_lengthD)
  have "holds T P (li_phys (lp_items P ! i)) (li_body (lp_items P ! i)) (vs ! i) wire" if i: "i < length (lp_items P)" for i
  proof -
    let ?it = "lp_items P ! i"
    have it: "?it \<in> set (lp_items P)" using i by simp
    obtain q where q: "li_body ?it = BPacked q" "\<not> is_native q" using hoisted_word(3) [OF p assms(4) it] by blast
    have "packed_placed P (li_phys ?it) q" using item_body_ok [OF p it] q(1) by (simp add: body_ok_def)
    then have "li_phys ?it + pk_bits q \<le> lg_bits P" by (simp add: packed_placed_def)
    then show ?thesis
      using bits(2) [OF i] q(1) wire(3) word_cells(1) [OF g c q(2)]
      by (auto simp: register_holds_def split: option.splits)
  qed
  then have "wire_holds T P vs wire"
    using assms(5) wire(2) len by (auto simp: wire_holds_def values_ok_def list_all2_conv_all_nth)
  moreover have "prefix_held P wire"
    unfolding prefix_held_def
  proof (intro allI impI)
    fix v j
    assume v: "lp_prefix_value P = Some v" and j: "j < lp_prefix P"
    have "prefix_physical P + j < lg_bits P" using prefix_placed(3) [OF assms(1) v] j by linarith
    then have "cell_bit wire (region_cell (lg_endian P) 0 (lg_bits P) (prefix_physical P + j)) = bit bits (prefix_physical P + j)"
      by (rule wire(3))
    also have "\<dots> = bit v j" using bits(3) [of "prefix_physical P + j"] bit_prefix_bits [OF assms(1,2,4)] v j by simp
    finally show "cell_bit wire (region_cell (lg_endian P) 0 (lg_bits P) (prefix_physical P + j)) = bit v j" .
  qed
  moreover have none: "li_magic it = None \<and> li_check it = None" if "it \<in> set (lp_items P)" for it
    using assms(1) that c by (auto simp: resolved_plan_def plan_stamps_def stamp_ok_def stamped_def)
  have "as_magic (lp_asserts P) = [] \<and> as_check (lp_asserts P) = []"
    using assms(1) none by (auto simp: resolved_plan_def filter_empty_conv)
  moreover have "\<forall>r \<in> set (as_range (lp_asserts P)). range_guard P vs r"
    using assms(5) by (simp add: values_ok_def list_all_iff)
  ultimately show ?thesis using wire(1) by (simp add: checks_hold_def)
qed

section \<open>A layout written as bytes\<close>

lemma plain_writes:
  assumes "plan_ok P" "arrays_regular P" "\<not> hoisted P" "values_ok T P vs" "length buf = lg_bytes P"
  shows "\<exists>buf'. write_items T P vs (0, buf) = Some (0, buf') \<and> length buf' = lg_bytes P
    \<and> (\<forall>i < length (lp_items P). holds T P (li_phys (lp_items P ! i)) (li_body (lp_items P ! i)) (vs ! i) buf')"
proof -
  have g: "grid_ok P" using assms(1) by (simp add: plan_ok_def)
  have len: "length vs = length (lp_items P)" using assms(4) by (auto simp: values_ok_def dest: list_all2_lengthD)
  define f where "f = (\<lambda>i v. write_body T P True (\<not> lp_truncate P) (li_phys (lp_items P ! i)) (li_body (lp_items P ! i)) v)"
  have "\<exists>st'. write_each f 0 vs (0, buf) = Some st' \<and> (fst st' = 0 \<and> length (snd st') = lg_bytes P)
    \<and> (\<forall>i < length vs. holds T P (li_phys (lp_items P ! (0 + i))) (li_body (lp_items P ! (0 + i))) (vs ! i) (snd st'))
    \<and> (\<forall>c. c \<notin> (\<Union>i < length vs. set (item_cells P (lp_items P ! (0 + i))))
        \<longrightarrow> cell_bit (snd st') c = cell_bit (snd (0 :: u128, buf)) c)"
  proof (rule write_each_spec [where look = "\<lambda>st :: u128 \<times> u8 list. cell_bit (snd st)" and pre = "\<lambda>_ _. True"
        and Inv = "\<lambda>st :: u128 \<times> u8 list. fst st = 0 \<and> length (snd st) = lg_bytes P"
        and cells = "\<lambda>i. set (item_cells P (lp_items P ! i))"
        and Hold = "\<lambda>i v (st :: u128 \<times> u8 list). holds T P (li_phys (lp_items P ! i)) (li_body (lp_items P ! i)) v (snd st)"])
    fix i and st :: "u128 \<times> u8 list"
    assume i: "i < length vs" and st: "fst st = 0 \<and> length (snd st) = lg_bytes P"
    let ?it = "lp_items P ! i"
    obtain b where b: "st = (0, b)" "length b = lg_bytes P" using st by (cases st) simp
    have ok: "body_ok P (li_phys ?it) (li_body ?it)" using item_body_ok [OF assms(1), of ?it] i len by simp
    have v: "body_value_ok T (li_body ?it) (vs ! i)" using assms(4) i len by (auto simp: values_ok_def list_all2_conv_all_nth)
    obtain b' where "write_body T P True (\<not> lp_truncate P) (li_phys ?it) (li_body ?it) (vs ! i) (0, b) = Some (0, b')"
      "holds T P (li_phys ?it) (li_body ?it) (vs ! i) b'" "unchanged (set (item_cells P ?it)) b b'"
      using write_body_holds [OF g _ ok b(2) v, of True "\<not> lp_truncate P" 0] assms(3) by (auto simp: item_cells_def)
    then show "\<exists>st'. f (0 + i) (vs ! i) st = Some st' \<and> (fst st' = 0 \<and> length (snd st') = lg_bytes P)
      \<and> holds T P (li_phys (lp_items P ! (0 + i))) (li_body (lp_items P ! (0 + i))) (vs ! i) (snd st')
      \<and> (\<forall>c. c \<notin> set (item_cells P (lp_items P ! (0 + i))) \<longrightarrow> cell_bit (snd st') c = cell_bit (snd st) c)"
      by (intro exI [of _ "(0, b')"]) (simp add: f_def b unchanged_def)
  next
    show "\<And>i j. i < j \<Longrightarrow> j < length vs
      \<Longrightarrow> set (item_cells P (lp_items P ! (0 + i))) \<inter> set (item_cells P (lp_items P ! (0 + j))) = {}"
      using items_apart [OF assms(1,2)] len by simp
  next
    fix i v and st st' :: "u128 \<times> u8 list"
    assume "\<forall>c \<in> set (item_cells P (lp_items P ! (0 + i))). cell_bit (snd st) c = cell_bit (snd st') c"
    then show "(True \<longrightarrow> True)
      \<and> (holds T P (li_phys (lp_items P ! (0 + i))) (li_body (lp_items P ! (0 + i))) v (snd st)
         \<longrightarrow> holds T P (li_phys (lp_items P ! (0 + i))) (li_body (lp_items P ! (0 + i))) v (snd st'))"
      using holds_cong [of P "li_phys (lp_items P ! i)" "li_body (lp_items P ! i)" "snd st" "snd st'" T v]
      by (simp add: item_cells_def)
  qed (use assms(5) in simp_all)
  then obtain st' where st: "write_each f 0 vs (0, buf) = Some st'" "fst st' = 0" "length (snd st') = lg_bytes P"
    "\<forall>i < length vs. holds T P (li_phys (lp_items P ! i)) (li_body (lp_items P ! i)) (vs ! i) (snd st')" by auto
  have "write_items T P vs (0, buf) = Some (0, snd st')" using st(1,2) len by (cases st') (simp add: write_items_def f_def)
  then show ?thesis using st len by auto
qed

lemma prefix_writes:
  assumes "resolved_plan P" "prefix_small P" "length buf = lg_bytes P"
  shows "\<exists>buf'. prefix_write P buf = Some buf' \<and> unchanged (set (prefix_cells P)) buf buf' \<and> prefix_held P buf'"
proof (cases "lp_prefix_value P")
  case (Some v)
  note placed = prefix_placed [OF assms(1) Some]
  have n: "lp_prefix P < 64" using assms(2) Some by (simp add: prefix_small_def)
  have p: "plan_ok P" using assms(1) by (simp add: resolved_plan_def)
  then have g: "lg_bits P = 8 * lg_bytes P" by (simp add: plan_ok_def grid_ok_def)
  define q where "q = \<lparr>pk_ty = [], pk_reading = RUint 64, pk_bits = lp_prefix P\<rparr>"
  have fits: "packed_fits q" and narrow: "\<not> pk_wide q" and bits: "pk_bits q = lp_prefix P"
    using n placed(2) by (simp_all add: q_def packed_fits_def pk_wide_def)
  obtain span where span: "container_window (prefix_physical P) (lp_prefix P) = (prefix_physical P div 8, span)" "1 \<le> span"
    "prefix_physical P mod 8 + lp_prefix P \<le> 8 * span" "8 * span < prefix_physical P mod 8 + lp_prefix P + 8"
    using window_placed [OF placed(2)] by blast
  have "span \<le> 16" using span_fits(1) [OF span(4) n] placed(3) g by simp
  then have w: "window_of P (prefix_physical P) q = Some (prefix_window P)"
    using span(1) narrow bits by (simp add: window_of_def prefix_window_def Let_def)
  have reg: "lp_prefix P \<le> 8 * wn_reg (prefix_window P)"
    using span next_pow2_bounds [OF span(2) \<open>span \<le> 16\<close>] by (simp add: prefix_window_def Let_def)
  define r where "r = reg_mask (wn_reg (prefix_window P)) (of_nat v :: u128)"
  have r: "bit r j = bit v j" if "j < lp_prefix P" for j
    using that reg n by (auto simp: r_def bit_reg_mask bit_of_nat_iff)
  obtain buf' where buf': "store P (AWindow (prefix_window P)) r (0, buf) = Some (0, buf')"
    "written_to (\<lambda>j. region_cell (lg_endian P) 0 (lg_bits P) (prefix_physical P + j)) (lp_prefix P) r buf buf'"
    using window_store [OF g assms(3) _ fits, of "prefix_physical P" r 0] placed(3) w by (auto simp: bits)
  have "unchanged (set (prefix_cells P)) buf buf'"
    using written_unchanged [OF buf'(2)] by (simp add: prefix_cells_def lessThan_atLeast0)
  moreover have "prefix_held P buf'"
    unfolding prefix_held_def
  proof (intro allI impI)
    fix v' j assume "lp_prefix_value P = Some v'" "j < lp_prefix P"
    then have v: "v' = v" and j: "prefix_physical P + j < lg_bits P" using Some placed(3) by auto
    let ?c = "region_cell (lg_endian P) 0 (lg_bits P) (prefix_physical P + j)"
    have "fst ?c < length buf'"
      using j g assms(3) buf'(2) by (cases "lg_endian P") (auto simp: region_cell_def written_to_def)
    then have "cell_bit buf' ?c = wire_bit buf' ?c" by (rule cell_bit_wire)
    then show "cell_bit buf' ?c = bit v' j" using buf'(2) \<open>j < lp_prefix P\<close> r v by (simp add: written_to_def)
  qed
  moreover have "prefix_write P buf = Some buf'" using Some buf'(1) by (simp add: prefix_write_def r_def Let_def)
  ultimately show ?thesis by blast
qed (simp add: prefix_write_def prefix_held_def)

lemma prefix_held_cong: "unchanged C buf buf' \<Longrightarrow> C \<inter> set (prefix_cells P) = {} \<Longrightarrow> prefix_held P buf \<Longrightarrow> prefix_held P buf'"
  unfolding prefix_held_def
proof (intro allI impI)
  fix v j
  assume a: "unchanged C buf buf'" "C \<inter> set (prefix_cells P) = {}" "lp_prefix_value P = Some v" "j < lp_prefix P"
    "\<forall>v. lp_prefix_value P = Some v \<longrightarrow>
      (\<forall>j < lp_prefix P. cell_bit buf (region_cell (lg_endian P) 0 (lg_bits P) (prefix_physical P + j)) = bit v j)"
  have "region_cell (lg_endian P) 0 (lg_bits P) (prefix_physical P + j) \<in> set (prefix_cells P)"
    using a(4) by (simp add: prefix_cells_def)
  then have "cell_bit buf' (region_cell (lg_endian P) 0 (lg_bits P) (prefix_physical P + j))
      = cell_bit buf (region_cell (lg_endian P) 0 (lg_bits P) (prefix_physical P + j))"
    using a(1,2) unfolding unchanged_def by blast
  then show "cell_bit buf' (region_cell (lg_endian P) 0 (lg_bits P) (prefix_physical P + j)) = bit v j"
    using a(3-5) by blast
qed

end
