(* ===== verification/LayoutStamps.thy ===== *)
theory LayoutStamps
  imports LayoutWriting
begin

text \<open>
  The stamps \<open>encode\<close> writes over the fields of a layout of bytes, the magic and the checksums, and what the wire
  holds after all of them (\<open>layline-derive/src/layout/emit.rs\<close>, \<open>asserts.rs\<close>).
\<close>

section \<open>Where the stamps go\<close>

lemma byte_positions:
  "solved_from (CBytes n e) final pos items stop \<Longrightarrow>
    (\<forall>it \<in> set items. pos \<le> li_phys it)
    \<and> sorted_wrt (\<lambda>a b. li_phys a + body_bits (li_body a) \<le> li_phys b) items"
proof (induction items arbitrary: pos)
  case (Cons it rest)
  then have s: "li_phys it = pos" "solved_from (CBytes n e) final (pos + body_bits (li_body it)) rest stop" by simp_all
  from Cons.IH [OF s(2)] s(1) show ?case by force
qed simp

lemma placed_end: "body_placed P pos b \<Longrightarrow> pos + body_bits b \<le> lg_bits P"
  by (cases b) (auto simp: packed_placed_def mult.commute)

text \<open>The bytes of an item of whole bytes.\<close>

lemma item_bytes_end:
  assumes "plan_ok P" "it \<in> set (lp_items P)"
  shows "fst (item_bytes it) \<le> snd (item_bytes it)" "snd (item_bytes it) \<le> lg_bytes P"
proof -
  have "li_phys it + body_bits (li_body it) \<le> lg_bits P" using plan_ok_items(1) [OF assms(1)] assms(2) by (simp add: placed_end)
  moreover have "lg_bits P = 8 * lg_bytes P" using assms(1) by (simp add: plan_ok_def grid_ok_def)
  ultimately show "fst (item_bytes it) \<le> snd (item_bytes it)" "snd (item_bytes it) \<le> lg_bytes P"
    by (simp_all add: item_bytes_def div_le_mono less_mult_imp_div_less)
qed

lemma stamped_bytes:
  assumes "resolved_plan P" "it \<in> set (lp_items P)" "stamped it"
  shows "set (item_cells P it) = whole_cells (fst (item_bytes it)) (snd (item_bytes it) - fst (item_bytes it))"
    and "8 dvd li_phys it" "native_ints (li_body it)" "\<exists>n e. lg_grid P = CBytes n e"
    and "snd (item_bytes it) - fst (item_bytes it) = body_bits (li_body it) div 8"
proof -
  have p: "plan_ok P" "stamp_ok (lg_grid P) it" "whole_bytes it"
    using assms by (auto simp: resolved_plan_def plan_stamps_def)
  show b: "native_ints (li_body it)" "\<exists>n e. lg_grid P = CBytes n e" using p(2) assms(3) by (auto simp: stamp_ok_def)
  show d: "8 dvd li_phys it" using p(3) by (auto simp: whole_bytes_def)
  have "8 dvd body_bits (li_body it)" using p(3) by (auto simp: whole_bytes_def)
  then show w: "snd (item_bytes it) - fst (item_bytes it) = body_bits (li_body it) div 8"
    using d by (simp add: item_bytes_def div_plus_div_distrib_dvd_left)
  have "bytewise P (li_body it)" using native_bytewise [OF native_ints_leaf [OF b(1)]] .
  then show "set (item_cells P it) = whole_cells (fst (item_bytes it)) (snd (item_bytes it) - fst (item_bytes it))"
    using bytewise_cells [OF _ plan_item_shape(1) [OF p(1) assms(2)] d] w by (simp add: item_cells_def item_bytes_def)
qed

lemma apart_filter: "distinct (concat (map f xs)) \<Longrightarrow> distinct (concat (map f (filter Q xs)))"
  by (induction xs) auto

lemma filtered_apart:
  assumes "plan_ok P" "arrays_regular P" "i < j" "j < length (filter Q (lp_items P))"
  shows "set (item_cells P (filter Q (lp_items P) ! i)) \<inter> set (item_cells P (filter Q (lp_items P) ! j)) = {}"
  using plan_tiles(1) [OF assms(1,2)] assms(3,4) by (intro distinct_concat_nth apart_filter) simp_all

section \<open>Reading bytes that are unchanged\<close>

lemma unchanged_slice:
  assumes "unchanged C buf buf'" "C \<inter> whole_cells a n = {}"
  shows "take n (drop a buf') = take n (drop a buf)"
proof (rule nth_equalityI)
  show len: "length (take n (drop a buf')) = length (take n (drop a buf))" using assms(1) by (simp add: unchanged_def)
  fix i assume "i < length (take n (drop a buf'))"
  then have i: "i < n" "a + i < length buf'" "a + i < length buf" using len by auto
  have "buf' ! (a + i) = buf ! (a + i)"
  proof (rule bit_word_eqI)
    fix k assume "k < LENGTH(8)"
    then have "(a + i, k) \<in> whole_cells a n" using i(1) by (simp add: whole_cells_def)
    then have "(a + i, k) \<notin> C" using assms(2) by blast
    then have "cell_bit buf' (a + i, k) = cell_bit buf (a + i, k)" using assms(1) by (simp add: unchanged_def)
    then show "bit (buf' ! (a + i)) k = bit (buf ! (a + i)) k" using i(2,3) by (simp add: cell_bit_def)
  qed
  then show "take n (drop a buf') ! i = take n (drop a buf) ! i" using i by simp
qed

lemma magic_held_unchanged:
  "magic_held buf m \<Longrightarrow> unchanged C buf buf' \<Longrightarrow> C \<inter> whole_cells (ma_at m) (length (ma_bytes m)) = {} \<Longrightarrow> magic_held buf' m"
  using unchanged_slice [of C buf buf' "ma_at m" "length (ma_bytes m)"] by (simp add: magic_held_def unchanged_def)

lemma check_output_unchanged:
  assumes "unchanged C buf buf'" "\<And>a b. (a, b) \<in> set (ca_runs c) \<Longrightarrow> C \<inter> whole_cells a (b - a) = {}"
  shows "check_output T P c buf' = check_output T P c buf"
proof -
  have "map (\<lambda>(a, b). take (b - a) (drop a buf')) (ca_runs c) = map (\<lambda>(a, b). take (b - a) (drop a buf)) (ca_runs c)"
    using unchanged_slice [OF assms(1)] assms(2) by (intro map_cong) auto
  moreover have "length buf' = length buf" using assms(1) by (simp add: unchanged_def)
  ultimately show ?thesis unfolding check_output_def fold_over_def Let_def by (simp only:)
qed

section \<open>Writing the stamps\<close>

text \<open>Puts of bytes, each to a place of its own.\<close>

lemma puts_hold:
  assumes "\<And>x. x \<in> set xs \<Longrightarrow> fst (place x) + length (snd (place x)) \<le> length buf"
    and "sorted_wrt (\<lambda>x y. whole_cells (fst (place x)) (length (snd (place x)))
      \<inter> whole_cells (fst (place y)) (length (snd (place y))) = {}) xs"
  shows "\<exists>buf'. then_all (\<lambda>x b. put b (fst (place x)) (snd (place x))) xs buf = Some buf'
    \<and> unchanged (\<Union>x \<in> set xs. whole_cells (fst (place x)) (length (snd (place x)))) buf buf'
    \<and> (\<forall>x \<in> set xs. take (length (snd (place x))) (drop (fst (place x)) buf') = snd (place x))"
  using assms
proof (induction xs arbitrary: buf)
  case (Cons x xs)
  let ?C = "\<lambda>x. whole_cells (fst (place x)) (length (snd (place x)))"
  obtain b where b: "put buf (fst (place x)) (snd (place x)) = Some b" "unchanged (?C x) buf b"
    "take (length (snd (place x))) (drop (fst (place x)) b) = snd (place x)"
    using put_unchanged [of "fst (place x)" "snd (place x)" buf] Cons.prems(1) by auto
  have len: "length b = length buf" using b(2) by (simp add: unchanged_def)
  obtain buf' where r: "then_all (\<lambda>x b. put b (fst (place x)) (snd (place x))) xs b = Some buf'"
    "unchanged (\<Union>x \<in> set xs. ?C x) b buf'"
    "\<forall>x \<in> set xs. take (length (snd (place x))) (drop (fst (place x)) buf') = snd (place x)"
    using Cons.IH [of b] Cons.prems len by auto
  have "take (length (snd (place x))) (drop (fst (place x)) buf') = snd (place x)"
    using unchanged_slice [OF r(2), of "fst (place x)" "length (snd (place x))"] Cons.prems(2) b(3) by auto
  moreover have "unchanged (\<Union>y \<in> set (x # xs). ?C y) buf buf'" by (rule unchanged_trans [OF b(2) r(2)]) auto
  ultimately show ?case using b(1) r by auto
qed simp

lemma then_all_cong: "(\<And>x st. x \<in> set xs \<Longrightarrow> f x st = g x st) \<Longrightarrow> then_all f xs st = then_all g xs st"
  by (induction xs arbitrary: st) (auto intro!: bind_option_cong)

abbreviation own_cells :: "check_at \<Rightarrow> (nat \<times> nat) set" where
  "own_cells c \<equiv> whole_cells (ca_at c) (ca_width c)"

text \<open>The bytes a checksum covers.\<close>

definition covered_cells :: "check_at \<Rightarrow> (nat \<times> nat) set" where
  "covered_cells c = (\<Union>(a, b) \<in> set (ca_runs c). whole_cells a (b - a))"

definition check_fits :: "('c, 's) lay_types \<Rightarrow> nat \<Rightarrow> check_at \<Rightarrow> bool" where
  "check_fits T n c \<longleftrightarrow> ca_at c + ca_width c \<le> n \<and> (\<forall>(a, b) \<in> set (ca_runs c). a \<le> b \<and> b \<le> n)
     \<and> ck_init (lt_checksum T (ca_algorithm c)) \<noteq> None"

lemma check_output_exists:
  assumes "check_fits T (length buf) c"
  shows "\<exists>out. check_output T P c buf = Some out"
proof -
  have "\<not> list_ex (\<lambda>(a, b). b < a \<or> length buf < b) (ca_runs c)"
    using assms by (auto simp: check_fits_def list_ex_iff)
  moreover obtain s where "ck_init (lt_checksum T (ca_algorithm c)) = Some s" using assms by (auto simp: check_fits_def)
  ultimately show ?thesis by (auto simp: check_output_def fold_over_def Let_def compute_def split: list.splits)
qed

text \<open>Each checksum is taken of bytes that are final: it covers neither itself nor a later one.\<close>

lemma checksums_hold:
  assumes "\<And>c. c \<in> set cs \<Longrightarrow> check_fits T (length buf) c \<and> covered_cells c \<inter> own_cells c = {}"
    and "sorted_wrt (\<lambda>c d. own_cells c \<inter> own_cells d = {} \<and> covered_cells c \<inter> own_cells d = {}) cs"
  shows "\<exists>buf'. then_all (checksum_write T P) cs buf = Some buf' \<and> unchanged (\<Union>c \<in> set cs. own_cells c) buf buf'
    \<and> (\<forall>c \<in> set cs. \<exists>out. check_output T P c buf' = Some out
        \<and> take (ca_width c) (drop (ca_at c) buf') = to_bytes (lg_endian P) (ca_width c) out)"
  using assms
proof (induction cs arbitrary: buf)
  case (Cons c cs)
  obtain out where out: "check_output T P c buf = Some out"
    using check_output_exists Cons.prems(1) by (metis list.set_intros(1))
  define bytes where "bytes = to_bytes (lg_endian P) (ca_width c) out"
  have w: "length bytes = ca_width c" by (simp add: bytes_def to_bytes_part wire_part_nth)
  have "ca_at c + length bytes \<le> length buf" using Cons.prems(1) [of c] w by (simp add: check_fits_def)
  from put_unchanged [OF this] obtain b where b: "put buf (ca_at c) bytes = Some b" "unchanged (own_cells c) buf b"
    "take (ca_width c) (drop (ca_at c) b) = bytes" using w by auto
  have len: "length b = length buf" using b(2) by (simp add: unchanged_def)
  obtain buf' where r: "then_all (checksum_write T P) cs b = Some buf'" "unchanged (\<Union>c \<in> set cs. own_cells c) b buf'"
    "\<forall>c \<in> set cs. \<exists>out. check_output T P c buf' = Some out
      \<and> take (ca_width c) (drop (ca_at c) buf') = to_bytes (lg_endian P) (ca_width c) out"
    using Cons.IH [of b] Cons.prems len by auto
  have all: "unchanged (\<Union>c \<in> set (c # cs). own_cells c) buf buf'" by (rule unchanged_trans [OF b(2) r(2)]) auto
  have "take (ca_width c) (drop (ca_at c) buf') = bytes"
    using unchanged_slice [OF r(2), of "ca_at c" "ca_width c"] Cons.prems(2) b(3) by auto
  moreover have "check_output T P c buf' = Some out"
  proof -
    have "(\<Union>c \<in> set (c # cs). own_cells c) \<inter> whole_cells x (y - x) = {}" if "(x, y) \<in> set (ca_runs c)" for x y
    proof -
      have "whole_cells x (y - x) \<subseteq> covered_cells c" using that by (auto simp: covered_cells_def)
      moreover have "covered_cells c \<inter> own_cells d = {}" if "d \<in> set (c # cs)" for d using Cons.prems that by auto
      ultimately show ?thesis by blast
    qed
    then show ?thesis using check_output_unchanged [OF all, of c T P] out by simp
  qed
  moreover have "then_all (checksum_write T P) (c # cs) buf = Some buf'"
    using out b(1) r(1) by (simp add: checksum_write_def bytes_def)
  ultimately show ?case using all r(3) by (auto simp: bytes_def)
qed simp

section \<open>What the plan's checksums cover\<close>

text \<open>A run of a checksum begins and ends where the layout or a field does.\<close>

definition edge :: "lay_item list \<Rightarrow> nat \<Rightarrow> bool" where
  "edge items x \<longleftrightarrow> x = 0 \<or> (\<exists>f \<in> set items. x = fst (item_bytes f) \<or> x = snd (item_bytes f))"

lemma edge_zero [simp]: "edge items 0"
  by (simp add: edge_def)

lemma extent_edges:
  "map_of (extents_of items) name = Some p \<Longrightarrow> edge items (fst p) \<and> edge items (snd p)"
  by (auto simp: extents_of_def edge_def dest!: map_of_SomeD)

lemma edge_end: "plan_ok P \<Longrightarrow> edge (lp_items P) x \<Longrightarrow> x \<le> lg_bytes P"
  using item_bytes_end [of P] by (fastforce simp: edge_def)

lemma sorted_pairs: "sorted_wrt R xs \<Longrightarrow> x \<in> set xs \<Longrightarrow> y \<in> set xs \<Longrightarrow> x = y \<or> R x y \<or> R y x"
  by (induction xs) auto

lemma edge_apart:
  assumes "plan_ok P" "lg_grid P = CBytes n e" "it \<in> set (lp_items P)" "edge (lp_items P) x"
  shows "x \<le> fst (item_bytes it) \<or> snd (item_bytes it) \<le> x"
proof -
  have "sorted_wrt (\<lambda>a b. li_phys a + body_bits (li_body a) \<le> li_phys b) (lp_items P)"
    using assms(1,2) byte_positions [of n e "lg_bits P" "lp_prefix P" "lp_items P" "lg_bits P"] unfolding plan_ok_def by metis
  note order = sorted_pairs [OF this assms(3)]
  have le: "fst (item_bytes f) \<le> snd (item_bytes f)" for f by (simp add: item_bytes_def div_le_mono)
  have "it = f \<or> snd (item_bytes it) \<le> fst (item_bytes f) \<or> snd (item_bytes f) \<le> fst (item_bytes it)"
    if "f \<in> set (lp_items P)" for f
    using order [OF that] by (auto simp: item_bytes_def div_le_mono)
  with le have "z \<le> fst (item_bytes it) \<or> snd (item_bytes it) \<le> z"
    if "f \<in> set (lp_items P)" "z = fst (item_bytes f) \<or> z = snd (item_bytes f)" for f z
    using that le_trans by blast
  then show ?thesis using assms(4) unfolding edge_def by blast
qed

lemma check_run_edges:
  assumes "resolve_check (extents_of items) it spec pos stop = Inr c" "edge items pos" "edge items stop" "pos \<le> stop"
    and "\<And>x. edge items x \<Longrightarrow> x \<le> pos \<or> stop \<le> x"
  shows "ca_field c = li_name it" "ca_at c = pos" "ca_width c = stop - pos" "ca_algorithm c = cs_algorithm spec"
    and "(a, b) \<in> set (ca_runs c) \<Longrightarrow> a < b \<and> edge items a \<and> edge items b \<and> (b \<le> pos \<or> stop \<le> a)"
proof -
  obtain cov where cov: "resolve_coverage (cs_over spec) (pos, stop) (map_of (extents_of items)) = Some cov"
    "ca_runs c = filter (\<lambda>(a, b). a < b) (runs cov)"
    and c: "ca_field c = li_name it" "ca_at c = pos" "ca_width c = stop - pos" "ca_algorithm c = cs_algorithm spec"
    using assms(1) by (auto simp: resolve_check_def Let_def split: if_splits option.splits)
  then show "ca_field c = li_name it" "ca_at c = pos" "ca_width c = stop - pos" "ca_algorithm c = cs_algorithm spec" by simp_all
  have own: "cd_own cov = (pos, stop)" "edge items (cd_from cov)" "edge items (cd_to cov)"
    using cov(1) extent_edges [of items] assms(2)
    by (fastforce simp: resolve_coverage_def split: cover_from.splits cover_to.splits Option.bind_splits)+
  assume "(a, b) \<in> set (ca_runs c)"
  then have ab: "a < b" "(a, b) \<in> set (runs cov)" using cov(2) by auto
  then show "a < b \<and> edge items a \<and> edge items b \<and> (b \<le> pos \<or> stop \<le> a)"
    using own assms(2,3) assms(5) [OF own(2)] by (auto simp: runs_def excises_def split: if_splits)
qed

lemma index_where_map: "index_where Q (map f xs) = index_where (\<lambda>x. Q (f x)) xs"
  by (induction xs) auto

lemma order_of_extents: "order_of (extents_of items) name = index_where (\<lambda>it. li_name it = name) (filter whole_bytes items)"
  by (simp add: order_of_def extents_of_def index_where_map)

lemma filtered_order:
  "distinct (map h ys) \<Longrightarrow> k < j \<Longrightarrow> j < length (filter R ys) \<Longrightarrow>
    \<exists>a b. index_where (\<lambda>x. h x = h (filter R ys ! k)) ys = Some a \<and> index_where (\<lambda>x. h x = h (filter R ys ! j)) ys = Some b \<and> a < b"
proof (induction ys arbitrary: k j)
  case (Cons y ys)
  have other: "h z \<noteq> h y" if "z \<in> set ys" for z using Cons.prems(1) that by (metis distinct.simps(2) image_eqI list.set_map list.simps(9))
  show ?case
  proof (cases "R y \<and> k = 0")
    case True
    define z where "z = filter R ys ! (j - 1)"
    have "j - 1 < length (filter R ys)" using Cons.prems(2,3) True by simp
    then have z: "z \<in> set ys" unfolding z_def by (metis nth_mem filter_is_subset subsetD)
    then have "\<exists>b. index_where (\<lambda>x. h x = h z) ys = Some b" by (induction ys) auto
    moreover have "filter R (y # ys) ! j = z" "filter R (y # ys) ! k = y" using True Cons.prems(2) by (simp_all add: z_def nth_Cons')
    ultimately show ?thesis using other [OF z] by auto
  next
    case False
    define k' j' where "k' = (if R y then k - 1 else k)" "j' = (if R y then j - 1 else j)"
    have n: "k' < j'" "j' < length (filter R ys)" "filter R (y # ys) ! k = filter R ys ! k'" "filter R (y # ys) ! j = filter R ys ! j'"
      using False Cons.prems(2,3) by (auto simp: k'_j'_def nth_Cons')
    have "filter R ys ! k' \<in> set ys" "filter R ys ! j' \<in> set ys"
      using n(1,2) by (metis nth_mem filter_is_subset subsetD order.strict_trans)+
    then have "h y \<noteq> h (filter R ys ! k')" "h y \<noteq> h (filter R ys ! j')" using other by metis+
    moreover have "\<exists>a b. index_where (\<lambda>x. h x = h (filter R ys ! k')) ys = Some a \<and> index_where (\<lambda>x. h x = h (filter R ys ! j')) ys = Some b \<and> a < b"
      using Cons.prems(1) by (intro Cons.IH n) simp
    ultimately show ?thesis unfolding n(3,4) by auto
  qed
qed simp

text \<open>An algorithm that builds, whose output is of the field's type.\<close>

definition algorithms_ok :: "('c, 's) lay_types \<Rightarrow> lay_plan \<Rightarrow> bool" where
  "algorithms_ok T P \<longleftrightarrow> (\<forall>c \<in> set (as_check (lp_asserts P)).
     (let C = lt_checksum T (ca_algorithm c)
      in ck_init C \<noteq> None \<and> (\<forall>s. take_bit (8 * ca_width c) (ck_finish C s) = ck_finish C s)))"

lemma check_placed:
  assumes "resolved_plan P" "k < length (as_check (lp_asserts P))"
  defines "c \<equiv> as_check (lp_asserts P) ! k" and "it \<equiv> filter (\<lambda>it. li_check it \<noteq> None) (lp_items P) ! k"
  shows "k < length (filter (\<lambda>it. li_check it \<noteq> None) (lp_items P))" "it \<in> set (lp_items P)" "li_check it \<noteq> None"
    "ca_field c = li_name it" "ca_at c = fst (item_bytes it)" "ca_at c + ca_width c = snd (item_bytes it)"
    "own_cells c = set (item_cells P it)"
    "(a, b) \<in> set (ca_runs c) \<Longrightarrow> a < b \<and> edge (lp_items P) a \<and> edge (lp_items P) b \<and> (b \<le> ca_at c \<or> ca_at c + ca_width c \<le> a)"
proof -
  have p: "plan_ok P" and l: "list_all2 (check_for (extents_of (lp_items P))) (as_check (lp_asserts P)) (filter (\<lambda>it. li_check it \<noteq> None) (lp_items P))"
    using assms(1) by (simp_all add: resolved_plan_def)
  show k: "k < length (filter (\<lambda>it. li_check it \<noteq> None) (lp_items P))" using list_all2_lengthD [OF l] assms(2) by simp
  have "it \<in> set (filter (\<lambda>it. li_check it \<noteq> None) (lp_items P))" unfolding it_def by (rule nth_mem [OF k])
  then show it: "it \<in> set (lp_items P)" "li_check it \<noteq> None" by auto
  have st: "stamped it" using it(2) by (simp add: stamped_def)
  obtain n e where g: "lg_grid P = CBytes n e" using stamped_bytes(4) [OF assms(1) it(1) st] by blast
  obtain spec where c: "resolve_check (extents_of (lp_items P)) it spec (fst (item_bytes it)) (snd (item_bytes it)) = Inr c"
    using list_all2_nthD [OF l assms(2)] by (auto simp: check_for_def c_def it_def)
  have ed: "edge (lp_items P) (fst (item_bytes it))" "edge (lp_items P) (snd (item_bytes it))" using it(1) by (auto simp: edge_def)
  note le = item_bytes_end(1) [OF p it(1)]
  note r = check_run_edges [OF c ed le edge_apart [OF p g it(1)]]
  show w: "ca_field c = li_name it" "ca_at c = fst (item_bytes it)" "ca_at c + ca_width c = snd (item_bytes it)"
    using r(1-3) le by simp_all
  show "own_cells c = set (item_cells P it)" using stamped_bytes(1) [OF assms(1) it(1) st] r(2,3) by simp
  show "(a, b) \<in> set (ca_runs c) \<Longrightarrow> a < b \<and> edge (lp_items P) a \<and> edge (lp_items P) b \<and> (b \<le> ca_at c \<or> ca_at c + ca_width c \<le> a)"
    using r(5) w(2,3) by simp
qed

lemma whole_cells_apart: "y \<le> a \<or> a + n \<le> x \<Longrightarrow> whole_cells x (y - x) \<inter> whole_cells a n = {}"
  by (auto simp: whole_cells_def)

lemma plan_check_fits:
  assumes "resolved_plan P" "algorithms_ok T P" "c \<in> set (as_check (lp_asserts P))"
  shows "check_fits T (lg_bytes P) c" "covered_cells c \<inter> own_cells c = {}"
proof -
  obtain k where k: "k < length (as_check (lp_asserts P))" "c = as_check (lp_asserts P) ! k"
    using assms(3) by (auto simp: in_set_conv_nth)
  have p: "plan_ok P" using assms(1) by (simp add: resolved_plan_def)
  note c = check_placed [OF assms(1) k(1), folded k(2)]
  have "ca_at c + ca_width c \<le> lg_bytes P" using item_bytes_end(2) [OF p c(2)] c(6) by simp
  moreover have "a \<le> b \<and> b \<le> lg_bytes P" if "(a, b) \<in> set (ca_runs c)" for a b
    using c(8) [OF that] edge_end [OF p] by auto
  moreover have "ck_init (lt_checksum T (ca_algorithm c)) \<noteq> None" using assms(2,3) by (auto simp: algorithms_ok_def Let_def)
  ultimately show "check_fits T (lg_bytes P) c" by (auto simp: check_fits_def)
  have "whole_cells a (b - a) \<inter> own_cells c = {}" if "(a, b) \<in> set (ca_runs c)" for a b
    using c(8) [OF that] by (intro whole_cells_apart) auto
  then show "covered_cells c \<inter> own_cells c = {}" by (auto simp: covered_cells_def)
qed

lemma plan_checks_sorted:
  assumes "resolved_plan P" "arrays_regular P"
  shows "sorted_wrt (\<lambda>c d. own_cells c \<inter> own_cells d = {} \<and> covered_cells c \<inter> own_cells d = {}) (as_check (lp_asserts P))"
  unfolding sorted_wrt_iff_nth_less
proof (intro allI impI)
  fix k j
  assume kj: "k < j" "j < length (as_check (lp_asserts P))"
  define ys where "ys = filter (\<lambda>it. li_check it \<noteq> None) (lp_items P)"
  define c d where "c = as_check (lp_asserts P) ! k" "d = as_check (lp_asserts P) ! j"
  have p: "plan_ok P" and names: "distinct (map li_name (lp_items P))"
    and whole: "\<And>it. it \<in> set (lp_items P) \<Longrightarrow> stamped it \<Longrightarrow> whole_bytes it"
    and later: "\<not> covers_later (extents_of (lp_items P)) (as_check (lp_asserts P)) c"
    using assms(1) kj by (auto simp: resolved_plan_def c_d_def)
  have k: "k < length (as_check (lp_asserts P))" using kj by simp
  note c = check_placed [OF assms(1) k, folded c_d_def ys_def]
  note d = check_placed [OF assms(1) kj(2), folded c_d_def ys_def]
  have "own_cells c \<inter> own_cells d = {}"
    unfolding c(7) d(7) unfolding ys_def by (rule filtered_apart [OF p assms(2) kj(1)]) (use d(1) in \<open>simp add: ys_def\<close>)
  moreover have "whole_cells a (b - a) \<inter> own_cells d = {}" if run: "(a, b) \<in> set (ca_runs c)" for a b
  proof (rule whole_cells_apart, rule ccontr)
    assume far: "\<not> (b \<le> ca_at d \<or> ca_at d + ca_width d \<le> a)"
    have st: "stamped (ys ! j)" using d(3) by (simp add: stamped_def)
    obtain n e where g: "lg_grid P = CBytes n e" using stamped_bytes(4) [OF assms(1) d(2) st] by blast
    have "x \<le> ca_at d \<or> ca_at d + ca_width d \<le> x" if "edge (lp_items P) x" for x
      using edge_apart [OF p g d(2) that] d(5,6) by simp
    then have inside: "a \<le> ca_at d" "ca_at d + ca_width d \<le> b" using far c(8) [OF run] by blast+
    have "ys = filter (\<lambda>it. li_check it \<noteq> None) (filter whole_bytes (lp_items P))"
      unfolding ys_def filter_filter using whole by (intro filter_cong) (auto simp: stamped_def)
    moreover have "distinct (map li_name (filter whole_bytes (lp_items P)))" using names by (rule distinct_map_filter)
    ultimately obtain i i' where i: "order_of (extents_of (lp_items P)) (ca_field c) = Some i"
      "order_of (extents_of (lp_items P)) (ca_field d) = Some i'" "i < i'"
      using filtered_order [of li_name "filter whole_bytes (lp_items P)" k j "\<lambda>it. li_check it \<noteq> None"] kj(1) d(1) c(4) d(4)
      by (auto simp: order_of_extents)
    then have "ca_field d \<noteq> ca_field c" by auto
    then have "covers_later (extents_of (lp_items P)) (as_check (lp_asserts P)) c"
      using i inside run kj(2) by (auto simp: covers_later_def list_ex_iff c_d_def intro!: bexI [of _ d] bexI [of _ "(a, b)"])
    then show False using later by contradiction
  qed
  then have "covered_cells c \<inter> own_cells d = {}" by (auto simp: covered_cells_def)
  ultimately show "own_cells (as_check (lp_asserts P) ! k) \<inter> own_cells (as_check (lp_asserts P) ! j) = {}
    \<and> covered_cells (as_check (lp_asserts P) ! k) \<inter> own_cells (as_check (lp_asserts P) ! j) = {}"
    unfolding c_d_def by (rule conjI)
qed

section \<open>The values of stamped fields\<close>

lemma i_valid_signed:
  assumes "1 \<le> n" "n \<le> 64"
  shows "i_valid n (signed_take_bit (n - 1) x)"
proof -
  have "sign_extend (signed_take_bit (n - 1) x) n = signed_take_bit (n - 1) x"
  proof (rule bit_word_eqI)
    fix k assume "k < LENGTH(64)"
    then show "bit (sign_extend (signed_take_bit (n - 1) x) n) k \<longleftrightarrow> bit (signed_take_bit (n - 1) x) k"
      using bit_sign_extend [OF assms, where raw = "signed_take_bit (n - 1) x"] assms by (auto simp: bit_signed_take_bit_iff min_def)
  qed
  then show ?thesis using assms by (simp add: i_valid_iff)
qed

lemma native_total:
  assumes "prim_bounds s \<noteq> None" "take_bit (8 * prim_bytes s) out = out"
  shows "native_value_ok s (native_value s out :: 'c lay_value)"
    and "\<exists>r. native_raw s (native_value s out :: 'c lay_value) = Some r \<and> (\<forall>j < 8 * prim_bytes s. bit r j = bit out j)"
proof -
  note signed = i_valid_signed [of 8, simplified] i_valid_signed [of 16, simplified] i_valid_signed [of 32, simplified]
  have "signed_take_bit 63 x = x" for x :: i64
  proof (rule bit_word_eqI)
    fix k assume "k < LENGTH(64)"
    then have "min 63 k = k" by simp
    then show "bit (signed_take_bit 63 x) k = bit x k" using \<open>k < LENGTH(64)\<close> by (simp add: bit_signed_take_bit_iff)
  qed
  then have full: "i_valid 64 x" for x using i_valid_signed [of 64 x] by simp
  show "native_value_ok s (native_value s out :: 'c lay_value)"
    using assms signed full by (cases s) (simp_all add: native_value_ok_def native_value_def)
  have top: "j < 8 \<Longrightarrow> min 7 j = j" "j < 16 \<Longrightarrow> min 15 j = j" "j < 32 \<Longrightarrow> min 31 j = j" "j < 64 \<Longrightarrow> min 63 j = j" for j :: nat
    by simp_all
  show "\<exists>r. native_raw s (native_value s out :: 'c lay_value) = Some r \<and> (\<forall>j < 8 * prim_bytes s. bit r j = bit out j)"
    using assms top
    by (cases s) (simp_all add: native_raw_def native_value_def bit_take_bit_iff bit_ucast_iff bit_signed_take_bit_iff)
qed

lemma native_holds:
  fixes T :: "('c, 's) lay_types"
  assumes "packed_placed P pos p" "pk_reading p = RNative s" "prim_bounds s \<noteq> None" "take_bit (8 * prim_bytes s) out = out"
    and "\<And>j. j < 8 * prim_bytes s \<Longrightarrow> cell_bit buf (packed_cell P pos p j) = bit out j"
  shows "leaf_value_ok T p (native_value s out)" "holds T P pos (BPacked p) (native_value s out) buf"
proof -
  have "pk_bits p = 8 * prim_bytes s" using assms(1,2) by (simp add: packed_placed_def)
  moreover have "native_value_ok s (native_value s out :: 'c lay_value)" by (rule native_total(1) [OF assms(3,4)])
  moreover obtain r where "native_raw s (native_value s out :: 'c lay_value) = Some r" "\<forall>j < 8 * prim_bytes s. bit r j = bit out j"
    using native_total(2) [OF assms(3,4), where 'c = 'c] by blast
  ultimately show "leaf_value_ok T p (native_value s out)" "holds T P pos (BPacked p) (native_value s out) buf"
    using assms(2,5) by (simp_all add: leaf_value_ok_def leaf_raw_def)
qed

text \<open>Whatever the bytes are, an integer field of them has a value.\<close>

lemma ints_total:
  assumes "grid_ok P" "length buf = lg_bytes P"
  shows "native_ints b \<Longrightarrow> body_ok P pos b \<Longrightarrow> \<exists>v. body_value_ok T b v \<and> holds T P pos b v buf"
proof (induction b arbitrary: pos)
  case (BPacked p)
  obtain s where s: "pk_reading p = RNative s" "prim_bounds s \<noteq> None"
    using BPacked.prems(1) by (auto split: reading.splits)
  have p: "packed_placed P pos p" "leaf_ok p" using BPacked.prems(2) by (simp_all add: body_ok_def)
  have bits: "pk_bits p = 8 * prim_bytes s" "8 dvd pos" "pos + 8 * prim_bytes s \<le> 8 * length buf"
    using p(1) s(1) assms by (auto simp: packed_placed_def grid_ok_def)
  have "s \<noteq> PBool" using s(2) by auto
  from whole_load [OF bits(2) this bits(3), of "lg_endian P"] obtain r where "scalar_read (lg_endian P) s (pos div 8) buf = Some r
    \<and> (\<forall>j. bit r j \<longleftrightarrow> j < 8 * prim_bytes s \<and> wire_bit buf (region_cell (lg_endian P) pos (8 * prim_bytes s) (pos + j)))" ..
  then have r: "bit r j \<longleftrightarrow> j < 8 * prim_bytes s \<and> wire_bit buf (region_cell (lg_endian P) pos (8 * prim_bytes s) (pos + j))" for j
    by (elim conjE) (rule spec)
  have "cell_bit buf (packed_cell P pos p j) = bit r j" if j: "j < 8 * prim_bytes s" for j
  proof -
    have "fst (packed_cell P pos p j) < length buf"
      using leaf_cell_range [OF assms(1) p, of j] j bits(1) assms(2) by (auto simp: mem_Times_iff)
    then have "cell_bit buf (packed_cell P pos p j) = wire_bit buf (packed_cell P pos p j)" by (rule cell_bit_wire)
    then show ?thesis using r [of j] j unfolding native_cell [OF s(1)] by simp
  qed
  moreover have "take_bit (8 * prim_bytes s) r = r" by (rule bit_word_eqI) (auto simp: bit_take_bit_iff r)
  ultimately show ?case using native_holds [OF p(1) s, of r buf T] by (intro exI [of _ "native_value s r"]) simp
next
  case (BRepeat b n)
  have "\<forall>i < n. \<exists>v. body_value_ok T b v \<and> holds T P (pos + i * body_bits b) b v buf"
    using BRepeat.IH BRepeat.prems body_ok_element by auto
  then obtain vs where "length vs = n" "\<forall>i < n. body_value_ok T b (vs ! i) \<and> holds T P (pos + i * body_bits b) b (vs ! i) buf"
    unfolding Skolem_list_nth by blast
  then show ?case by (intro exI [of _ "LvArr vs"]) (auto simp: in_set_conv_nth)
qed simp

end
