(* ===== verification/LayoutWire.thy ===== *)
theory LayoutWire
  imports LayoutStamps
begin

text \<open>
  The round trip of \<open>#[derive(Layout)]\<close>: the wire \<open>encode\<close> gives holds every value and every stamp, so \<open>decode\<close>
  passes its checks and gives the values back, with the stamps in the fields that carry them
  (\<open>layline-derive/src/layout/emit.rs\<close>, \<open>asserts.rs\<close>).
\<close>

section \<open>All the stamps\<close>

lemma items_disjoint:
  assumes "plan_ok P" "arrays_regular P" "it \<in> set (lp_items P)" "it' \<in> set (lp_items P)" "it \<noteq> it'"
  shows "set (item_cells P it) \<inter> set (item_cells P it') = {}"
proof -
  obtain i j where "i < length (lp_items P)" "it = lp_items P ! i" "j < length (lp_items P)" "it' = lp_items P ! j"
    using assms(3,4) by (auto simp: in_set_conv_nth)
  then show ?thesis
    using items_apart [OF assms(1,2), of i j] items_apart [OF assms(1,2), of j i] assms(5)
    by (cases i j rule: linorder_cases) auto
qed

abbreviation magic_cells :: "magic_at \<Rightarrow> (nat \<times> nat) set" where
  "magic_cells m \<equiv> whole_cells (ma_at m) (length (ma_bytes m))"

lemma magic_placed:
  assumes "resolved_plan P" "k < length (as_magic (lp_asserts P))"
  defines "m \<equiv> as_magic (lp_asserts P) ! k" and "it \<equiv> filter (\<lambda>it. li_magic it \<noteq> None) (lp_items P) ! k"
  shows "k < length (filter (\<lambda>it. li_magic it \<noteq> None) (lp_items P))" "it \<in> set (lp_items P)" "li_magic it \<noteq> None"
    "magic_cells m = set (item_cells P it)" "ma_at m + length (ma_bytes m) \<le> lg_bytes P"
proof -
  have p: "plan_ok P" and l: "list_all2 magic_for (as_magic (lp_asserts P)) (filter (\<lambda>it. li_magic it \<noteq> None) (lp_items P))"
    using assms(1) by (simp_all add: resolved_plan_def)
  show k: "k < length (filter (\<lambda>it. li_magic it \<noteq> None) (lp_items P))" using list_all2_lengthD [OF l] assms(2) by simp
  have "it \<in> set (filter (\<lambda>it. li_magic it \<noteq> None) (lp_items P))" unfolding it_def by (rule nth_mem [OF k])
  then show it: "it \<in> set (lp_items P)" "li_magic it \<noteq> None" by auto
  have m: "ma_at m = fst (item_bytes it)" "length (ma_bytes m) = snd (item_bytes it) - fst (item_bytes it)"
    using list_all2_nthD [OF l assms(2)] by (auto simp: magic_for_def m_def it_def)
  show "magic_cells m = set (item_cells P it)" using stamped_bytes(1) [OF assms(1) it(1)] it(2) m by (simp add: stamped_def)
  show "ma_at m + length (ma_bytes m) \<le> lg_bytes P" using item_bytes_end [OF p it(1)] m by simp
qed

lemma magic_item:
  assumes "resolved_plan P" "m \<in> set (as_magic (lp_asserts P))"
  shows "\<exists>it \<in> set (lp_items P). li_magic it \<noteq> None \<and> magic_cells m = set (item_cells P it)"
    "ma_at m + length (ma_bytes m) \<le> lg_bytes P"
proof -
  obtain k where "k < length (as_magic (lp_asserts P))" "m = as_magic (lp_asserts P) ! k" using assms(2) by (auto simp: in_set_conv_nth)
  from magic_placed [OF assms(1) this(1), folded this(2)]
  show "\<exists>it \<in> set (lp_items P). li_magic it \<noteq> None \<and> magic_cells m = set (item_cells P it)"
    "ma_at m + length (ma_bytes m) \<le> lg_bytes P" by blast+
qed

lemma check_item:
  assumes "resolved_plan P" "c \<in> set (as_check (lp_asserts P))"
  shows "\<exists>it \<in> set (lp_items P). li_check it \<noteq> None \<and> li_magic it = None \<and> ca_field c = li_name it
    \<and> own_cells c = set (item_cells P it) \<and> ca_at c = fst (item_bytes it) \<and> ca_at c + ca_width c = snd (item_bytes it)"
proof -
  obtain k where "k < length (as_check (lp_asserts P))" "c = as_check (lp_asserts P) ! k" using assms(2) by (auto simp: in_set_conv_nth)
  note c = check_placed [OF assms(1) this(1), folded this(2)]
  have "stamp_ok (lg_grid P) it" if "it \<in> set (lp_items P)" for it
    using assms(1) that by (simp add: resolved_plan_def plan_stamps_def)
  then show ?thesis using c(2-7) by (force simp: stamp_ok_def)
qed

lemma magics_sorted:
  assumes "resolved_plan P" "arrays_regular P"
  shows "sorted_wrt (\<lambda>x y. magic_cells x \<inter> magic_cells y = {}) (as_magic (lp_asserts P))"
  unfolding sorted_wrt_iff_nth_less
proof (intro allI impI)
  fix i j assume ij: "i < j" "j < length (as_magic (lp_asserts P))"
  have p: "plan_ok P" using assms(1) by (simp add: resolved_plan_def)
  have i: "i < length (as_magic (lp_asserts P))" using ij by simp
  show "magic_cells (as_magic (lp_asserts P) ! i) \<inter> magic_cells (as_magic (lp_asserts P) ! j) = {}"
    unfolding magic_placed(4) [OF assms(1) i] magic_placed(4) [OF assms(1) ij(2)]
    by (rule filtered_apart [OF p assms(2) ij(1) magic_placed(1) [OF assms(1) ij(2)]])
qed

text \<open>The cells the stamps write.\<close>

definition stamp_cells :: "lay_plan \<Rightarrow> (nat \<times> nat) set" where
  "stamp_cells P = set (prefix_cells P) \<union> (\<Union>it \<in> {it \<in> set (lp_items P). stamped it}. set (item_cells P it))"

definition check_stamped :: "('c, 's) lay_types \<Rightarrow> lay_plan \<Rightarrow> u8 list \<Rightarrow> check_at \<Rightarrow> bool" where
  "check_stamped T P buf c \<longleftrightarrow> (\<exists>out. check_output T P c buf = Some out
     \<and> take (ca_width c) (drop (ca_at c) buf) = to_bytes (lg_endian P) (ca_width c) out)"

lemma stamps_hold:
  assumes "resolved_plan P" "prefix_small P" "arrays_regular P" "algorithms_ok T P" "length buf = lg_bytes P"
  shows "\<exists>buf'. stamp T P buf = Some buf' \<and> unchanged (stamp_cells P) buf buf' \<and> prefix_held P buf'
    \<and> (\<forall>m \<in> set (as_magic (lp_asserts P)). magic_held buf' m) \<and> (\<forall>c \<in> set (as_check (lp_asserts P)). check_stamped T P buf' c)"
proof -
  have p: "plan_ok P" using assms(1) by (simp add: resolved_plan_def)
  let ?ms = "as_magic (lp_asserts P)" and ?cs = "as_check (lp_asserts P)"
  define M where "M = (\<Union>m \<in> set ?ms. magic_cells m)"
  define K where "K = (\<Union>c \<in> set ?cs. own_cells c)"
  note m = magic_item [OF assms(1)] and c = check_item [OF assms(1)]
  have MK: "magic_cells m \<inter> K = {}" if m': "m \<in> set ?ms" for m
  proof -
    obtain it where it: "it \<in> set (lp_items P)" "li_magic it \<noteq> None" "magic_cells m = set (item_cells P it)" using m(1) [OF m'] by blast
    have "set (item_cells P it) \<inter> own_cells d = {}" if d: "d \<in> set ?cs" for d
    proof -
      obtain it' where "it' \<in> set (lp_items P)" "li_magic it' = None" "own_cells d = set (item_cells P it')" using c [OF d] by blast
      moreover from this have "it \<noteq> it'" using it(2) by auto
      ultimately show ?thesis using items_disjoint [OF p assms(3) it(1), of it'] by simp
    qed
    then show ?thesis using it(3) by (auto simp: K_def)
  qed
  define I where "I = (\<Union>it \<in> {it \<in> set (lp_items P). stamped it}. set (item_cells P it))"
  have "magic_cells x \<subseteq> I" if x: "x \<in> set ?ms" for x
  proof -
    obtain it where "it \<in> set (lp_items P)" "li_magic it \<noteq> None" "magic_cells x = set (item_cells P it)" using m(1) [OF x] by blast
    then show ?thesis by (auto simp: I_def stamped_def)
  qed
  moreover have "own_cells d \<subseteq> I" if d: "d \<in> set ?cs" for d
  proof -
    obtain it where "it \<in> set (lp_items P)" "li_check it \<noteq> None" "own_cells d = set (item_cells P it)" using c [OF d] by blast
    then show ?thesis by (auto simp: I_def stamped_def)
  qed
  ultimately have MKI: "M \<union> K \<subseteq> I" unfolding M_def K_def by blast
  then have all: "set (prefix_cells P) \<union> (M \<union> K) \<subseteq> stamp_cells P" by (auto simp: stamp_cells_def I_def)
  have "I \<inter> set (prefix_cells P) = {}" using prefix_apart [OF p assms(3)] by (auto simp: I_def)
  then have pre: "(M \<union> K) \<inter> set (prefix_cells P) = {}" using MKI by blast
  obtain b1 where b1: "prefix_write P buf = Some b1" "unchanged (set (prefix_cells P)) buf b1" "prefix_held P b1"
    using prefix_writes [OF assms(1,2,5)] by blast
  have l1: "length b1 = lg_bytes P" using b1(2) assms(5) by (simp add: unchanged_def)
  obtain b2 where b2: "then_all magic_write ?ms b1 = Some b2" "unchanged M b1 b2"
    "\<forall>m \<in> set ?ms. take (length (ma_bytes m)) (drop (ma_at m) b2) = ma_bytes m"
    using puts_hold [of ?ms "\<lambda>m. (ma_at m, ma_bytes m)" b1] m(2) l1 magics_sorted [OF assms(1,3)]
    by (auto simp: M_def magic_write_def [abs_def])
  have l2: "length b2 = lg_bytes P" using b2(2) l1 by (simp add: unchanged_def)
  have fits: "check_fits T (lg_bytes P) d \<and> covered_cells d \<inter> own_cells d = {}" if "d \<in> set ?cs" for d
    using plan_check_fits [OF assms(1,4) that] by blast
  have apart: "sorted_wrt (\<lambda>x y. own_cells x \<inter> own_cells y = {}) ?cs"
    by (rule sorted_wrt_mono_rel [OF _ plan_checks_sorted [OF assms(1,3)]]) simp
  obtain b3 where b3: "then_all checksum_clear ?cs b2 = Some b3" "unchanged K b2 b3"
    using puts_hold [of ?cs "\<lambda>d. (ca_at d, replicate (ca_width d) 0)" b2] fits l2 apart
    by (auto simp: K_def checksum_clear_def [abs_def] check_fits_def)
  have l3: "length b3 = lg_bytes P" using b3(2) l2 by (simp add: unchanged_def)
  obtain b4 where b4: "then_all (checksum_write T P) ?cs b3 = Some b4" "unchanged K b3 b4" "\<forall>d \<in> set ?cs. check_stamped T P b4 d"
    using checksums_hold [of ?cs T b3 P] fits l3 plan_checks_sorted [OF assms(1,3)] by (auto simp: K_def check_stamped_def)
  have K4: "unchanged K b2 b4" by (rule unchanged_trans [OF b3(2) b4(2)]) simp
  have MK4: "unchanged (M \<union> K) b1 b4" by (rule unchanged_trans [OF b2(2) K4]) simp
  have "unchanged (stamp_cells P) buf b4" by (rule unchanged_trans [OF b1(2) MK4 all])
  moreover have "prefix_held P b4" by (rule prefix_held_cong [OF MK4 pre b1(3)])
  moreover have "magic_held b4 x" if "x \<in> set ?ms" for x
  proof (rule magic_held_unchanged [OF _ K4])
    show "magic_held b2 x" using b2(3) m(2) that l2 by (simp add: magic_held_def)
    show "K \<inter> magic_cells x = {}" using MK [OF that] by blast
  qed
  moreover have "stamp T P buf = Some b4" using b1(1) b2(1) b3(1) b4(1) by (simp add: stamp_def)
  ultimately show ?thesis using b4(3) by blast
qed

section \<open>What a wire in bytes holds\<close>

lemma bytes_number:
  assumes "take n (drop off buf) = to_bytes e n out" "off + n \<le> length buf" "j < 8 * n"
  shows "cell_bit buf (number_cell e off n j) = bit out j"
proof -
  have k: "j div 8 < n" using assms(3) by (simp add: less_mult_imp_div_less)
  note b = byte_at_less [OF k, of e] byte_at_twice [OF k, of e]
  have "buf ! (off + byte_at e n (j div 8)) = to_bytes e n out ! byte_at e n (j div 8)"
    using assms(1,2) b(1) by (metis nth_take nth_drop add_leD1)
  then show ?thesis
    using b assms(2) wire_part_nth(2) [of n n "byte_at e n (j div 8)" e out "j mod 8"]
    by (simp add: number_cell_def cell_bit_def to_bytes_part)
qed

lemma index_where_name:
  "distinct (map h xs) \<Longrightarrow> i < length xs \<Longrightarrow> index_where (\<lambda>x. h x = h (xs ! i)) xs = Some i"
proof (induction xs arbitrary: i)
  case (Cons x xs)
  show ?case
  proof (cases i)
    case (Suc j)
    then have "h x \<noteq> h (xs ! j)" using Cons.prems by (metis Suc_less_eq distinct.simps(2) image_eqI list.set_map list.simps(9) length_Cons nth_mem)
    then show ?thesis using Cons Suc by simp
  qed simp
qed simp

lemma check_of_field:
  assumes "resolved_plan P" "it \<in> set (lp_items P)" "li_check it \<noteq> None"
  shows "\<exists>c \<in> set (as_check (lp_asserts P)). ca_field c = li_name it \<and> ca_at c = fst (item_bytes it)
    \<and> ca_at c + ca_width c = snd (item_bytes it) \<and> (\<forall>d \<in> set (as_check (lp_asserts P)). ca_field d = li_name it \<longrightarrow> d = c)"
proof -
  define ys where "ys = filter (\<lambda>it. li_check it \<noteq> None) (lp_items P)"
  have l: "list_all2 (check_for (extents_of (lp_items P))) (as_check (lp_asserts P)) ys" and n: "distinct (map li_name ys)"
    using assms(1) by (simp_all add: resolved_plan_def ys_def distinct_map_filter)
  have "it \<in> set ys" using assms(2,3) by (simp add: ys_def)
  then obtain k where k: "k < length ys" "it = ys ! k" by (auto simp: in_set_conv_nth)
  have len: "length (as_check (lp_asserts P)) = length ys" using list_all2_lengthD [OF l] .
  have k': "k < length (as_check (lp_asserts P))" using k(1) len by simp
  have one: "d = as_check (lp_asserts P) ! k" if d: "d \<in> set (as_check (lp_asserts P))" "ca_field d = li_name it" for d
  proof -
    obtain j where j: "j < length (as_check (lp_asserts P))" "d = as_check (lp_asserts P) ! j" using d(1) by (auto simp: in_set_conv_nth)
    have "li_name (ys ! j) = li_name (ys ! k)" using check_placed(4) [OF assms(1) j(1)] j(2) d(2) k(2) by (simp add: ys_def)
    then have "j = k" using n k(1) j(1) len by (metis (no_types, lifting) nth_eq_iff_index_eq nth_map length_map)
    then show ?thesis using j(2) by simp
  qed
  have "ca_field (as_check (lp_asserts P) ! k) = li_name it" "ca_at (as_check (lp_asserts P) ! k) = fst (item_bytes it)"
    "ca_at (as_check (lp_asserts P) ! k) + ca_width (as_check (lp_asserts P) ! k) = snd (item_bytes it)"
    using check_placed(4-6) [OF assms(1) k'] by (simp_all only: k(2) ys_def)
  with one nth_mem [OF k'] show ?thesis by blast
qed

text \<open>What a stamped field holds.\<close>

lemma checked_holds:
  fixes T :: "('c, 's) lay_types"
  assumes "resolved_plan P" "algorithms_ok T P" "it \<in> set (lp_items P)" "li_check it \<noteq> None" "length buf = lg_bytes P"
    and "\<forall>c \<in> set (as_check (lp_asserts P)). check_stamped T P buf c"
  shows "\<exists>s out v. li_body it = native s \<and> prim_bounds s \<noteq> None \<and> v = native_value s out
    \<and> (\<forall>c \<in> set (as_check (lp_asserts P)). ca_field c = li_name it \<longrightarrow> check_output T P c buf = Some out)
    \<and> body_value_ok T (li_body it) v \<and> holds T P (li_phys it) (li_body it) v buf"
proof -
  have p: "plan_ok P" "stamp_ok (lg_grid P) it" using assms(1,3) by (auto simp: resolved_plan_def plan_stamps_def)
  obtain s where s: "li_body it = native s" "prim_bounds s \<noteq> None" using p(2) assms(4) by (auto simp: stamp_ok_def)
  obtain c where c: "c \<in> set (as_check (lp_asserts P))" "ca_at c = fst (item_bytes it)" "ca_at c + ca_width c = snd (item_bytes it)"
    "\<And>d. d \<in> set (as_check (lp_asserts P)) \<Longrightarrow> ca_field d = li_name it \<Longrightarrow> d = c"
    using check_of_field [OF assms(1,3,4)] by blast
  obtain out where out: "check_output T P c buf = Some out" "take (ca_width c) (drop (ca_at c) buf) = to_bytes (lg_endian P) (ca_width c) out"
    using assms(6) c(1) by (auto simp: check_stamped_def)
  have st: "stamped it" using assms(4) by (simp add: stamped_def)
  have w: "ca_width c = prim_bytes s" using stamped_bytes(5) [OF assms(1,3) st] c(2,3) s(1) by (simp add: native_def)
  have fin: "take_bit (8 * ca_width c) (ck_finish (lt_checksum T (ca_algorithm c)) x) = ck_finish (lt_checksum T (ca_algorithm c)) x" for x
    using assms(2) c(1) by (auto simp: algorithms_ok_def Let_def)
  have "\<exists>x. out = ck_finish (lt_checksum T (ca_algorithm c)) x"
    using out(1) by (auto simp: check_output_def fold_over_def compute_def Let_def split: if_splits list.splits)
  then have small: "take_bit (8 * prim_bytes s) out = out" using fin w by auto
  define q where "q = \<lparr>pk_ty = prim_name s, pk_reading = RNative s, pk_bits = prim_bytes s * 8\<rparr>"
  have q: "li_body it = BPacked q" "pk_reading q = RNative s" using s(1) by (simp_all add: q_def native_def)
  have placed: "packed_placed P (li_phys it) q" using item_body_ok [OF p(1) assms(3)] q(1) by (simp add: body_ok_def)
  have at': "li_phys it div 8 = ca_at c" using c(2) by (simp add: item_bytes_def)
  have fit: "ca_at c + prim_bytes s \<le> length buf" using item_bytes_end(2) [OF p(1) assms(3)] c(3) assms(5) w by simp
  have "cell_bit buf (packed_cell P (li_phys it) q j) = bit out j" if "j < 8 * prim_bytes s" for j
    using bytes_number [OF out(2) [unfolded w] fit that] at'
    unfolding native_cell [OF q(2)] whole_cell [OF stamped_bytes(2) [OF assms(1,3) st]] by simp
  from native_holds [OF placed q(2) s(2) small this, of T]
  have "body_value_ok T (li_body it) (native_value s out)" "holds T P (li_phys it) (li_body it) (native_value s out) buf"
    by (simp_all only: q(1) body_value_ok.simps)
  moreover have "\<forall>d \<in> set (as_check (lp_asserts P)). ca_field d = li_name it \<longrightarrow> check_output T P d buf = Some out"
    using out(1) c(4) by blast
  ultimately show ?thesis using s by blast
qed

lemma unstamped_apart:
  assumes "plan_ok P" "arrays_regular P" "it \<in> set (lp_items P)" "\<not> stamped it"
  shows "stamp_cells P \<inter> set (item_cells P it) = {}"
proof -
  have "set (item_cells P it') \<inter> set (item_cells P it) = {}" if "it' \<in> set (lp_items P)" "stamped it'" for it'
    using items_disjoint [OF assms(1,2) that(1) assms(3)] that(2) assms(4) by auto
  then show ?thesis using prefix_apart [OF assms(1-3)] by (auto simp: stamp_cells_def)
qed

section \<open>Encode\<close>

text \<open>A checked field of the wire carries the value its algorithm gives.\<close>

definition item_held :: "('c, 's) lay_types \<Rightarrow> lay_plan \<Rightarrow> u8 list \<Rightarrow> 'c lay_value \<Rightarrow> lay_item \<Rightarrow> 'c lay_value \<Rightarrow> bool" where
  "item_held T P buf v it v' \<longleftrightarrow> body_value_ok T (li_body it) v' \<and> holds T P (li_phys it) (li_body it) v' buf \<and> (\<not> stamped it \<longrightarrow> v' = v)
     \<and> (li_check it \<noteq> None \<longrightarrow> (\<exists>s out. li_body it = native s \<and> prim_bounds s \<noteq> None \<and> v' = native_value s out
          \<and> (\<forall>c \<in> set (as_check (lp_asserts P)). ca_field c = li_name it \<longrightarrow> check_output T P c buf = Some out)))"

lemma item_held_exists:
  assumes "resolved_plan P" "arrays_regular P" "algorithms_ok T P" "it \<in> set (lp_items P)" "length buf = lg_bytes P"
    and "body_value_ok T (li_body it) v" "holds T P (li_phys it) (li_body it) v buf" "unchanged (stamp_cells P) buf wire"
    and "\<forall>c \<in> set (as_check (lp_asserts P)). check_stamped T P wire c"
  shows "\<exists>v'. item_held T P wire v it v'"
proof -
  have p: "plan_ok P" using assms(1) by (simp add: resolved_plan_def)
  then have g: "grid_ok P" by (simp add: plan_ok_def)
  have len: "length wire = lg_bytes P" using assms(5,8) by (simp add: unchanged_def)
  consider (plain) "\<not> stamped it" | (check) "li_check it \<noteq> None" | (magic) "li_check it = None" "stamped it"
    unfolding stamped_def by blast
  then show ?thesis
  proof cases
    case plain
    have "holds T P (li_phys it) (li_body it) v wire"
      using unchanged_holds [OF assms(8) _ assms(7)] unstamped_apart [OF p assms(2,4) plain] by (simp add: item_cells_def)
    then show ?thesis using assms(6) plain by (intro exI [of _ v]) (simp add: item_held_def stamped_def)
  next
    case check
    then have "stamped it" by (simp add: stamped_def)
    then show ?thesis using checked_holds [OF assms(1,3,4) check len assms(9)] unfolding item_held_def by blast
  next
    case magic
    obtain v' where "body_value_ok T (li_body it) v'" "holds T P (li_phys it) (li_body it) v' wire"
      using ints_total [OF g len stamped_bytes(3) [OF assms(1,4) magic(2)] item_body_ok [OF p assms(4)]] by blast
    then show ?thesis using magic by (intro exI [of _ v']) (simp add: item_held_def)
  qed
qed

text \<open>The fields a range admits are not overwritten: none of them carries a stamp.\<close>

definition ranges_plain :: "lay_plan \<Rightarrow> bool" where
  "ranges_plain P \<longleftrightarrow> (\<forall>it \<in> set (lp_items P). stamped it \<longrightarrow> li_range it = None)"

lemma range_guard_plain:
  assumes "resolved_plan P" "ranges_plain P" "r \<in> set (as_range (lp_asserts P))" "range_guard P vs r"
    and "length vs' = length vs" "length vs = length (lp_items P)"
    and "\<And>i. i < length (lp_items P) \<Longrightarrow> \<not> stamped (lp_items P ! i) \<Longrightarrow> vs' ! i = vs ! i"
  shows "range_guard P vs' r"
proof -
  obtain i where i: "index_where (\<lambda>it. li_name it = ra_field r) (lp_items P) = Some i" "i < length (lp_items P)"
    using assms(4,6) by (auto simp: range_guard_def split: option.splits)
  obtain it where it: "it \<in> set (lp_items P)" "range_of_item it = Inr [r]" using assms(1,3) by (auto simp: resolved_plan_def)
  then have r: "li_range it \<noteq> None" "ra_field r = li_name it"
    by (auto simp: range_of_item_def Let_def split: option.splits if_splits)
  obtain j where j: "j < length (lp_items P)" "it = lp_items P ! j" using it(1) by (auto simp: in_set_conv_nth)
  have "distinct (map li_name (lp_items P))" using assms(1) by (simp add: resolved_plan_def)
  then have "i = j" using index_where_name [of li_name "lp_items P" j] i(1) j r(2) by simp
  then have "\<not> stamped (lp_items P ! i)" using assms(2) it(1) j(2) r(1) by (auto simp: ranges_plain_def)
  then have "vs' ! i = vs ! i" by (rule assms(7) [OF i(2)])
  then show ?thesis using assms(4,5) i(1) by (simp add: range_guard_def)
qed

lemma plain_encodes:
  assumes "resolved_plan P" "prefix_small P" "arrays_regular P" "algorithms_ok T P" "ranges_plain P" "\<not> hoisted P" "values_ok T P vs"
  shows "\<exists>wire vs'. lay_encode T P vs = Some wire \<and> wire_holds T P vs' wire \<and> checks_hold T P vs' wire
    \<and> length vs' = length vs \<and> (\<forall>i < length vs. \<not> stamped (lp_items P ! i) \<longrightarrow> vs' ! i = vs ! i)"
proof -
  have p: "plan_ok P" using assms(1) by (simp add: resolved_plan_def)
  have len: "length vs = length (lp_items P)" using assms(7) by (auto simp: values_ok_def dest: list_all2_lengthD)
  obtain buf where buf: "write_items T P vs (0, replicate (lg_bytes P) 0) = Some (0, buf)" "length buf = lg_bytes P"
    "\<And>i. i < length (lp_items P) \<Longrightarrow> holds T P (li_phys (lp_items P ! i)) (li_body (lp_items P ! i)) (vs ! i) buf"
    using plain_writes [OF p assms(3,6,7), of "replicate (lg_bytes P) 0"] by auto
  obtain wire where w: "stamp T P buf = Some wire" "unchanged (stamp_cells P) buf wire" "prefix_held P wire"
    "\<forall>m \<in> set (as_magic (lp_asserts P)). magic_held wire m" "\<forall>c \<in> set (as_check (lp_asserts P)). check_stamped T P wire c"
    using stamps_hold [OF assms(1-4) buf(2)] by blast
  have ok: "body_value_ok T (li_body (lp_items P ! i)) (vs ! i)" if "i < length (lp_items P)" for i
    using assms(7) that by (auto simp: values_ok_def list_all2_conv_all_nth)
  have "\<forall>i < length (lp_items P). \<exists>v'. item_held T P wire (vs ! i) (lp_items P ! i) v'"
    using item_held_exists [OF assms(1,3,4) nth_mem buf(2) ok buf(3) w(2,5)] by blast
  then obtain vs' where v: "length vs' = length (lp_items P)"
    "\<And>i. i < length (lp_items P) \<Longrightarrow> item_held T P wire (vs ! i) (lp_items P ! i) (vs' ! i)"
    unfolding Skolem_list_nth by blast
  have same: "vs' ! i = vs ! i" if "i < length (lp_items P)" "\<not> stamped (lp_items P ! i)" for i
    using v(2) [OF that(1)] that(2) by (simp add: item_held_def)
  have "wire_holds T P vs' wire"
    using v w(2) buf(2) by (auto simp: wire_holds_def list_all2_conv_all_nth item_held_def unchanged_def)
  moreover have "check_held T P vs' wire c" if c: "c \<in> set (as_check (lp_asserts P))" for c
  proof -
    obtain it where it: "it \<in> set (lp_items P)" "li_check it \<noteq> None" "ca_field c = li_name it" using check_item [OF assms(1) c] by blast
    obtain i where i: "i < length (lp_items P)" "it = lp_items P ! i" using it(1) by (auto simp: in_set_conv_nth)
    have "index_where (\<lambda>it. li_name it = ca_field c) (lp_items P) = Some i"
      using index_where_name [of li_name "lp_items P" i] assms(1) i it(3) by (simp add: resolved_plan_def)
    then show ?thesis using v(2) [OF i(1)] i it(2,3) c unfolding item_held_def check_held_def by blast
  qed
  moreover have "range_guard P vs' r" if "r \<in> set (as_range (lp_asserts P))" for r
    using range_guard_plain [OF assms(1,5) that _ _ len same] assms(7) that v(1) len by (simp add: values_ok_def list_all_iff)
  moreover have "register P = None" using assms(6) by (auto simp: register_def)
  then have "lay_encode T P vs = Some wire"
    using assms(6,7) buf(1) w(1) by (simp add: lay_encode_def values_ok_def)
  ultimately show ?thesis using v(1) len same w(3,4) by (auto simp: checks_hold_def)
qed

lemma encodes:
  assumes "resolved_plan P" "prefix_small P" "arrays_regular P" "algorithms_ok T P" "ranges_plain P" "values_ok T P vs"
  shows "\<exists>wire vs'. lay_encode T P vs = Some wire \<and> wire_holds T P vs' wire \<and> checks_hold T P vs' wire
    \<and> length vs' = length vs \<and> (\<forall>i < length vs. \<not> stamped (lp_items P ! i) \<longrightarrow> vs' ! i = vs ! i)"
proof (cases "hoisted P")
  case True
  then show ?thesis using hoisted_encodes [OF assms(1-3) True assms(6)] by blast
next
  case False
  then show ?thesis by (rule plain_encodes [OF assms(1-5) _ assms(6)])
qed

text \<open>Two checksums of 64 bits compare as \<open>i64\<close>, which saturates: with the top bit set they are all equal.\<close>

lemma wide_checksums_confused: "value_i64 (LvUint (2 ^ 63)) = value_i64 (LvUint (2 ^ 64 - 1))"
  by (simp add: value_i64_def wi_u64_def mask_eq_exp_minus_1 min_def)

text \<open>A stamped field of the wire: a magic is the declared bytes, at the field's place, and a checksum is the value its
  algorithm gives for the bytes it covers in this wire, which is the value decoded.\<close>

definition stamp_held :: "('c, 's) lay_types \<Rightarrow> lay_plan \<Rightarrow> 'c lay_value list \<Rightarrow> u8 list \<Rightarrow> lay_item \<Rightarrow> bool" where
  "stamp_held T P vs wire it \<longleftrightarrow>
     (\<forall>lit. li_magic it = Some lit \<longrightarrow> (\<exists>bytes.
        magic_bytes lit (li_name it) (snd (item_bytes it) - fst (item_bytes it)) (lg_endian P) = Inr bytes
        \<and> take (length bytes) (drop (fst (item_bytes it)) wire) = bytes))
     \<and> (li_check it \<noteq> None \<longrightarrow> (\<exists>c \<in> set (as_check (lp_asserts P)).
        ca_field c = li_name it \<and> check_for (extents_of (lp_items P)) c it \<and> check_held T P vs wire c))"

lemma collect_res_each: "collect_res f xs = Inr ys \<Longrightarrow> x \<in> set xs \<Longrightarrow> \<exists>y \<in> set ys. f x = Inr y"
  by (induction xs arbitrary: ys) (auto simp: bind_res_Inr_iff)

lemma resolve_check_field: "resolve_check extents it spec a b = Inr c \<Longrightarrow> ca_field c = li_name it"
  by (auto simp: resolve_check_def Let_def bind_res_Inr_iff split: prod.splits option.splits if_splits)

lemma magic_of_item_bytes:
  assumes "magic_of_item e extents it = Inr ms" "li_magic it = Some lit" "map_of extents (li_name it) = Some (item_bytes it)"
  shows "\<exists>m. ms = [m] \<and> ma_at m = fst (item_bytes it)
    \<and> magic_bytes lit (li_name it) (snd (item_bytes it) - fst (item_bytes it)) e = Inr (ma_bytes m)"
proof -
  have "map_res (\<lambda>bytes. [\<lparr>ma_field = li_name it, ma_at = fst (item_bytes it), ma_bytes = bytes\<rparr>])
      (magic_bytes lit (li_name it) (snd (item_bytes it) - fst (item_bytes it)) e) = Inr ms"
    using assms by (cases "item_bytes it") (simp add: magic_of_item_def)
  then show ?thesis
    by (cases "magic_bytes lit (li_name it) (snd (item_bytes it) - fst (item_bytes it)) e") auto
qed

lemma declared_magic:
  assumes "resolve_assertions Q = Inr P" "lp_items Q = lp_items P" "lg_endian Q = lg_endian P"
    and "distinct (map li_name (lp_items P))" "it \<in> set (lp_items P)" "li_magic it = Some lit"
  shows "\<exists>m \<in> set (as_magic (lp_asserts P)). ma_at m = fst (item_bytes it)
    \<and> magic_bytes lit (li_name it) (snd (item_bytes it) - fst (item_bytes it)) (lg_endian P) = Inr (ma_bytes m)"
proof -
  obtain es rs sts where r: "collect_res item_extent (lp_items P) = Inr es"
    "collect_res (stamps_of_item (lg_endian P) (concat es)) (lp_items P) = Inr sts"
    "as_magic (lp_asserts P) = concat (map fst sts)"
    using assms(1) unfolding assms(2,3) [symmetric]
    by (cases "collect_res item_extent (lp_items Q)"; cases "collect_res range_of_item (lp_items Q)")
      (auto simp: resolve_assertions_def bind_res_Inr_iff Let_def split: if_splits)
  note ex = collect_extents [OF r(1)]
  have "stamped it" using assms(6) by (simp add: stamped_def)
  then have place: "map_of (concat es) (li_name it) = Some (item_bytes it)"
    using map_of_extents [OF assms(4,5)] ex assms(5) by simp
  obtain st where st: "st \<in> set sts" "stamps_of_item (lg_endian P) (concat es) it = Inr st"
    using collect_res_each [OF r(2) assms(5)] by blast
  have "magic_of_item (lg_endian P) (concat es) it = Inr (fst st)" using st(2) by (simp add: stamps_of_item_Inr)
  from magic_of_item_bytes [OF this assms(6) place] obtain m where m: "fst st = [m]" "ma_at m = fst (item_bytes it)"
    "magic_bytes lit (li_name it) (snd (item_bytes it) - fst (item_bytes it)) (lg_endian P) = Inr (ma_bytes m)" by blast
  then have "m \<in> set (as_magic (lp_asserts P))" using st(1) unfolding r(3) set_concat set_map by force
  then show ?thesis using m(2,3) by blast
qed

lemma all_stamps_held:
  assumes "expand_layout name k attrs fs = Inr P" "lg_bytes P < 2 ^ 29" "distinct (map rf_name fs)"
    and "checks_hold T P vs wire" "it \<in> set (lp_items P)"
  shows "stamp_held T P vs wire it"
  unfolding stamp_held_def
proof (intro conjI allI impI)
  note P = expand_layout_resolved [OF assms(1-3)]
  obtain Q where Q: "resolve_assertions Q = Inr P" "lp_items Q = lp_items P" "lg_endian Q = lg_endian P"
    using expand_layout_parts(3) [OF assms(1,2)] by blast
  fix lit assume "li_magic it = Some lit"
  then obtain m where "m \<in> set (as_magic (lp_asserts P))" "ma_at m = fst (item_bytes it)"
    "magic_bytes lit (li_name it) (snd (item_bytes it) - fst (item_bytes it)) (lg_endian P) = Inr (ma_bytes m)"
    using declared_magic [OF Q _ assms(5)] P(2) assms(3) by auto
  moreover from this(1) have "magic_held wire m" using assms(4) by (simp add: checks_hold_def)
  ultimately show "\<exists>bytes. magic_bytes lit (li_name it) (snd (item_bytes it) - fst (item_bytes it)) (lg_endian P) = Inr bytes
      \<and> take (length bytes) (drop (fst (item_bytes it)) wire) = bytes"
    by (auto simp: magic_held_def)
next
  assume "li_check it \<noteq> None"
  then have "it \<in> set (filter (\<lambda>it. li_check it \<noteq> None) (lp_items P))" using assms(5) by simp
  then obtain c where c: "c \<in> set (as_check (lp_asserts P))" "check_for (extents_of (lp_items P)) c it"
    using expand_layout_resolved(1) [OF assms(1-3)] unfolding resolved_plan_def
    by (metis (no_types, lifting) in_set_conv_nth list_all2_conv_all_nth)
  moreover have "ca_field c = li_name it" using c(2) by (auto simp: check_for_def resolve_check_field)
  moreover have "check_held T P vs wire c" using c(1) assms(4) by (simp add: checks_hold_def)
  ultimately show "\<exists>c \<in> set (as_check (lp_asserts P)).
      ca_field c = li_name it \<and> check_for (extents_of (lp_items P)) c it \<and> check_held T P vs wire c" by blast
qed

section \<open>Properties\<close>

text \<open>A checksum of the library as one over the widest number, and a packet of a marker, a length and the checksum of
  both.\<close>

definition widened :: "('w::len word, 's) checksum \<Rightarrow> (u128, 's) checksum" where
  "widened C = \<lparr>ck_init = ck_init C, ck_update = ck_update C, ck_finish = (\<lambda>s. ucast (ck_finish C s)), ck_output = wi_unsigned\<rparr>"

definition packet_types :: "(unit, sum16_state) lay_types" where
  "packet_types =
     \<lparr>lt_codec = (\<lambda>_. \<lparr>BITS = Some 0, from_raw = (\<lambda>_. ()), to_raw = (\<lambda>_. 0)\<rparr>),
      lt_layout = (\<lambda>_. \<lparr>nl_decode = (\<lambda>_. ()), nl_decode_slice = (\<lambda>_. Inr ()), nl_encode = (\<lambda>_. [])\<rparr>),
      lt_checksum = (\<lambda>_. widened (sum16_neg True))\<rparr>"

definition packet_keys :: layout_keys where
  "packet_keys =
     \<lparr>lk_bits = None, lk_bytes = Some 6, lk_words = None, lk_prefix = None, lk_prefix_value = None,
      lk_endian = Some Be, lk_order = None, lk_view = False, lk_internal = False, lk_truncate = False\<rparr>"

definition u16_type :: rust_type where
  "u16_type = TyPath False [(''u16'', NoArgs)]"

definition packet_fields :: "rust_field list" where
  "packet_fields =
     [\<lparr>rf_name = ''mark'', rf_ty = TyArray u8_type \<lparr>ce_text = ''2'', ce_value = Some 2\<rparr>,
       rf_attrs = [FaMagic (Inr (MagicBytes [0xCA, 0xFE]))]\<rparr>,
      \<lparr>rf_name = ''size'', rf_ty = u16_type, rf_attrs = []\<rparr>,
      \<lparr>rf_name = ''sum'', rf_ty = u16_type, rf_attrs = [FaChecksum (Inr (checksum_spec ''Sum16'' None None False))]\<rparr>]"

lemma packet_accepted:
  "case expand_layout ''Packet'' packet_keys [] packet_fields of
     Inr P \<Rightarrow> arrays_regular P \<and> prefix_small P \<and> ranges_plain P \<and> lg_bytes P = 6 \<and> map ca_width (as_check (lp_asserts P)) = [2]
       \<and> map stamped (lp_items P) = [True, False, True] \<and> as_range (lp_asserts P) = []
       \<and> map li_body (lp_items P) = [BRepeat (native PU8) 2, native PU16, native PU16]
   | Inl _ \<Rightarrow> False"
  by code_simp

lemma packet_values:
  assumes "as_range (lp_asserts P) = []" "map li_body (lp_items P) = [BRepeat (native PU8) 2, native PU16, native PU16]"
  shows "values_ok packet_types P [LvArr [LvUint 0, LvUint 0], LvUint 300, LvUint 0]"
proof -
  have "list_all2 (body_value_ok packet_types) (map li_body (lp_items P)) [LvArr [LvUint 0, LvUint 0], LvUint 300, LvUint 0]"
    unfolding assms(2) by (simp add: native_def leaf_value_ok_def native_value_ok_def)
  then show ?thesis using assms(1) by (simp add: values_ok_def list_all2_map1)
qed

lemma packet_algorithms: "map ca_width (as_check (lp_asserts P)) = [2] \<Longrightarrow> algorithms_ok packet_types P"
proof -
  assume w: "map ca_width (as_check (lp_asserts P)) = [2]"
  have "take_bit 16 (ucast (x :: u16) :: u128) = ucast x" for x
    by (rule bit_word_eqI) (auto simp: bit_take_bit_iff bit_ucast_iff dest: bit_imp_le_length)
  moreover have "ca_width c = 2" if "c \<in> set (as_check (lp_asserts P))" for c using w that by (cases "as_check (lp_asserts P)") auto
  ultimately show ?thesis by (simp add: algorithms_ok_def packet_types_def widened_def sum16_neg_def Let_def)
qed



text \<open>Why no stamped field is ranged: the range is asserted of the value in the struct, which the magic then overwrites,
  and decode refuses the marker that encode wrote.\<close>

definition ranged_keys :: layout_keys where
  "ranged_keys = packet_keys\<lparr>lk_bytes := Some 1\<rparr>"

definition ranged_fields :: "rust_field list" where
  "ranged_fields =
     [\<lparr>rf_name = ''mark'', rf_ty = u8_type,
       rf_attrs = [FaMagic (Inr (MagicBytes [9])), FaRange (Inr \<lparr>vr_lo = Some 0, vr_hi = Some 5\<rparr>)]\<rparr>]"

lemma ranged_stamp_refused:
  "case expand_layout ''Ranged'' ranged_keys [] ranged_fields of
     Inr P \<Rightarrow> lay_encode packet_types P [LvUint 3] = Some [9]
       \<and> lay_decode packet_types P [9] = Some (Inl (OutOfRange ''mark'' 9 0 5))
   | Inl _ \<Rightarrow> False"
  by code_simp

end
