(* ===== verification/LayoutViews.thy ===== *)
theory LayoutViews
  imports LayoutWire Traits
begin

text \<open>
  The view of a layout (\<open>layline-derive/src/layout/view.rs\<close>) against the decode of its owned type (\<open>emit.rs\<close>). They
  read by different code: \<open>decode\<close> loads the layout once and takes the fields out of the register, a view reads the
  bytes a field touches; \<open>decode\<close> checks and reads in one run, a view checks in \<open>verify\<close> and reads in \<open>decode\<close>
  and in the accessors. On every wire the two give the same result, so the view and the owned type keep the contract
  of the traits \<open>Layout\<close> and \<open>View\<close>.
\<close>

section \<open>Reading never panics\<close>

lemma scalar_read_total: "off + prim_bytes s \<le> length buf \<Longrightarrow> \<exists>v. scalar_read e s off buf = Some v"
  by (cases s) (auto simp: scalar_read_def window_bytes_def Let_def)

lemma those_total: "(\<And>x. x \<in> set xs \<Longrightarrow> \<exists>y. f x = Some y) \<Longrightarrow> \<exists>ys. those (map f xs) = Some ys"
proof (induction xs)
  case (Cons x xs)
  then obtain y ys where "f x = Some y" "those (map f xs) = Some ys" by (meson list.set_intros)
  then show ?case by simp
qed simp

lemma read_run_total:
  assumes "grid_ok P" "length buf = lg_bytes P"
  shows "native_leaf b \<Longrightarrow> body_placed P pos b \<Longrightarrow> leaves_ok b \<Longrightarrow> 8 dvd pos \<Longrightarrow> \<exists>v :: 'c lay_value. read_run e buf b (pos div 8) = Some v"
proof (induction b arbitrary: pos)
  case (BPacked p)
  then obtain s where s: "pk_reading p = RNative s" by (auto simp: is_native_def split: reading.splits)
  have "pos + 8 * prim_bytes s \<le> 8 * length buf"
    using BPacked.prems(2) s assms by (auto simp: packed_placed_def grid_ok_def)
  then have "pos div 8 + prim_bytes s \<le> length buf" using BPacked.prems(4) by (auto elim!: dvdE)
  from scalar_read_total [OF this] show ?case using s by auto
next
  case (BRepeat b n)
  have leaf: "native_leaf b" "leaves_ok b" using BRepeat.prems by auto
  obtain k where k: "body_bits b = 8 * k" using bytewise_bits [OF native_bytewise [OF leaf(1), of P] leaf(2)] by blast
  have off: "(pos + i * body_bits b) div 8 = pos div 8 + i * (body_bits b div 8)" "8 dvd pos + i * body_bits b" for i
    using BRepeat.prems(4) by (simp_all add: k mult.left_commute)
  show ?case
  proof (cases "is_byte_leaf b")
    case True
    then have "body_bits b = 8" using leaf(2) by (auto simp: is_byte_leaf_def leaf_ok_def split: lay_body.splits)
    then have "pos + 8 * n \<le> 8 * length buf" using BRepeat.prems(2) assms by (simp add: grid_ok_def)
    then have "pos div 8 + n \<le> length buf" using BRepeat.prems(4) by (auto elim!: dvdE)
    then show ?thesis using True by simp
  next
    case False
    have "\<exists>v :: 'c lay_value. read_run e buf b (pos div 8 + i * (body_bits b div 8)) = Some v" if "i < n" for i
    proof -
      have "body_placed P (pos + i * body_bits b) b" using BRepeat.prems(2) that by simp
      from BRepeat.IH [OF leaf(1) this leaf(2) off(2)] show ?thesis by (simp only: off(1))
    qed
    then have "\<exists>ys :: 'c lay_value list. those (map (\<lambda>i. read_run e buf b (pos div 8 + i * (body_bits b div 8))) [0..<n]) = Some ys"
      by (intro those_total) simp
    then show ?thesis using False by auto
  qed
qed simp

section \<open>A field read from the register and from the bytes\<close>

text \<open>Which access read a number does not matter to the value, if the number is of the field's width.\<close>

lemma decode_value_access:
  assumes "leaf_ok p" "\<And>j. bit v j \<Longrightarrow> j < pk_bits p"
  shows "decode_value T p a v = decode_value T p b v"
proof (cases "pk_reading p")
  case (RUint n)
  then have "pk_bits p \<le> n" using assms(1) by (simp add: leaf_ok_def)
  then have "take_bit n v = v" using assms(2) by (intro bit_word_eqI) (auto simp: bit_take_bit_iff dest: less_le_trans)
  then show ?thesis using RUint by (simp add: decode_value_def)
qed (simp_all add: decode_value_def)

lemma read_leaf_view:
  assumes "grid_ok P" "packed_placed P pos p" "leaf_ok p" "length buf = lg_bytes P" "load_raw P buf = Some raw"
  shows "\<exists>v. read_body T P False 0 buf pos (BPacked p) = Some (Inr v) \<and> read_body T P True raw buf pos (BPacked p) = Some (Inr v)"
proof (cases "\<exists>s. pk_reading p = RNative s")
  case True
  then obtain s where s: "pk_reading p = RNative s" by blast
  then have "pos + 8 * prim_bytes s \<le> 8 * length buf" "8 dvd pos"
    using assms(1,2,4) by (auto simp: packed_placed_def grid_ok_def)
  then have "pos div 8 + prim_bytes s \<le> length buf" by (auto elim!: dvdE)
  from scalar_read_total [OF this, of "lg_endian P"] obtain v where "scalar_read (lg_endian P) s (pos div 8) buf = Some v" ..
  then show ?thesis using s by (simp add: access_of_def ok_run_def decode_value_def)
next
  case False
  then have "pk_reading p \<noteq> RNative PBool" by blast
  from both_accesses [OF assms(1,2,4,5) this, of 0] obtain a b v where
    "access_of P True pos p = Some a" "access_of P False pos p = Some b" "load P raw buf a = Some v" "load P 0 buf b = Some v"
    "\<And>j. bit v j \<Longrightarrow> j < pk_bits p" by blast
  then show ?thesis using decode_value_access [OF assms(3), of v T a b] by (simp add: ok_run_def)
qed

lemma read_body_view:
  assumes "grid_ok P" "length buf = lg_bytes P" "load_raw P buf = Some raw" "\<not> lp_internal P"
  shows "body_ok P pos b \<Longrightarrow>
    \<exists>v. read_body T P False 0 buf pos b = Some (Inr v) \<and> read_body T P True raw buf pos b = Some (Inr v)"
proof (induction b arbitrary: pos)
  case (BPacked p)
  then show ?case using assms(2,3) by (intro read_leaf_view [OF assms(1)]) (auto simp: body_ok_def)
next
  case (BNested ty n)
  have "pos + n * 8 \<le> 8 * length buf" "8 dvd pos" using BNested assms(1,2) by (auto simp: body_ok_def grid_ok_def)
  then have "pos div 8 + n \<le> length buf" by (auto elim!: dvdE)
  then show ?case using assms(4) by (simp add: Let_def)
next
  case (BRepeat b n)
  show ?case
  proof (cases "native_leaf b")
    case True
    then have "\<exists>v :: 'c lay_value. read_run (lg_endian P) buf (BRepeat b n) (pos div 8) = Some v"
      using BRepeat.prems by (intro read_run_total [OF assms(1,2)]) (auto simp: body_ok_def)
    then show ?thesis using True by (auto simp: ok_run_def)
  next
    case False
    have "\<forall>i < n. \<exists>v. read_body T P False 0 buf (pos + i * body_bits b) b = Some (Inr v)
        \<and> read_body T P True raw buf (pos + i * body_bits b) b = Some (Inr v)"
      using BRepeat.IH body_ok_element [OF BRepeat.prems] by blast
    then obtain vs where vs: "length vs = n"
      "\<forall>i < n. read_body T P False 0 buf (pos + i * body_bits b) b = Some (Inr (vs ! i))
        \<and> read_body T P True raw buf (pos + i * body_bits b) b = Some (Inr (vs ! i))"
      unfolding Skolem_list_nth by blast
    then have "each_run (\<lambda>i. read_body T P False 0 buf (pos + i * body_bits b) b) [0..<n] = Some (Inr vs)"
      "each_run (\<lambda>i. read_body T P True raw buf (pos + i * body_bits b) b) [0..<n] = Some (Inr vs)"
      by (auto intro!: each_run_ok)
    then show ?thesis using False by simp
  qed
qed

lemma read_items_view:
  assumes "plan_ok P" "length buf = lg_bytes P" "load_raw P buf = Some raw" "\<not> lp_internal P"
  shows "\<exists>vs. length vs = length (lp_items P) \<and> read_items T P False 0 buf = Some (Inr vs) \<and> read_items T P True raw buf = Some (Inr vs)
    \<and> (\<forall>i < length vs. view_get T P buf (lp_items P ! i) = Some (Inr (vs ! i)))"
proof -
  have g: "grid_ok P" using assms(1) by (simp add: plan_ok_def)
  have "\<forall>i < length (lp_items P). \<exists>v.
      read_body T P False 0 buf (li_phys (lp_items P ! i)) (li_body (lp_items P ! i)) = Some (Inr v)
      \<and> read_body T P True raw buf (li_phys (lp_items P ! i)) (li_body (lp_items P ! i)) = Some (Inr v)"
    using read_body_view [OF g assms(2-4) item_body_ok [OF assms(1) nth_mem]] by blast
  then obtain vs where vs: "length vs = length (lp_items P)" "\<forall>i < length (lp_items P).
      read_body T P False 0 buf (li_phys (lp_items P ! i)) (li_body (lp_items P ! i)) = Some (Inr (vs ! i))
      \<and> read_body T P True raw buf (li_phys (lp_items P ! i)) (li_body (lp_items P ! i)) = Some (Inr (vs ! i))"
    unfolding Skolem_list_nth by blast
  moreover from this have "read_items T P False 0 buf = Some (Inr vs)" "read_items T P True raw buf = Some (Inr vs)"
    unfolding read_items_def by (auto intro!: each_run_ok)
  ultimately show ?thesis by (auto simp: view_get_def)
qed

section \<open>The checks\<close>

lemma all_run_total: "(\<And>x. x \<in> set xs \<Longrightarrow> \<exists>r. f x = Some r \<and> g x = Some r) \<Longrightarrow> \<exists>r. all_run f xs = Some r \<and> all_run g xs = Some r"
proof (induction xs)
  case (Cons x xs)
  obtain r where r: "f x = Some r" "g x = Some r" using Cons.prems by (meson list.set_intros(1))
  obtain r' where "all_run f xs = Some r'" "all_run g xs = Some r'" using Cons by (meson list.set_intros(2))
  then show ?case using r by (cases r) auto
qed simp

lemma prefix_check_view:
  assumes "resolved_plan P" "prefix_small P" "length buf = lg_bytes P" "load_raw P buf = Some raw"
  shows "\<exists>r. prefix_check P (hoisted P) raw buf = Some r \<and> prefix_check P False 0 buf = Some r"
proof (cases "lp_prefix_value P")
  case (Some v)
  then have n: "lp_prefix P < 64" using assms(2) by (simp add: prefix_small_def)
  obtain a where a: "prefix_check P (hoisted P) raw buf = Some (if a \<noteq> of_nat v then Inl (Prefix (of_nat v) a) else Inr ())"
    "\<forall>k. bit a k \<longleftrightarrow> k < lp_prefix P \<and> wire_bit buf (prefix_cell P k)"
    using prefix_reads [OF assms(1) Some n assms(3), of "hoisted P" raw] assms(4) by blast
  obtain b where b: "prefix_check P False 0 buf = Some (if b \<noteq> of_nat v then Inl (Prefix (of_nat v) b) else Inr ())"
    "\<forall>k. bit b k \<longleftrightarrow> k < lp_prefix P \<and> wire_bit buf (prefix_cell P k)"
    using prefix_reads [OF assms(1) Some n assms(3), of False 0] by blast
  have "a = b" using a(2) b(2) by (intro bit_word_eqI) simp
  then show ?thesis using a(1) b(1) by simp
qed (simp add: prefix_check_def)

lemma native_int_value: "prim_bounds s \<noteq> None \<Longrightarrow> \<exists>n. value_i64 (native_value s r) = Some n"
  by (cases s) (auto simp: value_i64_def native_value_def)

lemma check_verify_view:
  fixes T :: "('c, 's) lay_types"
  assumes "resolved_plan P" "algorithms_ok T P" "length buf = lg_bytes P" "load_raw P buf = Some raw" "c \<in> set (as_check (lp_asserts P))"
  shows "\<exists>r. check_verify T P True raw buf c = Some r \<and> check_verify T P False 0 buf c = Some r"
proof -
  have p: "plan_ok P" "distinct (map li_name (lp_items P))" using assms(1) by (simp_all add: resolved_plan_def)
  obtain it where it: "it \<in> set (lp_items P)" "li_check it \<noteq> None" "ca_field c = li_name it"
    using check_item [OF assms(1,5)] by blast
  have "stamp_ok (lg_grid P) it" using assms(1) it(1) by (simp add: resolved_plan_def plan_stamps_def)
  then obtain s where s: "li_body it = native s" "prim_bounds s \<noteq> None" using it(2) by (auto simp: stamp_ok_def)
  obtain i where i: "i < length (lp_items P)" "it = lp_items P ! i" using it(1) by (auto simp: in_set_conv_nth)
  have named: "item_named (lp_items P) (ca_field c) = Some it"
    using index_where_name [of li_name "lp_items P" i] p(2) i it(3) by (simp add: item_named_index)
  have "body_ok P (li_phys it) (native s)" using item_body_ok [OF p(1) it(1)] s(1) by simp
  then have fit: "li_phys it + 8 * prim_bytes s \<le> 8 * length buf" "8 dvd li_phys it"
    using p(1) assms(3) by (auto simp: body_ok_def native_def packed_placed_def plan_ok_def grid_ok_def)
  then have "li_phys it div 8 + prim_bytes s \<le> length buf" by (auto elim!: dvdE)
  from scalar_read_total [OF this, of "lg_endian P"] obtain x where
    "scalar_read (lg_endian P) s (li_phys it div 8) buf = Some x" ..
  then have read: "field_i64 T P loaded raw' buf (ca_field c) = ok_run (value_i64 (native_value s x :: 'c lay_value))" for loaded raw'
    using s(1) by (simp add: field_i64_def named native_def access_of_def ok_run_def decode_value_def)
  have "check_scalar P c = Some s" using s(1) by (simp add: check_scalar_def named native_def)
  moreover obtain out where "check_output T P c buf = Some out"
    using check_output_exists [of T buf c P] plan_check_fits(1) [OF assms(1,2,5)] assms(3) by auto
  moreover obtain m n where "value_i64 (native_value s out :: 'c lay_value) = Some m" "value_i64 (native_value s x :: 'c lay_value) = Some n"
    using native_int_value [OF s(2), where 'a = 'c] by metis
  ultimately show ?thesis by (simp add: check_verify_def read ok_run_def)
qed

lemma magic_check_total:
  assumes "resolved_plan P" "length buf = lg_bytes P" "m \<in> set (as_magic (lp_asserts P))"
  shows "\<exists>r. magic_check buf m = Some r"
  using magic_item(2) [OF assms(1,3)] assms(2) by (simp add: magic_check_def)


section \<open>A wire through the view and through the owned type\<close>

lemma bind_run_assoc: "bind_run (bind_run m f) g = bind_run m (\<lambda>x. bind_run (f x) g)"
  by (simp add: bind_run_def split: option.splits sum.splits)

text \<open>Every layout decodes from its number and its bytes: a register needs no bytes.\<close>

lemma lay_decode_loaded:
  assumes "resolved_plan P" "length buf = lg_bytes P"
  shows "\<exists>raw. load_raw P buf = Some raw \<and> lay_decode T P buf = decode_checked T P raw buf"
proof (cases "word_ty P")
  case (Some reg)
  then have r: "register P = Some reg" by (auto simp: word_ty_def split: option.splits if_splits)
  show ?thesis
    using Some assms(2) word_ty_load [OF assms(1) Some assms(2)] decode_checked_register [OF assms(1) r, of T _ "[]" buf]
    by (simp add: lay_decode_def lay_from_bits_def)
next
  case None
  have "\<exists>raw. load_raw P buf = Some raw"
  proof (cases "hoisted P")
    case True
    then show ?thesis
      using raw_exact [OF _ True _ assms(2)] hoisted_word(2) assms(1) by (auto simp: resolved_plan_def plan_ok_def)
  next
    case False
    then show ?thesis by (simp add: load_raw_def register_def)
  qed
  then show ?thesis using None assms(2) by (auto simp: lay_decode_def)
qed

definition viewable :: "lay_plan \<Rightarrow> bool" where
  "viewable P \<longleftrightarrow> as_range (lp_asserts P) = [] \<and> as_flags (lp_asserts P) = [] \<and> \<not> lp_internal P"

lemma view_verify_total:
  assumes "resolved_plan P" "prefix_small P" "algorithms_ok T P" "length buf = lg_bytes P" "load_raw P buf = Some raw"
  shows "\<exists>v. view_verify T P buf = Some v \<and>
    bind_run (all_run (magic_check buf) (as_magic (lp_asserts P))) (\<lambda>_.
    bind_run (prefix_check P (hoisted P) raw buf) (\<lambda>_.
    all_run (check_verify T P True raw buf) (as_check (lp_asserts P)))) = Some v"
proof -
  have "\<exists>a. all_run (magic_check buf) (as_magic (lp_asserts P)) = Some a \<and> all_run (magic_check buf) (as_magic (lp_asserts P)) = Some a"
    by (rule all_run_total) (use magic_check_total [OF assms(1,4)] in simp)
  then obtain a where a: "all_run (magic_check buf) (as_magic (lp_asserts P)) = Some a" by blast
  obtain b where b: "prefix_check P (hoisted P) raw buf = Some b" "prefix_check P False 0 buf = Some b"
    using prefix_check_view [OF assms(1,2,4,5)] by blast
  have "\<exists>c. all_run (check_verify T P True raw buf) (as_check (lp_asserts P)) = Some c
      \<and> all_run (check_verify T P False 0 buf) (as_check (lp_asserts P)) = Some c"
    by (rule all_run_total) (rule check_verify_view [OF assms(1,3,4,5)])
  then obtain c where c: "all_run (check_verify T P True raw buf) (as_check (lp_asserts P)) = Some c"
    "all_run (check_verify T P False 0 buf) (as_check (lp_asserts P)) = Some c" by blast
  show ?thesis using a b c by (cases a; cases b) (auto simp: view_verify_def)
qed

lemma decode_is_view:
  assumes "resolved_plan P" "viewable P" "prefix_small P" "algorithms_ok T P" "length buf = lg_bytes P"
  shows "\<exists>v vs. view_verify T P buf = Some v \<and> view_decode T P buf = Some (Inr vs)
    \<and> lay_decode T P buf = Some (map_res (\<lambda>_. vs) v) \<and> length vs = length (lp_items P)
    \<and> (\<forall>i < length vs. view_get T P buf (lp_items P ! i) = Some (Inr (vs ! i)))"
proof -
  have p: "plan_ok P" using assms(1) by (simp add: resolved_plan_def)
  note plain = assms(2) [unfolded viewable_def]
  obtain raw where raw: "load_raw P buf = Some raw" "lay_decode T P buf = decode_checked T P raw buf"
    using lay_decode_loaded [OF assms(1,5)] by blast
  obtain vs where vs: "length vs = length (lp_items P)" "read_items T P False 0 buf = Some (Inr vs)"
    "read_items T P True raw buf = Some (Inr vs)" "\<forall>i < length vs. view_get T P buf (lp_items P ! i) = Some (Inr (vs ! i))"
    using read_items_view [OF p assms(5) raw(1)] plain by blast
  obtain v where v: "view_verify T P buf = Some v"
    "bind_run (all_run (magic_check buf) (as_magic (lp_asserts P))) (\<lambda>_.
     bind_run (prefix_check P (hoisted P) raw buf) (\<lambda>_.
     all_run (check_verify T P True raw buf) (as_check (lp_asserts P)))) = Some v"
    using view_verify_total [OF assms(1,3,4,5) raw(1)] by blast
  show ?thesis
  proof (cases "asserting P")
    case True
    then have any: "asserts_any (lp_asserts P) \<or> lp_prefix_value P \<noteq> None" using plain by (auto simp: asserting_def)
    have "decode_checked T P raw buf = bind_run (Some v) (\<lambda>_. read_items T P True raw buf)"
      unfolding v(2) [symmetric] using any plain by (auto simp: decode_checked_def Let_def bind_run_assoc)
    then have "lay_decode T P buf = Some (map_res (\<lambda>_. vs) v)" using raw(2) vs(3) by (cases v) auto
    then show ?thesis using True v(1) vs by (simp add: view_decode_def)
  next
    case False
    then have none: "as_magic (lp_asserts P) = []" "as_check (lp_asserts P) = []" "lp_prefix_value P = None"
      "\<not> asserts_any (lp_asserts P)"
      by (auto simp: asserting_def asserts_any_def)
    then have "v = Inr ()" using v(1) by (simp add: view_verify_def prefix_check_def)
    moreover have "lay_decode T P buf = Some (Inr vs)" using raw(2) none vs(3) by (simp add: decode_checked_def Let_def)
    ultimately show ?thesis using False v(1) vs(1,4) by (simp add: view_decode_def)
  qed
qed


section \<open>A layout with a view\<close>

text \<open>\<open>viewless\<close> refuses a view over a field whose values decode restricts, so a layout with a view has neither ranges
  nor strict booleans.\<close>

definition flagless :: "lay_body \<Rightarrow> bool" where
  "flagless b \<longleftrightarrow> (case b of BPacked p \<Rightarrow> pk_reading p \<noteq> RNative PBool | _ \<Rightarrow> True)"

lemma flagless_item: "flagless (li_body it) \<Longrightarrow> item_flag it = []"
  by (auto simp: flagless_def item_flag_def split: lay_body.splits)

lemma flagless_array: "flagless b \<Longrightarrow> flagless (foldl BRepeat b ds)"
  by (induction ds arbitrary: b) (auto simp: flagless_def)

lemma flagless_native: "flagless (native s) = (s \<noteq> PBool)"
  by (simp add: flagless_def native_def)

lemma flagless_word: "flagless (BPacked \<lparr>pk_ty = ty, pk_reading = reading_of k, pk_bits = n\<rparr>)"
  by (cases k) (simp_all add: flagless_def)

lemma byte_field_flagless:
  assumes "byte_field_of f = Inr x" "bf_kind x \<noteq> BkScalar PBool"
  shows "flagless (byte_body (bf_kind x))"
proof -
  have "array_prim (bf_kind x) \<noteq> Some PBool"
    using assms(1) by (auto simp: byte_field_of_def Let_def bind_res_Inr_iff split: if_splits)
  then show ?thesis
    using assms(2) flagless_array
    by (cases "bf_kind x") (auto simp: byte_body_def flagless_native codec_body_def, auto simp: flagless_def)
qed

lemma words_item_flagless: "flagless (li_body (words_item x))"
  by (cases "ws_kind x") (simp_all add: words_item_def flagless_word, simp_all add: flagless_def)

lemma declared_viewable:
  assumes "declared_fields name c True fs = Inr d"
  shows "\<forall>it \<in> set (lp_items (plan_of n k d)). flagless (li_body it) \<and> li_range it = None"
proof -
  consider (word) bits pre pv e ord ys where "collect_res word_field_of fs = Inr ys" "\<forall>f \<in> set ys. wf_range f = None"
      "d = DeclWord bits pre pv e ord ys"
    | (bytes) m e ys where "collect_res byte_field_of fs = Inr ys" "\<forall>f \<in> set ys. bf_kind f \<noteq> BkScalar PBool \<and> bf_range f = None"
      "d = DeclBytes m e ys"
    | (words) m e ord ys where "collect_res words_field_of fs = Inr ys" "\<forall>f \<in> set ys. ws_range f = None" "d = DeclWords m e ord ys"
    using assms by (cases c) (auto simp: declared_fields_def viewless_def bind_res_Inr_iff image_iff split: if_splits)
  then show ?thesis
  proof cases
    case word
    then show ?thesis by (auto simp: plan_of_def Let_def word_item_def flagless_word)
  next
    case bytes
    have "flagless (byte_body (bf_kind y))" if "y \<in> set ys" for y
      using collect_res_set [OF bytes(1) that] byte_field_flagless bytes(2) that by blast
    then show ?thesis using bytes(2,3) by (auto simp: plan_of_def Let_def byte_item_def)
  next
    case words
    have "li_range (words_item y) = ws_range y" for y by (simp add: words_item_def)
    then show ?thesis using words words_item_flagless by (auto simp: plan_of_def Let_def)
  qed
qed

lemma expand_layout_viewable:
  assumes "expand_layout name k attrs fs = Inr P" "lg_bytes P < 2 ^ 29" "distinct (map rf_name fs)" "lk_view k" "\<not> lk_internal k"
  shows "viewable P"
proof -
  obtain d Q where d: "parse_layout name k attrs fs = Inr d" "solve (plan_of name k d) = Inr Q" "resolve_assertions Q = Inr P"
    using assms(1) by (auto simp: expand_layout_def bind_res_Inr_iff)
  obtain c where c: "declared_fields name c True fs = Inr d"
    using d(1) assms(4) by (auto simp: parse_layout_def bind_res_Inr_iff split: if_splits)
  define R where "R = plan_of name k d"
  obtain items stop where items: "solve_items (lg_grid R) (lg_bits R) (lp_prefix R) (lp_items R) = Inr (items, stop)"
    "Q = R\<lparr>lp_items := items\<rparr>"
    using d(2) by (auto simp: solve_def bind_res_Inr_iff R_def split: if_splits)
  obtain a where a: "P = R\<lparr>lp_items := items, lp_asserts := a\<rparr>"
    using resolve_assertions_grid [OF d(3)] items(2) by auto
  have same: "map li_body items = map li_body (lp_items R)" "map li_range items = map li_range (lp_items R)"
    using solve_items_solved [OF items(1)] by blast+
  have "flagless (li_body it) \<and> li_range it = None" if "it \<in> set (lp_items R)" for it
    using declared_viewable [OF c, of name k] that by (simp add: R_def)
  then have "\<forall>b \<in> set (map li_body (lp_items R)). flagless b" "\<forall>r \<in> set (map li_range (lp_items R)). r = None" by auto
  then have plain: "flagless (li_body it)" "li_range it = None" if "it \<in> set (lp_items P)" for it
    using that unfolding same [symmetric] by (auto simp: a)
  note P = expand_layout_resolved(1) [OF assms(1-3)]
  have "as_flags (lp_asserts P) = []" using P plain(1) flagless_item by (simp add: resolved_plan_def)
  moreover have "as_range (lp_asserts P) = []"
  proof (rule ccontr)
    assume "as_range (lp_asserts P) \<noteq> []"
    then obtain r where "r \<in> set (as_range (lp_asserts P))" by (cases "as_range (lp_asserts P)") auto
    then obtain it where "it \<in> set (lp_items P)" "range_of_item it = Inr [r]" using P by (auto simp: resolved_plan_def)
    then show False using plain(2) by (simp add: range_of_item_def)
  qed
  moreover have "lp_internal R = lk_internal k" by (auto simp: R_def plan_of_def Let_def split: layout_decl.splits)
  ultimately show ?thesis using assms(5) by (simp add: viewable_def a)
qed


section \<open>The generated implementations\<close>

text \<open>The \<open>impl Layout\<close> and \<open>impl View\<close> of a plan. The constant tables are those of \<open>tables\<close>. A method that
  panics has no value: the property below shows that neither decode nor verify does.\<close>

definition layout_impl ::
    "('c, 's) lay_types \<Rightarrow> lay_plan \<Rightarrow> ('c lay_value list, 'b) layout \<Rightarrow> ('c lay_value list, 'b) layout" where
  "layout_impl T P tables =
     tables\<lparr>lay_NAME := lp_name P, WIRE_BYTES := lg_bytes P, DECODE_FALLIBLE := asserting P,
       decode_slice := (\<lambda>bytes. the (lay_decode_slice T P bytes)),
       lay_encode_into := (\<lambda>B v out. push B out (the (lay_encode T P v))), lay_PREFIX_BITS := lp_prefix P\<rparr>"

definition view_impl ::
    "('c, 's) lay_types \<Rightarrow> lay_plan \<Rightarrow> ('c lay_value list, 'b) layout \<Rightarrow> (u8 list, 'c lay_value list, 'b) view" where
  "view_impl T P tables =
     \<lparr>view_owned = layout_impl T P tables, from_slice = view_from_slice P, from_slice_mut = view_from_slice P,
      as_wire = (\<lambda>wire. wire), vw_decode = (\<lambda>wire. projr (the (view_decode T P wire))),
      vw_verify = Some (\<lambda>wire. the (view_verify T P wire))\<rparr>"

lemma generated_view_agrees:
  assumes "resolved_plan P" "viewable P" "prefix_small P" "algorithms_ok T P"
  shows "view_agrees (view_impl T P tables)"
  unfolding view_agrees_def
proof
  fix bytes
  show "case from_slice (view_impl T P tables) bytes of
      None \<Rightarrow> length bytes \<noteq> WIRE_BYTES (view_owned (view_impl T P tables))
    | Some v \<Rightarrow> length bytes = WIRE_BYTES (view_owned (view_impl T P tables)) \<and> as_wire (view_impl T P tables) v = bytes
        \<and> decode_slice (view_owned (view_impl T P tables)) bytes
          = map_res (\<lambda>_. vw_decode (view_impl T P tables) v) (run_verify (view_impl T P tables) v)"
  proof (cases "length bytes = lg_bytes P")
    case True
    from decode_is_view [OF assms this] obtain v vs where "view_verify T P bytes = Some v" "view_decode T P bytes = Some (Inr vs)"
      "lay_decode T P bytes = Some (map_res (\<lambda>_. vs) v)" by blast
    then show ?thesis
      using True by (simp add: view_impl_def layout_impl_def view_from_slice_def run_verify_def lay_decode_slice_def)
  qed (simp add: view_impl_def layout_impl_def view_from_slice_def)
qed

section \<open>Properties\<close>

definition viewed_keys :: layout_keys where
  "viewed_keys = packet_keys\<lparr>lk_view := True\<rparr>"

lemma viewed_accepted:
  "case expand_layout ''Packet'' viewed_keys [] packet_fields of
     Inr P \<Rightarrow> prefix_small P \<and> lg_bytes P = 6 \<and> map ca_width (as_check (lp_asserts P)) = [2] \<and> length (lp_items P) = 3
   | Inl _ \<Rightarrow> False"
  by code_simp

definition no_tables :: "(unit lay_value list, u8 list) layout" where
  "no_tables =
     \<lparr>lay_NAME = [], WIRE_BYTES = 0, FIELDS = [], DECODE_FALLIBLE = False, decode_slice = (\<lambda>_. Inr []),
      lay_encode_into = (\<lambda>B v out. push B out []), lay_PREFIX_BITS = 0, STATED = [], TYPES = [], CONSTANTS = [], RANGES = [],
      lay_COVERED = []\<rparr>"

text \<open>C27: The generated view of a layout agrees with its owned type on every wire, valid or not. Nothing panics;
  \<open>decode\<close> returns the error \<open>verify\<close> finds, the same of several, and otherwise the value \<open>decode\<close> of the view gives; each accessor
  reads its field of that value, checked or not. So \<open>decode_prefix\<close>, of any bytes, is \<open>Short\<close> or what a checked view
  of the first bytes gives, with the size of the layout. The layout is one the macro accepts with a view and not
  \<open>internal\<close>, of less than 2^29 bytes, with distinct field names, a prefix shorter than 64 bits, and algorithms that
  build.\<close>

theorem view_decodes_as_owned:
  assumes "expand_layout name k attrs fs = Inr P" "lk_view k" "\<not> lk_internal k" "lg_bytes P < 2 ^ 29" "distinct (map rf_name fs)"
    and "prefix_small P" "algorithms_ok T P" "length wire = lg_bytes P"
  shows "(\<exists>v vs. view_verify T P wire = Some v \<and> view_decode T P wire = Some (Inr vs)
      \<and> lay_decode T P wire = Some (map_res (\<lambda>_. vs) v) \<and> length vs = length (lp_items P)
      \<and> (\<forall>i < length vs. view_get T P wire (lp_items P ! i) = Some (Inr (vs ! i))))
    \<and> decode_prefix (layout_impl T P tables) bytes =
        (if length bytes < lg_bytes P then Inl (Short (lg_bytes P) (length bytes) 0)
         else map_res (\<lambda>v. (vw_decode (view_impl T P tables) v, lg_bytes P))
                (checked_view (view_impl T P tables) (take (lg_bytes P) bytes)))"
proof -
  note P = expand_layout_resolved(1) [OF assms(1,4,5)] expand_layout_viewable [OF assms(1,4,5,2,3)]
  have "view_owned (view_impl T P tables) = layout_impl T P tables" "WIRE_BYTES (layout_impl T P tables) = lg_bytes P"
    by (simp_all add: view_impl_def layout_impl_def)
  then show ?thesis
    using agreeing_view_prefix [OF generated_view_agrees [OF P assms(6,7)], of tables bytes] decode_is_view [OF P assms(6-8)] by auto
qed

theorem view_decodes_as_owned_witness:
  "\<exists>P v vs. expand_layout ''Packet'' viewed_keys [] packet_fields = Inr P
    \<and> view_verify packet_types P [0xCA, 0xFE, 1, 44, 0, 0] = Some v \<and> view_decode packet_types P [0xCA, 0xFE, 1, 44, 0, 0] = Some (Inr vs)
    \<and> lay_decode packet_types P [0xCA, 0xFE, 1, 44, 0, 0] = Some (map_res (\<lambda>_. vs) v) \<and> length vs = 3
    \<and> decode_prefix (layout_impl packet_types P no_tables) [0xCA] = Inl (Short 6 1 0)"
proof -
  obtain P where P: "expand_layout ''Packet'' viewed_keys [] packet_fields = Inr P" "prefix_small P" "lg_bytes P = 6"
    "map ca_width (as_check (lp_asserts P)) = [2]" "length (lp_items P) = 3"
    using viewed_accepted by (auto split: sum.splits)
  have "lk_view viewed_keys" "\<not> lk_internal viewed_keys" by (simp_all add: viewed_keys_def packet_keys_def)
  moreover have "distinct (map rf_name packet_fields)" by code_simp
  moreover have "lg_bytes P < 2 ^ 29" "length [0xCA, 0xFE, 1, 44, 0, 0 :: u8] = lg_bytes P" using P(3) by simp_all
  ultimately show ?thesis
    using view_decodes_as_owned [OF P(1) _ _ _ _ P(2) packet_algorithms [OF P(4)], of "[0xCA, 0xFE, 1, 44, 0, 0]" no_tables "[0xCA]"] P(1,3,5)
    by auto
qed

end
