(* ===== verification/BitGroups.thy ===== *)
theory BitGroups
  imports LayoutRoundTrip
begin

text \<open>
  A struct of bit fields as one codec, \<open>#[derive(FieldCodec)]\<close> on a struct (\<open>layline-derive/src/layout/group.rs\<close>,
  with the width and the keys of \<open>codec.rs\<close>), and the overlay accessors of a bit field
  (\<open>layout/emit.rs\<close>). A panic is \<open>None\<close>, and so is the reading that the macro says cannot be.
\<close>

section \<open>The declaration\<close>

record group_keys =
  gk_trunc :: bool
  gk_order :: bit_order

text \<open>The width of \<open>bits_attr\<close>.\<close>

definition codec_width :: "string \<Rightarrow> nat \<Rightarrow> derive_error + nat" where
  "codec_width name bits = (if bits = 0 \<or> bits > 64 then Inl (Refused name ''outside 1..=64'') else Inr bits)"

text \<open>\<open>truncate\<close> and \<open>order\<close>, as \<open>derive\<close> reads them: only a struct of bit fields takes them.\<close>

definition group_keys_of :: "string \<Rightarrow> bool \<Rightarrow> bool \<Rightarrow> bit_order option \<Rightarrow> derive_error + group_keys" where
  "group_keys_of name grouped trunc order =
     (if \<not> grouped \<and> (trunc \<or> order \<noteq> None) then Inl (Refused name ''truncate and order apply to a struct of bit fields'')
      else Inr \<lparr>gk_trunc = trunc, gk_order = (case order of Some ord \<Rightarrow> ord | None \<Rightarrow> Lsb)\<rparr>)"

definition group_field_of :: "rust_field \<Rightarrow> derive_error + word_field" where
  "group_field_of f =
     bind_res (word_field_of f) (\<lambda>w.
       if wf_overlays w \<noteq> [] then Inl (Refused (wf_name w) ''overlay does not apply in a group'')
       else if wf_range w \<noteq> None then Inl (Refused (wf_name w) ''range does not apply in a group'')
       else if wf_at w \<noteq> None then Inl (Refused (wf_name w) ''at does not apply in a group'')
       else Inr w)"

definition group_fields :: "string \<Rightarrow> nat \<Rightarrow> rust_field list \<Rightarrow> derive_error + word_field list" where
  "group_fields name bits fs =
     bind_res (collect_res group_field_of fs) (\<lambda>fields.
       if fields = [] then Inl (Refused name ''a group needs at least one field'')
       else if sum_list (map wf_bits fields) \<noteq> bits then Inl (Refused name ''the fields do not cover the group'')
       else Inr fields)"

section \<open>The codec\<close>

definition group_packed :: "word_field \<Rightarrow> packed" where
  "group_packed f = \<lparr>pk_ty = wf_ty f, pk_reading = reading_of (wf_kind f), pk_bits = wf_bits f\<rparr>"

text \<open>Each field with the bit it starts at.\<close>

fun group_slots :: "bit_order \<Rightarrow> nat \<Rightarrow> nat \<Rightarrow> word_field list \<Rightarrow> (nat \<times> packed) list" where
  "group_slots ord bits offset [] = []"
| "group_slots ord bits offset (f # fs) =
     ((case ord of Lsb \<Rightarrow> offset | Msb \<Rightarrow> bits - offset - wf_bits f), group_packed f)
       # group_slots ord bits (offset + wf_bits f) fs"

definition group_mask :: "nat \<Rightarrow> u64 option" where
  "group_mask width = (if width < 64 then Some (push_bit width 1 - 1) else None)"

definition group_raw :: "nat \<Rightarrow> nat \<Rightarrow> u64 \<Rightarrow> u64" where
  "group_raw start width raw =
     (let r = if start \<noteq> 0 then drop_bit start raw else raw
      in case group_mask width of Some m \<Rightarrow> if start + width < 64 then r AND m else r | None \<Rightarrow> r)"

definition group_read :: "('c, 's) lay_types \<Rightarrow> nat \<times> packed \<Rightarrow> u64 \<Rightarrow> 'c lay_value option" where
  "group_read T slot raw =
     (case slot of (start, p) \<Rightarrow>
        let r = group_raw start (pk_bits p) raw
        in case pk_reading p of
             RUint n \<Rightarrow> Some (LvUint (if n = 64 then ucast r else take_bit n (ucast r)))
           | RInt \<Rightarrow> Some (LvInt (sign_extended (ucast r) (pk_bits p) (pk_ty p)))
           | RBool \<Rightarrow> Some (LvBool (from_raw bool_codec r))
           | RCodec \<Rightarrow> Some (LvOther (from_raw (lt_codec T (pk_ty p)) r))
           | RNative _ \<Rightarrow> None)"

definition group_from_raw ::
    "('c, 's) lay_types \<Rightarrow> group_keys \<Rightarrow> nat \<Rightarrow> word_field list \<Rightarrow> u64 \<Rightarrow> 'c lay_value list option" where
  "group_from_raw T k bits ws raw = those (map (\<lambda>slot. group_read T slot raw) (group_slots (gk_order k) bits 0 ws))"

definition group_value :: "('c, 's) lay_types \<Rightarrow> packed \<Rightarrow> 'c lay_value \<Rightarrow> u64 option" where
  "group_value T p v =
     (case (pk_reading p, v) of
        (RUint n, LvUint x) \<Rightarrow> Some (ucast x)
      | (RInt, LvInt x) \<Rightarrow> Some (ucast x)
      | (RBool, LvBool b) \<Rightarrow> Some (to_raw bool_codec b)
      | (RCodec, LvOther c) \<Rightarrow> Some (to_raw (lt_codec T (pk_ty p)) c)
      | _ \<Rightarrow> None)"

definition group_masked :: "nat \<Rightarrow> u64 \<Rightarrow> u64" where
  "group_masked width raw = (case group_mask width of Some m \<Rightarrow> raw AND m | None \<Rightarrow> raw)"

definition group_write :: "('c, 's) lay_types \<Rightarrow> bool \<Rightarrow> nat \<times> packed \<Rightarrow> 'c lay_value \<Rightarrow> u64 \<Rightarrow> u64 option" where
  "group_write T trunc slot v bits =
     (case slot of (start, p) \<Rightarrow>
        Option.bind (group_value T p v) (\<lambda>raw.
          if \<not> trunc \<and> \<not> fits_check T p v then None
          else Some (bits OR (if start = 0 then group_masked (pk_bits p) raw
                              else push_bit start (group_masked (pk_bits p) raw)))))"

fun group_writes :: "('c, 's) lay_types \<Rightarrow> bool \<Rightarrow> (nat \<times> packed) list \<Rightarrow> 'c lay_value list \<Rightarrow> u64 \<Rightarrow> u64 option" where
  "group_writes T trunc [] [] bits = Some bits"
| "group_writes T trunc (slot # slots) (v # vs) bits =
     Option.bind (group_write T trunc slot v bits) (group_writes T trunc slots vs)"
| "group_writes T trunc _ _ bits = None"

definition group_to_raw ::
    "('c, 's) lay_types \<Rightarrow> group_keys \<Rightarrow> nat \<Rightarrow> word_field list \<Rightarrow> 'c lay_value list \<Rightarrow> u64 option" where
  "group_to_raw T k bits ws vs = group_writes T (gk_trunc k) (group_slots (gk_order k) bits 0 ws) vs 0"

text \<open>The integer forms, over the narrowest primitive: the cast of \<open>to_bits\<close> keeps its low bits.\<close>

definition group_register :: "nat \<Rightarrow> nat" where
  "group_register bits = (if bits \<le> 8 then 8 else if bits \<le> 16 then 16 else if bits \<le> 32 then 32 else 64)"

definition group_to_bits ::
    "('c, 's) lay_types \<Rightarrow> group_keys \<Rightarrow> nat \<Rightarrow> word_field list \<Rightarrow> 'c lay_value list \<Rightarrow> u64 option" where
  "group_to_bits T k bits ws vs = map_option (take_bit (group_register bits)) (group_to_raw T k bits ws vs)"

section \<open>Slots\<close>

fun slot_bits :: "nat \<times> packed \<Rightarrow> nat set" where
  "slot_bits (start, p) = {start..<start + pk_bits p}"

lemma slot_bits_def': "slot_bits slot = {fst slot..<fst slot + pk_bits (snd slot)}"
  by (cases slot) simp

fun apart :: "(nat \<times> packed) list \<Rightarrow> bool" where
  "apart [] = True"
| "apart (x # xs) = ((\<forall>y \<in> set xs. slot_bits x \<inter> slot_bits y = {}) \<and> apart xs)"

lemma group_slots_within:
  assumes "offset + sum_list (map wf_bits fs) \<le> bits" "slot \<in> set (group_slots ord bits offset fs)"
  shows "slot_bits slot \<subseteq> (case ord of Lsb \<Rightarrow> {offset..<offset + sum_list (map wf_bits fs)}
                                  | Msb \<Rightarrow> {bits - offset - sum_list (map wf_bits fs)..<bits - offset})"
  using assms
proof (induction fs arbitrary: offset)
  case (Cons f fs)
  show ?case
  proof (cases "slot \<in> set (group_slots ord bits (offset + wf_bits f) fs)")
    case True
    have "offset + wf_bits f + sum_list (map wf_bits fs) \<le> bits" using Cons.prems(1) by simp
    from Cons.IH [OF this True] show ?thesis using Cons.prems(1) by (cases ord) (auto dest!: subsetD)
  next
    case False
    then show ?thesis using Cons.prems by (cases ord) (auto simp: group_packed_def)
  qed
qed simp

lemma group_slots_apart:
  "offset + sum_list (map wf_bits fs) \<le> bits \<Longrightarrow> apart (group_slots ord bits offset fs)"
proof (induction fs arbitrary: offset)
  case (Cons f fs)
  have le: "offset + wf_bits f + sum_list (map wf_bits fs) \<le> bits" using Cons.prems by simp
  have "slot_bits (case ord of Lsb \<Rightarrow> offset | Msb \<Rightarrow> bits - offset - wf_bits f, group_packed f) \<inter> slot_bits y = {}"
    if "y \<in> set (group_slots ord bits (offset + wf_bits f) fs)" for y
  proof -
    have "slot_bits (case ord of Lsb \<Rightarrow> offset | Msb \<Rightarrow> bits - offset - wf_bits f, group_packed f)
      \<inter> (case ord of Lsb \<Rightarrow> {offset + wf_bits f..<offset + wf_bits f + sum_list (map wf_bits fs)}
         | Msb \<Rightarrow> {bits - (offset + wf_bits f) - sum_list (map wf_bits fs)..<bits - (offset + wf_bits f)}) = {}"
      using le by (cases ord) (auto simp: group_packed_def)
    then show ?thesis using group_slots_within [OF le that] by blast
  qed
  then show ?case using Cons.IH [OF le] by simp
qed simp

lemma group_slots_map: "map snd (group_slots ord bits offset fs) = map group_packed fs"
  by (induction fs arbitrary: offset) simp_all

section \<open>What the group writes, it reads\<close>

definition slot_ok :: "nat \<times> packed \<Rightarrow> bool" where
  "slot_ok slot \<longleftrightarrow> leaf_ok (snd slot) \<and> \<not> is_native (snd slot) \<and> fst slot + pk_bits (snd slot) \<le> 64"

lemma group_masked_take: "group_masked width raw = take_bit width raw"
proof (rule bit_word_eqI)
  fix k
  assume "k < LENGTH(64)"
  then show "bit (group_masked width raw) k = bit (take_bit width raw) k"
    by (auto simp: group_masked_def group_mask_def bit_simps push_bit_of_1 simp flip: mask_eq_exp_minus_1)
qed

lemma bit_group_raw:
  assumes "start + width \<le> 64"
  shows "bit (group_raw start width raw) k \<longleftrightarrow> k < width \<and> bit raw (start + k)"
proof -
  have "\<not> bit raw (start + k)" if "\<not> k < width" "start + width = 64"
    using that by (intro impossible_bit) simp
  then show ?thesis
    using assms bit_imp_le_length [of raw k] by (auto simp: group_raw_def group_mask_def bit_simps push_bit_of_1 Let_def simp flip: mask_eq_exp_minus_1)
qed

lemma group_value_leaf: "\<not> is_native p \<Longrightarrow> group_value T p v = map_option ucast (leaf_raw T p v)"
proof -
  have "ucast (scast x :: u128) = (ucast x :: u64)" for x :: i64
  proof (rule bit_word_eqI)
    fix k
    assume "k < LENGTH(64)"
    then have "min 63 k = k" by simp
    then show "bit (ucast (scast x :: u128) :: u64) k = bit (ucast x :: u64) k"
      using \<open>k < LENGTH(64)\<close> by (auto simp: bit_ucast_iff bit_signed_iff)
  qed
  moreover have "ucast (ucast x :: u128) = (x :: u64)" for x
    by (rule bit_word_eqI) (auto simp: bit_simps)
  moreover assume "\<not> is_native p"
  ultimately show ?thesis
    by (auto simp: group_value_def leaf_raw_def is_native_def split: reading.splits lay_value.splits)
qed

lemma group_read_decode:
  assumes "\<not> is_native p"
  shows "group_read T (start, p) raw = Some (decode_value T p (ARegister start (pk_bits p) 8) (ucast (group_raw start (pk_bits p) raw)))"
proof -
  have "ucast (ucast x :: u128) = (x :: u64)" for x
    by (rule bit_word_eqI) (auto simp: bit_simps)
  then show ?thesis
    using assms by (auto simp: group_read_def decode_value_def is_native_def Let_def split: reading.splits)
qed

text \<open>The group holds a value in a slot.\<close>

definition slot_holds :: "('c, 's) lay_types \<Rightarrow> u64 \<Rightarrow> nat \<times> packed \<Rightarrow> 'c lay_value \<Rightarrow> bool" where
  "slot_holds T raw slot v \<longleftrightarrow> (\<exists>x. leaf_raw T (snd slot) v = Some x
     \<and> (\<forall>k < pk_bits (snd slot). bit raw (fst slot + k) = bit x k))"

lemma slot_holds_cong: "slot_holds T raw slot v \<Longrightarrow> (\<forall>k \<in> slot_bits slot. bit raw' k = bit raw k) \<Longrightarrow> slot_holds T raw' slot v"
  by (auto simp: slot_holds_def slot_bits_def')

lemma group_read_held:
  assumes "slot_ok slot" "leaf_value_ok T (snd slot) v" "slot_holds T raw slot v"
  shows "group_read T slot raw = Some v"
proof -
  obtain start p where slot: "slot = (start, p)" by force
  obtain x where x: "leaf_raw T p v = Some x" "\<And>k. k < pk_bits p \<Longrightarrow> bit raw (start + k) = bit x k"
    using assms(3) slot by (auto simp: slot_holds_def)
  have fits: "leaf_ok p" "\<not> is_native p" "start + pk_bits p \<le> 64" using assms(1) slot by (simp_all add: slot_ok_def)
  have "ucast (group_raw start (pk_bits p) raw) = take_bit (pk_bits p) x"
    by (rule bit_word_eqI) (use x(2) fits(3) in \<open>auto simp: bit_ucast_iff bit_take_bit_iff bit_group_raw\<close>)
  then show ?thesis
    using leaf_back [OF fits(1) _ x(1), of "ARegister start (pk_bits p) 8"] assms(2) slot
      group_read_decode [OF fits(2), of T start raw] by simp
qed

text \<open>A value encode takes.\<close>

definition writable :: "('c, 's) lay_types \<Rightarrow> packed \<Rightarrow> 'c lay_value \<Rightarrow> bool" where
  "writable T p v \<longleftrightarrow> leaf_raw T p v \<noteq> None \<and> fits_check T p v"

lemma value_ok_writable: "leaf_ok p \<Longrightarrow> leaf_value_ok T p v \<Longrightarrow> writable T p v"
  using leaf_value_raw [of T p v] fits_leaf [of p T v] by (auto simp: writable_def)

lemma group_write_holds:
  assumes "slot_ok slot" "writable T (snd slot) v" "\<forall>k \<in> slot_bits slot. \<not> bit raw k"
  shows "\<exists>raw'. group_write T trunc slot v raw = Some raw' \<and> slot_holds T raw' slot v
    \<and> (\<forall>k. k \<notin> slot_bits slot \<longrightarrow> bit raw' k = bit raw k)"
proof -
  obtain start p where slot: "slot = (start, p)" by force
  obtain x where x: "leaf_raw T p v = Some x" "fits_check T p v" using assms(2) slot by (auto simp: writable_def)
  have fits: "leaf_ok p" "\<not> is_native p" "start + pk_bits p \<le> 64" using assms(1) slot by (simp_all add: slot_ok_def)
  define raw' where "raw' = raw OR push_bit start (take_bit (pk_bits p) (ucast x))"
  have "group_write T trunc slot v raw = Some raw'"
    using x slot
    by (auto simp: group_write_def group_value_leaf [OF fits(2)] group_masked_take raw'_def)
  moreover have b: "bit raw' k \<longleftrightarrow> bit raw k \<or> (start \<le> k \<and> k < start + pk_bits p \<and> bit x (k - start))" if "k < 64" for k
    using that fits(3) by (auto simp: raw'_def bit_simps)
  have "slot_holds T raw' slot v"
    using x slot assms(3) fits(3) by (auto simp: slot_holds_def b)
  moreover have "bit raw' k = bit raw k" if "k \<notin> slot_bits slot" for k
    using that slot by (auto simp: raw'_def bit_simps)
  ultimately show ?thesis by blast
qed

lemma group_writes_hold:
  assumes "apart slots" "\<forall>slot \<in> set slots. slot_ok slot" "list_all2 (\<lambda>slot v. writable T (snd slot) v) slots vs"
    "\<forall>slot \<in> set slots. \<forall>k \<in> slot_bits slot. \<not> bit raw k"
  shows "\<exists>raw'. group_writes T trunc slots vs raw = Some raw' \<and> list_all2 (slot_holds T raw') slots vs
    \<and> (\<forall>k. (\<forall>slot \<in> set slots. k \<notin> slot_bits slot) \<longrightarrow> bit raw' k = bit raw k)"
  using assms
proof (induction slots arbitrary: vs raw)
  case (Cons slot slots)
  obtain v vs' where vs: "vs = v # vs'" "writable T (snd slot) v"
    "list_all2 (\<lambda>slot v. writable T (snd slot) v) slots vs'"
    using Cons.prems(3) by (auto simp: list_all2_Cons1)
  obtain raw1 where r: "group_write T trunc slot v raw = Some raw1" "slot_holds T raw1 slot v"
    "\<forall>k. k \<notin> slot_bits slot \<longrightarrow> bit raw1 k = bit raw k"
    using group_write_holds [of slot T v raw trunc] Cons.prems(2,4) vs(2) by auto
  have "\<forall>y \<in> set slots. \<forall>k \<in> slot_bits y. \<not> bit raw1 k" using r(3) Cons.prems(1,4) by fastforce
  then obtain raw2 where r2: "group_writes T trunc slots vs' raw1 = Some raw2" "list_all2 (slot_holds T raw2) slots vs'"
    "\<forall>k. (\<forall>y \<in> set slots. k \<notin> slot_bits y) \<longrightarrow> bit raw2 k = bit raw1 k"
    using Cons.IH [of vs' raw1] Cons.prems(1,2) vs(3) by auto
  have "\<forall>k \<in> slot_bits slot. bit raw2 k = bit raw1 k" using r2(3) Cons.prems(1) by fastforce
  then have "slot_holds T raw2 slot v" using r(2) by (rule slot_holds_cong [rotated])
  then show ?case using r r2 vs(1) by auto
qed simp

text \<open>The other way: the bits of a slot, read and written.\<close>

definition codec_exact :: "('c, 's) lay_types \<Rightarrow> packed \<Rightarrow> bool" where
  "codec_exact T p \<longleftrightarrow> (pk_reading p = RCodec \<longrightarrow>
     (\<forall>r. take_bit (pk_bits p) r = r \<longrightarrow> to_raw (lt_codec T (pk_ty p)) (from_raw (lt_codec T (pk_ty p)) r) = r))"

lemma sign_extended_low:
  fixes r :: u64
  assumes "1 \<le> width" "width \<le> ty_int_bits ty" "take_bit width r = r"
  shows "take_bit width (scast (sign_extended (ucast r) width ty) :: u128) = ucast r"
    and "i_valid width (sign_extended (ucast r) width ty)"
proof -
  have le: "ty_int_bits ty \<le> 64" "width \<le> 64" using ty_int_bits_le [of ty] assms(2) by linarith+
  have b: "bit (sign_extended (ucast r :: u128) width ty) k \<longleftrightarrow> bit r (if k < width then k else width - 1)" if "k < 64" for k
  proof -
    have m: "min k (ty_int_bits ty - 1) < 64" using that by simp
    have "(if min k (ty_int_bits ty - 1) < width then min k (ty_int_bits ty - 1) else width - 1)
        = (if k < width then k else width - 1)" using assms(1,2) by auto
    moreover have "ucast (ucast r :: u128) = r" by (rule bit_word_eqI) (auto simp: bit_simps)
    ultimately have "bit (sign_extend (ucast (ucast r :: u128)) width) (min k (ty_int_bits ty - 1))
        = bit r (if k < width then k else width - 1)"
      using bit_sign_extend [OF assms(1) le(2) m, of r] by (simp only:)
    then show ?thesis using that by (simp add: sign_extended_def bit_signed_take_bit_iff min.commute)
  qed
  show "take_bit width (scast (sign_extended (ucast r) width ty) :: u128) = ucast r"
  proof (rule bit_word_eqI)
    fix k
    assume "k < LENGTH(128)"
    have "bit r k \<Longrightarrow> k < width" using assms(3) by (metis bit_take_bit_iff)
    then show "bit (take_bit width (scast (sign_extended (ucast r) width ty) :: u128)) k = bit (ucast r :: u128) k"
      using b [of k] le \<open>k < LENGTH(128)\<close> by (auto simp: bit_take_bit_iff bit_signed_iff bit_ucast_iff)
  qed
  have "sign_extend (sign_extended (ucast r) width ty) width = sign_extended (ucast r :: u128) width ty"
    by (rule bit_word_eqI) (use b assms(1) le in \<open>auto simp: bit_sign_extend\<close>)
  then show "i_valid width (sign_extended (ucast r) width ty)" using i_valid_iff assms(1) le(2) by auto
qed

lemma decode_writable:
  assumes "leaf_ok p" "\<not> is_native p" "codec_exact T p" "take_bit (pk_bits p) r = r" "pk_bits p \<le> 64"
  shows "\<exists>x. leaf_raw T p (decode_value T p (ARegister start (pk_bits p) 8) (ucast (r :: u64))) = Some x
    \<and> take_bit (pk_bits p) x = ucast r \<and> (pk_reading p \<noteq> RInt \<longrightarrow> x = ucast r) \<and> fits_check T p (decode_value T p (ARegister start (pk_bits p) 8) (ucast r))"
proof -
  have u: "ucast (ucast r :: u128) = r" by (rule bit_word_eqI) (auto simp: bit_simps)
  have t: "take_bit (pk_bits p) (ucast r :: u128) = ucast r"
  proof (rule bit_word_eqI)
    fix k
    have "bit r k \<Longrightarrow> k < pk_bits p" using assms(4) by (metis bit_take_bit_iff)
    then show "bit (take_bit (pk_bits p) (ucast r :: u128)) k = bit (ucast r :: u128) k"
      by (auto simp: bit_take_bit_iff bit_ucast_iff)
  qed
  have z: "drop_bit (pk_bits p) r = 0" using assms(4) by (metis drop_bit_take_bit diff_self_eq_0 take_bit_0)
  show ?thesis
  proof (cases "pk_reading p")
    case (RUint n)
    then have n: "pk_bits p \<le> n" "n \<in> {8, 16, 32, 64, 128}" using assms(1) by (simp_all add: leaf_ok_def)
    have "take_bit n (ucast r :: u128) = ucast r"
      using take_bit_take_bit [of n "pk_bits p" "ucast r :: u128"] n(1) by (simp only: t min.absorb2)
    then have "decode_value T p (ARegister start (pk_bits p) 8) (ucast r) = LvUint (ucast r)"
      using RUint by (simp add: decode_value_def)
    moreover have "leaf_value_ok T p (LvUint (ucast r))" using t RUint by (simp add: leaf_value_ok_def)
    ultimately show ?thesis using fits_leaf [OF assms(1), of T "LvUint (ucast r)"] t RUint by (simp add: leaf_raw_def)
  next
    case RInt
    then have w: "1 \<le> pk_bits p" "pk_bits p \<le> ty_int_bits (pk_ty p)" using assms(1) by (simp_all add: leaf_ok_def)
    let ?x = "sign_extended (ucast r) (pk_bits p) (pk_ty p)"
    note low = sign_extended_low [OF w assms(4)]
    have "leaf_value_ok T p (LvInt ?x)" using low(2) RInt by (simp add: leaf_value_ok_def)
    then show ?thesis using fits_leaf [OF assms(1), of T "LvInt ?x"] low(1) RInt by (simp add: leaf_raw_def decode_value_def)
  next
    case RBool
    then have "pk_bits p = 1" using assms(1) by (simp add: leaf_ok_def)
    then have "r = r mod 2" using assms(4) by (simp add: take_bit_eq_mod)
    also have "\<dots> = of_bool (odd r)" by (rule mod_2_eq_odd)
    finally have "r = 0 \<or> r = 1" by (cases "odd r") simp_all
    then show ?thesis using RBool \<open>pk_bits p = 1\<close> by (auto simp: decode_value_def leaf_raw_def fits_check_def bool_codec_def)
  next
    case RCodec
    then show ?thesis using assms(3,4) t u z by (simp add: codec_exact_def decode_value_def leaf_raw_def fits_check_def)
  qed (use assms(2) in \<open>simp add: is_native_def\<close>)
qed

section \<open>An accepted group\<close>

lemma group_slots_below:
  "sum_list (map wf_bits ws) \<le> bits \<Longrightarrow> slot \<in> set (group_slots ord bits 0 ws) \<Longrightarrow> slot_bits slot \<subseteq> {..<bits}"
  using group_slots_within [of 0 ws bits slot ord] by (cases ord) fastforce+

lemma group_fields_ok:
  assumes "group_fields name bits fs = Inr ws" "bits \<le> 64"
  shows "apart (group_slots ord bits 0 ws)" "\<forall>slot \<in> set (group_slots ord bits 0 ws). slot_ok slot"
    and "length (group_slots ord bits 0 ws) = length ws"
proof -
  have ws: "collect_res group_field_of fs = Inr ws" "sum_list (map wf_bits ws) = bits"
    using assms(1) by (auto simp: group_fields_def bind_res_Inr_iff split: if_splits)
  have "\<forall>w \<in> set ws. leaf_ok (group_packed w) \<and> \<not> is_native (group_packed w)"
  proof (rule collect_res_all [OF ws(1)])
    fix f w
    assume "group_field_of f = Inr w"
    then have "word_field_of f = Inr w" by (auto simp: group_field_of_def bind_res_Inr_iff split: if_splits)
    from word_field_shaped [OF this, of 0 0 None Le Lsb] show "leaf_ok (group_packed w) \<and> \<not> is_native (group_packed w)"
      by (simp add: shaped_def word_item_def group_packed_def)
  qed
  then have p: "\<forall>p \<in> set (map snd (group_slots ord bits 0 ws)). leaf_ok p \<and> \<not> is_native p" by (simp add: group_slots_map)
  show "apart (group_slots ord bits 0 ws)" using group_slots_apart [of 0 ws bits ord] ws(2) by simp
  show "length (group_slots ord bits 0 ws) = length ws" using arg_cong [OF group_slots_map, of length] by simp
  show "\<forall>slot \<in> set (group_slots ord bits 0 ws). slot_ok slot"
  proof
    fix slot assume s: "slot \<in> set (group_slots ord bits 0 ws)"
    then have q: "leaf_ok (snd slot) \<and> \<not> is_native (snd slot)" using p by auto
    have one: "1 \<le> pk_bits (snd slot)" using q by (simp add: leaf_ok_def)
    then have "fst slot + pk_bits (snd slot) - 1 \<in> slot_bits slot" by (auto simp: slot_bits_def')
    then have "fst slot + pk_bits (snd slot) - 1 < bits" using group_slots_below [OF _ s] ws(2) by blast
    then show "slot_ok slot" using q assms(2) by (simp add: slot_ok_def)
  qed
qed

lemma group_slots_cover:
  "offset + sum_list (map wf_bits fs) \<le> bits \<Longrightarrow>
     k \<in> (case ord of Lsb \<Rightarrow> {offset..<offset + sum_list (map wf_bits fs)}
             | Msb \<Rightarrow> {bits - offset - sum_list (map wf_bits fs)..<bits - offset}) \<Longrightarrow>
     \<exists>slot \<in> set (group_slots ord bits offset fs). k \<in> slot_bits slot"
proof (induction fs arbitrary: offset)
  case Nil
  then show ?case by (cases ord) auto
next
  case (Cons f fs)
  have le: "offset + wf_bits f + sum_list (map wf_bits fs) \<le> bits" using Cons.prems(1) by simp
  show ?case
  proof (cases "k \<in> slot_bits (case ord of Lsb \<Rightarrow> offset | Msb \<Rightarrow> bits - offset - wf_bits f, group_packed f)")
    case True
    then show ?thesis by auto
  next
    case False
    then have "\<exists>slot \<in> set (group_slots ord bits (offset + wf_bits f) fs). k \<in> slot_bits slot"
      using Cons.prems le by (intro Cons.IH [OF le]) (cases ord; auto simp: group_packed_def)
    then show ?thesis by auto
  qed
qed

lemma those_map2: "list_all2 (\<lambda>x y. f x = Some y) xs ys \<Longrightarrow> those (map f xs) = Some ys"
  by (induction rule: list_all2_induct) auto

text \<open>C39: A struct of bit fields that \<open>#[derive(FieldCodec)]\<close> accepts keeps its values: when every field's value
  fits its width, \<open>to_raw\<close> gives a number of the group's width, and \<open>from_raw\<close> of it gives the values back, in
  either bit order and with or without \<open>truncate\<close>.\<close>

theorem group_values_round_trip:
  assumes "group_fields name bits fs = Inr ws" "codec_width name bits = Inr n"
    and "list_all2 (\<lambda>w v. leaf_value_ok T (group_packed w) v) ws vs"
  shows "\<exists>raw. group_to_raw T k bits ws vs = Some raw \<and> take_bit bits raw = raw
    \<and> group_from_raw T k bits ws raw = Some vs"
proof -
  have le: "bits \<le> 64" using assms(2) by (auto simp: codec_width_def split: if_splits)
  define slots where "slots = group_slots (gk_order k) bits 0 ws"
  note ok = group_fields_ok [OF assms(1) le, of "gk_order k", folded slots_def]
  have "list_all2 (\<lambda>p v. leaf_value_ok T p v) (map snd slots) vs"
    using assms(3) by (simp add: slots_def group_slots_map list_all2_map1)
  then have v: "list_all2 (\<lambda>slot v. leaf_value_ok T (snd slot) v) slots vs" by (simp add: list_all2_map1)
  have w: "list_all2 (\<lambda>slot v. writable T (snd slot) v) slots vs"
    using v ok(2) by (auto simp: list_all2_conv_all_nth slot_ok_def intro!: value_ok_writable)
  obtain raw where raw: "group_writes T (gk_trunc k) slots vs 0 = Some raw" "list_all2 (slot_holds T raw) slots vs"
    "\<forall>j. (\<forall>slot \<in> set slots. j \<notin> slot_bits slot) \<longrightarrow> bit raw j = bit (0 :: u64) j"
    using group_writes_hold [OF ok(1,2) w, of 0 "gk_trunc k"] by auto
  have "list_all2 (\<lambda>slot v. group_read T slot raw = Some v) slots vs"
    using raw(2) v ok(2) by (auto simp: list_all2_conv_all_nth intro!: group_read_held)
  from those_map2 [OF this] have "group_from_raw T k bits ws raw = Some vs" by (simp add: group_from_raw_def slots_def)
  moreover have "take_bit bits raw = raw"
  proof (rule bit_word_eqI)
    fix j
    have "\<forall>slot \<in> set slots. j \<notin> slot_bits slot" if "bits \<le> j"
    proof
      fix slot assume "slot \<in> set slots"
      then have "slot_bits slot \<subseteq> {..<bits}"
        using group_slots_below [of ws bits slot "gk_order k"] assms(1)
        by (auto simp: slots_def group_fields_def bind_res_Inr_iff split: if_splits)
      then show "j \<notin> slot_bits slot" using that by auto
    qed
    then have "bits \<le> j \<Longrightarrow> \<not> bit raw j" using raw(3) by simp
    then show "bit (take_bit bits raw) j = bit raw j" by (cases "bits \<le> j") (simp_all add: bit_take_bit_iff)
  qed
  ultimately show ?thesis using raw(1) by (auto simp: group_to_raw_def slots_def)
qed

text \<open>A control byte, most significant field first: a mode of three bits, a flag, a signed step of four.\<close>

definition control_fields :: "rust_field list" where
  "control_fields =
     [\<lparr>rf_name = ''mode'', rf_ty = u8_type, rf_attrs = [FaBits (Inr 3)]\<rparr>,
      \<lparr>rf_name = ''flag'', rf_ty = TyPath False [(''bool'', NoArgs)], rf_attrs = [FaBits (Inr 1)]\<rparr>,
      \<lparr>rf_name = ''step'', rf_ty = TyPath False [(''i8'', NoArgs)], rf_attrs = [FaBits (Inr 4)]\<rparr>]"

definition control_words :: "word_field list" where
  "control_words =
     [\<lparr>wf_name = ''mode'', wf_ty = ''u8'', wf_kind = WkUint 8, wf_bits = 3, wf_at = None, wf_overlays = [], wf_range = None\<rparr>,
      \<lparr>wf_name = ''flag'', wf_ty = ''bool'', wf_kind = WkBool, wf_bits = 1, wf_at = None, wf_overlays = [], wf_range = None\<rparr>,
      \<lparr>wf_name = ''step'', wf_ty = ''i8'', wf_kind = WkInt 8, wf_bits = 4, wf_at = None, wf_overlays = [], wf_range = None\<rparr>]"

lemma control_accepted: "group_fields ''Control'' 8 control_fields = Inr control_words" "codec_width ''Control'' 8 = Inr 8"
  by code_simp+

lemma control_values:
  "list_all2 (\<lambda>w v. leaf_value_ok T (group_packed w) v) control_words [LvUint 5, LvBool True, LvInt (- 3)]"
  by (simp add: control_words_def leaf_value_ok_def group_packed_def i_valid_def take_bit_eq_mod)

theorem group_values_round_trip_witness:
  "\<forall>T :: (unit, unit) lay_types. \<exists>raw.
     group_to_raw T \<lparr>gk_trunc = False, gk_order = Msb\<rparr> 8 control_words [LvUint 5, LvBool True, LvInt (- 3)] = Some raw
     \<and> take_bit 8 raw = raw
     \<and> group_from_raw T \<lparr>gk_trunc = False, gk_order = Msb\<rparr> 8 control_words raw = Some [LvUint 5, LvBool True, LvInt (- 3)]"
  using group_values_round_trip [OF control_accepted control_values] by blast

text \<open>C40: A struct of bit fields that \<open>#[derive(FieldCodec)]\<close> accepts keeps the bits: the fields \<open>from_raw\<close> reads from
  any number are written back by \<open>to_raw\<close>, which never refuses them, as the low bits of that number, when the codecs
  of its fields keep theirs. So a group of groups is a codec as well.\<close>

theorem group_bits_round_trip:
  assumes "group_fields name bits fs = Inr ws" "codec_width name bits = Inr n"
    and "\<forall>w \<in> set ws. codec_exact T (group_packed w)"
  shows "\<exists>vs. group_from_raw T k bits ws raw = Some vs \<and> group_to_raw T k bits ws vs = Some (take_bit bits raw)"
proof -
  have le: "bits \<le> 64" "sum_list (map wf_bits ws) = bits"
    using assms(1,2) by (auto simp: codec_width_def group_fields_def bind_res_Inr_iff split: if_splits)
  define slots where "slots = group_slots (gk_order k) bits 0 ws"
  note ok = group_fields_ok [OF assms(1) le(1), of "gk_order k", folded slots_def]
  define part where "part slot = group_raw (fst slot) (pk_bits (snd slot)) raw" for slot :: "nat \<times> packed"
  define got where "got slot = decode_value T (snd slot) (ARegister (fst slot) (pk_bits (snd slot)) 8) (ucast (part slot))" for slot :: "nat \<times> packed"
  have slot: "group_read T slot raw = Some (got slot) \<and> writable T (snd slot) (got slot)
      \<and> (\<forall>x. leaf_raw T (snd slot) (got slot) = Some x \<longrightarrow> take_bit (pk_bits (snd slot)) x = ucast (part slot))"
    if "slot \<in> set slots" for slot
  proof -
    have p: "leaf_ok (snd slot)" "\<not> is_native (snd slot)" "fst slot + pk_bits (snd slot) \<le> 64"
      using ok(2) that by (simp_all add: slot_ok_def)
    have "snd slot \<in> set (map group_packed ws)" using that by (metis slots_def group_slots_map image_eqI list.set_map)
    then have e: "codec_exact T (snd slot)" using assms(3) by auto
    have "take_bit (pk_bits (snd slot)) (part slot) = part slot"
      by (rule bit_word_eqI) (use p(3) in \<open>auto simp: part_def bit_take_bit_iff bit_group_raw\<close>)
    then obtain x where "leaf_raw T (snd slot) (got slot) = Some x" "take_bit (pk_bits (snd slot)) x = ucast (part slot)"
      "fits_check T (snd slot) (got slot)"
      using decode_writable [OF p(1,2) e, of "part slot" "fst slot"] p(3) by (auto simp: got_def)
    then show ?thesis
      using group_read_decode [OF p(2), of T "fst slot" raw] by (simp add: got_def writable_def part_def)
  qed
  have "list_all2 (\<lambda>slot v. group_read T slot raw = Some v) slots (map got slots)"
    using slot by (simp add: list_all2_conv_all_nth)
  from those_map2 [OF this] have read: "group_from_raw T k bits ws raw = Some (map got slots)"
    by (simp add: group_from_raw_def slots_def)
  have "list_all2 (\<lambda>slot v. writable T (snd slot) v) slots (map got slots)"
    using slot by (simp add: list_all2_conv_all_nth)
  then obtain raw' where raw': "group_writes T (gk_trunc k) slots (map got slots) 0 = Some raw'"
    "list_all2 (slot_holds T raw') slots (map got slots)"
    "\<forall>j. (\<forall>slot \<in> set slots. j \<notin> slot_bits slot) \<longrightarrow> bit raw' j = bit (0 :: u64) j"
    using group_writes_hold [OF ok(1,2), of T "map got slots" 0 "gk_trunc k"] by auto
  have "raw' = take_bit bits raw"
  proof (rule bit_word_eqI)
    fix j
    show "bit raw' j = bit (take_bit bits raw) j"
    proof (cases "\<exists>slot \<in> set slots. j \<in> slot_bits slot")
      case True
      then obtain slot where s: "slot \<in> set slots" "j \<in> slot_bits slot" by blast
      then obtain i where "i < length slots" "slot = slots ! i" by (auto simp: in_set_conv_nth)
      then have "slot_holds T raw' slot (got slot)" using raw'(2) by (auto simp: list_all2_conv_all_nth)
      then obtain x where x: "leaf_raw T (snd slot) (got slot) = Some x"
        "\<And>i. i < pk_bits (snd slot) \<Longrightarrow> bit raw' (fst slot + i) = bit x i" by (auto simp: slot_holds_def)
      define i' where "i' = j - fst slot"
      have i': "j = fst slot + i'" "i' < pk_bits (snd slot)" using s(2) by (auto simp: i'_def slot_bits_def')
      have "bit x i' = bit (take_bit (pk_bits (snd slot)) x) i'" using i'(2) by (simp add: bit_take_bit_iff)
      also have "\<dots> = bit (ucast (part slot) :: u128) i'" using slot [OF s(1)] x(1) by simp
      also have "\<dots> = bit raw j"
        using ok(2) s(1) i' by (auto simp: part_def bit_ucast_iff bit_group_raw slot_ok_def)
      finally show ?thesis
        using x(2) [OF i'(2)] i'(1) group_slots_below [of ws bits slot "gk_order k"] le(2) s
        by (auto simp: slots_def bit_take_bit_iff)
    next
      case False
      then have "\<not> j < bits" using group_slots_cover [of 0 ws bits j "gk_order k"] le(2) by (cases "gk_order k") (auto simp: slots_def)
      then show ?thesis using False raw'(3) by (simp add: bit_take_bit_iff)
    qed
  qed
  then show ?thesis using read raw'(1) by (auto simp: group_to_raw_def slots_def)
qed

theorem group_bits_round_trip_witness:
  "\<forall>T :: (unit, unit) lay_types. \<exists>vs.
     group_from_raw T \<lparr>gk_trunc = False, gk_order = Msb\<rparr> 8 control_words 0x1BD = Some vs
     \<and> group_to_raw T \<lparr>gk_trunc = False, gk_order = Msb\<rparr> 8 control_words vs = Some (take_bit 8 0x1BD)"
proof
  fix T :: "(unit, unit) lay_types"
  have "\<forall>w \<in> set control_words. codec_exact T (group_packed w)"
    by (simp add: control_words_def codec_exact_def group_packed_def)
  then show "\<exists>vs. group_from_raw T \<lparr>gk_trunc = False, gk_order = Msb\<rparr> 8 control_words 0x1BD = Some vs
     \<and> group_to_raw T \<lparr>gk_trunc = False, gk_order = Msb\<rparr> 8 control_words vs = Some (take_bit 8 0x1BD)"
    by (rule group_bits_round_trip [OF control_accepted])
qed

section \<open>Overlays\<close>

text \<open>\<open>overlay_accessors\<close>: a getter that reads a bit field's number as another codec type, and a setter that writes it.\<close>

definition overlay_raw :: "('c, 's) lay_types \<Rightarrow> packed \<Rightarrow> 'c lay_value \<Rightarrow> u64 option" where
  "overlay_raw T p v =
     (case (pk_reading p, v) of
        (RBool, LvBool b) \<Rightarrow> Some (to_raw bool_codec b)
      | (RCodec, LvOther c) \<Rightarrow> Some (to_raw (lt_codec T (pk_ty p)) c)
      | (RUint n, LvUint x) \<Rightarrow> Some (ucast x)
      | (RInt, LvInt x) \<Rightarrow> Some (ucast x)
      | _ \<Rightarrow> None)"

definition overlay_get :: "('c, 's) lay_types \<Rightarrow> packed \<Rightarrow> overlay \<Rightarrow> 'c lay_value \<Rightarrow> 'c option" where
  "overlay_get T p ov v = map_option (from_raw (lt_codec T (ov_ty ov))) (overlay_raw T p v)"

definition overlay_set :: "('c, 's) lay_types \<Rightarrow> packed \<Rightarrow> overlay \<Rightarrow> 'c \<Rightarrow> 'c lay_value option" where
  "overlay_set T p ov c =
     (let raw = to_raw (lt_codec T (ov_ty ov)) c
      in case pk_reading p of
           RBool \<Rightarrow> Some (LvBool (from_raw bool_codec raw))
         | RCodec \<Rightarrow> Some (LvOther (from_raw (lt_codec T (pk_ty p)) raw))
         | RUint n \<Rightarrow> Some (LvUint (take_bit n (ucast raw)))
         | RInt \<Rightarrow> Some (LvInt (signed_take_bit (ty_int_bits (pk_ty p) - 1) (ucast raw)))
         | RNative _ \<Rightarrow> None)"

text \<open>An overlay of an unsigned field, of a \<open>bool\<close>, or of a codec, is read back and fits the field.\<close>

lemma overlay_round_trip:
  assumes "leaf_ok p" "pk_bits p \<le> 64" "pk_reading p \<noteq> RInt" "\<not> is_native p" "codec_exact T p"
    and "take_bit (pk_bits p) (to_raw (lt_codec T (ov_ty ov)) c) = to_raw (lt_codec T (ov_ty ov)) c"
    and "from_raw (lt_codec T (ov_ty ov)) (to_raw (lt_codec T (ov_ty ov)) c) = c"
  shows "\<exists>v. overlay_set T p ov c = Some v \<and> overlay_get T p ov v = Some c \<and> fits_check T p v"
proof -
  define r where "r = to_raw (lt_codec T (ov_ty ov)) c"
  have r: "take_bit (pk_bits p) r = r" using assms(6) by (simp add: r_def)
  define v where "v = decode_value T p (ARegister 0 (pk_bits p) 8) (ucast r)"
  have u: "ucast (ucast r :: u128) = r" by (rule bit_word_eqI) (auto simp: bit_simps)
  have x: "leaf_raw T p v = Some (ucast r)" "fits_check T p v"
    using decode_writable [OF assms(1,4,5) r assms(2), of 0] assms(3) by (auto simp: v_def)
  have w: "take_bit 64 (ucast r :: u128) = ucast r"
    by (rule bit_word_eqI) (auto simp: bit_take_bit_iff bit_ucast_iff dest: bit_imp_le_length)
  have "overlay_set T p ov c = Some v"
    using u w assms(3,4) by (auto simp: overlay_set_def v_def decode_value_def is_native_def r_def Let_def split: reading.splits)
  moreover have "overlay_raw T p v = group_value T p v"
    by (auto simp: overlay_raw_def group_value_def split: reading.splits lay_value.splits)
  then have "overlay_raw T p v = Some r" using x(1) u group_value_leaf [OF assms(4), of T v] by simp
  ultimately show ?thesis using x(2) assms(7) by (auto simp: overlay_get_def r_def)
qed

text \<open>Of a signed field the setter does not extend the sign, so encode refuses the value it stores, and the getter
  hands the codec the bits above the field.\<close>

lemma signed_overlay_misread:
  fixes T :: "('c, 's) lay_types" and p :: packed
  defines "p \<equiv> \<lparr>pk_ty = ''i8'', pk_reading = RInt, pk_bits = 4\<rparr>"
  assumes "to_raw (lt_codec T (ov_ty ov)) c = 0xF"
  shows "leaf_ok p" "\<exists>v. overlay_set T p ov c = Some v \<and> \<not> fits_check T p v"
    and "overlay_raw T p (LvInt (- 1)) = Some 0xFFFFFFFFFFFFFFFF"
  using assms by (auto simp: leaf_ok_def ty_int_bits_def overlay_set_def overlay_raw_def fits_check_def Let_def)

end
